(* ===== verification/Prelude.thy ===== *)
theory Prelude
  imports Main "HOL-Library.Sublist"
begin

text \<open>
  The vocabulary every component shares: Go strings as byte lists, the operations of Go's
  \<open>strings\<close> package the sources call, clock values, and the generic list lemmas the component
  proofs rest on. A Go string is a sequence of bytes, so it is an Isabelle \<open>string\<close> (a list of
  \<open>char\<close>, each one byte); bytes that matter as numbers are read with \<open>of_char\<close>.
\<close>

named_theorems go_strings
  \<open>characterisations of the string operations\<close>

subsection \<open>Types\<close>

type_synonym gostring = string

text \<open>
  A \<open>time.Time\<close> is the number of nanoseconds from the zero time, so \<open>IsZero\<close> is equality with 0
  and \<open>Before\<close> is \<open><\<close>.
\<close>

type_synonym time = int

subsection \<open>Prefixes and suffixes\<close>

fun has_prefix :: "'a list \<Rightarrow> 'a list \<Rightarrow> bool" where
  "has_prefix s [] = True"
| "has_prefix [] (p # ps) = False"
| "has_prefix (c # s) (p # ps) = (c = p \<and> has_prefix s ps)"

definition has_suffix :: "'a list \<Rightarrow> 'a list \<Rightarrow> bool" where
  "has_suffix s p = has_prefix (rev s) (rev p)"

definition trim_prefix :: "'a list \<Rightarrow> 'a list \<Rightarrow> 'a list" where
  "trim_prefix s p = (if has_prefix s p then drop (length p) s else s)"

definition trim_suffix :: "'a list \<Rightarrow> 'a list \<Rightarrow> 'a list" where
  "trim_suffix s p = (if has_suffix s p then take (length s - length p) s else s)"

lemma has_prefix_iff [go_strings]: "has_prefix s p \<longleftrightarrow> (\<exists>t. s = p @ t)"
  by (induction s p rule: has_prefix.induct) auto

lemma has_prefix_append [simp]: "has_prefix (p @ t) p"
  by (auto simp: has_prefix_iff)

lemma has_prefix_length: "has_prefix s p \<Longrightarrow> length p \<le> length s"
  by (auto simp: has_prefix_iff)

lemma has_prefix_trans: "has_prefix a b \<Longrightarrow> has_prefix b c \<Longrightarrow> has_prefix a c"
  by (auto simp: has_prefix_iff)

lemma has_prefix_linear:
  "has_prefix s p \<Longrightarrow> has_prefix s q \<Longrightarrow> length p \<le> length q \<Longrightarrow> has_prefix q p"
  by (auto simp: has_prefix_iff append_eq_append_conv2)

lemma has_suffix_iff [go_strings]: "has_suffix s p \<longleftrightarrow> (\<exists>t. s = t @ p)"
  by (auto simp: has_suffix_def has_prefix_iff) (metis rev_append rev_rev_ident)

lemma has_suffix_append [simp]: "has_suffix (t @ p) p"
  by (auto simp: has_suffix_iff)

lemma trim_prefix_append [simp]: "trim_prefix (p @ t) p = t"
  by (simp add: trim_prefix_def)

lemma trim_suffix_append [simp]: "trim_suffix (t @ p) p = t"
  by (simp add: trim_suffix_def)

lemma length_trim_prefix: "length (trim_prefix s p) \<le> length s"
  by (simp add: trim_prefix_def)

lemma length_trim_suffix: "length (trim_suffix s p) \<le> length s"
  by (simp add: trim_suffix_def)

lemma set_trim_prefix: "set (trim_prefix s p) \<subseteq> set s"
  by (auto simp: trim_prefix_def dest: in_set_dropD)

lemma set_trim_suffix: "set (trim_suffix s p) \<subseteq> set s"
  by (auto simp: trim_suffix_def dest: in_set_takeD)

subsection \<open>Cutting, splitting and joining at a one-byte separator\<close>

text \<open>\<open>strings.Cut(s, sep)\<close>: the text before and after the first separator, and whether there is one.\<close>

definition cut :: "'a \<Rightarrow> 'a list \<Rightarrow> 'a list \<times> 'a list \<times> bool" where
  "cut c s = (takeWhile (\<lambda>x. x \<noteq> c) s, drop 1 (dropWhile (\<lambda>x. x \<noteq> c) s), c \<in> set s)"

text \<open>\<open>strings.Split(s, sep)\<close>: never empty, and one element more than there are separators.\<close>

fun split_on :: "'a \<Rightarrow> 'a list \<Rightarrow> 'a list list" where
  "split_on c [] = [ [] ]"
| "split_on c (x # xs) =
     (if x = c then [] # split_on c xs
      else (case split_on c xs of [] \<Rightarrow> [ [x] ] | p # ps \<Rightarrow> (x # p) # ps))"

text \<open>\<open>strings.Join(parts, sep)\<close>.\<close>

fun join :: "'a list \<Rightarrow> 'a list list \<Rightarrow> 'a list" where
  "join sep [] = []"
| "join sep [p] = p"
| "join sep (p # q # ps) = p @ sep @ join sep (q # ps)"

lemma split_on_nonempty [simp]: "split_on c s \<noteq> []"
  by (cases s) (auto split: list.splits)

lemma split_on_no_sep: "c \<notin> set s \<Longrightarrow> split_on c s = [s]"
  by (induction s) auto

lemma split_on_append_sep: "c \<notin> set p \<Longrightarrow> split_on c (p @ c # s) = p # split_on c s"
  by (induction p) auto

lemma split_on_append: "split_on c (s @ c # t) = split_on c s @ split_on c t"
  by (induction s) (auto split: list.splits)

lemma split_on_parts: "p \<in> set (split_on c s) \<Longrightarrow> c \<notin> set p"
  by (induction s arbitrary: p) (auto split: if_splits list.splits)

lemma join_Cons: "ps \<noteq> [] \<Longrightarrow> join sep (p # ps) = p @ sep @ join sep ps"
  by (cases ps) auto

lemma join_split_on: "join [c] (split_on c s) = s"
proof (induction s)
  case Nil
  then show ?case by simp
next
  case (Cons x xs)
  then show ?case
    by (cases "split_on c xs") (auto simp: join_Cons, metis join.simps(2,3) append_Cons neq_Nil_conv)
qed

lemma split_on_join:
  "ps \<noteq> [] \<Longrightarrow> (\<And>p. p \<in> set ps \<Longrightarrow> c \<notin> set p) \<Longrightarrow> split_on c (join [c] ps) = ps"
proof (induction ps)
  case Nil
  then show ?case by simp
next
  case (Cons p ps)
  show ?case
  proof (cases ps)
    case Nil
    with Cons.prems show ?thesis by (simp add: split_on_no_sep)
  next
    case (Cons q qs)
    with Cons.prems Cons.IH show ?thesis by (simp add: join_Cons split_on_append_sep)
  qed
qed

subsection \<open>Grouping by a key\<close>

text \<open>\<open>firsts\<close> keeps each value's first occurrence, and \<open>position\<close> is where it stands.\<close>

fun firsts :: "'a list \<Rightarrow> 'a list \<Rightarrow> 'a list" where
  "firsts seen [] = seen"
| "firsts seen (x # xs) = firsts (if x \<in> set seen then seen else seen @ [x]) xs"

definition position :: "'a list \<Rightarrow> 'a \<Rightarrow> nat option" where
  "position xs x = (if x \<in> set xs then Some (length (takeWhile (\<lambda>y. y \<noteq> x) xs)) else None)"

lemma firsts_snoc: "firsts seen (xs @ [x]) =
    (let s = firsts seen xs in if x \<in> set s then s else s @ [x])"
  by (induction seen xs rule: firsts.induct) auto

lemma set_firsts: "set (firsts seen xs) = set seen \<union> set xs"
  by (induction seen xs rule: firsts.induct) auto

lemma distinct_firsts: "distinct seen \<Longrightarrow> distinct (firsts seen xs)"
  by (induction seen xs rule: firsts.induct) auto

lemma position_nth:
  "position xs x = Some i \<Longrightarrow> i < length xs \<and> xs ! i = x"
  by (induction xs arbitrary: i) (auto simp: position_def split: if_splits)

lemma position_snoc: "x \<notin> set xs \<Longrightarrow> position (xs @ [x]) = (position xs)(x \<mapsto> length xs)"
  by (rule ext) (auto simp: position_def takeWhile_tail takeWhile_eq_all_conv [THEN iffD2]
      intro!: arg_cong [where f = length])

text \<open>
  The idiom of a slice of groups with a map from each key to its place: an element of a key already
  seen is added to its group, any other opens one. The result has one group per key, in the order of
  first appearance, holding that key's elements in their order.
\<close>

definition index_step ::
    "('a \<Rightarrow> 'k) \<Rightarrow> ('a \<Rightarrow> 'r) \<Rightarrow> ('r \<Rightarrow> 'a \<Rightarrow> 'r) \<Rightarrow> ('k \<Rightarrow> nat option) \<times> 'r list \<Rightarrow> 'a
      \<Rightarrow> ('k \<Rightarrow> nat option) \<times> 'r list" where
  "index_step key start add st x =
     (case fst st (key x) of
        Some i \<Rightarrow> (fst st, (snd st)[i := add (snd st ! i) x])
      | None \<Rightarrow> ((fst st)(key x \<mapsto> length (snd st)), snd st @ [start x]))"

definition group_of :: "('a \<Rightarrow> 'k) \<Rightarrow> ('a \<Rightarrow> 'r) \<Rightarrow> ('r \<Rightarrow> 'a \<Rightarrow> 'r) \<Rightarrow> 'a list \<Rightarrow> 'k \<Rightarrow> 'r" where
  "group_of key start add xs k =
     (let g = filter (\<lambda>x. key x = k) xs in foldl add (start (hd g)) (tl g))"

lemma group_of_snoc:
  "group_of key start add (xs @ [x]) k =
     (if key x \<noteq> k then group_of key start add xs k
      else if k \<in> key ` set xs then add (group_of key start add xs k) x
      else start x)"
proof -
  have "filter (\<lambda>x. key x = k) xs = [] \<longleftrightarrow> k \<notin> key ` set xs" by (auto simp: filter_empty_conv)
  then show ?thesis by (cases "filter (\<lambda>x. key x = k) xs") (simp_all add: group_of_def Let_def)
qed

lemma position_None: "position xs x = None \<longleftrightarrow> x \<notin> set xs"
  by (simp add: position_def)

lemma index_fold:
  "foldl (index_step key start add) ((\<lambda>_. None), []) xs =
     (position (firsts [] (map key xs)), map (group_of key start add xs) (firsts [] (map key xs)))"
proof (induction xs rule: rev_induct)
  case Nil
  then show ?case by (simp add: position_def)
next
  case (snoc x xs)
  let ?ks = "firsts [] (map key xs)"
  have ks: "set ?ks = key ` set xs" "distinct ?ks" by (simp_all add: set_firsts distinct_firsts)
  have st: "foldl (index_step key start add) ((\<lambda>_. None), []) (xs @ [x]) =
      index_step key start add (position ?ks, map (group_of key start add xs) ?ks) x" by (simp add: snoc)
  show ?case
  proof (cases "key x \<in> set ?ks")
    case True
    then obtain i where i: "position ?ks (key x) = Some i" by (auto simp: position_def)
    note at = position_nth [OF i]
    have "(map (group_of key start add xs) ?ks)[i := add (map (group_of key start add xs) ?ks ! i) x]
        = map (group_of key start add (xs @ [x])) ?ks"
    proof (rule nth_equalityI)
      fix j assume "j < length ((map (group_of key start add xs) ?ks)[i := add (map (group_of key start add xs) ?ks ! i) x])"
      then have j: "j < length ?ks" by simp
      have seen: "key x \<in> key ` set xs" using True ks(1) by simp
      have "?ks ! j = key x \<longleftrightarrow> j = i" using at nth_eq_iff_index_eq [OF ks(2) j, of i] by auto
      then show "(map (group_of key start add xs) ?ks)[i := add (map (group_of key start add xs) ?ks ! i) x] ! j
          = map (group_of key start add (xs @ [x])) ?ks ! j"
        using j at seen by (cases "j = i") (simp_all add: group_of_snoc)
    qed simp
    then show ?thesis unfolding st using True i by (simp add: index_step_def firsts_snoc)
  next
    case False
    then have "map (group_of key start add (xs @ [x])) ?ks = map (group_of key start add xs) ?ks"
      "group_of key start add (xs @ [x]) (key x) = start x"
      using ks(1) by (auto simp: group_of_snoc)
    then show ?thesis unfolding st using False position_None [of ?ks "key x"]
      by (simp add: index_step_def firsts_snoc position_snoc del: fun_upd_apply)
  qed
qed

subsection \<open>Errors as values\<close>

text \<open>A fallible operation returns \<open>Inl\<close> of its error or \<open>Inr\<close> of its value.\<close>

definition is_ok :: "'e + 'a \<Rightarrow> bool" where
  "is_ok r = (case r of Inl _ \<Rightarrow> False | Inr _ \<Rightarrow> True)"

lemma is_ok_simps [simp]: "is_ok (Inr a)" "\<not> is_ok (Inl e)"
  by (simp_all add: is_ok_def)

lemma is_ok_iff: "is_ok r \<longleftrightarrow> (\<exists>a. r = Inr a)"
  by (cases r) auto

subsection \<open>Folding\<close>

lemma fold_preserves: "P s \<Longrightarrow> (\<And>x s. x \<in> set xs \<Longrightarrow> P s \<Longrightarrow> P (f x s)) \<Longrightarrow> P (fold f xs s)"
  by (induction xs arbitrary: s) auto

end
