(* ===== verification/Core_Model.thy ===== *)
theory Core_Model
  imports Prelude
begin

text \<open>
  The value types of \<open>internal/core\<close>: entity and conclusion states, problems, facts, disposition
  records, task, collection and run snapshots, and the conclusion itself. Structs are records whose
  fields carry a short prefix (\<open>ts_\<close> for \<open>TaskSnapshot\<close>, \<open>c_\<close> for \<open>Conclusion\<close>, \<dots>), because
  record fields are global names; string enums are datatypes. \<open>TasksSnapshot\<close> nests itself, so it is
  a datatype with selectors.
\<close>

subsection \<open>States (state.go)\<close>

datatype EntityState =
  Pending | Running | Done | Blocked | Failed | Skipped | Cancelled | Empty | Incomplete | NotStarted

datatype ConclusionState =
  StateReady | StateChanged | StateWarning | StateBlocked | StateFailed | StateCancelled | StatePlanned

datatype ProgressKind = Indeterminate | Determinate | BytesKind

record Progress =
  pr_Kind :: ProgressKind
  pr_Completed :: int
  pr_Total :: int

fun IsTerminalTask :: "EntityState \<Rightarrow> bool" where
  "IsTerminalTask Done = True"
| "IsTerminalTask Blocked = True"
| "IsTerminalTask Failed = True"
| "IsTerminalTask Cancelled = True"
| "IsTerminalTask Skipped = True"
| "IsTerminalTask NotStarted = True"
| "IsTerminalTask _ = False"

subsection \<open>Annotations (problem.go, fact.go, action.go, verification.go, resolution.go)\<close>

record CommandSpec =
  cs_Executable :: gostring
  cs_Args :: "gostring list"
  cs_WorkingDir :: gostring

record Action =
  ac_Label :: gostring
  ac_Command :: "CommandSpec option"
  ac_URL :: gostring
  ac_File :: gostring
  ac_Explanation :: gostring
  ac_RequiresConfirmation :: bool
  ac_Destructive :: bool

record SourceLocation =
  sl_Path :: gostring
  sl_Line :: int
  sl_Column :: int

record Attachment =
  at_Label :: gostring
  at_Value :: gostring

text \<open>
  A \<open>Field\<close>'s dynamic value (\<open>any\<close>) matters only as a string or as something else, which no core
  operation looks into.
\<close>

datatype FieldValue = StringValue gostring | OtherValue nat

record Field =
  fd_Key :: gostring
  fd_Value :: FieldValue
  fd_Sensitive :: bool

record Problem =
  p_Code :: gostring
  p_Subject :: gostring
  p_Summary :: gostring
  p_Detail :: gostring
  p_EvidenceTail :: gostring
  p_Severity :: gostring
  p_Count :: int
  p_Unit :: gostring
  p_Location :: "SourceLocation option"
  p_Evidence :: "Attachment list"
  p_Actions :: "Action list"
  p_Fields :: "Field list"
  p_Cause :: "gostring option"
  p_Sensitive :: bool

record Fact =
  f_Name :: gostring
  f_Value :: gostring

datatype VerificationStatus =
  VerificationSatisfied | VerificationUnsatisfied | VerificationError | VerificationUnknown

record VerificationDetail =
  vd_Name :: gostring
  vd_Status :: VerificationStatus
  vd_Facts :: "Fact list"

text \<open>\<open>Resolution\<close> is empty (\<open>ResolutionNone\<close>) until the task settles successfully.\<close>

datatype Resolution =
  ResolutionNone | ResolutionExecuted | ResolutionAlreadySatisfied | ResolutionNoWork

record EvidencePhase =
  ep_Evaluated :: bool
  ep_Satisfied :: bool
  ep_Source :: gostring

record TaskEvidence =
  te_Before :: EvidencePhase
  te_After :: EvidencePhase

record TaxonomyRecord =
  tr_Reason :: gostring
  tr_Name :: gostring
  tr_Causes :: "gostring list"

subsection \<open>Snapshots (snapshot.go)\<close>

record LiveTail =
  lt_Lines :: "gostring list"
  lt_Evidence :: int
  lt_LastLineAt :: time

record TaskSnapshot =
  ts_ID :: gostring
  ts_Key :: gostring
  ts_Name :: gostring
  ts_State :: EntityState
  ts_Phase :: gostring
  ts_ActivityAt :: time
  ts_liveFirstSeenAt :: time
  ts_Progress :: Progress
  ts_Summary :: gostring
  ts_Problems :: "Problem list"
  ts_Warnings :: "Problem list"
  ts_Facts :: "Fact list"
  ts_Verification :: "VerificationDetail list"
  ts_Actions :: "Action list"
  ts_Skipped :: "TaxonomyRecord list"
  ts_Kept :: "TaxonomyRecord list"
  ts_Collection :: gostring
  ts_Declaration :: int
  ts_Resolution :: Resolution
  ts_Evidence :: TaskEvidence
  ts_synthetic :: bool
  ts_liveTail :: LiveTail

text \<open>
  The counts a live projection keeps of children it left out (child\_tally.go, tally.go). A tally's
  \<open>index\<close> maps each reason to its position in \<open>reasons\<close>.
\<close>

record ReasonTally =
  rt_Reason :: gostring
  rt_Names :: "gostring list"
  rt_Facts :: "Fact list list"

record Tally =
  tl_reasons :: "ReasonTally list"
  tl_index :: "gostring \<Rightarrow> nat option"
  tl_causes :: "gostring list"
  tl_total :: nat

record Dispositions =
  d_Skipped :: Tally
  d_Kept :: Tally

record ChildCounts =
  cc_Total :: nat
  cc_Done :: nat
  cc_Running :: bool
  cc_Pending :: bool
  cc_Unfinished :: bool
  cc_EarliestSeen :: time
  cc_NameWidth :: nat

record ChildTally =
  ct_All :: ChildCounts
  ct_Folded :: bool
  ct_Items :: Dispositions
  ct_Rest :: ChildCounts

record CollectionTally =
  clt_Count :: nat
  clt_Tasks :: ChildCounts
  clt_Settled :: nat
  clt_OwnRows :: nat
  clt_OwnRowNameWidth :: nat

datatype TasksSnapshot = TasksSnapshot
  (col_ID: gostring)
  (col_Key: gostring)
  (col_Name: gostring)
  (col_State: EntityState)
  (col_Summary: gostring)
  (col_Tasks: "TaskSnapshot list")
  (col_Collections: "TasksSnapshot list")
  (col_Sequential: bool)
  (col_Declaration: int)
  (col_tally: "ChildTally option")
  (col_collectionTally: "CollectionTally option")

record EffectRecord =
  er_Verb :: gostring
  er_Quantity :: int
  er_HasQty :: bool
  er_Object :: gostring

record ContainerRef =
  cr_ID :: gostring
  cr_Name :: gostring

type_synonym ContainerPath = "ContainerRef list"

record ChangesSnapshot =
  ch_ID :: gostring
  ch_Subject :: gostring
  ch_Records :: "EffectRecord list"
  ch_IntendedVerb :: gostring
  ch_owner :: gostring
  ch_containers :: ContainerPath

record PlanSnapshot =
  pl_ID :: gostring
  pl_Subject :: gostring
  pl_Records :: "EffectRecord list"
  pl_IntendedVerb :: gostring
  pl_owner :: gostring
  pl_containers :: ContainerPath

text \<open>
  \<open>Conclusion\<close> and \<open>Snapshot\<close>. A snapshot's \<open>Messages\<close>, \<open>Lines\<close>, version and live tallies are read
  by renderers only; the fields below are the ones the conclusion is inferred from.
\<close>

record Conclusion =
  c_State :: ConclusionState
  c_Subject :: gostring
  c_Changed :: bool
  c_Partial :: bool
  c_Warned :: bool
  c_Cancelled :: bool
  c_Explanation :: gostring
  c_Tasks :: "TaskSnapshot list"
  c_Collections :: "TasksSnapshot list"
  c_Changes :: "ChangesSnapshot list"
  c_Plans :: "PlanSnapshot list"
  c_Actions :: "Action list"
  c_ExitCode :: int
  c_RunID :: gostring
  c_StartedAt :: time
  c_FinishedAt :: time
  c_DryRun :: bool
  c_Facts :: "Fact list"

record Snapshot =
  s_Subject :: gostring
  s_Tasks :: "TaskSnapshot list"
  s_Collections :: "TasksSnapshot list"
  s_Changes :: "ChangesSnapshot list"
  s_Plans :: "PlanSnapshot list"
  s_Actions :: "Action list"
  s_DryRun :: bool
  s_Warnings :: "Problem list"
  s_Facts :: "Fact list"

subsection \<open>Container paths (snapshot.go)\<close>

text \<open>
  \<open>QualifiedSubjectSeparator\<close> is a space, U+203A in UTF-8, and a space.
\<close>

definition QualifiedSubjectSeparator :: gostring where
  "QualifiedSubjectSeparator = '' '' @ [CHR 0xE2, CHR 0x80, CHR 0xBA] @ '' ''"

text \<open>\<open>slices.Backward\<close> walks the path outermost container first.\<close>

definition Qualify :: "ContainerPath \<Rightarrow> gostring \<Rightarrow> gostring" where
  "Qualify p name = join QualifiedSubjectSeparator (map cr_Name (rev p) @ [name])"

lemma Qualify_root: "Qualify [] name = name"
  by (simp add: Qualify_def)

lemma Qualify_outer:
  "Qualify (p @ [c]) name = cr_Name c @ QualifiedSubjectSeparator @ Qualify p name"
  by (simp add: Qualify_def join_Cons)

subsection \<open>Zero-information tasks (zero\_information.go)\<close>

definition IsZeroInformationTask :: "TaskSnapshot \<Rightarrow> bool" where
  "IsZeroInformationTask t =
     (if ts_State t \<noteq> Done \<or> ts_synthetic t then False
      else if ts_Resolution t \<noteq> ResolutionNoWork \<and> ts_Resolution t \<noteq> ResolutionAlreadySatisfied
      then False
      else ts_Summary t = [] \<and> ts_Phase t = [] \<and> pr_Total (ts_Progress t) = 0
        \<and> pr_Completed (ts_Progress t) = 0 \<and> ts_Problems t = [] \<and> ts_Warnings t = []
        \<and> ts_Facts t = [] \<and> ts_Skipped t = [] \<and> ts_Kept t = [] \<and> ts_Actions t = []
        \<and> ts_Verification t = [])"

definition IsProvenNoOpTask :: "TaskSnapshot \<Rightarrow> bool" where
  "IsProvenNoOpTask t = (IsZeroInformationTask t \<and> ts_Resolution t = ResolutionAlreadySatisfied)"

end
