(* ===== verification/Core_Conclusion.thy ===== *)
theory Core_Conclusion
  imports Core_Model
begin

text \<open>
  The conclusion algebra (\<open>internal/core/conclusion.go\<close>): \<open>InferConclusion\<close> derives the headline
  state, its modifiers and the exit code from a final snapshot; \<open>FoldLeftoverMisuse\<close> and
  \<open>ApplyFailedExitCode\<close> adjust it before it is rendered. The lemmas characterise the headline by the
  set of root verdicts, so that it depends neither on declaration order nor on repetition.
\<close>

subsection \<open>Exit codes\<close>

definition ExitOK :: int where "ExitOK = 0"
definition ExitBlocked :: int where "ExitBlocked = 1"
definition ExitFailed :: int where "ExitFailed = 2"
definition ExitCancelled :: int where "ExitCancelled = 130"

lemmas exit_codes = ExitOK_def ExitBlocked_def ExitFailed_def ExitCancelled_def

definition AnyBlocked :: "Conclusion \<Rightarrow> bool" where
  "AnyBlocked c =
     (if c_State c = StateBlocked then True else list_ex (\<lambda>t. ts_State t = Blocked) (c_Tasks c))"

fun exitCodeFor :: "ConclusionState \<Rightarrow> int" where
  "exitCodeFor StateFailed = ExitFailed"
| "exitCodeFor StateBlocked = ExitBlocked"
| "exitCodeFor StateCancelled = ExitCancelled"
| "exitCodeFor _ = ExitOK"

text \<open>\<open>ApplyFailedExitCode\<close> and \<open>FoldLeftoverMisuse\<close> take a pointer; nil is \<open>None\<close>.\<close>

definition ApplyFailedExitCode :: "Conclusion option \<Rightarrow> int \<Rightarrow> Conclusion option" where
  "ApplyFailedExitCode cp code =
     (case cp of None \<Rightarrow> None
      | Some c \<Rightarrow> if code = 0 \<or> c_State c \<noteq> StateFailed then Some c
                 else Some (c\<lparr>c_ExitCode := code\<rparr>))"

definition FoldLeftoverMisuse :: "Conclusion option \<Rightarrow> gostring option \<Rightarrow> Conclusion option" where
  "FoldLeftoverMisuse cp misuse =
     (case cp of None \<Rightarrow> None
      | Some c \<Rightarrow> if misuse = None \<or> c_ExitCode c \<noteq> ExitOK then Some c
                 else Some (c\<lparr>c_State := StateFailed, c_ExitCode := ExitFailed\<rparr>))"

subsection \<open>Warnings at any depth\<close>

fun anyTaskWarned :: "TaskSnapshot list \<Rightarrow> bool" where
  "anyTaskWarned [] = False"
| "anyTaskWarned (t # ts) = (if length (ts_Warnings t) > 0 then True else anyTaskWarned ts)"

lemma size_col_Collections: "size_list size (col_Collections col) < size col"
  by (cases col) simp

lemma size_col_Collections_less [simp]:
  "size_list size (col_Collections col) < Suc (size col + size_list size cols)"
  using size_col_Collections [of col] by linarith

function anyCollectionWarned :: "TasksSnapshot list \<Rightarrow> bool" where
  "anyCollectionWarned [] = False"
| "anyCollectionWarned (col # cols) =
     (if anyTaskWarned (col_Tasks col) \<or> anyCollectionWarned (col_Collections col) then True
      else anyCollectionWarned cols)"
  by pat_completeness auto
termination
  by (relation "measure (size_list size)") simp_all

text \<open>Every task at or below a list of collections: what the recursive walk reads.\<close>

function all_tasks :: "TasksSnapshot list \<Rightarrow> TaskSnapshot list" where
  "all_tasks [] = []"
| "all_tasks (col # cols) = col_Tasks col @ all_tasks (col_Collections col) @ all_tasks cols"
  by pat_completeness auto
termination
  by (relation "measure (size_list size)") simp_all

lemma anyTaskWarned_iff: "anyTaskWarned ts \<longleftrightarrow> (\<exists>t. t \<in> set ts \<and> ts_Warnings t \<noteq> [])"
  by (induction ts) auto

lemma anyCollectionWarned_iff:
  "anyCollectionWarned cols \<longleftrightarrow> (\<exists>t. t \<in> set (all_tasks cols) \<and> ts_Warnings t \<noteq> [])"
  by (induction cols rule: anyCollectionWarned.induct) (auto simp: anyTaskWarned_iff)

subsection \<open>InferConclusion\<close>

record verdicts =
  hasFailed :: bool
  hasBlocked :: bool
  hasCancelled :: bool
  hasIncomplete :: bool
  hasDone :: bool

definition no_verdicts :: verdicts where
  "no_verdicts = \<lparr>hasFailed = False, hasBlocked = False, hasCancelled = False,
     hasIncomplete = False, hasDone = False\<rparr>"

text \<open>The two switches differ on \<open>Empty\<close>: a root task never reads it, a collection counts as done.\<close>

fun note_task :: "EntityState \<Rightarrow> verdicts \<Rightarrow> verdicts" where
  "note_task Failed v = v\<lparr>hasFailed := True\<rparr>"
| "note_task Blocked v = v\<lparr>hasBlocked := True\<rparr>"
| "note_task Cancelled v = v\<lparr>hasCancelled := True\<rparr>"
| "note_task Pending v = v\<lparr>hasIncomplete := True\<rparr>"
| "note_task Running v = v\<lparr>hasIncomplete := True\<rparr>"
| "note_task Incomplete v = v\<lparr>hasIncomplete := True\<rparr>"
| "note_task NotStarted v = v\<lparr>hasIncomplete := True\<rparr>"
| "note_task Done v = v\<lparr>hasDone := True\<rparr>"
| "note_task Skipped v = v\<lparr>hasDone := True\<rparr>"
| "note_task Empty v = v"

fun note_collection :: "EntityState \<Rightarrow> verdicts \<Rightarrow> verdicts" where
  "note_collection Empty v = v\<lparr>hasDone := True\<rparr>"
| "note_collection st v = note_task st v"

definition root_verdicts :: "Snapshot \<Rightarrow> verdicts" where
  "root_verdicts s =
     fold (\<lambda>col. note_collection (col_State col)) (s_Collections s)
       (fold (\<lambda>t. note_task (ts_State t)) (s_Tasks s) no_verdicts)"

definition has_changes :: "Snapshot \<Rightarrow> bool" where
  "has_changes s = list_ex (\<lambda>ch. length (ch_Records ch) > 0) (s_Changes s)"

definition headline :: "Snapshot \<Rightarrow> verdicts \<Rightarrow> bool \<Rightarrow> ConclusionState" where
  "headline s v warned =
     (if hasFailed v then StateFailed
      else if hasBlocked v then StateBlocked
      else if hasCancelled v then StateCancelled
      else if has_changes s then StateChanged
      else if length (s_Plans s) > 0 \<and> \<not> has_changes s \<and> \<not> hasFailed v \<and> \<not> hasBlocked v
      then StatePlanned
      else if hasDone v then StateReady
      else if warned then StateWarning
      else StateReady)"

definition plan_dry_run :: "bool \<Rightarrow> ConclusionState \<Rightarrow> ConclusionState" where
  "plan_dry_run dry st = (if dry \<and> (st = StateChanged \<or> st = StateReady) then StatePlanned else st)"

text \<open>
  \<open>InferConclusion\<close>. The warned modifier reads the headline before the dry-run rewrite, as the code
  does; \<open>Explanation\<close>, \<open>RunID\<close> and the run's times stay zero here.
\<close>

definition InferConclusion :: "Snapshot \<Rightarrow> Conclusion" where
  "InferConclusion s =
     (let v = root_verdicts s;
          hasWarning = (anyTaskWarned (s_Tasks s) \<or> anyCollectionWarned (s_Collections s));
          st = headline s v hasWarning;
          warnedModifier = (hasWarning \<or> length (s_Warnings s) > 0);
          st' = plan_dry_run (s_DryRun s) st
      in \<lparr>c_State = st', c_Subject = s_Subject s, c_Changed = has_changes s,
          c_Partial = hasIncomplete v,
          c_Warned = (warnedModifier \<and> st \<noteq> StateWarning),
          c_Cancelled = hasCancelled v, c_Explanation = [],
          c_Tasks = s_Tasks s, c_Collections = s_Collections s, c_Changes = s_Changes s,
          c_Plans = s_Plans s, c_Actions = s_Actions s,
          c_ExitCode = exitCodeFor st', c_RunID = [], c_StartedAt = 0, c_FinishedAt = 0,
          c_DryRun = s_DryRun s, c_Facts = s_Facts s\<rparr>)"

subsection \<open>The verdict flags are the set of root states\<close>

text \<open>The states the headline is computed from: every root task's and every root collection's.\<close>

definition root_states :: "Snapshot \<Rightarrow> EntityState set" where
  "root_states s = {st. (\<exists>t \<in> set (s_Tasks s). ts_State t = st)
     \<or> (\<exists>col \<in> set (s_Collections s). col_State col = st)}"

definition incomplete_states :: "EntityState set" where
  "incomplete_states = {Pending, Running, Incomplete, NotStarted}"

lemma note_task_flags:
  "hasFailed (note_task st v) = (hasFailed v \<or> st = Failed)"
  "hasBlocked (note_task st v) = (hasBlocked v \<or> st = Blocked)"
  "hasCancelled (note_task st v) = (hasCancelled v \<or> st = Cancelled)"
  "hasIncomplete (note_task st v) = (hasIncomplete v \<or> st \<in> incomplete_states)"
  "hasDone (note_task st v) = (hasDone v \<or> st = Done \<or> st = Skipped)"
  by (cases st; simp add: incomplete_states_def)+

lemma note_collection_flags:
  "hasFailed (note_collection st v) = (hasFailed v \<or> st = Failed)"
  "hasBlocked (note_collection st v) = (hasBlocked v \<or> st = Blocked)"
  "hasCancelled (note_collection st v) = (hasCancelled v \<or> st = Cancelled)"
  "hasIncomplete (note_collection st v) = (hasIncomplete v \<or> st \<in> incomplete_states)"
  "hasDone (note_collection st v) = (hasDone v \<or> st = Done \<or> st = Skipped \<or> st = Empty)"
  by (cases st; simp add: incomplete_states_def)+

lemma fold_flag:
  assumes "\<And>x v. flag (f x v) = (flag v \<or> P x)"
  shows "flag (fold f xs v) \<longleftrightarrow> flag v \<or> (\<exists>x \<in> set xs. P x)"
  by (induction xs arbitrary: v) (auto simp: assms)

text \<open>One flag over the two loops: a root task or a root collection in one of the flag's states.\<close>

lemma root_flag:
  assumes "\<And>st v. flag (note_task st v) = (flag v \<or> P st)"
    and "\<And>st v. flag (note_collection st v) = (flag v \<or> Q st)"
    and "\<not> flag no_verdicts"
  shows "flag (root_verdicts s) \<longleftrightarrow>
    (\<exists>t \<in> set (s_Tasks s). P (ts_State t)) \<or> (\<exists>col \<in> set (s_Collections s). Q (col_State col))"
proof -
  have inner: "flag (fold (\<lambda>t. note_task (ts_State t)) (s_Tasks s) no_verdicts) \<longleftrightarrow>
      (\<exists>t \<in> set (s_Tasks s). P (ts_State t))"
    using assms(3) by (subst fold_flag [where P = "\<lambda>t. P (ts_State t)"]) (simp_all add: assms(1))
  show ?thesis
    unfolding root_verdicts_def
    by (subst fold_flag [where P = "\<lambda>col. Q (col_State col)"]) (simp_all add: assms(2) inner)
qed

lemma root_verdicts_failed: "hasFailed (root_verdicts s) \<longleftrightarrow> Failed \<in> root_states s"
  using root_flag [of hasFailed "\<lambda>st. st = Failed" "\<lambda>st. st = Failed" s]
  by (auto simp: note_task_flags note_collection_flags no_verdicts_def root_states_def)

lemma root_verdicts_blocked: "hasBlocked (root_verdicts s) \<longleftrightarrow> Blocked \<in> root_states s"
  using root_flag [of hasBlocked "\<lambda>st. st = Blocked" "\<lambda>st. st = Blocked" s]
  by (auto simp: note_task_flags note_collection_flags no_verdicts_def root_states_def)

lemma root_verdicts_cancelled: "hasCancelled (root_verdicts s) \<longleftrightarrow> Cancelled \<in> root_states s"
  using root_flag [of hasCancelled "\<lambda>st. st = Cancelled" "\<lambda>st. st = Cancelled" s]
  by (auto simp: note_task_flags note_collection_flags no_verdicts_def root_states_def)

lemma root_verdicts_incomplete:
  "hasIncomplete (root_verdicts s) \<longleftrightarrow> root_states s \<inter> incomplete_states \<noteq> {}"
  using root_flag [of hasIncomplete "\<lambda>st. st \<in> incomplete_states" "\<lambda>st. st \<in> incomplete_states" s]
  by (auto simp: note_task_flags note_collection_flags no_verdicts_def root_states_def)

lemma root_verdicts_done:
  "hasDone (root_verdicts s) \<longleftrightarrow>
     Done \<in> root_states s \<or> Skipped \<in> root_states s \<or> (\<exists>col \<in> set (s_Collections s). col_State col = Empty)"
  using root_flag [of hasDone "\<lambda>st. st = Done \<or> st = Skipped"
      "\<lambda>st. st = Done \<or> st = Skipped \<or> st = Empty" s]
  by (auto simp: note_task_flags note_collection_flags no_verdicts_def root_states_def)

lemmas root_verdicts_flags = root_verdicts_failed root_verdicts_blocked root_verdicts_cancelled
  root_verdicts_incomplete root_verdicts_done

lemma has_changes_iff: "has_changes s \<longleftrightarrow> (\<exists>ch \<in> set (s_Changes s). ch_Records ch \<noteq> [])"
  by (auto simp: has_changes_def list_ex_iff)

lemmas infer_simps = InferConclusion_def Let_def headline_def plan_dry_run_def root_verdicts_flags

lemma InferConclusion_exit_code: "c_ExitCode (InferConclusion s) = exitCodeFor (c_State (InferConclusion s))"
  by (simp add: InferConclusion_def Let_def)

lemma exitCodeFor_OK: "exitCodeFor st = ExitOK \<longleftrightarrow> st \<notin> {StateFailed, StateBlocked, StateCancelled}"
  by (cases st) (simp_all add: exit_codes)

subsection \<open>The outcome axis\<close>

text \<open>
  The specification: the four outcomes of a run, by severity, and the worst one among the root
  verdicts. \<open>outcome_of\<close> reads the outcome a headline belongs to.
\<close>

datatype Outcome = OK | OutCancelled | OutBlocked | OutFailed

fun severity :: "Outcome \<Rightarrow> nat" where
  "severity OK = 0"
| "severity OutCancelled = 1"
| "severity OutBlocked = 2"
| "severity OutFailed = 3"

instantiation Outcome :: linorder
begin
definition less_eq_Outcome :: "Outcome \<Rightarrow> Outcome \<Rightarrow> bool" where
  "less_eq_Outcome a b = (severity a \<le> severity b)"
definition less_Outcome :: "Outcome \<Rightarrow> Outcome \<Rightarrow> bool" where
  "less_Outcome a b = (severity a < severity b)"
instance
proof
  fix a b :: Outcome
  show "a \<le> b \<Longrightarrow> b \<le> a \<Longrightarrow> a = b"
    by (cases a; cases b) (simp_all add: less_eq_Outcome_def)
qed (auto simp: less_eq_Outcome_def less_Outcome_def)
end

lemmas outcome_order = less_eq_Outcome_def less_Outcome_def

fun entity_outcome :: "EntityState \<Rightarrow> Outcome" where
  "entity_outcome Failed = OutFailed"
| "entity_outcome Blocked = OutBlocked"
| "entity_outcome Cancelled = OutCancelled"
| "entity_outcome _ = OK"

fun outcome_of :: "ConclusionState \<Rightarrow> Outcome" where
  "outcome_of StateFailed = OutFailed"
| "outcome_of StateBlocked = OutBlocked"
| "outcome_of StateCancelled = OutCancelled"
| "outcome_of _ = OK"

fun exit_of :: "Outcome \<Rightarrow> int" where
  "exit_of OutFailed = 2"
| "exit_of OutBlocked = 1"
| "exit_of OutCancelled = 130"
| "exit_of OK = 0"

definition worst_outcome :: "EntityState set \<Rightarrow> Outcome" where
  "worst_outcome S = (if Failed \<in> S then OutFailed else if Blocked \<in> S then OutBlocked
     else if Cancelled \<in> S then OutCancelled else OK)"

lemma worst_outcome_upper: "st \<in> S \<Longrightarrow> entity_outcome st \<le> worst_outcome S"
  by (cases st) (auto simp: worst_outcome_def outcome_order)

lemma worst_outcome_attained:
  "worst_outcome S \<noteq> OK \<Longrightarrow> \<exists>st \<in> S. entity_outcome st = worst_outcome S"
  by (auto simp: worst_outcome_def split: if_splits intro: bexI [of _ Failed] bexI [of _ Blocked]
      bexI [of _ Cancelled])

lemma worst_outcome_mono: "S \<subseteq> T \<Longrightarrow> worst_outcome S \<le> worst_outcome T"
  by (auto simp: worst_outcome_def outcome_order)

lemma outcome_InferConclusion: "outcome_of (c_State (InferConclusion s)) = worst_outcome (root_states s)"
  by (simp add: infer_simps worst_outcome_def)

lemma exitCodeFor_outcome: "exitCodeFor st = exit_of (outcome_of st)"
  by (cases st) (simp_all add: exit_codes)

text \<open>
  (C5) The exit code a conclusion carries is the one of the worst root verdict: 2 when any root task
  or collection Failed, else 1 when one Blocked, else 130 when one was Cancelled, else 0; and the
  headline state it prints belongs to that same outcome. Declaration order, the number of tasks, and
  everything else in the snapshot are irrelevant to it.
\<close>

theorem conclusion_exit_is_worst_outcome:
  "c_ExitCode (InferConclusion s) = exit_of (worst_outcome (root_states s))
   \<and> outcome_of (c_State (InferConclusion s)) = worst_outcome (root_states s)"
  by (simp add: InferConclusion_exit_code exitCodeFor_outcome outcome_InferConclusion)

text \<open>
  Declaring one more root task can only make the outcome worse: no task, whatever its state,
  lowers the severity of the headline the other tasks and collections already force.
\<close>

theorem conclusion_monotone:
  "outcome_of (c_State (InferConclusion s))
     \<le> outcome_of (c_State (InferConclusion (s\<lparr>s_Tasks := t # s_Tasks s\<rparr>)))"
proof -
  have "root_states s \<subseteq> root_states (s\<lparr>s_Tasks := t # s_Tasks s\<rparr>)"
    by (auto simp: root_states_def)
  then show ?thesis by (simp add: outcome_InferConclusion worst_outcome_mono)
qed

subsection \<open>Modifiers\<close>

text \<open>
  The warned modifier sees a warning at any nesting depth. It is set exactly when some task,
  at the root or at any depth below a collection, carries a warning, or the run itself does, except
  when the headline computed before the dry-run rewrite already is the warning one; and that
  headline needs a warning, no failed, blocked, cancelled, done or empty root entity, no recorded
  change and no plan.
\<close>

theorem conclusion_warned_at_any_depth:
  "c_Warned (InferConclusion s) \<longleftrightarrow>
     ((\<exists>t. t \<in> set (s_Tasks s) \<union> set (all_tasks (s_Collections s)) \<and> ts_Warnings t \<noteq> [])
        \<or> 0 < length (s_Warnings s))
     \<and> \<not> (worst_outcome (root_states s) = OK \<and> \<not> has_changes s \<and> s_Plans s = []
            \<and> Done \<notin> root_states s \<and> Skipped \<notin> root_states s
            \<and> Empty \<notin> col_State ` set (s_Collections s)
            \<and> (\<exists>t. t \<in> set (s_Tasks s) \<union> set (all_tasks (s_Collections s)) \<and> ts_Warnings t \<noteq> []))"
proof -
  let ?w = "\<exists>t. t \<in> set (s_Tasks s) \<union> set (all_tasks (s_Collections s)) \<and> ts_Warnings t \<noteq> []"
  have w: "(anyTaskWarned (s_Tasks s) \<or> anyCollectionWarned (s_Collections s)) = ?w"
    by (auto simp: anyTaskWarned_iff anyCollectionWarned_iff)
  have e: "Empty \<in> col_State ` set (s_Collections s) \<longleftrightarrow> (\<exists>col \<in> set (s_Collections s). col_State col = Empty)"
    unfolding image_iff by metis
  show ?thesis
    by (simp add: InferConclusion_def Let_def w headline_def root_verdicts_flags e worst_outcome_def)
qed

text \<open>
  A dry run never claims a change: whatever the snapshot holds, its headline is neither Changed
  nor Ready, it is exactly what the same run would conclude with Changed and Ready replaced by
  Planned, and the exit code is the one the real run would have.
\<close>

theorem conclusion_dry_run:
  "c_State (InferConclusion (s\<lparr>s_DryRun := True\<rparr>)) \<notin> {StateChanged, StateReady}
   \<and> c_State (InferConclusion (s\<lparr>s_DryRun := True\<rparr>)) =
       (let st = c_State (InferConclusion (s\<lparr>s_DryRun := False\<rparr>))
        in if st \<in> {StateChanged, StateReady} then StatePlanned else st)
   \<and> c_ExitCode (InferConclusion (s\<lparr>s_DryRun := True\<rparr>)) =
       c_ExitCode (InferConclusion (s\<lparr>s_DryRun := False\<rparr>))"
proof -
  have flags: "root_verdicts (s\<lparr>s_DryRun := d\<rparr>) = root_verdicts s" for d
    by (simp add: root_verdicts_def)
  have changes: "has_changes (s\<lparr>s_DryRun := d\<rparr>) = has_changes s" for d
    by (simp add: has_changes_def)
  have head: "headline (s\<lparr>s_DryRun := d\<rparr>) v w = headline s v w" for d v w
    by (simp add: headline_def changes)
  show ?thesis
    by (cases "headline s (root_verdicts s) (anyTaskWarned (s_Tasks s) \<or> anyCollectionWarned (s_Collections s))")
      (simp_all add: InferConclusion_def Let_def flags head plan_dry_run_def exit_codes)
qed

end
