(* ===== verification/Utf8.thy ===== *)
theory Utf8
  imports Prelude
begin

text \<open>
  Go's \<open>unicode/utf8\<close> as the sources use it: \<open>DecodeRuneInString\<close> (an ill-formed sequence decodes to
  U+FFFD and consumes one byte), \<open>AppendRune\<close>, \<open>ValidString\<close>, \<open>RuneCountInString\<close>, \<open>RuneStart\<close>, and
  \<open>strings.ToValidUTF8\<close>. Runes are natural numbers. The lemmas make decoding and encoding inverse on
  Unicode scalar values, so that a component proof can work on rune lists.
\<close>

type_synonym rune = nat

abbreviation byte :: "char \<Rightarrow> nat" where
  "byte c \<equiv> of_char c"

definition RuneError :: rune where "RuneError = 0xFFFD"

definition scalar :: "rune \<Rightarrow> bool" where
  "scalar r \<longleftrightarrow> r < 0xD800 \<or> (0xE000 \<le> r \<and> r \<le> 0x10FFFF)"

subsection \<open>Decoding one rune\<close>

definition cont :: "nat \<Rightarrow> bool" where
  "cont b \<longleftrightarrow> 0x80 \<le> b \<and> b \<le> 0xBF"

text \<open>The range a three- or four-byte sequence allows for its second byte depends on the first one.\<close>

definition second_ok :: "nat \<Rightarrow> nat \<Rightarrow> bool" where
  "second_ok b0 b1 \<longleftrightarrow>
     (if b0 = 0xE0 then 0xA0 \<le> b1 \<and> b1 \<le> 0xBF
      else if b0 = 0xED then 0x80 \<le> b1 \<and> b1 \<le> 0x9F
      else if b0 = 0xF0 then 0x90 \<le> b1 \<and> b1 \<le> 0xBF
      else if b0 = 0xF4 then 0x80 \<le> b1 \<and> b1 \<le> 0x8F
      else cont b1)"

definition decode2 :: "nat \<Rightarrow> gostring \<Rightarrow> rune \<times> nat" where
  "decode2 b0 s =
     (case s of
        c1 # _ \<Rightarrow> if cont (byte c1) then ((b0 - 0xC0) * 64 + (byte c1 - 0x80), 2) else (RuneError, 1)
      | _ \<Rightarrow> (RuneError, 1))"

definition decode3 :: "nat \<Rightarrow> gostring \<Rightarrow> rune \<times> nat" where
  "decode3 b0 s =
     (case s of
        c1 # c2 # _ \<Rightarrow>
          if second_ok b0 (byte c1) \<and> cont (byte c2)
          then ((b0 - 0xE0) * 4096 + (byte c1 - 0x80) * 64 + (byte c2 - 0x80), 3)
          else (RuneError, 1)
      | _ \<Rightarrow> (RuneError, 1))"

definition decode4 :: "nat \<Rightarrow> gostring \<Rightarrow> rune \<times> nat" where
  "decode4 b0 s =
     (case s of
        c1 # c2 # c3 # _ \<Rightarrow>
          if second_ok b0 (byte c1) \<and> cont (byte c2) \<and> cont (byte c3)
          then ((b0 - 0xF0) * 262144 + (byte c1 - 0x80) * 4096 + (byte c2 - 0x80) * 64
                + (byte c3 - 0x80), 4)
          else (RuneError, 1)
      | _ \<Rightarrow> (RuneError, 1))"

definition decode_rune :: "gostring \<Rightarrow> rune \<times> nat" where
  "decode_rune s =
     (case s of
        [] \<Rightarrow> (RuneError, 0)
      | c0 # rest \<Rightarrow>
          (let b0 = byte c0 in
           if b0 < 0x80 then (b0, 1)
           else if b0 < 0xC2 then (RuneError, 1)
           else if b0 < 0xE0 then decode2 b0 rest
           else if b0 < 0xF0 then decode3 b0 rest
           else if b0 < 0xF5 then decode4 b0 rest
           else (RuneError, 1)))"

lemmas decode_defs = decode_rune_def decode2_def decode3_def decode4_def Let_def

lemma decode_rune_size: "s \<noteq> [] \<Longrightarrow> 1 \<le> snd (decode_rune s) \<and> snd (decode_rune s) \<le> length s"
  by (auto simp: decode_defs split: list.splits)

lemma decode_rune_pos [simp]: "s \<noteq> [] \<Longrightarrow> 0 < snd (decode_rune s)"
  using decode_rune_size by fastforce

lemma decode_rune_le4: "snd (decode_rune s) \<le> 4"
  by (auto simp: decode_defs split: list.splits)

subsection \<open>Encoding one rune\<close>

definition encode_scalar :: "rune \<Rightarrow> gostring" where
  "encode_scalar r =
     (if r < 0x80 then [char_of r]
      else if r < 0x800 then [char_of (0xC0 + r div 64), char_of (0x80 + r mod 64)]
      else if r < 0x10000 then
        [char_of (0xE0 + r div 4096), char_of (0x80 + r div 64 mod 64), char_of (0x80 + r mod 64)]
      else
        [char_of (0xF0 + r div 262144), char_of (0x80 + r div 4096 mod 64),
         char_of (0x80 + r div 64 mod 64), char_of (0x80 + r mod 64)])"

definition encode_rune :: "rune \<Rightarrow> gostring" where
  "encode_rune r = encode_scalar (if scalar r then r else RuneError)"

lemma encode_rune_nonempty [simp]: "encode_rune r \<noteq> []"
  by (simp add: encode_rune_def encode_scalar_def)

lemma encode_rune_ascii: "r < 0x80 \<Longrightarrow> encode_rune r = [char_of r]"
  by (simp add: encode_rune_def encode_scalar_def scalar_def)

text \<open>A rune is the number its base-64 digits spell.\<close>

lemma base64_3: "(r::nat) = r div 4096 * 4096 + r div 64 mod 64 * 64 + r mod 64"
proof -
  have "r div 4096 = r div 64 div 64" by (simp flip: div_mult2_eq)
  then show ?thesis
    using div_mult_mod_eq [of r 64] div_mult_mod_eq [of "r div 64" 64] by linarith
qed

lemma base64_4:
  "(r::nat) = r div 262144 * 262144 + r div 4096 mod 64 * 4096 + r div 64 mod 64 * 64 + r mod 64"
proof -
  have "r div 262144 = r div 4096 div 64" by (simp flip: div_mult2_eq)
  then show ?thesis
    using base64_3 [of r] div_mult_mod_eq [of "r div 4096" 64] by linarith
qed

lemma base64_pack: "b < 64 \<Longrightarrow> (x * 64 + b) div 64 = (x::nat)" "b < 64 \<Longrightarrow> (x * 64 + b) mod 64 = (b::nat)"
  by simp_all

lemma base64_unpack_3:
  assumes "(r::nat) = (a * 64 + b) * 64 + c" "b < 64" "c < 64"
  shows "r div 4096 = a \<and> r div 64 mod 64 = b \<and> r mod 64 = c"
proof -
  have "r div 4096 = r div 64 div 64" by (simp flip: div_mult2_eq)
  then show ?thesis
    unfolding assms(1) by (simp only: base64_pack [OF assms(3)] base64_pack [OF assms(2)] simp_thms)
qed

lemma base64_unpack_4:
  assumes "(r::nat) = ((a * 64 + b) * 64 + c) * 64 + d" "b < 64" "c < 64" "d < 64"
  shows "r div 262144 = a \<and> r div 4096 mod 64 = b \<and> r div 64 mod 64 = c \<and> r mod 64 = d"
proof -
  have "r div 4096 = r div 64 div 64" "r div 262144 = r div 64 div 64 div 64"
    by (simp_all flip: div_mult2_eq)
  then show ?thesis
    unfolding assms(1)
    by (simp only: base64_pack [OF assms(4)] base64_pack [OF assms(3)] base64_pack [OF assms(2)] simp_thms)
qed

lemma decode_encode_1:
  "r < 0x80 \<Longrightarrow> decode_rune (encode_scalar r @ s) = (r, 1)"
  by (simp add: encode_scalar_def decode_defs)

lemma decode_encode_2:
  assumes "0x80 \<le> r" "r < 0x800"
  shows "decode_rune (encode_scalar r @ s) = (r, 2)"
proof -
  define a b where "a = r div 64" and "b = r mod 64"
  have "2 \<le> a" "a < 32" "b < 64" "r = a * 64 + b"
    using assms by (auto simp: a_def b_def)
  then show ?thesis
    using assms by (simp add: encode_scalar_def decode_defs cont_def flip: a_def b_def)
qed

lemma decode_encode_3:
  assumes "0x800 \<le> r" "r < 0x10000" "scalar r"
  shows "decode_rune (encode_scalar r @ s) = (r, 3)"
proof -
  define a b c where "a = r div 4096" and "b = r div 64 mod 64" and "c = r mod 64"
  have abc: "a < 16" "b < 64" "c < 64" "r = a * 4096 + b * 64 + c"
    using assms base64_3 [of r] by (auto simp: a_def b_def c_def)
  have "a = 0 \<Longrightarrow> 32 \<le> b" "a = 13 \<Longrightarrow> b < 32"
    using assms abc unfolding scalar_def by linarith+
  with abc(1-3) have ok: "second_ok (0xE0 + a) (0x80 + b)" "cont (0x80 + c)"
    by (auto simp: second_ok_def cont_def)
  have enc: "encode_scalar r = [char_of (0xE0 + a), char_of (0x80 + b), char_of (0x80 + c)]"
    using assms by (simp add: encode_scalar_def a_def b_def c_def)
  show ?thesis
    unfolding enc using ok abc(1-3) by (simp add: decode_defs abc(4))
qed

lemma decode_encode_4:
  assumes "0x10000 \<le> r" "scalar r"
  shows "decode_rune (encode_scalar r @ s) = (r, 4)"
proof -
  define a b c d where "a = r div 262144" and "b = r div 4096 mod 64" and "c = r div 64 mod 64"
    and "d = r mod 64"
  have "r \<le> 0x10FFFF" using assms by (auto simp: scalar_def)
  then have abcd: "a < 5" "b < 64" "c < 64" "d < 64" "r = a * 262144 + b * 4096 + c * 64 + d"
    using base64_4 [of r] by (auto simp: a_def b_def c_def d_def)
  have "a = 0 \<Longrightarrow> 16 \<le> b" "a = 4 \<Longrightarrow> b < 16"
    using assms \<open>r \<le> 0x10FFFF\<close> abcd by linarith+
  with abcd(1-4) have ok: "second_ok (0xF0 + a) (0x80 + b)" "cont (0x80 + c)" "cont (0x80 + d)"
    by (auto simp: second_ok_def cont_def)
  have enc: "encode_scalar r =
      [char_of (0xF0 + a), char_of (0x80 + b), char_of (0x80 + c), char_of (0x80 + d)]"
    using assms by (simp add: encode_scalar_def a_def b_def c_def d_def)
  show ?thesis
    unfolding enc using ok abcd(1-4) by (simp add: decode_defs abcd(5))
qed

lemma decode_encode:
  assumes "scalar r"
  shows "decode_rune (encode_rune r @ s) = (r, length (encode_rune r))"
proof -
  consider "r < 0x80" | "0x80 \<le> r" "r < 0x800" | "0x800 \<le> r" "r < 0x10000" | "0x10000 \<le> r"
    by linarith
  then show ?thesis
  proof cases
    case 1 with assms decode_encode_1 [of r s] show ?thesis by (simp add: encode_rune_def encode_scalar_def)
  next
    case 2 with assms decode_encode_2 [of r s] show ?thesis by (simp add: encode_rune_def encode_scalar_def)
  next
    case 3 with assms decode_encode_3 [of r s] show ?thesis by (simp add: encode_rune_def encode_scalar_def)
  next
    case 4 with assms decode_encode_4 [of r s] show ?thesis by (simp add: encode_rune_def encode_scalar_def)
  qed
qed

text \<open>The other direction: a well-formed sequence is the encoding of the rune it decodes to.\<close>

definition ill_formed :: "rune \<times> nat \<Rightarrow> bool" where
  "ill_formed d \<longleftrightarrow> d = (RuneError, 1)"

lemma char_of_byte_diff: "k \<le> byte c \<Longrightarrow> char_of (k + (byte c - k)) = c"
  by simp

lemma encode_decode2:
  assumes "0xC2 \<le> b0" "b0 < 0xE0" "cont (byte c1)"
  shows "encode_rune ((b0 - 0xC0) * 64 + (byte c1 - 0x80)) = [char_of b0, c1]"
    and "scalar ((b0 - 0xC0) * 64 + (byte c1 - 0x80))"
proof -
  define a b where "a = b0 - 0xC0" and "b = byte c1 - 0x80"
  have ab: "2 \<le> a" "a < 32" "b < 64" "b0 = 0xC0 + a" "byte c1 = 0x80 + b"
    using assms by (auto simp: a_def b_def cont_def)
  then show "scalar ((b0 - 0xC0) * 64 + (byte c1 - 0x80))" by (simp add: scalar_def)
  have "char_of (0x80 + b) = c1" unfolding ab(5) [symmetric] by simp
  then show "encode_rune ((b0 - 0xC0) * 64 + (byte c1 - 0x80)) = [char_of b0, c1]"
    using ab by (simp add: encode_rune_def encode_scalar_def scalar_def)
qed

lemma encode_decode3:
  assumes "0xE0 \<le> b0" "b0 < 0xF0" "second_ok b0 (byte c1)" "cont (byte c2)"
  shows "encode_rune ((b0 - 0xE0) * 4096 + (byte c1 - 0x80) * 64 + (byte c2 - 0x80))
      = [char_of b0, c1, c2]"
    and "scalar ((b0 - 0xE0) * 4096 + (byte c1 - 0x80) * 64 + (byte c2 - 0x80))"
proof -
  define a b c where "a = b0 - 0xE0" and "b = byte c1 - 0x80" and "c = byte c2 - 0x80"
  have abc: "a < 16" "b < 64" "c < 64" "b0 = 0xE0 + a" "byte c1 = 0x80 + b" "byte c2 = 0x80 + c"
    using assms by (auto simp: a_def b_def c_def cont_def second_ok_def split: if_splits)
  have lim: "a = 0 \<Longrightarrow> 32 \<le> b" "a = 13 \<Longrightarrow> b < 32"
    using assms(3) abc by (auto simp: second_ok_def)
  show sc: "scalar ((b0 - 0xE0) * 4096 + (byte c1 - 0x80) * 64 + (byte c2 - 0x80))"
  proof -
    consider "a < 13" | "a = 13" | "13 < a" by linarith
    then show ?thesis using abc lim by cases (simp_all add: scalar_def)
  qed
  have cs: "char_of (0x80 + b) = c1" "char_of (0x80 + c) = c2"
    unfolding abc(5,6) [symmetric] by simp_all
  define r where "r = a * 4096 + b * 64 + c"
  have "0x800 \<le> r" "r < 0x10000"
    using abc(1-3) lim(1) unfolding r_def by (cases "a = 0"; linarith)+
  moreover have "r div 4096 = a \<and> r div 64 mod 64 = b \<and> r mod 64 = c"
    by (rule base64_unpack_3) (use abc(1-3) in \<open>simp_all add: r_def\<close>)
  ultimately have "encode_scalar r = [char_of (0xE0 + a), char_of (0x80 + b), char_of (0x80 + c)]"
    by (simp add: encode_scalar_def)
  then show "encode_rune ((b0 - 0xE0) * 4096 + (byte c1 - 0x80) * 64 + (byte c2 - 0x80))
      = [char_of b0, c1, c2]"
    using sc abc(4-6) cs by (simp add: encode_rune_def r_def)
qed

lemma encode_decode4:
  assumes "0xF0 \<le> b0" "b0 < 0xF5" "second_ok b0 (byte c1)" "cont (byte c2)" "cont (byte c3)"
  shows "encode_rune ((b0 - 0xF0) * 262144 + (byte c1 - 0x80) * 4096 + (byte c2 - 0x80) * 64
        + (byte c3 - 0x80)) = [char_of b0, c1, c2, c3]"
    and "scalar ((b0 - 0xF0) * 262144 + (byte c1 - 0x80) * 4096 + (byte c2 - 0x80) * 64
        + (byte c3 - 0x80))"
proof -
  define a b c d where "a = b0 - 0xF0" and "b = byte c1 - 0x80" and "c = byte c2 - 0x80"
    and "d = byte c3 - 0x80"
  have abcd: "a < 5" "b < 64" "c < 64" "d < 64" "b0 = 0xF0 + a" "byte c1 = 0x80 + b"
      "byte c2 = 0x80 + c" "byte c3 = 0x80 + d"
    using assms by (auto simp: a_def b_def c_def d_def cont_def second_ok_def split: if_splits)
  have lim: "a = 0 \<Longrightarrow> 16 \<le> b" "a = 4 \<Longrightarrow> b < 16"
    using assms(3) abcd by (auto simp: second_ok_def)
  define r where "r = a * 262144 + b * 4096 + c * 64 + d"
  have r: "0x10000 \<le> r" "r \<le> 0x10FFFF"
    using abcd(1-4) lim unfolding r_def by (cases "a = 0"; cases "a = 4"; simp; linarith)+
  then show sc: "scalar ((b0 - 0xF0) * 262144 + (byte c1 - 0x80) * 4096 + (byte c2 - 0x80) * 64
        + (byte c3 - 0x80))"
    using abcd(5-8) by (simp add: scalar_def r_def)
  have cs: "char_of (0x80 + b) = c1" "char_of (0x80 + c) = c2" "char_of (0x80 + d) = c3"
    unfolding abcd(6-8) [symmetric] by simp_all
  have "r div 262144 = a \<and> r div 4096 mod 64 = b \<and> r div 64 mod 64 = c \<and> r mod 64 = d"
    by (rule base64_unpack_4) (use abcd(1-4) in \<open>simp_all add: r_def\<close>)
  with r have "encode_scalar r =
      [char_of (0xF0 + a), char_of (0x80 + b), char_of (0x80 + c), char_of (0x80 + d)]"
    by (simp add: encode_scalar_def)
  then show "encode_rune ((b0 - 0xF0) * 262144 + (byte c1 - 0x80) * 4096 + (byte c2 - 0x80) * 64
        + (byte c3 - 0x80)) = [char_of b0, c1, c2, c3]"
    using sc abcd(5-8) cs by (simp add: encode_rune_def r_def)
qed

lemma encode_decode:
  assumes "s \<noteq> []" "\<not> ill_formed (decode_rune s)"
  shows "scalar (fst (decode_rune s)) \<and> encode_rune (fst (decode_rune s)) = take (snd (decode_rune s)) s"
proof -
  obtain c0 t where s: "s = c0 # t" using assms(1) by (cases s) auto
  consider "byte c0 < 0x80" | "0xC2 \<le> byte c0" "byte c0 < 0xE0" | "0xE0 \<le> byte c0" "byte c0 < 0xF0"
    | "0xF0 \<le> byte c0" "byte c0 < 0xF5"
    using assms(2) by (auto simp: s decode_rune_def ill_formed_def Let_def split: if_splits)
  then show ?thesis
  proof cases
    case 1 then show ?thesis by (simp add: s decode_rune_def encode_rune_ascii scalar_def)
  next
    case 2
    with assms(2) show ?thesis
      by (auto simp: s decode_rune_def decode2_def Let_def ill_formed_def encode_decode2
          split: list.splits if_splits)
  next
    case 3
    with assms(2) show ?thesis
      by (auto simp: s decode_rune_def decode3_def Let_def ill_formed_def encode_decode3
          split: list.splits if_splits)
  next
    case 4
    with assms(2) show ?thesis
      by (auto simp: s decode_rune_def decode4_def Let_def ill_formed_def encode_decode4
          split: list.splits if_splits)
  qed
qed

subsection \<open>Whole strings\<close>

text \<open>Ranging over a string: the runes, ill-formed bytes each as U+FFFD.\<close>

function decode_all :: "gostring \<Rightarrow> rune list" where
  "decode_all s =
     (if s = [] then [] else fst (decode_rune s) # decode_all (drop (snd (decode_rune s)) s))"
  by pat_completeness auto
termination
  by (relation "measure length") auto

declare decode_all.simps [simp del]

definition RuneCountInString :: "gostring \<Rightarrow> nat" where
  "RuneCountInString s = length (decode_all s)"

definition encode_all :: "rune list \<Rightarrow> gostring" where
  "encode_all rs = concat (map encode_rune rs)"

function ValidString :: "gostring \<Rightarrow> bool" where
  "ValidString s =
     (if s = [] then True
      else if ill_formed (decode_rune s) then False
      else ValidString (drop (snd (decode_rune s)) s))"
  by pat_completeness auto
termination
  by (relation "measure length") auto

declare ValidString.simps [simp del]

text \<open>\<open>strings.ToValidUTF8\<close>: each run of ill-formed bytes becomes one replacement.\<close>

function to_valid :: "bool \<Rightarrow> gostring \<Rightarrow> gostring \<Rightarrow> gostring" where
  "to_valid invalid rep s =
     (if s = [] then []
      else if ill_formed (decode_rune s)
      then (if invalid then [] else rep) @ to_valid True rep (drop 1 s)
      else take (snd (decode_rune s)) s @ to_valid False rep (drop (snd (decode_rune s)) s))"
  by pat_completeness auto
termination
  by (relation "measure (\<lambda>(i, r, s). length s)") auto

declare to_valid.simps [simp del]

definition ToValidUTF8 :: "gostring \<Rightarrow> gostring \<Rightarrow> gostring" where
  "ToValidUTF8 s rep = to_valid False rep s"

definition RuneStart :: "char \<Rightarrow> bool" where
  "RuneStart c \<longleftrightarrow> \<not> cont (byte c)"

lemma decode_all_Nil [simp]: "decode_all [] = []"
  by (simp add: decode_all.simps)

lemma ValidString_Nil [simp]: "ValidString []"
  by (simp add: ValidString.simps)

lemma encode_all_simps [simp]:
  "encode_all [] = []"
  "encode_all (r # rs) = encode_rune r @ encode_all rs"
  "encode_all (rs @ qs) = encode_all rs @ encode_all qs"
  by (simp_all add: encode_all_def)

lemma ill_formed_iff: "ill_formed (r, n) \<longleftrightarrow> r = RuneError \<and> n = 1"
  by (simp add: ill_formed_def)

lemma length_encode_RuneError: "length (encode_rune RuneError) = 3"
  by (simp add: encode_rune_def encode_scalar_def RuneError_def scalar_def)

lemma decode_encode_not_ill: "scalar r \<Longrightarrow> \<not> ill_formed (decode_rune (encode_rune r @ s))"
  using length_encode_RuneError by (auto simp: decode_encode ill_formed_def)

lemma decode_all_encode_rune:
  "scalar r \<Longrightarrow> decode_all (encode_rune r @ s) = r # decode_all s"
  by (subst decode_all.simps) (simp add: decode_encode)

lemma ValidString_encode_rune: "scalar r \<Longrightarrow> ValidString (encode_rune r @ s) = ValidString s"
  by (subst ValidString.simps) (simp add: decode_encode_not_ill, simp add: decode_encode)

lemma decode_all_encode_all: "list_all scalar rs \<Longrightarrow> decode_all (encode_all rs) = rs"
  by (induction rs) (simp_all add: decode_all_encode_rune)

lemma ValidString_encode_all: "list_all scalar rs \<Longrightarrow> ValidString (encode_all rs)"
  by (induction rs) (simp_all add: ValidString_encode_rune)

lemma ValidString_decode_all:
  "ValidString s \<Longrightarrow> list_all scalar (decode_all s) \<and> encode_all (decode_all s) = s"
proof (induction s rule: ValidString.induct)
  case (1 s)
  show ?case
  proof (cases "s = []")
    case False
    with 1(2) have ok: "\<not> ill_formed (decode_rune s)" "ValidString (drop (snd (decode_rune s)) s)"
      by (auto simp: ValidString.simps [of s] split: if_splits)
    show ?thesis
      using 1(1) [OF False ok] encode_decode [OF False ok(1)] False by (simp add: decode_all.simps [of s])
  qed simp
qed

lemma ValidString_iff: "ValidString s \<longleftrightarrow> (\<exists>rs. list_all scalar rs \<and> s = encode_all rs)"
  using ValidString_decode_all ValidString_encode_all by metis

text \<open>The repaired string is the encoding of scalar values, whatever the input.\<close>

lemma to_valid_valid:
  assumes "ValidString rep"
  shows "ValidString (to_valid i rep s)"
proof -
  obtain rr where rr: "list_all scalar rr" "rep = encode_all rr"
    using assms by (auto simp: ValidString_iff)
  have "\<exists>rs. list_all scalar rs \<and> to_valid i rep s = encode_all rs"
  proof (induction "length s" arbitrary: i s rule: less_induct)
    case less
    show ?case
    proof (cases "s = [] \<or> ill_formed (decode_rune s)")
      case True
      then show ?thesis
      proof (cases "s = []")
        case False
        with True obtain rs where "list_all scalar rs" "to_valid True rep (drop 1 s) = encode_all rs"
          using less [of "drop 1 s" True] by fastforce
        with False True rr have "list_all scalar ((if i then [] else rr) @ rs) \<and>
            to_valid i rep s = encode_all ((if i then [] else rr) @ rs)"
          by (subst to_valid.simps) auto
        then show ?thesis by blast
      qed (auto simp: to_valid.simps intro: exI [of _ "[]"])
    next
      case False
      then have "length (drop (snd (decode_rune s)) s) < length s" by simp
      then obtain rs where "list_all scalar rs"
          "to_valid False rep (drop (snd (decode_rune s)) s) = encode_all rs"
        using less [of "drop (snd (decode_rune s)) s" False] by blast
      with False have "list_all scalar (fst (decode_rune s) # rs) \<and>
          to_valid i rep s = encode_all (fst (decode_rune s) # rs)"
        using encode_decode [of s] by (subst to_valid.simps) auto
      then show ?thesis by blast
    qed
  qed
  then show ?thesis by (auto simp: ValidString_iff)
qed

subsection \<open>Cutting at a rune boundary\<close>

text \<open>
  Replacing what follows by bytes that start a rune leaves a rune as it decodes: a well-formed one
  because all its bytes are kept, an ill-formed one because a shorter prefix of what followed
  completes nothing.
\<close>

definition rune_head :: "gostring \<Rightarrow> bool" where
  "rune_head u = (case u of [] \<Rightarrow> True | c # _ \<Rightarrow> RuneStart c)"

lemma decode_rune_progress: "s \<noteq> [] \<Longrightarrow> (r, k) = decode_rune s \<Longrightarrow> 0 < k"
  using decode_rune_pos [of s] by (metis snd_conv)

lemma second_ok_cont: "second_ok b0 b1 \<Longrightarrow> cont b1"
  by (auto simp: second_ok_def cont_def split: if_splits)

lemma decode_rune_local:
  assumes "s \<noteq> []" "\<not> ill_formed (decode_rune s)" "take (snd (decode_rune s)) w = take (snd (decode_rune s)) s"
  shows "decode_rune w = decode_rune s"
proof -
  have "decode_rune s = (fst (decode_rune s), length (encode_rune (fst (decode_rune s))))"
    using encode_decode [OF assms(1,2)] decode_rune_size [OF assms(1)] by (metis length_take min.absorb2 prod.collapse)
  moreover have "w = encode_rune (fst (decode_rune s)) @ drop (snd (decode_rune s)) w"
    using encode_decode [OF assms(1,2)] assms(3) by (metis append_take_drop_id)
  ultimately show ?thesis
    using encode_decode [OF assms(1,2)] decode_encode by metis
qed

lemma decode_rune_cut_ill:
  assumes "ill_formed (decode_rune (c # q @ v))" "rune_head u"
  shows "ill_formed (decode_rune (c # q @ u))"
proof (rule ccontr)
  let ?k = "snd (decode_rune (c # q @ u))"
  assume ok: "\<not> ill_formed (decode_rune (c # q @ u))"
  have "?k \<le> Suc (length q)"
  proof (cases u)
    case Nil
    then show ?thesis using decode_rune_size [of "c # q @ u"] by simp
  next
    case (Cons d u')
    with assms(2) have "\<not> cont (byte d)" by (simp add: rune_head_def RuneStart_def)
    with ok show ?thesis
      unfolding Cons
      by (cases q; cases "tl q"; cases "tl (tl q)")
        (auto simp: decode_defs ill_formed_def split: list.splits if_splits dest: second_ok_cont)
  qed
  then have "decode_rune (c # q @ v) = decode_rune (c # q @ u)"
    by (intro decode_rune_local) (use ok in \<open>auto simp: take_Cons split: nat.splits\<close>)
  with assms(1) ok show False by simp
qed

lemma decode_rune_cut:
  assumes "s \<noteq> []" "drop (snd (decode_rune s)) s = q @ v" "rune_head u"
  shows "decode_rune (take (snd (decode_rune s)) s @ q @ u) = decode_rune s"
proof (cases "ill_formed (decode_rune s)")
  case True
  then obtain c where "s = c # q @ v"
    using assms(1,2) by (cases s) (auto simp: ill_formed_def)
  with True assms(3) show ?thesis
    using decode_rune_cut_ill [of c q v u] by (simp add: ill_formed_def)
next
  case False
  then show ?thesis using decode_rune_size [OF assms(1)] by (intro decode_rune_local assms(1)) auto
qed

lemma decode_all_append:
  assumes "rune_head u"
  shows "decode_all (s @ u) = decode_all s @ decode_all u"
proof (induction s rule: decode_all.induct)
  case (1 s)
  show ?case
  proof (cases "s = []")
    case False
    let ?k = "snd (decode_rune s)"
    have "decode_rune (s @ u) = decode_rune s"
      using decode_rune_cut [OF False, of "drop ?k s" "[]" u] assms
      by (simp flip: append_assoc)
    moreover have "drop ?k (s @ u) = drop ?k s @ u"
      using decode_rune_size [OF False] by simp
    ultimately show ?thesis
      using 1 [OF False] False by (simp add: decode_all.simps [of s] decode_all.simps [of "s @ u"])
  qed simp
qed

end
