(* ===== verification/Text_Sanitize.thy ===== *)
theory Text_Sanitize
  imports Utf8
begin

text \<open>
  Sanitization of untrusted text (\<open>internal/text/sanitize.go\<close>) and byte-budget truncation
  (\<open>utf8util.go\<close>). The loops work on bytes, as the code does; the lemmas show that on well-formed
  text they are maps over runes, which makes safety and idempotence facts about rune lists.
\<close>

subsection \<open>neutralize\<close>

definition bidi_control :: "rune \<Rightarrow> bool" where
  "bidi_control r \<longleftrightarrow> r = 0x202a \<or> r = 0x202b \<or> r = 0x202c \<or> r = 0x202d \<or> r = 0x202e
     \<or> r = 0x2066 \<or> r = 0x2067 \<or> r = 0x2068 \<or> r = 0x2069"

text \<open>What one iteration writes for rune \<open>r\<close>; \<open>lf\<close> says that the next byte is a line feed.\<close>

definition neutral_rune :: "bool \<Rightarrow> bool \<Rightarrow> rune \<Rightarrow> gostring" where
  "neutral_rune preserveNewlines lf r =
     (if r = 0x0D then (if preserveNewlines then (if lf then [] else [CHR 0x0A]) else [CHR '' ''])
      else if r = 0x0A then (if preserveNewlines then [CHR 0x0A] else [CHR '' ''])
      else if r = 0x09 then [CHR 0x09]
      else if r = 0x1b then ''^[''
      else if r = 0x07 \<or> r = 0x08 then []
      else if r < 0x20 \<or> r = 0x7f then []
      else if r \<ge> 0x80 \<and> r \<le> 0x9f then []
      else if bidi_control r then []
      else encode_rune r)"

definition starts_lf :: "gostring \<Rightarrow> bool" where
  "starts_lf s = (case s of [] \<Rightarrow> False | c # _ \<Rightarrow> c = CHR 0x0A)"

function neutralize_loop :: "bool \<Rightarrow> gostring \<Rightarrow> gostring" where
  "neutralize_loop p s =
     (if s = [] then []
      else (let r = fst (decode_rune s); rest = drop (snd (decode_rune s)) s
            in neutral_rune p (starts_lf rest) r @ neutralize_loop p rest))"
  by pat_completeness auto
termination
  by (relation "measure (\<lambda>(p, s). length s)") auto

declare neutralize_loop.simps [simp del]

definition neutralize :: "gostring \<Rightarrow> bool \<Rightarrow> gostring" where
  "neutralize s preserveNewlines =
     (if s = [] then s
      else neutralize_loop preserveNewlines
        (if \<not> ValidString s then ToValidUTF8 s [CHR 0xEF, CHR 0xBF, CHR 0xBD] else s))"

definition Text :: "gostring \<Rightarrow> gostring" where
  "Text s = neutralize s False"

definition Block :: "gostring \<Rightarrow> gostring" where
  "Block s = neutralize s True"

subsection \<open>The loop on runes\<close>

text \<open>
  A rune the sanitizer lets through: no control of either range but TAB (and LF, in a block), and none of the
  bidi controls it drops.
\<close>

definition display_safe :: "bool \<Rightarrow> rune \<Rightarrow> bool" where
  "display_safe p r \<longleftrightarrow> scalar r \<and>
     (if r < 0x20 then r = 0x09 \<or> (r = 0x0A \<and> p)
      else r \<noteq> 0x7f \<and> (r < 0x80 \<or> 0x9f < r) \<and> \<not> bidi_control r)"

definition neutral_runes :: "bool \<Rightarrow> bool \<Rightarrow> rune \<Rightarrow> rune list" where
  "neutral_runes p lf r =
     (if r = 0x0D then (if p then (if lf then [] else [0x0A]) else [0x20])
      else if r = 0x0A then (if p then [0x0A] else [0x20])
      else if r = 0x1b then [0x5E, 0x5B]
      else if r = 0x09 \<or> display_safe p r then [r] else [])"

fun runes_loop :: "bool \<Rightarrow> rune list \<Rightarrow> rune list" where
  "runes_loop p [] = []"
| "runes_loop p (r # rs) = neutral_runes p (rs \<noteq> [] \<and> hd rs = 0x0A) r @ runes_loop p rs"

lemma scalar_small [simp]: "r < 0xD800 \<Longrightarrow> scalar r"
  by (simp add: scalar_def)

lemma ascii_encodings [simp]:
  "encode_rune 10 = [CHR 0x0A]" "encode_rune 9 = [CHR 0x09]" "encode_rune 32 = [CHR '' '']"
  "encode_rune 94 = ''^''" "encode_rune 91 = ''[''"
  by (simp_all add: encode_rune_ascii) code_simp+

lemma neutral_rune_encode:
  "scalar r \<Longrightarrow> neutral_rune p lf r = encode_all (neutral_runes p lf r)"
  by (simp add: neutral_rune_def neutral_runes_def display_safe_def)

lemma starts_lf_encode_all:
  "list_all scalar rs \<Longrightarrow> starts_lf (encode_all rs) \<longleftrightarrow> rs \<noteq> [] \<and> hd rs = 0x0A"
proof (cases rs)
  case (Cons r qs)
  moreover assume "list_all scalar rs"
  ultimately have d: "decode_rune (encode_all rs) = (r, length (encode_rune r))"
    by (simp add: decode_encode)
  obtain c t where ct: "encode_all rs = c # t" using Cons by (cases "encode_rune r") simp_all
  have "c = CHR 0x0A \<longleftrightarrow> byte c = 10"
    using of_char_eq_iff [where 'a = nat, of c "CHR 0x0A"] by simp
  moreover have "r = 10 \<longleftrightarrow> byte c = 10"
    using d unfolding ct by (auto simp: decode_defs RuneError_def second_ok_def cont_def
        split: if_splits list.splits)
  ultimately show ?thesis unfolding ct starts_lf_def using Cons by simp
qed (simp add: starts_lf_def)

lemma neutralize_loop_encode_all:
  "list_all scalar rs \<Longrightarrow> neutralize_loop p (encode_all rs) = encode_all (runes_loop p rs)"
proof (induction rs)
  case (Cons r rs)
  then show ?case
    by (subst neutralize_loop.simps)
      (simp add: decode_encode Let_def neutral_rune_encode starts_lf_encode_all)
qed (simp add: neutralize_loop.simps)

lemma runes_loop_safe: "list_all scalar rs \<Longrightarrow> list_all (display_safe p) (runes_loop p rs)"
  by (induction rs) (auto simp: neutral_runes_def display_safe_def bidi_control_def)

lemma runes_loop_id: "list_all (display_safe p) rs \<Longrightarrow> runes_loop p rs = rs"
  by (induction rs) (auto simp: neutral_runes_def display_safe_def)

lemma display_safe_scalar: "list_all (display_safe p) rs \<Longrightarrow> list_all scalar rs"
  by (auto simp: list_all_iff display_safe_def)

lemma replacement_valid: "ValidString [CHR 0xEF, CHR 0xBF, CHR 0xBD]"
  by (simp add: ValidString.simps decode_defs second_ok_def cont_def ill_formed_def RuneError_def)

text \<open>What \<open>neutralize\<close> feeds its loop is always well formed.\<close>

lemma neutralize_runes:
  obtains rs where "list_all scalar rs" "neutralize s p = encode_all (runes_loop p rs)"
    "ValidString s \<Longrightarrow> rs = decode_all s"
proof (cases "ValidString s")
  case True
  then show ?thesis
    using ValidString_decode_all [OF True] neutralize_loop_encode_all [of "decode_all s" p]
    by (intro that [of "decode_all s"]) (auto simp: neutralize_def)
next
  case False
  moreover have "s \<noteq> []" using False by auto
  moreover obtain rs where "list_all scalar rs"
      "ToValidUTF8 s [CHR 0xEF, CHR 0xBF, CHR 0xBD] = encode_all rs"
    using to_valid_valid [OF replacement_valid] by (auto simp: ToValidUTF8_def ValidString_iff)
  ultimately show ?thesis
    using neutralize_loop_encode_all [of rs p] by (intro that [of rs]) (auto simp: neutralize_def)
qed

lemma neutralize_output:
  "ValidString (neutralize s p) \<and> list_all (display_safe p) (decode_all (neutralize s p))"
proof -
  obtain rs where "list_all scalar rs" "neutralize s p = encode_all (runes_loop p rs)"
    by (rule neutralize_runes)
  then show ?thesis
    using runes_loop_safe [of rs p] display_safe_scalar [of p "runes_loop p rs"]
    by (simp add: ValidString_encode_all decode_all_encode_all)
qed

text \<open>Text that is already safe is left alone.\<close>

lemma neutralize_id:
  assumes "ValidString s" "list_all (display_safe p) (decode_all s)"
  shows "neutralize s p = s"
proof -
  have "neutralize s p = encode_all (runes_loop p (decode_all s))"
    using neutralize_runes [of s p] assms(1) by metis
  then show ?thesis
    using assms ValidString_decode_all [OF assms(1)] by (simp add: runes_loop_id)
qed

lemma Text_idempotent [simp]: "Text (Text s) = Text s"
  by (simp add: Text_def neutralize_id neutralize_output)

lemma Block_idempotent [simp]: "Block (Block s) = Block s"
  by (simp add: Block_def neutralize_id neutralize_output)

text \<open>
  (C30) Whatever bytes come in, ill-formed UTF-8 included, the sanitized text is well-formed UTF-8, and no
  rune of it is a C0 control other than TAB (and LF, in a block), DEL, a C1 control, or one of the nine
  bidirectional embedding, override and isolate controls. Every other rune may pass, the separators
  U+2028 and U+2029 and the marks U+200E, U+200F and U+061C among them: text without the runes named is
  left as it is.
\<close>

theorem neutralize_safe:
  "ValidString (neutralize s p) \<and>
   (\<forall>r\<in>set (decode_all (neutralize s p)). scalar r \<and>
      (r < 0x20 \<longrightarrow> r = 0x09 \<or> r = 0x0A \<and> p) \<and> r \<noteq> 0x7f \<and> \<not> (0x80 \<le> r \<and> r \<le> 0x9f) \<and>
      r \<notin> {0x202a, 0x202b, 0x202c, 0x202d, 0x202e, 0x2066, 0x2067, 0x2068, 0x2069}) \<and>
   (ValidString s \<and> list_all (display_safe p) (decode_all s) \<longrightarrow> neutralize s p = s)"
proof (intro conjI ballI impI)
  have safe: "ValidString (neutralize s p)" "list_all (display_safe p) (decode_all (neutralize s p))"
    using neutralize_output by blast+
  show "ValidString (neutralize s p)" by (rule safe(1))
  fix r assume "r \<in> set (decode_all (neutralize s p))"
  then have r: "display_safe p r" using safe(2) by (simp add: list_all_iff)
  then show "scalar r" "r \<noteq> 0x7f" "\<not> (0x80 \<le> r \<and> r \<le> 0x9f)"
    "r \<notin> {0x202a, 0x202b, 0x202c, 0x202d, 0x202e, 0x2066, 0x2067, 0x2068, 0x2069}"
    by (auto simp: display_safe_def bidi_control_def split: if_splits)
  show "r = 0x09 \<or> r = 0x0A \<and> p" if "r < 0x20" using r that by (simp add: display_safe_def)
qed (use neutralize_id in blast)

text \<open>A line separator is kept; a carriage return and an override are not.\<close>

theorem neutralize_safe_witness:
  "neutralize (encode_rune 0x2028) False = encode_rune 0x2028 \<and>
   0x202e \<notin> set (decode_all (neutralize (encode_all [0x41, 0x202e, 0x0D]) False))"
proof -
  have "ValidString (encode_rune 0x2028)" "decode_all (encode_rune 0x2028) = [0x2028]"
    using ValidString_encode_all [of "[0x2028]"] decode_all_encode_all [of "[0x2028]"] by (simp_all add: scalar_def)
  then show ?thesis
    using neutralize_safe [of "encode_rune 0x2028" False] neutralize_safe [of "encode_all [0x41, 0x202e, 0x0D]" False]
    by (auto simp: display_safe_def bidi_control_def scalar_def)
qed

text \<open>
  Sanitizing is idempotent: a field sanitized once (when stored) and again (when rendered) is
  the same text, so the two boundaries cannot disagree.
\<close>

theorem neutralize_idempotent: "neutralize (neutralize s p) p = neutralize s p"
  by (simp add: neutralize_id neutralize_output)

subsection \<open>TruncateUTF8\<close>

text \<open>The loop that backs up from \<open>end\<close> to the start of a rune, or to 0.\<close>

fun back_to_rune :: "gostring \<Rightarrow> nat \<Rightarrow> nat" where
  "back_to_rune s 0 = 0"
| "back_to_rune s (Suc n) = (if RuneStart (s ! Suc n) then Suc n else back_to_rune s n)"

definition TruncateUTF8 :: "gostring \<Rightarrow> int \<Rightarrow> gostring \<Rightarrow> gostring" where
  "TruncateUTF8 s limit tail =
     (if limit \<le> 0 then (if s = [] then [] else tail)
      else if int (length s) \<le> limit then s
      else (let e = back_to_rune s (nat limit)
            in if e = 0 then tail else take e s @ tail))"

lemma back_to_rune_le: "back_to_rune s n \<le> n"
  by (induction n) auto

lemma back_to_rune_start: "back_to_rune s n \<noteq> 0 \<Longrightarrow> RuneStart (s ! back_to_rune s n)"
  by (induction n) auto

lemma encode_rune_continuation:
  assumes "scalar r" "0 < i" "i < length (encode_rune r)"
  shows "\<not> RuneStart (encode_rune r ! i)"
proof -
  have "i = 1 \<or> i = 2 \<or> i = 3"
    using assms(2,3) by (auto simp: encode_rune_def encode_scalar_def split: if_splits)
  then show ?thesis
    using assms by (auto simp: encode_rune_def encode_scalar_def RuneStart_def cont_def split: if_splits)
qed

lemma back_to_rune_ge: "RuneStart (s ! b) \<Longrightarrow> b \<le> n \<Longrightarrow> b \<le> back_to_rune s n"
  by (induction n) (auto simp: le_Suc_eq)

lemma length_encode_rune_le: "length (encode_rune r) \<le> 4"
  by (simp add: encode_rune_def encode_scalar_def)

lemma encode_rune_start: "scalar r \<Longrightarrow> RuneStart (encode_rune r ! 0)"
  by (auto simp: encode_rune_def encode_scalar_def RuneStart_def cont_def scalar_def)

text \<open>A rune starts at, or at most three bytes before, every position.\<close>

lemma rune_start_near:
  "list_all scalar rs \<Longrightarrow> e < length (encode_all rs)
     \<Longrightarrow> \<exists>b. b \<le> e \<and> e < b + 4 \<and> RuneStart (encode_all rs ! b)"
proof (induction rs arbitrary: e)
  case Nil
  then show ?case by simp
next
  case (Cons r rs)
  let ?n = "length (encode_rune r)"
  show ?case
  proof (cases "e < ?n")
    case True
    then show ?thesis
      using length_encode_rune_le [of r] encode_rune_start [of r] Cons.prems
      by (intro exI [of _ 0]) (auto simp: nth_append)
  next
    case False
    then have "e - ?n < length (encode_all rs)" using Cons.prems(2) by simp
    then obtain b where "b \<le> e - ?n" "e - ?n < b + 4" "RuneStart (encode_all rs ! b)"
      using Cons.IH [of "e - ?n"] Cons.prems(1) by auto
    then show ?thesis
      using False by (intro exI [of _ "?n + b"]) (auto simp: nth_append)
  qed
qed

text \<open>In well-formed text, cutting before a rune start leaves well-formed text.\<close>

lemma take_at_rune_start:
  "list_all scalar rs \<Longrightarrow> e < length (encode_all rs) \<Longrightarrow> RuneStart (encode_all rs ! e)
     \<Longrightarrow> \<exists>k. take e (encode_all rs) = encode_all (take k rs)"
proof (induction rs arbitrary: e)
  case Nil
  then show ?case by simp
next
  case (Cons r rs)
  let ?n = "length (encode_rune r)"
  show ?case
  proof (cases "e < ?n")
    case True
    then have "e = 0"
      using Cons.prems encode_rune_continuation [of r e] by (auto simp: nth_append)
    then have "take e (encode_all (r # rs)) = encode_all (take 0 (r # rs))" by simp
    then show ?thesis by blast
  next
    case False
    then have "e - ?n < length (encode_all rs)" using Cons.prems(2) by simp
    then obtain k where "take (e - ?n) (encode_all rs) = encode_all (take k rs)"
      using Cons.IH [of "e - ?n"] Cons.prems False by (auto simp: nth_append)
    then have "take e (encode_all (r # rs)) = encode_all (take (Suc k) (r # rs))"
      using False by simp
    then show ?thesis by blast
  qed
qed

text \<open>
  Truncation respects runes and the budget: well-formed text that does not fit is cut to a
  prefix of at most \<open>limit\<close> bytes that is itself well-formed and gives up fewer than four bytes of
  the budget, then the suffix follows; text that fits is returned whole.
\<close>

theorem TruncateUTF8_prefix:
  assumes "ValidString s" and "0 < limit"
  shows "if int (length s) \<le> limit then TruncateUTF8 s limit tail = s
    else \<exists>p. TruncateUTF8 s limit tail = p @ tail \<and> has_prefix s p \<and> ValidString p
        \<and> int (length p) \<le> limit \<and> limit < int (length p) + 4"
proof (cases "int (length s) \<le> limit")
  case False
  let ?e = "back_to_rune s (nat limit)"
  obtain rs where rs: "list_all scalar rs" "s = encode_all rs"
    using assms(1) by (auto simp: ValidString_iff)
  have fits: "nat limit < length s" using False assms(2) by (simp add: nat_less_iff)
  then have e: "?e \<le> nat limit" "?e < length s"
    using back_to_rune_le [of s "nat limit"] by linarith+
  obtain b where b: "b \<le> nat limit" "nat limit < b + 4" "RuneStart (s ! b)"
    using rune_start_near [OF rs(1), of "nat limit"] fits by (auto simp: rs(2))
  have near: "nat limit < ?e + 4"
    using back_to_rune_ge [OF b(3,1)] b(2) by linarith
  have "ValidString (take ?e s)"
  proof (cases "?e = 0")
    case False
    then obtain k where "take ?e s = encode_all (take k rs)"
      using take_at_rune_start [OF rs(1), of ?e] e(2) back_to_rune_start [OF False] by (auto simp: rs(2))
    then show ?thesis
      using rs(1) by (auto simp: list_all_iff intro!: ValidString_encode_all dest!: in_set_takeD)
  qed simp
  moreover have "TruncateUTF8 s limit tail = take ?e s @ tail"
    using False assms(2) by (simp add: TruncateUTF8_def Let_def)
  moreover have "has_prefix s (take ?e s)"
    by (metis append_take_drop_id has_prefix_append)
  ultimately show ?thesis
    using False e near assms(2) by (auto intro!: exI [of _ "take ?e s"])
qed (use assms(2) in \<open>simp add: TruncateUTF8_def\<close>)

theorem TruncateUTF8_prefix_witness:
  "ValidString (encode_all [0x61, 0xE9, 0x62]) \<and>
   (\<exists>p. TruncateUTF8 (encode_all [0x61, 0xE9, 0x62]) 2 ''...'' = p @ ''...''
      \<and> has_prefix (encode_all [0x61, 0xE9, 0x62]) p \<and> ValidString p \<and> int (length p) \<le> 2 \<and> 2 < int (length p) + 4)"
proof -
  have v: "ValidString (encode_all [0x61, 0xE9, 0x62])" by (rule ValidString_encode_all) simp
  have len: "length (encode_all [0x61, 0xE9, 0x62]) = 4"
    by (simp add: encode_rune_def encode_scalar_def)
  show ?thesis using TruncateUTF8_prefix [OF v, of 2 "''...''"] v len by simp
qed

end
