(* ===== verification/Core_Tally.thy ===== *)
theory Core_Tally
  imports Core_Model Text_Sanitize "HOL-Library.Multiset"
begin

text \<open>
  Tallies (\<open>internal/core/tally.go\<close>, \<open>child_tally.go\<close>): the partition of disposition records by
  reason, and the counts a live projection keeps of the children it left out. The lemmas give each
  incremental operation its meaning on the whole list of records or tasks counted so far.
\<close>

subsection \<open>Tally\<close>

definition emptyTally :: Tally where
  "emptyTally = \<lparr>tl_reasons = [], tl_index = (\<lambda>_. None), tl_causes = [], tl_total = 0\<rparr>"

definition HasFacts :: "ReasonTally \<Rightarrow> bool" where
  "HasFacts r = list_ex (\<lambda>f. length f > 0) (rt_Facts r)"

text \<open>
  One record appended to its reason's share: the facts slice stays nil until an item has facts, and
  is then padded so that it stays aligned with the names.
\<close>

definition appendItem :: "ReasonTally \<Rightarrow> gostring \<Rightarrow> Fact list \<Rightarrow> ReasonTally" where
  "appendItem r name facts =
     (let names = rt_Names r @ [name]
      in r\<lparr>rt_Names := names,
           rt_Facts := (if length facts > 0 \<or> rt_Facts r \<noteq> []
             then rt_Facts r @ replicate (length names - 1 - length (rt_Facts r)) [] @ [facts]
             else rt_Facts r)\<rparr>)"

definition addItem :: "Tally \<Rightarrow> TaxonomyRecord \<Rightarrow> Fact list \<Rightarrow> Tally" where
  "addItem t rec facts =
     (let (i, t1) = (case tl_index t (tr_Reason rec) of
            Some i \<Rightarrow> (i, t)
          | None \<Rightarrow> (length (tl_reasons t),
              t\<lparr>tl_index := (tl_index t)(tr_Reason rec \<mapsto> length (tl_reasons t)),
                tl_reasons := tl_reasons t @
                  [\<lparr>rt_Reason = tr_Reason rec, rt_Names = [], rt_Facts = []\<rparr>]\<rparr>))
      in t1\<lparr>tl_reasons := (tl_reasons t1)[i := appendItem (tl_reasons t1 ! i) (tr_Name rec) facts],
            tl_causes := tl_causes t1 @ tr_Causes rec,
            tl_total := tl_total t1 + 1\<rparr>)"

definition Add :: "Tally \<Rightarrow> TaxonomyRecord \<Rightarrow> Tally" where
  "Add t rec = addItem t rec []"

definition AddAll :: "Tally \<Rightarrow> TaxonomyRecord list \<Rightarrow> Tally" where
  "AddAll t records = foldl Add t records"

definition TallyOf :: "TaxonomyRecord list \<Rightarrow> Tally" where
  "TallyOf records = AddAll emptyTally records"

definition dispositionsEmpty :: "Dispositions \<Rightarrow> bool" where
  "dispositionsEmpty d = (tl_total (d_Skipped d) = 0 \<and> tl_total (d_Kept d) = 0)"

definition AddTask :: "Dispositions \<Rightarrow> TaskSnapshot \<Rightarrow> Dispositions" where
  "AddTask d t =
     d\<lparr>d_Skipped := foldl (\<lambda>tl rec. addItem tl rec (ts_Facts t)) (d_Skipped d) (ts_Skipped t),
       d_Kept := foldl (\<lambda>tl rec. addItem tl rec (ts_Facts t)) (d_Kept d) (ts_Kept t)\<rparr>"

subsection \<open>What a tally holds\<close>

text \<open>
  The specification: the entries counted so far, partitioned by reason.
\<close>

type_synonym entry = "TaxonomyRecord \<times> Fact list"

definition entries_under :: "entry list \<Rightarrow> gostring \<Rightarrow> entry list" where
  "entries_under es r = filter (\<lambda>e. tr_Reason (fst e) = r) es"

definition aligned_facts :: "Fact list list \<Rightarrow> Fact list list" where
  "aligned_facts fs = (if list_ex (\<lambda>f. f \<noteq> []) fs then fs else [])"

definition share :: "entry list \<Rightarrow> gostring \<Rightarrow> ReasonTally" where
  "share es r = \<lparr>rt_Reason = r, rt_Names = map (tr_Name \<circ> fst) (entries_under es r),
     rt_Facts = aligned_facts (map snd (entries_under es r))\<rparr>"

definition reasons_of :: "entry list \<Rightarrow> gostring list" where
  "reasons_of es = firsts [] (map (tr_Reason \<circ> fst) es)"

definition tally_spec :: "entry list \<Rightarrow> Tally" where
  "tally_spec es = \<lparr>tl_reasons = map (share es) (reasons_of es), tl_index = position (reasons_of es),
     tl_causes = concat (map (tr_Causes \<circ> fst) es), tl_total = length es\<rparr>"

lemma distinct_reasons_of: "distinct (reasons_of es)"
  by (simp add: reasons_of_def distinct_firsts)

lemma set_reasons_of: "set (reasons_of es) = (tr_Reason \<circ> fst) ` set es"
  by (simp add: reasons_of_def set_firsts)

lemma reasons_of_snoc:
  "reasons_of (es @ [e]) =
     (if tr_Reason (fst e) \<in> set (reasons_of es) then reasons_of es
      else reasons_of es @ [tr_Reason (fst e)])"
  by (simp add: reasons_of_def firsts_snoc Let_def)

lemma entries_under_snoc:
  "entries_under (es @ [e]) r = entries_under es r @ (if tr_Reason (fst e) = r then [e] else [])"
  by (simp add: entries_under_def)

lemma aligned_facts_length: "length (aligned_facts fs) = length fs \<or> aligned_facts fs = []"
  by (simp add: aligned_facts_def)

lemma all_nil_replicate: "\<not> list_ex (\<lambda>f. f \<noteq> []) fs \<Longrightarrow> fs = replicate (length fs) []"
  by (induction fs) auto

lemma share_snoc_other: "tr_Reason (fst e) \<noteq> r \<Longrightarrow> share (es @ [e]) r = share es r"
  by (simp add: share_def entries_under_snoc)

lemma share_snoc_same:
  "share (es @ [e]) (tr_Reason (fst e)) = appendItem (share es (tr_Reason (fst e))) (tr_Name (fst e)) (snd e)"
proof -
  let ?u = "entries_under es (tr_Reason (fst e))"
  have "aligned_facts (map snd ?u @ [snd e]) =
      (if length (snd e) > 0 \<or> aligned_facts (map snd ?u) \<noteq> []
       then aligned_facts (map snd ?u)
         @ replicate (length ?u - length (aligned_facts (map snd ?u))) [] @ [snd e]
       else aligned_facts (map snd ?u))"
  proof (cases "list_ex (\<lambda>f. f \<noteq> []) (map snd ?u)")
    case True
    then show ?thesis by (cases ?u) (auto simp: aligned_facts_def)
  next
    case False
    then show ?thesis
      using all_nil_replicate [OF False] by (simp add: aligned_facts_def)
  qed
  then show ?thesis by (simp add: share_def entries_under_snoc appendItem_def Let_def)
qed

lemma map_update_distinct:
  assumes "distinct xs" "i < length xs" "\<And>x. x \<in> set xs \<Longrightarrow> x \<noteq> xs ! i \<Longrightarrow> g x = f x"
  shows "map g xs = (map f xs)[i := g (xs ! i)]"
  using assms by (intro nth_equalityI) (auto simp: nth_list_update nth_eq_iff_index_eq)

lemma addItem_spec: "addItem (tally_spec es) (fst e) (snd e) = tally_spec (es @ [e])"
proof (cases "tr_Reason (fst e) \<in> set (reasons_of es)")
  case True
  then obtain i where i: "position (reasons_of es) (tr_Reason (fst e)) = Some i"
    by (auto simp: position_def)
  note ni = position_nth [OF i]
  have "map (share (es @ [e])) (reasons_of es) =
      (map (share es) (reasons_of es))[i := share (es @ [e]) (reasons_of es ! i)]"
    using ni by (intro map_update_distinct) (auto simp: distinct_reasons_of share_snoc_other)
  then show ?thesis
    using True ni by (simp add: addItem_def tally_spec_def i reasons_of_snoc share_snoc_same)
next
  case False
  let ?r = "tr_Reason (fst e)"
  have none: "position (reasons_of es) ?r = None" using False by (simp add: position_def)
  have empty: "share es ?r = \<lparr>rt_Reason = ?r, rt_Names = [], rt_Facts = []\<rparr>"
  proof -
    have "entries_under es ?r = []" using False
      by (simp add: entries_under_def filter_empty_conv set_reasons_of) (metis comp_def fst_conv image_eqI)
    then show ?thesis by (simp add: share_def aligned_facts_def)
  qed
  have old: "map (share (es @ [e])) (reasons_of es) = map (share es) (reasons_of es)"
    using False by (auto intro: share_snoc_other)
  show ?thesis
    using False by (simp add: addItem_def tally_spec_def none reasons_of_snoc position_snoc old
        share_snoc_same empty list_update_append nth_append)
qed

lemma tally_spec_Nil: "tally_spec [] = emptyTally"
  by (simp add: tally_spec_def emptyTally_def reasons_of_def position_def fun_eq_iff)

lemma foldl_addItem_spec:
  "foldl (\<lambda>t e. addItem t (fst e) (snd e)) (tally_spec es) fs = tally_spec (es @ fs)"
  by (induction fs arbitrary: es) (simp_all add: addItem_spec)

lemma AddAll_spec: "AddAll (tally_spec es) records = tally_spec (es @ map (\<lambda>r. (r, [])) records)"
proof -
  have "AddAll t records = foldl (\<lambda>t e. addItem t (fst e) (snd e)) t (map (\<lambda>r. (r, [])) records)" for t
    by (induction records arbitrary: t) (simp_all add: AddAll_def Add_def)
  then show ?thesis by (simp add: foldl_addItem_spec)
qed

lemma sum_partition:
  "distinct rs \<Longrightarrow> (\<And>e. e \<in> set es \<Longrightarrow> tr_Reason (fst e) \<in> set rs)
     \<Longrightarrow> sum_list (map (\<lambda>r. length (entries_under es r)) rs) = length es"
proof (induction es)
  case Nil
  then show ?case by (simp add: entries_under_def sum_list_eq_0_iff)
next
  case (Cons e es)
  have "sum_list (map (\<lambda>r. length (entries_under (e # es) r)) rs) =
      sum_list (map (\<lambda>r. (if r = tr_Reason (fst e) then 1 else 0) + length (entries_under es r)) rs)"
    by (rule arg_cong [where f = sum_list], rule map_cong) (auto simp: entries_under_def)
  also have "\<dots> = sum_list (map (\<lambda>r. if r = tr_Reason (fst e) then 1 else 0) rs) + length es"
    using Cons by (simp add: sum_list_addf)
  also have "sum_list (map (\<lambda>r. if r = tr_Reason (fst e) then 1 else 0) rs) = (1::nat)"
    using Cons.prems by (subst sum_list_distinct_conv_sum_set) (auto simp: sum.delta)
  finally show ?case by simp
qed

text \<open>
  A tally is the partition of its records: the reasons stand in first-seen order, each once;
  under each reason the names are the names of exactly that reason's records, in record order; the
  causes are all causes in record order; and the headline total is the number of records, which is
  the sum of the reasons' shares, so headline and parts always agree.
\<close>

theorem TallyOf_partition:
  "map rt_Reason (tl_reasons (TallyOf records)) = firsts [] (map tr_Reason records)
   \<and> map rt_Names (tl_reasons (TallyOf records)) =
       map (\<lambda>r. map tr_Name (filter (\<lambda>rec. tr_Reason rec = r) records))
         (firsts [] (map tr_Reason records))
   \<and> tl_causes (TallyOf records) = concat (map tr_Causes records)
   \<and> tl_total (TallyOf records) = length records
   \<and> tl_total (TallyOf records) = sum_list (map (length \<circ> rt_Names) (tl_reasons (TallyOf records)))"
proof -
  let ?es = "map (\<lambda>r. (r, [] :: Fact list)) records"
  have spec: "TallyOf records = tally_spec ?es"
    using AddAll_spec [of "[]" records] by (simp add: TallyOf_def tally_spec_Nil)
  have reasons: "reasons_of ?es = firsts [] (map tr_Reason records)"
    by (simp add: reasons_of_def comp_def)
  have names: "map (tr_Name \<circ> fst) (entries_under ?es r) = map tr_Name (filter (\<lambda>rec. tr_Reason rec = r) records)"
    for r by (simp add: entries_under_def filter_map comp_def)
  have sum: "sum_list (map (\<lambda>r. length (entries_under ?es r)) (reasons_of ?es)) = length ?es"
    by (rule sum_partition) (auto simp: distinct_reasons_of set_reasons_of)
  have "map (length \<circ> rt_Names) (tl_reasons (tally_spec ?es)) = map (\<lambda>r. length (entries_under ?es r)) (reasons_of ?es)"
    by (simp add: tally_spec_def share_def comp_def)
  then show ?thesis
    using sum by (simp add: spec) (simp add: tally_spec_def share_def comp_def names [unfolded comp_def] reasons)
qed

text \<open>The same for items that carry facts: the facts of an item stand at its name's place.\<close>

lemma AddTask_spec:
  "AddTask \<lparr>d_Skipped = tally_spec ss, d_Kept = tally_spec ks\<rparr> t =
     \<lparr>d_Skipped = tally_spec (ss @ map (\<lambda>r. (r, ts_Facts t)) (ts_Skipped t)),
      d_Kept = tally_spec (ks @ map (\<lambda>r. (r, ts_Facts t)) (ts_Kept t))\<rparr>"
proof -
  have "foldl (\<lambda>tl rec. addItem tl rec fs) a rs =
      foldl (\<lambda>t e. addItem t (fst e) (snd e)) a (map (\<lambda>r. (r, fs)) rs)" for fs a rs
    by (induction rs arbitrary: a) simp_all
  then show ?thesis by (simp add: AddTask_def foldl_addItem_spec)
qed

lemma tally_facts_aligned:
  "r \<in> set (tl_reasons (tally_spec es)) \<Longrightarrow> rt_Facts r = [] \<or> length (rt_Facts r) = length (rt_Names r)"
  using aligned_facts_length [of "map snd (entries_under es (rt_Reason r))"]
  by (auto simp: tally_spec_def share_def)

subsection \<open>Child counts\<close>

definition zeroCounts :: ChildCounts where
  "zeroCounts = \<lparr>cc_Total = 0, cc_Done = 0, cc_Running = False, cc_Pending = False,
     cc_Unfinished = False, cc_EarliestSeen = 0, cc_NameWidth = 0\<rparr>"

text \<open>The earlier of two stamps, the zero time standing for none.\<close>

definition earlier_seen :: "time \<Rightarrow> time \<Rightarrow> time" where
  "earlier_seen seen old = (if seen \<noteq> 0 \<and> (old = 0 \<or> seen < old) then seen else old)"

definition countsAdd :: "ChildCounts \<Rightarrow> TaskSnapshot \<Rightarrow> ChildCounts" where
  "countsAdd c t =
     \<lparr>cc_Total = cc_Total c + 1,
      cc_Done = cc_Done c + (if ts_State t = Done \<or> ts_State t = Skipped then 1 else 0),
      cc_Running = (if ts_State t = Running then True else cc_Running c),
      cc_Pending = (if ts_State t = Pending then True else cc_Pending c),
      cc_Unfinished = (if \<not> IsTerminalTask (ts_State t) then True else cc_Unfinished c),
      cc_EarliestSeen = earlier_seen (ts_liveFirstSeenAt t) (cc_EarliestSeen c),
      cc_NameWidth = max (cc_NameWidth c) (RuneCountInString (ts_Name t))\<rparr>"

definition Merge :: "ChildCounts \<Rightarrow> ChildCounts \<Rightarrow> ChildCounts" where
  "Merge c d =
     \<lparr>cc_Total = cc_Total c + cc_Total d,
      cc_Done = cc_Done c + cc_Done d,
      cc_Running = (cc_Running c \<or> cc_Running d),
      cc_Pending = (cc_Pending c \<or> cc_Pending d),
      cc_Unfinished = (cc_Unfinished c \<or> cc_Unfinished d),
      cc_EarliestSeen = earlier_seen (cc_EarliestSeen d) (cc_EarliestSeen c),
      cc_NameWidth = max (cc_NameWidth c) (cc_NameWidth d)\<rparr>"

definition CountTasks :: "TaskSnapshot list \<Rightarrow> ChildCounts" where
  "CountTasks tasks = foldl countsAdd zeroCounts tasks"

text \<open>
  The contract every incremental summary here relies on: counting one more item commutes with
  counting another and with merging a summary of others.
\<close>

locale mergeable_summary =
  fixes unit :: "'c"
    and add :: "'c \<Rightarrow> 'x \<Rightarrow> 'c"
    and merge :: "'c \<Rightarrow> 'c \<Rightarrow> 'c"
  assumes merge_unit: "merge c unit = c"
    and merge_add: "merge c (add d x) = add (merge c d) x"
    and add_commute: "add (add c x) y = add (add c y) x"
begin

lemma foldl_merge: "merge c (foldl add d xs) = foldl add (merge c d) xs"
  by (induction xs arbitrary: d) (simp_all add: merge_add)

lemma summary_append: "foldl add unit (xs @ ys) = merge (foldl add unit xs) (foldl add unit ys)"
  by (simp add: foldl_merge merge_unit)

lemma foldl_add_commute: "foldl add (add c x) xs = add (foldl add c xs) x"
  by (induction xs arbitrary: c) (simp_all add: add_commute)

lemma foldl_remove1: "x \<in> set xs \<Longrightarrow> foldl add c xs = add (foldl add c (remove1 x xs)) x"
proof (induction xs arbitrary: c)
  case (Cons y ys)
  then show ?case by (cases "x = y") (simp_all add: foldl_add_commute)
qed simp

lemma summary_permute: "mset xs = mset ys \<Longrightarrow> foldl add c xs = foldl add c ys"
proof (induction xs arbitrary: ys)
  case Nil
  then show ?case by simp
next
  case (Cons x xs)
  then have "x \<in> set ys" "mset xs = mset (remove1 x ys)"
    by (metis list.set_intros(1) mset_eq_setD, metis add_mset_remove_trivial mset.simps(2) mset_remove1)
  note ys = this
  have "foldl add c (x # xs) = add (foldl add c xs) x" by (simp add: foldl_add_commute)
  also have "\<dots> = add (foldl add c (remove1 x ys)) x" using Cons.IH [OF ys(2)] by simp
  also have "\<dots> = foldl add c ys" using foldl_remove1 [OF ys(1)] by simp
  finally show ?case .
qed

end

lemma earlier_seen_laws:
  "earlier_seen 0 b = b"
  "earlier_seen (earlier_seen a b) c = earlier_seen a (earlier_seen b c)"
  "earlier_seen a (earlier_seen b c) = earlier_seen b (earlier_seen a c)"
  by (auto simp: earlier_seen_def)

interpretation child_counts: mergeable_summary zeroCounts countsAdd Merge
  by unfold_locales (auto simp: zeroCounts_def countsAdd_def Merge_def earlier_seen_laws ac_simps)

text \<open>
  Counting children is a homomorphism and blind to their order: merging the counts of two lists
  gives the counts of the joined list, so a frame that tallies the children it left out and adds the
  ones it kept reports the same totals as one that walked every child, in any order.
\<close>

theorem CountTasks_merge:
  "CountTasks (xs @ ys) = Merge (CountTasks xs) (CountTasks ys)
   \<and> Merge (CountTasks ys) (CountTasks xs) = Merge (CountTasks xs) (CountTasks ys)"
  using child_counts.summary_append [of xs ys] child_counts.summary_append [of ys xs]
    child_counts.summary_permute [of "xs @ ys" "ys @ xs" zeroCounts]
  by (simp add: CountTasks_def union_commute)

subsection \<open>Tallies on snapshots\<close>

definition WithChildTally :: "TasksSnapshot \<Rightarrow> ChildTally \<Rightarrow> TasksSnapshot" where
  "WithChildTally col t = (case col of TasksSnapshot i k n st sm ts cs sq d _ ct \<Rightarrow>
     TasksSnapshot i k n st sm ts cs sq d (Some t) ct)"

definition WithoutChildTally :: "TasksSnapshot \<Rightarrow> TasksSnapshot" where
  "WithoutChildTally col = (case col of TasksSnapshot i k n st sm ts cs sq d _ ct \<Rightarrow>
     TasksSnapshot i k n st sm ts cs sq d None ct)"

definition ChildTallyOf :: "TasksSnapshot \<Rightarrow> ChildTally option" where
  "ChildTallyOf col = col_tally col"

definition zeroCollectionTally :: CollectionTally where
  "zeroCollectionTally = \<lparr>clt_Count = 0, clt_Tasks = zeroCounts, clt_Settled = 0, clt_OwnRows = 0,
     clt_OwnRowNameWidth = 0\<rparr>"

definition collectionTallyEmpty :: "CollectionTally \<Rightarrow> bool" where
  "collectionTallyEmpty t = (clt_Count t = 0)"

definition WithCollectionTally :: "TasksSnapshot \<Rightarrow> CollectionTally \<Rightarrow> TasksSnapshot" where
  "WithCollectionTally col t = (case col of TasksSnapshot i k n st sm ts cs sq d ta _ \<Rightarrow>
     TasksSnapshot i k n st sm ts cs sq d ta (if collectionTallyEmpty t then None else Some t))"

definition CollectionTallyOf :: "TasksSnapshot \<Rightarrow> CollectionTally" where
  "CollectionTallyOf col =
     (case col_collectionTally col of None \<Rightarrow> zeroCollectionTally | Some t \<Rightarrow> t)"

lemma ChildTallyOf_With: "ChildTallyOf (WithChildTally col t) = Some t"
  "ChildTallyOf (WithoutChildTally col) = None"
  by (cases col; simp add: ChildTallyOf_def WithChildTally_def WithoutChildTally_def)+

lemma CollectionTallyOf_With:
  "CollectionTallyOf (WithCollectionTally col t) =
     (if collectionTallyEmpty t then zeroCollectionTally else t)"
  by (cases col) (simp add: CollectionTallyOf_def WithCollectionTally_def)

end
