(* ===== verification/Text_Width.thy ===== *)
theory Text_Width
  imports Text_Sanitize
begin

text \<open>
  \<open>internal/text/width.go\<close> and the padding and styling of \<open>style.go\<close>: what a string measures in
  terminal cells, how control sequences are skipped, and the two truncations. Cell counts are
  \<open>int\<close>. The Unicode range tables \<open>Mn\<close>, \<open>Me\<close> and \<open>Cf\<close> are data of Go's \<open>unicode\<close> package, so they
  are an argument; the theorems hold for every table, or name what they ask of it.
\<close>

record unicode_tables =
  in_Mn :: "rune \<Rightarrow> bool"
  in_Me :: "rune \<Rightarrow> bool"
  in_Cf :: "rune \<Rightarrow> bool"

subsection \<open>The width of a rune\<close>

definition isWide :: "rune \<Rightarrow> bool" where
  "isWide r =
     (if 0xff01 \<le> r \<and> r \<le> 0xff60 then True
      else if 0xffe0 \<le> r \<and> r \<le> 0xffe6 then True
      else if 0x1100 \<le> r \<and> r \<le> 0x115f then True
      else if 0x2e80 \<le> r \<and> r \<le> 0xa4cf then True
      else if 0xac00 \<le> r \<and> r \<le> 0xd7a3 then True
      else if 0xf900 \<le> r \<and> r \<le> 0xfaff then True
      else if 0xfe10 \<le> r \<and> r \<le> 0xfe19 then True
      else if 0xfe30 \<le> r \<and> r \<le> 0xfe6f then True
      else if 0x20000 \<le> r \<and> r \<le> 0x3fffd then True
      else if 0x1f300 \<le> r \<and> r \<le> 0x1faff then True
      else if 0x2600 \<le> r \<and> r \<le> 0x27bf then r \<ge> 0x26a0 \<or> r \<ge> 0x2700
      else False)"

definition RuneCells :: "unicode_tables \<Rightarrow> rune \<Rightarrow> int" where
  "RuneCells U r =
     (if r = 0 then 0
      else if in_Mn U r \<or> in_Me U r then 0
      else if r \<in> {0x200d, 0x200c, 0xfe0f, 0xfe0e} then 0
      else if r = 0x20e3 then 0
      else if in_Cf U r \<and> r \<noteq> 0x00ad
        \<and> (0x200b \<le> r \<and> r \<le> 0x200f \<or> 0x202a \<le> r \<and> r \<le> 0x202e \<or> 0x2060 \<le> r \<and> r \<le> 0x206f) then 0
      else if isWide r then 2
      else if r < 0x20 \<or> r = 0x7f then 0
      else 1)"

text \<open>An emoji selector after a one-cell rune widens it, once.\<close>

record cellCounter =
  previousWidth :: int
  emojiPresentation :: bool

definition zero_counter :: cellCounter where
  "zero_counter = \<lparr>previousWidth = 0, emojiPresentation = False\<rparr>"

definition cell_add :: "unicode_tables \<Rightarrow> cellCounter \<Rightarrow> rune \<Rightarrow> int \<times> cellCounter" where
  "cell_add U c r =
     (if r = 0xfe0f \<or> r = 0x20e3 then
        (if previousWidth c = 1 \<and> \<not> emojiPresentation c
         then (1, c\<lparr>emojiPresentation := True\<rparr>) else (0, c))
      else
        (let add = RuneCells U r in
         if add > 0 then (add, \<lparr>previousWidth = add, emojiPresentation = False\<rparr>) else (add, c)))"

lemma RuneCells_range: "0 \<le> RuneCells U r \<and> RuneCells U r \<le> 2"
  by (simp add: RuneCells_def)

lemma cell_add_range: "0 \<le> fst (cell_add U c r) \<and> fst (cell_add U c r) \<le> 2"
  using RuneCells_range [of U r] by (simp add: cell_add_def Let_def)

lemma cell_add_zero:
  assumes "fst (cell_add U c r) = 0"
  shows "snd (cell_add U c r) = c"
proof -
  have "\<not> 0 < RuneCells U r \<or> r = 0xfe0f \<or> r = 0x20e3"
    using assms by (auto simp: cell_add_def Let_def split: if_splits)
  then show ?thesis using assms by (auto simp: cell_add_def Let_def split: if_splits)
qed

subsection \<open>Measuring a string\<close>

function cells_loop :: "unicode_tables \<Rightarrow> cellCounter \<Rightarrow> int \<Rightarrow> gostring \<Rightarrow> int" where
  "cells_loop U c n s =
     (if s = [] then n
      else
        (let (r, size) = decode_rune s; (add, c') = cell_add U c r in
         cells_loop U c' (n + add) (drop size s)))"
  by pat_completeness auto
termination
  by (relation "measure (\<lambda>(U, c, n, s). length s)") (auto simp: decode_rune_progress)

declare cells_loop.simps [simp del]

definition Cells :: "unicode_tables \<Rightarrow> gostring \<Rightarrow> int" where
  "Cells U s = (if s = [] then 0 else cells_loop U zero_counter 0 s)"

text \<open>The same count over runes.\<close>

fun rune_cells :: "unicode_tables \<Rightarrow> cellCounter \<Rightarrow> rune list \<Rightarrow> int" where
  "rune_cells U c [] = 0"
| "rune_cells U c (r # rs) = fst (cell_add U c r) + rune_cells U (snd (cell_add U c r)) rs"

fun rune_counter :: "unicode_tables \<Rightarrow> cellCounter \<Rightarrow> rune list \<Rightarrow> cellCounter" where
  "rune_counter U c [] = c"
| "rune_counter U c (r # rs) = rune_counter U (snd (cell_add U c r)) rs"

lemma rune_cells_append:
  "rune_cells U c (rs @ qs) = rune_cells U c rs + rune_cells U (rune_counter U c rs) qs"
  by (induction rs arbitrary: c) auto

lemma rune_cells_nonneg: "0 \<le> rune_cells U c rs"
proof (induction rs arbitrary: c)
  case (Cons r rs)
  then show ?case using cell_add_range [of U c r] by (simp add: add_nonneg_nonneg)
qed simp

lemma decode_all_step:
  "s \<noteq> [] \<Longrightarrow> decode_all s = fst (decode_rune s) # decode_all (drop (snd (decode_rune s)) s)"
  by (simp add: decode_all.simps)

lemma cells_loop_runes: "cells_loop U c n s = n + rune_cells U c (decode_all s)"
proof (induction U c n s rule: cells_loop.induct)
  case (1 U c n s)
  show ?case
  proof (cases "s = []")
    case False
    obtain r k where rk: "decode_rune s = (r, k)" by force
    obtain add c' where ac: "cell_add U c r = (add, c')" by force
    show ?thesis
      using 1 [OF False rk [symmetric] refl ac [symmetric] refl] False rk ac
      by (subst cells_loop.simps) (simp add: decode_all_step)
  qed (simp add: cells_loop.simps)
qed

lemma Cells_runes: "Cells U s = rune_cells U zero_counter (decode_all s)"
  by (simp add: Cells_def cells_loop_runes)

lemma Cells_nonneg: "0 \<le> Cells U s"
  by (simp add: Cells_runes rune_cells_nonneg)

subsection \<open>Truncating plain text\<close>

definition ellipsis :: gostring where
  "ellipsis = [CHR 0xE2, CHR 0x80, CHR 0xA6]"

function truncate_loop :: "unicode_tables \<Rightarrow> cellCounter \<Rightarrow> int \<Rightarrow> int \<Rightarrow> gostring \<Rightarrow> gostring" where
  "truncate_loop U c n maxCells s =
     (if s = [] then []
      else
        (let (r, size) = decode_rune s; (add, c') = cell_add U c r in
         if add = 0 \<and> n > 0 then take size s @ truncate_loop U c' n maxCells (drop size s)
         else if n + add > maxCells - 1 then []
         else take size s @ truncate_loop U c' (n + add) maxCells (drop size s)))"
  by pat_completeness auto
termination
  by (relation "measure (\<lambda>(U, c, n, m, s). length s)") (auto simp: decode_rune_progress)

declare truncate_loop.simps [simp del]

definition Truncate :: "unicode_tables \<Rightarrow> gostring \<Rightarrow> int \<Rightarrow> gostring" where
  "Truncate U s maxCells =
     (if maxCells \<le> 0 then []
      else if Cells U s \<le> maxCells then s
      else if maxCells = 1 then ellipsis
      else truncate_loop U zero_counter 0 maxCells s @ ellipsis)"

text \<open>One turn of the loop, with the decoded rune and its width named.\<close>

lemma truncate_loop_step:
  assumes "s \<noteq> []" "decode_rune s = (r, k)" "cell_add U c r = (add, c')"
  shows "truncate_loop U c n m s =
    (if add = 0 \<and> n > 0 then take k s @ truncate_loop U c' n m (drop k s)
     else if n + add > m - 1 then []
     else take k s @ truncate_loop U c' (n + add) m (drop k s))"
  using assms by (simp add: truncate_loop.simps)

lemma truncate_loop_prefix: "\<exists>v. s = truncate_loop U c n m s @ v"
proof (induction U c n m s rule: truncate_loop.induct)
  case (1 U c n m s)
  show ?case
  proof (cases "s = []")
    case False
    obtain r k where rk: "decode_rune s = (r, k)" by force
    obtain add c' where ac: "cell_add U c r = (add, c')" by force
    show ?thesis
      using 1 [OF False rk [symmetric] refl ac [symmetric] refl]
      unfolding truncate_loop_step [OF False rk ac]
      by (auto) (metis append.assoc append_take_drop_id)+
  qed (simp add: truncate_loop.simps)
qed

lemma decode_all_kept:
  assumes "s \<noteq> []" "decode_rune s = (r, k)" "drop k s = q @ v"
  shows "decode_all (take k s @ q) = r # decode_all q"
proof -
  have k: "0 < k" "k \<le> length s" using decode_rune_size [OF assms(1)] assms(2) by auto
  have "decode_rune (take k s @ q @ []) = decode_rune s"
    using decode_rune_cut [OF assms(1), of q v "[]"] assms(2,3) by (simp add: rune_head_def)
  with k assms(2) show ?thesis
    by (subst decode_all_step) auto
qed

lemma truncate_loop_cells:
  "n \<le> m - 1 \<Longrightarrow> n + rune_cells U c (decode_all (truncate_loop U c n m s)) \<le> m - 1"
proof (induction U c n m s rule: truncate_loop.induct)
  case (1 U c n m s)
  show ?case
  proof (cases "s = []")
    case False
    obtain r k where rk: "decode_rune s = (r, k)" by force
    obtain add c' where ac: "cell_add U c r = (add, c')" by force
    note IH = "1.IH" [OF False rk [symmetric] refl ac [symmetric] refl]
    have kept: "decode_all (take k s @ truncate_loop U c' j m (drop k s))
        = r # decode_all (truncate_loop U c' j m (drop k s))" for j
      using truncate_loop_prefix [of "drop k s" U c' j m] decode_all_kept [OF False rk] by metis
    show ?thesis
      unfolding truncate_loop_step [OF False rk ac]
      using IH "1.prems" ac by (auto simp: kept)
  qed (use "1.prems" in \<open>simp add: truncate_loop.simps\<close>)
qed

lemma decode_ellipsis: "decode_all ellipsis = [0x2026]"
  by (simp add: ellipsis_def decode_all.simps decode_defs second_ok_def cont_def)

lemma ellipsis_head [simp]: "rune_head (ellipsis @ t)"
  by (simp add: rune_head_def ellipsis_def RuneStart_def cont_def)

lemma ellipsis_cells: "rune_cells U c [0x2026] \<le> 1"
  by (simp add: cell_add_def RuneCells_def isWide_def)

lemma Truncate_width: "Cells U (Truncate U s n) \<le> max 0 n"
proof -
  let ?p = "truncate_loop U zero_counter 0 n s"
  have "Cells U (?p @ ellipsis) \<le> n" if "1 < n"
    using truncate_loop_cells [of 0 n U zero_counter s] that ellipsis_cells ellipsis_head [of "[]"]
    by (simp only: Cells_runes decode_all_append append_Nil2 decode_ellipsis rune_cells_append) (smt (verit))
  moreover have "Cells U ellipsis \<le> 1"
    by (simp only: Cells_runes decode_ellipsis ellipsis_cells)
  ultimately show ?thesis
    by (auto simp: Truncate_def Cells_def [of U "[]"])
qed

subsection \<open>Control sequences\<close>

abbreviation escapeByte :: char where
  "escapeByte \<equiv> CHR 0x1B"

definition sgrReset :: gostring where
  "sgrReset = [escapeByte] @ ''[0m''"

definition oscHyperlinkClose :: gostring where
  "oscHyperlinkClose = [escapeByte] @ '']8;;'' @ [escapeByte, CHR 0x5C]"

text \<open>
  \<open>escapeSequenceEnd(s, start)\<close> is \<open>start\<close> plus the length found on the rest of the string from
  \<open>start\<close> on; an unfinished sequence takes all of it.
\<close>

fun csi_len :: "gostring \<Rightarrow> nat" where
  "csi_len [] = 0"
| "csi_len (c # t) = (if 0x40 \<le> byte c \<and> byte c \<le> 0x7e then 1 else Suc (csi_len t))"

fun osc_len :: "gostring \<Rightarrow> nat" where
  "osc_len [] = 0"
| "osc_len (c # t) =
     (if c = CHR 0x07 then 1
      else if c = escapeByte \<and> t \<noteq> [] \<and> hd t = CHR 0x5C then 2
      else Suc (osc_len t))"

definition escape_len :: "gostring \<Rightarrow> nat" where
  "escape_len s =
     (case s of
        e # k # t \<Rightarrow>
          if k = CHR ''['' then 2 + csi_len t
          else if k = CHR '']'' then 2 + osc_len t
          else if k = CHR ''('' then min 3 (length s)
          else min 2 (length s)
      | _ \<Rightarrow> length s)"

definition escapeSequenceEnd :: "gostring \<Rightarrow> nat \<Rightarrow> nat" where
  "escapeSequenceEnd s start = start + escape_len (drop start s)"

lemma escape_len_pos: "s \<noteq> [] \<Longrightarrow> 0 < escape_len s"
  by (auto simp: escape_len_def split: list.splits)

function strip_loop :: "gostring \<Rightarrow> gostring" where
  "strip_loop s =
     (if s = [] then []
      else if hd s \<noteq> escapeByte then hd s # strip_loop (tl s)
      else strip_loop (drop (escape_len s) s))"
  by pat_completeness auto
termination
  by (relation "measure length") (auto simp: escape_len_pos)

declare strip_loop.simps [simp del]

definition StripANSI :: "gostring \<Rightarrow> gostring" where
  "StripANSI s = (if s = [] \<or> escapeByte \<notin> set s then s else strip_loop s)"

definition VisibleCells :: "unicode_tables \<Rightarrow> gostring \<Rightarrow> int" where
  "VisibleCells U s = Cells U (StripANSI s)"

definition isSGR :: "gostring \<Rightarrow> bool" where
  "isSGR s \<longleftrightarrow> has_prefix s ([escapeByte] @ ''['') \<and> has_suffix s ''m''"

lemma strip_Nil [simp]: "strip_loop [] = []"
  by (simp add: strip_loop.simps)

lemma strip_Cons [simp]: "c \<noteq> escapeByte \<Longrightarrow> strip_loop (c # s) = c # strip_loop s"
  by (simp add: strip_loop.simps)

lemma strip_append_plain: "escapeByte \<notin> set p \<Longrightarrow> strip_loop (p @ s) = p @ strip_loop s"
  by (induction p) auto

lemma StripANSI_loop: "StripANSI s = strip_loop s"
  using strip_append_plain [of s "[]"] by (simp add: StripANSI_def)

lemma strip_no_escape: "escapeByte \<notin> set (strip_loop s)"
proof (induction s rule: strip_loop.induct)
  case (1 s)
  then show ?case by (subst strip_loop.simps) auto
qed

text \<open>A finished sequence ends where it ends, whatever follows.\<close>

lemma csi_len_le: "csi_len t \<le> length t"
  by (induction t) auto

lemma osc_len_le: "osc_len t \<le> length t"
  by (induction t) (auto simp: Suc_le_eq)

lemma escape_len_le: "escape_len s \<le> length s"
  using csi_len_le osc_len_le by (auto simp: escape_len_def split: list.splits)

lemma csi_len_finished: "csi_len t < length t \<Longrightarrow> csi_len (take (csi_len t) t @ w) = csi_len t"
  by (induction t) auto

lemma osc_len_finished: "osc_len t < length t \<Longrightarrow> osc_len (take (osc_len t) t @ w) = osc_len t"
proof (induction t)
  case (Cons c t)
  show ?case
  proof (cases "c = CHR 0x07 \<or> (c = escapeByte \<and> t \<noteq> [] \<and> hd t = CHR 0x5C)")
    case True
    then show ?thesis by (cases t) auto
  next
    case False
    with Cons.prems have lt: "osc_len t < length t" by (auto split: if_splits)
    then have "0 < osc_len t" by (cases t) auto
    with lt have "hd (take (osc_len t) t @ w) = hd t" by (cases t) (auto simp: take_Cons split: nat.splits)
    with Cons.IH [OF lt] False lt show ?thesis by auto
  qed
qed simp

lemma escape_len_finished:
  assumes "escape_len s < length s"
  shows "escape_len (take (escape_len s) s @ w) = escape_len s"
proof (cases s)
  case (Cons e s')
  show ?thesis
  proof (cases s')
    case (Cons k t)
    then show ?thesis
      using assms csi_len_finished [of t w] osc_len_finished [of t w] \<open>s = e # s'\<close>
      by (auto simp: escape_len_def numeral_2_eq_2 numeral_3_eq_3 min_def split: list.splits)
  qed (use assms \<open>s = e # s'\<close> in \<open>simp add: escape_len_def\<close>)
qed (use assms in \<open>simp add: escape_len_def\<close>)

lemma strip_finished:
  assumes "s \<noteq> []" "hd s = escapeByte" "escape_len s < length s"
  shows "strip_loop (take (escape_len s) s @ w) = strip_loop w"
proof -
  have "hd (take (escape_len s) s @ w) = escapeByte" "take (escape_len s) s \<noteq> []"
    using assms(1,2) escape_len_pos [of s] by (auto simp: hd_append)
  then show ?thesis
    using escape_len_finished [OF assms(3), of w] assms(3)
    by (subst strip_loop.simps) simp
qed

lemma strip_cut:
  assumes "s \<noteq> []" "hd s = escapeByte" "drop (escape_len s) s = q @ v"
  shows "strip_loop (take (escape_len s) s @ q) = strip_loop q"
proof (cases "escape_len s < length s")
  case False
  with escape_len_le [of s] have "escape_len s = length s" by simp
  with assms show ?thesis by (subst strip_loop.simps) simp
qed (rule strip_finished [OF assms(1,2)])

subsection \<open>Joining strings never widens them\<close>

text \<open>
  Removing a control sequence can join the halves of a rune that were measured apart, as ill-formed
  bytes of one cell each. The joined rune takes no more cells, and leaves a counter from which the
  rest measures no more.
\<close>

definition spacing :: "unicode_tables \<Rightarrow> rune \<Rightarrow> bool" where
  "spacing U r \<longleftrightarrow> \<not> in_Mn U r \<and> \<not> in_Me U r"

definition fresh :: "cellCounter \<Rightarrow> bool" where
  "fresh c \<longleftrightarrow> previousWidth c = 1 \<and> \<not> emojiPresentation c"

lemma rune_cells_dominated: "fresh d \<or> \<not> fresh c \<Longrightarrow> rune_cells U c rs \<le> rune_cells U d rs"
proof (induction rs arbitrary: c d)
  case (Cons r rs)
  show ?case
  proof (cases "r = 0xfe0f \<or> r = 0x20e3")
    case True
    then show ?thesis
      using Cons.prems Cons.IH [of "snd (cell_add U d r)" "snd (cell_add U c r)"]
      by (auto simp: cell_add_def fresh_def)
  next
    case False
    then show ?thesis
      using Cons.prems Cons.IH [of d c] by (auto simp: cell_add_def Let_def)
  qed
qed simp

lemma decode_conts:
  "list_all (\<lambda>c. cont (byte c)) t \<Longrightarrow> decode_all (t @ z) = replicate (length t) RuneError @ decode_all z"
proof (induction t)
  case (Cons c t)
  then have "decode_rune (c # t @ z) = (RuneError, 1)"
    by (simp add: decode_rune_def cont_def Let_def)
  with Cons show ?case by (simp add: decode_all_step)
qed simp

lemma well_formed_conts:
  assumes "w \<noteq> []" "\<not> ill_formed (decode_rune w)"
  shows "list_all (\<lambda>c. cont (byte c)) (drop 1 (take (snd (decode_rune w)) w))"
  using assms by (auto simp: decode_defs ill_formed_def split: list.splits if_splits dest: second_ok_cont)

lemma replacement_cells:
  assumes "spacing U RuneError"
  shows "rune_cells U c (replicate (Suc k) RuneError @ rs)
    = int (Suc k) + rune_cells U \<lparr>previousWidth = 1, emojiPresentation = False\<rparr> rs"
proof -
  have one: "cell_add U d RuneError = (1, \<lparr>previousWidth = 1, emojiPresentation = False\<rparr>)" for d
    using assms by (simp add: cell_add_def RuneCells_def isWide_def RuneError_def spacing_def)
  have "rune_cells U d (replicate k RuneError @ rs)
      = int k + rune_cells U (if k = 0 then d else \<lparr>previousWidth = 1, emojiPresentation = False\<rparr>) rs" for d
    by (induction k arbitrary: d) (simp_all add: one)
  then show ?thesis by (simp add: one)
qed

text \<open>The bytes of a rune that straddles a joint are, apart, one ill-formed byte each.\<close>

lemma straddling_rune:
  assumes "x \<noteq> []" "ill_formed (decode_rune x)"
    and rk: "decode_rune (x @ y) = (r, k)" "\<not> ill_formed (r, k)" "length x < k"
  shows "decode_all x @ decode_all y = replicate k RuneError @ decode_all (drop k (x @ y))"
proof -
  define j where "j = k - length x"
  have all: "take k (x @ y) = x @ take j y" "drop k (x @ y) = drop j y"
    using rk(3) by (simp_all add: j_def)
  have jy: "length (take j y) = j" "k = length x + j"
    using rk(3) decode_rune_size [of "x @ y"] rk(1) assms(1) by (auto simp: j_def)
  obtain c x' where x: "x = c # x'" using assms(1) by (cases x) auto
  have "list_all (\<lambda>c. cont (byte c)) (drop 1 (take k (x @ y)))"
    using well_formed_conts [of "x @ y"] assms(1) rk by simp
  then have conts: "list_all (\<lambda>c. cont (byte c)) x'" "list_all (\<lambda>c. cont (byte c)) (take j y)"
    unfolding all(1) by (simp_all add: x)
  have "decode_all x = RuneError # replicate (length x') RuneError"
    using assms(2) decode_conts [OF conts(1), of "[]"] by (simp add: x decode_all_step ill_formed_def)
  moreover have "decode_all y = replicate j RuneError @ decode_all (drop j y)"
    using decode_conts [OF conts(2), of "drop j y"] jy(1) by simp
  ultimately show ?thesis
    by (simp add: all(2) jy(2) x replicate_add)
qed

lemma rune_cells_straddling:
  assumes "spacing U RuneError" "2 \<le> k"
  shows "fst (cell_add U c r) + rune_cells U (snd (cell_add U c r)) rs
    \<le> rune_cells U c (replicate k RuneError @ rs)"
proof -
  have "rune_cells U (snd (cell_add U c r)) rs
      \<le> rune_cells U \<lparr>previousWidth = 1, emojiPresentation = False\<rparr> rs"
    by (rule rune_cells_dominated) (simp add: fresh_def)
  then show ?thesis
    using replacement_cells [OF assms(1), of c "k - 1" rs] assms(2) cell_add_range [of U c r] by simp
qed

lemma rune_cells_joined:
  assumes "spacing U RuneError"
  shows "rune_cells U c (decode_all (x @ y)) \<le> rune_cells U c (decode_all x @ decode_all y)"
proof (induction "length x" arbitrary: x c rule: less_induct)
  case less
  show ?case
  proof (cases "x = []")
    case False
    obtain r k where rk: "decode_rune (x @ y) = (r, k)" by force
    have k: "0 < k" using decode_rune_pos [of "x @ y"] rk False by simp
    have joined: "decode_all (x @ y) = r # decode_all (drop k (x @ y))"
      using False rk by (simp add: decode_all_step)
    show ?thesis
    proof (cases "decode_rune x = decode_rune (x @ y)")
      case True
      with decode_rune_size [OF False] rk have "k \<le> length x" by simp
      moreover have "decode_all x = r # decode_all (drop k x)"
        using False True rk by (simp add: decode_all_step)
      ultimately show ?thesis
        using less [of "drop k x" "snd (cell_add U c r)"] k False joined by simp
    next
      case diff: False
      have ill: "ill_formed (decode_rune x)"
        using diff decode_rune_local [of x "x @ y"] decode_rune_size [OF False] False by auto
      with diff rk have ok: "\<not> ill_formed (r, k)" by (auto simp: ill_formed_def)
      have "\<not> k \<le> length x"
        using diff ok rk False decode_rune_local [of "x @ y" x] by auto
      moreover from this have "2 \<le> k" using False by (cases x) auto
      ultimately show ?thesis
        using straddling_rune [OF False ill rk ok] rune_cells_straddling [OF assms] joined by simp
    qed
  qed simp
qed

subsection \<open>Truncating styled text\<close>

function visible_loop ::
  "unicode_tables \<Rightarrow> cellCounter \<Rightarrow> int \<Rightarrow> bool \<Rightarrow> bool \<Rightarrow> int \<Rightarrow> gostring \<Rightarrow> gostring \<times> bool \<times> bool" where
  "visible_loop U c cells hasSGR hasHyperlink maxCells s =
     (if s = [] then ([], hasSGR, hasHyperlink)
      else if hd s = escapeByte then
        (let sequence = take (escape_len s) s;
             (b, flags) = visible_loop U c cells (hasSGR \<or> isSGR sequence)
               (hasHyperlink \<or> has_prefix sequence ([escapeByte] @ '']8;'')) maxCells (drop (escape_len s) s)
         in (sequence @ b, flags))
      else
        (let (r, size) = decode_rune s; (add, c') = cell_add U c r in
         if add = 0 \<and> cells > 0 then
           (let (b, flags) = visible_loop U c' cells hasSGR hasHyperlink maxCells (drop size s)
            in (take size s @ b, flags))
         else if cells + add > maxCells - 1 then ([], hasSGR, hasHyperlink)
         else
           (let (b, flags) = visible_loop U c' (cells + add) hasSGR hasHyperlink maxCells (drop size s)
            in (take size s @ b, flags))))"
  by pat_completeness auto
termination
  by (relation "measure (\<lambda>(U, c, n, hs, hl, m, s). length s)")
    (auto simp: decode_rune_progress escape_len_pos)

declare visible_loop.simps [simp del]

definition TruncateVisible :: "unicode_tables \<Rightarrow> gostring \<Rightarrow> int \<Rightarrow> gostring" where
  "TruncateVisible U s maxCells =
     (if maxCells \<le> 0 then []
      else if VisibleCells U s \<le> maxCells then s
      else if maxCells = 1 then ellipsis
      else
        (let (b, hasSGR, hasHyperlink) = visible_loop U zero_counter 0 False False maxCells s in
         b @ ellipsis @ (if hasHyperlink then oscHyperlinkClose else []) @ (if hasSGR then sgrReset else [])))"

text \<open>The text the loop keeps, without the flags it gathers.\<close>

abbreviation "visible_text U c n hs hl m s \<equiv> fst (visible_loop U c n hs hl m s)"

lemma visible_text_escape:
  assumes "s \<noteq> []" "hd s = escapeByte"
  shows "visible_text U c n hs hl m s
    = take (escape_len s) s
      @ visible_text U c n (hs \<or> isSGR (take (escape_len s) s))
          (hl \<or> has_prefix (take (escape_len s) s) ([escapeByte] @ '']8;'')) m (drop (escape_len s) s)"
  using assms by (subst visible_loop.simps) (simp add: Let_def case_prod_beta)

lemma visible_text_rune:
  assumes "s \<noteq> []" "hd s \<noteq> escapeByte" "decode_rune s = (r, k)" "cell_add U c r = (add, c')"
  shows "visible_text U c n hs hl m s =
    (if add = 0 \<and> n > 0 then take k s @ visible_text U c' n hs hl m (drop k s)
     else if n + add > m - 1 then []
     else take k s @ visible_text U c' (n + add) hs hl m (drop k s))"
  using assms by (subst visible_loop.simps) (simp add: Let_def case_prod_beta)

lemma visible_loop_prefix: "\<exists>v. s = visible_text U c n hs hl m s @ v"
proof (induction U c n hs hl m s rule: visible_loop.induct)
  case (1 U c n hs hl m s)
  consider "s = []" | "s \<noteq> []" "hd s = escapeByte" | "s \<noteq> []" "hd s \<noteq> escapeByte" by auto
  then show ?case
  proof cases
    case 1
    then show ?thesis by (simp add: visible_loop.simps)
  next
    case 2
    then show ?thesis
      using "1.IH"(1) [OF 2 refl] unfolding visible_text_escape [OF 2]
      by (metis append.assoc append_take_drop_id)
  next
    case 3
    obtain r k where rk: "decode_rune s = (r, k)" by force
    obtain add c' where ac: "cell_add U c r = (add, c')" by force
    show ?thesis
      using "1.IH"(2-3) [OF 3 rk [symmetric] refl ac [symmetric] refl]
      unfolding visible_text_rune [OF 3 rk ac]
      by auto (metis append.assoc append_take_drop_id)+
  qed
qed

text \<open>The bytes of a rune hold no escape.\<close>

lemma rune_no_escape:
  assumes "s \<noteq> []" "hd s \<noteq> escapeByte" "decode_rune s = (r, k)"
  shows "escapeByte \<notin> set (take k s)"
proof (cases "ill_formed (decode_rune s)")
  case True
  with assms show ?thesis by (cases s) (auto simp: ill_formed_def)
next
  case False
  have "list_all (\<lambda>c. cont (byte c)) (drop 1 (take k s))"
    using well_formed_conts [OF assms(1) False] assms(3) by simp
  then have "escapeByte \<notin> set (drop 1 (take k s))"
    by (auto simp: list_all_iff cont_def)
  moreover have "set (take k s) \<subseteq> insert (hd s) (set (drop 1 (take k s)))"
    using assms(1) by (cases s; cases k) auto
  ultimately show ?thesis using assms(2) by auto
qed

text \<open>What the loop keeps measures within the limit, and a part of the string it stopped in ends no sequence early.\<close>

lemma visible_loop_cells:
  "spacing U RuneError \<Longrightarrow> n \<le> m - 1 \<Longrightarrow> n + rune_cells U c (decode_all (strip_loop (visible_text U c n hs hl m s))) \<le> m - 1"
proof (induction U c n hs hl m s rule: visible_loop.induct)
  case (1 U c n hs hl m s)
  consider "s = []" | "s \<noteq> []" "hd s = escapeByte" | "s \<noteq> []" "hd s \<noteq> escapeByte" by auto
  then show ?case
  proof cases
    case 1
    then show ?thesis using "1.prems" by (simp add: visible_loop.simps)
  next
    case 2
    show ?thesis
      using "1.IH"(1) [OF 2 refl "1.prems"] strip_cut [OF 2] visible_loop_prefix
      unfolding visible_text_escape [OF 2] by metis
  next
    case 3
    obtain r k where rk: "decode_rune s = (r, k)" by force
    obtain add c' where ac: "cell_add U c r = (add, c')" by force
    note IH = "1.IH"(2-3) [OF 3 rk [symmetric] refl ac [symmetric] refl]
    have one: "decode_all (take k s) = [r]"
      using decode_all_kept [OF 3(1) rk, of "[]"] by simp
    have kept: "rune_cells U c (decode_all (strip_loop (take k s @ q)))
        \<le> add + rune_cells U c' (decode_all (strip_loop q))" for q
      using rune_cells_joined [OF "1.prems"(1), of c "take k s" "strip_loop q"]
      by (simp add: strip_append_plain [OF rune_no_escape [OF 3 rk]] one ac)
    show ?thesis
      unfolding visible_text_rune [OF 3 rk ac]
    proof (split if_split, intro conjI impI)
      assume now: "add = 0 \<and> n > 0"
      then show "n + rune_cells U c (decode_all (strip_loop
          (take k s @ visible_text U c' n hs hl m (drop k s)))) \<le> m - 1"
        using IH(1) [OF now "1.prems"] kept [of "visible_text U c' n hs hl m (drop k s)"] by linarith
    next
      assume now: "\<not> (add = 0 \<and> n > 0)"
      show "n + rune_cells U c (decode_all (strip_loop (if n + add > m - 1 then []
          else take k s @ visible_text U c' (n + add) hs hl m (drop k s)))) \<le> m - 1"
        using IH(2) [OF now _ "1.prems"(1)] "1.prems"(2)
          kept [of "visible_text U c' (n + add) hs hl m (drop k s)"] by auto
    qed
  qed
qed

lemma visible_loop_strip:
  "s = visible_text U c n hs hl m s @ v \<Longrightarrow> v \<noteq> [] \<Longrightarrow>
   strip_loop (visible_text U c n hs hl m s @ u) = strip_loop (visible_text U c n hs hl m s) @ strip_loop u"
proof (induction U c n hs hl m s rule: visible_loop.induct)
  case (1 U c n hs hl m s)
  consider "s = []" | "s \<noteq> []" "hd s = escapeByte" | "s \<noteq> []" "hd s \<noteq> escapeByte" by auto
  then show ?case
  proof cases
    case 1
    then show ?thesis by (simp add: visible_loop.simps)
  next
    case 2
    let ?q = "visible_text U c n (hs \<or> isSGR (take (escape_len s) s))
      (hl \<or> has_prefix (take (escape_len s) s) ([escapeByte] @ '']8;'')) m (drop (escape_len s) s)"
    note out = visible_text_escape [OF 2, of U c n hs hl m]
    have rest: "drop (escape_len s) s = ?q @ v"
      using "1.prems"(1) unfolding out by (metis append.assoc append_take_drop_id same_append_eq)
    then have "escape_len s < length s"
      using "1.prems"(2) by (metis append_is_Nil_conv drop_all not_less)
    then show ?thesis
      unfolding out using "1.IH"(1) [OF 2 refl rest "1.prems"(2)] strip_finished [OF 2] by simp
  next
    case 3
    obtain r k where rk: "decode_rune s = (r, k)" by force
    obtain add c' where ac: "cell_add U c r = (add, c')" by force
    note IH = "1.IH"(2-3) [OF 3 rk [symmetric] refl ac [symmetric] refl]
    note out = visible_text_rune [OF 3 rk ac, of n hs hl m]
    have rest: "drop k s = q @ v" if "visible_text U c n hs hl m s = take k s @ q" for q
      using "1.prems"(1) unfolding that by (metis append.assoc append_take_drop_id same_append_eq)
    have kept: "strip_loop ((take k s @ q) @ w) = take k s @ strip_loop (q @ w)" for q w
      using strip_append_plain [OF rune_no_escape [OF 3 rk]] by simp
    consider "add = 0 \<and> n > 0" | "\<not> (add = 0 \<and> n > 0)" "n + add > m - 1"
      | "\<not> (add = 0 \<and> n > 0)" "\<not> n + add > m - 1" by blast
    then show ?thesis
    proof cases
      case 1
      then have now: "visible_text U c n hs hl m s = take k s @ visible_text U c' n hs hl m (drop k s)"
        by (simp add: out)
      show ?thesis
        unfolding now using IH(1) [OF 1 rest [OF now] "1.prems"(2)] kept [of _ u] kept [of _ "[]"] by simp
    next
      case 2
      then have "visible_text U c n hs hl m s = []" unfolding out by (simp only: if_False if_True)
      then show ?thesis by simp
    next
      case 3
      then have now: "visible_text U c n hs hl m s = take k s @ visible_text U c' (n + add) hs hl m (drop k s)"
        by (simp add: out)
      show ?thesis
        unfolding now using IH(2) [OF 3 rest [OF now] "1.prems"(2)] kept [of _ u] kept [of _ "[]"] by simp
    qed
  qed
qed

lemma closers_strip:
  "strip_loop (ellipsis @ (if hl then oscHyperlinkClose else []) @ (if hs then sgrReset else [])) = ellipsis"
proof -
  have "strip_loop (oscHyperlinkClose @ t) = strip_loop t" for t
    by (subst strip_loop.simps) (simp add: oscHyperlinkClose_def escape_len_def)
  from this [of "[]"] have "strip_loop oscHyperlinkClose = []" by simp
  moreover note \<open>\<And>t. strip_loop (oscHyperlinkClose @ t) = strip_loop t\<close>
  moreover have "strip_loop sgrReset = []"
    by (subst strip_loop.simps) (simp add: sgrReset_def escape_len_def)
  ultimately show ?thesis by (simp add: strip_append_plain ellipsis_def)
qed

lemma TruncateVisible_width:
  assumes "spacing U RuneError"
  shows "VisibleCells U (TruncateVisible U s n) \<le> max 0 n"
proof (cases "VisibleCells U s \<le> n \<or> n \<le> 1")
  case True
  have "strip_loop ellipsis = ellipsis" using strip_append_plain [of ellipsis "[]"] by (simp add: ellipsis_def)
  then have "VisibleCells U ellipsis \<le> 1"
    by (simp only: VisibleCells_def StripANSI_loop Cells_runes decode_ellipsis ellipsis_cells)
  moreover have "VisibleCells U [] = 0" by (simp add: VisibleCells_def StripANSI_def Cells_def)
  ultimately show ?thesis using True by (auto simp: TruncateVisible_def)
next
  case False
  obtain b hs hl where b: "visible_loop U zero_counter 0 False False n s = (b, hs, hl)"
    by (metis prod_cases3)
  let ?t = "ellipsis @ (if hl then oscHyperlinkClose else []) @ (if hs then sgrReset else [])"
  have kept: "rune_cells U zero_counter (decode_all (strip_loop b)) \<le> n - 1"
    using visible_loop_cells [OF assms, of 0 n zero_counter False False s] False b by simp
  obtain v where v: "s = b @ v"
    using visible_loop_prefix [of s U zero_counter 0 False False n] b by auto
  have "v \<noteq> []"
    using kept False v by (auto simp: VisibleCells_def StripANSI_loop Cells_runes)
  then have "strip_loop (b @ ?t) = strip_loop b @ ellipsis"
    using visible_loop_strip [of s U zero_counter 0 False False n v ?t] b v closers_strip by simp
  moreover have "decode_all (strip_loop b @ ellipsis) = decode_all (strip_loop b) @ [0x2026]"
    using decode_all_append ellipsis_head [of "[]"] decode_ellipsis by simp
  ultimately show ?thesis
    using kept False ellipsis_cells [of U "rune_counter U zero_counter (decode_all (strip_loop b))"]
    by (simp add: TruncateVisible_def b VisibleCells_def StripANSI_loop Cells_runes rune_cells_append del: rune_cells.simps)
qed

subsection \<open>Styling and padding\<close>

definition SGRBold :: gostring where "SGRBold = [escapeByte] @ ''[1m''"
definition SGRDim :: gostring where "SGRDim = [escapeByte] @ ''[2m''"
definition SGRRed :: gostring where "SGRRed = [escapeByte] @ ''[31m''"
definition SGRGreen :: gostring where "SGRGreen = [escapeByte] @ ''[32m''"
definition SGRYellow :: gostring where "SGRYellow = [escapeByte] @ ''[33m''"
definition SGRCyan :: gostring where "SGRCyan = [escapeByte] @ ''[36m''"
definition SGRBlue :: gostring where "SGRBlue = [escapeByte] @ ''[34m''"

definition Style :: "gostring \<Rightarrow> gostring \<Rightarrow> bool \<Rightarrow> gostring" where
  "Style s code color = (if \<not> color \<or> code = [] \<or> s = [] then s else code @ s @ sgrReset)"

definition Dim :: "gostring \<Rightarrow> bool \<Rightarrow> gostring" where
  "Dim s color = Style s SGRDim color"

definition PadRight :: "unicode_tables \<Rightarrow> gostring \<Rightarrow> int \<Rightarrow> gostring" where
  "PadRight U s n =
     (let w = Cells U s in if w \<ge> n then s else s @ replicate (nat (n - w)) CHR '' '')"

definition PadLeft :: "unicode_tables \<Rightarrow> gostring \<Rightarrow> int \<Rightarrow> gostring" where
  "PadLeft U s n =
     (let w = Cells U s in if w \<ge> n then s else replicate (nat (n - w)) CHR '' '' @ s)"

lemmas sgr_defs = SGRBold_def SGRDim_def SGRRed_def SGRGreen_def SGRYellow_def SGRCyan_def SGRBlue_def

lemma decode_spaces: "decode_all (replicate k CHR '' '') = replicate k 0x20"
  by (induction k) (simp_all add: decode_all_step decode_rune_def)

lemma space_cells: "spacing U 0x20 \<Longrightarrow> rune_cells U c (replicate k 0x20) = int k"
  by (induction k arbitrary: c) (simp_all add: cell_add_def RuneCells_def isWide_def spacing_def)

lemma PadRight_cells:
  assumes "spacing U 0x20"
  shows "Cells U (PadRight U s n) = max (Cells U s) n"
proof (cases "n \<le> Cells U s")
  case False
  define k where "k = nat (n - Cells U s)"
  have "rune_head (replicate k CHR '' '')"
    by (cases k) (simp_all add: rune_head_def RuneStart_def cont_def)
  then have "decode_all (s @ replicate k CHR '' '') = decode_all s @ replicate k 0x20"
    by (simp add: decode_all_append decode_spaces)
  then have "Cells U (s @ replicate k CHR '' '') = Cells U s + int k"
    using space_cells [OF assms] by (simp add: Cells_runes rune_cells_append)
  with False show ?thesis by (simp add: PadRight_def Let_def k_def)
qed (simp add: PadRight_def)

text \<open>Sanitized text holds no escape byte, so only the styling's own sequences are stripped.\<close>

lemma char_of_escape: "char_of (n::nat) = escapeByte \<longleftrightarrow> n mod 256 = 0x1b"
proof
  assume "char_of n = escapeByte"
  then have "byte (char_of n) = byte escapeByte" by simp
  then show "n mod 256 = 0x1b" by simp
next
  assume "n mod 256 = 0x1b"
  moreover have "byte escapeByte = 0x1b" by simp
  ultimately have "char_of (n mod 256) = escapeByte" by (metis char_of_char)
  then show "char_of n = escapeByte" by simp
qed

lemma escape_in_rune:
  assumes "escapeByte \<in> set (encode_rune r)"
  shows "r = 0x1b"
proof -
  define q where "q = (if scalar r then r else RuneError)"
  have q: "escapeByte \<in> set (encode_scalar q)" "q \<le> 0x10FFFF"
    using assms by (auto simp: encode_rune_def q_def scalar_def RuneError_def)
  have "q < 0x80"
  proof (rule ccontr)
    assume "\<not> q < 0x80"
    moreover have "q div 4096 div 64 = q div 262144" by (simp flip: div_mult2_eq)
    ultimately show False
      using q by (auto simp: encode_scalar_def char_of_escape eq_commute [of escapeByte] split: if_splits)
  qed
  with q(1) have "q = 0x1b"
    by (auto simp: encode_scalar_def char_of_escape eq_commute [of escapeByte])
  then show ?thesis by (simp add: q_def RuneError_def split: if_splits)
qed

lemma neutralize_no_escape: "escapeByte \<notin> set (neutralize s p)"
proof
  let ?t = "neutralize s p"
  assume "escapeByte \<in> set ?t"
  then have "escapeByte \<in> set (encode_all (decode_all ?t))"
    using ValidString_decode_all neutralize_output by metis
  then obtain r where "r \<in> set (decode_all ?t)" "escapeByte \<in> set (encode_rune r)"
    unfolding encode_all_def by auto
  moreover from this(2) have "r = 0x1b" by (rule escape_in_rune)
  ultimately have "display_safe p 0x1b" using neutralize_output [of s p] by (auto simp: list_all_iff)
  then show False by (simp add: display_safe_def)
qed

lemma sgr_stripped:
  assumes "code \<in> {SGRBold, SGRDim, SGRRed, SGRGreen, SGRYellow, SGRCyan, SGRBlue, sgrReset}"
  shows "strip_loop (code @ t) = strip_loop t"
  using assms
  by (elim insertE emptyE; simp only:; subst strip_loop.simps) (simp_all add: sgr_defs sgrReset_def escape_len_def)

lemma Style_visible:
  assumes "code \<in> {SGRBold, SGRDim, SGRRed, SGRGreen, SGRYellow, SGRCyan, SGRBlue}" "escapeByte \<notin> set s"
  shows "StripANSI (Style s code color) = s"
proof -
  have "strip_loop (code @ s @ sgrReset) = s"
    using sgr_stripped [of code "s @ sgrReset"] sgr_stripped [of sgrReset "[]"] assms
    by (auto simp: strip_append_plain)
  moreover have "strip_loop s = s" using strip_append_plain [OF assms(2), of "[]"] by simp
  ultimately show ?thesis by (simp add: Style_def StripANSI_loop)
qed

subsection \<open>Properties\<close>

text \<open>
  A truncated text never measures more cells than asked for, whatever the Unicode tables say
  and however ill-formed the bytes are, and it is the text itself or a prefix of it followed by the
  ellipsis.
\<close>

theorem Truncate_fits:
  "Cells U (Truncate U s n) \<le> max 0 n
   \<and> (\<exists>p v. s = p @ v \<and> Truncate U s n \<in> {s, p @ ellipsis, []})"
  using truncate_loop_prefix [of s U zero_counter 0 n] Truncate_width [of U s n]
  by (auto simp: Truncate_def)

text \<open>
  Truncating styled text never exceeds the limit in visible cells: the sequences it carries over
  and the ones it closes with add nothing, and stripping them out joins no wider rune.
\<close>

theorem TruncateVisible_fits:
  assumes "spacing U RuneError"
  shows "VisibleCells U (TruncateVisible U s n) \<le> max 0 n"
  using assms by (rule TruncateVisible_width)

text \<open>\<open>\<guillemotleft>ESC[31mabc\<guillemotright>\<close> cut to two cells.\<close>

theorem TruncateVisible_fits_witness:
  "let U = \<lparr>in_Mn = \<lambda>_. False, in_Me = \<lambda>_. False, in_Cf = \<lambda>_. False\<rparr>
   in spacing U RuneError \<and> VisibleCells U (TruncateVisible U (SGRRed @ ''abc'') 2) \<le> max 0 2"
  unfolding Let_def
  using TruncateVisible_fits [of "\<lparr>in_Mn = \<lambda>_. False, in_Me = \<lambda>_. False, in_Cf = \<lambda>_. False\<rparr>" "SGRRed @ ''abc''" 2]
  by (simp add: spacing_def)

text \<open>
  Styling a sanitized field is invisible to measurement: stripping the sequences gives the field
  back, so a styled column is as wide as the plain one.
\<close>

theorem styled_text_measures_plain:
  assumes "code \<in> {SGRBold, SGRDim, SGRRed, SGRGreen, SGRYellow, SGRCyan, SGRBlue}"
  shows "StripANSI (Style (Text s) code color) = Text s
    \<and> VisibleCells U (Style (Text s) code color) = Cells U (Text s)"
  using Style_visible [OF assms neutralize_no_escape] by (simp add: Text_def VisibleCells_def)

theorem styled_text_measures_plain_witness:
  "StripANSI (Style (Text ''ok'') SGRGreen True) = Text ''ok''
   \<and> VisibleCells \<lparr>in_Mn = \<lambda>_. False, in_Me = \<lambda>_. False, in_Cf = \<lambda>_. False\<rparr>
       (Style (Text ''ok'') SGRGreen True)
     = Cells \<lparr>in_Mn = \<lambda>_. False, in_Me = \<lambda>_. False, in_Cf = \<lambda>_. False\<rparr> (Text ''ok'')"
  using styled_text_measures_plain [of SGRGreen] by simp

end
