(* ===== verification/Go_Std.thy ===== *)
theory Go_Std
  imports Utf8
begin

text \<open>
  The parts of Go's standard library the modelled packages call: \<open>path.Clean\<close> and \<open>path.IsAbs\<close> on
  slash-separated paths, \<open>strconv.Atoi\<close> on digits, \<open>strconv.ParseUint\<close> in base 8,
  \<open>strconv.QuotedPrefix\<close> and \<open>strconv.Unquote\<close> of a double-quoted string, and ASCII
  \<open>strings.EqualFold\<close>. The host is a Unix, where \<open>filepath.IsAbs\<close> is \<open>path.IsAbs\<close> and
  \<open>filepath.FromSlash\<close> is the identity.
\<close>

subsection \<open>Paths\<close>

definition IsAbs :: "gostring \<Rightarrow> bool" where
  "IsAbs p = has_prefix p ''/''"

text \<open>
  \<open>path.Clean\<close> works through the elements between slashes: empty ones and ``.'' vanish, ``..''
  removes the element before it, or stays when there is none in a relative path, or vanishes at the
  root.
\<close>

definition clean_step :: "bool \<Rightarrow> gostring list \<Rightarrow> gostring \<Rightarrow> gostring list" where
  "clean_step rooted out part =
     (if part = '''' \<or> part = ''.'' then out
      else if part = ''..'' then
        (if out \<noteq> [] \<and> last out \<noteq> ''..'' then butlast out
         else if rooted then out else out @ [part])
      else out @ [part])"

definition clean_parts :: "gostring \<Rightarrow> gostring list" where
  "clean_parts p = foldl (clean_step (IsAbs p)) [] (split_on (CHR ''/'') p)"

definition Clean :: "gostring \<Rightarrow> gostring" where
  "Clean p =
     (if IsAbs p then CHR ''/'' # join ''/'' (clean_parts p)
      else if clean_parts p = [] then ''.'' else join ''/'' (clean_parts p))"

text \<open>\<open>filepath.Join\<close> of two elements: an empty leading element is skipped, the rest is cleaned.\<close>

definition Join :: "gostring \<Rightarrow> gostring \<Rightarrow> gostring" where
  "Join a b = (if a \<noteq> '''' then Clean (a @ ''/'' @ b) else if b \<noteq> '''' then Clean b else '''')"

text \<open>A proper name of one directory level.\<close>

definition plain_name :: "gostring \<Rightarrow> bool" where
  "plain_name part \<longleftrightarrow> part \<noteq> '''' \<and> part \<noteq> ''.'' \<and> part \<noteq> ''..'' \<and> CHR ''/'' \<notin> set part"

text \<open>
  A path confined to the directory it is taken from: every element is a proper name, so it is
  relative and no element climbs.
\<close>

definition confined :: "gostring \<Rightarrow> bool" where
  "confined p \<longleftrightarrow> list_all plain_name (split_on (CHR ''/'') p)"

lemma confined_not_abs: "confined p \<Longrightarrow> \<not> IsAbs p"
  by (cases p) (auto simp: confined_def IsAbs_def plain_name_def has_prefix_iff)

definition clean_form :: "gostring list \<Rightarrow> bool" where
  "clean_form out \<longleftrightarrow> (\<exists>k ns. out = replicate k ''..'' @ ns \<and> list_all plain_name ns)"

lemma plain_name_dots [simp]: "\<not> plain_name ''..''" "\<not> plain_name ''.''" "\<not> plain_name ''''"
  by (simp_all add: plain_name_def)

lemma clean_step_form:
  assumes "clean_form out" and "CHR ''/'' \<notin> set part"
  shows "clean_form (clean_step rooted out part)"
proof -
  obtain k ns where out: "out = replicate k ''..'' @ ns" "list_all plain_name ns"
    using assms(1) by (auto simp: clean_form_def)
  consider "part = '''' \<or> part = ''.''" | "part = ''..''" | "plain_name part"
    using assms(2) by (auto simp: plain_name_def)
  then show ?thesis
  proof cases
    case 1
    then show ?thesis using assms(1) by (auto simp: clean_step_def)
  next
    case 3
    then have "clean_step rooted out part = replicate k ''..'' @ (ns @ [part])"
      using out by (auto simp: clean_step_def plain_name_def)
    moreover have "list_all plain_name (ns @ [part])" using 3 out by simp
    ultimately show ?thesis unfolding clean_form_def by blast
  next
    case 2
    show ?thesis
    proof (cases "ns = []")
      case True
      have "clean_step rooted out part = replicate k ''..'' \<or> clean_step rooted out part = replicate (Suc k) ''..''"
        using 2 out True by (cases "k = 0") (auto simp: clean_step_def replicate_append_same)
      then show ?thesis unfolding clean_form_def by (metis append_Nil2 list.pred_inject(1))
    next
      case False
      then have "plain_name (last ns)" using out by (simp add: list_all_iff)
      then have "last ns \<noteq> ''..''" by auto
      then have "clean_step rooted out part = replicate k ''..'' @ butlast ns"
        using 2 out False by (simp add: clean_step_def butlast_append)
      moreover have "list_all plain_name (butlast ns)" using out by (auto simp: list_all_iff dest: in_set_butlastD)
      ultimately show ?thesis unfolding clean_form_def by blast
    qed
  qed
qed

lemma clean_parts_form: "clean_form (clean_parts p)"
proof -
  have "clean_form out \<Longrightarrow> (\<And>q. q \<in> set ps \<Longrightarrow> CHR ''/'' \<notin> set q)
      \<Longrightarrow> clean_form (foldl (clean_step r) out ps)" for out ps r
    by (induction ps arbitrary: out) (auto simp: clean_step_form)
  moreover have "clean_form []" by (simp add: clean_form_def)
  ultimately show ?thesis unfolding clean_parts_def by (metis split_on_parts)
qed

text \<open>A cleaned relative path that is not ``.'', not ``..'' and does not climb first is confined.\<close>

lemma Clean_confined:
  assumes "\<not> IsAbs p" "Clean p \<noteq> ''.''" "Clean p \<noteq> ''..''" "\<not> has_prefix (Clean p) ''../''"
  shows "confined (Clean p)"
proof -
  obtain k ns where form: "clean_parts p = replicate k ''..'' @ ns" "list_all plain_name ns"
    using clean_parts_form [of p] by (auto simp: clean_form_def)
  have ne: "clean_parts p \<noteq> []" and eq: "Clean p = join ''/'' (clean_parts p)"
    using assms(1,2) by (auto simp: Clean_def split: if_splits)
  have "k = 0"
  proof (rule ccontr)
    assume "k \<noteq> 0"
    then obtain rest where rest: "clean_parts p = ''..'' # rest"
      using form by (cases k) auto
    show False
    proof (cases rest)
      case Nil
      then show False using rest eq assms(3) by simp
    next
      case (Cons a r)
      then have "Clean p = ''../'' @ join ''/'' rest" using rest eq by (simp add: join_Cons)
      then show False using assms(4) by (metis has_prefix_append)
    qed
  qed
  then have "split_on (CHR ''/'') (Clean p) = clean_parts p"
    using form ne unfolding eq by (intro split_on_join) (auto simp: list_all_iff plain_name_def)
  then show ?thesis using form \<open>k = 0\<close> by (simp add: confined_def)
qed

text \<open>\<open>strings.EqualFold\<close> against a text of ASCII letters that have no non-ASCII fold.\<close>

definition lower_byte :: "char \<Rightarrow> char" where
  "lower_byte c = (if 65 \<le> byte c \<and> byte c \<le> 90 then char_of (byte c + 32) else c)"

definition EqualFold :: "gostring \<Rightarrow> gostring \<Rightarrow> bool" where
  "EqualFold s t = (map lower_byte s = map lower_byte t)"

subsection \<open>Numbers\<close>

definition is_digit :: "char \<Rightarrow> bool" where
  "is_digit c \<longleftrightarrow> 48 \<le> byte c \<and> byte c \<le> 57"

definition dec_value :: "gostring \<Rightarrow> int" where
  "dec_value s = foldl (\<lambda>n c. 10 * n + (int (byte c) - 48)) 0 s"

text \<open>
  \<open>strconv.Atoi\<close> of a non-empty run of digits, the only shape the sources pass: \<open>None\<close> is the range
  error of a value above the 64-bit maximum.
\<close>

definition Atoi :: "gostring \<Rightarrow> int option" where
  "Atoi s = (if s \<noteq> '''' \<and> list_all is_digit s \<and> dec_value s < 2 ^ 63 then Some (dec_value s) else None)"

text \<open>An \<open>int64\<close> is the integer its 64 bits spell: additions and counts on it wrap at 2^63.\<close>

definition int64 :: "int \<Rightarrow> int" where
  "int64 n = (n + 2 ^ 63) mod 2 ^ 64 - 2 ^ 63"

lemma int64_range: "- (2 ^ 63) \<le> int64 n \<and> int64 n < 2 ^ 63"
  by (simp add: int64_def)

lemma int64_small: "- (2 ^ 63) \<le> n \<Longrightarrow> n < 2 ^ 63 \<Longrightarrow> int64 n = n"
  by (simp add: int64_def)

lemma int64_eq_iff: "int64 a = int64 b \<longleftrightarrow> a mod 2 ^ 64 = b mod 2 ^ 64"
  unfolding int64_def by (simp add: mod_eq_dvd_iff)

lemma int64_mod: "int64 a mod 2 ^ 64 = a mod 2 ^ 64"
proof -
  have "int64 a mod 2 ^ 64 = (a + 2 ^ 63 - 2 ^ 63) mod 2 ^ 64" unfolding int64_def by (rule mod_diff_left_eq)
  then show ?thesis by simp
qed

lemma int64_add: "int64 (int64 a + b) = int64 (a + b)" "int64 (a + int64 b) = int64 (a + b)"
  using int64_mod by (auto simp: int64_eq_iff intro: mod_add_cong)

lemma Atoi_bounds: "Atoi s = Some n \<Longrightarrow> 0 \<le> n \<and> n < 2 ^ 63"
proof -
  have "0 \<le> a \<Longrightarrow> list_all is_digit s \<Longrightarrow> 0 \<le> foldl (\<lambda>n c. 10 * n + (int (byte c) - 48)) a s" for a
    by (induction s arbitrary: a) (auto simp: is_digit_def)
  from this [of 0] show "Atoi s = Some n \<Longrightarrow> 0 \<le> n \<and> n < 2 ^ 63"
    by (auto simp: Atoi_def dec_value_def split: if_splits)
qed

text \<open>The \<open>%d\<close> of a non-negative number, and \<open>%02d\<close>.\<close>

fun dec :: "nat \<Rightarrow> gostring" where
  "dec n = (if n < 10 then [char_of (48 + n)] else dec (n div 10) @ [char_of (48 + n mod 10)])"

declare dec.simps [simp del]

definition dec02 :: "nat \<Rightarrow> gostring" where
  "dec02 n = (if n < 10 then ''0'' else '''') @ dec n"

lemma digit_byte: "n < 10 \<Longrightarrow> byte (char_of (48 + n)) = 48 + n"
  by simp

lemma dec_digits: "list_all is_digit (dec n) \<and> dec n \<noteq> []"
proof (induction n rule: dec.induct)
  case (1 n)
  have "n mod 10 < 10" by simp
  then have "is_digit (char_of (48 + n mod 10))" by (simp add: is_digit_def)
  then show ?case using 1 by (simp add: dec.simps [of n] is_digit_def [of "char_of (48 + n)"])
qed

lemma dec_value_dec: "dec_value (dec n) = int n"
proof (induction n rule: dec.induct)
  case (1 n)
  have "int n = 10 * int (n div 10) + int (n mod 10)" by (simp add: zdiv_int zmod_int)
  moreover have "n < 10 \<or> dec_value (dec n) = 10 * dec_value (dec (n div 10)) + int (n mod 10)"
    by (subst dec.simps) (simp add: dec_value_def)
  moreover have "n < 10 \<Longrightarrow> dec_value (dec n) = int n" by (subst dec.simps) (simp add: dec_value_def)
  ultimately show ?case using 1 by linarith
qed

text \<open>\<open>strconv.ParseUint(s, 8, 32)\<close> of a three-byte text: no underscore or prefix is read in base 8.\<close>

definition ParseOctal :: "gostring \<Rightarrow> nat option" where
  "ParseOctal s =
     (if s \<noteq> '''' \<and> list_all (\<lambda>c. 48 \<le> byte c \<and> byte c \<le> 55) s
         \<and> foldl (\<lambda>n c. 8 * n + (byte c - 48)) 0 s < 2 ^ 32
      then Some (foldl (\<lambda>n c. 8 * n + (byte c - 48)) 0 s) else None)"

subsection \<open>Quoted strings\<close>

definition unhex :: "char \<Rightarrow> nat option" where
  "unhex c =
     (let b = byte c in
      if 48 \<le> b \<and> b \<le> 57 then Some (b - 48)
      else if 97 \<le> b \<and> b \<le> 102 then Some (b - 97 + 10)
      else if 65 \<le> b \<and> b \<le> 70 then Some (b - 65 + 10) else None)"

fun hex_value :: "nat \<Rightarrow> gostring \<Rightarrow> nat option" where
  "hex_value v [] = Some v"
| "hex_value v (c # s) = (case unhex c of None \<Rightarrow> None | Some x \<Rightarrow> hex_value (16 * v + x) s)"

definition octal_digit :: "char \<Rightarrow> bool" where
  "octal_digit c \<longleftrightarrow> 48 \<le> byte c \<and> byte c \<le> 55"

text \<open>
  \<open>strconv.UnquoteChar(s, '"')\<close>: the value, whether it is a multi-byte rune, and the rest; \<open>None\<close> is
  a syntax error. An eight-digit value above the range of a rune is invalid either way.
\<close>

definition unquote_hex :: "nat \<Rightarrow> bool \<Rightarrow> gostring \<Rightarrow> (nat \<times> bool \<times> gostring) option" where
  "unquote_hex n raw s =
     (if length s < n then None
      else case hex_value 0 (take n s) of
        None \<Rightarrow> None
      | Some v \<Rightarrow> if raw then Some (v, False, drop n s)
                  else if \<not> scalar v then None else Some (v, True, drop n s))"

definition unquote_octal :: "char \<Rightarrow> gostring \<Rightarrow> (nat \<times> bool \<times> gostring) option" where
  "unquote_octal c s =
     (case s of
        a # b # rest \<Rightarrow>
          (if octal_digit a \<and> octal_digit b then
             (let v = ((byte c - 48) * 8 + (byte a - 48)) * 8 + (byte b - 48)
              in if v > 255 then None else Some (v, False, rest))
           else None)
      | _ \<Rightarrow> None)"

definition unquote_escape :: "gostring \<Rightarrow> (nat \<times> bool \<times> gostring) option" where
  "unquote_escape s =
     (case s of [] \<Rightarrow> None
      | c # rest \<Rightarrow>
         if c = CHR ''a'' then Some (7, False, rest)
         else if c = CHR ''b'' then Some (8, False, rest)
         else if c = CHR ''f'' then Some (12, False, rest)
         else if c = CHR ''n'' then Some (10, False, rest)
         else if c = CHR ''r'' then Some (13, False, rest)
         else if c = CHR ''t'' then Some (9, False, rest)
         else if c = CHR ''v'' then Some (11, False, rest)
         else if c = CHR ''x'' then unquote_hex 2 True rest
         else if c = CHR ''u'' then unquote_hex 4 False rest
         else if c = CHR ''U'' then unquote_hex 8 False rest
         else if octal_digit c then unquote_octal c rest
         else if c = CHR 0x5C then Some (0x5C, False, rest)
         else if c = CHR 0x22 then Some (0x22, False, rest)
         else None)"

definition UnquoteChar :: "gostring \<Rightarrow> (nat \<times> bool \<times> gostring) option" where
  "UnquoteChar s =
     (case s of [] \<Rightarrow> None
      | c # rest \<Rightarrow>
         if c = CHR 0x22 then None
         else if byte c \<ge> 0x80 then
           Some (fst (decode_rune s), True, drop (snd (decode_rune s)) s)
         else if c \<noteq> CHR 0x5C then Some (byte c, False, rest)
         else unquote_escape rest)"

lemma UnquoteChar_shorter: "UnquoteChar s = Some (r, m, rest) \<Longrightarrow> length rest < length s"
  by (auto simp: UnquoteChar_def unquote_escape_def unquote_hex_def unquote_octal_def Let_def
      split: list.splits if_splits option.splits)

text \<open>The body of a quoted string: its value and the text after the closing quote.\<close>

function unquote_body :: "gostring \<Rightarrow> (gostring \<times> gostring) option" where
  "unquote_body s =
     (case s of [] \<Rightarrow> None
      | c # rest \<Rightarrow>
         if c = CHR 0x22 then Some ([], rest)
         else case UnquoteChar s of
             None \<Rightarrow> None
           | Some (r, multi, rem) \<Rightarrow>
               if c = CHR 0x0A then None
               else (case unquote_body rem of None \<Rightarrow> None
                     | Some (v, after) \<Rightarrow>
                         Some ((if r < 0x80 \<or> \<not> multi then [char_of r] else encode_rune r) @ v, after)))"
  by pat_completeness auto
termination
  by (relation "measure length") (auto dest: UnquoteChar_shorter)

declare unquote_body.simps [simp del]

text \<open>
  \<open>strconv.QuotedPrefix(s)\<close> followed by \<open>strconv.Unquote\<close> of the prefix, for \<open>s\<close> starting with a
  double quote. A body of well-formed text without a backslash is taken as it stands, which is what
  the loop yields for it.
\<close>

definition unquote_prefix :: "gostring \<Rightarrow> gostring option" where
  "unquote_prefix s =
     (case s of [] \<Rightarrow> None
      | q # rest \<Rightarrow> if q = CHR 0x22 then map_option fst (unquote_body rest) else None)"

end
