(* ===== verification/Text_Words.thy ===== *)
theory Text_Words
  imports Text_Width Go_Std "HOL-Library.Word" "HOL-Library.Signed_Division"
begin

text \<open>
  The wording helpers of \<open>internal/text\<close>: plurals and past tenses (\<open>conjugate.go\<close>), elapsed times
  (\<open>elapsed.go\<close>), name lists (\<open>names.go\<close>), and the glyph tables with the spinner (\<open>glyph.go\<close>).
  Whether a rune above ASCII is a letter is Unicode data of Go's \<open>unicode\<close> package, so
  \<open>unicode.IsLetter\<close> takes it as an argument.
\<close>

subsection \<open>Plurals\<close>

definition irregularPlural :: "(gostring \<times> gostring) list" where
  "irregularPlural =
     [(''child'', ''children''), (''tooth'', ''teeth''), (''foot'', ''feet''), (''leaf'', ''leaves''),
      (''index'', ''indices''), (''package in .venv'', ''packages in .venv'')]"

definition IsLetter :: "(rune \<Rightarrow> bool) \<Rightarrow> rune \<Rightarrow> bool" where
  "IsLetter L r = (if r < 0x80 then 65 \<le> r \<and> r \<le> 90 \<or> 97 \<le> r \<and> r \<le> 122 else L r)"

definition isPluralizableWord :: "(rune \<Rightarrow> bool) \<Rightarrow> gostring \<Rightarrow> bool" where
  "isPluralizableWord L s = list_all (\<lambda>r. IsLetter L r \<or> r = 0x20) (decode_all s)"

definition endsInVowelPlusY :: "gostring \<Rightarrow> bool" where
  "endsInVowelPlusY s =
     (if length s < 2 then False else s ! (length s - 2) \<in> set ''aeiou'')"

definition singularEndingsThatLookPlural :: "gostring list" where
  "singularEndingsThatLookPlural = [''ss'', ''us'', ''is'']"

text \<open>The loop over the table: \<open>Some\<close> answer at the first entry that names the noun.\<close>

fun table_plural :: "(gostring \<times> gostring) list \<Rightarrow> gostring \<Rightarrow> bool option" where
  "table_plural [] noun = None"
| "table_plural ((singular, plural) # t) noun =
     (if noun = plural then Some True
      else if noun = singular then Some False
      else table_plural t noun)"

definition IsPlural :: "(rune \<Rightarrow> bool) \<Rightarrow> gostring \<Rightarrow> bool" where
  "IsPlural L noun =
     (if noun = [] then False
      else case table_plural irregularPlural noun of
        Some b \<Rightarrow> b
      | None \<Rightarrow>
          if \<not> isPluralizableWord L noun then False
          else
            (let head = (if CHR '' '' \<in> set noun then last (split_on CHR '' '' noun) else noun) in
             if \<not> has_suffix head ''s'' then False
             else \<not> list_ex (has_suffix head) singularEndingsThatLookPlural))"

definition Pluralize :: "(rune \<Rightarrow> bool) \<Rightarrow> int \<Rightarrow> gostring \<Rightarrow> gostring" where
  "Pluralize L quantity singular =
     (if quantity = 1 \<or> singular = [] then singular
      else case map_of irregularPlural singular of
        Some plural \<Rightarrow> plural
      | None \<Rightarrow>
          if \<not> isPluralizableWord L singular then singular
          else if IsPlural L singular then singular
          else if has_suffix singular ''y'' \<and> \<not> endsInVowelPlusY singular
            then take (length singular - 1) singular @ ''ies''
          else if has_suffix singular ''s'' \<or> has_suffix singular ''x'' \<or> has_suffix singular ''z''
              \<or> has_suffix singular ''ch'' \<or> has_suffix singular ''sh''
            then singular @ ''es''
          else singular @ ''s'')"

subsection \<open>Past tenses\<close>

definition irregularPastTense :: "(gostring \<times> gostring) list" where
  "irregularPastTense = [(''write'', ''wrote''), (''run'', ''ran'')]"

definition compoundPastTense :: "(gostring \<times> gostring) list" where
  "compoundPastTense = [(''delete-remote'', ''deleted''), (''fetch-prune'', ''pruned'')]"

function ConjugatePast :: "gostring \<Rightarrow> gostring" where
  "ConjugatePast verb =
     (case map_of irregularPastTense verb of
        Some past \<Rightarrow> past
      | None \<Rightarrow>
          (case map_of compoundPastTense verb of
             Some past \<Rightarrow> past
           | None \<Rightarrow>
               if CHR ''-'' \<in> set verb then ConjugatePast (fst (cut CHR ''-'' verb))
               else if has_suffix verb ''e'' then verb @ ''d''
               else verb @ ''ed''))"
  by pat_completeness auto
termination
proof (relation "measure length")
  fix verb :: gostring
  assume "CHR ''-'' \<in> set verb"
  then have "length (takeWhile (\<lambda>c. c \<noteq> CHR ''-'') verb) < length verb"
    by (induction verb) auto
  then show "(fst (cut CHR ''-'' verb), verb) \<in> measure length" by (simp add: cut_def)
qed simp

declare ConjugatePast.simps [simp del]

text \<open>Only a verb without a hyphen is inflected by the rule, so no past tense has one.\<close>

lemma ConjugatePast_no_hyphen: "CHR ''-'' \<notin> set (ConjugatePast verb)"
proof (induction verb rule: ConjugatePast.induct)
  case (1 verb)
  show ?case
    by (subst ConjugatePast.simps)
      (use 1 in \<open>auto simp: irregularPastTense_def compoundPastTense_def split: option.splits if_splits\<close>)
qed

subsection \<open>The loop over the plural table\<close>

text \<open>A map is ranged over in any order; no noun is both a plural and a singular of the table, so the order does not show.\<close>

lemma table_plural_iff:
  "(table_plural t noun = Some True \<longrightarrow> noun \<in> snd ` set t)
   \<and> (table_plural t noun = Some False \<longrightarrow> noun \<in> fst ` set t)
   \<and> (table_plural t noun = None \<longleftrightarrow> noun \<notin> snd ` set t \<and> noun \<notin> fst ` set t)"
  by (induction t noun rule: table_plural.induct) auto

lemma table_plural_value:
  assumes "snd ` set t \<inter> fst ` set t = {}"
  shows "table_plural t noun =
    (if noun \<in> snd ` set t then Some True else if noun \<in> fst ` set t then Some False else None)"
  using table_plural_iff [of t noun] assms
  by (cases "table_plural t noun") (simp, metis (full_types) IntI empty_iff option.sel option.discI)

lemma table_plural_any_order:
  assumes "set t = set irregularPlural"
  shows "table_plural t noun = table_plural irregularPlural noun"
proof -
  have "snd ` set irregularPlural \<inter> fst ` set irregularPlural = {}"
    by (simp add: irregularPlural_def)
  then show ?thesis by (simp add: table_plural_value assms)
qed

subsection \<open>Pluralizing once is enough\<close>

text \<open>
  A plural the rule forms ends in ``s'', names no table entry's singular, and is made of the same
  letters, so it is recognised, unless its last two letters make it look singular.
\<close>

lemma pluralizable_append:
  assumes "isPluralizableWord L s" "list_all (\<lambda>c. 97 \<le> byte c \<and> byte c \<le> 122) t"
  shows "isPluralizableWord L (s @ t)"
proof -
  have runes: "decode_all t = map byte t"
    using assms(2) by (induction t) (simp_all add: decode_all_step decode_rune_def)
  have "rune_head t" using assms(2) by (cases t) (auto simp: rune_head_def RuneStart_def cont_def)
  then have "decode_all (s @ t) = decode_all s @ map byte t"
    by (simp add: decode_all_append runes)
  with assms show ?thesis by (auto simp: isPluralizableWord_def IsLetter_def list_all_iff)
qed

lemma pluralizable_butlast:
  assumes "isPluralizableWord L (s @ [c])" "byte c < 0x80"
  shows "isPluralizableWord L s"
proof -
  have "rune_head [c]" using assms(2) by (simp add: rune_head_def RuneStart_def cont_def)
  with assms(1) show ?thesis by (simp add: isPluralizableWord_def decode_all_append)
qed

lemma split_append:
  "c \<notin> set t \<Longrightarrow> split_on c (s @ t) = butlast (split_on c s) @ [last (split_on c s) @ t]"
proof (induction s)
  case Nil
  then show ?case by (simp add: split_on_no_sep)
next
  case (Cons x s)
  then show ?case by (cases "split_on c s") auto
qed

lemma join_last: "ps \<noteq> [] \<Longrightarrow> \<exists>u. join sep ps = u @ last ps"
proof (induction sep ps rule: join.induct)
  case (3 sep p q ps)
  then obtain u where "join sep (q # ps) = u @ last (q # ps)" by auto
  then show ?case by (auto intro: exI [of _ "p @ sep @ u"])
qed auto

lemma last_split_suffix: "\<exists>u. s = u @ last (split_on c s)"
  using join_last [of "split_on c s" "[c]"] by (simp add: join_split_on)

definition head_word :: "gostring \<Rightarrow> gostring" where
  "head_word noun = (if CHR '' '' \<in> set noun then last (split_on CHR '' '' noun) else noun)"

lemma head_word_append: "CHR '' '' \<notin> set t \<Longrightarrow> head_word (s @ t) = head_word s @ t"
  using split_append [of "CHR '' ''" t s] by (simp add: head_word_def)

lemma head_word_last: "head_word s \<noteq> [] \<Longrightarrow> last (head_word s) = last s"
  using last_split_suffix [of s "CHR '' ''"] by (auto simp: head_word_def split: if_splits) (metis last_appendR)

lemma IsPlural_rule:
  assumes "isPluralizableWord L noun" "noun \<noteq> []" "noun \<notin> fst ` set irregularPlural"
    and "has_suffix (head_word noun) ''s''" "\<not> list_ex (has_suffix (head_word noun)) singularEndingsThatLookPlural"
  shows "IsPlural L noun"
  using assms table_plural_value [of irregularPlural noun]
  by (auto simp: IsPlural_def head_word_def Let_def irregularPlural_def)

lemma Pluralize_fixpoint: "IsPlural L s \<or> \<not> isPluralizableWord L s \<Longrightarrow> map_of irregularPlural s = None \<Longrightarrow> Pluralize L q s = s"
  by (auto simp: Pluralize_def)

lemma irregular_singular_last: "s \<in> fst ` set irregularPlural \<Longrightarrow> last s \<noteq> CHR ''s''"
  by (auto simp: irregularPlural_def)

lemma rule_plural:
  assumes "isPluralizableWord L s" "has_suffix t ''s''" "list_all (\<lambda>c. 97 \<le> byte c \<and> byte c \<le> 122) t"
    and "\<not> list_ex (has_suffix (head_word s @ t)) singularEndingsThatLookPlural"
  shows "Pluralize L q (s @ t) = s @ t"
proof -
  have t: "t \<noteq> []" "last (s @ t) = CHR ''s''" "CHR '' '' \<notin> set t"
    using assms(2,3) by (auto simp: has_suffix_iff list_all_iff)
  then have key: "s @ t \<notin> fst ` set irregularPlural" using irregular_singular_last by blast
  then have "IsPlural L (s @ t)"
    using assms pluralizable_append [OF assms(1,3)] head_word_append [OF t(3), of s] t(1)
    by (intro IsPlural_rule) (auto simp: has_suffix_iff)
  with key show ?thesis by (intro Pluralize_fixpoint) (auto simp: map_of_eq_None_iff)
qed

lemma ending_two: "has_suffix (h @ [a, b]) [c, d] \<longleftrightarrow> a = c \<and> b = d"
  by (auto simp: has_suffix_def)

lemma ending_one: "has_suffix (h @ [a]) [c] \<longleftrightarrow> a = c"
  by (auto simp: has_suffix_def)

lemma irregular_plural_kept:
  assumes "map_of irregularPlural s = Some p"
  shows "Pluralize L q p = p"
proof (rule Pluralize_fixpoint)
  have p: "p \<in> snd ` set irregularPlural" using map_of_SomeD [OF assms] by force
  then show "map_of irregularPlural p = None" by (auto simp: irregularPlural_def)
  have "p \<noteq> []" using p by (auto simp: irregularPlural_def)
  with p show "IsPlural L p \<or> \<not> isPluralizableWord L p"
    using table_plural_value [of irregularPlural p] by (simp add: IsPlural_def irregularPlural_def)
qed

lemma Pluralize_twice:
  assumes "s = [] \<or> last s \<notin> {CHR ''i'', CHR ''u''}"
  shows "Pluralize L q (Pluralize L q s) = Pluralize L q s"
proof (cases "map_of irregularPlural s")
  case (Some p)
  then have "Pluralize L q s = s \<or> Pluralize L q s = p" by (simp add: Pluralize_def)
  with irregular_plural_kept [OF Some] show ?thesis by auto
next
  case None
  have es: "Pluralize L q (u @ h @ ''es'') = u @ h @ ''es''"
    if "isPluralizableWord L u" "list_all (\<lambda>c. 97 \<le> byte c \<and> byte c \<le> 122) h" for u h
    using rule_plural [of L u "h @ ''es''" q] that ending_two [of "head_word u @ h"]
    by (simp add: has_suffix_iff singularEndingsThatLookPlural_def)
  have s: "Pluralize L q (s @ ''s'') = s @ ''s''"
    if "isPluralizableWord L s" "\<not> has_suffix s ''s''" "s \<noteq> []"
  proof (rule rule_plural [OF that(1)])
    have "last s \<noteq> CHR ''s''" using that(2,3) by (cases s rule: rev_cases) (auto simp: ending_one [of _ _ "CHR ''s''", simplified])
    then show "\<not> list_ex (has_suffix (head_word s @ ''s'')) singularEndingsThatLookPlural"
      using head_word_last [of s] that(3) assms ending_two [of "butlast (head_word s)" "last (head_word s)"]
      by (cases "head_word s" rule: rev_cases) (auto simp: singularEndingsThatLookPlural_def has_suffix_def)
  qed (simp_all add: has_suffix_def)
  have y: "isPluralizableWord L (take (length s - 1) s)"
    if "isPluralizableWord L s" "has_suffix s ''y''"
    using that pluralizable_butlast [of L _ "CHR ''y''"] by (auto simp: has_suffix_iff)
  show ?thesis
    using None es [of s "''''"] es [of "take (length s - 1) s" "''i''"] s y
    by (auto simp: Pluralize_def [of L q s])
qed

text \<open>
  Pluralizing a noun twice is pluralizing it once: a plural the rules or the table form is
  recognised as one, for every noun that does not end in ``i'' or ``u''.
\<close>

theorem Pluralize_idempotent:
  assumes "s = [] \<or> last s \<notin> {CHR ''i'', CHR ''u''}"
  shows "Pluralize L q (Pluralize L q s) = Pluralize L q s"
  using assms by (rule Pluralize_twice)

theorem Pluralize_idempotent_witness:
  "Pluralize (\<lambda>_. False) 2 (Pluralize (\<lambda>_. False) 2 ''local branch'') = Pluralize (\<lambda>_. False) 2 ''local branch''"
  using Pluralize_idempotent [of "''local branch''"] by simp

text \<open>A noun ending in ``u'' is the exception: its plural reads as a singular, and is pluralized again.\<close>

lemma menu_pluralized_again:
  "Pluralize L 2 ''menu'' = ''menus'' \<and> \<not> IsPlural L ''menus'' \<and> Pluralize L 2 ''menus'' = ''menuses''"
proof -
  have "decode_all ''menu'' = map byte ''menu''" "decode_all ''menus'' = map byte ''menus''"
    by (simp_all add: decode_all_step decode_rune_def)
  then have "isPluralizableWord L ''menu''" "isPluralizableWord L ''menus''"
    by (simp_all add: isPluralizableWord_def IsLetter_def)
  then show ?thesis
    by (simp add: Pluralize_def IsPlural_def irregularPlural_def has_suffix_def Let_def
        singularEndingsThatLookPlural_def endsInVowelPlusY_def)
qed

subsection \<open>Elapsed times\<close>

text \<open>A duration is a number of nanoseconds; the arithmetic is on non-negative values after the clamp.\<close>

definition FormatElapsed :: "int \<Rightarrow> gostring" where
  "FormatElapsed d =
     (let totalSeconds = nat (if d < 0 then 0 else d) div 1000000000;
          seconds = totalSeconds mod 60;
          totalMinutes = totalSeconds div 60;
          minutes = totalMinutes mod 60;
          totalHours = totalMinutes div 60;
          hours = totalHours mod 24;
          days = totalHours div 24 in
      if totalMinutes = 0 then dec seconds @ ''s''
      else if totalHours = 0 \<and> seconds = 0 then dec totalMinutes @ ''m''
      else if totalHours = 0 then dec totalMinutes @ ''m'' @ dec02 seconds @ ''s''
      else if days = 0 \<and> minutes = 0 then dec totalHours @ ''h''
      else if days = 0 then dec totalHours @ ''h'' @ dec02 minutes @ ''m''
      else if hours = 0 then dec days @ ''d''
      else dec days @ ''d'' @ dec hours @ ''h'')"

text \<open>Reading the form back: digits gather a number, a unit letter adds it.\<close>

definition unit_seconds :: "char \<Rightarrow> nat" where
  "unit_seconds c = (if c = CHR ''d'' then 86400 else if c = CHR ''h'' then 3600 else if c = CHR ''m'' then 60 else 1)"

definition read_step :: "nat \<times> nat \<Rightarrow> char \<Rightarrow> nat \<times> nat" where
  "read_step st c =
     (if is_digit c then (fst st, 10 * snd st + (byte c - 48))
      else (fst st + snd st * unit_seconds c, 0))"

definition read_elapsed :: "gostring \<Rightarrow> nat" where
  "read_elapsed s = fst (foldl read_step (0, 0) s)"

lemma read_dec: "foldl read_step (t, 0) (dec n) = (t, n)"
proof (induction n rule: dec.induct)
  case (1 n)
  show ?case
  proof (cases "n < 10")
    case True
    then show ?thesis by (simp add: dec.simps [of n] read_step_def is_digit_def)
  next
    case False
    have "n mod 10 < 10" by simp
    then have "n mod 10 \<le> 9" by simp
    then have "read_step (t, n div 10) (char_of (48 + n mod 10)) = (t, 10 * (n div 10) + n mod 10)"
      by (simp add: read_step_def is_digit_def)
    with 1 [OF False] False show ?thesis by (subst dec.simps) simp
  qed
qed

lemma read_dec02: "foldl read_step (t, 0) (dec02 n) = (t, n)"
  by (simp add: dec02_def read_dec read_step_def is_digit_def)

lemma read_unit: "\<not> is_digit c \<Longrightarrow> read_step (t, n) c = (t + n * unit_seconds c, 0)"
  by (simp add: read_step_def)

lemma units [simp]:
  "\<not> is_digit CHR ''s''" "\<not> is_digit CHR ''m''" "\<not> is_digit CHR ''h''" "\<not> is_digit CHR ''d''"
  "unit_seconds CHR ''s'' = 1" "unit_seconds CHR ''m'' = 60" "unit_seconds CHR ''h'' = 3600" "unit_seconds CHR ''d'' = 86400"
  by (simp_all add: is_digit_def unit_seconds_def)

text \<open>What the form drops is less than its smallest unit: nothing under an hour, seconds under a day, minutes beyond.\<close>

definition elapsed_grain :: "nat \<Rightarrow> nat" where
  "elapsed_grain n = (if n < 3600 then 1 else if n < 86400 then 60 else 3600)"

lemma read_FormatElapsed:
  "read_elapsed (FormatElapsed d) = nat d div 1000000000 div elapsed_grain (nat d div 1000000000) * elapsed_grain (nat d div 1000000000)"
proof -
  define n m h where "n = nat d div 1000000000" and "m = n div 60" and "h = m div 60"
  have parts: "n = m * 60 + n mod 60" "m = h * 60 + m mod 60" "h = h div 24 * 24 + h mod 24"
    by (simp_all add: m_def h_def)
  have "n div 3600 = h" by (simp add: h_def m_def flip: div_mult2_eq)
  moreover have "m = 0 \<longleftrightarrow> n < 60" "h = 0 \<longleftrightarrow> n < 3600" "h div 24 = 0 \<longleftrightarrow> n < 86400"
    by (auto simp: h_def m_def div_eq_0_iff simp flip: div_mult2_eq)
  ultimately have want: "n div elapsed_grain n * elapsed_grain n
      = (if h = 0 then n else if h div 24 = 0 then m * 60 else h * 3600)"
    by (simp add: elapsed_grain_def m_def)
  have "nat (if d < 0 then 0 else d) div 1000000000 = n" by (simp add: n_def)
  then have "FormatElapsed d =
     (if m = 0 then dec (n mod 60) @ ''s''
      else if h = 0 \<and> n mod 60 = 0 then dec m @ ''m''
      else if h = 0 then dec m @ ''m'' @ dec02 (n mod 60) @ ''s''
      else if h div 24 = 0 \<and> m mod 60 = 0 then dec h @ ''h''
      else if h div 24 = 0 then dec h @ ''h'' @ dec02 (m mod 60) @ ''m''
      else if h mod 24 = 0 then dec (h div 24) @ ''d''
      else dec (h div 24) @ ''d'' @ dec (h mod 24) @ ''h'')"
    by (simp add: FormatElapsed_def Let_def flip: m_def h_def)
  then have "read_elapsed (FormatElapsed d) =
     (if m = 0 then n mod 60
      else if h = 0 then m * 60 + n mod 60
      else if h div 24 = 0 then h * 3600 + m mod 60 * 60
      else h div 24 * 86400 + h mod 24 * 3600)"
    by (simp add: read_elapsed_def read_dec read_dec02 read_unit)
  also have "\<dots> = (if h = 0 then n else if h div 24 = 0 then m * 60 else h * 3600)"
  proof -
    have "m * 60 + n mod 60 = n" "h * 3600 + m mod 60 * 60 = m * 60"
      "h div 24 * 86400 + h mod 24 * 3600 = h * 3600"
      using parts by linarith+
    moreover have "m = 0 \<Longrightarrow> h = 0 \<and> n mod 60 = n" using parts(1) by (simp add: h_def)
    moreover have "h = 0 \<Longrightarrow> h div 24 = 0" by simp
    ultimately show ?thesis by (simp only: split: if_split) blast
  qed
  finally show ?thesis using want by (simp only: n_def)
qed

subsection \<open>Name lists\<close>

datatype GlyphProfile = GlyphsAuto | GlyphsUnicode | GlyphsASCII

record glyphSpec =
  unicode_face :: gostring
  ascii_face :: gostring

definition Render :: "glyphSpec \<Rightarrow> GlyphProfile \<Rightarrow> gostring" where
  "Render g profile = (if profile = GlyphsASCII then ascii_face g else unicode_face g)"

definition CellWidth :: "unicode_tables \<Rightarrow> glyphSpec \<Rightarrow> GlyphProfile \<Rightarrow> int" where
  "CellWidth U g profile = Cells U (Render g profile)"

definition GlyphDone :: glyphSpec where
  "GlyphDone = \<lparr>unicode_face = [CHR 0xE2, CHR 0x9C, CHR 0x93], ascii_face = ''[ok]''\<rparr>"

definition GlyphFailedState :: glyphSpec where
  "GlyphFailedState = \<lparr>unicode_face = [CHR 0xE2, CHR 0x9C, CHR 0x97], ascii_face = ''[x]''\<rparr>"

definition GlyphBlockedState :: glyphSpec where
  "GlyphBlockedState = \<lparr>unicode_face = [CHR 0xE2, CHR 0x8A, CHR 0x98], ascii_face = ''[blocked]''\<rparr>"

definition GlyphWarningState :: glyphSpec where
  "GlyphWarningState = \<lparr>unicode_face = ''!'', ascii_face = ''[!]''\<rparr>"

definition GlyphCancelled :: glyphSpec where
  "GlyphCancelled = \<lparr>unicode_face = [CHR 0xE2, CHR 0x96, CHR 0xA0], ascii_face = ''[cancel]''\<rparr>"

definition GlyphNotStarted :: glyphSpec where
  "GlyphNotStarted = \<lparr>unicode_face = ''-'', ascii_face = ''[-]''\<rparr>"

definition GlyphSkipDetail :: glyphSpec where
  "GlyphSkipDetail = \<lparr>unicode_face = ''-'', ascii_face = ''-''\<rparr>"

definition GlyphPending :: glyphSpec where
  "GlyphPending = \<lparr>unicode_face = [CHR 0xE2, CHR 0x97, CHR 0x8B], ascii_face = ''[.]''\<rparr>"

definition GlyphRunning :: glyphSpec where
  "GlyphRunning = \<lparr>unicode_face = [CHR 0xE2, CHR 0x97, CHR 0x90], ascii_face = ''[~]''\<rparr>"

definition GlyphHumanInput :: glyphSpec where
  "GlyphHumanInput = \<lparr>unicode_face = ''?'', ascii_face = ''[?]''\<rparr>"

definition GlyphNextAction :: glyphSpec where
  "GlyphNextAction = \<lparr>unicode_face = [CHR 0xE2, CHR 0x86, CHR 0x92], ascii_face = ''>''\<rparr>"

definition GlyphEvidence :: glyphSpec where
  "GlyphEvidence = \<lparr>unicode_face = [CHR 0xE2, CHR 0x94, CHR 0x94, CHR 0xE2, CHR 0x94, CHR 0x80], ascii_face = ''-''\<rparr>"

definition GlyphOverflow :: glyphSpec where
  "GlyphOverflow = \<lparr>unicode_face = [CHR 0xE2, CHR 0x80, CHR 0xA6], ascii_face = ''...''\<rparr>"

definition GlyphUnclassified :: glyphSpec where
  "GlyphUnclassified = \<lparr>unicode_face = [CHR 0xC2, CHR 0xB7], ascii_face = ''.''\<rparr>"

definition GlyphHeartbeat :: glyphSpec where
  "GlyphHeartbeat = \<lparr>unicode_face = [CHR 0xE2, CHR 0x80, CHR 0xA2], ascii_face = ''*''\<rparr>"

definition DefaultVisibleNames :: int where "DefaultVisibleNames = 3"

text \<open>\<open>TruncateNames\<close>: the optional profile is \<open>None\<close> when the caller leaves it out.\<close>

definition TruncateNames :: "gostring list \<Rightarrow> int \<Rightarrow> GlyphProfile option \<Rightarrow> gostring" where
  "TruncateNames names visible profile =
     (if names = [] then []
      else
        (let visible = nat (if visible \<le> 0 then DefaultVisibleNames else visible) in
         if length names \<le> visible then join '', '' names
         else
           (let resolved = (case profile of Some p \<Rightarrow> p | None \<Rightarrow> GlyphsUnicode);
                omitted = length names - visible in
            join '', '' (take visible names)
              @ '' '' @ Render GlyphOverflow resolved @ '' +'' @ dec omitted @ '' more'')))"

subsection \<open>The spinner\<close>

definition SpinnerPeriod :: int where "SpinnerPeriod = 50000000"

definition spinnerUnicodeFrames :: "gostring list" where
  "spinnerUnicodeFrames =
     [[CHR 0xE2, CHR 0xA0, CHR 0x8B],
      [CHR 0xE2, CHR 0xA0, CHR 0x99],
      [CHR 0xE2, CHR 0xA0, CHR 0xB9],
      [CHR 0xE2, CHR 0xA0, CHR 0xB8],
      [CHR 0xE2, CHR 0xA0, CHR 0xBC],
      [CHR 0xE2, CHR 0xA0, CHR 0xB4],
      [CHR 0xE2, CHR 0xA0, CHR 0xA6],
      [CHR 0xE2, CHR 0xA0, CHR 0xA7],
      [CHR 0xE2, CHR 0xA0, CHR 0x87],
      [CHR 0xE2, CHR 0xA0, CHR 0x8F]]"

definition spinnerASCIIFrames :: "gostring list" where
  "spinnerASCIIFrames = [''.'', ''o'', ''O'', ''@'']"

definition SpinnerFrames :: "GlyphProfile \<Rightarrow> gostring list" where
  "SpinnerFrames profile = (if profile = GlyphsASCII then spinnerASCIIFrames else spinnerUnicodeFrames)"

text \<open>
  The clock is the \<open>int64\<close> of \<open>UnixNano\<close>; its negation wraps. \<open>None\<close> is the panic of an index out
  of range.
\<close>

definition SpinnerGlyph :: "64 word \<Rightarrow> GlyphProfile \<Rightarrow> gostring option" where
  "SpinnerGlyph ns profile =
     (let frames = SpinnerFrames profile in
      if length frames = 0 then Some (Render GlyphUnclassified profile)
      else
        (let ns = (if sint ns < 0 then - ns else ns);
             i = sint ns sdiv SpinnerPeriod smod int (length frames) in
         if 0 \<le> i \<and> i < int (length frames) then Some (frames ! nat i) else None))"

text \<open>Every clock picks a frame but the one whose negation is itself.\<close>

lemma spinner_index:
  "0 \<le> n \<Longrightarrow> 0 < k \<Longrightarrow> 0 \<le> n sdiv SpinnerPeriod smod int k \<and> n sdiv SpinnerPeriod smod int k < int k"
  by (simp add: signed_divide_int_def signed_modulo_int_def SpinnerPeriod_def sgn_if)

lemma frames_nonempty: "SpinnerFrames profile \<noteq> []"
  by (simp add: SpinnerFrames_def spinnerASCIIFrames_def spinnerUnicodeFrames_def)

lemma negated_clock:
  fixes ns :: "64 word"
  assumes "ns \<noteq> 0x8000000000000000"
  shows "0 \<le> sint (if sint ns < 0 then - ns else ns)"
proof (cases "sint ns < 0")
  case True
  have "sint ns \<noteq> - (2 ^ 63)"
  proof
    assume "sint ns = - (2 ^ 63)"
    also have "\<dots> = sint (0x8000000000000000 :: 64 word)" by simp
    finally have "ns = 0x8000000000000000" by (rule signed_word_eqI)
    with assms show False by simp
  qed
  moreover have "- (2 ^ 63) \<le> sint ns" using sint_ge [of ns] by simp
  ultimately have "sint (- ns) = - sint ns"
    using True by (simp add: sint_word_ariths signed_take_bit_int_eq_self)
  with True show ?thesis by simp
qed simp

theorem SpinnerGlyph_total: "SpinnerGlyph ns profile = None \<longleftrightarrow> ns = 0x8000000000000000"
proof
  assume "ns = 0x8000000000000000"
  then show "SpinnerGlyph ns profile = None"
    by (simp add: SpinnerGlyph_def SpinnerFrames_def spinnerASCIIFrames_def spinnerUnicodeFrames_def
        SpinnerPeriod_def signed_divide_int_def signed_modulo_int_def Let_def)
next
  assume "SpinnerGlyph ns profile = None"
  then show "ns = 0x8000000000000000"
    using negated_clock [of ns] frames_nonempty [of profile]
      spinner_index [of "sint (if sint ns < 0 then - ns else ns)" "length (SpinnerFrames profile)"]
    by (force simp: SpinnerGlyph_def Let_def split: if_splits)
qed

end
