(* ===== verification/Patch_Parse.thy ===== *)
theory Patch_Parse
  imports Go_Std
begin

unbundle bit_operations_syntax

text \<open>
  Reading unified diffs (\<open>internal/patch\<close>: \<open>patch.go\<close>, \<open>header.go\<close>, \<open>hunk.go\<close>, \<open>standard.go\<close>). The
  parser's position in its line array is the list of the lines still to read, so \<open>more\<close> is
  non-emptiness, \<open>peek\<close> the head and \<open>next\<close> the tail. An index past the end, which Go would answer with
  a panic, is the value \<open>Panic\<close>; the lemmas show that it never comes up. Errors carry their class and
  not their message.
\<close>

subsection \<open>Data\<close>

datatype patch_error =
  Malformed | DoesNotApply | Unsupported | DeleteUnsupported | RenameUnsupported | BinaryUnsupported
  | UnsafePath | Panic

text \<open>The wrapping of the sentinel errors: \<open>errors.Is(e, target)\<close>.\<close>

definition error_is :: "patch_error \<Rightarrow> patch_error \<Rightarrow> bool" where
  "error_is e target \<longleftrightarrow> e = target \<or>
     (target = Unsupported \<and> (e = DeleteUnsupported \<or> e = RenameUnsupported \<or> e = BinaryUnsupported))"

record hunkLine =
  hl_op :: char
  hl_text :: gostring
  hl_eol :: bool

abbreviation "opContext \<equiv> CHR '' ''"
abbreviation "opRemove \<equiv> CHR ''-''"
abbreviation "opAdd \<equiv> CHR ''+''"
abbreviation "opNoNewline \<equiv> CHR 0x5C"
abbreviation "LF \<equiv> CHR 0x0A"

record Hunk =
  OldStart :: int
  OldCount :: int
  NewStart :: int
  NewCount :: int
  h_lines :: "hunkLine list"

record File =
  f_Path :: gostring
  f_Create :: bool
  f_Delete :: bool
  f_From :: gostring
  f_Mode :: nat
  f_Hunks :: "Hunk list"

record header =
  gitPath :: gostring
  hasPaths :: bool
  oldPath :: gostring
  newPath :: gostring
  hd_create :: bool
  hd_delete :: bool
  hd_rename :: bool
  hd_copied :: bool
  hd_from :: gostring
  hd_to :: gostring
  hd_binary :: bool
  hd_mode :: gostring
  hd_hunks :: "Hunk list"

definition emptyHeader :: header where
  "emptyHeader = \<lparr>gitPath = [], hasPaths = False, oldPath = [], newPath = [], hd_create = False,
     hd_delete = False, hd_rename = False, hd_copied = False, hd_from = [], hd_to = [],
     hd_binary = False, hd_mode = [], hd_hunks = []\<rparr>"

definition emptyFile :: File where
  "emptyFile = \<lparr>f_Path = [], f_Create = False, f_Delete = False, f_From = [], f_Mode = 0, f_Hunks = []\<rparr>"

definition devNull :: gostring where "devNull = ''/dev/null''"

subsection \<open>Lines\<close>

definition splitLines :: "gostring \<Rightarrow> gostring list" where
  "splitLines diff =
     (if diff = [] then []
      else let lines = split_on LF diff in if last lines = [] then butlast lines else lines)"

definition trimCR :: "gostring \<Rightarrow> gostring" where
  "trimCR s = trim_suffix s [CHR 0x0D]"

definition hasAnyPrefix :: "gostring \<Rightarrow> gostring list \<Rightarrow> bool" where
  "hasAnyPrefix s ps = list_ex (has_prefix s) ps"

subsection \<open>Hunks\<close>

definition atoiOr :: "gostring \<Rightarrow> int \<Rightarrow> int" where
  "atoiOr s fallback = (if s = '''' then fallback else case Atoi s of None \<Rightarrow> fallback | Some n \<Rightarrow> n)"

text \<open>
  The regular expression \<open>@@ -(\d+)(?:,(\d+))? \+(\d+)(?:,(\d+))? @@\<close>, anchored at the start: a run of
  digits ends where the next literal begins, so reading it greedily is the only match.
\<close>

definition digits :: "gostring \<Rightarrow> gostring \<times> gostring" where
  "digits s = (takeWhile is_digit s, dropWhile is_digit s)"

definition count_group :: "gostring \<Rightarrow> gostring \<times> gostring" where
  "count_group s =
     (if has_prefix s '','' \<and> fst (digits (drop 1 s)) \<noteq> '''' then digits (drop 1 s) else ('''', s))"

definition range_group :: "gostring \<Rightarrow> (gostring \<times> gostring \<times> gostring) option" where
  "range_group s =
     (if fst (digits s) = '''' then None
      else case count_group (snd (digits s)) of (count, rest) \<Rightarrow> Some (fst (digits s), count, rest))"

definition hunkHeader :: "gostring \<Rightarrow> (gostring \<times> gostring \<times> gostring \<times> gostring) option" where
  "hunkHeader s =
     (if \<not> has_prefix s ''@@ -'' then None
      else case range_group (drop 4 s) of
        None \<Rightarrow> None
      | Some (m1, m2, rest) \<Rightarrow>
          if \<not> has_prefix rest '' +'' then None
          else case range_group (drop 2 rest) of
            None \<Rightarrow> None
          | Some (m3, m4, rest') \<Rightarrow>
              if has_prefix rest' '' @@'' then Some (m1, m2, m3, m4) else None)"

definition parseHunkHeader :: "gostring \<Rightarrow> patch_error + Hunk" where
  "parseHunkHeader h =
     (case hunkHeader h of
        None \<Rightarrow> Inl Malformed
      | Some (m1, m2, m3, m4) \<Rightarrow>
          Inr \<lparr>OldStart = atoiOr m1 0, OldCount = atoiOr m2 1,
               NewStart = atoiOr m3 0, NewCount = atoiOr m4 1, h_lines = []\<rparr>)"

definition markNoNewline :: "hunkLine list \<Rightarrow> patch_error + hunkLine list" where
  "markNoNewline ls =
     (if ls = [] then Inl Malformed else Inr (butlast ls @ [(last ls)\<lparr>hl_eol := False\<rparr>]))"

text \<open>One turn of the loop of \<open>hunk\<close>: the counts of old and new lines left to read, and the lines so far.\<close>

definition hunk_line :: "int \<Rightarrow> int \<Rightarrow> hunkLine list \<Rightarrow> gostring \<Rightarrow> patch_error + (int \<times> int \<times> hunkLine list)" where
  "hunk_line oldLeft newLeft acc raw0 =
     (let raw = (if raw0 = [] then [opContext] else raw0); op = hd raw in
      if op = opNoNewline then
        (case markNoNewline acc of Inl e \<Rightarrow> Inl e | Inr acc' \<Rightarrow> Inr (oldLeft, newLeft, acc'))
      else if op \<noteq> opContext \<and> op \<noteq> opRemove \<and> op \<noteq> opAdd then Inl Malformed
      else
        (let oldLeft' = (if op = opAdd then oldLeft else oldLeft - 1);
             newLeft' = (if op = opRemove then newLeft else newLeft - 1)
         in if oldLeft' < 0 \<or> newLeft' < 0 then Inl Malformed
            else Inr (oldLeft', newLeft', acc @ [\<lparr>hl_op = op, hl_text = tl raw, hl_eol = True\<rparr>])))"

fun hunk_loop :: "int \<Rightarrow> int \<Rightarrow> hunkLine list \<Rightarrow> gostring list \<Rightarrow> patch_error + (hunkLine list \<times> gostring list)" where
  "hunk_loop oldLeft newLeft acc [] =
     (if oldLeft > 0 \<or> newLeft > 0 then Inl Malformed else Inr (acc, []))"
| "hunk_loop oldLeft newLeft acc (raw # rest) =
     (if oldLeft > 0 \<or> newLeft > 0 then
        (case hunk_line oldLeft newLeft acc raw of
           Inl e \<Rightarrow> Inl e
         | Inr (oldLeft', newLeft', acc') \<Rightarrow> hunk_loop oldLeft' newLeft' acc' rest)
      else Inr (acc, raw # rest))"

definition hunk :: "gostring list \<Rightarrow> patch_error + (Hunk \<times> gostring list)" where
  "hunk ls =
     (case ls of [] \<Rightarrow> Inl Panic
      | line # rest \<Rightarrow>
         (case parseHunkHeader (trimCR line) of
            Inl e \<Rightarrow> Inl e
          | Inr h \<Rightarrow>
             (case hunk_loop (OldCount h) (NewCount h) [] rest of
                Inl e \<Rightarrow> Inl e
              | Inr (hls, rest') \<Rightarrow>
                 (if rest' \<noteq> [] \<and> has_prefix (hd rest') [opNoNewline] then
                    (case markNoNewline hls of
                       Inl e \<Rightarrow> Inl e
                     | Inr hls' \<Rightarrow> Inr (h\<lparr>h_lines := hls'\<rparr>, tl rest'))
                  else Inr (h\<lparr>h_lines := hls\<rparr>, rest')))))"

subsection \<open>Header lines\<close>

definition headerPath :: "gostring \<Rightarrow> gostring" where
  "headerPath s =
     (case (if has_prefix s [CHR 0x22] then unquote_prefix s else None) of
        Some p \<Rightarrow> p
      | None \<Rightarrow> fst (cut (CHR 0x09) s))"

definition gitHeaderPath :: "gostring \<Rightarrow> gostring" where
  "gitHeaderPath s =
     (let half = length s div 2 in
      if length s mod 2 = 0 then ''''
      else if s ! half \<noteq> CHR '' '' then ''''
      else
        (let left = take half s; right = drop (half + 1) s;
             both = has_prefix left ''a/'' \<and> has_prefix right ''b/'';
             left' = (if both then drop 2 left else left);
             right' = (if both then drop 2 right else right)
         in if left' \<noteq> right' then '''' else left'))"

definition isFileHeaderPair :: "gostring \<Rightarrow> gostring \<Rightarrow> bool" where
  "isFileHeaderPair first second \<longleftrightarrow> has_prefix first ''--- '' \<and> has_prefix (trimCR second) ''+++ ''"

text \<open>\<open>peekAt(1)\<close>: the line after the current one, empty past the end.\<close>

definition peek1 :: "gostring list \<Rightarrow> gostring" where
  "peek1 ls = (case ls of _ # b # _ \<Rightarrow> b | _ \<Rightarrow> '''')"

definition extendedLine :: "header \<Rightarrow> gostring \<Rightarrow> header option" where
  "extendedLine h line =
     (if has_prefix line ''new file mode '' then
        Some (h\<lparr>hd_create := True, hd_mode := trim_prefix line ''new file mode ''\<rparr>)
      else if has_prefix line ''deleted file mode '' then Some (h\<lparr>hd_delete := True\<rparr>)
      else if has_prefix line ''new mode '' then Some (h\<lparr>hd_mode := trim_prefix line ''new mode ''\<rparr>)
      else if has_prefix line ''rename from '' then
        Some (h\<lparr>hd_rename := True, hd_from := headerPath (trim_prefix line ''rename from '')\<rparr>)
      else if has_prefix line ''rename to '' then
        Some (h\<lparr>hd_rename := True, hd_to := headerPath (trim_prefix line ''rename to '')\<rparr>)
      else if hasAnyPrefix line [''copy from '', ''copy to ''] then
        Some (h\<lparr>hd_rename := True, hd_copied := True\<rparr>)
      else if has_prefix line ''Binary files '' \<or> line = ''GIT binary patch'' then
        Some (h\<lparr>hd_binary := True\<rparr>)
      else if hasAnyPrefix line [''old mode '', ''index '', ''similarity index '', ''dissimilarity index ''] then
        Some h
      else None)"

lemma hunk_loop_shorter: "hunk_loop a b acc ls = Inr (hls, rest) \<Longrightarrow> length rest \<le> length ls"
  by (induction a b acc ls rule: hunk_loop.induct)
    (auto split: if_splits sum.splits prod.splits intro: le_SucI)

lemma hunk_shorter: "hunk ls = Inr (h, rest) \<Longrightarrow> length rest < length ls"
  by (auto simp: hunk_def split: list.splits sum.splits prod.splits if_splits dest!: hunk_loop_shorter)

text \<open>The hunks of a file section: read while the line starts one, in increasing old order.\<close>

function hunks_loop :: "header \<Rightarrow> gostring list \<Rightarrow> patch_error + (header \<times> gostring list)" where
  "hunks_loop h ls =
     (if ls \<noteq> [] \<and> has_prefix (hd ls) ''@@ '' then
        (case hunk ls of
           Inl e \<Rightarrow> Inl e
         | Inr (hk, rest) \<Rightarrow>
             if hd_hunks h \<noteq> [] \<and> OldStart hk \<le> OldStart (last (hd_hunks h)) then Inl Malformed
             else hunks_loop (h\<lparr>hd_hunks := hd_hunks h @ [hk]\<rparr>) rest)
      else Inr (h, ls))"
  by pat_completeness auto
termination
  by (relation "measure (\<lambda>(h, ls). length ls)") (auto dest: hunk_shorter)

declare hunks_loop.simps [simp del]

definition pathsAndHunks :: "header \<Rightarrow> gostring list \<Rightarrow> patch_error + (header \<times> gostring list)" where
  "pathsAndHunks h ls =
     (case ls of
        a # b # rest \<Rightarrow>
          hunks_loop (h\<lparr>hasPaths := True, oldPath := headerPath (trim_prefix (trimCR a) ''--- ''),
                        newPath := headerPath (trim_prefix (trimCR b) ''+++ '')\<rparr>) rest
      | _ \<Rightarrow> Inl Panic)"

fun gitExtended :: "header \<Rightarrow> gostring list \<Rightarrow> patch_error + (header \<times> gostring list)" where
  "gitExtended h [] = Inr (h, [])"
| "gitExtended h (l # ls) =
     (let line = trimCR l in
      if isFileHeaderPair line (peek1 (l # ls)) then pathsAndHunks h (l # ls)
      else case extendedLine h line of None \<Rightarrow> Inr (h, l # ls) | Some h' \<Rightarrow> gitExtended h' ls)"

definition section_at :: "gostring list \<Rightarrow> patch_error + (header \<times> gostring list) option" where
  "section_at ls =
     (let line = trimCR (hd ls) in
      if has_prefix line ''diff --git '' then
        map_sum id Some
          (gitExtended (emptyHeader\<lparr>gitPath := gitHeaderPath (trim_prefix line ''diff --git '')\<rparr>) (tl ls))
      else if isFileHeaderPair line (peek1 ls) then map_sum id Some (pathsAndHunks emptyHeader ls)
      else if has_prefix line ''Binary files '' \<and> has_suffix line '' differ'' then Inl BinaryUnsupported
      else Inr None)"

subsection \<open>Judging a section\<close>

definition prefixedOrNull :: "gostring \<Rightarrow> gostring \<Rightarrow> bool" where
  "prefixedOrNull p pre \<longleftrightarrow> p = devNull \<or> has_prefix p pre"

definition sidePaths :: "header \<Rightarrow> gostring \<times> gostring" where
  "sidePaths h =
     (if \<not> hasPaths h then (gitPath h, gitPath h)
      else if prefixedOrNull (oldPath h) ''a/'' \<and> prefixedOrNull (newPath h) ''b/''
      then (trim_prefix (oldPath h) ''a/'', trim_prefix (newPath h) ''b/'')
      else (oldPath h, newPath h))"

definition regularFileMode :: "gostring \<Rightarrow> patch_error + nat" where
  "regularFileMode raw =
     (if raw = '''' then Inr 0
      else if length raw \<noteq> 6 then Inl Malformed
      else if take 3 raw = ''120'' then Inl Unsupported
      else if take 3 raw = ''160'' then Inl Unsupported
      else if take 3 raw \<noteq> ''100'' then Inl Malformed
      else (case ParseOctal (drop 3 raw) of None \<Rightarrow> Inl Malformed | Some perm \<Rightarrow> Inr perm))"

definition workspacePath :: "gostring \<Rightarrow> patch_error + gostring" where
  "workspacePath raw =
     (if raw = '''' then Inl Malformed
      else if IsAbs raw then Inl Malformed
      else if Clean raw = ''.'' \<or> Clean raw = ''..'' \<or> has_prefix (Clean raw) ''../'' then Inl Malformed
      else Inr (Clean raw))"

definition safeWorkspacePath :: "gostring \<Rightarrow> patch_error + gostring" where
  "safeWorkspacePath raw =
     (if raw = '''' then Inl Malformed
      else if CHR 0x00 \<in> set raw then Inl UnsafePath
      else if IsAbs raw then Inl UnsafePath
      else if Clean raw = ''.'' \<or> Clean raw = ''..'' \<or> has_prefix (Clean raw) ''../'' then Inl UnsafePath
      else if list_ex (\<lambda>part. EqualFold part ''.git'') (split_on (CHR ''/'') (Clean raw)) then Inl UnsafePath
      else Inr (Clean raw))"

text \<open>\<open>header.file\<close>, the judge of \<open>Parse\<close>.\<close>

definition judge_file :: "header \<Rightarrow> patch_error + File" where
  "judge_file h =
     (case sidePaths h of (old, new) \<Rightarrow>
        if hd_delete h \<or> new = devNull then Inl DeleteUnsupported
        else if hd_rename h \<or> (hasPaths h \<and> old \<noteq> devNull \<and> old \<noteq> new) then Inl RenameUnsupported
        else if hd_binary h then Inl BinaryUnsupported
        else
          (case workspacePath new of
             Inl e \<Rightarrow> Inl e
           | Inr target \<Rightarrow>
              (case regularFileMode (hd_mode h) of
                 Inl e \<Rightarrow> Inl e
               | Inr mode \<Rightarrow>
                   Inr \<lparr>f_Path = target, f_Create = (hd_create h \<or> old = devNull), f_Delete = False,
                        f_From = '''', f_Mode = mode, f_Hunks = hd_hunks h\<rparr>)))"

text \<open>\<open>fs.ModePerm\<close>, octal 777.\<close>

definition permissionMask :: nat where "permissionMask = 511"

text \<open>\<open>header.standardFile\<close>, the judge of \<open>ParseStandard\<close>.\<close>

definition standard_paths :: "header \<Rightarrow> gostring \<times> gostring" where
  "standard_paths h =
     (if hd_rename h \<and> hd_from h \<noteq> '''' \<and> hd_to h \<noteq> '''' then (hd_from h, hd_to h) else sidePaths h)"

definition standardFile :: "header \<Rightarrow> patch_error + File" where
  "standardFile h =
     (case standard_paths h of (old, new) \<Rightarrow>
        if hd_binary h then Inl BinaryUnsupported
        else if hd_copied h then Inl RenameUnsupported
        else
          (case regularFileMode (hd_mode h) of
             Inl e \<Rightarrow> Inl e
           | Inr raw_mode \<Rightarrow>
              (let mode = raw_mode AND permissionMask in
               if hd_delete h \<or> new = devNull then
                 (case safeWorkspacePath old of
                    Inl e \<Rightarrow> Inl e
                  | Inr target \<Rightarrow> Inr (emptyFile\<lparr>f_Path := target, f_Delete := True, f_Hunks := hd_hunks h\<rparr>))
               else
                 (let create = (hd_create h \<or> old = devNull);
                      renamed = (\<not> create \<and> old \<noteq> '''' \<and> old \<noteq> new)
                  in if renamed \<and> \<not> hd_rename h then Inl RenameUnsupported
                     else
                       (case safeWorkspacePath new of
                          Inl e \<Rightarrow> Inl e
                        | Inr target \<Rightarrow>
                           (let f = emptyFile\<lparr>f_Path := target, f_Create := create, f_Mode := mode,
                                              f_Hunks := hd_hunks h\<rparr>
                            in if renamed then
                                 (case safeWorkspacePath old of
                                    Inl e \<Rightarrow> Inl e
                                  | Inr src \<Rightarrow> Inr (f\<lparr>f_From := src\<rparr>))
                               else Inr f))))))"

definition touched :: "File \<Rightarrow> gostring list" where
  "touched f = (if f_From f \<noteq> '''' then [f_From f, f_Path f] else [f_Path f])"

subsection \<open>The parse loop\<close>

text \<open>Marks the paths of one file as seen; a path seen before is a malformed diff.\<close>

fun claim_paths :: "gostring list \<Rightarrow> gostring set \<Rightarrow> gostring set option" where
  "claim_paths [] seen = Some seen"
| "claim_paths (p # ps) seen = (if p \<in> seen then None else claim_paths ps (insert p seen))"

lemma hunks_loop_shorter: "hunks_loop h ls = Inr (h', rest) \<Longrightarrow> length rest \<le> length ls"
proof (induction h ls rule: hunks_loop.induct)
  case (1 h ls)
  show ?case
  proof (cases "ls \<noteq> [] \<and> has_prefix (hd ls) ''@@ ''")
    case True
    with 1(2) obtain hk r where hk: "hunk ls = Inr (hk, r)"
        "\<not> (hd_hunks h \<noteq> [] \<and> OldStart hk \<le> OldStart (last (hd_hunks h)))"
        "hunks_loop (h\<lparr>hd_hunks := hd_hunks h @ [hk]\<rparr>) r = Inr (h', rest)"
      by (auto simp: hunks_loop.simps [of h ls] split: if_splits sum.splits)
    show ?thesis using 1(1) [OF True hk(1) refl hk(2,3)] hunk_shorter [OF hk(1)] by simp
  qed (use 1(2) in \<open>auto simp: hunks_loop.simps [of h ls]\<close>)
qed

lemma pathsAndHunks_shorter: "pathsAndHunks h ls = Inr (h', rest) \<Longrightarrow> length rest + 2 \<le> length ls"
  by (auto simp: pathsAndHunks_def split: list.splits dest: hunks_loop_shorter)

lemma gitExtended_shorter: "gitExtended h ls = Inr (h', rest) \<Longrightarrow> length rest \<le> length ls"
  by (induction h ls rule: gitExtended.induct)
    (fastforce simp: Let_def split: if_splits option.splits dest: pathsAndHunks_shorter)+

lemma section_at_shorter:
  "section_at ls = Inr (Some (h, rest)) \<Longrightarrow> ls \<noteq> [] \<Longrightarrow> length rest < length ls"
proof -
  assume a: "section_at ls = Inr (Some (h, rest))" "ls \<noteq> []"
  consider h0 where "gitExtended h0 (tl ls) = Inr (h, rest)" | "pathsAndHunks emptyHeader ls = Inr (h, rest)"
    using a(1) by (auto simp: section_at_def Let_def map_sum_def split: if_splits sum.splits)
  then show ?thesis
  proof cases
    case 1
    then show ?thesis using a(2) gitExtended_shorter [OF 1] by (cases ls) auto
  next
    case 2
    then show ?thesis using pathsAndHunks_shorter [OF 2] by simp
  qed
qed

function parse_loop ::
  "(header \<Rightarrow> patch_error + File) \<Rightarrow> gostring list \<Rightarrow> gostring set \<Rightarrow> File list \<Rightarrow> patch_error + File list"
where
  "parse_loop judge ls seen files =
     (if ls = [] then Inr files
      else case section_at ls of
        Inl e \<Rightarrow> Inl e
      | Inr None \<Rightarrow> parse_loop judge (tl ls) seen files
      | Inr (Some (h, rest)) \<Rightarrow>
         (case judge h of
            Inl e \<Rightarrow> Inl e
          | Inr f \<Rightarrow>
             (case claim_paths (touched f) seen of
                None \<Rightarrow> Inl Malformed
              | Some seen' \<Rightarrow> parse_loop judge rest seen' (files @ [f]))))"
  by pat_completeness auto
termination
  by (relation "measure (\<lambda>(j, ls, s, fs). length ls)") (auto dest: section_at_shorter)

declare parse_loop.simps [simp del]

definition parse :: "gostring \<Rightarrow> (header \<Rightarrow> patch_error + File) \<Rightarrow> patch_error + File list" where
  "parse diff judge =
     (case parse_loop judge (splitLines diff) {} [] of
        Inl e \<Rightarrow> Inl e
      | Inr files \<Rightarrow> if files = [] then Inl Malformed else Inr files)"

definition Parse :: "gostring \<Rightarrow> patch_error + File list" where
  "Parse diff = parse diff judge_file"

definition ParseStandard :: "gostring \<Rightarrow> patch_error + File list" where
  "ParseStandard diff = parse diff standardFile"

end
