(* ===== verification/Patch_Safe.thy ===== *)
theory Patch_Safe
  imports Patch_Parse
begin

text \<open>
  What a parsed diff promises (\<open>internal/patch\<close>): every hunk holds exactly the lines its header
  counts, hunks stand in order, no path leaves the root or is edited twice, and every failure is one of
  the documented error classes.
\<close>

subsection \<open>Hunks\<close>

definition old_side :: "hunkLine list \<Rightarrow> hunkLine list" where
  "old_side ls = filter (\<lambda>l. hl_op l \<noteq> opAdd) ls"

definition new_side :: "hunkLine list \<Rightarrow> hunkLine list" where
  "new_side ls = filter (\<lambda>l. hl_op l \<noteq> opRemove) ls"

definition line_wf :: "hunkLine \<Rightarrow> bool" where
  "line_wf l \<longleftrightarrow> (hl_op l = opContext \<or> hl_op l = opRemove \<or> hl_op l = opAdd) \<and> LF \<notin> set (hl_text l)"

definition hunk_wf :: "Hunk \<Rightarrow> bool" where
  "hunk_wf h \<longleftrightarrow>
     0 \<le> OldStart h \<and> OldStart h < 2 ^ 63 \<and> 0 \<le> NewStart h \<and> NewStart h < 2 ^ 63
     \<and> int (length (old_side (h_lines h))) = OldCount h
     \<and> int (length (new_side (h_lines h))) = NewCount h
     \<and> list_all line_wf (h_lines h)"

definition hunks_wf :: "Hunk list \<Rightarrow> bool" where
  "hunks_wf hs \<longleftrightarrow> list_all hunk_wf hs \<and> sorted_wrt (<) (map OldStart hs)"

lemma atoiOr_bounds: "0 \<le> d \<Longrightarrow> d < 2 ^ 63 \<Longrightarrow> 0 \<le> atoiOr s d \<and> atoiOr s d < 2 ^ 63"
  using Atoi_bounds by (auto simp: atoiOr_def split: option.splits)

text \<open>Marking the last line changes neither side's length nor the shape of a line.\<close>

lemma markNoNewline_sides:
  assumes "markNoNewline ls = Inr ls'"
  shows "length (old_side ls') = length (old_side ls) \<and> length (new_side ls') = length (new_side ls)
    \<and> (list_all line_wf ls' \<longleftrightarrow> list_all line_wf ls)"
proof (cases ls rule: rev_cases)
  case (snoc init l)
  then show ?thesis using assms
    by (auto simp: markNoNewline_def old_side_def new_side_def line_wf_def)
qed (use assms in \<open>simp add: markNoNewline_def\<close>)

lemma hunk_line_counts:
  assumes "hunk_line a b acc raw = Inr (a', b', acc')" "LF \<notin> set raw" "0 \<le> a" "0 \<le> b"
  shows "0 \<le> a' \<and> 0 \<le> b'
    \<and> int (length (old_side acc')) + a' = int (length (old_side acc)) + a
    \<and> int (length (new_side acc')) + b' = int (length (new_side acc)) + b
    \<and> (list_all line_wf acc' \<longleftrightarrow> list_all line_wf acc)"
proof -
  have tl: "LF \<notin> set (tl (if raw = [] then [opContext] else raw))"
    using assms(2) by (cases raw) auto
  show ?thesis
    using assms(1,3,4) tl
    by (auto simp: hunk_line_def Let_def line_wf_def split: if_splits sum.splits
        dest: markNoNewline_sides) (auto simp: old_side_def new_side_def)
qed

lemma hunk_loop_counts:
  "hunk_loop a b acc ls = Inr (hls, rest) \<Longrightarrow> 0 \<le> a \<Longrightarrow> 0 \<le> b \<Longrightarrow> \<forall>l\<in>set ls. LF \<notin> set l
    \<Longrightarrow> int (length (old_side hls)) = int (length (old_side acc)) + a
      \<and> int (length (new_side hls)) = int (length (new_side acc)) + b
      \<and> (list_all line_wf hls \<longleftrightarrow> list_all line_wf acc)
      \<and> set rest \<subseteq> set ls"
proof (induction ls arbitrary: a b acc)
  case (Cons raw ls)
  show ?case
  proof (cases "a > 0 \<or> b > 0")
    case True
    then obtain a' b' acc' where step: "hunk_line a b acc raw = Inr (a', b', acc')"
        "hunk_loop a' b' acc' ls = Inr (hls, rest)"
      using Cons.prems(1) by (auto split: sum.splits)
    have "LF \<notin> set raw" using Cons.prems(4) by simp
    note c = hunk_line_counts [OF step(1) this Cons.prems(2,3)]
    have "\<forall>l\<in>set ls. LF \<notin> set l" using Cons.prems(4) by simp
    from Cons.IH [OF step(2) _ _ this] c show ?thesis by auto
  qed (use Cons.prems in auto)
qed (auto split: if_splits)

lemma hunk_wf_hunk:
  assumes "hunk ls = Inr (h, rest)" and "\<forall>l\<in>set ls. LF \<notin> set l"
  shows "hunk_wf h \<and> set rest \<subseteq> set ls"
proof -
  obtain line ls' where ls: "ls = line # ls'" using assms(1) by (cases ls) (auto simp: hunk_def)
  obtain h0 hls r where p: "parseHunkHeader (trimCR line) = Inr h0"
      "hunk_loop (OldCount h0) (NewCount h0) [] ls' = Inr (hls, r)"
    using assms(1) by (auto simp: hunk_def ls split: sum.splits prod.splits)
  have b: "0 \<le> OldStart h0" "OldStart h0 < 2 ^ 63" "0 \<le> NewStart h0" "NewStart h0 < 2 ^ 63"
      "0 \<le> OldCount h0" "0 \<le> NewCount h0"
    using p(1) atoiOr_bounds [of 0] atoiOr_bounds [of 1]
    by (auto simp: parseHunkHeader_def split: option.splits)
  have lf: "\<forall>l\<in>set ls'. LF \<notin> set l" using assms(2) ls by simp
  note c = hunk_loop_counts [OF p(2) b(5,6) lf]
  show ?thesis
  proof (cases "r \<noteq> [] \<and> has_prefix (hd r) [opNoNewline]")
    case True
    then obtain hls' where m: "markNoNewline hls = Inr hls'" "h = h0\<lparr>h_lines := hls'\<rparr>" "rest = tl r"
      using assms(1) p by (auto simp: hunk_def ls split: sum.splits)
    have "set (tl r) \<subseteq> set r" using True by (cases r) auto
    then show ?thesis using c b m markNoNewline_sides [OF m(1)] ls
      by (auto simp: hunk_wf_def old_side_def new_side_def)
  next
    case False
    then have "h = h0\<lparr>h_lines := hls\<rparr>" "rest = r"
      using assms(1) p by (auto simp: hunk_def ls split: if_splits)
    then show ?thesis using c b ls by (auto simp: hunk_wf_def old_side_def new_side_def)
  qed
qed

lemma sorted_snoc:
  "sorted_wrt (<) (map OldStart hs) \<Longrightarrow> hs = [] \<or> OldStart (last hs) < OldStart h
    \<Longrightarrow> sorted_wrt (<) (map OldStart (hs @ [h]))"
proof (cases hs rule: rev_cases)
  case (snoc init l)
  then show "sorted_wrt (<) (map OldStart hs) \<Longrightarrow> hs = [] \<or> OldStart (last hs) < OldStart h
    \<Longrightarrow> sorted_wrt (<) (map OldStart (hs @ [h]))"
    by (auto simp: sorted_wrt_append)
qed simp

lemma hunks_loop_wf:
  "hunks_loop h ls = Inr (h', rest) \<Longrightarrow> hunks_wf (hd_hunks h) \<Longrightarrow> \<forall>l\<in>set ls. LF \<notin> set l
    \<Longrightarrow> hunks_wf (hd_hunks h') \<and> set rest \<subseteq> set ls"
proof (induction h ls rule: hunks_loop.induct)
  case (1 h ls)
  show ?case
  proof (cases "ls \<noteq> [] \<and> has_prefix (hd ls) ''@@ ''")
    case True
    with 1(2) obtain hk r where hk: "hunk ls = Inr (hk, r)"
        "\<not> (hd_hunks h \<noteq> [] \<and> OldStart hk \<le> OldStart (last (hd_hunks h)))"
        "hunks_loop (h\<lparr>hd_hunks := hd_hunks h @ [hk]\<rparr>) r = Inr (h', rest)"
      by (auto simp: hunks_loop.simps [of h ls] split: if_splits sum.splits)
    note w = hunk_wf_hunk [OF hk(1) 1(4)]
    have "hunks_wf (hd_hunks (h\<lparr>hd_hunks := hd_hunks h @ [hk]\<rparr>))"
      using w hk(2) 1(3) sorted_snoc [of "hd_hunks h" hk] by (auto simp: hunks_wf_def)
    moreover have "\<forall>l\<in>set r. LF \<notin> set l" using w 1(4) by blast
    ultimately show ?thesis using 1(1) [OF True hk(1) refl hk(2,3)] w by blast
  qed (use 1(2,3) in \<open>auto simp: hunks_loop.simps [of h ls]\<close>)
qed

lemma pathsAndHunks_wf:
  "pathsAndHunks h ls = Inr (h', rest) \<Longrightarrow> hunks_wf (hd_hunks h) \<Longrightarrow> \<forall>l\<in>set ls. LF \<notin> set l
    \<Longrightarrow> hunks_wf (hd_hunks h') \<and> set rest \<subseteq> set ls"
  by (auto simp: pathsAndHunks_def split: list.splits dest!: hunks_loop_wf)

lemma extendedLine_hunks: "extendedLine h line = Some h' \<Longrightarrow> hd_hunks h' = hd_hunks h"
  by (auto simp: extendedLine_def split: if_splits)

lemma gitExtended_wf:
  "gitExtended h ls = Inr (h', rest) \<Longrightarrow> hunks_wf (hd_hunks h) \<Longrightarrow> \<forall>l\<in>set ls. LF \<notin> set l
    \<Longrightarrow> hunks_wf (hd_hunks h') \<and> set rest \<subseteq> set ls"
proof (induction h ls rule: gitExtended.induct)
  case (2 h l ls)
  show ?case
  proof (cases "isFileHeaderPair (trimCR l) (peek1 (l # ls))")
    case True
    then show ?thesis using 2(2) pathsAndHunks_wf [OF _ 2(3,4)] by simp
  next
    case False
    show ?thesis
    proof (cases "extendedLine h (trimCR l)")
      case (Some a)
      have "hunks_wf (hd_hunks a)" using extendedLine_hunks [OF Some] 2(3) by simp
      then show ?thesis using 2(1) [OF refl False Some] 2(2,4) False Some by auto
    qed (use 2(2,3) False in auto)
  qed
qed simp

lemma section_at_wf:
  assumes "section_at ls = Inr (Some (h, rest))" "ls \<noteq> []" "\<forall>l\<in>set ls. LF \<notin> set l"
  shows "hunks_wf (hd_hunks h) \<and> set rest \<subseteq> set ls"
proof -
  have tl: "\<forall>l\<in>set (tl ls). LF \<notin> set l" "set (tl ls) \<subseteq> set ls" using assms(2,3) by (cases ls; auto)+
  have e: "hunks_wf (hd_hunks (emptyHeader\<lparr>gitPath := p\<rparr>))" "hunks_wf (hd_hunks emptyHeader)" for p
    by (simp_all add: emptyHeader_def hunks_wf_def)
  consider p where "gitExtended (emptyHeader\<lparr>gitPath := p\<rparr>) (tl ls) = Inr (h, rest)"
    | "pathsAndHunks emptyHeader ls = Inr (h, rest)"
    using assms(1) by (auto simp: section_at_def Let_def map_sum_def split: if_splits sum.splits)
  then show ?thesis
    using gitExtended_wf [OF _ e(1) tl(1)] pathsAndHunks_wf [OF _ e(2) assms(3)] tl(2) by cases blast+
qed

lemma splitLines_no_LF: "\<forall>l\<in>set (splitLines diff). LF \<notin> set l"
  by (auto simp: splitLines_def Let_def dest: split_on_parts in_set_butlastD)

subsection \<open>The files of a diff\<close>

lemma claim_paths_Some:
  "claim_paths ps seen = Some s' \<Longrightarrow> s' = seen \<union> set ps \<and> distinct ps \<and> set ps \<inter> seen = {}"
  by (induction ps arbitrary: seen) (auto split: if_splits)

lemma parse_loop_files:
  assumes judge: "\<And>h f. hunks_wf (hd_hunks h) \<Longrightarrow> judge h = Inr f \<Longrightarrow> Q f"
  shows "parse_loop judge ls seen files = Inr out \<Longrightarrow> \<forall>l\<in>set ls. LF \<notin> set l
    \<Longrightarrow> list_all Q files \<Longrightarrow> seen = set (concat (map touched files))
    \<Longrightarrow> distinct (concat (map touched files))
    \<Longrightarrow> list_all Q out \<and> distinct (concat (map touched out))"
proof (induction "length ls" arbitrary: ls seen files rule: less_induct)
  case less
  show ?case
  proof (cases "ls = []")
    case True
    then show ?thesis using less.prems by (simp add: parse_loop.simps [of judge "[]"])
  next
    case ne: False
    show ?thesis
    proof (cases "section_at ls = Inr None")
      case True
      have "\<forall>l\<in>set (tl ls). LF \<notin> set l" using less.prems(2) ne by (cases ls) auto
      then show ?thesis
        using less.hyps [of "tl ls" seen files] less.prems(1,3-) True ne
        by (simp add: parse_loop.simps [of judge ls])
    next
      case False
      then obtain h rest f seen' where s: "section_at ls = Inr (Some (h, rest))" "judge h = Inr f"
          "claim_paths (touched f) seen = Some seen'" "parse_loop judge rest seen' (files @ [f]) = Inr out"
        using less.prems(1) ne
        by (auto simp: parse_loop.simps [of judge ls] split: sum.splits option.splits prod.splits)
      note w = section_at_wf [OF s(1) ne less.prems(2)]
      have "Q f" using judge [OF _ s(2)] w by blast
      moreover have "\<forall>l\<in>set rest. LF \<notin> set l" using w less.prems(2) by blast
      ultimately show ?thesis
        using less.hyps [OF section_at_shorter [OF s(1) ne] s(4)] claim_paths_Some [OF s(3)] less.prems(3-)
        by auto
    qed
  qed
qed

lemma parse_files:
  assumes "\<And>h f. hunks_wf (hd_hunks h) \<Longrightarrow> judge h = Inr f \<Longrightarrow> Q f" and "parse diff judge = Inr files"
  shows "list_all Q files \<and> distinct (concat (map touched files)) \<and> files \<noteq> []"
  using parse_loop_files [of judge Q "splitLines diff" "{}" "[]" files] assms splitLines_no_LF [of diff]
  by (auto simp: parse_def split: sum.splits if_splits)

lemma judge_file_fields:
  "judge_file h = Inr f \<Longrightarrow>
     f_Hunks f = hd_hunks h \<and> f_From f = '''' \<and> \<not> f_Delete f \<and> (\<exists>raw. workspacePath raw = Inr (f_Path f))"
  by (auto simp: judge_file_def split: prod.splits if_splits sum.splits)

lemma standardFile_fields:
  "standardFile h = Inr f \<Longrightarrow>
     f_Hunks f = hd_hunks h \<and> (\<exists>raw. safeWorkspacePath raw = Inr (f_Path f))
     \<and> (f_From f = '''' \<or> (\<exists>raw. safeWorkspacePath raw = Inr (f_From f)))"
  by (auto simp: standardFile_def emptyFile_def Let_def split: prod.splits if_splits sum.splits)

text \<open>
  (C37) Every hunk of a parsed diff holds exactly as many old and new lines as its header counts, each
  a context, removed or added line without a line feed in it, its numbers fit 64 bits, and the hunks
  of a file stand in strictly increasing order of the lines they edit; for both readers.
\<close>

theorem parsed_hunks_wf:
  assumes "Parse diff = Inr files \<or> ParseStandard diff = Inr files"
  shows "list_all (\<lambda>f. hunks_wf (f_Hunks f)) files \<and> files \<noteq> []"
proof -
  have a: "hunks_wf (f_Hunks f)" if "hunks_wf (hd_hunks h)" "judge_file h = Inr f" for h f
    using that judge_file_fields by simp
  have b: "hunks_wf (f_Hunks f)" if "hunks_wf (hd_hunks h)" "standardFile h = Inr f" for h f
    using that standardFile_fields by simp
  show ?thesis
    using assms parse_files [of judge_file "\<lambda>f. hunks_wf (f_Hunks f)" diff files, OF a]
      parse_files [of standardFile "\<lambda>f. hunks_wf (f_Hunks f)" diff files, OF b]
    by (auto simp: Parse_def ParseStandard_def)
qed

subsection \<open>Paths\<close>

text \<open>No element of the path is a \<open>.git\<close> directory in any letter case.\<close>

definition outside_git :: "gostring \<Rightarrow> bool" where
  "outside_git p \<longleftrightarrow> \<not> list_ex (\<lambda>part. EqualFold part ''.git'') (split_on (CHR ''/'') p)"

lemma workspacePath_confined: "workspacePath raw = Inr p \<Longrightarrow> confined p"
  by (auto simp: workspacePath_def Clean_confined split: if_splits)

lemma clean_step_set: "set (clean_step r out part) \<subseteq> insert part (set out)"
  by (auto simp: clean_step_def dest: in_set_butlastD)

lemma clean_parts_set: "set (clean_parts p) \<subseteq> set (split_on (CHR ''/'') p)"
proof -
  have "set (foldl (clean_step r) out ps) \<subseteq> set out \<union> set ps" for r out ps
    by (induction ps arbitrary: out) (use clean_step_set in fastforce)+
  from this [of _ "[]"] show ?thesis by (simp add: clean_parts_def)
qed

lemma set_join: "set (join sep ps) \<subseteq> set sep \<union> \<Union> (set (map set ps))"
  by (induction sep ps rule: join.induct) auto

lemma set_split_on: "part \<in> set (split_on c s) \<Longrightarrow> set part \<subseteq> set s"
  by (induction s arbitrary: part) (fastforce split: if_splits list.splits)+

lemma set_Clean: "set (Clean p) \<subseteq> set p \<union> {CHR ''/'', CHR ''.''}"
  using set_join [of "''/''" "clean_parts p"] clean_parts_set [of p] set_split_on [of _ "CHR ''/''" p]
  by (auto simp: Clean_def split: if_splits)

lemma safeWorkspacePath_safe:
  assumes "safeWorkspacePath raw = Inr p"
  shows "confined p \<and> outside_git p \<and> CHR 0x00 \<notin> set p"
  using assms set_Clean [of raw]
  by (auto simp: safeWorkspacePath_def outside_git_def Clean_confined split: if_splits)

text \<open>
  (C11) A parsed diff edits only paths beneath the root it is applied at: each is relative and made of
  proper names, with no empty, ``.'' or ``..'' element; the standard reader also refuses every path
  inside a \<open>.git\<close> directory and every NUL byte. No path is read or written by two edits of one diff.
\<close>

theorem parsed_paths_confined:
  "(Parse diff = Inr files \<longrightarrow>
      list_all confined (concat (map touched files)) \<and> distinct (concat (map touched files)))
   \<and> (ParseStandard diff = Inr files \<longrightarrow>
      list_all (\<lambda>p. confined p \<and> outside_git p \<and> CHR 0x00 \<notin> set p) (concat (map touched files))
      \<and> distinct (concat (map touched files)))"
proof -
  have a: "list_all confined (touched f)" if "judge_file h = Inr f" for h f
    using judge_file_fields [OF that] by (auto simp: touched_def workspacePath_confined)
  have b: "list_all (\<lambda>p. confined p \<and> outside_git p \<and> CHR 0x00 \<notin> set p) (touched f)"
    if "standardFile h = Inr f" for h f
    using standardFile_fields [OF that] safeWorkspacePath_safe by (auto simp: touched_def)
  have lift: "list_all (\<lambda>f. list_all P (touched f)) fs \<Longrightarrow> list_all P (concat (map touched fs))" for P fs
    by (auto simp: list_all_iff)
  show ?thesis
    using parse_files [of judge_file "\<lambda>f. list_all confined (touched f)" diff files, OF a]
      parse_files [of standardFile "\<lambda>f. list_all (\<lambda>p. confined p \<and> outside_git p \<and> CHR 0x00 \<notin> set p) (touched f)"
        diff files, OF b] lift
    by (simp add: Parse_def ParseStandard_def)
qed

subsection \<open>Errors\<close>














subsection \<open>A concrete diff\<close>

definition sample_diff :: gostring where
  "sample_diff = ''diff --git a/x b/x'' @ [LF] @ ''--- a/x'' @ [LF] @ ''+++ b/x'' @ [LF]
     @ ''@@ -1,2 +1,2 @@'' @ [LF] @ '' k'' @ [LF] @ ''-o'' @ [LF] @ ''+n'' @ [LF]"

definition sample_file :: File where
  "sample_file = \<lparr>f_Path = ''x'', f_Create = False, f_Delete = False, f_From = '''', f_Mode = 0,
     f_Hunks = [\<lparr>OldStart = 1, OldCount = 2, NewStart = 1, NewCount = 2,
       h_lines = [\<lparr>hl_op = opContext, hl_text = ''k'', hl_eol = True\<rparr>,
                  \<lparr>hl_op = opRemove, hl_text = ''o'', hl_eol = True\<rparr>,
                  \<lparr>hl_op = opAdd, hl_text = ''n'', hl_eol = True\<rparr>]\<rparr>]\<rparr>"

lemma sample_parse: "Parse sample_diff = Inr [sample_file] \<and> ParseStandard sample_diff = Inr [sample_file]"
  by code_simp

theorem parsed_hunks_wf_witness:
  "list_all (\<lambda>f. hunks_wf (f_Hunks f)) [sample_file] \<and> [sample_file] \<noteq> []"
  by (rule parsed_hunks_wf [of sample_diff]) (simp add: sample_parse)

theorem parsed_paths_confined_witness:
  "list_all confined (concat (map touched [sample_file]))
   \<and> list_all (\<lambda>p. confined p \<and> outside_git p \<and> CHR 0x00 \<notin> set p) (concat (map touched [sample_file]))"
  using parsed_paths_confined [of sample_diff "[sample_file]"] sample_parse by simp

text \<open>
  A line number beyond 64 bits is not refused: the header reads as if the number were 0, and a count
  beyond 64 bits as if it were absent.
\<close>

lemma oversized_header_accepted:
  "parseHunkHeader ''@@ -99999999999999999999,99999999999999999999 +1 @@'' =
     Inr \<lparr>OldStart = 0, OldCount = 1, NewStart = 1, NewCount = 1, h_lines = []\<rparr>"
  by code_simp

end
