(* ===== verification/Patch_Apply.thy ===== *)
theory Patch_Apply
  imports Patch_Safe
begin

text \<open>
  Applying a parsed edit to a file's bytes (\<open>File.Apply\<close>, \<open>AppliedTo\<close> and \<open>reversed\<close> of
  \<open>internal/patch/hunk.go\<close>), with the specification that an application keeps the text between hunks
  and swaps each hunk's old side for its new one.
\<close>

subsection \<open>The code\<close>

text \<open>\<open>hunkLine.bytes\<close>.\<close>

definition line_bytes :: "hunkLine \<Rightarrow> gostring" where
  "line_bytes l = (if hl_eol l then hl_text l @ [LF] else hl_text l)"

text \<open>\<open>bytes.IndexByte(contents, '\n') + 1\<close>, 0 when there is none.\<close>

definition after_newline :: "gostring \<Rightarrow> nat" where
  "after_newline s = (if LF \<in> set s then length (takeWhile (\<lambda>c. c \<noteq> LF) s) + 1 else 0)"

function fileLines :: "gostring \<Rightarrow> gostring list" where
  "fileLines contents =
     (if contents = [] then []
      else (let n = after_newline contents; stop = (if n = 0 then length contents else n)
            in take stop contents # fileLines (drop stop contents)))"
  by pat_completeness auto
termination
  by (relation "measure length") (auto simp: after_newline_def)

declare fileLines.simps [simp del]

text \<open>The inner loop: the lines of one hunk against \<open>src\<close> from \<open>pos\<close>, appending to \<open>out\<close>.\<close>

fun apply_lines :: "gostring list \<Rightarrow> hunkLine list \<Rightarrow> nat \<Rightarrow> gostring \<Rightarrow> patch_error + (nat \<times> gostring)" where
  "apply_lines src [] pos out = Inr (pos, out)"
| "apply_lines src (l # ls) pos out =
     (if hl_op l = opAdd then apply_lines src ls pos (out @ line_bytes l)
      else if pos \<ge> length src \<or> src ! pos \<noteq> line_bytes l then Inl DoesNotApply
      else apply_lines src ls (pos + 1) (if hl_op l = opContext then out @ src ! pos else out))"

definition hunk_start :: "Hunk \<Rightarrow> int" where
  "hunk_start h = (if OldCount h = 0 then OldStart h else OldStart h - 1)"

fun apply_hunks :: "gostring list \<Rightarrow> Hunk list \<Rightarrow> nat \<Rightarrow> gostring \<Rightarrow> patch_error + (nat \<times> gostring)" where
  "apply_hunks src [] pos out = Inr (pos, out)"
| "apply_hunks src (h # hs) pos out =
     (if hunk_start h < int pos then Inl Malformed
      else if hunk_start h > int (length src) then Inl DoesNotApply
      else
        (let start = nat (hunk_start h); gap = drop pos (take start src)
         in case apply_lines src (h_lines h) start (out @ concat gap) of
              Inl e \<Rightarrow> Inl e
            | Inr (pos', out') \<Rightarrow> apply_hunks src hs pos' out'))"

definition Apply :: "File \<Rightarrow> gostring \<Rightarrow> patch_error + gostring" where
  "Apply f old =
     (case apply_hunks (fileLines old) (f_Hunks f) 0 [] of
        Inl e \<Rightarrow> Inl e
      | Inr (pos, out) \<Rightarrow> Inr (out @ concat (drop pos (fileLines old))))"

definition reversed_line :: "hunkLine \<Rightarrow> hunkLine" where
  "reversed_line l =
     l\<lparr>hl_op := if hl_op l = opAdd then opRemove else if hl_op l = opRemove then opAdd else hl_op l\<rparr>"

definition reversed_hunk :: "Hunk \<Rightarrow> Hunk" where
  "reversed_hunk h =
     \<lparr>OldStart = NewStart h, OldCount = NewCount h, NewStart = OldStart h, NewCount = OldCount h,
      h_lines = map reversed_line (h_lines h)\<rparr>"

definition reversed :: "File \<Rightarrow> File" where
  "reversed f = emptyFile\<lparr>f_Path := f_Path f, f_Hunks := map reversed_hunk (f_Hunks f)\<rparr>"

definition AppliedTo :: "File \<Rightarrow> gostring \<Rightarrow> bool" where
  "AppliedTo f current =
     (case Apply (reversed f) current of
        Inl _ \<Rightarrow> False
      | Inr prior \<Rightarrow>
          if f_Create f \<and> prior \<noteq> [] then False
          else (case Apply f prior of Inl _ \<Rightarrow> False | Inr fwd \<Rightarrow> fwd = current))"

subsection \<open>Lines of a file\<close>

definition one_line :: "gostring \<Rightarrow> bool" where
  "one_line l \<longleftrightarrow> (\<exists>t. LF \<notin> set t \<and> l = t @ [LF])"

text \<open>A list of lines as a file has them: every line but the last ends in a line feed, none is empty.\<close>

fun line_list :: "gostring list \<Rightarrow> bool" where
  "line_list [] \<longleftrightarrow> True"
| "line_list [l] \<longleftrightarrow> l \<noteq> [] \<and> LF \<notin> set (butlast l)"
| "line_list (l # m # ls) \<longleftrightarrow> l \<noteq> [] \<and> last l = LF \<and> LF \<notin> set (butlast l) \<and> line_list (m # ls)"

lemma fileLines_Nil [simp]: "fileLines [] = []"
  by (simp add: fileLines.simps)

lemma fileLines_line:
  assumes "LF \<notin> set t"
  shows "fileLines (t @ LF # rest) = (t @ [LF]) # fileLines rest"
proof -
  have "takeWhile (\<lambda>c. c \<noteq> LF) (t @ LF # rest) = t" using assms by (induction t) auto
  then show ?thesis by (subst fileLines.simps) (simp add: after_newline_def Let_def)
qed

lemma fileLines_last: "LF \<notin> set t \<Longrightarrow> t \<noteq> [] \<Longrightarrow> fileLines t = [t]"
  by (subst fileLines.simps) (simp add: after_newline_def Let_def)

lemma line_cases:
  obtains (nil) "s = []" | (last) "s \<noteq> []" "LF \<notin> set s"
    | (line) t rest where "LF \<notin> set t" "s = t @ LF # rest"
  by (metis split_list_first)

lemma concat_fileLines: "concat (fileLines s) = s"
proof (induction "length s" arbitrary: s rule: less_induct)
  case less
  show ?case
    by (cases s rule: line_cases) (use less in \<open>auto simp: fileLines_line fileLines_last\<close>)
qed

lemma fileLines_concat: "line_list ls \<Longrightarrow> fileLines (concat ls) = ls"
proof (induction ls rule: line_list.induct)
  case (2 l)
  then obtain t c where l: "l = t @ [c]" "LF \<notin> set t" by (cases l rule: rev_cases) auto
  then show ?case
    using fileLines_line [of t "[]"] fileLines_last [of l] by (cases "c = LF") simp_all
next
  case (3 l m ls)
  then have "l = butlast l @ [LF]" by (metis append_butlast_last_id line_list.simps(3))
  then have "fileLines (l @ concat (m # ls)) = l # fileLines (concat (m # ls))"
    using fileLines_line [of "butlast l" "concat (m # ls)"] 3(2) by (metis append.assoc append_Cons append_Nil line_list.simps(3))
  then show ?case using 3 by simp
qed simp

lemma line_list_fileLines: "line_list (fileLines s)"
proof (induction "length s" arbitrary: s rule: less_induct)
  case less
  show ?case
  proof (cases s rule: line_cases)
    case last
    then show ?thesis by (auto simp: fileLines_last dest: in_set_butlastD)
  next
    case (line t rest)
    then have "line_list (fileLines rest)" using less by simp
    then show ?thesis using line
      by (cases "fileLines rest") (auto simp: fileLines_line butlast_append)
  qed simp
qed

subsection \<open>The specification\<close>

definition old_lines :: "Hunk \<Rightarrow> gostring list" where
  "old_lines h = map line_bytes (old_side (h_lines h))"

definition new_lines :: "Hunk \<Rightarrow> gostring list" where
  "new_lines h = map line_bytes (new_side (h_lines h))"

text \<open>
  \<open>patched n hs src out\<close>: with \<open>n\<close> lines of the file behind, the hunks \<open>hs\<close> turn the remaining lines
  \<open>src\<close> into \<open>out\<close>: each hunk starts at the line its header names, its old lines stand there, and its
  new lines replace them; everything else is kept.
\<close>

inductive patched :: "nat \<Rightarrow> Hunk list \<Rightarrow> gostring list \<Rightarrow> gostring list \<Rightarrow> bool" where
  patched_done: "patched n [] rest rest"
| patched_hunk: "hunk_start h = int (n + length gap)
    \<Longrightarrow> patched (n + length gap + length (old_lines h)) hs rest out
    \<Longrightarrow> patched n (h # hs) (gap @ old_lines h @ rest) (gap @ new_lines h @ out)"

inductive_cases patched_ConsE: "patched n (h # hs) src out"
inductive_simps patched_Nil_iff: "patched n [] src out"

lemma apply_lines_eq:
  "list_all line_wf ls \<Longrightarrow> pos \<le> length src \<Longrightarrow> apply_lines src ls pos out =
     (if has_prefix (drop pos src) (map line_bytes (old_side ls))
      then Inr (pos + length (old_side ls), out @ concat (map line_bytes (new_side ls)))
      else Inl DoesNotApply)"
proof (induction ls arbitrary: pos out)
  case (Cons l ls)
  show ?case
  proof (cases "hl_op l = opAdd")
    case True
    then show ?thesis using Cons by (simp add: old_side_def new_side_def)
  next
    case False
    then have op: "hl_op l = opContext \<or> hl_op l = opRemove" using Cons.prems by (auto simp: line_wf_def)
    show ?thesis
    proof (cases "pos < length src")
      case True
      then have "drop pos src = src ! pos # drop (Suc pos) src" by (simp add: Cons_nth_drop_Suc)
      then show ?thesis using Cons True False op by (auto simp: old_side_def new_side_def)
    qed (use False in \<open>simp add: old_side_def\<close>)
  qed
qed (simp add: old_side_def new_side_def)

lemma apply_hunks_sound:
  "apply_hunks src hs pos out = Inr (pos', out') \<Longrightarrow> list_all hunk_wf hs \<Longrightarrow> pos \<le> length src
    \<Longrightarrow> \<exists>res. patched pos hs (drop pos src) (res @ drop pos' src) \<and> out' = out @ concat res"
proof (induction hs arbitrary: pos out)
  case Nil
  then show ?case by (auto simp: patched_Nil_iff)
next
  case (Cons h hs)
  define start where "start = nat (hunk_start h)"
  define gap where "gap = drop pos (take start src)"
  have st: "hunk_start h = int start" "pos \<le> start" "start \<le> length src"
    using Cons.prems(1) by (auto simp: start_def split: if_splits)
  have wf: "list_all line_wf (h_lines h)" using Cons.prems(2) by (simp add: hunk_wf_def)
  have pre: "has_prefix (drop start src) (old_lines h)"
      "apply_hunks src hs (start + length (old_side (h_lines h)))
        (out @ concat gap @ concat (new_lines h)) = Inr (pos', out')"
    using Cons.prems(1) st apply_lines_eq [OF wf st(3)]
    by (auto simp: start_def [symmetric] gap_def [symmetric] old_lines_def new_lines_def Let_def
        split: if_splits sum.splits)
  obtain rest where rest: "drop start src = old_lines h @ rest" using pre(1) by (auto simp: has_prefix_iff)
  have len: "length (old_lines h) = length (old_side (h_lines h))" by (simp add: old_lines_def)
  have drop': "drop (start + length (old_lines h)) src = rest"
    using arg_cong [OF rest, of "drop (length (old_lines h))"] by (simp add: add.commute)
  have "start + length (old_lines h) \<le> length src"
    using arg_cong [OF rest, of length] st by simp
  then obtain res where res: "patched (start + length (old_lines h)) hs rest (res @ drop pos' src)"
      "out' = out @ concat gap @ concat (new_lines h) @ concat res"
    using Cons.IH [OF pre(2)] Cons.prems(2) drop' len by auto
  have g: "length gap = start - pos" "drop pos src = gap @ old_lines h @ rest"
    using st rest append_take_drop_id [of start src]
    by (auto simp: gap_def min_def) (metis append_take_drop_id drop_append drop_eq_Nil append_Nil2 drop_take drop_drop le_add_diff_inverse2)
  have "patched pos (h # hs) (gap @ old_lines h @ rest) (gap @ new_lines h @ res @ drop pos' src)"
    using res(1) st g(1) by (intro patched_hunk) simp_all
  then show ?case using res(2) g(2) by (intro exI [of _ "gap @ new_lines h @ res"]) simp
qed

lemma apply_hunks_complete:
  "patched n hs rest res \<Longrightarrow> list_all hunk_wf hs \<Longrightarrow> rest = drop n src \<Longrightarrow> n \<le> length src
    \<Longrightarrow> \<exists>pos' out'. apply_hunks src hs n out = Inr (pos', out')
          \<and> out' @ concat (drop pos' src) = out @ concat res"
proof (induction arbitrary: out rule: patched.induct)
  case (patched_hunk h n gap hs rest res)
  define start where "start = n + length gap"
  have wf: "list_all line_wf (h_lines h)" using patched_hunk.prems(1) by (simp add: hunk_wf_def)
  have eq: "drop n src = gap @ old_lines h @ rest" using patched_hunk.prems(2) by simp
  have len: "length src = n + length gap + length (old_lines h) + length rest"
    using arg_cong [OF eq, of length] patched_hunk.prems(3) by simp
  have ds: "drop start src = old_lines h @ rest"
    using arg_cong [OF eq, of "drop (length gap)"] by (simp add: start_def add.commute)
  have gap: "drop n (take start src) = gap"
    using arg_cong [OF eq, of "take (length gap)"] by (simp add: start_def drop_take)
  have al: "apply_lines src (h_lines h) start o' =
      Inr (start + length (old_lines h), o' @ concat (new_lines h))" for o'
    using apply_lines_eq [OF wf, of start src o'] ds len
    by (simp add: start_def old_lines_def new_lines_def)
  have rest: "rest = drop (start + length (old_lines h)) src"
    using arg_cong [OF ds, of "drop (length (old_lines h))"] by (simp add: add.commute)
  obtain pos' out' where r: "apply_hunks src hs (start + length (old_lines h))
        ((out @ concat gap) @ concat (new_lines h)) = Inr (pos', out')"
      "out' @ concat (drop pos' src) = ((out @ concat gap) @ concat (new_lines h)) @ concat res"
    using patched_hunk.IH [OF _ rest [unfolded start_def], of "(out @ concat gap) @ concat (new_lines h)"]
      patched_hunk.prems(1) len
    by (auto simp: start_def)
  have hs: "nat (hunk_start h) = start" "\<not> hunk_start h < int n" "\<not> hunk_start h > int (length src)"
    using patched_hunk.hyps(1) len by (auto simp: start_def)
  show ?case using r hs al gap by (simp add: Let_def)
qed simp

lemma Apply_patched:
  assumes "hunks_wf (f_Hunks f)"
  shows "Apply f old = Inr new \<longleftrightarrow> (\<exists>out. patched 0 (f_Hunks f) (fileLines old) out \<and> new = concat out)"
proof
  assume "Apply f old = Inr new"
  then obtain pos out where a: "apply_hunks (fileLines old) (f_Hunks f) 0 [] = Inr (pos, out)"
      "new = out @ concat (drop pos (fileLines old))"
    by (auto simp: Apply_def split: sum.splits)
  then show "\<exists>out. patched 0 (f_Hunks f) (fileLines old) out \<and> new = concat out"
    using apply_hunks_sound [OF a(1)] assms by (auto simp: hunks_wf_def)
next
  assume "\<exists>out. patched 0 (f_Hunks f) (fileLines old) out \<and> new = concat out"
  then obtain out where out: "patched 0 (f_Hunks f) (fileLines old) out" "new = concat out" by blast
  obtain pos' out' where "apply_hunks (fileLines old) (f_Hunks f) 0 [] = Inr (pos', out')"
      "out' @ concat (drop pos' (fileLines old)) = concat out"
    using apply_hunks_complete [OF out(1), of "fileLines old" "[]"] assms by (auto simp: hunks_wf_def)
  then show "Apply f old = Inr new" using out(2) by (simp add: Apply_def)
qed

subsection \<open>Turning an edit around\<close>

text \<open>
  The header numbers of the hunks agree: each hunk's new start is its old start moved by the lines the
  hunks before it added less the ones they removed, as \<open>diff -u\<close> writes them. \<open>Apply\<close> itself reads
  only the old numbers.
\<close>

fun numbered :: "int \<Rightarrow> Hunk list \<Rightarrow> bool" where
  "numbered d [] \<longleftrightarrow> True"
| "numbered d (h # hs) \<longleftrightarrow>
     hunk_start (reversed_hunk h) = hunk_start h + d \<and> numbered (d + NewCount h - OldCount h) hs"

lemma reversed_line_bytes [simp]: "line_bytes (reversed_line l) = line_bytes l"
  by (simp add: line_bytes_def reversed_line_def)

lemma reversed_sides:
  "list_all line_wf ls \<Longrightarrow>
     old_side (map reversed_line ls) = map reversed_line (new_side ls)
     \<and> new_side (map reversed_line ls) = map reversed_line (old_side ls)
     \<and> list_all line_wf (map reversed_line ls)"
  by (induction ls) (auto simp: old_side_def new_side_def reversed_line_def line_wf_def)

lemma reversed_hunk_lines:
  "hunk_wf h \<Longrightarrow> old_lines (reversed_hunk h) = new_lines h \<and> new_lines (reversed_hunk h) = old_lines h"
  using reversed_sides [of "h_lines h"]
  by (auto simp: hunk_wf_def old_lines_def new_lines_def reversed_hunk_def)

lemma reversed_hunk_wf: "hunk_wf h \<Longrightarrow> hunk_wf (reversed_hunk h)"
  using reversed_sides [of "h_lines h"] by (auto simp: hunk_wf_def reversed_hunk_def)

lemma patched_reversed:
  "patched n hs src out \<Longrightarrow> list_all hunk_wf hs \<Longrightarrow> numbered (int m - int n) hs
    \<Longrightarrow> patched m (map reversed_hunk hs) out src"
proof (induction arbitrary: m rule: patched.induct)
  case (patched_done n rest)
  then show ?case by (simp add: patched.patched_done)
next
  case (patched_hunk h n gap hs rest out)
  have wf: "hunk_wf h" using patched_hunk.prems(1) by simp
  have len: "int (length (old_lines h)) = OldCount h" "int (length (new_lines h)) = NewCount h"
    using wf by (simp_all add: hunk_wf_def old_lines_def new_lines_def)
  let ?m = "m + length gap + length (new_lines h)"
  have "int ?m - int (n + length gap + length (old_lines h)) = int m - int n + NewCount h - OldCount h"
    using len by simp
  then have "numbered (int ?m - int (n + length gap + length (old_lines h))) hs"
    using patched_hunk.prems(2) by (simp only: numbered.simps)
  then have "patched ?m (map reversed_hunk hs) out rest"
    using patched_hunk.prems(1) by (intro patched_hunk.IH) simp_all
  moreover have "hunk_start (reversed_hunk h) = int (m + length gap)"
    using patched_hunk.hyps(1) patched_hunk.prems(2) by simp
  ultimately have "patched m (reversed_hunk h # map reversed_hunk hs)
      (gap @ old_lines (reversed_hunk h) @ out) (gap @ new_lines (reversed_hunk h) @ rest)"
    using reversed_hunk_lines [OF wf] by (intro patched.patched_hunk) simp_all
  then show ?case using reversed_hunk_lines [OF wf] by simp
qed

text \<open>Application only needs the hunks to be well formed one by one.\<close>

lemma Apply_hunk_wf:
  assumes "list_all hunk_wf (f_Hunks f)" "patched 0 (f_Hunks f) (fileLines old) out"
  shows "Apply f old = Inr (concat out)"
proof -
  obtain pos' out' where "apply_hunks (fileLines old) (f_Hunks f) 0 [] = Inr (pos', out')"
      "out' @ concat (drop pos' (fileLines old)) = concat out"
    using apply_hunks_complete [OF assms(2,1), of "fileLines old" "[]"] by auto
  then show ?thesis by (simp add: Apply_def)
qed

text \<open>
  (C10) Applying the well-formed hunks of a parsed diff succeeds exactly when the file splits into kept
  text and the hunks' old sides at the lines the headers name, and then yields the same kept text
  with each old side replaced by the new one, byte for byte.
\<close>

theorem Apply_specification:
  assumes "hunks_wf (f_Hunks f)"
  shows "Apply f old = Inr new \<longleftrightarrow> (\<exists>out. patched 0 (f_Hunks f) (fileLines old) out \<and> new = concat out)"
  by (rule Apply_patched [OF assms])

theorem Apply_specification_witness:
  "hunks_wf (f_Hunks sample_file)
   \<and> (\<exists>out. patched 0 (f_Hunks sample_file) (fileLines (''k'' @ [LF] @ ''o'' @ [LF])) out
        \<and> ''k'' @ [LF] @ ''n'' @ [LF] = concat out)"
proof -
  have wf: "hunks_wf (f_Hunks sample_file)" by code_simp
  have "Apply sample_file (''k'' @ [LF] @ ''o'' @ [LF]) = Inr (''k'' @ [LF] @ ''n'' @ [LF])" by code_simp
  then show ?thesis using Apply_specification [OF wf] wf by blast
qed

text \<open>
  (C35) A patch that was applied is recognised as applied and can be taken back: for well-formed hunks
  whose new-side starts are the old ones moved by what the hunks before them added (\<open>numbered\<close>, which
  reading a patch does not check), and whose result is a list of lines (\<open>line_list\<close>: only the last one may
  lack its line feed), applying the edit, then the reversed edit, gives the first bytes again, and
  \<open>AppliedTo\<close> answers yes on the result (for a creation: when it created the file). Conversely \<open>AppliedTo\<close> answers yes only on bytes the edit yields from some source.
\<close>

theorem Apply_round_trip:
  assumes "hunks_wf (f_Hunks f)" and "numbered 0 (f_Hunks f)"
    and "patched 0 (f_Hunks f) (fileLines old) ls" and "line_list ls"
  shows "Apply f old = Inr (concat ls)
    \<and> Apply (reversed f) (concat ls) = Inr old
    \<and> (AppliedTo f (concat ls) \<longleftrightarrow> \<not> (f_Create f \<and> old \<noteq> []))
    \<and> (\<forall>cur. AppliedTo f cur \<longrightarrow> (\<exists>prior. Apply f prior = Inr cur))"
proof -
  have hw: "list_all hunk_wf (f_Hunks f)" using assms(1) by (simp add: hunks_wf_def)
  have fwd: "Apply f old = Inr (concat ls)" by (rule Apply_hunk_wf [OF hw assms(3)])
  have "patched 0 (map reversed_hunk (f_Hunks f)) ls (fileLines old)"
    using patched_reversed [OF assms(3) hw, of 0] assms(2) by simp
  moreover have "list_all hunk_wf (map reversed_hunk (f_Hunks f))"
    using hw reversed_hunk_wf by (auto simp: list_all_iff)
  ultimately have undo: "Apply (reversed f) (concat ls) = Inr old"
    using Apply_hunk_wf [of "reversed f" "concat ls" "fileLines old"] fileLines_concat [OF assms(4)]
    by (simp add: reversed_def emptyFile_def concat_fileLines)
  have "\<exists>prior. Apply f prior = Inr cur" if "AppliedTo f cur" for cur
    using that by (auto simp: AppliedTo_def split: sum.splits if_splits)
  then show ?thesis using fwd undo by (auto simp: AppliedTo_def)
qed

theorem Apply_round_trip_witness:
  "Apply (reversed sample_file) (''k'' @ [LF] @ ''n'' @ [LF]) = Inr (''k'' @ [LF] @ ''o'' @ [LF])
   \<and> AppliedTo sample_file (''k'' @ [LF] @ ''n'' @ [LF])"
proof -
  let ?ls = "[''k'' @ [LF], ''n'' @ [LF] ]"
  have wf: "hunks_wf (f_Hunks sample_file)" and num: "numbered 0 (f_Hunks sample_file)" and l: "line_list ?ls"
    and fl: "fileLines (''k'' @ [LF] @ ''o'' @ [LF]) = [''k'' @ [LF], ''o'' @ [LF] ]"
    by code_simp+
  have p: "patched 0 (f_Hunks sample_file) (fileLines (''k'' @ [LF] @ ''o'' @ [LF])) ?ls"
    using patched_hunk [of "hd (f_Hunks sample_file)" 0 "[]" "[]" "[]" "[]"] patched_done
    unfolding fl
    by (simp add: sample_file_def hunk_start_def old_lines_def new_lines_def old_side_def new_side_def line_bytes_def)
  show ?thesis using Apply_round_trip [OF wf num p l] by (simp add: sample_file_def)
qed

end
