(* ===== verification/Exclusion.thy ===== *)
theory Exclusion
  imports Go_Std
begin

text \<open>
  What two coordinators of shared state have in common: a symmetric conflict relation between claims,
  lists of claims that hold at the same time, and paths that overlap when one lies beneath the other.
  \<open>internal/resource\<close> and \<open>internal/publish\<close> each provide an instance of the interface.
\<close>

definition pairwise_free :: "('c \<Rightarrow> 'c \<Rightarrow> bool) \<Rightarrow> 'c list \<Rightarrow> bool" where
  "pairwise_free conf xs = sorted_wrt (\<lambda>a b. \<not> conf a b) xs"

locale exclusion =
  fixes conf :: "'c \<Rightarrow> 'c \<Rightarrow> bool"
  assumes conf_sym: "conf a b \<longleftrightarrow> conf b a"
begin

lemma free_Nil: "pairwise_free conf []"
  by (simp add: pairwise_free_def)

lemma free_snoc:
  "pairwise_free conf (xs @ [y]) \<longleftrightarrow> pairwise_free conf xs \<and> \<not> list_ex (\<lambda>x. conf x y) xs"
  by (auto simp: pairwise_free_def sorted_wrt_append list_ex_iff)

lemma free_filter: "pairwise_free conf xs \<Longrightarrow> pairwise_free conf (filter P xs)"
  by (simp add: pairwise_free_def sorted_wrt_filter)

lemma free_distinct_positions:
  "pairwise_free conf xs \<Longrightarrow> i < length xs \<Longrightarrow> j < length xs \<Longrightarrow> i \<noteq> j \<Longrightarrow> \<not> conf (xs ! i) (xs ! j)"
  using conf_sym by (cases i j rule: linorder_cases) (auto simp: pairwise_free_def sorted_wrt_iff_nth_less)

lemma free_members:
  "pairwise_free conf xs \<Longrightarrow> a \<in> set xs \<Longrightarrow> b \<in> set xs \<Longrightarrow> a \<noteq> b \<Longrightarrow> \<not> conf a b"
  using free_distinct_positions by (metis in_set_conv_nth)

end

subsection \<open>Path overlap\<close>

text \<open>A clean absolute path is a slash before its elements; the root has none.\<close>

definition abs_path :: "gostring list \<Rightarrow> gostring" where
  "abs_path cs = CHR ''/'' # join ''/'' cs"

lemma join_inject:
  assumes "list_all plain_name xs" "list_all plain_name ys" "join ''/'' xs = join ''/'' ys"
  shows "xs = ys"
proof -
  have split: "split_on (CHR ''/'') (join ''/'' zs) = zs" if "list_all plain_name zs" "zs \<noteq> []" for zs
    using that by (intro split_on_join) (auto simp: list_all_iff plain_name_def)
  have nil: "join ''/'' zs = [] \<longleftrightarrow> zs = []" if "list_all plain_name zs" for zs
    using that by (cases zs; cases "tl zs") (auto simp: plain_name_def)
  show ?thesis using split [of xs] split [of ys] nil [of xs] nil [of ys] assms by (cases "xs = []") auto
qed

lemma abs_path_inject: "list_all plain_name xs \<Longrightarrow> list_all plain_name ys \<Longrightarrow> abs_path xs = abs_path ys \<longleftrightarrow> xs = ys"
  by (auto simp: abs_path_def dest: join_inject)

lemma join_append: "xs \<noteq> [] \<Longrightarrow> ys \<noteq> [] \<Longrightarrow> join sep (xs @ ys) = join sep xs @ sep @ join sep ys"
proof (induction xs)
  case (Cons x xs)
  then show ?case by (cases "xs = []") (simp_all add: join_Cons)
qed simp

text \<open>A path beneath a directory: the directory, a slash, and more.\<close>

lemma join_prefix_iff:
  assumes "list_all plain_name xs" "list_all plain_name ys" "xs \<noteq> []"
  shows "has_prefix (join ''/'' ys) (join ''/'' xs @ ''/'') \<longleftrightarrow> (\<exists>z zs. ys = xs @ z # zs)"
proof
  assume "has_prefix (join ''/'' ys) (join ''/'' xs @ ''/'')"
  then obtain t where t: "join ''/'' ys = join ''/'' xs @ CHR ''/'' # t" by (auto simp: has_prefix_iff)
  have xs: "split_on (CHR ''/'') (join ''/'' xs @ CHR ''/'' # t) = xs @ split_on (CHR ''/'') t"
    using assms(1,3)
  proof (induction xs)
    case (Cons x xs)
    then show ?case
      by (cases "xs = []") (auto simp: join_Cons plain_name_def split_on_append_sep)
  qed simp
  have "ys \<noteq> []" using t by auto
  then have "split_on (CHR ''/'') (join ''/'' ys) = ys"
    using assms(2) by (intro split_on_join) (auto simp: list_all_iff plain_name_def)
  then have "ys = xs @ split_on (CHR ''/'') t" using t xs by simp
  then show "\<exists>z zs. ys = xs @ z # zs" by (cases "split_on (CHR ''/'') t") auto
next
  assume "\<exists>z zs. ys = xs @ z # zs"
  then obtain z zs where "ys = xs @ z # zs" by blast
  then have "join ''/'' ys = (join ''/'' xs @ ''/'') @ join ''/'' (z # zs)"
    using assms(3) join_append [of xs "z # zs" "''/''"] by simp
  then show "has_prefix (join ''/'' ys) (join ''/'' xs @ ''/'')" by (metis has_prefix_append)
qed

text \<open>
  Both packages test for a proper ancestor by putting one slash after the directory, which the root
  has already.
\<close>

definition dir_slash :: "gostring \<Rightarrow> gostring" where
  "dir_slash dir = (if has_suffix dir ''/'' then dir else dir @ ''/'')"

lemma trim_suffix_slash: "trim_suffix dir ''/'' @ ''/'' = dir_slash dir"
  by (auto simp: dir_slash_def trim_suffix_def has_suffix_iff)

lemma abs_path_slash:
  assumes "list_all plain_name xs"
  shows "dir_slash (abs_path xs) = (if xs = [] then ''/'' else abs_path xs @ ''/'')"
proof (cases xs rule: rev_cases)
  case (snoc init l)
  have last: "last (join ''/'' xs) = last l" if "l \<noteq> []"
    using that snoc by (cases "init = []") (simp_all add: join_append)
  have "l \<noteq> []" "CHR ''/'' \<notin> set l" using assms snoc by (auto simp: plain_name_def)
  then have "last l \<noteq> CHR ''/''" by (metis last_in_set)
  moreover have "join ''/'' xs \<noteq> []" using assms snoc \<open>l \<noteq> []\<close> by (cases "init = []") (auto simp: join_append)
  ultimately show ?thesis using last \<open>l \<noteq> []\<close> snoc
    by (auto simp: dir_slash_def abs_path_def has_suffix_iff) (metis last.simps last_snoc snoc_eq_iff_butlast)
qed (simp add: dir_slash_def abs_path_def has_suffix_def)

lemma beneath_iff:
  assumes "list_all plain_name xs" "list_all plain_name ys"
  shows "has_prefix (abs_path ys) (dir_slash (abs_path xs)) \<and> (xs = [] \<longrightarrow> ys \<noteq> []) \<longleftrightarrow> (\<exists>z zs. ys = xs @ z # zs)"
proof (cases "xs = []")
  case True
  have "dir_slash (abs_path []) = ''/''" using abs_path_slash [of "[]"] by simp
  then show ?thesis using True by (cases ys) (auto simp: abs_path_def)
next
  case False
  have "has_prefix (abs_path ys) (abs_path xs @ ''/'') = has_prefix (join ''/'' ys) (join ''/'' xs @ ''/'')"
    by (simp add: abs_path_def)
  then show ?thesis using False join_prefix_iff [OF assms False] assms(1) by (simp add: abs_path_slash)
qed

end
