(* ===== verification/Resource.thy ===== *)
theory Resource
  imports Exclusion
begin

text \<open>
  Names of shared state and their identity (\<open>internal/resource/resource.go\<close>). Reading symbolic links
  (\<open>filepath.EvalSymlinks\<close>, the \<open>resolver\<close>'s field) is a parameter.
\<close>

subsection \<open>Resources and keys\<close>

datatype Resource = fsResource (res_path: gostring) | logicalResource (res_name: gostring)

datatype space = spaceFS | spaceLogical

record Key =
  k_space :: space
  k_name :: gostring

datatype resource_error = ErrInvalid | ErrNested | ErrEval nat | ErrContext

text \<open>\<open>strings.TrimSpace\<close>: the encodings of the runes \<open>unicode.IsSpace\<close> accepts, stripped at both ends.\<close>

definition space_runes :: "rune list" where
  "space_runes = [0x09, 0x0A, 0x0B, 0x0C, 0x0D, 0x20, 0x85, 0xA0, 0x1680, 0x2000, 0x2001, 0x2002, 0x2003,
     0x2004, 0x2005, 0x2006, 0x2007, 0x2008, 0x2009, 0x200A, 0x2028, 0x2029, 0x202F, 0x205F, 0x3000]"

definition space_texts :: "gostring list" where
  "space_texts = map encode_rune space_runes"

definition leading :: "gostring list \<Rightarrow> gostring \<Rightarrow> gostring option" where
  "leading texts s = find (\<lambda>t. t \<noteq> [] \<and> has_prefix s t) texts"

function strip_leading :: "gostring list \<Rightarrow> gostring \<Rightarrow> gostring" where
  "strip_leading texts s =
     (case leading texts s of None \<Rightarrow> s | Some t \<Rightarrow> strip_leading texts (drop (length t) s))"
  by pat_completeness auto
termination
  by (relation "measure (\<lambda>(t, s). length s)")
    (auto simp: leading_def find_Some_iff has_prefix_iff)

declare strip_leading.simps [simp del]

definition TrimSpace :: "gostring \<Rightarrow> gostring" where
  "TrimSpace s = rev (strip_leading (map rev space_texts) (rev (strip_leading space_texts s)))"

definition Label :: "Resource \<Rightarrow> gostring" where
  "Label r = (case r of fsResource p \<Rightarrow> p | logicalResource n \<Rightarrow> TrimSpace n)"

subsection \<open>Overlap\<close>

definition isAncestor :: "gostring \<Rightarrow> gostring \<Rightarrow> bool" where
  "isAncestor dir path =
     (let dir' = (if \<not> has_suffix dir ''/'' then dir @ ''/'' else dir) in has_prefix path dir')"

definition overlaps :: "Key \<Rightarrow> Key \<Rightarrow> bool" where
  "overlaps k o' =
     (if k_space k \<noteq> k_space o' then False
      else if k_name k = k_name o' then True
      else k_space k = spaceFS \<and> (isAncestor (k_name k) (k_name o') \<or> isAncestor (k_name o') (k_name k)))"

interpretation key_overlap: exclusion overlaps
  by unfold_locales (auto simp: overlaps_def)

lemma overlaps_refl [simp]: "overlaps k k"
  by (simp add: overlaps_def)

lemma isAncestor_dir_slash: "isAncestor dir path = has_prefix path (dir_slash dir)"
  by (simp add: isAncestor_def dir_slash_def Let_def)

text \<open>
  Claims on two canonical paths overlap exactly when one path's elements are an initial part of
  the other's: a directory overlaps everything beneath it and nothing beside it (\<open>/repo/a\<close> does not
  claim \<open>/repo/ab\<close>), the root overlaps every path, and a logical name overlaps no path and no other
  name.
\<close>

theorem overlaps_subtree:
  assumes "list_all plain_name xs" and "list_all plain_name ys"
  shows "(overlaps \<lparr>k_space = spaceFS, k_name = abs_path xs\<rparr> \<lparr>k_space = spaceFS, k_name = abs_path ys\<rparr>
      \<longleftrightarrow> prefix xs ys \<or> prefix ys xs)
    \<and> (overlaps \<lparr>k_space = spaceLogical, k_name = n\<rparr> \<lparr>k_space = sp, k_name = m\<rparr>
      \<longleftrightarrow> sp = spaceLogical \<and> n = m)"
proof -
  have "isAncestor (abs_path a) (abs_path b) \<longleftrightarrow> (\<exists>z zs. b = a @ z # zs) \<or> (a = [] \<and> b = [])"
    if "list_all plain_name a" "list_all plain_name b" for a b
    using beneath_iff [OF that] that by (cases "b = []") (auto simp: isAncestor_dir_slash abs_path_def
        dir_slash_def has_suffix_def)
  from this [OF assms] this [OF assms(2,1)] abs_path_inject [OF assms]
  have "overlaps \<lparr>k_space = spaceFS, k_name = abs_path xs\<rparr> \<lparr>k_space = spaceFS, k_name = abs_path ys\<rparr>
      \<longleftrightarrow> prefix xs ys \<or> prefix ys xs"
    by (auto simp: overlaps_def prefix_def neq_Nil_conv)
  then show ?thesis by (auto simp: overlaps_def)
qed

subsection \<open>Resolution\<close>

text \<open>What \<open>EvalSymlinks\<close> may answer: a path, \<open>fs.ErrNotExist\<close>, or another error.\<close>

datatype eval_result = Resolved gostring | NotExist | EvalFailed nat

type_synonym resolver = "gostring \<Rightarrow> eval_result"

text \<open>
  The loop of \<open>canonicalPath\<close>. \<open>existing\<close> is a clean absolute path, kept as its elements \<open>cs\<close>:
  \<open>filepath.Dir\<close> drops the last one, \<open>filepath.Base\<close> is the last one, and \<open>parent == existing\<close> holds at
  the root alone.
\<close>

function canonical_loop :: "resolver \<Rightarrow> gostring \<Rightarrow> gostring list \<Rightarrow> gostring \<Rightarrow> resource_error + gostring" where
  "canonical_loop ev path cs tail =
     (case ev (abs_path cs) of
        Resolved r \<Rightarrow> Inr (Join r tail)
      | EvalFailed e \<Rightarrow> Inl (ErrEval e)
      | NotExist \<Rightarrow>
          if cs = [] then Inr path
          else canonical_loop ev path (butlast cs) (Join (last cs) tail))"
  by pat_completeness auto
termination
  by (relation "measure (\<lambda>(ev, p, cs, t). length cs)") auto

declare canonical_loop.simps [simp del]

definition canonicalPath :: "resolver \<Rightarrow> gostring \<Rightarrow> resource_error + gostring" where
  "canonicalPath ev path = canonical_loop ev path (clean_parts path) ''''"

definition resolveFS :: "resolver \<Rightarrow> gostring \<Rightarrow> gostring \<Rightarrow> resource_error + Key" where
  "resolveFS ev path workspace =
     (if path = '''' then Inl ErrInvalid
      else if \<not> IsAbs path \<and> \<not> IsAbs workspace then Inl ErrInvalid
      else
        (let path' = (if \<not> IsAbs path then Join workspace path else path)
         in case canonicalPath ev (Clean path') of
              Inl e \<Rightarrow> Inl e
            | Inr canonical \<Rightarrow> Inr \<lparr>k_space = spaceFS, k_name = canonical\<rparr>))"

definition Resolve :: "resolver \<Rightarrow> Resource \<Rightarrow> gostring \<Rightarrow> resource_error + Key" where
  "Resolve ev r workspace =
     (case r of
        fsResource path \<Rightarrow> resolveFS ev path workspace
      | logicalResource n \<Rightarrow>
          (let name = TrimSpace n
           in if name = '''' then Inl ErrInvalid else Inr \<lparr>k_space = spaceLogical, k_name = name\<rparr>))"

text \<open>Cleaning a clean absolute path keeps its elements.\<close>

lemma foldl_clean_plain:
  "list_all plain_name cs \<Longrightarrow> foldl (clean_step r) out cs = out @ cs"
  by (induction cs arbitrary: out) (auto simp: clean_step_def plain_name_def)

lemma clean_parts_plain:
  "list_all plain_name cs \<Longrightarrow> cs \<noteq> [] \<Longrightarrow> clean_parts (join ''/'' cs) = cs"
  using foldl_clean_plain [of cs] split_on_join [of cs "CHR ''/''"]
  by (auto simp: clean_parts_def list_all_iff plain_name_def)

lemma clean_step_empty [simp]: "clean_step r out '''' = out"
  by (simp add: clean_step_def)

lemma clean_parts_abs_path:
  assumes "list_all plain_name cs"
  shows "clean_parts (abs_path cs) = cs"
proof (cases "cs = []")
  case True
  then show ?thesis by (simp add: clean_parts_def abs_path_def)
next
  case False
  then have "split_on (CHR ''/'') (join ''/'' cs) = cs"
    using assms by (intro split_on_join) (auto simp: list_all_iff plain_name_def)
  then show ?thesis using foldl_clean_plain [OF assms] by (simp add: clean_parts_def abs_path_def)
qed

lemma Clean_abs_path: "list_all plain_name cs \<Longrightarrow> Clean (abs_path cs) = abs_path cs"
  using clean_parts_abs_path [of cs] by (simp add: Clean_def IsAbs_def) (simp add: abs_path_def)

lemma clean_parts_snoc_slash:
  assumes "IsAbs p"
  shows "clean_parts (p @ ''/'' @ join ''/'' ds) =
    foldl (clean_step True) (clean_parts p) (split_on (CHR ''/'') (join ''/'' ds))"
proof -
  have sp: "split_on c (a @ c # b) = split_on c a @ split_on c b" for c :: char and a b
    by (induction a) (auto split: list.splits)
  have "IsAbs (p @ ''/'' @ join ''/'' ds)" using assms by (auto simp: IsAbs_def has_prefix_iff)
  then show ?thesis using assms sp by (simp add: clean_parts_def)
qed

lemma Join_abs:
  assumes "list_all plain_name rs" "list_all plain_name ds"
  shows "Join (abs_path rs) (join ''/'' ds) = abs_path (rs @ ds)"
proof -
  have "clean_parts (abs_path rs @ ''/'' @ join ''/'' ds) = rs @ ds"
  proof (cases "ds = []")
    case True
    then show ?thesis using clean_parts_snoc_slash [of "abs_path rs" ds] clean_parts_abs_path [OF assms(1)]
      by (simp add: abs_path_def IsAbs_def)
  next
    case False
    then have "split_on (CHR ''/'') (join ''/'' ds) = ds"
      using assms(2) by (intro split_on_join) (auto simp: list_all_iff plain_name_def)
    then show ?thesis
      using clean_parts_snoc_slash [of "abs_path rs" ds] clean_parts_abs_path [OF assms(1)] foldl_clean_plain [OF assms(2)]
      by (simp add: abs_path_def IsAbs_def)
  qed
  then show ?thesis by (simp add: Join_def Clean_def IsAbs_def abs_path_def)
qed

lemma Join_rel:
  assumes "plain_name c" "list_all plain_name ds"
  shows "Join c (join ''/'' ds) = join ''/'' (c # ds)"
proof -
  have c: "c \<noteq> ''''" "\<not> IsAbs (c @ t)" for t
    using assms(1) by (cases c; auto simp: plain_name_def IsAbs_def has_prefix_iff)+
  have split: "split_on (CHR ''/'') (c @ CHR ''/'' # join ''/'' ds) = c # split_on (CHR ''/'') (join ''/'' ds)"
    using assms(1) by (intro split_on_append_sep) (simp add: plain_name_def)
  have "clean_parts (c @ ''/'' @ join ''/'' ds) = c # ds"
  proof (cases "ds = []")
    case True
    then show ?thesis using split assms(1) by (simp add: clean_parts_def clean_step_def plain_name_def)
  next
    case False
    then have "split_on (CHR ''/'') (join ''/'' ds) = ds"
      using assms(2) by (intro split_on_join) (auto simp: list_all_iff plain_name_def)
    then show ?thesis using split foldl_clean_plain [of "c # ds"] assms by (simp add: clean_parts_def)
  qed
  then show ?thesis using c by (simp add: Join_def Clean_def)
qed

text \<open>The loop looks for the longest prefix that exists and puts the rest behind what it resolves to.\<close>

lemma canonical_loop_prefix:
  "list_all plain_name (cs @ ds) \<Longrightarrow> list_all plain_name ts \<Longrightarrow> ev (abs_path cs) = Resolved (abs_path rs)
    \<Longrightarrow> list_all plain_name rs
    \<Longrightarrow> (\<And>k. 0 < k \<Longrightarrow> k \<le> length ds \<Longrightarrow> ev (abs_path (cs @ take k ds)) = NotExist)
    \<Longrightarrow> canonical_loop ev path (cs @ ds) (join ''/'' ts) = Inr (abs_path (rs @ ds @ ts))"
proof (induction ds arbitrary: ts rule: rev_induct)
  case Nil
  then show ?case by (simp add: canonical_loop.simps [of ev path cs] Join_abs)
next
  case (snoc d ds)
  have "ev (abs_path (cs @ ds @ [d])) = NotExist" using snoc.prems(5) [of "length (ds @ [d])"] by simp
  then have "canonical_loop ev path (cs @ ds @ [d]) (join ''/'' ts)
      = canonical_loop ev path (cs @ ds) (join ''/'' (d # ts))"
    using snoc.prems(1,2) Join_rel [of d ts]
    by (subst canonical_loop.simps) (simp add: butlast_append)
  also have "ev (abs_path (cs @ take k ds)) = NotExist" if "0 < k" "k \<le> length ds" for k
    using snoc.prems(5) [of k] that by simp
  then have "canonical_loop ev path (cs @ ds) (join ''/'' (d # ts)) = Inr (abs_path (rs @ ds @ d # ts))"
    using snoc.prems(1-4) by (intro snoc.IH) auto
  finally show ?case by simp
qed

text \<open>
  A filesystem resource keeps the identity of its longest existing ancestor: if \<open>cs\<close> exists and
  resolves to \<open>rs\<close> and nothing further along the path does, the key is \<open>rs\<close> followed by the rest of the
  path. So a file about to be created is claimed beneath its real parent directory, and every alias
  of that directory gives the same key.
\<close>

theorem resolve_longest_existing:
  assumes "list_all plain_name (cs @ ds)" and "list_all plain_name rs"
    and "ev (abs_path cs) = Resolved (abs_path rs)"
    and "\<And>k. 0 < k \<Longrightarrow> k \<le> length ds \<Longrightarrow> ev (abs_path (cs @ take k ds)) = NotExist"
  shows "Resolve ev (fsResource (abs_path (cs @ ds))) workspace
    = Inr \<lparr>k_space = spaceFS, k_name = abs_path (rs @ ds)\<rparr>"
proof -
  have "canonicalPath ev (abs_path (cs @ ds)) = Inr (abs_path (rs @ ds))"
    using canonical_loop_prefix [of cs ds "[]" ev rs] assms clean_parts_abs_path [OF assms(1)]
    by (simp add: canonicalPath_def)
  then show ?thesis using Clean_abs_path [OF assms(1)]
    by (simp add: Resolve_def resolveFS_def) (simp add: abs_path_def IsAbs_def)
qed

text \<open>An alias: \<open>/tmp\<close> is a link to \<open>/private/tmp\<close>, and \<open>/tmp/new\<close> does not exist yet.\<close>

definition sample_links :: resolver where
  "sample_links p = (if p = ''/tmp'' then Resolved ''/private/tmp'' else if p = ''/'' then Resolved ''/'' else NotExist)"

theorem resolve_longest_existing_witness:
  "Resolve sample_links (fsResource ''/tmp/new'') '''' = Inr \<lparr>k_space = spaceFS, k_name = ''/private/tmp/new''\<rparr>"
proof -
  have "Resolve sample_links (fsResource (abs_path ([''tmp''] @ [''new'']))) ''''
      = Inr \<lparr>k_space = spaceFS, k_name = abs_path ([''private'', ''tmp''] @ [''new''])\<rparr>"
    by (rule resolve_longest_existing)
      (auto simp: sample_links_def abs_path_def plain_name_def le_Suc_eq)
  then show ?thesis by (simp add: abs_path_def)
qed

theorem overlaps_subtree_witness:
  "overlaps \<lparr>k_space = spaceFS, k_name = ''/repo''\<rparr> \<lparr>k_space = spaceFS, k_name = ''/repo/a''\<rparr>
   \<and> \<not> overlaps \<lparr>k_space = spaceFS, k_name = ''/repo/a''\<rparr> \<lparr>k_space = spaceFS, k_name = ''/repo/ab''\<rparr>"
  using overlaps_subtree [of "[''repo'']" "[''repo'', ''a'']"]
    overlaps_subtree [of "[''repo'', ''a'']" "[''repo'', ''ab'']"]
  by (simp add: abs_path_def plain_name_def)

end
