(* ===== verification/Resource_Registry.thy ===== *)
theory Resource_Registry
  imports Resource "HOL-Library.Multiset"
begin

text \<open>
  Granting claims (\<open>internal/resource/registry.go\<close>). A hold is a heap object; its identity is a number,
  so two claims with equal contents stay two holds. Closing a hold's \<open>ready\<close> channel, which a second
  time would panic, appends its number to \<open>rg_ready\<close>; storing \<open>released\<close> adds it to \<open>rg_released\<close>.
  \<open>visits\<close>, a counter for a test, is left out. The registry's mutex makes each operation one step; the
  step relation interleaves them in every order.
\<close>

subsection \<open>Claims\<close>

datatype Mode = Read | Write

record Claim =
  cl_Key :: Key
  cl_Mode :: Mode

definition conflicts :: "Claim \<Rightarrow> Claim \<Rightarrow> bool" where
  "conflicts c o' \<longleftrightarrow> (cl_Mode c = Write \<or> cl_Mode o' = Write) \<and> overlaps (cl_Key c) (cl_Key o')"

record hold =
  h_id :: nat
  h_claim :: Claim

record Registry =
  rg_held :: "hold list"
  rg_queue :: "hold list"
  rg_ready :: "nat list"
  rg_released :: "nat set"

definition NewRegistry :: Registry where
  "NewRegistry = \<lparr>rg_held = [], rg_queue = [], rg_ready = [], rg_released = {}\<rparr>"

definition hold_conflict :: "hold \<Rightarrow> hold \<Rightarrow> bool" where
  "hold_conflict g h = conflicts (h_claim g) (h_claim h)"

interpretation holds: exclusion hold_conflict
  by unfold_locales (auto simp: hold_conflict_def conflicts_def key_overlap.conf_sym)

subsection \<open>Operations\<close>

definition grant :: "Registry \<Rightarrow> hold \<Rightarrow> Registry" where
  "grant r h = r\<lparr>rg_held := rg_held r @ [h], rg_ready := rg_ready r @ [h_id h]\<rparr>"

definition conflictsLocked :: "Registry \<Rightarrow> hold \<Rightarrow> hold list \<Rightarrow> bool" where
  "conflictsLocked r h ahead \<longleftrightarrow>
     list_ex (\<lambda>g. hold_conflict g h) (rg_held r) \<or> list_ex (\<lambda>q. hold_conflict q h) ahead"

definition mayUnblock :: "hold \<Rightarrow> Claim \<Rightarrow> bool" where
  "mayUnblock q released = conflicts (h_claim q) released"

definition admitLocked :: "Registry \<Rightarrow> hold \<Rightarrow> Registry" where
  "admitLocked r h =
     (if conflictsLocked r h (rg_queue r) then r\<lparr>rg_queue := rg_queue r @ [h]\<rparr> else grant r h)"

text \<open>
  The loop of \<open>regrantLocked\<close>: the waiters still to look at, and those that keep waiting. The code
  builds \<open>waiting\<close> in the queue's own storage; it never gets ahead of the element being read.
\<close>

fun regrant_loop :: "Claim option \<Rightarrow> hold list \<Rightarrow> hold list \<Rightarrow> Registry \<Rightarrow> Registry \<times> hold list" where
  "regrant_loop released [] waiting r = (r, waiting)"
| "regrant_loop released (q # qs) waiting r =
     (if (case released of None \<Rightarrow> False | Some c \<Rightarrow> \<not> mayUnblock q c)
      then regrant_loop released qs (waiting @ [q]) r
      else if \<not> conflictsLocked r q waiting then regrant_loop released qs waiting (grant r q)
      else if (case released of None \<Rightarrow> False
               | Some c \<Rightarrow> cl_Mode (h_claim q) = Write \<and> cl_Key (h_claim q) = cl_Key c)
      then (r, waiting @ [q] @ qs)
      else regrant_loop released qs (waiting @ [q]) r)"

definition regrantLocked :: "Registry \<Rightarrow> Claim option \<Rightarrow> Registry" where
  "regrantLocked r released =
     (case regrant_loop released (rg_queue r) [] r of (r', waiting) \<Rightarrow> r'\<lparr>rg_queue := waiting\<rparr>)"

definition grantLocked :: "Registry \<Rightarrow> Registry" where
  "grantLocked r = regrantLocked r None"

definition without :: "hold \<Rightarrow> hold list \<Rightarrow> hold list" where
  "without h hs = filter (\<lambda>g. h_id g \<noteq> h_id h) hs"

definition release :: "Registry \<Rightarrow> hold \<Rightarrow> Registry" where
  "release r h =
     regrantLocked (r\<lparr>rg_released := insert (h_id h) (rg_released r), rg_held := without h (rg_held r)\<rparr>)
       (Some (h_claim h))"

definition abandon :: "Registry \<Rightarrow> hold \<Rightarrow> Registry" where
  "abandon r h =
     grantLocked (r\<lparr>rg_released := insert (h_id h) (rg_released r), rg_queue := without h (rg_queue r),
                    rg_held := without h (rg_held r)\<rparr>)"

definition occupancy :: "Registry \<Rightarrow> nat \<times> nat" where
  "occupancy r = (length (rg_held r), length (rg_queue r))"

text \<open>
  The claim a context carries, and the checks of \<open>HoldResource\<close> before it queues: nested
  acquisition first, whatever the resource, then resolution. \<open>acquire\<close> with an ended context adds
  nothing.
\<close>

record Request =
  rq_Resource :: Resource
  rq_Workspace :: gostring
  rq_Mode :: Mode

definition holding :: "Registry \<Rightarrow> hold option \<Rightarrow> hold option" where
  "holding r ctx = (case ctx of None \<Rightarrow> None | Some h \<Rightarrow> if h_id h \<in> rg_released r then None else Some h)"

definition CheckFree :: "Registry \<Rightarrow> hold option \<Rightarrow> resource_error option" where
  "CheckFree r ctx = (case holding r ctx of Some h \<Rightarrow> Some ErrNested | None \<Rightarrow> None)"

definition acquire_start :: "Registry \<Rightarrow> bool \<Rightarrow> nat \<Rightarrow> Claim \<Rightarrow> resource_error + (Registry \<times> hold)" where
  "acquire_start r ctx_ended i c =
     (if ctx_ended then Inl ErrContext
      else (let h = \<lparr>h_id = i, h_claim = c\<rparr> in Inr (admitLocked r h, h)))"

definition HoldResource_start ::
  "resolver \<Rightarrow> Registry \<Rightarrow> hold option \<Rightarrow> bool \<Rightarrow> Request \<Rightarrow> nat \<Rightarrow> resource_error + (Registry \<times> hold)" where
  "HoldResource_start ev r ctx ctx_ended req i =
     (case CheckFree r ctx of
        Some e \<Rightarrow> Inl e
      | None \<Rightarrow>
         (case Resolve ev (rq_Resource req) (rq_Workspace req) of
            Inl e \<Rightarrow> Inl e
          | Inr key \<Rightarrow> acquire_start r ctx_ended i \<lparr>cl_Key = key, cl_Mode = rq_Mode req\<rparr>))"

subsection \<open>Steps\<close>

definition known_ids :: "Registry \<Rightarrow> nat set" where
  "known_ids r = h_id ` (set (rg_held r) \<union> set (rg_queue r)) \<union> set (rg_ready r) \<union> rg_released r"

inductive step :: "Registry \<Rightarrow> Registry \<Rightarrow> bool" where
  arrive: "h_id h \<notin> known_ids r \<Longrightarrow> step r (admitLocked r h)"
| leave: "h \<in> set (rg_held r) \<Longrightarrow> step r (release r h)"
| give_up: "h \<in> set (rg_held r) \<union> set (rg_queue r) \<Longrightarrow> step r (abandon r h)"

inductive reachable :: "Registry \<Rightarrow> bool" where
  start: "reachable NewRegistry"
| steps: "reachable r \<Longrightarrow> step r r' \<Longrightarrow> reachable r'"

inductive_cases stepE: "step r r'"

subsection \<open>The invariant\<close>

text \<open>Every waiter is blocked by something held or by a waiter ahead of it.\<close>

fun all_blocked :: "Registry \<Rightarrow> hold list \<Rightarrow> hold list \<Rightarrow> bool" where
  "all_blocked r ahead [] \<longleftrightarrow> True"
| "all_blocked r ahead (q # qs) \<longleftrightarrow> conflictsLocked r q ahead \<and> all_blocked r (ahead @ [q]) qs"

definition ids_ok :: "Registry \<Rightarrow> hold list \<Rightarrow> bool" where
  "ids_ok r waiting \<longleftrightarrow>
     distinct (map h_id (rg_held r @ waiting)) \<and> distinct (rg_ready r)
     \<and> h_id ` set (rg_held r) \<subseteq> set (rg_ready r) \<and> h_id ` set waiting \<inter> set (rg_ready r) = {}"

definition registry_inv :: "Registry \<Rightarrow> bool" where
  "registry_inv r \<longleftrightarrow>
     pairwise_free hold_conflict (rg_held r) \<and> all_blocked r [] (rg_queue r) \<and> ids_ok r (rg_queue r)"

lemma all_blocked_append:
  "all_blocked r ahead (xs @ ys) \<longleftrightarrow> all_blocked r ahead xs \<and> all_blocked r (ahead @ xs) ys"
  by (induction xs arbitrary: ahead) auto

lemma conflictsLocked_grant: "conflictsLocked r q ahead \<Longrightarrow> conflictsLocked (grant r h) q ahead"
  by (auto simp: conflictsLocked_def grant_def)

lemma all_blocked_grant: "all_blocked r ahead qs \<Longrightarrow> all_blocked (grant r h) ahead qs"
  by (induction qs arbitrary: ahead) (auto simp: conflictsLocked_grant)

lemma conflictsLocked_move: "conflictsLocked r q (xs @ h # ys) \<Longrightarrow> conflictsLocked (grant r h) q (xs @ ys)"
  by (auto simp: conflictsLocked_def grant_def)

lemma all_blocked_move:
  "all_blocked r (xs @ h # ys) qs \<Longrightarrow> all_blocked (grant r h) (xs @ ys) qs"
proof (induction qs arbitrary: ys)
  case (Cons q qs)
  then show ?case using conflictsLocked_move [of r q xs h ys] Cons.IH [of "ys @ [q]"] by simp
qed simp

lemma free_grant:
  "pairwise_free hold_conflict (rg_held r) \<Longrightarrow> \<not> conflictsLocked r h ahead
    \<Longrightarrow> pairwise_free hold_conflict (rg_held (grant r h))"
  by (simp add: grant_def holds.free_snoc conflictsLocked_def)

subsection \<open>The full scan\<close>

text \<open>What a full scan does: it grants some waiters, in order, and keeps the others, all blocked.\<close>

lemma scan_inv:
  "regrant_loop None qs waiting r = (r', w') \<Longrightarrow> pairwise_free hold_conflict (rg_held r)
    \<Longrightarrow> all_blocked r [] waiting \<Longrightarrow> ids_ok r (waiting @ qs)
    \<Longrightarrow> pairwise_free hold_conflict (rg_held r') \<and> all_blocked r' [] w' \<and> ids_ok r' w'"
proof (induction qs arbitrary: waiting r)
  case (Cons q qs)
  show ?case
  proof (cases "conflictsLocked r q waiting")
    case True
    then show ?thesis using Cons.IH [of "waiting @ [q]" r] Cons.prems by (simp add: all_blocked_append)
  next
    case False
    have "ids_ok (grant r q) (waiting @ qs)"
      using Cons.prems(4) by (auto simp: ids_ok_def grant_def)
    then show ?thesis
      using Cons.IH [of waiting "grant r q"] Cons.prems False free_grant all_blocked_grant by simp
  qed
qed simp

lemma scan_parts:
  "regrant_loop None qs waiting r = (r', w') \<Longrightarrow>
     \<exists>new kept. rg_held r' = rg_held r @ new \<and> w' = waiting @ kept
       \<and> set new \<union> set kept = set qs \<and> subseq kept qs
       \<and> rg_ready r' = rg_ready r @ map h_id new \<and> rg_released r' = rg_released r
       \<and> rg_queue r' = rg_queue r"
proof (induction qs arbitrary: waiting r)
  case (Cons q qs)
  show ?case
  proof (cases "conflictsLocked r q waiting")
    case True
    then obtain new kept where "rg_held r' = rg_held r @ new" "w' = waiting @ [q] @ kept"
        "set new \<union> set kept = set qs" "subseq kept qs" "rg_ready r' = rg_ready r @ map h_id new"
        "rg_released r' = rg_released r" "rg_queue r' = rg_queue r"
      using Cons.IH [of "waiting @ [q]" r] Cons.prems by auto
    then show ?thesis by (intro exI [of _ new] exI [of _ "q # kept"]) auto
  next
    case False
    then obtain new kept where "rg_held r' = rg_held r @ q # new" "w' = waiting @ kept"
        "set new \<union> set kept = set qs" "subseq kept qs" "rg_ready r' = rg_ready r @ h_id q # map h_id new"
        "rg_released r' = rg_released r" "rg_queue r' = rg_queue r"
      using Cons.IH [of waiting "grant r q"] Cons.prems by (auto simp: grant_def)
    then show ?thesis by (intro exI [of _ "q # new"] exI [of _ kept]) auto
  qed
qed simp

subsection \<open>The shortened scan\<close>

text \<open>
  What \<open>regrantLocked\<close> relies on after \<open>released\<close> left: each waiter is still blocked, or it conflicted
  with \<open>released\<close>.
\<close>

fun blocked_or_freed :: "Claim \<Rightarrow> Registry \<Rightarrow> hold list \<Rightarrow> hold list \<Rightarrow> bool" where
  "blocked_or_freed c r ahead [] \<longleftrightarrow> True"
| "blocked_or_freed c r ahead (q # qs) \<longleftrightarrow>
     (conflictsLocked r q ahead \<or> conflicts (h_claim q) c) \<and> blocked_or_freed c r (ahead @ [q]) qs"

lemma blocked_or_freed_move:
  "blocked_or_freed c r (xs @ h # ys) qs \<Longrightarrow> blocked_or_freed c (grant r h) (xs @ ys) qs"
proof (induction qs arbitrary: ys)
  case (Cons q qs)
  then show ?case using conflictsLocked_move [of r q xs h ys] Cons.IH [of "ys @ [q]"] by auto
qed simp

lemma scan_all_blocked: "all_blocked r waiting qs \<Longrightarrow> regrant_loop None qs waiting r = (r, waiting @ qs)"
  by (induction qs arbitrary: waiting) auto

lemma writer_blocks_rest:
  "blocked_or_freed c r ahead qs \<Longrightarrow> w \<in> set ahead \<Longrightarrow> cl_Mode (h_claim w) = Write
    \<Longrightarrow> cl_Key (h_claim w) = cl_Key c \<Longrightarrow> all_blocked r ahead qs"
proof (induction qs arbitrary: ahead)
  case (Cons q qs)
  have "conflictsLocked r q ahead" if "conflicts (h_claim q) c"
  proof -
    have "hold_conflict w q"
      using that Cons.prems(3,4) key_overlap.conf_sym by (simp add: hold_conflict_def conflicts_def)
    then show ?thesis using Cons.prems(2) by (auto simp: conflictsLocked_def list_ex_iff)
  qed
  then show ?case using Cons by auto
qed simp

lemma short_scan_full:
  "blocked_or_freed c r waiting qs \<Longrightarrow> regrant_loop (Some c) qs waiting r = regrant_loop None qs waiting r"
proof (induction qs arbitrary: waiting r)
  case (Cons q qs)
  have keep: "blocked_or_freed c r (waiting @ [q]) qs" using Cons.prems by simp
  show ?case
  proof (cases "conflictsLocked r q waiting")
    case blocked: True
    show ?thesis
    proof (cases "mayUnblock q c \<and> cl_Mode (h_claim q) = Write \<and> cl_Key (h_claim q) = cl_Key c")
      case True
      then have "all_blocked r (waiting @ [q]) qs" using writer_blocks_rest [OF keep, of q] by simp
      then show ?thesis using blocked True scan_all_blocked by simp
    next
      case False
      then show ?thesis using blocked Cons.IH [OF keep] by auto
    qed
  next
    case False
    then have "mayUnblock q c" using Cons.prems by (simp add: mayUnblock_def)
    moreover have "blocked_or_freed c (grant r q) waiting qs"
      using blocked_or_freed_move [of c r waiting q "[]" qs] keep by simp
    ultimately show ?thesis using False Cons.IH by simp
  qed
qed simp

lemma freed_after_leaving:
  assumes "all_blocked r ahead qs" "distinct (map h_id (rg_held r))" "h \<in> set (rg_held r)"
  shows "blocked_or_freed (h_claim h) (r\<lparr>rg_released := d, rg_held := without h (rg_held r)\<rparr>) ahead qs"
  using assms(1)
proof (induction qs arbitrary: ahead)
  case (Cons q qs)
  have "h_id g \<noteq> h_id h \<or> hold_conflict g q \<longrightarrow> g \<in> set (rg_held r) \<longrightarrow> g \<in> set (without h (rg_held r)) \<or> g = h"
    for g using assms(2,3) by (auto simp: without_def dest: distinct_map [THEN iffD1] inj_onD)
  then have "conflictsLocked (r\<lparr>rg_released := d, rg_held := without h (rg_held r)\<rparr>) q ahead
      \<or> conflicts (h_claim q) (h_claim h)"
    using Cons.prems holds.conf_sym [of h q]
    by (auto simp: conflictsLocked_def list_ex_iff hold_conflict_def)
  then show ?case using Cons by simp
qed simp

text \<open>After a release the shortened scan does exactly what a rescan of every waiter would do.\<close>

lemma release_full_scan:
  assumes "registry_inv r" "h \<in> set (rg_held r)"
  shows "release r h =
    grantLocked (r\<lparr>rg_released := insert (h_id h) (rg_released r), rg_held := without h (rg_held r)\<rparr>)"
  using assms freed_after_leaving [of r "[]" "rg_queue r" h "insert (h_id h) (rg_released r)"]
  by (simp add: release_def grantLocked_def regrantLocked_def registry_inv_def ids_ok_def short_scan_full)

lemma distinct_without: "distinct (map h_id (a @ b)) \<Longrightarrow> distinct (map h_id (without h a @ without h b))"
  by (auto simp: without_def distinct_map_filter)

lemma grantLocked_inv:
  assumes "pairwise_free hold_conflict (rg_held r)" "ids_ok r (rg_queue r)"
  shows "registry_inv (grantLocked r)"
proof -
  obtain r' w' where s: "regrant_loop None (rg_queue r) [] r = (r', w')" by fastforce
  have "pairwise_free hold_conflict (rg_held r') \<and> all_blocked r' [] w' \<and> ids_ok r' w'"
    using scan_inv [OF s assms(1)] assms(2) by simp
  moreover have "all_blocked (r'\<lparr>rg_queue := w'\<rparr>) a qs = all_blocked r' a qs" for a qs
    by (induction qs arbitrary: a) (auto simp: conflictsLocked_def)
  ultimately show ?thesis
    by (simp add: grantLocked_def regrantLocked_def s registry_inv_def ids_ok_def)
qed

lemma abandon_inv:
  assumes "registry_inv r"
  shows "registry_inv (abandon r h)"
  unfolding abandon_def
  using assms distinct_without [of "rg_held r" "rg_queue r" h]
  by (intro grantLocked_inv)
    (auto simp: registry_inv_def ids_ok_def without_def intro: holds.free_filter)

lemma without_other: "h_id h \<notin> h_id ` set qs \<Longrightarrow> without h qs = qs"
  unfolding without_def by (rule filter_True) (metis imageI)

lemma release_abandon:
  assumes "registry_inv r" "h \<in> set (rg_held r)"
  shows "release r h = abandon r h"
proof -
  have "without h (rg_queue r) = rg_queue r"
    using assms by (intro without_other) (auto simp: registry_inv_def ids_ok_def)
  then show ?thesis using release_full_scan [OF assms] by (simp add: abandon_def)
qed

lemma admit_inv:
  assumes "registry_inv r" "h_id h \<notin> known_ids r"
  shows "registry_inv (admitLocked r h)"
proof -
  have b: "all_blocked (r\<lparr>rg_queue := qs'\<rparr>) a qs = all_blocked r a qs" for a qs qs'
    by (induction qs arbitrary: a) (auto simp: conflictsLocked_def)
  have q: "rg_queue (grant r h) = rg_queue r" by (simp add: grant_def)
  have "x \<in> set (rg_held r) \<union> set (rg_queue r) \<Longrightarrow> h_id x \<in> known_ids r" for x
    by (auto simp: known_ids_def)
  then have fresh: "h_id h \<notin> h_id ` set (rg_held r)" "h_id h \<notin> h_id ` set (rg_queue r)" "h_id h \<notin> set (rg_ready r)"
    using assms(2) by (auto simp: known_ids_def)
  show ?thesis
  proof (cases "conflictsLocked r h (rg_queue r)")
    case True
    then have "conflictsLocked (r\<lparr>rg_queue := qs'\<rparr>) h (rg_queue r)" for qs'
      by (simp add: conflictsLocked_def)
    then show ?thesis using assms(1) b True fresh
      by (auto simp: admitLocked_def registry_inv_def ids_ok_def all_blocked_append)
  next
    case False
    then have "ids_ok (grant r h) (rg_queue r)"
      using assms(1) fresh by (auto simp: registry_inv_def ids_ok_def grant_def)
    then show ?thesis using False assms(1) free_grant all_blocked_grant q
      by (simp add: admitLocked_def registry_inv_def)
  qed
qed

lemma step_inv: "step r r' \<Longrightarrow> registry_inv r \<Longrightarrow> registry_inv r'"
  by (erule stepE) (auto simp: admit_inv abandon_inv release_abandon)

lemma reachable_inv: "reachable r \<Longrightarrow> registry_inv r"
proof (induction rule: reachable.induct)
  case start
  then show ?case by (simp add: NewRegistry_def registry_inv_def ids_ok_def holds.free_Nil)
qed (use step_inv in blast)

lemma all_blocked_nth: "all_blocked r ahead qs \<Longrightarrow> i < length qs \<Longrightarrow> conflictsLocked r (qs ! i) (ahead @ take i qs)"
proof (induction qs arbitrary: ahead i)
  case (Cons q qs)
  then show ?case by (cases i) (auto dest: Cons.IH)
qed simp

text \<open>
  (C4) In every reachable state of the registry, under any interleaving of arrivals, releases and
  withdrawals: no two held claims conflict (a write excludes every overlapping claim); every waiter is
  blocked by a held claim or by a waiter ahead of it, so nothing waits without cause and an empty
  \<open>held\<close> means an empty queue; no wakeup is lost, for the \<open>ready\<close> channel of every held claim has been
  closed and that of no waiter has; and no \<open>ready\<close> channel is closed twice, which would panic.
\<close>

theorem registry_exclusion:
  assumes "reachable r"
  shows "pairwise_free hold_conflict (rg_held r)
    \<and> (\<forall>i<length (rg_queue r). conflictsLocked r (rg_queue r ! i) (take i (rg_queue r)))
    \<and> (rg_held r = [] \<longrightarrow> rg_queue r = [])
    \<and> h_id ` set (rg_held r) \<subseteq> set (rg_ready r) \<and> h_id ` set (rg_queue r) \<inter> set (rg_ready r) = {}
    \<and> distinct (rg_ready r)"
proof -
  have inv: "registry_inv r" by (rule reachable_inv [OF assms])
  have "rg_queue r = []" if "rg_held r = []"
  proof (cases "rg_queue r")
    case (Cons q qs)
    then show ?thesis using inv that by (simp add: registry_inv_def conflictsLocked_def)
  qed simp
  then show ?thesis
    using inv all_blocked_nth [of r "[]" "rg_queue r"] by (simp add: registry_inv_def ids_ok_def)
qed

text \<open>
  The shortened scan after a release is exact: on every reachable registry, looking only at
  waiters that conflict with the released claim, and stopping at a blocked write on its key, grants
  the same claims in the same order as rescanning the whole queue.
\<close>

theorem release_rescan:
  assumes "reachable r" and "h \<in> set (rg_held r)"
  shows "release r h =
    grantLocked (r\<lparr>rg_released := insert (h_id h) (rg_released r), rg_held := without h (rg_held r)\<rparr>)"
  by (rule release_full_scan [OF reachable_inv [OF assms(1)] assms(2)])

subsection \<open>No starvation\<close>

text \<open>The claims a waiter waits for: the conflicting held ones and all waiters ahead of it.\<close>

definition ahead_of :: "hold \<Rightarrow> hold list \<Rightarrow> hold list" where
  "ahead_of q qs = takeWhile (\<lambda>x. x \<noteq> q) qs"

definition blockers :: "Registry \<Rightarrow> hold \<Rightarrow> hold set" where
  "blockers r q = {g \<in> set (rg_held r). hold_conflict g q} \<union> set (ahead_of q (rg_queue r))"

text \<open>A scan grants nothing past a waiter it keeps and that conflicts with it.\<close>

lemma scan_no_overtake:
  "regrant_loop None qs waiting r = (r', w') \<Longrightarrow> distinct (waiting @ qs) \<Longrightarrow> q \<in> set w'
    \<Longrightarrow> x \<in> set (rg_held r') \<Longrightarrow> x \<notin> set (rg_held r) \<Longrightarrow> hold_conflict x q
    \<Longrightarrow> x \<in> set (ahead_of q (waiting @ qs))"
proof (induction qs arbitrary: waiting r)
  case (Cons y ys)
  show ?case
  proof (cases "conflictsLocked r y waiting")
    case True
    then show ?thesis using Cons.IH [of "waiting @ [y]" r] Cons.prems by simp
  next
    case False
    have g: "regrant_loop None ys waiting (grant r y) = (r', w')" using Cons.prems(1) False by simp
    have kept: "q \<in> set waiting \<or> q \<in> set ys"
      using scan_parts [OF g] Cons.prems(3) by auto
    show ?thesis
    proof (cases "x = y")
      case True
      have "q \<notin> set waiting"
        using False Cons.prems(6) True holds.conf_sym by (auto simp: conflictsLocked_def list_ex_iff)
      moreover from this kept Cons.prems(2) have "q \<noteq> y" by auto
      ultimately show ?thesis using True by (simp add: ahead_of_def takeWhile_append)
    next
      case ne: False
      have "x \<in> set (ahead_of q (waiting @ ys))"
        using Cons.IH [OF g] Cons.prems ne by (simp add: grant_def)
      moreover have "y \<noteq> q" using kept Cons.prems(2) by auto
      ultimately show ?thesis by (auto simp: ahead_of_def takeWhile_append split: if_splits)
    qed
  qed
qed simp

lemma subseq_set: "subseq ks qs \<Longrightarrow> q \<in> set ks \<Longrightarrow> q \<in> set qs"
  by (auto dest: list_emb_set)

lemma subseq_ahead: "subseq ks qs \<Longrightarrow> distinct qs \<Longrightarrow> q \<in> set ks \<Longrightarrow> set (ahead_of q ks) \<subseteq> set (ahead_of q qs)"
proof (induction rule: list_emb.induct)
  case (list_emb_Cons ks qs y)
  have "q \<in> set qs" by (rule subseq_set [OF list_emb_Cons.hyps(1) list_emb_Cons.prems(2)])
  then have "y \<noteq> q" using list_emb_Cons.prems(1) by auto
  moreover have "set (ahead_of q ks) \<subseteq> set (ahead_of q qs)"
    using list_emb_Cons.IH list_emb_Cons.prems by simp
  ultimately show ?case by (auto simp: ahead_of_def)
next
  case (list_emb_Cons2 x y ks qs)
  have "set (ahead_of q ks) \<subseteq> set (ahead_of q qs)" if "x \<noteq> q"
    using list_emb_Cons2.IH list_emb_Cons2.prems that by simp
  then show ?case using list_emb_Cons2.hyps(1) by (auto simp: ahead_of_def)
qed simp

lemma grantLocked_blockers:
  assumes "distinct (rg_queue r)" "q \<in> set (rg_queue (grantLocked r))"
  shows "blockers (grantLocked r) q \<subseteq> blockers r q"
proof -
  obtain r' w' where s: "regrant_loop None (rg_queue r) [] r = (r', w')" by fastforce
  have g: "rg_held (grantLocked r) = rg_held r'" "rg_queue (grantLocked r) = w'"
    by (simp_all add: grantLocked_def regrantLocked_def s)
  have "subseq w' (rg_queue r)" using scan_parts [OF s] by auto
  then have "set (ahead_of q w') \<subseteq> set (ahead_of q (rg_queue r))"
    using subseq_ahead assms g by simp
  moreover have "x \<in> blockers r q" if "x \<in> set (rg_held r')" "hold_conflict x q" for x
    using scan_no_overtake [OF s, of q x] that assms g by (auto simp: blockers_def)
  ultimately show ?thesis by (auto simp: blockers_def g)
qed

lemma blockers_without:
  "q \<in> set (rg_queue r) \<Longrightarrow> h_id q \<noteq> h_id h \<Longrightarrow>
     blockers (r\<lparr>rg_released := d, rg_queue := without h (rg_queue r), rg_held := without h (rg_held r)\<rparr>) q
       \<subseteq> {x \<in> blockers r q. h_id x \<noteq> h_id h}"
proof -
  assume a: "q \<in> set (rg_queue r)" "h_id q \<noteq> h_id h"
  have "set (ahead_of q (without h qs)) \<subseteq> {x \<in> set (ahead_of q qs). h_id x \<noteq> h_id h}" for qs
    using a(2) by (induction qs) (auto simp: ahead_of_def without_def)
  then show ?thesis by (auto simp: blockers_def without_def)
qed

lemma queue_after_scan: "set (rg_queue (grantLocked r)) \<subseteq> set (rg_queue r)"
proof -
  obtain r' w' where s: "regrant_loop None (rg_queue r) [] r = (r', w')" by fastforce
  then show ?thesis using scan_parts [OF s] by (auto simp: grantLocked_def regrantLocked_def)
qed

lemma abandon_blockers:
  assumes "registry_inv r" "q \<in> set (rg_queue (abandon r h))"
  shows "q \<in> set (rg_queue r) \<and> blockers (abandon r h) q \<subseteq> {x \<in> blockers r q. h_id x \<noteq> h_id h}"
proof -
  let ?r = "r\<lparr>rg_released := insert (h_id h) (rg_released r), rg_queue := without h (rg_queue r),
    rg_held := without h (rg_held r)\<rparr>"
  have q: "q \<in> set (without h (rg_queue r))"
    using assms(2) queue_after_scan [of ?r] by (auto simp: abandon_def)
  have "distinct (without h (rg_queue r))"
    using assms(1) by (auto simp: registry_inv_def ids_ok_def without_def distinct_map)
  then have "blockers (abandon r h) q \<subseteq> blockers ?r q"
    using grantLocked_blockers [of ?r q] assms(2) by (simp add: abandon_def)
  then show ?thesis using blockers_without [of q r h "insert (h_id h) (rg_released r)"] q
    by (auto simp: without_def)
qed

text \<open>
  No waiter starves: as long as it waits, what it waits for is a non-empty set that no step of
  the registry enlarges (claims arriving later never pass it if they conflict with it), and that each
  departure of one of its members shrinks. So after as many departures as it had blockers when it
  arrived, it is granted.
\<close>

theorem waiter_progress:
  assumes "reachable r" and "q \<in> set (rg_queue r)"
  shows "blockers r q \<noteq> {}
    \<and> (\<forall>r'. step r r' \<longrightarrow> q \<in> set (rg_queue r') \<longrightarrow> blockers r' q \<subseteq> blockers r q)
    \<and> (\<forall>h \<in> blockers r q. q \<in> set (rg_queue (abandon r h)) \<longrightarrow> blockers (abandon r h) q \<subset> blockers r q)
    \<and> (\<forall>h \<in> set (rg_held r). release r h = abandon r h)"
proof -
  have inv: "registry_inv r" by (rule reachable_inv [OF assms(1)])
  obtain a b where ab: "rg_queue r = a @ q # b" "q \<notin> set a" by (metis assms(2) split_list_first)
  have "ahead_of q (rg_queue r) = a" using ab by (induction a arbitrary: r) (auto simp: ahead_of_def takeWhile_append)
  moreover have "conflictsLocked r q a"
    using inv ab(1) by (simp add: registry_inv_def all_blocked_append)
  ultimately have ne: "blockers r q \<noteq> {}" by (auto simp: blockers_def conflictsLocked_def list_ex_iff)
  have "blockers r' q \<subseteq> blockers r q" if "step r r'" "q \<in> set (rg_queue r')" for r'
    using that(1)
  proof cases
    case (arrive h)
    show ?thesis
    proof (cases "conflictsLocked r h (rg_queue r)")
      case True
      then show ?thesis using arrive assms(2)
        by (auto simp: admitLocked_def blockers_def ahead_of_def takeWhile_append)
    next
      case False
      then have "\<not> hold_conflict h q"
        using assms(2) holds.conf_sym by (auto simp: conflictsLocked_def list_ex_iff)
      then show ?thesis using arrive False by (auto simp: admitLocked_def grant_def blockers_def)
    qed
  next
    case (leave h)
    then show ?thesis using abandon_blockers [OF inv, of q h] release_abandon [OF inv] that(2) by auto
  next
    case (give_up h)
    then show ?thesis using abandon_blockers [OF inv, of q h] that(2) by auto
  qed
  moreover have "blockers (abandon r h) q \<subset> blockers r q"
    if "h \<in> blockers r q" "q \<in> set (rg_queue (abandon r h))" for h
    using abandon_blockers [OF inv that(2)] that(1) by auto
  ultimately show ?thesis using ne release_abandon [OF inv] by blast
qed

subsection \<open>A concrete registry\<close>

text \<open>A write of \<open>/repo\<close> is held; a write of \<open>/repo/a\<close> waits for it.\<close>

definition writer :: "nat \<Rightarrow> gostring \<Rightarrow> hold" where
  "writer i p = \<lparr>h_id = i, h_claim = \<lparr>cl_Key = \<lparr>k_space = spaceFS, k_name = p\<rparr>, cl_Mode = Write\<rparr>\<rparr>"

definition sample_registry :: Registry where
  "sample_registry = admitLocked (admitLocked NewRegistry (writer 0 ''/repo'')) (writer 1 ''/repo/a'')"

lemma sample_registry_value:
  "sample_registry = \<lparr>rg_held = [writer 0 ''/repo''], rg_queue = [writer 1 ''/repo/a''], rg_ready = [0],
     rg_released = {}\<rparr>"
  by (simp add: sample_registry_def NewRegistry_def admitLocked_def conflictsLocked_def grant_def
      hold_conflict_def conflicts_def overlaps_def writer_def isAncestor_def has_suffix_def)

lemma sample_registry_reachable: "reachable sample_registry"
proof -
  have "step NewRegistry (admitLocked NewRegistry (writer 0 ''/repo''))"
    by (rule arrive) (simp add: known_ids_def NewRegistry_def)
  then have "reachable (admitLocked NewRegistry (writer 0 ''/repo''))" by (rule steps [OF start])
  moreover have "step (admitLocked NewRegistry (writer 0 ''/repo'')) sample_registry"
    unfolding sample_registry_def
    by (rule arrive) (simp add: known_ids_def NewRegistry_def admitLocked_def conflictsLocked_def grant_def writer_def)
  ultimately show ?thesis by (rule steps)
qed

theorem registry_exclusion_witness:
  "pairwise_free hold_conflict (rg_held sample_registry) \<and> distinct (rg_ready sample_registry)
   \<and> rg_queue sample_registry = [writer 1 ''/repo/a''] \<and> {0} \<subseteq> set (rg_ready sample_registry)
   \<and> {1} \<inter> set (rg_ready sample_registry) = {}"
  using registry_exclusion [OF sample_registry_reachable] by (simp add: sample_registry_value writer_def)

theorem release_rescan_witness:
  "release sample_registry (writer 0 ''/repo'') =
     grantLocked (sample_registry\<lparr>rg_released := {0}, rg_held := []\<rparr>)"
  using release_rescan [OF sample_registry_reachable, of "writer 0 ''/repo''"]
  by (simp add: sample_registry_value without_def) (simp add: writer_def)

theorem waiter_progress_witness:
  "blockers sample_registry (writer 1 ''/repo/a'') \<noteq> {}
   \<and> release sample_registry (writer 0 ''/repo'') = abandon sample_registry (writer 0 ''/repo'')"
  using waiter_progress [OF sample_registry_reachable, of "writer 1 ''/repo/a''"]
  by (simp add: sample_registry_value)

end
