(* ===== verification/Publish_Commit.thy ===== *)
theory Publish_Commit
  imports Go_Std
begin

text \<open>
  Committing staged content (\<open>internal/publish\<close>: \<open>commit.go\<close>, \<open>stage.go\<close>'s \<open>Discard\<close>, \<open>removeall.go\<close>).
  The modelled file system is the directory that holds the destination: a name maps to a whole file or
  tree, whose content is a number. Every system call may fail, as the environment's oracle says, and
  every state a call leaves is recorded in \<open>w_trace\<close>: the states a crash may leave behind. Deleting a
  tree is not atomic, so it passes through a partly deleted tree. The lock protocol is modelled in
  \<open>Publish_Lock\<close>; here the lock is granted or refused by the environment. Directories above the
  destination's are outside the model.
\<close>

subsection \<open>The file system\<close>

datatype node = Tree nat | Other nat

fun is_tree :: "node \<Rightarrow> bool" where
  "is_tree (Tree _) = True"
| "is_tree (Other _) = False"

type_synonym fs = "gostring \<Rightarrow> node option"

datatype pub_error =
  ENotExist | EExist | ENotDir | EIO | Cancelled | LockFailed | ErrSatisfied | ErrStagedGone | ErrSpent
  | GuardFailed | VerifyFailed | ErrUnrecoverable | NotDirectory | BadDigest | LeaseFailed

datatype syscall = SLstat | SRename | SExchange | SRemove

record world =
  w_fs :: fs
  w_trace :: "fs list"
  w_ops :: nat
  w_draws :: nat

text \<open>
  What a run meets: which calls fail, whether the OS has an atomic exchange and a fault injection
  forbids it, the fresh staging names, and what a half-deleted tree holds.
\<close>

record env =
  e_fails :: "syscall \<Rightarrow> nat \<Rightarrow> bool"
  e_exchange :: bool
  e_allowed :: bool
  e_names :: "nat \<Rightarrow> gostring"
  e_partial :: "nat \<Rightarrow> nat"

text \<open>
  \<open>os.Rename\<close>: a directory is never replaced, a directory never replaces a file, and a file replaces a
  file.
\<close>

definition rename_fs :: "gostring \<Rightarrow> gostring \<Rightarrow> fs \<Rightarrow> pub_error + fs" where
  "rename_fs p q f =
     (case f p of
        None \<Rightarrow> Inl ENotExist
      | Some n \<Rightarrow>
         (case f q of
            Some (Tree _) \<Rightarrow> Inl EExist
          | Some (Other _) \<Rightarrow> if is_tree n then Inl ENotDir else Inr (f(p := None, q := Some n))
          | None \<Rightarrow> Inr (f(p := None, q := Some n))))"

text \<open>The atomic exchange of two entries (\<open>renameat2\<close> with \<open>RENAME_EXCHANGE\<close>, \<open>renamex_np\<close>).\<close>

definition exchange_fs :: "gostring \<Rightarrow> gostring \<Rightarrow> fs \<Rightarrow> pub_error + fs" where
  "exchange_fs p q f =
     (case (f p, f q) of
        (Some a, Some b) \<Rightarrow> Inr (f(p := Some b, q := Some a))
      | _ \<Rightarrow> Inl ENotExist)"

definition tick :: "world \<Rightarrow> world" where
  "tick w = w\<lparr>w_ops := w_ops w + 1\<rparr>"

definition put :: "fs \<Rightarrow> world \<Rightarrow> world" where
  "put f w = w\<lparr>w_fs := f, w_trace := w_trace w @ [f]\<rparr>"

definition perform :: "env \<Rightarrow> syscall \<Rightarrow> (fs \<Rightarrow> pub_error + fs) \<Rightarrow> world \<Rightarrow> pub_error option \<times> world" where
  "perform e k act w =
     (if e_fails e k (w_ops w) then (Some EIO, tick w)
      else case act (w_fs w) of Inl x \<Rightarrow> (Some x, tick w) | Inr f \<Rightarrow> (None, put f (tick w)))"

definition Rename :: "env \<Rightarrow> gostring \<Rightarrow> gostring \<Rightarrow> world \<Rightarrow> pub_error option \<times> world" where
  "Rename e p q w = perform e SRename (rename_fs p q) w"

definition exchange :: "env \<Rightarrow> gostring \<Rightarrow> gostring \<Rightarrow> world \<Rightarrow> pub_error option \<times> world" where
  "exchange e p q w = (if e_exchange e then perform e SExchange (exchange_fs p q) w else (Some EIO, tick w))"

definition Lstat :: "env \<Rightarrow> gostring \<Rightarrow> world \<Rightarrow> (pub_error + node) \<times> world" where
  "Lstat e p w =
     (if e_fails e SLstat (w_ops w) then (Inl EIO, tick w)
      else (case w_fs w p of None \<Rightarrow> Inl ENotExist | Some n \<Rightarrow> Inr n, tick w))"

definition RemoveAll :: "env \<Rightarrow> gostring \<Rightarrow> world \<Rightarrow> pub_error option \<times> world" where
  "RemoveAll e p w =
     (let failed = e_fails e SRemove (w_ops w);
          w' = (case w_fs w p of Some (Tree c) \<Rightarrow> put ((w_fs w)(p := Some (Tree (e_partial e c)))) (tick w)
                | _ \<Rightarrow> tick w)
      in if failed then (Some EIO, w') else (None, put ((w_fs w')(p := None)) w'))"

text \<open>
  \<open>removeAll\<close>: a second attempt after making the directories writable, which changes no content the
  model sees.
\<close>

definition removeAll :: "env \<Rightarrow> gostring \<Rightarrow> world \<Rightarrow> pub_error option \<times> world" where
  "removeAll e p w = (case RemoveAll e p w of (None, w') \<Rightarrow> (None, w') | (Some _, w') \<Rightarrow> RemoveAll e p w')"

definition stagingName :: "env \<Rightarrow> world \<Rightarrow> gostring \<times> world" where
  "stagingName e w = (e_names e (w_draws w), w\<lparr>w_draws := w_draws w + 1\<rparr>)"

subsection \<open>Staged content\<close>

record Staged =
  st_dest :: gostring
  st_temp :: gostring
  st_tree :: bool
  st_spent :: bool
  st_leased :: bool

text \<open>What the guard's callbacks answer on seeing the destination; \<open>None\<close> is a nil error.\<close>

record Guard =
  g_Revalidate :: "node option \<Rightarrow> pub_error option"
  g_Verify :: "node option \<Rightarrow> pub_error option"

definition Discard :: "env \<Rightarrow> Staged \<Rightarrow> world \<Rightarrow> pub_error list \<times> Staged \<times> world" where
  "Discard e s w =
     (if st_spent s then ([], s\<lparr>st_leased := False\<rparr>, w)
      else case RemoveAll e (st_temp s) w of
        (r, w') \<Rightarrow> (case r of None \<Rightarrow> [] | Some x \<Rightarrow> [x], s\<lparr>st_spent := True, st_leased := False\<rparr>, w'))"

definition requireStaged :: "env \<Rightarrow> Staged \<Rightarrow> world \<Rightarrow> pub_error option \<times> world" where
  "requireStaged e s w =
     (case Lstat e (st_temp s) w of
        (Inl ENotExist, w') \<Rightarrow> (Some ErrStagedGone, w')
      | (Inl x, w') \<Rightarrow> (Some x, w')
      | (Inr _, w') \<Rightarrow> (None, w'))"

text \<open>The part of \<open>moveTree\<close> without an exchange: the old entry moves aside, and back when the second rename fails.\<close>

definition move_aside :: "env \<Rightarrow> Staged \<Rightarrow> world \<Rightarrow> (pub_error list + gostring option) \<times> world" where
  "move_aside e s w =
     (case stagingName e w of (aside, w0) \<Rightarrow>
        (case Rename e (st_dest s) aside w0 of
           (Some x, w1) \<Rightarrow> (Inl [x], w1)
         | (None, w1) \<Rightarrow>
            (case Rename e (st_temp s) (st_dest s) w1 of
               (None, w2) \<Rightarrow> (Inr (Some aside), w2)
             | (Some x, w2) \<Rightarrow>
                (case Rename e aside (st_dest s) w2 of
                   (None, w3) \<Rightarrow> (Inl [x], w3)
                 | (Some y, w3) \<Rightarrow> (Inl [x, y], w3)))))"

definition moveTree :: "env \<Rightarrow> Staged \<Rightarrow> world \<Rightarrow> (pub_error list + gostring option) \<times> world" where
  "moveTree e s w =
     (case Lstat e (st_dest s) w of
        (Inl ENotExist, w1) \<Rightarrow>
          (case Rename e (st_temp s) (st_dest s) w1 of
             (None, w2) \<Rightarrow> (Inr None, w2)
           | (Some x, w2) \<Rightarrow> (Inl [x], w2))
      | (Inl x, w1) \<Rightarrow> (Inl [x], w1)
      | (Inr n, w1) \<Rightarrow>
          (if is_tree n \<and> e_allowed e
           then (case exchange e (st_temp s) (st_dest s) w1 of
                   (None, w2) \<Rightarrow> (Inr (Some (st_temp s)), w2)
                 | (Some _, w2) \<Rightarrow> move_aside e s w2)
           else move_aside e s w1))"

definition roll_aside :: "env \<Rightarrow> gostring \<Rightarrow> gostring option \<Rightarrow> world \<Rightarrow> gostring option \<times> pub_error list \<times> world" where
  "roll_aside e dest replaced w =
     (case stagingName e w of (rejected, w0) \<Rightarrow>
        (case Rename e dest rejected w0 of
           (Some x, w1) \<Rightarrow> (None, [x], w1)
         | (None, w1) \<Rightarrow>
            (case replaced of
               None \<Rightarrow> (Some rejected, [], w1)
             | Some r \<Rightarrow>
                (case Rename e r dest w1 of
                   (None, w2) \<Rightarrow> (Some rejected, [], w2)
                 | (Some y, w2) \<Rightarrow> (None, [y], w2)))))"

definition rollBackTree :: "env \<Rightarrow> gostring \<Rightarrow> gostring option \<Rightarrow> world \<Rightarrow> gostring option \<times> pub_error list \<times> world" where
  "rollBackTree e dest replaced w =
     (case replaced of
        None \<Rightarrow> roll_aside e dest replaced w
      | Some r \<Rightarrow>
         (case exchange e r dest w of
            (None, w1) \<Rightarrow> (Some r, [], w1)
          | (Some _, w1) \<Rightarrow> roll_aside e dest replaced w1))"

text \<open>
  \<open>commitLocked\<close>: the entry to delete after release, the joined errors, the staged content's state.
\<close>

definition commitLocked ::
  "env \<Rightarrow> bool \<Rightarrow> Guard \<Rightarrow> Staged \<Rightarrow> world \<Rightarrow> gostring option \<times> pub_error list \<times> Staged \<times> world" where
  "commitLocked e cancelled g s w =
     (if cancelled then (None, [Cancelled], s, w)
      else case requireStaged e s w of
        (Some x, w1) \<Rightarrow> (None, [x], s, w1)
      | (None, w1) \<Rightarrow>
         (case g_Revalidate g (w_fs w1 (st_dest s)) of
            Some x \<Rightarrow> (None, [x], s, w1)
          | None \<Rightarrow>
             (case (if st_tree s then moveTree e s w1
                    else (case Rename e (st_temp s) (st_dest s) w1 of
                            (None, w2) \<Rightarrow> (Inr None, w2) | (Some x, w2) \<Rightarrow> (Inl [x], w2))) of
                (Inl xs, w2) \<Rightarrow> (None, xs, s, w2)
              | (Inr replaced, w2) \<Rightarrow>
                 (let s' = s\<lparr>st_spent := True\<rparr> in
                  case g_Verify g (w_fs w2 (st_dest s)) of
                    None \<Rightarrow> (replaced, [], s', w2)
                  | Some x \<Rightarrow>
                      if \<not> st_tree s then (replaced, [x], s', w2)
                      else (case rollBackTree e (st_dest s) replaced w2 of
                              (rejected, xs, w3) \<Rightarrow> (rejected, x # xs, s', w3))))))"

definition removeReplaced :: "env \<Rightarrow> gostring option \<Rightarrow> world \<Rightarrow> pub_error list \<times> world" where
  "removeReplaced e replaced w =
     (case replaced of
        None \<Rightarrow> ([], w)
      | Some p \<Rightarrow> (case removeAll e p w of (None, w') \<Rightarrow> ([], w') | (Some x, w') \<Rightarrow> ([x], w')))"

definition Commit :: "env \<Rightarrow> bool \<Rightarrow> bool \<Rightarrow> Guard \<Rightarrow> Staged \<Rightarrow> world \<Rightarrow> pub_error list \<times> Staged \<times> world" where
  "Commit e cancelled locked g s w =
     (if st_spent s then ([ErrSpent], s, w)
      else if \<not> locked then (case Discard e s w of (_, s', w') \<Rightarrow> ([LockFailed], s', w'))
      else case commitLocked e cancelled g s w of
        (replaced, xs, s1, w1) \<Rightarrow>
         (case removeReplaced e replaced w1 of
            (ys, w2) \<Rightarrow>
              if ErrSatisfied \<in> set xs then
                (case Discard e s1 w2 of (zs, s2, w3) \<Rightarrow> (zs @ ys, s2, w3))
              else if xs \<noteq> [] then
                (case Discard e s1 w2 of (_, s2, w3) \<Rightarrow> (xs @ ys, s2, w3))
              else (ys, s1\<lparr>st_leased := False\<rparr>, w2)))"

definition removeLocked :: "env \<Rightarrow> bool \<Rightarrow> Guard \<Rightarrow> gostring \<Rightarrow> world \<Rightarrow> gostring option \<times> pub_error list \<times> world" where
  "removeLocked e cancelled g dest w =
     (if cancelled then (None, [Cancelled], w)
      else case g_Revalidate g (w_fs w dest) of
        Some x \<Rightarrow> (None, [x], w)
      | None \<Rightarrow>
         (let verify = (\<lambda>w. case g_Verify g (w_fs w dest) of None \<Rightarrow> [] | Some x \<Rightarrow> [x]) in
          case Lstat e dest w of
            (Inl ENotExist, w1) \<Rightarrow> (None, verify w1, w1)
          | (Inl x, w1) \<Rightarrow> (None, [x], w1)
          | (Inr n, w1) \<Rightarrow>
              (if is_tree n then
                 (case stagingName e w1 of (aside, w2) \<Rightarrow>
                    (case Rename e dest aside w2 of
                       (Some x, w3) \<Rightarrow> (None, [x], w3)
                     | (None, w3) \<Rightarrow> (Some aside, verify w3, w3)))
               else
                 (case perform e SRemove (\<lambda>f. Inr (f(dest := None))) w1 of
                    (Some x, w2) \<Rightarrow> (None, [x], w2)
                  | (None, w2) \<Rightarrow> (None, verify w2, w2)))))"

definition Remove :: "env \<Rightarrow> bool \<Rightarrow> bool \<Rightarrow> Guard \<Rightarrow> gostring \<Rightarrow> world \<Rightarrow> pub_error list \<times> world" where
  "Remove e cancelled locked g dest w =
     (if \<not> locked then ([LockFailed], w)
      else case removeLocked e cancelled g dest w of
        (aside, xs, w1) \<Rightarrow>
         (case removeReplaced e aside w1 of
            (ys, w2) \<Rightarrow> if ErrSatisfied \<in> set xs then (ys, w2) else (xs @ ys, w2)))"

subsection \<open>States a crash may leave\<close>

definition calls_work :: "env \<Rightarrow> bool" where
  "calls_work e \<longleftrightarrow> (\<forall>k n. \<not> e_fails e k n)"

text \<open>A directory is staged beside a directory it is to replace, and the random names are unused.\<close>

definition ready :: "env \<Rightarrow> Staged \<Rightarrow> fs \<Rightarrow> nat \<Rightarrow> nat \<Rightarrow> bool" where
  "ready e s F old new \<longleftrightarrow>
     st_tree s \<and> \<not> st_spent s \<and> st_dest s \<noteq> st_temp s
     \<and> F (st_dest s) = Some (Tree old) \<and> F (st_temp s) = Some (Tree new)
     \<and> (\<forall>n. F (e_names e n) = None)"

text \<open>The exchange is there and never fails.\<close>

definition exchange_works :: "env \<Rightarrow> bool" where
  "exchange_works e \<longleftrightarrow> e_exchange e \<and> e_allowed e \<and> (\<forall>n. \<not> e_fails e SExchange n)"

definition staging_names :: "env \<Rightarrow> Staged \<Rightarrow> gostring set" where
  "staging_names e s = insert (st_temp s) (range (e_names e))"

text \<open>
  The destination is one whole tree, the old or the new one; where there is no working exchange it
  may be absent while the old tree lies whole under a staging name.
\<close>

definition safe_state :: "env \<Rightarrow> Staged \<Rightarrow> nat \<Rightarrow> nat \<Rightarrow> fs \<Rightarrow> bool" where
  "safe_state e s old new f \<longleftrightarrow>
     f (st_dest s) = Some (Tree old) \<or> f (st_dest s) = Some (Tree new)
     \<or> (\<not> exchange_works e \<and> f (st_dest s) = None \<and> (\<exists>p\<in>staging_names e s. f p = Some (Tree old)))"

text \<open>A run extends the trace by states that satisfy \<open>P\<close>.\<close>

definition extends :: "(fs \<Rightarrow> bool) \<Rightarrow> world \<Rightarrow> world \<Rightarrow> bool" where
  "extends P w w' \<longleftrightarrow> (\<exists>ts. w_trace w' = w_trace w @ ts \<and> list_all P ts)"

lemma extends_refl [simp]: "extends P w w"
  by (simp add: extends_def)

lemma extends_trans: "extends P a b \<Longrightarrow> extends P b c \<Longrightarrow> extends P a c"
  by (auto simp: extends_def)

lemma extends_put: "P f \<Longrightarrow> extends P w (put f w)"
  by (simp add: extends_def put_def)

lemma extends_putI: "extends P w w' \<Longrightarrow> P f \<Longrightarrow> extends P w (put f w')"
  by (auto simp: extends_def put_def)

lemma world_simps [simp]:
  "w_fs (put f w) = f" "w_fs (tick w) = w_fs w" "w_trace (tick w) = w_trace w"
  "w_fs (w\<lparr>w_draws := d\<rparr>) = w_fs w" "w_trace (w\<lparr>w_draws := d\<rparr>) = w_trace w"
  "w_draws (put f w) = w_draws w" "w_draws (tick w) = w_draws w"
  by (simp_all add: put_def tick_def)

lemma extends_tick [simp]: "extends P w (tick w') = extends P w w'" "extends P (tick w) w' = extends P w w'"
  by (simp_all add: extends_def)

lemma extends_draws [simp]:
  "extends P w (w'\<lparr>w_draws := d\<rparr>) = extends P w w'" "extends P (w\<lparr>w_draws := d\<rparr>) w' = extends P w w'"
  by (simp_all add: extends_def)

lemma Rename_cases:
  obtains (failed) x where "Rename e p q w = (Some x, tick w)" "x \<noteq> ErrSatisfied"
      "\<not> (calls_work e \<and> w_fs w p \<noteq> None \<and> w_fs w q = None)"
  | (okay) n where "w_fs w p = Some n" "Rename e p q w = (None, put ((w_fs w)(p := None, q := Some n)) (tick w))"
      "w_fs w q = None \<or> (\<exists>c d. w_fs w q = Some (Other c) \<and> n = Other d)"
proof (cases "e_fails e SRename (w_ops w)")
  case True
  then show ?thesis using failed [of EIO] by (auto simp: Rename_def perform_def calls_work_def)
next
  case False
  show ?thesis
  proof (cases "rename_fs p q (w_fs w)")
    case (Inl x)
    then have "x \<noteq> ErrSatisfied" "\<not> (w_fs w p \<noteq> None \<and> w_fs w q = None)"
      by (auto simp: rename_fs_def split: option.splits node.splits if_splits)
    then show ?thesis using failed [of x] False Inl by (simp add: Rename_def perform_def)
  next
    case (Inr f)
    then obtain n where n: "w_fs w p = Some n" "f = (w_fs w)(p := None, q := Some n)"
        "w_fs w q = None \<or> (\<exists>c d. w_fs w q = Some (Other c) \<and> n = Other d)"
      by (cases "w_fs w p"; cases "w_fs w q"; cases "the (w_fs w q)"; cases "the (w_fs w p)")
        (auto simp: rename_fs_def split: if_splits)
    then show ?thesis using okay False Inr by (simp add: Rename_def perform_def)
  qed
qed

lemma exchange_cases:
  obtains (failed) x where "exchange e p q w = (Some x, tick w)"
  | (okay) a b where "w_fs w p = Some a" "w_fs w q = Some b" "e_exchange e"
      "exchange e p q w = (None, put ((w_fs w)(p := Some b, q := Some a)) (tick w))"
proof (cases "e_exchange e \<and> \<not> e_fails e SExchange (w_ops w)")
  case True
  show ?thesis
  proof (cases "\<exists>a b. w_fs w p = Some a \<and> w_fs w q = Some b")
    case True
    then show ?thesis using okay \<open>e_exchange e \<and> _\<close>
      by (auto simp: exchange_def perform_def exchange_fs_def)
  next
    case False
    then have "exchange_fs p q (w_fs w) = Inl ENotExist"
      by (auto simp: exchange_fs_def split: option.splits)
    then show ?thesis using failed True by (simp add: exchange_def perform_def)
  qed
next
  case False
  then show ?thesis using failed by (auto simp: exchange_def perform_def)
qed

lemma exchange_works_done:
  "exchange_works e \<Longrightarrow> w_fs w p = Some a \<Longrightarrow> w_fs w q = Some b \<Longrightarrow>
     exchange e p q w = (None, put ((w_fs w)(p := Some b, q := Some a)) (tick w))"
  by (simp add: exchange_works_def exchange_def perform_def exchange_fs_def)

lemma RemoveAll_effect:
  assumes "RemoveAll e p w = (r, w')"
  shows "\<exists>v. w_fs w' = (w_fs w)(p := v) \<and> (r = None \<longrightarrow> v = None)
    \<and> extends (\<lambda>f. \<exists>v. f = (w_fs w)(p := v)) w w'"
proof -
  let ?P = "\<lambda>f. \<exists>v. f = (w_fs w)(p := v)"
  define w1 where "w1 = (case w_fs w p of Some (Tree c) \<Rightarrow> put ((w_fs w)(p := Some (Tree (e_partial e c)))) (tick w) | _ \<Rightarrow> tick w)"
  have w1: "extends ?P w w1 \<and> (\<exists>v. w_fs w1 = (w_fs w)(p := v))"
  proof (cases "\<exists>c. w_fs w p = Some (Tree c)")
    case True
    then show ?thesis by (auto simp: w1_def extends_def put_def tick_def)
  next
    case False
    then have "w1 = tick w" by (auto simp: w1_def split: option.splits node.splits)
    then show ?thesis by (auto intro: exI [of _ "w_fs w p"])
  qed
  then obtain v where v: "w_fs w1 = (w_fs w)(p := v)" by blast
  show ?thesis
  proof (cases "e_fails e SRemove (w_ops w)")
    case True
    then have "w' = w1" "r \<noteq> None" using assms by (auto simp: RemoveAll_def Let_def w1_def)
    then show ?thesis using w1 by auto
  next
    case False
    then have "w' = put ((w_fs w1)(p := None)) w1" "r = None"
      using assms by (auto simp: RemoveAll_def Let_def w1_def)
    then show ?thesis using w1 v extends_put [of ?P "(w_fs w)(p := None)" w1]
      by (auto intro: extends_trans)
  qed
qed

lemma removeAll_effect:
  assumes "removeAll e p w = (r, w')"
  shows "\<exists>v. w_fs w' = (w_fs w)(p := v) \<and> (r = None \<longrightarrow> v = None)
    \<and> extends (\<lambda>f. \<exists>v. f = (w_fs w)(p := v)) w w'"
proof -
  obtain r1 w1 where 1: "RemoveAll e p w = (r1, w1)" by fastforce
  show ?thesis
  proof (cases r1)
    case None
    then show ?thesis using assms 1 RemoveAll_effect [OF 1] by (simp add: removeAll_def)
  next
    case (Some x)
    then have 2: "RemoveAll e p w1 = (r, w')" using assms 1 by (simp add: removeAll_def)
    obtain v where v: "w_fs w1 = (w_fs w)(p := v)" using RemoveAll_effect [OF 1] by blast
    then show ?thesis using RemoveAll_effect [OF 1] RemoveAll_effect [OF 2]
      by (auto intro: extends_trans)
  qed
qed

subsection \<open>The move\<close>

text \<open>The new tree at the destination, the old one under the staging name \<open>p\<close>.\<close>

definition swapped :: "Staged \<Rightarrow> fs \<Rightarrow> nat \<Rightarrow> nat \<Rightarrow> gostring \<Rightarrow> fs" where
  "swapped s F old new p = F(st_temp s := None, st_dest s := Some (Tree new), p := Some (Tree old))"

definition aside_state :: "Staged \<Rightarrow> fs \<Rightarrow> nat \<Rightarrow> gostring \<Rightarrow> fs" where
  "aside_state s F old p = F(st_dest s := None, p := Some (Tree old))"

lemma ready_names: "ready e s F old new \<Longrightarrow> e_names e n \<noteq> st_dest s \<and> e_names e n \<noteq> st_temp s"
  by (auto simp: ready_def) (metis option.distinct(1))+

lemma move_aside_spec:
  assumes "ready e s F old new" "w_fs w = F" "move_aside e s w = (res, w')" "\<not> exchange_works e"
  shows "extends (safe_state e s old new) w w'
    \<and> (case res of
         Inl xs \<Rightarrow> xs \<noteq> [] \<and> ErrSatisfied \<notin> set xs \<and> \<not> calls_work e
           \<and> (w_fs w' = F \<or> (\<exists>n. w_fs w' = aside_state s F old (e_names e n)))
       | Inr rep \<Rightarrow> rep = Some (e_names e (w_draws w)) \<and> w_draws w' = Suc (w_draws w)
           \<and> w_fs w' = swapped s F old new (e_names e (w_draws w)))"
proof -
  let ?d = "st_dest s" and ?t = "st_temp s" and ?a = "e_names e (w_draws w)"
  let ?S = "safe_state e s old new"
  let ?w0 = "w\<lparr>w_draws := w_draws w + 1\<rparr>"
  note r = assms(1) [unfolded ready_def] ready_names [OF assms(1)]
  have ne: "?a \<noteq> ?d" "?a \<noteq> ?t" "F ?a = None" "F ?d = Some (Tree old)" "F ?t = Some (Tree new)" "?d \<noteq> ?t"
    using r by auto
  have sF: "?S F" using ne by (simp add: safe_state_def)
  have sA: "?S (aside_state s F old ?a)"
    using ne assms(4) by (auto simp: safe_state_def aside_state_def staging_names_def)
  have sN: "?S (swapped s F old new ?a)" using ne by (simp add: safe_state_def swapped_def)
  show ?thesis
  proof (cases rule: Rename_cases [of e ?d ?a ?w0])
    case (failed x)
    then show ?thesis using assms(2,3) ne
      by (auto simp: move_aside_def stagingName_def)
  next
    case (okay n1)
    define w1 where "w1 = put ((w_fs ?w0)(?d := None, ?a := Some n1)) (tick ?w0)"
    have n1: "n1 = Tree old" using okay(1) assms(2) ne by simp
    have f1: "w_fs w1 = aside_state s F old ?a" by (simp add: w1_def n1 assms(2) aside_state_def)
    have e1: "extends ?S w w1" unfolding w1_def
      by (rule extends_putI) (use sA in \<open>simp_all add: n1 assms(2) aside_state_def\<close>)
    have R1: "Rename e ?d ?a ?w0 = (None, w1)" "w_draws w1 = Suc (w_draws w)"
      using okay(2) by (simp_all add: w1_def)
    show ?thesis
    proof (cases rule: Rename_cases [of e ?t ?d w1])
      case (okay n2)
      have "n2 = Tree new" using okay(1) f1 ne by (simp add: aside_state_def)
      then have f2: "(w_fs w1)(?t := None, ?d := Some n2) = swapped s F old new ?a"
        using ne by (auto simp: f1 aside_state_def swapped_def fun_eq_iff)
      have "extends ?S w (put ((w_fs w1)(?t := None, ?d := Some n2)) (tick w1))"
        using e1 sN f2 by (intro extends_putI) simp_all
      then show ?thesis using assms(3) R1 okay(2) f2
        by (auto simp: move_aside_def stagingName_def)
    next
      case (failed x)
      note R2 = this
      show ?thesis
      proof (cases rule: Rename_cases [of e ?a ?d "tick w1"])
        case (failed y)
        then show ?thesis using assms(3) R1 R2 f1 e1 ne
          by (auto simp: move_aside_def stagingName_def aside_state_def intro: extends_trans)
      next
        case (okay n3)
        have "n3 = Tree old" using okay(1) f1 ne by (simp add: aside_state_def)
        then have f3: "(w_fs w1)(?a := None, ?d := Some n3) = F"
          using ne by (auto simp: f1 aside_state_def fun_eq_iff)
        have "extends ?S w (put ((w_fs w1)(?a := None, ?d := Some n3)) (tick (tick w1)))"
          using e1 sF f3 by (intro extends_putI) simp_all
        then show ?thesis using assms(3) R1 R2 okay(2) f3 f1 ne
          by (auto simp: move_aside_def stagingName_def aside_state_def)
      qed
    qed
  qed
qed

lemma Lstat_present:
  "w_fs w p = Some n \<Longrightarrow> \<exists>r. Lstat e p w = (r, tick w) \<and> (r = Inr n \<or> (r = Inl EIO \<and> \<not> calls_work e))"
  by (auto simp: Lstat_def calls_work_def)

text \<open>What \<open>moveTree\<close> may have done when it returns.\<close>

definition moved :: "env \<Rightarrow> Staged \<Rightarrow> fs \<Rightarrow> nat \<Rightarrow> nat \<Rightarrow> pub_error list + gostring option \<Rightarrow> nat \<Rightarrow> fs \<Rightarrow> bool" where
  "moved e s F old new res draws f \<longleftrightarrow>
     (case res of
        Inl xs \<Rightarrow> xs \<noteq> [] \<and> ErrSatisfied \<notin> set xs \<and> \<not> calls_work e
          \<and> (f = F \<or> (\<not> exchange_works e \<and> (\<exists>n. f = aside_state s F old (e_names e n))))
      | Inr rep \<Rightarrow> \<exists>p. rep = Some p \<and> f = swapped s F old new p
          \<and> (p = st_temp s \<or> (\<exists>n < draws. p = e_names e n)))"

lemma moveTree_spec:
  assumes "ready e s F old new" "w_fs w = F" "moveTree e s w = (res, w')"
  shows "extends (safe_state e s old new) w w' \<and> moved e s F old new res (w_draws w') (w_fs w')"
proof -
  let ?d = "st_dest s" and ?t = "st_temp s"
  have ne: "F ?d = Some (Tree old)" "F ?t = Some (Tree new)" "?d \<noteq> ?t" using assms(1) by (auto simp: ready_def)
  obtain r where r: "Lstat e ?d w = (r, tick w)" "r = Inr (Tree old) \<or> (r = Inl EIO \<and> \<not> calls_work e)"
    using Lstat_present [of w ?d "Tree old"] ne assms(2) by auto
  have aside: "extends (safe_state e s old new) w w' \<and> moved e s F old new res (w_draws w') (w_fs w')"
    if "move_aside e s w1 = (res, w')" "\<not> exchange_works e" "w_fs w1 = F" "extends (safe_state e s old new) w w1" for w1
    using move_aside_spec [OF assms(1) that(3,1,2)] that(2,4)
    by (auto simp: moved_def staging_names_def split: sum.splits intro: extends_trans)
  from r(2) show ?thesis
  proof
    assume "r = Inl EIO \<and> \<not> calls_work e"
    then show ?thesis using r(1) assms(2,3) by (auto simp: moveTree_def moved_def)
  next
    assume rr: "r = Inr (Tree old)"
    show ?thesis
    proof (cases "e_allowed e")
      case False
      then show ?thesis using aside [of "tick w"] r(1) rr assms(2,3)
        by (simp add: moveTree_def exchange_works_def)
    next
      case True
      show ?thesis
      proof (cases rule: exchange_cases [of e ?t ?d "tick w"])
        case (failed x)
        have "\<not> exchange_works e"
          using exchange_works_done [of e "tick w" ?t _ ?d] failed ne assms(2) by auto
        then show ?thesis using aside [of "tick (tick w)"] r(1) rr assms(2,3) True failed
          by (simp add: moveTree_def)
      next
        case (okay a b)
        then have ab: "a = Tree new" "b = Tree old" using ne assms(2) by auto
        then have f: "(w_fs (tick w))(?t := Some b, ?d := Some a) = swapped s F old new ?t"
          using ne assms(2) by (auto simp: swapped_def fun_eq_iff)
        have "safe_state e s old new (swapped s F old new ?t)"
          using ne by (simp add: safe_state_def swapped_def)
        then have "extends (safe_state e s old new) w (put (swapped s F old new ?t) (tick (tick w)))"
          by (intro extends_putI) simp_all
        then show ?thesis using r(1) rr assms(2,3) True okay(4) f
          by (auto simp: moveTree_def moved_def staging_names_def)
      qed
    qed
  qed
qed

subsection \<open>The roll-back\<close>

text \<open>
  After a failed verification: the old tree is back and the new one lies under the returned name; or,
  when a call failed, the new tree stays, or moved aside while the old one stays where it was.
\<close>

definition rolled_back ::
  "env \<Rightarrow> Staged \<Rightarrow> fs \<Rightarrow> nat \<Rightarrow> nat \<Rightarrow> gostring \<Rightarrow> gostring option \<Rightarrow> pub_error list \<Rightarrow> fs \<Rightarrow> bool" where
  "rolled_back e s F old new p rej xs f \<longleftrightarrow>
     ErrSatisfied \<notin> set xs \<and>
     (case rej of
        Some q \<Rightarrow> q \<noteq> st_dest s \<and> (q = st_temp s \<or> F q = None) \<and> xs = []
          \<and> f = F(st_temp s := None, q := Some (Tree new))
      | None \<Rightarrow> xs \<noteq> [] \<and> \<not> (calls_work e \<and> inj (e_names e))
          \<and> (f = swapped s F old new p
             \<or> (\<not> exchange_works e \<and> f (st_dest s) = None \<and> f p = Some (Tree old))))"

lemma rollBackTree_spec:
  assumes "ready e s F old new" "p \<in> staging_names e s" "w_fs w = swapped s F old new p"
    and "p = st_temp s \<or> (\<exists>n < w_draws w. p = e_names e n)"
    and "rollBackTree e (st_dest s) (Some p) w = (rej, xs, w')"
  shows "extends (safe_state e s old new) w w' \<and> rolled_back e s F old new p rej xs (w_fs w')"
proof -
  let ?d = "st_dest s" and ?t = "st_temp s" and ?S = "safe_state e s old new"
  have ne: "F ?d = Some (Tree old)" "F ?t = Some (Tree new)" "?d \<noteq> ?t" using assms(1) by (auto simp: ready_def)
  have p: "p \<noteq> ?d" "p = ?t \<or> F p = None"
    using assms(1,2) ne ready_names [OF assms(1)] by (auto simp: staging_names_def ready_def)
  have fw: "w_fs w ?d = Some (Tree new)" "w_fs w p = Some (Tree old)"
    using p ne by (auto simp: assms(3) swapped_def)
  show ?thesis
  proof (cases rule: exchange_cases [of e p ?d w])
    case (okay a b)
    then have f: "(w_fs w)(p := Some b, ?d := Some a) = F(?t := None, p := Some (Tree new))"
      using fw p ne by (auto simp: assms(3) swapped_def fun_eq_iff)
    have "?S (F(?t := None, p := Some (Tree new)))" using p ne by (simp add: safe_state_def)
    then have "extends ?S w (put (F(?t := None, p := Some (Tree new))) (tick w))"
      by (intro extends_putI) simp_all
    then show ?thesis using assms(5) okay(4) f p ne by (auto simp: rollBackTree_def rolled_back_def)
  next
    case (failed x)
    then have nx: "\<not> exchange_works e" using exchange_works_done [of e w p _ ?d] fw by auto
    let ?q = "e_names e (w_draws w)"
    define w1 where "w1 = (tick w)\<lparr>w_draws := w_draws w + 1\<rparr>"
    have run: "roll_aside e ?d (Some p) (tick w) = (rej, xs, w')"
      using assms(5) failed by (simp add: rollBackTree_def)
    have draws: "w_draws (tick w) = w_draws w" by (simp add: tick_def)
    have sn: "stagingName e (tick w) = (?q, w1)" by (simp add: stagingName_def w1_def draws)
    have f1: "w_fs w1 = swapped s F old new p" "extends ?S w w1" by (simp_all add: w1_def assms(3))
    have q: "?q \<noteq> ?d" "?q \<noteq> ?t" "F ?q = None" using ready_names [OF assms(1)] assms(1) by (auto simp: ready_def)
    have pq: "?q \<noteq> p" if "inj (e_names e)"
      using assms(4) q that by (auto dest: injD)
    show ?thesis
    proof (cases rule: Rename_cases [of e ?d ?q w1])
      case (failed y)
      have "\<not> (calls_work e \<and> inj (e_names e))"
        using failed(3) pq q f1(1) p fw assms(3) by (auto simp: swapped_def)
      then show ?thesis using run failed f1
        by (auto simp: roll_aside_def sn rolled_back_def)
    next
      case (okay n)
      have n: "n = Tree new" using okay(1) f1(1) p by (simp add: swapped_def)
      then have "w_fs w1 ?q = None" using okay(3) by auto
      then have qp: "?q \<noteq> p" using f1(1) by (auto simp: swapped_def)
      define w2 where "w2 = put ((w_fs w1)(?d := None, ?q := Some n)) (tick w1)"
      have R1: "Rename e ?d ?q w1 = (None, w2)" using okay(2) by (simp add: w2_def)
      have f2: "w_fs w2 = F(?t := None, ?d := None, p := Some (Tree old), ?q := Some (Tree new))"
        using p q qp by (auto simp: w2_def n f1(1) swapped_def fun_eq_iff)
      have "w_fs w2 p = Some (Tree old)" "w_fs w2 ?d = None" unfolding f2 using p(1) q qp by simp_all
      then have "?S (w_fs w2)" using nx assms(2) unfolding safe_state_def by blast
      then have e2: "extends ?S w w2" unfolding w2_def using f1(2) by (intro extends_putI) simp_all
      show ?thesis
      proof (cases rule: Rename_cases [of e p ?d w2])
        case (failed z)
        have "\<not> calls_work e" using failed(3) f2 p q qp by auto
        then show ?thesis using run R1 failed f2 e2 nx p q qp
          by (auto simp: roll_aside_def sn rolled_back_def)
      next
        case (okay n2)
        have "n2 = Tree old" using okay(1) f2 p qp by simp
        then have f3: "(w_fs w2)(p := None, ?d := Some n2) = F(?t := None, ?q := Some (Tree new))"
          using p q qp ne by (auto simp: f2 fun_eq_iff)
        have "?S (F(?t := None, ?q := Some (Tree new)))" using q ne by (simp add: safe_state_def)
        then have "extends ?S w (put (F(?t := None, ?q := Some (Tree new))) (tick w2))"
          using e2 by (intro extends_putI) simp_all
        then show ?thesis using run R1 okay(2) f3 q
          by (auto simp: roll_aside_def sn rolled_back_def)
      qed
    qed
  qed
qed

subsection \<open>The whole commit\<close>

lemma removeReplaced_effect:
  assumes "removeReplaced e rep w = (ys, w')"
  shows "(rep = None \<longrightarrow> ys = [] \<and> w' = w)
    \<and> (\<forall>p. rep = Some p \<longrightarrow> (\<exists>v. w_fs w' = (w_fs w)(p := v) \<and> (ys = [] \<longrightarrow> v = None))
         \<and> extends (\<lambda>f. \<exists>v. f = (w_fs w)(p := v)) w w')"
proof (cases rep)
  case None
  then show ?thesis using assms by (simp add: removeReplaced_def)
next
  case (Some p)
  obtain r w1 where r: "removeAll e p w = (r, w1)" by fastforce
  then have "w' = w1" "ys = [] \<longleftrightarrow> r = None"
    using assms Some by (auto simp: removeReplaced_def split: option.splits)
  then show ?thesis using removeAll_effect [OF r] Some by auto
qed

lemma Discard_effect:
  assumes "Discard e s w = (zs, s', w')"
  shows "st_spent s' \<and> (st_spent s \<longrightarrow> zs = [] \<and> w' = w)
    \<and> (\<not> st_spent s \<longrightarrow> (\<exists>v. w_fs w' = (w_fs w)(st_temp s := v) \<and> (zs = [] \<longrightarrow> v = None))
         \<and> extends (\<lambda>f. \<exists>v. f = (w_fs w)(st_temp s := v)) w w')"
proof (cases "st_spent s")
  case True
  then show ?thesis using assms by (auto simp: Discard_def)
next
  case False
  obtain r w1 where r: "RemoveAll e (st_temp s) w = (r, w1)" by fastforce
  then have "w' = w1" "zs = [] \<longleftrightarrow> r = None" "st_spent s'"
    using assms False by (auto simp: Discard_def split: option.splits)
  then show ?thesis using RemoveAll_effect [OF r] False by auto
qed

lemma extends_mono: "extends P w w' \<Longrightarrow> (\<And>f. P f \<Longrightarrow> Q f) \<Longrightarrow> extends Q w w'"
  by (auto simp: extends_def list_all_iff)

text \<open>The states the locked part may end in.\<close>

definition locked_result ::
  "env \<Rightarrow> bool \<Rightarrow> Guard \<Rightarrow> Staged \<Rightarrow> fs \<Rightarrow> nat \<Rightarrow> nat \<Rightarrow> gostring option \<Rightarrow> pub_error list \<Rightarrow> Staged \<Rightarrow> fs \<Rightarrow> bool" where
  "locked_result e c g s F old new rep xs s' f \<longleftrightarrow>
     (\<not> st_spent s' \<and> s' = s \<and> rep = None \<and> xs \<noteq> []
        \<and> (c \<or> g_Revalidate g (Some (Tree old)) \<noteq> None \<or> \<not> calls_work e)
        \<and> (f = F \<or> (ErrSatisfied \<notin> set xs \<and> \<not> calls_work e \<and> \<not> exchange_works e \<and> (\<exists>n. f = aside_state s F old (e_names e n))))
        \<and> (ErrSatisfied \<in> set xs \<longrightarrow> f = F \<and> g_Revalidate g (Some (Tree old)) = Some ErrSatisfied))
     \<or> (st_spent s' \<and> xs = [] \<and> g_Revalidate g (Some (Tree old)) = None \<and> g_Verify g (Some (Tree new)) = None
        \<and> (\<exists>p\<in>staging_names e s. rep = Some p \<and> f = swapped s F old new p))
     \<or> (st_spent s' \<and> (\<exists>x ys p. xs = x # ys \<and> g_Verify g (Some (Tree new)) = Some x
        \<and> p \<in> staging_names e s \<and> rolled_back e s F old new p rep ys f))"

lemma commitLocked_spec:
  assumes "ready e s F old new" "w_fs w = F" "commitLocked e c g s w = (rep, xs, s', w')"
  shows "extends (safe_state e s old new) w w' \<and> locked_result e c g s F old new rep xs s' (w_fs w')"
proof -
  let ?d = "st_dest s" and ?t = "st_temp s"
  have ne: "F ?d = Some (Tree old)" "F ?t = Some (Tree new)" "?d \<noteq> ?t" "st_tree s" "\<not> st_spent s"
    using assms(1) by (auto simp: ready_def)
  show ?thesis
  proof (cases c)
    case True
    then show ?thesis using assms(2,3) ne by (auto simp: commitLocked_def locked_result_def)
  next
    case nc: False
    obtain r where r: "requireStaged e s w = (r, tick w)" "r = None \<or> (r = Some EIO \<and> \<not> calls_work e)"
      using Lstat_present [of w ?t "Tree new" e] ne assms(2) by (auto simp: requireStaged_def)
    show ?thesis
    proof (cases "r = None \<and> g_Revalidate g (F ?d) = None")
      case False
      then show ?thesis using assms(2,3) ne nc r
        by (auto simp: commitLocked_def locked_result_def split: option.splits)
    next
      case True
      obtain res w2 where m: "moveTree e s (tick w) = (res, w2)" by fastforce
      note ms = moveTree_spec [OF assms(1) _ m]
      have e2: "extends (safe_state e s old new) w w2" and mv: "moved e s F old new res (w_draws w2) (w_fs w2)"
        using ms assms(2) by simp_all
      show ?thesis
      proof (cases res)
        case (Inl ys)
        then have "rep = None" "xs = ys" "s' = s" "w' = w2"
          using assms(2,3) nc r True m ne by (auto simp: commitLocked_def)
        then show ?thesis using Inl e2 mv ne by (auto simp: moved_def locked_result_def)
      next
        case (Inr rp)
        then obtain p where p: "rp = Some p" "w_fs w2 = swapped s F old new p"
            "p = ?t \<or> (\<exists>n < w_draws w2. p = e_names e n)"
          using mv by (auto simp: moved_def)
        have ps: "p \<in> staging_names e s" using p(3) by (auto simp: staging_names_def)
        have pd: "p \<noteq> ?d" using p(3) ne(3) ready_names [OF assms(1)] by metis
        then have fd: "w_fs w2 ?d = Some (Tree new)" using p(2) by (simp add: swapped_def)
        show ?thesis
        proof (cases "g_Verify g (Some (Tree new))")
          case None
          then have "rep = Some p" "xs = []" "s' = s\<lparr>st_spent := True\<rparr>" "w' = w2"
            using assms(2,3) nc r True m ne Inr p fd by (auto simp: commitLocked_def)
          then show ?thesis using e2 ps p True None ne by (auto simp: locked_result_def)
        next
          case (Some x)
          obtain rej zs w3 where b: "rollBackTree e ?d (Some p) w2 = (rej, zs, w3)" by (cases "rollBackTree e ?d (Some p) w2") auto
          note bs = rollBackTree_spec [OF assms(1) ps p(2,3) b]
          have "rep = rej" "xs = x # zs" "s' = s\<lparr>st_spent := True\<rparr>" "w' = w3"
            using assms(2,3) nc r True m ne Inr p fd Some b by (auto simp: commitLocked_def)
          then show ?thesis using bs e2 ps Some by (auto simp: locked_result_def intro: extends_trans)
        qed
      qed
    qed
  qed
qed

text \<open>The three stages of \<open>Commit\<close> after the lock: what runs under it, the deletion, the discard.\<close>

lemma Commit_stages:
  assumes "\<not> st_spent s" "Commit e c True g s w = (errs, s', w')"
  obtains rep xs s1 w1 ys w2 where
    "commitLocked e c g s w = (rep, xs, s1, w1)" "removeReplaced e rep w1 = (ys, w2)"
    "xs = [] \<Longrightarrow> errs = ys \<and> w' = w2 \<and> st_spent s' = st_spent s1"
    "xs \<noteq> [] \<Longrightarrow> \<exists>zs. Discard e s1 w2 = (zs, s', w') \<and> errs = (if ErrSatisfied \<in> set xs then zs @ ys else xs @ ys)"
proof -
  obtain rep xs s1 w1 where 1: "commitLocked e c g s w = (rep, xs, s1, w1)" by (cases "commitLocked e c g s w") auto
  obtain ys w2 where 2: "removeReplaced e rep w1 = (ys, w2)" by fastforce
  obtain zs s2 w3 where 3: "Discard e s1 w2 = (zs, s2, w3)" by (cases "Discard e s1 w2") auto
  show thesis
  proof (rule that [OF 1 2])
    show "xs = [] \<Longrightarrow> errs = ys \<and> w' = w2 \<and> st_spent s' = st_spent s1"
      using assms 1 2 by (auto simp: Commit_def)
    show "xs \<noteq> [] \<Longrightarrow> \<exists>zs. Discard e s1 w2 = (zs, s', w') \<and> errs = (if ErrSatisfied \<in> set xs then zs @ ys else xs @ ys)"
      using assms 1 2 3 by (auto simp: Commit_def split: if_splits)
  qed
qed

lemma swapped_other:
  "p \<noteq> st_dest s \<Longrightarrow> (swapped s F old new p)(p := None) = F(st_temp s := None, st_dest s := Some (Tree new), p := None)"
  by (auto simp: swapped_def fun_eq_iff)

lemma staging_name_fresh:
  "ready e s F old new \<Longrightarrow> p \<in> staging_names e s \<Longrightarrow> p \<noteq> st_dest s \<and> (p = st_temp s \<or> F p = None)"
  using ready_names [of e s F old new] by (auto simp: staging_names_def ready_def)

lemma Commit_unlocked:
  assumes "\<not> st_spent s" "Commit e c False g s w = (errs, s', w')"
  shows "\<exists>zs. Discard e s w = (zs, s', w') \<and> errs = [LockFailed]"
  using assms by (auto simp: Commit_def split: prod.splits)

text \<open>Deleting an entry beside a whole destination keeps every state safe.\<close>

lemma safe_beside:
  assumes "f (st_dest s) = Some (Tree old) \<or> f (st_dest s) = Some (Tree new)" "p \<noteq> st_dest s"
    and "extends (\<lambda>h. \<exists>v. h = f(p := v)) w w'"
  shows "extends (safe_state e s old new) w w'"
  using assms(3) by (rule extends_mono) (use assms(1,2) in \<open>auto simp: safe_state_def\<close>)

lemma Commit_safe:
  assumes "ready e s F old new" "w_fs w = F" "Commit e cancelled locked g s w = (errs, s', w')"
  shows "extends (safe_state e s old new) w w'"
proof -
  let ?d = "st_dest s" and ?t = "st_temp s"
  have ne: "F ?d = Some (Tree old)" "?d \<noteq> ?t" "\<not> st_spent s" using assms(1) by (auto simp: ready_def)
  show ?thesis
  proof (cases locked)
    case False
    then obtain zs where "Discard e s w = (zs, s', w')"
      using Commit_unlocked [OF ne(3), of e cancelled g w errs s' w'] assms(3) by auto
    from Discard_effect [OF this] show ?thesis
      using safe_beside [of F s old new ?t w w' e] ne assms(2) by auto
  next
    case True
    then have run: "Commit e cancelled True g s w = (errs, s', w')" using assms(3) by simp
    obtain rep xs s1 w1 ys w2 where st: "commitLocked e cancelled g s w = (rep, xs, s1, w1)"
        "removeReplaced e rep w1 = (ys, w2)"
        "xs = [] \<Longrightarrow> errs = ys \<and> w' = w2 \<and> st_spent s' = st_spent s1"
        "xs \<noteq> [] \<Longrightarrow> \<exists>zs. Discard e s1 w2 = (zs, s', w') \<and> errs = (if ErrSatisfied \<in> set xs then zs @ ys else xs @ ys)"
      using Commit_stages [OF ne(3) run] by metis
    note sp = commitLocked_spec [OF assms(1,2) st(1)]
    note rr = removeReplaced_effect [OF st(2)]
    have e1: "extends (safe_state e s old new) w w1" and lr: "locked_result e cancelled g s F old new rep xs s1 (w_fs w1)"
      using sp by auto
    have e2: "extends (safe_state e s old new) w1 w2 \<and> (st_spent s1 \<or> w2 = w1 \<and> s1 = s)"
    proof (cases rep)
      case None
      then show ?thesis using rr lr by (auto simp: locked_result_def)
    next
      case (Some p)
      have "p \<noteq> ?d \<and> (w_fs w1 ?d = Some (Tree old) \<or> w_fs w1 ?d = Some (Tree new))"
        using lr Some ne staging_name_fresh [OF assms(1)]
        by (auto simp: locked_result_def swapped_def rolled_back_def)
      moreover have "st_spent s1" using lr Some by (auto simp: locked_result_def)
      ultimately show ?thesis using rr Some safe_beside by blast
    qed
    have e3: "extends (safe_state e s old new) w2 w'"
    proof (cases "xs = []")
      case True
      then show ?thesis using st(3) by simp
    next
      case False
      then obtain zs where d: "Discard e s1 w2 = (zs, s', w')" using st(4) by blast
      show ?thesis
      proof (cases "st_spent s1")
        case True
        then show ?thesis using Discard_effect [OF d] by simp
      next
        case False
        then have f: "w2 = w1" "s1 = s" "w_fs w1 = F \<or> (\<not> exchange_works e \<and> (\<exists>n. w_fs w1 = aside_state s F old (e_names e n)))"
          using e2 lr by (auto simp: locked_result_def)
        have ext: "extends (\<lambda>h. \<exists>v. h = (w_fs w1)(?t := v)) w1 w'" using Discard_effect [OF d] False f by auto
        have "safe_state e s old new ((w_fs w1)(?t := v))" for v
        proof (cases "w_fs w1 = F")
          case True
          then show ?thesis using ne by (simp add: safe_state_def)
        next
          case False
          then obtain n where n: "\<not> exchange_works e" "w_fs w1 = aside_state s F old (e_names e n)" using f by blast
          have "((w_fs w1)(?t := v)) (e_names e n) = Some (Tree old)" "((w_fs w1)(?t := v)) ?d = None"
            using ready_names [OF assms(1), of n] ne n by (auto simp: aside_state_def)
          then show ?thesis using n(1) unfolding safe_state_def staging_names_def by blast
        qed
        then show ?thesis using ext f(1) by (auto intro: extends_mono)
      qed
    qed
    show ?thesis using e1 e2 e3 by (blast intro: extends_trans)
  qed
qed

text \<open>
  (C3) Replacing a tree is crash-safe: whatever calls fail, whatever the guard answers, at every state
  the commit passes through the destination holds one whole tree, the old or the new one; only
  without a working atomic exchange may it be absent for a while, and then the old tree lies whole under
  a staging name, where recovery finds it.
\<close>

theorem commit_crash_safe:
  assumes "ready e s F old new" "w_fs w = F" "w_trace w = [F]"
    and "Commit e cancelled locked g s w = (errs, s', w')"
  shows "list_all (safe_state e s old new) (w_trace w')"
proof -
  have "safe_state e s old new F" using assms(1) by (simp add: safe_state_def ready_def)
  then show ?thesis using Commit_safe [OF assms(1,2,4)] assms(3) by (auto simp: extends_def)
qed

lemma removal_works: "calls_work e \<Longrightarrow> removeReplaced e (Some p) w = (ys, w') \<Longrightarrow> ys = [] \<and> w_fs w' = (w_fs w)(p := None)"
proof -
  assume a: "calls_work e" "removeReplaced e (Some p) w = (ys, w')"
  obtain r w1 where r: "RemoveAll e p w = (r, w1)" by fastforce
  have "r = None" using a(1) r by (auto simp: RemoveAll_def calls_work_def Let_def)
  then show ?thesis using a(2) r RemoveAll_effect [OF r] by (auto simp: removeReplaced_def removeAll_def)
qed

lemma discard_works:
  "calls_work e \<Longrightarrow> \<not> st_spent s \<Longrightarrow> Discard e s w = (zs, s', w') \<Longrightarrow> zs = [] \<and> w_fs w' = (w_fs w)(st_temp s := None)"
proof -
  assume a: "calls_work e" "\<not> st_spent s" "Discard e s w = (zs, s', w')"
  obtain r w1 where r: "RemoveAll e (st_temp s) w = (r, w1)" by fastforce
  have "r = None" using a(1) r by (auto simp: RemoveAll_def calls_work_def Let_def)
  then show ?thesis using a(2,3) r RemoveAll_effect [OF r] by (auto simp: Discard_def)
qed

text \<open>
  What a commit comes to when every call works, and the two ways it gets there: it stops before the
  destination moves (\<open>refused_commit\<close>) or after the swap, which the proof then accepts or rolls back
  (\<open>swapped_commit\<close>).
\<close>

definition all_or_nothing ::
    "bool \<Rightarrow> bool \<Rightarrow> Guard \<Rightarrow> Staged \<Rightarrow> fs \<Rightarrow> nat \<Rightarrow> nat \<Rightarrow> pub_error list \<Rightarrow> Staged \<Rightarrow> fs \<Rightarrow> bool" where
  "all_or_nothing cancelled locked g s F old new errs s' F' \<longleftrightarrow>
     (if locked \<and> \<not> cancelled \<and> g_Revalidate g (Some (Tree old)) = None \<and> g_Verify g (Some (Tree new)) = None
      then errs = [] \<and> F' = F(st_temp s := None, st_dest s := Some (Tree new))
      else F' = F(st_temp s := None)
        \<and> (errs = [] \<longleftrightarrow> locked \<and> \<not> cancelled \<and> g_Revalidate g (Some (Tree old)) = Some ErrSatisfied))
     \<and> st_spent s'"

text \<open>The stages of a locked commit, as \<open>Commit_stages\<close> takes it apart.\<close>

definition commit_staged ::
    "env \<Rightarrow> bool \<Rightarrow> Guard \<Rightarrow> Staged \<Rightarrow> world \<Rightarrow> gostring option \<Rightarrow> pub_error list \<Rightarrow> Staged \<Rightarrow> world
      \<Rightarrow> pub_error list \<Rightarrow> world \<Rightarrow> pub_error list \<Rightarrow> Staged \<Rightarrow> world \<Rightarrow> bool" where
  "commit_staged e cancelled g s w rep xs s1 w1 ys w2 errs s' w' \<longleftrightarrow>
     commitLocked e cancelled g s w = (rep, xs, s1, w1) \<and> removeReplaced e rep w1 = (ys, w2)
     \<and> (xs = [] \<longrightarrow> errs = ys \<and> w' = w2 \<and> st_spent s' = st_spent s1)
     \<and> (xs \<noteq> [] \<longrightarrow> (\<exists>zs. Discard e s1 w2 = (zs, s', w')
          \<and> errs = (if ErrSatisfied \<in> set xs then zs @ ys else xs @ ys)))"

lemma ready_parts:
  assumes "ready e s F old new"
  shows "F (st_dest s) = Some (Tree old)" "F (st_temp s) = Some (Tree new)" "st_dest s \<noteq> st_temp s"
    "\<not> st_spent s" "st_tree s"
  using assms by (auto simp: ready_def)

lemma refused_commit:
  assumes "ready e s F old new" "w_fs w = F" "calls_work e"
    and refused: "cancelled \<or> g_Revalidate g (Some (Tree old)) \<noteq> None"
    and st: "commit_staged e cancelled g s w rep xs s1 w1 ys w2 errs s' w'"
  shows "all_or_nothing cancelled True g s F old new errs s' (w_fs w')"
proof -
  note ne = ready_parts [OF assms(1)]
  have r: "requireStaged e s w = (None, tick w)"
    using Lstat_present [of w "st_temp s" "Tree new" e] ne assms(2,3) by (auto simp: requireStaged_def)
  have run: "commitLocked e cancelled g s w = (rep, xs, s1, w1)" using st by (simp add: commit_staged_def)
  have "cancelled \<Longrightarrow> xs = [Cancelled] \<and> s1 = s \<and> w1 = w \<and> rep = None"
    "\<not> cancelled \<Longrightarrow> g_Revalidate g (Some (Tree old)) = Some x \<Longrightarrow> xs = [x] \<and> s1 = s \<and> w_fs w1 = F \<and> rep = None" for x
    using run r assms(2) ne by (auto simp: commitLocked_def)
  then have u: "xs \<noteq> []" "s1 = s" "w_fs w1 = F" "rep = None"
      "ErrSatisfied \<in> set xs \<longleftrightarrow> \<not> cancelled \<and> g_Revalidate g (Some (Tree old)) = Some ErrSatisfied"
    using refused assms(2) by (cases cancelled; auto)+
  then have "ys = []" "w2 = w1" using removeReplaced_effect [of e rep w1 ys w2] st by (auto simp: commit_staged_def)
  moreover obtain zs where d: "Discard e s1 w2 = (zs, s', w')"
      "errs = (if ErrSatisfied \<in> set xs then zs @ ys else xs @ ys)" using st u(1) by (auto simp: commit_staged_def)
  ultimately show ?thesis
    using discard_works [OF assms(3) ne(4)] Discard_effect [OF d(1)] u d refused by (auto simp: all_or_nothing_def)
qed

lemma swapped_commit:
  assumes "ready e s F old new" "w_fs w = F" "calls_work e" "inj (e_names e)" "\<And>n. g_Verify g n \<noteq> Some ErrSatisfied"
    and ok: "\<not> cancelled" "g_Revalidate g (Some (Tree old)) = None"
    and st: "commit_staged e cancelled g s w rep xs s1 w1 ys w2 errs s' w'"
  shows "all_or_nothing cancelled True g s F old new errs s' (w_fs w')"
proof -
  note ne = ready_parts [OF assms(1)]
  have run: "commitLocked e cancelled g s w = (rep, xs, s1, w1)" "removeReplaced e rep w1 = (ys, w2)"
    using st by (simp_all add: commit_staged_def)
  have lr: "locked_result e cancelled g s F old new rep xs s1 (w_fs w1)"
    using commitLocked_spec [OF assms(1,2) run(1)] by simp
  consider (good) p where "st_spent s1" "xs = []" "g_Verify g (Some (Tree new)) = None"
      "p \<in> staging_names e s" "rep = Some p" "w_fs w1 = swapped s F old new p"
    | (rejected) x ys' p where "st_spent s1" "xs = x # ys'" "g_Verify g (Some (Tree new)) = Some x"
      "p \<in> staging_names e s" "rolled_back e s F old new p rep ys' (w_fs w1)"
    | (unspent) "\<not> st_spent s1" "xs \<noteq> []" "s1 = s"
    using lr by (auto simp: locked_result_def)
  then show ?thesis
  proof cases
    case good
    have rm: "ys = [] \<and> w_fs w2 = (w_fs w1)(p := None)" using removal_works [OF assms(3)] run(2) good(5) by blast
    have "(w_fs w1)(p := None) = F(st_temp s := None, st_dest s := Some (Tree new))"
      using staging_name_fresh [OF assms(1) good(4)] ne unfolding good(6) swapped_def by (auto simp: fun_eq_iff)
    then show ?thesis using st good rm ok by (simp add: commit_staged_def all_or_nothing_def)
  next
    case rejected
    then obtain q where q: "rep = Some q" "q \<noteq> st_dest s" "q = st_temp s \<or> F q = None"
        "w_fs w1 = F(st_temp s := None, q := Some (Tree new))" "ys' = []"
      using assms(3,4) by (auto simp: rolled_back_def split: option.splits)
    have rm: "ys = [] \<and> w_fs w2 = (w_fs w1)(q := None)" using removal_works [OF assms(3)] run(2) q(1) by blast
    have f: "(w_fs w1)(q := None) = F(st_temp s := None)" using q(2,3) unfolding q(4) by (auto simp: fun_eq_iff)
    obtain zs where d: "Discard e s1 w2 = (zs, s', w')"
        "errs = (if ErrSatisfied \<in> set xs then zs @ ys else xs @ ys)"
      using st rejected(2) by (auto simp: commit_staged_def)
    have "ErrSatisfied \<notin> set xs" using rejected(2,3) q(5) assms(5) by auto
    then show ?thesis using d Discard_effect [OF d(1)] rejected rm f ok by (simp add: all_or_nothing_def)
  next
    case unspent
    then show ?thesis using lr ok assms(3) by (auto simp: locked_result_def)
  qed
qed

text \<open>
  (C29) When no call fails, a commit of a tree over a tree is all or nothing: if the guard accepts
  before and after the rename and nothing cancels, the directory changes in exactly one entry, the
  destination, which holds the new tree, and the commit reports success; otherwise the directory is as
  before, the staged entry gone, and only an already satisfied destination is reported as success. A
  new tree that fails its verification is rolled back. Either way nothing staged is left behind.
\<close>

theorem commit_all_or_nothing:
  assumes "ready e s F old new" and "w_fs w = F" and "calls_work e" and "inj (e_names e)"
    and "\<And>n. g_Verify g n \<noteq> Some ErrSatisfied"
    and "Commit e cancelled locked g s w = (errs, s', w')"
  shows "(if locked \<and> \<not> cancelled \<and> g_Revalidate g (Some (Tree old)) = None \<and> g_Verify g (Some (Tree new)) = None
      then errs = [] \<and> w_fs w' = F(st_temp s := None, st_dest s := Some (Tree new))
      else w_fs w' = F(st_temp s := None)
        \<and> (errs = [] \<longleftrightarrow> locked \<and> \<not> cancelled \<and> g_Revalidate g (Some (Tree old)) = Some ErrSatisfied))
    \<and> st_spent s'"
proof (cases locked)
  case False
  note ne = ready_parts [OF assms(1)]
  obtain zs where d: "Discard e s w = (zs, s', w')" "errs = [LockFailed]"
    using Commit_unlocked [OF ne(4), of e cancelled g w errs s' w'] assms(6) False by auto
  then show ?thesis using discard_works [OF assms(3) ne(4) d(1)] Discard_effect [OF d(1)] False assms(2) by simp
next
  case True
  then have run: "Commit e cancelled True g s w = (errs, s', w')" using assms(6) by simp
  obtain rep xs s1 w1 ys w2 where st: "commit_staged e cancelled g s w rep xs s1 w1 ys w2 errs s' w'"
    using Commit_stages [OF ready_parts(4) [OF assms(1)] run] unfolding commit_staged_def by metis
  have "all_or_nothing cancelled True g s F old new errs s' (w_fs w')"
    using refused_commit [OF assms(1-3) _ st] swapped_commit [OF assms(1-5) _ _ st] by blast
  then show ?thesis using True by (simp add: all_or_nothing_def)
qed

subsection \<open>A concrete commit\<close>

definition sample_staged :: Staged where
  "sample_staged = \<lparr>st_dest = ''d'', st_temp = ''t'', st_tree = True, st_spent = False, st_leased = True\<rparr>"

definition sample_fs :: fs where
  "sample_fs = (\<lambda>_. None)(''d'' := Some (Tree 1), ''t'' := Some (Tree 2))"

definition sample_world :: world where
  "sample_world = \<lparr>w_fs = sample_fs, w_trace = [sample_fs], w_ops = 0, w_draws = 0\<rparr>"

text \<open>Staging names \<open>aa\<close>, \<open>aaa\<close>, ...; the second variant has an exchange that fails on its first call.\<close>

definition sample_env :: "bool \<Rightarrow> env" where
  "sample_env broken = \<lparr>e_fails = (\<lambda>k n. broken \<and> k = SExchange), e_exchange = True, e_allowed = True,
     e_names = (\<lambda>n. replicate (n + 2) (CHR ''a'')), e_partial = (\<lambda>_. 0)\<rparr>"

definition accept :: Guard where
  "accept = \<lparr>g_Revalidate = (\<lambda>_. None), g_Verify = (\<lambda>_. None)\<rparr>"

lemma sample_ready: "ready (sample_env b) sample_staged sample_fs 1 2"
  by (auto simp: ready_def sample_staged_def sample_fs_def sample_env_def)

theorem commit_crash_safe_witness:
  "\<exists>errs s' w'. Commit (sample_env True) False True accept sample_staged sample_world = (errs, s', w')
     \<and> list_all (safe_state (sample_env True) sample_staged 1 2) (w_trace w') \<and> 2 < length (w_trace w')"
proof -
  obtain errs s' w' where c: "Commit (sample_env True) False True accept sample_staged sample_world = (errs, s', w')"
    by (cases "Commit (sample_env True) False True accept sample_staged sample_world") auto
  then have "2 < length (w_trace w')"
    by (auto simp: Commit_def commitLocked_def requireStaged_def Lstat_def moveTree_def exchange_def perform_def
        move_aside_def stagingName_def Rename_def rename_fs_def removeReplaced_def removeAll_def RemoveAll_def
        put_def tick_def sample_env_def sample_staged_def sample_world_def sample_fs_def accept_def Let_def)
  then show ?thesis using commit_crash_safe [OF sample_ready, of sample_world] c by (auto simp: sample_world_def)
qed

theorem commit_all_or_nothing_witness:
  "\<exists>errs s' w'. Commit (sample_env False) False True accept sample_staged sample_world = (errs, s', w')
     \<and> errs = [] \<and> w_fs w' = sample_fs(''t'' := None, ''d'' := Some (Tree 2))"
proof -
  obtain errs s' w' where c: "Commit (sample_env False) False True accept sample_staged sample_world = (errs, s', w')"
    by (cases "Commit (sample_env False) False True accept sample_staged sample_world") auto
  have inj: "inj (e_names (sample_env False))" by (auto simp: sample_env_def inj_def)
  have calls: "calls_work (sample_env False)" by (simp add: calls_work_def sample_env_def)
  have fs: "w_fs sample_world = sample_fs" by (simp add: sample_world_def)
  have verify: "g_Verify accept n \<noteq> Some ErrSatisfied" for n by (simp add: accept_def)
  from commit_all_or_nothing [OF sample_ready fs calls inj verify c] c show ?thesis
    by (auto simp: accept_def sample_staged_def)
qed

end
