(* ===== verification/Stage_Name.thy ===== *)
theory Stage_Name
  imports Prelude
begin

text \<open>
  The names of staging entries, \<open>internal/publish/stagename\<close>: the exact shape publication writes, recovery
  looks for and tree digests leave out.
\<close>

subsection \<open>Staging names\<close>

definition ownerLen :: nat where "ownerLen = 8"
definition randomLen :: nat where "randomLen = 26"
definition nameLen :: nat where "nameLen = length ''.evo-'' + ownerLen + 1 + randomLen + length ''.tmp''"

definition only :: "gostring \<Rightarrow> gostring \<Rightarrow> bool" where
  "only s alphabet = list_all (\<lambda>c. c \<in> set alphabet) s"

text \<open>\<open>stagename.Is\<close>: the prefix, an owner tag in hex, a dash, the random part, the suffix; nothing else.\<close>

definition IsStaging :: "gostring \<Rightarrow> bool" where
  "IsStaging name =
     (if length name \<noteq> nameLen \<or> \<not> has_prefix name ''.evo-'' \<or> \<not> has_suffix name ''.tmp'' then False
      else (case cut (CHR ''-'') (drop 5 (take (length name - 4) name)) of
              (owner, rest, ok) \<Rightarrow>
                ok \<and> length owner = ownerLen \<and> only owner ''0123456789abcdef''
                \<and> length rest = randomLen \<and> only rest ''abcdefghijklmnopqrstuvwxyz234567''))"

text \<open>
  \<open>stagename.Owner\<close> and \<open>stagename.New\<close> on names: \<open>tag\<close> is the hex digest prefix of the destination's
  name, \<open>rnd\<close> the lowercased random text.
\<close>

definition Owner :: "gostring \<Rightarrow> gostring" where
  "Owner tag = ''.evo-'' @ tag @ ''-''"

definition NewName :: "gostring \<Rightarrow> gostring \<Rightarrow> gostring" where
  "NewName tag rnd = Owner tag @ rnd @ ''.tmp''"

lemma NewName_is_staging:
  assumes "length tag = ownerLen" "only tag ''0123456789abcdef''"
    and "length rnd = randomLen" "only rnd ''abcdefghijklmnopqrstuvwxyz234567''"
  shows "IsStaging (NewName tag rnd) \<and> has_prefix (NewName tag rnd) (Owner tag)"
proof -
  have suf: "has_suffix (NewName tag rnd) ''.tmp''"
    using has_suffix_append [of "Owner tag @ rnd"] by (simp add: NewName_def)
  have inner: "drop 5 (take (length (NewName tag rnd) - 4) (NewName tag rnd)) = tag @ CHR ''-'' # rnd"
    by (simp add: NewName_def Owner_def)
  have "CHR ''-'' \<notin> set ''0123456789abcdef''" by simp
  then have dash: "CHR ''-'' \<notin> set tag" using assms(2) unfolding only_def list_all_iff by blast
  then have "takeWhile (\<lambda>x. x \<noteq> CHR ''-'') (tag @ CHR ''-'' # rnd) = tag"
      "dropWhile (\<lambda>x. x \<noteq> CHR ''-'') (tag @ CHR ''-'' # rnd) = CHR ''-'' # rnd"
    by (induction tag) auto
  then have c: "cut (CHR ''-'') (tag @ CHR ''-'' # rnd) = (tag, rnd, True)" by (simp add: cut_def)
  have "has_prefix (NewName tag rnd) ''.evo-''" "length (NewName tag rnd) = nameLen"
    using assms by (simp_all add: NewName_def Owner_def nameLen_def)
  then show ?thesis
    using assms suf inner c by (simp add: IsStaging_def) (simp add: NewName_def)
qed

end
