(* ===== verification/Publish_Recover.thy ===== *)
theory Publish_Recover
  imports Publish_Commit Stage_Name
begin

text \<open>
  Settling a destination after an interrupted tree commit (\<open>internal/publish\<close>: \<open>recover.go\<close>,
  \<open>recover_decide.go\<close>, \<open>Leftovers\<close> of \<open>stage.go\<close>). The directory listing, the answers of
  the lease locks and the digest of a tree's content are parameters.
\<close>

subsection \<open>Leftovers\<close>

definition Leftovers :: "gostring list \<Rightarrow> gostring \<Rightarrow> gostring list" where
  "Leftovers listing owner = filter (\<lambda>name. IsStaging name \<and> has_prefix name owner) listing"

subsection \<open>Evidence\<close>

record Evidence =
  ev_Original :: gostring
  ev_Replacement :: gostring
  ev_Digest :: "nat \<Rightarrow> pub_error + gostring"

definition sameTree :: "gostring \<Rightarrow> gostring \<Rightarrow> bool" where
  "sameTree a b \<longleftrightarrow> a \<noteq> '''' \<and> a = b"

definition isOriginal :: "Evidence \<Rightarrow> gostring \<Rightarrow> bool" where
  "isOriginal ev tree = sameTree tree (ev_Original ev)"

definition isReplacement :: "Evidence \<Rightarrow> gostring \<Rightarrow> bool" where
  "isReplacement ev tree = sameTree tree (ev_Replacement ev)"

definition treeDigest :: "env \<Rightarrow> gostring \<Rightarrow> Evidence \<Rightarrow> world \<Rightarrow> (pub_error + gostring) \<times> world" where
  "treeDigest e path ev w =
     (case Lstat e path w of
        (Inl x, w') \<Rightarrow> (Inl x, w')
      | (Inr (Other _), w') \<Rightarrow> (Inl NotDirectory, w')
      | (Inr (Tree c), w') \<Rightarrow> (ev_Digest ev c, w'))"

subsection \<open>Leftovers\<close>

record leftover =
  lo_path :: gostring
  lo_tree :: gostring
  lo_live :: bool
  lo_lease :: bool

type_synonym leases = "gostring \<Rightarrow> pub_error + bool"

fun inspectLeftovers ::
  "env \<Rightarrow> Evidence \<Rightarrow> leases \<Rightarrow> gostring list \<Rightarrow> world \<Rightarrow> (pub_error + leftover list) \<times> world" where
  "inspectLeftovers e ev lease [] w = (Inr [], w)"
| "inspectLeftovers e ev lease (path # paths) w =
     (case lease path of
        Inl x \<Rightarrow> (Inl x, w)
      | Inr ok \<Rightarrow>
         (case (if ok then (case treeDigest e path ev w of
                              (Inr t, w1) \<Rightarrow> (\<lparr>lo_path = path, lo_tree = t, lo_live = False, lo_lease = True\<rparr>, w1)
                            | (Inl _, w1) \<Rightarrow> (\<lparr>lo_path = path, lo_tree = '''', lo_live = False, lo_lease = True\<rparr>, w1))
                else (\<lparr>lo_path = path, lo_tree = '''', lo_live = True, lo_lease = False\<rparr>, w)) of
            (l, w1) \<Rightarrow>
              (case inspectLeftovers e ev lease paths w1 of
                 (Inl x, w2) \<Rightarrow> (Inl x, w2)
               | (Inr ls, w2) \<Rightarrow> (Inr (l # ls), w2))))"

definition planned :: "Evidence \<Rightarrow> leftover \<Rightarrow> bool" where
  "planned ev l \<longleftrightarrow> \<not> lo_live l \<and> (isOriginal ev (lo_tree l) \<or> isReplacement ev (lo_tree l))"

text \<open>\<open>leftovers.original\<close>: the first leftover that provably holds the original, empty when there is none.\<close>

definition original :: "Evidence \<Rightarrow> leftover list \<Rightarrow> gostring" where
  "original ev found =
     (case find (\<lambda>l. \<not> lo_live l \<and> isOriginal ev (lo_tree l)) found of None \<Rightarrow> '''' | Some l \<Rightarrow> lo_path l)"

subsection \<open>Deciding\<close>

datatype Outcome = OutcomeIntact | OutcomeRestoredOriginal | OutcomeCompletedReplacement | OutcomeUnrecoverable

record decision =
  dc_outcome :: Outcome
  dc_restore :: gostring
  dc_remove :: "gostring list"
  dc_kept :: "gostring list"

definition sort_out :: "Evidence \<Rightarrow> leftover list \<Rightarrow> decision \<Rightarrow> decision" where
  "sort_out ev found d =
     d\<lparr>dc_kept := map lo_path (filter (\<lambda>l. lo_path l \<noteq> dc_restore d \<and> \<not> planned ev l) found),
       dc_remove := map lo_path (filter (\<lambda>l. lo_path l \<noteq> dc_restore d \<and> planned ev l) found)\<rparr>"

definition decide :: "env \<Rightarrow> gostring \<Rightarrow> Evidence \<Rightarrow> leftover list \<Rightarrow> world \<Rightarrow> (decision \<times> pub_error option) \<times> world" where
  "decide e dest ev found w =
     (let d = \<lparr>dc_outcome = OutcomeUnrecoverable, dc_restore = '''', dc_remove = [], dc_kept = map lo_path found\<rparr> in
      case treeDigest e dest ev w of
        (Inl x, w') \<Rightarrow>
          (if x = ENotExist then
             (let d' = d\<lparr>dc_restore := original ev found\<rparr> in
              if dc_restore d' = '''' then ((d', Some ErrUnrecoverable), w')
              else ((sort_out ev found (d'\<lparr>dc_outcome := OutcomeRestoredOriginal\<rparr>), None), w'))
           else ((d, Some ErrUnrecoverable), w'))
      | (Inr tree, w') \<Rightarrow>
          (if isOriginal ev tree then ((sort_out ev found (d\<lparr>dc_outcome := OutcomeIntact\<rparr>), None), w')
           else if isReplacement ev tree
           then ((sort_out ev found (d\<lparr>dc_outcome := OutcomeCompletedReplacement\<rparr>), None), w')
           else ((d, Some ErrUnrecoverable), w')))"

subsection \<open>Carrying it out\<close>

record Recovery =
  rc_Outcome :: Outcome
  rc_Kept :: "gostring list"

definition restoreOriginal :: "env \<Rightarrow> gostring \<Rightarrow> gostring \<Rightarrow> Evidence \<Rightarrow> world \<Rightarrow> pub_error option \<times> world" where
  "restoreOriginal e dest src ev w =
     (case Rename e src dest w of
        (Some x, w1) \<Rightarrow> (Some x, w1)
      | (None, w1) \<Rightarrow>
         (case treeDigest e dest ev w1 of
            (Inl x, w2) \<Rightarrow> (Some x, w2)
          | (Inr tree, w2) \<Rightarrow> (if \<not> isOriginal ev tree then Some BadDigest else None, w2)))"

fun removeAllOf :: "env \<Rightarrow> gostring list \<Rightarrow> gostring list \<Rightarrow> pub_error list \<Rightarrow> world \<Rightarrow> gostring list \<times> pub_error list \<times> world" where
  "removeAllOf e [] kept errs w = (kept, errs, w)"
| "removeAllOf e (p # ps) kept errs w =
     (case removeReplaced e (Some p) w of
        ([], w') \<Rightarrow> removeAllOf e ps kept errs w'
      | (ys, w') \<Rightarrow> removeAllOf e ps (kept @ [p]) (errs @ ys) w')"

definition apply_decision ::
  "env \<Rightarrow> gostring \<Rightarrow> Evidence \<Rightarrow> decision \<Rightarrow> world \<Rightarrow> Recovery \<times> pub_error list \<times> world" where
  "apply_decision e dest ev d w =
     (case (if dc_restore d \<noteq> '''' then restoreOriginal e dest (dc_restore d) ev w else (None, w)) of
        (Some x, w1) \<Rightarrow> (\<lparr>rc_Outcome = OutcomeUnrecoverable, rc_Kept = dc_kept d @ dc_remove d\<rparr>, [x], w1)
      | (None, w1) \<Rightarrow>
         (case removeAllOf e (dc_remove d) (dc_kept d) [] w1 of
            (kept, errs, w2) \<Rightarrow> (\<lparr>rc_Outcome = dc_outcome d, rc_Kept = kept\<rparr>, errs, w2)))"

definition settleLocked ::
  "env \<Rightarrow> gostring \<Rightarrow> Evidence \<Rightarrow> leftover list \<Rightarrow> bool \<Rightarrow> world \<Rightarrow> Recovery \<times> pub_error list \<times> world" where
  "settleLocked e dest ev found apply w =
     (case decide e dest ev found w of
        ((d, err), w') \<Rightarrow>
          (if err \<noteq> None \<or> \<not> apply
           then (\<lparr>rc_Outcome = dc_outcome d, rc_Kept = dc_kept d\<rparr>, case err of None \<Rightarrow> [] | Some x \<Rightarrow> [x], w')
           else apply_decision e dest ev d w'))"

definition settle ::
  "env \<Rightarrow> bool \<Rightarrow> leases \<Rightarrow> gostring list \<Rightarrow> gostring \<Rightarrow> Evidence \<Rightarrow> bool \<Rightarrow> world \<Rightarrow> Recovery \<times> pub_error list \<times> world" where
  "settle e locked lease entries dest ev apply w =
     (if \<not> locked then (\<lparr>rc_Outcome = OutcomeUnrecoverable, rc_Kept = []\<rparr>, [LockFailed], w)
      else case inspectLeftovers e ev lease entries w of
        (Inl x, w') \<Rightarrow> (\<lparr>rc_Outcome = OutcomeUnrecoverable, rc_Kept = []\<rparr>, [x], w')
      | (Inr found, w') \<Rightarrow> settleLocked e dest ev found apply w')"

definition Recover ::
  "env \<Rightarrow> bool \<Rightarrow> leases \<Rightarrow> gostring list \<Rightarrow> gostring \<Rightarrow> Evidence \<Rightarrow> world \<Rightarrow> Recovery \<times> pub_error list \<times> world" where
  "Recover e locked lease entries dest ev w = settle e locked lease entries dest ev True w"

definition PlanRecover ::
  "env \<Rightarrow> bool \<Rightarrow> leases \<Rightarrow> gostring list \<Rightarrow> gostring \<Rightarrow> Evidence \<Rightarrow> world \<Rightarrow> Recovery \<times> pub_error list \<times> world" where
  "PlanRecover e locked lease entries dest ev w = settle e locked lease entries dest ev False w"

subsection \<open>What recovery may touch\<close>

text \<open>
  Content \<open>c\<close> at a staging name nobody live owns and whose digest is one of the planned trees: what
  recovery may delete or move.
\<close>

definition known_tree :: "Evidence \<Rightarrow> nat \<Rightarrow> bool" where
  "known_tree ev c \<longleftrightarrow> (\<exists>t. ev_Digest ev c = Inr t \<and> (isOriginal ev t \<or> isReplacement ev t))"

definition original_tree :: "Evidence \<Rightarrow> nat \<Rightarrow> bool" where
  "original_tree ev c \<longleftrightarrow> (\<exists>t. ev_Digest ev c = Inr t \<and> isOriginal ev t)"

definition own_leftover :: "Evidence \<Rightarrow> leases \<Rightarrow> gostring list \<Rightarrow> fs \<Rightarrow> gostring \<Rightarrow> bool" where
  "own_leftover ev lease entries F p \<longleftrightarrow>
     p \<in> set entries \<and> lease p = Inr True \<and> (\<exists>c. F p = Some (Tree c) \<and> known_tree ev c)"

lemma treeDigest_world: "treeDigest e p ev w = (r, w') \<Longrightarrow> w' = tick w"
  by (auto simp: treeDigest_def Lstat_def split: if_splits option.splits node.splits)

lemma treeDigest_Inr:
  "treeDigest e p ev w = (Inr t, w') \<Longrightarrow> \<exists>c. w_fs w p = Some (Tree c) \<and> ev_Digest ev c = Inr t"
  by (auto simp: treeDigest_def Lstat_def split: if_splits option.splits node.splits)

lemma isOriginal_nonempty: "isOriginal ev t \<or> isReplacement ev t \<Longrightarrow> t \<noteq> ''''"
  by (auto simp: isOriginal_def isReplacement_def sameTree_def)

text \<open>An inspected leftover that counts as planned is an own leftover, and nothing has changed.\<close>

lemma inspect_spec:
  "inspectLeftovers e ev lease paths w = (Inr found, w') \<Longrightarrow>
     w_fs w' = w_fs w \<and> w_trace w' = w_trace w \<and> map lo_path found = paths
     \<and> (\<forall>l\<in>set found. \<not> lo_live l \<longrightarrow> lo_tree l \<noteq> '''' \<longrightarrow> lease (lo_path l) = Inr True
          \<and> (\<exists>c. w_fs w (lo_path l) = Some (Tree c) \<and> ev_Digest ev c = Inr (lo_tree l)))"
proof (induction paths arbitrary: w found)
  case (Cons p ps)
  obtain ok where ok: "lease p = Inr ok" using Cons.prems by (cases "lease p") auto
  define head where "head = (if ok then (case treeDigest e p ev w of
      (Inr t, w1) \<Rightarrow> (\<lparr>lo_path = p, lo_tree = t, lo_live = False, lo_lease = True\<rparr>, w1)
    | (Inl _, w1) \<Rightarrow> (\<lparr>lo_path = p, lo_tree = '''', lo_live = False, lo_lease = True\<rparr>, w1))
    else (\<lparr>lo_path = p, lo_tree = '''', lo_live = True, lo_lease = False\<rparr>, w))"
  obtain l w1 where h: "head = (l, w1)" by fastforce
  have l: "w_fs w1 = w_fs w \<and> w_trace w1 = w_trace w \<and> lo_path l = p
      \<and> (\<not> lo_live l \<longrightarrow> lo_tree l \<noteq> '''' \<longrightarrow> ok \<and> (\<exists>c. w_fs w p = Some (Tree c) \<and> ev_Digest ev c = Inr (lo_tree l)))"
  proof (cases ok)
    case True
    obtain r w2 where r: "treeDigest e p ev w = (r, w2)" by fastforce
    then show ?thesis using h True treeDigest_world [OF r] treeDigest_Inr [of e p ev w]
      by (cases r) (auto simp: head_def)
  qed (use h in \<open>auto simp: head_def\<close>)
  obtain ls where ls: "inspectLeftovers e ev lease ps w1 = (Inr ls, w')" "found = l # ls"
    using Cons.prems ok h by (auto simp: head_def [symmetric] split: sum.splits prod.splits)
  show ?case using Cons.IH [OF ls(1)] l ok ls(2) by auto
qed auto

lemma planned_own:
  assumes "inspectLeftovers e ev lease entries w = (Inr found, w')" "l \<in> set found" "planned ev l"
  shows "own_leftover ev lease entries (w_fs w) (lo_path l)"
proof -
  have "lo_tree l \<noteq> ''''" "\<not> lo_live l" using assms(3) isOriginal_nonempty by (auto simp: planned_def)
  then show ?thesis using inspect_spec [OF assms(1)] assms(2,3)
    by (fastforce simp: own_leftover_def planned_def known_tree_def)
qed

lemma original_own:
  assumes "inspectLeftovers e ev lease entries w = (Inr found, w')" "original ev found \<noteq> ''''"
  shows "\<exists>c. own_leftover ev lease entries (w_fs w) (original ev found)
    \<and> w_fs w (original ev found) = Some (Tree c) \<and> original_tree ev c"
proof -
  obtain l where l: "l \<in> set found" "\<not> lo_live l" "isOriginal ev (lo_tree l)" "original ev found = lo_path l"
    using assms(2) by (auto simp: original_def find_Some_iff split: option.splits) (metis nth_mem)
  then have "lo_tree l \<noteq> ''''" using isOriginal_nonempty by blast
  then show ?thesis
    using planned_own [OF assms(1) l(1)] inspect_spec [OF assms(1)] l
    by (fastforce simp: planned_def original_tree_def)
qed

text \<open>The states recovery passes through: only own leftovers change, and only an absent destination.\<close>

definition recovery_state :: "Evidence \<Rightarrow> leases \<Rightarrow> gostring list \<Rightarrow> gostring \<Rightarrow> fs \<Rightarrow> fs \<Rightarrow> bool" where
  "recovery_state ev lease entries dest F f \<longleftrightarrow>
     (\<forall>p. p \<noteq> dest \<longrightarrow> f p = F p \<or> own_leftover ev lease entries F p)
     \<and> (f dest = F dest \<or> (F dest = None \<and> (\<exists>c. f dest = Some (Tree c) \<and> original_tree ev c)))"

lemma removeAllOf_effect:
  "removeAllOf e ps kept errs w = (kept', errs', w') \<Longrightarrow> dest \<notin> set ps \<Longrightarrow>
     \<forall>p\<in>set ps. own_leftover ev lease entries F p \<Longrightarrow> recovery_state ev lease entries dest F (w_fs w)
     \<Longrightarrow> extends (recovery_state ev lease entries dest F) w w' \<and> recovery_state ev lease entries dest F (w_fs w')
       \<and> w_fs w' dest = w_fs w dest \<and> set kept \<subseteq> set kept' \<and> set kept' \<subseteq> set kept \<union> set ps"
proof (induction ps arbitrary: kept errs w)
  case (Cons p ps)
  obtain ys w1 where r: "removeReplaced e (Some p) w = (ys, w1)" by fastforce
  obtain v where v: "w_fs w1 = (w_fs w)(p := v)" "extends (\<lambda>f. \<exists>v. f = (w_fs w)(p := v)) w w1"
    using removeReplaced_effect [OF r] by blast
  have keep: "recovery_state ev lease entries dest F ((w_fs w)(p := v))" for v
    using Cons.prems(2-4) by (auto simp: recovery_state_def)
  have e1: "extends (recovery_state ev lease entries dest F) w w1"
    by (rule extends_mono [OF v(2)]) (use keep in auto)
  obtain kept1 errs1 where n: "removeAllOf e ps kept1 errs1 w1 = (kept', errs', w')"
      "set kept \<subseteq> set kept1" "set kept1 \<subseteq> set kept \<union> {p}"
    using Cons.prems(1) r by (cases ys) fastforce+
  have d1: "w_fs w1 dest = w_fs w dest" using v(1) Cons.prems(2) by auto
  have s1: "recovery_state ev lease entries dest F (w_fs w1)" unfolding v(1) by (rule keep)
  have "dest \<notin> set ps" "\<forall>p\<in>set ps. own_leftover ev lease entries F p" using Cons.prems(2,3) by auto
  note ih = Cons.IH [OF n(1) this s1]
  have "extends (recovery_state ev lease entries dest F) w w'" using ih e1 by (blast intro: extends_trans)
  then show ?case using ih d1 n(2,3) by auto
qed simp

lemma restore_effect:
  assumes "restoreOriginal e dest src ev w = (r, w')" "src \<noteq> dest" "w_fs w dest = None"
    and "w_fs w src = Some (Tree c)" "original_tree ev c" "own_leftover ev lease entries (w_fs w) src"
  shows "extends (recovery_state ev lease entries dest (w_fs w)) w w' \<and> recovery_state ev lease entries dest (w_fs w) (w_fs w')
    \<and> (r = None \<longrightarrow> w_fs w' dest = Some (Tree c)) \<and> (calls_work e \<longrightarrow> r = None)"
proof (cases rule: Rename_cases [of e src dest w])
  case (failed x)
  then have "r = Some x" "w' = tick w" using assms(1) by (auto simp: restoreOriginal_def)
  then show ?thesis using failed assms(3,4) by (auto simp: recovery_state_def)
next
  case (okay n)
  define w1 where "w1 = put ((w_fs w)(src := None, dest := Some n)) (tick w)"
  obtain t where t: "ev_Digest ev c = Inr t" "isOriginal ev t" using assms(5) by (auto simp: original_tree_def)
  obtain r1 w2 where d: "treeDigest e dest ev w1 = (r1, w2)" by fastforce
  have n: "n = Tree c" using okay(1) assms(4) by simp
  have w': "w' = w2" "w2 = tick w1"
    using assms(1) okay(2) d treeDigest_world [OF d]
    by (auto simp: restoreOriginal_def w1_def [symmetric] split: sum.splits)
  have f1: "w_fs w1 = (w_fs w)(src := None, dest := Some (Tree c))" by (simp add: w1_def n)
  have s: "recovery_state ev lease entries dest (w_fs w) (w_fs w1)"
    using assms by (auto simp: recovery_state_def f1)
  have "extends (recovery_state ev lease entries dest (w_fs w)) w w1"
    unfolding w1_def using s by (intro extends_putI) (simp_all add: w1_def)
  moreover have "r = None" if "calls_work e"
  proof -
    have "treeDigest e dest ev w1 = (Inr t, tick w1)"
      using that t(1) f1 by (simp add: treeDigest_def Lstat_def calls_work_def)
    then show ?thesis using assms(1) okay(2) t(2) by (simp add: restoreOriginal_def w1_def [symmetric])
  qed
  ultimately show ?thesis using w' s f1 by simp
qed

lemma decide_spec:
  assumes "decide e dest ev found w = ((d, err), w')"
  shows "w' = tick w \<and> (err \<noteq> None \<longrightarrow> dc_outcome d = OutcomeUnrecoverable \<and> dc_kept d = map lo_path found)
    \<and> (err = None \<longrightarrow> dc_outcome d \<noteq> OutcomeUnrecoverable
        \<and> dc_kept d = map lo_path (filter (\<lambda>l. lo_path l \<noteq> dc_restore d \<and> \<not> planned ev l) found)
        \<and> dc_remove d = map lo_path (filter (\<lambda>l. lo_path l \<noteq> dc_restore d \<and> planned ev l) found)
        \<and> (dc_restore d \<noteq> '''' \<longrightarrow> dc_restore d = original ev found \<and> w_fs w dest = None \<or> dc_restore d = original ev found \<and> (\<exists>c. w_fs w dest = Some (Tree c) \<and> ev_Digest ev c = Inl ENotExist))
        \<and> (dc_restore d = '''' \<longrightarrow> (\<exists>c. w_fs w dest = Some (Tree c) \<and> known_tree ev c)))"
proof -
  obtain r w1 where r: "treeDigest e dest ev w = (r, w1)" by fastforce
  have w1: "w1 = tick w" using treeDigest_world [OF r] .
  have absent: "w_fs w dest = None \<or> (\<exists>c. w_fs w dest = Some (Tree c) \<and> ev_Digest ev c = Inl ENotExist)" if "r = Inl ENotExist"
    using r that by (auto simp: treeDigest_def Lstat_def split: if_splits option.splits node.splits)
  show ?thesis
  proof (cases r)
    case (Inl x)
    then show ?thesis using assms r w1 absent
      by (auto simp: decide_def Let_def sort_out_def split: if_splits)
  next
    case (Inr t)
    then have "\<exists>c. w_fs w dest = Some (Tree c) \<and> ev_Digest ev c = Inr t" using treeDigest_Inr r by blast
    then show ?thesis using assms r w1 Inr
      by (auto simp: decide_def Let_def sort_out_def known_tree_def split: if_splits)
  qed
qed

lemma restore_present:
  assumes "restoreOriginal e dest src ev w = (r, w')" "w_fs w dest = Some (Tree c)"
  shows "r \<noteq> None \<and> w' = tick w"
proof (cases rule: Rename_cases [of e src dest w])
  case (failed x)
  then show ?thesis using assms by (auto simp: restoreOriginal_def)
qed (use assms(2) in auto)

text \<open>An inspection that fails has changed nothing.\<close>

lemma inspect_error_world:
  "inspectLeftovers e ev lease ps v = (Inl x, v') \<Longrightarrow> w_fs v' = w_fs v \<and> w_trace v' = w_trace v"
proof (induction ps arbitrary: v)
  case (Cons p ps)
  then show ?case by (auto split: sum.splits if_splits prod.splits dest: treeDigest_world)
qed simp

text \<open>The first half of a decision, putting the original back, keeps the recovery state.\<close>

lemma restore_keeps_state:
  assumes i: "inspectLeftovers e ev lease entries w = (Inr found, w1)" and "w_fs w1 = F" and "dest \<notin> set entries"
    and d: "dc_restore d \<noteq> '''' \<longrightarrow> dc_restore d = original ev found \<and> F dest = None \<or> (\<exists>c. F dest = Some (Tree c))"
    and x: "(if dc_restore d \<noteq> '''' then restoreOriginal e dest (dc_restore d) ev (tick w1) else (None, tick w1)) = (x, w3)"
  defines "P \<equiv> recovery_state ev lease entries dest F"
  shows "extends P (tick w1) w3 \<and> P (w_fs w3)"
proof (cases "dc_restore d = ''''")
  case True
  then show ?thesis using x assms(2) by (auto simp: P_def recovery_state_def)
next
  case False
  have s0: "P F" by (simp add: P_def recovery_state_def)
  have w1: "w_fs w1 = w_fs w" using inspect_spec [OF i] by simp
  have rs: "restoreOriginal e dest (dc_restore d) ev (tick w1) = (x, w3)" using x False by simp
  consider "dc_restore d = original ev found" "F dest = None" | c where "F dest = Some (Tree c)"
    using d False by auto
  then show ?thesis
  proof cases
    case 1
    obtain c where c: "own_leftover ev lease entries F (dc_restore d)" "F (dc_restore d) = Some (Tree c)" "original_tree ev c"
      using original_own [OF i] False 1 assms(2) w1 by auto
    then have "dc_restore d \<noteq> dest" using assms(3) by (auto simp: own_leftover_def)
    then show ?thesis using restore_effect [OF rs, of c lease entries] 1 c assms(2) by (simp add: P_def)
  next
    case 2
    then show ?thesis using restore_present [OF rs, of c] assms(2) s0 by simp
  qed
qed

text \<open>A recovery that has inspected the leftovers keeps the recovery state, whatever it decides.\<close>

lemma settle_keeps_state:
  assumes i: "inspectLeftovers e ev lease entries w = (Inr found, w1)" and "w_fs w = F" and "dest \<notin> set entries"
    and run: "settleLocked e dest ev found True w1 = (rc, errs, w')"
  defines "P \<equiv> recovery_state ev lease entries dest F"
  shows "extends P w w' \<and> P (w_fs w')"
proof -
  note ins = inspect_spec [OF i]
  have f1: "w_fs w1 = F" "w_trace w1 = w_trace w" using ins assms(2) by auto
  have s0: "P F" by (simp add: P_def recovery_state_def)
  obtain d err w2 where d: "decide e dest ev found w1 = ((d, err), w2)" by (metis surj_pair)
  note ds = decide_spec [OF d]
  have w2: "w2 = tick w1" using ds by simp
  have e0: "extends P w w2" using w2 f1 by (simp add: extends_def)
  show ?thesis
  proof (cases "err = None")
    case False
    then show ?thesis using run d w2 f1 s0 e0 by (auto simp: settleLocked_def)
  next
    case ok: True
    have rem: "\<forall>p\<in>set (dc_remove d). own_leftover ev lease entries F p" "dest \<notin> set (dc_remove d)"
      using ds ok planned_own [OF i] assms(2,3) by (auto simp: own_leftover_def)
    obtain x w3 where x: "(if dc_restore d \<noteq> '''' then restoreOriginal e dest (dc_restore d) ev w2 else (None, w2)) = (x, w3)"
      by fastforce
    have step: "extends P w2 w3 \<and> P (w_fs w3)"
      using restore_keeps_state [OF i f1(1) assms(3) _ x [unfolded w2]] ds ok f1(1) w2 unfolding P_def by auto
    show ?thesis
    proof (cases x)
      case (Some y)
      then have "w' = w3" using run d ok x by (simp add: settleLocked_def apply_decision_def)
      then show ?thesis using step e0 by (auto intro: extends_trans)
    next
      case None
      obtain kept errs' w4 where ra: "removeAllOf e (dc_remove d) (dc_kept d) [] w3 = (kept, errs', w4)" by (metis surj_pair)
      then have "w' = w4" using run d ok x None by (simp add: settleLocked_def apply_decision_def)
      then show ?thesis using removeAllOf_effect [OF ra rem(2,1)] step e0 unfolding P_def by (blast intro: extends_trans)
    qed
  qed
qed

text \<open>
  (C28) Recovery never destroys what it has not proven redundant: under any failures, in every state it
  passes through, the only other entries that change are leftovers of the destination that no live
  writer owns and whose content digests to one of the two planned trees; the destination changes only
  from absent to a tree that digests to the original.
\<close>

theorem recover_changes:
  assumes "dest \<notin> set entries" and "w_fs w = F" and "w_trace w = [F]"
    and "Recover e locked lease entries dest ev w = (rc, errs, w')"
  shows "list_all (recovery_state ev lease entries dest F) (w_trace w')
    \<and> recovery_state ev lease entries dest F (w_fs w')"
proof -
  let ?P = "recovery_state ev lease entries dest F"
  have s0: "?P F" by (simp add: recovery_state_def)
  obtain r w1 where i: "inspectLeftovers e ev lease entries w = (r, w1)" by fastforce
  have "extends ?P w w' \<and> ?P (w_fs w')"
  proof (cases "locked \<and> is_ok r")
    case False
    then show ?thesis using assms(2,4) s0 i inspect_error_world [of e ev lease entries w _ w1]
      by (cases r; cases locked) (auto simp: Recover_def settle_def extends_def)
  next
    case True
    then obtain found where r: "r = Inr found" by (auto simp: is_ok_iff)
    then have "settleLocked e dest ev found True w1 = (rc, errs, w')"
      using assms(4) True i by (simp add: Recover_def settle_def)
    then show ?thesis using settle_keeps_state [OF i [unfolded r] assms(2,1)] by blast
  qed
  then show ?thesis using assms(3) s0 by (auto simp: extends_def)
qed

subsection \<open>A crash, then recovery\<close>

lemma inspect_total:
  "calls_work e \<Longrightarrow> \<forall>p\<in>set paths. lease p = Inr True \<Longrightarrow>
     \<exists>found w'. inspectLeftovers e ev lease paths w = (Inr found, w') \<and> w_fs w' = w_fs w
       \<and> (\<forall>p\<in>set paths. \<forall>c t. w_fs w p = Some (Tree c) \<longrightarrow> ev_Digest ev c = Inr t \<longrightarrow>
            (\<exists>l\<in>set found. lo_path l = p \<and> \<not> lo_live l \<and> lo_tree l = t))"
proof (induction paths arbitrary: w)
  case (Cons p ps)
  obtain r w1 where r: "treeDigest e p ev w = (r, w1)" by fastforce
  have w1: "w_fs w1 = w_fs w" using treeDigest_world [OF r] by simp
  obtain found w2 where f: "inspectLeftovers e ev lease ps w1 = (Inr found, w2)" "w_fs w2 = w_fs w1"
      "\<forall>p\<in>set ps. \<forall>c t. w_fs w1 p = Some (Tree c) \<longrightarrow> ev_Digest ev c = Inr t \<longrightarrow>
        (\<exists>l\<in>set found. lo_path l = p \<and> \<not> lo_live l \<and> lo_tree l = t)"
    using Cons.IH [OF Cons.prems(1), of w1] Cons.prems(2) by auto
  have "r = Inr t" if "w_fs w p = Some (Tree c)" "ev_Digest ev c = Inr t" for c t
    using r that Cons.prems(1) by (simp add: treeDigest_def Lstat_def calls_work_def)
  then show ?case using Cons.prems(2) r f w1 by (cases r) fastforce+
qed simp

text \<open>Evidence that tells the two trees apart from everything else.\<close>

definition conclusive :: "Evidence \<Rightarrow> nat \<Rightarrow> nat \<Rightarrow> bool" where
  "conclusive ev old new \<longleftrightarrow>
     ev_Digest ev old = Inr (ev_Original ev) \<and> ev_Original ev \<noteq> ''''
     \<and> ev_Digest ev new = Inr (ev_Replacement ev) \<and> ev_Replacement ev \<noteq> ''''
     \<and> (\<forall>c. original_tree ev c \<longrightarrow> c = old)"

lemma recover_settles:
  assumes "f dest = Some (Tree old) \<or> f dest = Some (Tree new)
      \<or> (f dest = None \<and> (\<exists>p\<in>set entries. f p = Some (Tree old)))"
    and "dest \<notin> set entries" "'''' \<notin> set entries" "calls_work e" "conclusive ev old new"
    and "\<forall>p\<in>set entries. lease p = Inr True" "w_fs w = f"
    and "Recover e True lease entries dest ev w = (rc, errs, w')"
  shows "rc_Outcome rc \<noteq> OutcomeUnrecoverable
    \<and> w_fs w' dest = (if f dest = None then Some (Tree old) else f dest)"
proof -
  obtain found w1 where i: "inspectLeftovers e ev lease entries w = (Inr found, w1)" and f1: "w_fs w1 = f"
    and seen: "\<forall>p\<in>set entries. \<forall>c t. f p = Some (Tree c) \<longrightarrow> ev_Digest ev c = Inr t \<longrightarrow>
        (\<exists>l\<in>set found. lo_path l = p \<and> \<not> lo_live l \<and> lo_tree l = t)"
    using inspect_total [OF assms(4,6), of ev w] assms(7) by auto
  have c: "ev_Digest ev old = Inr (ev_Original ev)" "isOriginal ev (ev_Original ev)"
      "ev_Digest ev new = Inr (ev_Replacement ev)" "isReplacement ev (ev_Replacement ev)"
    using assms(5) by (auto simp: conclusive_def isOriginal_def isReplacement_def sameTree_def)
  obtain d err w2 where d: "decide e dest ev found w1 = ((d, err), w2)" by (metis surj_pair)
  note ds = decide_spec [OF d]
  have run: "settleLocked e dest ev found True w1 = (rc, errs, w')"
    using assms(8) i by (simp add: Recover_def settle_def)
  have look: "Lstat e dest w1 = (case f dest of None \<Rightarrow> Inl ENotExist | Some n \<Rightarrow> Inr n, tick w1)"
    using assms(4) f1 by (simp add: Lstat_def calls_work_def)
  have rem: "dest \<notin> set (dc_remove d)" "err = None \<Longrightarrow> \<forall>p\<in>set (dc_remove d). own_leftover ev lease entries f p"
  proof -
    show own: "\<forall>p\<in>set (dc_remove d). own_leftover ev lease entries f p" if "err = None"
      using ds that planned_own [OF i] assms(7) by auto
    show "dest \<notin> set (dc_remove d)"
    proof (cases "err = None")
      case True
      then show ?thesis using own assms(2) by (auto simp: own_leftover_def)
    next
      case False
      then show ?thesis using d
        by (auto simp: decide_def Let_def sort_out_def split: prod.splits sum.splits if_splits)
    qed
  qed
  have finish: "rc_Outcome rc \<noteq> OutcomeUnrecoverable \<and> w_fs w' dest = w_fs w3 dest"
    if "err = None" "recovery_state ev lease entries dest f (w_fs w3)"
      "(if dc_restore d \<noteq> '''' then restoreOriginal e dest (dc_restore d) ev w2 else (None, w2)) = (None, w3)" for w3
  proof -
    obtain kept errs' w4 where ra: "removeAllOf e (dc_remove d) (dc_kept d) [] w3 = (kept, errs', w4)" by (metis surj_pair)
    then have "w' = w4" "rc_Outcome rc = dc_outcome d"
      using run d that by (auto simp: settleLocked_def apply_decision_def)
    then show ?thesis using removeAllOf_effect [OF ra rem(1) rem(2) [OF that(1)] that(2)] ds that(1) by auto
  qed
  show ?thesis
  proof (cases "f dest")
    case (Some n)
    then have n: "n = Tree old \<or> n = Tree new" using assms(1) by auto
    then have "err = None \<and> dc_restore d = ''''"
      using d look Some c
      by (auto simp: decide_def treeDigest_def Let_def sort_out_def split: if_splits)
    moreover have "w_fs w2 = f" using ds f1 by simp
    moreover have "recovery_state ev lease entries dest f f" by (simp add: recovery_state_def)
    ultimately show ?thesis using finish [of w2] Some by simp
  next
    case None
    then obtain p where p: "p \<in> set entries" "f p = Some (Tree old)" using assms(1) by auto
    obtain l where l: "l \<in> set found" "lo_path l = p" "\<not> lo_live l" "lo_tree l = ev_Original ev"
      using seen p c(1) by blast
    then have "find (\<lambda>l. \<not> lo_live l \<and> isOriginal ev (lo_tree l)) found \<noteq> None"
      using c(2) by (auto simp: find_None_iff)
    then obtain l' where l': "find (\<lambda>l. \<not> lo_live l \<and> isOriginal ev (lo_tree l)) found = Some l'" by auto
    then have "l' \<in> set found" by (auto simp: find_Some_iff)
    then have "lo_path l' \<in> set entries" using inspect_spec [OF i] by (metis list.set_map image_eqI)
    then have o: "original ev found \<noteq> ''''" using l' assms(3) by (auto simp: original_def)
    obtain k where k: "own_leftover ev lease entries f (original ev found)" "f (original ev found) = Some (Tree k)"
        "original_tree ev k" using original_own [OF i o] assms(7) by auto
    have ko: "k = old" using k(3) assms(5) by (simp add: conclusive_def)
    have e: "err = None \<and> dc_restore d = original ev found"
      using d look None o by (auto simp: decide_def treeDigest_def Let_def sort_out_def split: if_splits)
    have w2: "w_fs w2 = f" using ds f1 by simp
    obtain x w3 where r: "restoreOriginal e dest (original ev found) ev w2 = (x, w3)" by fastforce
    have "original ev found \<noteq> dest" using k(1) assms(2) by (auto simp: own_leftover_def)
    then have "x = None" "recovery_state ev lease entries dest f (w_fs w3)" "w_fs w3 dest = Some (Tree old)"
      using restore_effect [OF r, of k lease entries] k None w2 assms(4) ko by auto
    then show ?thesis using finish [of w3] e o r None by simp
  qed
qed

text \<open>
  (C7) A crash at any point of a tree commit is repaired: for every state a commit passes through,
  under any failures of its own, a later recovery whose calls work, with all leases free, the staging
  names listed and evidence that tells the two trees apart, never gives up and leaves the destination
  holding one of the two trees whole; it keeps the tree that is there and puts the old one back where
  there is none. Commit, crash and recovery together are atomic.
\<close>

theorem crash_then_recover:
  assumes "ready e s F old new" "w_fs w = F" "w_trace w = [F]"
    and "Commit e cancelled locked g s w = (errs, s', w')" and "f \<in> set (w_trace w')"
    and "{p \<in> staging_names e s. f p \<noteq> None} \<subseteq> set entries" "st_dest s \<notin> set entries" "'''' \<notin> set entries"
    and "calls_work e'" "conclusive ev old new" "\<forall>p\<in>set entries. lease p = Inr True" "w_fs v = f"
    and "Recover e' True lease entries (st_dest s) ev v = (rc, rerrs, v')"
  shows "rc_Outcome rc \<noteq> OutcomeUnrecoverable
    \<and> w_fs v' (st_dest s) = (if f (st_dest s) = None then Some (Tree old) else f (st_dest s))
    \<and> (w_fs v' (st_dest s) = Some (Tree old) \<or> w_fs v' (st_dest s) = Some (Tree new))"
proof -
  have "safe_state e s old new F" using assms(1) by (simp add: safe_state_def ready_def)
  then have "safe_state e s old new f"
    using Commit_safe [OF assms(1,2,4)] assms(3,5) by (auto simp: extends_def list_all_iff)
  then have "f (st_dest s) = Some (Tree old) \<or> f (st_dest s) = Some (Tree new)
      \<or> (f (st_dest s) = None \<and> (\<exists>p\<in>set entries. f p = Some (Tree old)))"
    using assms(6) by (auto simp: safe_state_def)
  from recover_settles [OF this assms(7-13)] this show ?thesis by auto
qed

definition sample_evidence :: Evidence where
  "sample_evidence = \<lparr>ev_Original = ''o'', ev_Replacement = ''n'',
     ev_Digest = (\<lambda>c. if c = 1 then Inr ''o'' else if c = 2 then Inr ''n'' else Inr ''x'')\<rparr>"

lemma sample_conclusive: "conclusive sample_evidence 1 2"
  by (auto simp: conclusive_def sample_evidence_def original_tree_def isOriginal_def sameTree_def split: if_splits)

text \<open>The exchange fails, and the crash comes right after the old tree moved aside.\<close>

definition crashed :: fs where
  "crashed = sample_fs(''d'' := None, ''aa'' := Some (Tree 1))"

lemma sample_crash:
  "\<exists>errs s' w'. Commit (sample_env True) False True accept sample_staged sample_world = (errs, s', w')
     \<and> crashed \<in> set (w_trace w')"
  by (simp add: Commit_def commitLocked_def requireStaged_def Lstat_def moveTree_def exchange_def perform_def
      move_aside_def stagingName_def Rename_def rename_fs_def removeReplaced_def removeAll_def RemoveAll_def
      put_def tick_def sample_env_def sample_staged_def sample_world_def sample_fs_def accept_def Let_def crashed_def
      numeral_2_eq_2)

theorem crash_then_recover_witness:
  "\<exists>rc errs v'. Recover (sample_env False) True (\<lambda>_. Inr True) [''aa'', ''t''] ''d'' sample_evidence
       \<lparr>w_fs = crashed, w_trace = [], w_ops = 0, w_draws = 0\<rparr> = (rc, errs, v')
     \<and> rc_Outcome rc \<noteq> OutcomeUnrecoverable \<and> w_fs v' ''d'' = Some (Tree 1)"
proof -
  let ?v = "\<lparr>w_fs = crashed, w_trace = [], w_ops = 0, w_draws = 0\<rparr>"
  obtain errs s' w' where c: "Commit (sample_env True) False True accept sample_staged sample_world = (errs, s', w')"
      "crashed \<in> set (w_trace w')" using sample_crash by blast
  obtain rc rerrs v' where r: "Recover (sample_env False) True (\<lambda>_. Inr True) [''aa'', ''t''] (st_dest sample_staged)
      sample_evidence ?v = (rc, rerrs, v')" by (metis surj_pair)
  have w: "w_fs sample_world = sample_fs" "w_trace sample_world = [sample_fs]" by (simp_all add: sample_world_def)
  have n: "{p \<in> staging_names (sample_env True) sample_staged. crashed p \<noteq> None} \<subseteq> set [''aa'', ''t'']"
    by (auto simp: crashed_def sample_fs_def split: if_splits)
  have m: "st_dest sample_staged \<notin> set [''aa'', ''t'']" "'''' \<notin> set [''aa'', ''t'']" "calls_work (sample_env False)"
    by (simp_all add: sample_staged_def calls_work_def sample_env_def)
  have "crashed ''d'' = None" by (simp add: crashed_def)
  then show ?thesis
    using crash_then_recover [OF sample_ready w c n m sample_conclusive _ _ r] r by (simp add: sample_staged_def)
qed

theorem recover_changes_witness:
  "\<exists>rc errs v'. Recover (sample_env False) True (\<lambda>_. Inr True) [''aa'', ''t''] ''d'' sample_evidence
       \<lparr>w_fs = crashed, w_trace = [crashed], w_ops = 0, w_draws = 0\<rparr> = (rc, errs, v')
     \<and> recovery_state sample_evidence (\<lambda>_. Inr True) [''aa'', ''t''] ''d'' crashed (w_fs v')"
proof -
  let ?v = "\<lparr>w_fs = crashed, w_trace = [crashed], w_ops = 0, w_draws = 0\<rparr>"
  obtain rc errs v' where r: "Recover (sample_env False) True (\<lambda>_. Inr True) [''aa'', ''t''] ''d'' sample_evidence ?v
      = (rc, errs, v')" by (metis surj_pair)
  then show ?thesis using recover_changes [OF _ _ _ r, of crashed] by simp
qed

subsection \<open>Planning\<close>

text \<open>
  \<open>PlanRecover\<close> changes nothing, whatever fails, and where all calls work its report is exactly
  the one \<open>Recover\<close> gives.
\<close>

theorem plan_recover_agrees:
  assumes "PlanRecover e locked lease entries dest ev w = (rc, errs, w')"
  shows "w_fs w' = w_fs w \<and> w_trace w' = w_trace w
    \<and> (calls_work e \<longrightarrow> (\<forall>c. ev_Digest ev c \<noteq> Inl ENotExist) \<longrightarrow> dest \<notin> set entries
        \<longrightarrow> fst (Recover e locked lease entries dest ev w) = rc)"
proof (cases locked)
  case False
  then show ?thesis using assms by (simp add: PlanRecover_def Recover_def settle_def)
next
  case True
  obtain r w1 where i: "inspectLeftovers e ev lease entries w = (r, w1)" by fastforce
  show ?thesis
  proof (cases r)
    case (Inl x)
    then show ?thesis using assms True i inspect_error_world [of e ev lease entries w x w1]
      by (auto simp: PlanRecover_def Recover_def settle_def)
  next
    case (Inr found)
    note ins = inspect_spec [OF i [unfolded Inr]]
    obtain d err w2 where d: "decide e dest ev found w1 = ((d, err), w2)" by (metis surj_pair)
    note ds = decide_spec [OF d]
    have same: "w_fs w' = w_fs w \<and> w_trace w' = w_trace w" "rc = \<lparr>rc_Outcome = dc_outcome d, rc_Kept = dc_kept d\<rparr>"
      using assms True i Inr d ds ins by (auto simp: PlanRecover_def settle_def settleLocked_def)
    have "fst (Recover e locked lease entries dest ev w) = rc"
      if cw: "calls_work e" and dig: "\<forall>c. ev_Digest ev c \<noteq> Inl ENotExist" and nd: "dest \<notin> set entries"
    proof (cases "err = None")
      case False
      then show ?thesis using same True i Inr d by (auto simp: Recover_def settle_def settleLocked_def)
    next
      case ok: True
      obtain x w3 where x: "(if dc_restore d \<noteq> '''' then restoreOriginal e dest (dc_restore d) ev w2 else (None, w2)) = (x, w3)"
        by fastforce
      have "x = None"
      proof (cases "dc_restore d = ''''")
        case False
        then have o: "dc_restore d = original ev found" "w_fs w1 dest = None" using ds ok dig by auto
        obtain c where c: "own_leftover ev lease entries (w_fs w) (dc_restore d)" "w_fs w (dc_restore d) = Some (Tree c)"
            "original_tree ev c" using original_own [OF i [unfolded Inr]] False o by auto
        have "dc_restore d \<noteq> dest" using c(1) nd by (auto simp: own_leftover_def)
        then show ?thesis using restore_effect [of e dest "dc_restore d" ev w2 x w3 c lease entries] x False o c ds ins cw
          by simp
      qed (use x in simp)
      moreover have "\<exists>es w5. removeAllOf e ps kept es0 v = (kept, es, w5)" for ps kept es0 v
      proof (induction ps arbitrary: es0 v)
        case (Cons p ps)
        obtain ys v1 where r: "removeReplaced e (Some p) v = (ys, v1)" by fastforce
        have "ys = []" using removal_works [OF cw r] by simp
        then show ?case using r Cons.IH by simp
      qed simp
      then obtain es w5 where "removeAllOf e (dc_remove d) (dc_kept d) [] w3 = (dc_kept d, es, w5)" by blast
      ultimately show ?thesis using same True i Inr d ok x
        by (simp add: Recover_def settle_def settleLocked_def apply_decision_def)
    qed
    then show ?thesis using same by blast
  qed
qed

theorem plan_recover_agrees_witness:
  "\<exists>rc errs v'. PlanRecover (sample_env False) True (\<lambda>_. Inr True) [''aa'', ''t''] ''d'' sample_evidence
       \<lparr>w_fs = crashed, w_trace = [], w_ops = 0, w_draws = 0\<rparr> = (rc, errs, v') \<and> w_fs v' = crashed
     \<and> fst (Recover (sample_env False) True (\<lambda>_. Inr True) [''aa'', ''t''] ''d'' sample_evidence
         \<lparr>w_fs = crashed, w_trace = [], w_ops = 0, w_draws = 0\<rparr>) = rc"
proof -
  let ?v = "\<lparr>w_fs = crashed, w_trace = [], w_ops = 0, w_draws = 0\<rparr>"
  obtain rc errs v' where r: "PlanRecover (sample_env False) True (\<lambda>_. Inr True) [''aa'', ''t''] ''d'' sample_evidence ?v
      = (rc, errs, v')" by (metis surj_pair)
  have "calls_work (sample_env False)" "\<forall>c. ev_Digest sample_evidence c \<noteq> Inl ENotExist"
    by (simp_all add: calls_work_def sample_env_def sample_evidence_def)
  then show ?thesis using plan_recover_agrees [OF r] r by simp
qed

end
