(* ===== verification/Publish_Lock.thy ===== *)
theory Publish_Lock
  imports Exclusion
begin

text \<open>
  Destination claims (\<open>internal/publish\<close>: \<open>lock.go\<close>, \<open>lock_unix.go\<close>, \<open>lease.go\<close>): the in-process table,
  the lock files another process sees, and how the two are taken together. A lock file is named by its
  path's digest; the model keys it by the path. The unlinking of lock files is not modelled.
\<close>

subsection \<open>Overlap of destinations\<close>

definition within :: "gostring \<Rightarrow> gostring \<Rightarrow> bool" where
  "within path dir = has_prefix path (trim_suffix dir ''/'' @ ''/'')"

definition dest_overlaps :: "gostring \<Rightarrow> gostring \<Rightarrow> bool" where
  "dest_overlaps a b \<longleftrightarrow> a = b \<or> within a b \<or> within b a"

interpretation dests: exclusion dest_overlaps
  by unfold_locales (auto simp: dest_overlaps_def)

lemma dest_overlaps_prefix:
  assumes "list_all plain_name xs" "list_all plain_name ys"
  shows "dest_overlaps (abs_path xs) (abs_path ys) \<longleftrightarrow> prefix xs ys \<or> prefix ys xs"
proof -
  have w: "within (abs_path b) (abs_path a) \<longleftrightarrow> (\<exists>z zs. b = a @ z # zs) \<or> (a = [] \<and> b = [])"
    if "list_all plain_name a" "list_all plain_name b" for a b
    using beneath_iff [OF that] that
    by (cases "b = []") (auto simp: within_def trim_suffix_slash abs_path_def dir_slash_def has_suffix_def)
  show ?thesis
    using w [OF assms] w [OF assms(2,1)] abs_path_inject [OF assms]
    by (auto simp: dest_overlaps_def prefix_def neq_Nil_conv)
qed

subsection \<open>The in-process table\<close>

text \<open>
  \<open>held\<close> is a set in the code; \<open>ct_changed\<close> counts the channels made so far, so a waiter that saw number
  \<open>n\<close> wakes when the count passes \<open>n\<close>.
\<close>

record claimTable =
  ct_held :: "gostring list"
  ct_changed :: nat

definition newTable :: claimTable where
  "newTable = \<lparr>ct_held = [], ct_changed = 0\<rparr>"

definition tryClaimOrWait :: "claimTable \<Rightarrow> gostring \<Rightarrow> bool \<times> nat \<times> claimTable" where
  "tryClaimOrWait c key =
     (if list_ex (\<lambda>h. dest_overlaps h key) (ct_held c) then (False, ct_changed c, c)
      else (True, 0, c\<lparr>ct_held := ct_held c @ [key]\<rparr>))"

definition tryClaim :: "claimTable \<Rightarrow> gostring \<Rightarrow> bool \<times> claimTable" where
  "tryClaim c key = (case tryClaimOrWait c key of (ok, _, c') \<Rightarrow> (ok, c'))"

definition release_claim :: "claimTable \<Rightarrow> gostring \<Rightarrow> claimTable" where
  "release_claim c key = c\<lparr>ct_held := filter (\<lambda>h. h \<noteq> key) (ct_held c), ct_changed := ct_changed c + 1\<rparr>"

inductive table_reachable :: "claimTable \<Rightarrow> bool" where
  table_start: "table_reachable newTable"
| table_claim: "table_reachable c \<Longrightarrow> table_reachable (snd (tryClaim c key))"
| table_release: "table_reachable c \<Longrightarrow> key \<in> set (ct_held c) \<Longrightarrow> table_reachable (release_claim c key)"

text \<open>
  The claims a process holds never overlap; a claim is refused exactly when a held one overlaps
  it, and every release wakes whoever was refused before it.
\<close>

theorem claim_table_exclusive:
  assumes "table_reachable c"
  shows "pairwise_free dest_overlaps (ct_held c)
    \<and> fst (tryClaim c key) = list_all (\<lambda>h. \<not> dest_overlaps h key) (ct_held c)
    \<and> fst (snd (tryClaimOrWait c key)) < ct_changed (release_claim c k)"
proof -
  have "pairwise_free dest_overlaps (ct_held c)"
    using assms
  proof induction
    case table_start
    then show ?case by (simp add: newTable_def dests.free_Nil)
  next
    case (table_claim c key)
    then show ?case by (auto simp: tryClaim_def tryClaimOrWait_def dests.free_snoc)
  next
    case (table_release c key)
    then show ?case by (simp add: release_claim_def dests.free_filter)
  qed
  then show ?thesis by (auto simp: tryClaim_def tryClaimOrWait_def release_claim_def list_ex_iff list_all_iff)
qed

theorem claim_table_exclusive_witness:
  "let c = snd (tryClaim newTable ''/a'') in
     ct_held c = [''/a''] \<and> pairwise_free dest_overlaps (ct_held c) \<and> \<not> fst (tryClaim c ''/a/b'')"
proof -
  let ?c = "snd (tryClaim newTable ''/a'')"
  have c: "?c = \<lparr>ct_held = [''/a''], ct_changed = 0\<rparr>"
    by (simp add: tryClaim_def tryClaimOrWait_def newTable_def)
  have "table_reachable ?c" by (rule table_claim [OF table_start])
  from claim_table_exclusive [OF this, of "''/a/b''"] show ?thesis
    by (simp add: c dest_overlaps_def within_def trim_suffix_def has_suffix_def)
qed

subsection \<open>Lock files\<close>

datatype lock_op = Shared | Exclusive

text \<open>
  \<open>claimSteps\<close> on the elements of a clean absolute key: \<open>filepath.Dir\<close> drops the last element and is
  the identity at the root, where the loop stops.
\<close>

function dir_steps :: "gostring list \<Rightarrow> (gostring \<times> lock_op) list" where
  "dir_steps dir = (abs_path dir, Shared) # (if dir = [] then [] else dir_steps (butlast dir))"
  by pat_completeness auto
termination
  by (relation "measure length") auto

declare dir_steps.simps [simp del]

definition claimSteps :: "gostring list \<Rightarrow> (gostring \<times> lock_op) list" where
  "claimSteps key = rev ((abs_path key, Exclusive) # dir_steps (butlast key))"

text \<open>The locks held on lock files: holder, path, operation. Each descriptor is its own holder of a lock.\<close>

type_synonym flocks = "(nat \<times> gostring \<times> lock_op) list"

definition flock_blocked :: "flocks \<Rightarrow> gostring \<Rightarrow> lock_op \<Rightarrow> bool" where
  "flock_blocked t p op = list_ex (\<lambda>(h, p', op'). p' = p \<and> (op = Exclusive \<or> op' = Exclusive)) t"

fun take_steps :: "flocks \<Rightarrow> nat \<Rightarrow> (gostring \<times> lock_op) list \<Rightarrow> flocks option" where
  "take_steps t h [] = Some t"
| "take_steps t h ((p, op) # rest) =
     (if flock_blocked t p op then None else take_steps (t @ [(h, p, op)]) h rest)"

definition release_all :: "flocks \<Rightarrow> nat \<Rightarrow> flocks" where
  "release_all t h = filter (\<lambda>(h', _). h' \<noteq> h) t"

definition tryPathLock :: "flocks \<Rightarrow> nat \<Rightarrow> gostring list \<Rightarrow> bool \<times> flocks" where
  "tryPathLock t h key =
     (case take_steps t h (claimSteps key) of None \<Rightarrow> (False, release_all t h) | Some t' \<Rightarrow> (True, t'))"

text \<open>The table of lock files when exactly these claims are held.\<close>

definition claim_locks :: "nat \<Rightarrow> gostring list \<Rightarrow> flocks" where
  "claim_locks h key = map (\<lambda>(p, op). (h, p, op)) (claimSteps key)"

definition locks_of :: "(nat \<times> gostring list) list \<Rightarrow> flocks" where
  "locks_of claims = concat (map (\<lambda>(h, key). claim_locks h key) claims)"

lemma dir_steps_set: "set (dir_steps dir) = {(abs_path d, Shared) | d. prefix d dir}"
proof (induction dir rule: rev_induct)
  case Nil
  then show ?case by (auto simp: dir_steps.simps)
next
  case (snoc x xs)
  then show ?case by (subst dir_steps.simps) (auto simp: prefix_snoc)
qed

lemma dir_steps_sorted:
  "list_all plain_name dir \<Longrightarrow> distinct (map fst (dir_steps dir))"
proof (induction dir rule: rev_induct)
  case Nil
  then show ?case by (simp add: dir_steps.simps)
next
  case (snoc x xs)
  have "abs_path (xs @ [x]) \<notin> fst ` set (dir_steps xs)"
  proof
    assume "abs_path (xs @ [x]) \<in> fst ` set (dir_steps xs)"
    then obtain d where d: "abs_path (xs @ [x]) = abs_path d" "prefix d xs" by (auto simp: dir_steps_set)
    then have "list_all plain_name d" using snoc.prems by (auto simp: prefix_def)
    then show False using d abs_path_inject [of "xs @ [x]" d] snoc.prems by (auto simp: prefix_def)
  qed
  then show ?case using snoc by (subst dir_steps.simps) simp
qed

lemma claimSteps_set:
  "key \<noteq> [] \<Longrightarrow> set (claimSteps key) = insert (abs_path key, Exclusive) {(abs_path d, Shared) | d. strict_prefix d key}"
  by (cases key rule: rev_cases) (auto simp: claimSteps_def dir_steps_set strict_prefix_def prefix_snoc)

lemma claimSteps_distinct:
  assumes "list_all plain_name key" "key \<noteq> []"
  shows "distinct (map fst (claimSteps key))"
proof -
  have "abs_path key \<notin> fst ` set (dir_steps (butlast key))"
  proof
    assume "abs_path key \<in> fst ` set (dir_steps (butlast key))"
    then obtain d where d: "abs_path key = abs_path d" "prefix d (butlast key)" by (auto simp: dir_steps_set)
    then have "prefix d key" by (metis prefix_order.trans prefixeq_butlast)
    then have "list_all plain_name d" using assms(1) by (auto simp: prefix_def)
    then have "key = d" using d(1) abs_path_inject assms(1) by simp
    then show False using d(2) assms(2) prefix_length_le [of d "butlast key"] by (cases key) auto
  qed
  moreover have "list_all plain_name (butlast key)" using assms(1) by (auto simp: list_all_iff dest: in_set_butlastD)
  ultimately show ?thesis using dir_steps_sorted [of "butlast key"] by (simp add: claimSteps_def rev_map [symmetric])
qed

text \<open>Taking steps with distinct paths succeeds exactly when none is blocked beforehand.\<close>

lemma take_steps_eq:
  "distinct (map fst steps) \<Longrightarrow> take_steps t h steps =
     (if list_ex (\<lambda>(p, op). flock_blocked t p op) steps then None else Some (t @ map (\<lambda>(p, op). (h, p, op)) steps))"
proof (induction steps arbitrary: t)
  case (Cons s steps)
  obtain p op where s: "s = (p, op)" by fastforce
  have "p \<noteq> p'" if "(p', op') \<in> set steps" for p' op' using Cons.prems s that by force
  then have "list_ex (\<lambda>(p', op'). flock_blocked (t @ [(h, p, op)]) p' op') steps =
      list_ex (\<lambda>(p', op'). flock_blocked t p' op') steps"
    by (intro list_ex_cong) (auto simp: flock_blocked_def)
  then show ?case using Cons s by simp
qed simp

lemma steps_conflict:
  assumes "list_all plain_name xs" "xs \<noteq> []" "list_all plain_name ys" "ys \<noteq> []"
  shows "(\<exists>(p, op)\<in>set (claimSteps xs). \<exists>(p', op')\<in>set (claimSteps ys). p' = p \<and> (op = Exclusive \<or> op' = Exclusive))
    \<longleftrightarrow> prefix xs ys \<or> prefix ys xs"
proof -
  have plain: "list_all plain_name d" if "strict_prefix d zs" "list_all plain_name zs" for d zs
    using that by (auto simp: strict_prefix_def prefix_def)
  have "(\<exists>(p, op)\<in>set (claimSteps xs). \<exists>(p', op')\<in>set (claimSteps ys). p' = p \<and> (op = Exclusive \<or> op' = Exclusive))
      \<longleftrightarrow> abs_path xs = abs_path ys \<or> (\<exists>d. strict_prefix d ys \<and> abs_path d = abs_path xs)
        \<or> (\<exists>d. strict_prefix d xs \<and> abs_path ys = abs_path d)"
    unfolding claimSteps_set [OF assms(2)] claimSteps_set [OF assms(4)] by auto
  also have "\<dots> \<longleftrightarrow> xs = ys \<or> strict_prefix xs ys \<or> strict_prefix ys xs"
    using abs_path_inject assms plain by metis
  finally show ?thesis by (auto simp: strict_prefix_def)
qed

text \<open>
  The lock files enforce across processes exactly what the table enforces within one: with any set
  of claims held, a further claim gets all its locks exactly when its destination overlaps no claimed
  one (siblings run together, parent and child exclude each other), and otherwise it leaves no lock
  behind.
\<close>

theorem path_locks_exact:
  assumes "list_all (\<lambda>(h', k). list_all plain_name k \<and> k \<noteq> [] \<and> h' \<noteq> h) claims"
    and "list_all plain_name key" and "key \<noteq> []"
  shows "tryPathLock (locks_of claims) h key =
    (if list_ex (\<lambda>(_, k). dest_overlaps (abs_path k) (abs_path key)) claims
     then (False, locks_of claims) else (True, locks_of (claims @ [(h, key)])))"
proof -
  have blocked: "list_ex (\<lambda>(p, op). flock_blocked (locks_of claims) p op) (claimSteps key)
      \<longleftrightarrow> list_ex (\<lambda>(_, k). dest_overlaps (abs_path k) (abs_path key)) claims"
  proof -
    have "list_ex (\<lambda>(p, op). flock_blocked (locks_of claims) p op) (claimSteps key)
        \<longleftrightarrow> (\<exists>(h', k)\<in>set claims. \<exists>(p, op)\<in>set (claimSteps key). \<exists>(p', op')\<in>set (claimSteps k).
              p' = p \<and> (op = Exclusive \<or> op' = Exclusive))"
      by (auto simp: list_ex_iff flock_blocked_def locks_of_def claim_locks_def) blast+
    also have "\<dots> \<longleftrightarrow> (\<exists>(h', k)\<in>set claims. prefix key k \<or> prefix k key)"
    proof (rule bex_cong [OF refl])
      fix c assume c: "c \<in> set claims"
      obtain h' k where hk: "c = (h', k)" by fastforce
      then have "list_all plain_name k" "k \<noteq> []" using c assms(1) by (auto simp: list_all_iff)
      from steps_conflict [OF assms(2,3) this]
      show "(case c of (h', k) \<Rightarrow> \<exists>(p, op)\<in>set (claimSteps key). \<exists>(p', op')\<in>set (claimSteps k).
          p' = p \<and> (op = Exclusive \<or> op' = Exclusive)) \<longleftrightarrow> (case c of (h', k) \<Rightarrow> prefix key k \<or> prefix k key)"
        unfolding hk prod.case .
    qed
    also have "\<dots> \<longleftrightarrow> (\<exists>c\<in>set claims. case c of (_, k) \<Rightarrow> dest_overlaps (abs_path k) (abs_path key))"
    proof (rule bex_cong [OF refl])
      fix c assume c: "c \<in> set claims"
      obtain h' k where hk: "c = (h', k)" by fastforce
      then have "list_all plain_name k" using c assms(1) by (auto simp: list_all_iff)
      from dest_overlaps_prefix [OF this assms(2)]
      show "(case c of (h', k) \<Rightarrow> prefix key k \<or> prefix k key)
          \<longleftrightarrow> (case c of (_, k) \<Rightarrow> dest_overlaps (abs_path k) (abs_path key))"
        unfolding hk prod.case by blast
    qed
    finally show ?thesis by (simp add: list_ex_iff)
  qed
  have "release_all (locks_of claims) h = locks_of claims"
    unfolding release_all_def using assms(1)
    by (intro filter_True) (auto simp: locks_of_def claim_locks_def list_all_iff)
  then show ?thesis
    using take_steps_eq [OF claimSteps_distinct [OF assms(2,3)]] blocked
    by (simp add: tryPathLock_def locks_of_def claim_locks_def)
qed

theorem path_locks_exact_witness:
  "fst (tryPathLock (locks_of [(1, [''a'', ''b''])]) 2 [''a'', ''c'']) \<and> \<not> fst (tryPathLock (locks_of [(1, [''a'', ''b''])]) 2 [''a''])"
  using path_locks_exact [of 2 "[(1, [''a'', ''b''])]" "[''a'', ''c'']"]
    path_locks_exact [of 2 "[(1, [''a'', ''b''])]" "[''a'']"]
  by (simp add: plain_name_def dest_overlaps_prefix)

subsection \<open>Both together\<close>

text \<open>
  \<open>TryLock\<close> after \<open>claimKey\<close>: the table first, then the lock files, whose answer (an error, refused or
  taken) comes from outside; anything but taken gives the table entry back.
\<close>

definition TryLock :: "claimTable \<Rightarrow> gostring \<Rightarrow> nat + bool \<Rightarrow> (nat + bool) \<times> claimTable" where
  "TryLock c key os =
     (case tryClaim c key of
        (False, c') \<Rightarrow> (Inr False, c')
      | (True, c') \<Rightarrow>
         (case os of
            Inl err \<Rightarrow> (Inl err, release_claim c' key)
          | Inr False \<Rightarrow> (Inr False, release_claim c' key)
          | Inr True \<Rightarrow> (Inr True, c')))"

lemma TryLock_refused:
  assumes "fst (TryLock c key os) \<noteq> Inr True"
  shows "set (ct_held (snd (TryLock c key os))) = set (ct_held c)"
proof -
  have "dest_overlaps key key" by (simp add: dest_overlaps_def)
  then have "key \<notin> set (ct_held c)" if "\<not> list_ex (\<lambda>h. dest_overlaps h key) (ct_held c)"
    using that by (auto simp: list_ex_iff)
  then show ?thesis using assms
    by (auto simp: TryLock_def tryClaim_def tryClaimOrWait_def release_claim_def split: sum.splits bool.splits if_splits)
qed

end
