(* ===== verification/Engine_Order.thy ===== *)
theory Engine_Order
  imports Prelude
begin

text \<open>
  Ordered insertion (\<open>internal/engine/ledger_order.go\<close>) over the binary searches of Go's standard
  library: \<open>sort.Search\<close> and \<open>slices.BinarySearchFunc\<close>. The searches are modelled as the loops they
  are; on a list sorted by the searched order each finds the boundary index, so \<open>insertAfterOrder\<close>
  keeps a list sorted and puts the new item after its ties.
\<close>

named_theorems search_simps
  \<open>what the binary searches find on a sorted list\<close>

subsection \<open>sort.Search\<close>

function search_loop :: "(nat \<Rightarrow> bool) \<Rightarrow> nat \<Rightarrow> nat \<Rightarrow> nat" where
  "search_loop f i j =
     (if i < j then
        (let h = (i + j) div 2 in
         if \<not> f h then search_loop f (h + 1) j else search_loop f i h)
      else i)"
  by pat_completeness auto
termination
  by (relation "measure (\<lambda>(f, i, j). j - i)") auto

declare search_loop.simps [simp del]

definition sort_Search :: "nat \<Rightarrow> (nat \<Rightarrow> bool) \<Rightarrow> nat" where
  "sort_Search n f = search_loop f 0 n"

lemma search_loop_boundary:
  assumes "i \<le> k" "k \<le> j" "\<And>x. x < k \<Longrightarrow> \<not> f x" "\<And>x. k \<le> x \<Longrightarrow> x < j \<Longrightarrow> f x"
  shows "search_loop f i j = k"
  using assms
proof (induction f i j rule: search_loop.induct)
  case (1 f i j)
  show ?case
  proof (cases "i < j")
    case False
    then show ?thesis using "1.prems" by (subst search_loop.simps) simp
  next
    case True
    define h where "h = (i + j) div 2"
    have h: "i \<le> h" "h < j" using True by (auto simp: h_def)
    show ?thesis
    proof (cases "f h")
      case True
      then have "k \<le> h" using "1.prems"(3) by (meson not_le)
      then show ?thesis
        using "1.IH"(2)[OF \<open>i < j\<close> h_def] True "1.prems" h \<open>i < j\<close>
        by (subst search_loop.simps) (auto simp: h_def[symmetric] Let_def)
    next
      case False
      then have "h < k" using "1.prems"(4) h by (meson not_le)
      then show ?thesis
        using "1.IH"(1)[OF \<open>i < j\<close> h_def] False "1.prems" h \<open>i < j\<close>
        by (subst search_loop.simps) (auto simp: h_def[symmetric] Let_def)
    qed
  qed
qed

lemma search_boundary_append:
  assumes "\<forall>x\<in>set a. \<not> P x" "\<forall>x\<in>set b. P x"
  shows "sort_Search (length (a @ b)) (\<lambda>i. P ((a @ b) ! i)) = length a"
  unfolding sort_Search_def
  by (rule search_loop_boundary) (use assms in \<open>auto simp: nth_append\<close>)

lemma dropWhile_headD: "dropWhile P xs = y # ys \<Longrightarrow> \<not> P y"
  using hd_dropWhile[of P xs] by (metis list.sel(1) list.distinct(1))

lemma takeWhile_dropWhile_sorted:
  fixes key :: "'a \<Rightarrow> 'b::linorder"
  assumes "sorted_wrt (\<lambda>x y. key x \<le> key y) xs"
  shows "\<forall>x\<in>set (dropWhile (\<lambda>x. key x \<le> k) xs). k < key x"
proof (cases "dropWhile (\<lambda>x. key x \<le> k) xs")
  case (Cons y ys)
  have "sorted_wrt (\<lambda>x y. key x \<le> key y) (y # ys)"
    using assms by (metis Cons sorted_wrt_append takeWhile_dropWhile_id)
  moreover have "k < key y" using dropWhile_headD[OF Cons] by simp
  ultimately have "\<forall>x\<in>set (y # ys). k < key x" by auto
  then show ?thesis using Cons by simp
next
  case Nil
  then show ?thesis by (metis empty_iff list.set(1))
qed

lemma sort_Search_sorted [search_simps]:
  fixes key :: "'a \<Rightarrow> 'b::linorder"
  assumes "sorted_wrt (\<lambda>x y. key x \<le> key y) xs"
  shows "sort_Search (length xs) (\<lambda>i. key (xs ! i) > k) = length (takeWhile (\<lambda>x. key x \<le> k) xs)"
proof -
  define a b where "a = takeWhile (\<lambda>x. key x \<le> k) xs" and "b = dropWhile (\<lambda>x. key x \<le> k) xs"
  have xs: "xs = a @ b" by (simp add: a_def b_def)
  have "\<forall>x\<in>set a. \<not> key x > k" by (auto simp: a_def dest: set_takeWhileD)
  moreover have "\<forall>x\<in>set b. key x > k"
    using takeWhile_dropWhile_sorted[OF assms] by (simp add: b_def)
  ultimately have "sort_Search (length (a @ b)) (\<lambda>i. key ((a @ b) ! i) > k) = length a"
    by (rule search_boundary_append)
  then show ?thesis unfolding a_def b_def takeWhile_dropWhile_id .
qed

subsection \<open>slices.BinarySearchFunc\<close>

text \<open>
  The position (the found flag is dropped by every caller) of the first element not below the
  target, where the comparison is \<open>cmp.Compare (key x) k\<close>.
\<close>

definition binary_search :: "('a \<Rightarrow> 'b::linorder) \<Rightarrow> 'a list \<Rightarrow> 'b \<Rightarrow> nat" where
  "binary_search key xs k = search_loop (\<lambda>h. \<not> key (xs ! h) < k) 0 (length xs)"

lemma binary_search_sorted [search_simps]:
  assumes "sorted_wrt (\<lambda>x y. key x \<le> key y) xs"
  shows "binary_search key xs k = length (takeWhile (\<lambda>x. key x < k) xs)"
proof -
  define a b where "a = takeWhile (\<lambda>x. key x < k) xs" and "b = dropWhile (\<lambda>x. key x < k) xs"
  have xs: "xs = a @ b" by (simp add: a_def b_def)
  have a: "\<forall>x\<in>set a. \<not> \<not> key x < k" by (auto simp: a_def dest: set_takeWhileD)
  have b: "\<forall>x\<in>set b. \<not> key x < k"
  proof (cases b)
    case (Cons y ys)
    have "sorted_wrt (\<lambda>x y. key x \<le> key y) (y # ys)"
      using assms Cons xs by (simp add: sorted_wrt_append)
    moreover have "\<not> key y < k" using dropWhile_headD[OF Cons[unfolded b_def]] .
    ultimately have "\<forall>x\<in>set (y # ys). \<not> key x < k" by auto
    then show ?thesis using Cons by simp
  qed simp
  have "search_loop (\<lambda>h. \<not> key ((a @ b) ! h) < k) 0 (length (a @ b)) = length a"
    using search_boundary_append[OF a b] by (simp add: sort_Search_def)
  then show ?thesis unfolding binary_search_def a_def b_def takeWhile_dropWhile_id .
qed

subsection \<open>insertAfterOrder (ledger_order.go)\<close>

definition insertAfterOrder :: "'a list \<Rightarrow> 'a \<Rightarrow> ('a \<Rightarrow> 'b::linorder) \<Rightarrow> 'a list" where
  "insertAfterOrder items item order =
     (let key = order item in
      if items = [] \<or> order (last items) \<le> key then items @ [item]
      else
        (let at = sort_Search (length items) (\<lambda>i. order (items ! i) > key) in
         take at items @ item # drop at items))"

lemma takeWhile_le_last:
  fixes key :: "'a \<Rightarrow> 'b::linorder"
  assumes "sorted_wrt (\<lambda>x y. key x \<le> key y) xs" "xs = [] \<or> key (last xs) \<le> k"
  shows "takeWhile (\<lambda>x. key x \<le> k) xs = xs"
proof (cases "xs = []")
  case False
  then have xs: "xs = butlast xs @ [last xs]" by simp
  have "key x \<le> key (last xs)" if "x \<in> set xs" for x
  proof -
    have "sorted_wrt (\<lambda>x y. key x \<le> key y) (butlast xs @ [last xs])" using assms(1) xs by simp
    then have "\<forall>x\<in>set (butlast xs). key x \<le> key (last xs)" by (simp add: sorted_wrt_append)
    moreover have "x \<in> insert (last xs) (set (butlast xs))"
      using that False in_set_butlast_appendI[of x "butlast xs" "[last xs]"]
      by (metis xs set_append Un_iff insert_iff list.set(1) list.set(2) empty_iff)
    ultimately show ?thesis by auto
  qed
  then show ?thesis
    unfolding takeWhile_eq_all_conv using assms(2) False by (meson order_trans)
qed simp

text \<open>Whatever branch it takes, the item lands right after the elements not above it.\<close>

lemma insertAfterOrder_split:
  assumes "sorted_wrt (\<lambda>x y. order x \<le> order y) items"
  shows "insertAfterOrder items item order =
    takeWhile (\<lambda>x. order x \<le> order item) items @ item # dropWhile (\<lambda>x. order x \<le> order item) items"
proof (cases "items = [] \<or> order (last items) \<le> order item")
  case True
  have t: "takeWhile (\<lambda>x. order x \<le> order item) items = items"
    using takeWhile_le_last[OF assms True] .
  then have d: "dropWhile (\<lambda>x. order x \<le> order item) items = []"
    by (metis append_self_conv takeWhile_dropWhile_id)
  show ?thesis unfolding t d using True by (simp add: insertAfterOrder_def Let_def)
next
  case False
  then have "insertAfterOrder items item order =
      take (length (takeWhile (\<lambda>x. order x \<le> order item) items)) items @
      item # drop (length (takeWhile (\<lambda>x. order x \<le> order item) items)) items"
    by (simp add: insertAfterOrder_def sort_Search_sorted[OF assms] Let_def)
  then show ?thesis by (metis takeWhile_eq_take dropWhile_eq_drop)
qed

lemma set_insertAfterOrder [simp]:
  assumes "sorted_wrt (\<lambda>x y. order x \<le> order y) items"
  shows "set (insertAfterOrder items item order) = insert item (set items)"
proof -
  have "set items = set (takeWhile (\<lambda>x. order x \<le> order item) items)
      \<union> set (dropWhile (\<lambda>x. order x \<le> order item) items)"
    by (metis set_append takeWhile_dropWhile_id)
  then show ?thesis unfolding insertAfterOrder_split[OF assms] by simp
qed

lemma sorted_wrt_insert_mid:
  assumes "sorted_wrt R a" "sorted_wrt R b" "\<forall>x\<in>set a. \<forall>y\<in>set b. R x y"
    "\<forall>x\<in>set a. R x i" "\<forall>y\<in>set b. R i y"
  shows "sorted_wrt R (a @ i # b)"
  using assms by (auto simp: sorted_wrt_append)

lemma insertAfterOrder_sorted:
  assumes "sorted_wrt (\<lambda>x y. order x \<le> order y) items"
  shows "sorted_wrt (\<lambda>x y. order x \<le> order y) (insertAfterOrder items item order)"
proof -
  let ?a = "takeWhile (\<lambda>x. order x \<le> order item) items"
  let ?b = "dropWhile (\<lambda>x. order x \<le> order item) items"
  have ab: "sorted_wrt (\<lambda>x y. order x \<le> order y) (?a @ ?b)" using assms by simp
  then have s: "sorted_wrt (\<lambda>x y. order x \<le> order y) ?a" "sorted_wrt (\<lambda>x y. order x \<le> order y) ?b"
    "\<forall>x\<in>set ?a. \<forall>y\<in>set ?b. order x \<le> order y"
    unfolding sorted_wrt_append by blast+
  have "\<forall>x\<in>set ?a. order x \<le> order item" by (auto dest: set_takeWhileD)
  moreover have "\<forall>x\<in>set ?b. order item \<le> order x"
    using takeWhile_dropWhile_sorted[OF assms, of "order item"] by (blast intro: less_imp_le)
  ultimately show ?thesis
    unfolding insertAfterOrder_split[OF assms] by (rule sorted_wrt_insert_mid[OF s])
qed

end
