(* ===== verification/Engine_Tally.thy ===== *)
theory Engine_Tally
  imports Engine_Order Core_Model
begin

text \<open>
  The scheduler's memory cells and \<open>internal/engine/collection_tally.go\<close>: what a Group or Sequence
  remembers of its descendant Tasks so that an edge on it reads its outcome in constant time, and
  which parked Tasks each event wakes. Pointers to \<open>taskState\<close> and \<open>tasksState\<close> are references into
  a store; an operation that reads \<open>st.state\<close> takes the store. The invariant is \<open>tally_ok\<close> (the
  cached prefix and first failure agree with the members) with \<open>parked_ok\<close> (nobody is parked on an
  edge that is already decided); under it every cached read is exact, and an event wakes exactly
  the Tasks whose edge it decided.
\<close>

subsection \<open>Tasks as the scheduler sees them (eligibility.go, task_schedule.go)\<close>

type_synonym TaskRef = nat
type_synonym ColRef = nat

record predecessor =
  pd_task :: "TaskRef option"
  pd_col :: "ColRef option"
  pd_through :: int

datatype PredOutcome = PredPending | PredSucceeded | PredFailed

datatype schedPhase = PhaseDeclared | PhaseQueued | PhaseParked | PhaseRunning | PhaseAbandoned

record taskState =
  tk_state :: EntityState
  tk_declaration :: int
  tk_phase :: schedPhase
  tk_preds :: "predecessor list"
  tk_dependents :: "TaskRef list"
  tk_collection :: "ColRef option"

type_synonym task_store = "TaskRef \<Rightarrow> taskState"

fun stateOutcome :: "EntityState \<Rightarrow> PredOutcome" where
  "stateOutcome s =
     (if s = Done \<or> s = Skipped then PredSucceeded
      else if s = Failed \<or> s = Blocked \<or> s = Cancelled \<or> s = NotStarted then PredFailed
      else PredPending)"

declare stateOutcome.simps [simp del]

abbreviation task_outcome :: "task_store \<Rightarrow> TaskRef \<Rightarrow> PredOutcome" where
  "task_outcome m r \<equiv> stateOutcome (tk_state (m r))"

text \<open>A state is decided for the Tasks after it exactly when it is terminal.\<close>

lemma stateOutcome_terminal: "stateOutcome s \<noteq> PredPending \<longleftrightarrow> IsTerminalTask s"
  by (cases s) (simp_all add: stateOutcome.simps)

subsection \<open>The tally (collection_tally.go)\<close>

record parkedTask =
  pt_st :: TaskRef
  pt_cursor :: int

record collectionTally =
  ct_members :: "TaskRef list"
  ct_succeededPrefix :: nat
  ct_firstFailed :: int
  ct_sealed :: bool
  ct_sealedThrough :: int
  ct_parked :: "parkedTask list"
  ct_open :: "TaskRef list"
  ct_holds :: int
  ct_builderFailed :: bool

definition empty_tally :: collectionTally where
  "empty_tally = \<lparr>ct_members = [], ct_succeededPrefix = 0, ct_firstFailed = 0, ct_sealed = False,
     ct_sealedThrough = 0, ct_parked = [], ct_open = [], ct_holds = 0, ct_builderFailed = False\<rparr>"

definition throughAll :: int where
  "throughAll = 2 ^ 63 - 1"

definition total :: "collectionTally \<Rightarrow> nat" where
  "total t = length (ct_members t)"

definition hasMemberThrough :: "task_store \<Rightarrow> collectionTally \<Rightarrow> int \<Rightarrow> bool" where
  "hasMemberThrough m t cursor \<longleftrightarrow>
     length (ct_members t) > 0 \<and> tk_declaration (m (ct_members t ! 0)) \<le> cursor"

definition membersThrough :: "task_store \<Rightarrow> collectionTally \<Rightarrow> int \<Rightarrow> int \<Rightarrow> TaskRef list" where
  "membersThrough m t from to' =
     (let lo = binary_search (\<lambda>r. tk_declaration (m r)) (ct_members t) (from + 1);
          hi = binary_search (\<lambda>r. tk_declaration (m r)) (ct_members t) (to' + 1)
      in drop lo (take hi (ct_members t)))"

definition failedThrough :: "collectionTally \<Rightarrow> int \<Rightarrow> bool" where
  "failedThrough t cursor \<longleftrightarrow> ct_firstFailed t \<noteq> 0 \<and> ct_firstFailed t \<le> cursor"

definition succeededThrough :: "task_store \<Rightarrow> collectionTally \<Rightarrow> int \<Rightarrow> bool" where
  "succeededThrough m t cursor \<longleftrightarrow>
     ct_succeededPrefix t = length (ct_members t) \<or>
     tk_declaration (m (ct_members t ! ct_succeededPrefix t)) > cursor"

text \<open>The two loops of \<open>settle\<close>: advancing the succeeded prefix and cutting the parked list back.\<close>

function advance_prefix :: "task_store \<Rightarrow> TaskRef list \<Rightarrow> nat \<Rightarrow> nat" where
  "advance_prefix m members n =
     (if n < length members \<and> task_outcome m (members ! n) = PredSucceeded
      then advance_prefix m members (Suc n) else n)"
  by pat_completeness auto
termination
  by (relation "measure (\<lambda>(m, members, n). length members - n)") auto

declare advance_prefix.simps [simp del]

fun cut_back :: "parkedTask list \<Rightarrow> int \<Rightarrow> nat \<Rightarrow> nat" where
  "cut_back parked d 0 = 0"
| "cut_back parked d (Suc i) = (if pt_cursor (parked ! i) \<ge> d then cut_back parked d i else Suc i)"

definition tally_settle :: "task_store \<Rightarrow> collectionTally \<Rightarrow> TaskRef \<Rightarrow> collectionTally \<times> TaskRef list" where
  "tally_settle m t st =
     (case task_outcome m st of
        PredFailed \<Rightarrow>
          (let d = tk_declaration (m st) in
           if ct_firstFailed t \<noteq> 0 \<and> ct_firstFailed t \<le> d then (t, [])
           else
             (let i = cut_back (ct_parked t) d (length (ct_parked t)) in
              (t\<lparr>ct_firstFailed := d, ct_open := [], ct_parked := take i (ct_parked t)\<rparr>,
               ct_open t @ map pt_st (drop i (ct_parked t)))))
      | PredSucceeded \<Rightarrow>
          (let t' = t\<lparr>ct_succeededPrefix := advance_prefix m (ct_members t) (ct_succeededPrefix t)\<rparr>;
               woken = takeWhile (\<lambda>p. succeededThrough m t' (pt_cursor p)) (ct_parked t)
           in (t'\<lparr>ct_parked := drop (length woken) (ct_parked t)\<rparr>, map pt_st woken))
      | PredPending \<Rightarrow> (t, []))"

definition tally_declare :: "task_store \<Rightarrow> collectionTally \<Rightarrow> TaskRef \<Rightarrow> collectionTally" where
  "tally_declare m t st = fst (tally_settle m (t\<lparr>ct_members := ct_members t @ [st]\<rparr>) st)"

definition seal :: "collectionTally \<Rightarrow> int \<Rightarrow> collectionTally \<times> TaskRef list" where
  "seal t cursor =
     (if ct_sealed t \<or> ct_holds t > 0 then (t, [])
      else (t\<lparr>ct_sealed := True, ct_sealedThrough := cursor, ct_open := []\<rparr>, ct_open t))"

definition park :: "collectionTally \<Rightarrow> TaskRef \<Rightarrow> int \<Rightarrow> bool \<Rightarrow> collectionTally" where
  "park t st cursor open' =
     (if open' then t\<lparr>ct_open := ct_open t @ [st]\<rparr>
      else t\<lparr>ct_parked := insertAfterOrder (ct_parked t) \<lparr>pt_st = st, pt_cursor = cursor\<rparr> pt_cursor\<rparr>)"

definition unpark :: "collectionTally \<Rightarrow> collectionTally" where
  "unpark t = t\<lparr>ct_parked := [], ct_open := []\<rparr>"

definition release_hold :: "collectionTally \<Rightarrow> bool \<Rightarrow> int \<Rightarrow> collectionTally \<times> TaskRef list" where
  "release_hold t sealing cursor =
     (let t' = t\<lparr>ct_holds := ct_holds t - 1\<rparr> in
      if ct_holds t' > 0 then (t', [])
      else if sealing then seal t' cursor
      else (t'\<lparr>ct_open := []\<rparr>, ct_open t'))"

definition failBuilder :: "collectionTally \<Rightarrow> collectionTally \<times> TaskRef list" where
  "failBuilder t =
     (t\<lparr>ct_builderFailed := True, ct_open := [], ct_parked := []\<rparr>,
      ct_open t @ map pt_st (ct_parked t))"

subsection \<open>Invariant\<close>

definition tally_ok :: "task_store \<Rightarrow> collectionTally \<Rightarrow> bool" where
  "tally_ok m t \<longleftrightarrow>
     sorted_wrt (\<lambda>x y. tk_declaration (m x) < tk_declaration (m y)) (ct_members t) \<and>
     (\<forall>x\<in>set (ct_members t). 0 < tk_declaration (m x)) \<and>
     ct_succeededPrefix t \<le> length (ct_members t) \<and>
     (\<forall>x\<in>set (take (ct_succeededPrefix t) (ct_members t)). task_outcome m x = PredSucceeded) \<and>
     (ct_succeededPrefix t < length (ct_members t) \<longrightarrow>
        task_outcome m (ct_members t ! ct_succeededPrefix t) \<noteq> PredSucceeded) \<and>
     (ct_firstFailed t = 0 \<longrightarrow> (\<forall>x\<in>set (ct_members t). task_outcome m x \<noteq> PredFailed)) \<and>
     (ct_firstFailed t \<noteq> 0 \<longrightarrow>
        (\<exists>x\<in>set (ct_members t). task_outcome m x = PredFailed \<and> tk_declaration (m x) = ct_firstFailed t) \<and>
        (\<forall>x\<in>set (ct_members t). task_outcome m x = PredFailed \<longrightarrow> ct_firstFailed t \<le> tk_declaration (m x)))"

definition resolved :: "task_store \<Rightarrow> collectionTally \<Rightarrow> int \<Rightarrow> bool" where
  "resolved m t cursor \<longleftrightarrow> failedThrough t cursor \<or> succeededThrough m t cursor"

definition parked_ok :: "task_store \<Rightarrow> collectionTally \<Rightarrow> bool" where
  "parked_ok m t \<longleftrightarrow>
     sorted_wrt (\<lambda>p q. pt_cursor p \<le> pt_cursor q) (ct_parked t) \<and>
     (\<forall>p\<in>set (ct_parked t). \<not> resolved m t (pt_cursor p)) \<and>
     (ct_open t \<noteq> [] \<longrightarrow> ct_firstFailed t = 0) \<and>
     (ct_builderFailed t \<longrightarrow> ct_parked t = [] \<and> ct_open t = [])"


lemmas tally_defs = tally_ok_def parked_ok_def resolved_def

lemma tally_okD:
  assumes "tally_ok m t"
  shows tally_okD_sorted: "sorted_wrt (\<lambda>x y. tk_declaration (m x) < tk_declaration (m y)) (ct_members t)"
    and tally_okD_pos: "x \<in> set (ct_members t) \<Longrightarrow> 0 < tk_declaration (m x)"
    and tally_okD_len: "ct_succeededPrefix t \<le> length (ct_members t)"
    and tally_okD_prefix: "x \<in> set (take (ct_succeededPrefix t) (ct_members t)) \<Longrightarrow> task_outcome m x = PredSucceeded"
    and tally_okD_stop: "ct_succeededPrefix t < length (ct_members t) \<Longrightarrow>
      task_outcome m (ct_members t ! ct_succeededPrefix t) \<noteq> PredSucceeded"
  using assms by (auto simp: tally_ok_def)

subsection \<open>The cached reads are exact\<close>

lemma hasMemberThrough_exact:
  assumes "tally_ok m t"
  shows "hasMemberThrough m t c \<longleftrightarrow> (\<exists>x\<in>set (ct_members t). tk_declaration (m x) \<le> c)"
proof (cases "ct_members t")
  case (Cons x xs)
  then show ?thesis
    using tally_okD_sorted[OF assms] by (fastforce simp: hasMemberThrough_def)
qed (simp add: hasMemberThrough_def)

lemma failedThrough_exact:
  assumes "tally_ok m t"
  shows "failedThrough t c \<longleftrightarrow>
    (\<exists>x\<in>set (ct_members t). tk_declaration (m x) \<le> c \<and> task_outcome m x = PredFailed)"
proof (cases "ct_firstFailed t = 0")
  case True
  then show ?thesis using assms by (auto simp: failedThrough_def tally_ok_def)
next
  case False
  obtain x where "x \<in> set (ct_members t)" "task_outcome m x = PredFailed"
    "tk_declaration (m x) = ct_firstFailed t"
    using assms False unfolding tally_ok_def by blast
  moreover have "\<forall>x\<in>set (ct_members t). task_outcome m x = PredFailed \<longrightarrow> ct_firstFailed t \<le> tk_declaration (m x)"
    using assms False unfolding tally_ok_def by blast
  ultimately show ?thesis
    using False unfolding failedThrough_def by (metis order_trans)
qed

lemma succeededThrough_exact:
  assumes "tally_ok m t"
  shows "succeededThrough m t c \<longleftrightarrow>
    (\<forall>x\<in>set (ct_members t). tk_declaration (m x) \<le> c \<longrightarrow> task_outcome m x = PredSucceeded)"
proof (cases "ct_succeededPrefix t = length (ct_members t)")
  case True
  then show ?thesis using tally_okD_prefix[OF assms] by (auto simp: succeededThrough_def)
next
  case False
  let ?ms = "ct_members t" and ?k = "ct_succeededPrefix t"
  have k: "?k < length ?ms" using False tally_okD_len[OF assms] by simp
  have below: "task_outcome m x = PredSucceeded"
    if "x \<in> set ?ms" "tk_declaration (m x) < tk_declaration (m (?ms ! ?k))" for x
  proof -
    obtain i where i: "i < length ?ms" "?ms ! i = x" using \<open>x \<in> set ?ms\<close> by (auto simp: in_set_conv_nth)
    have "\<not> ?k \<le> i"
    proof
      assume "?k \<le> i"
      then have "tk_declaration (m (?ms ! ?k)) \<le> tk_declaration (m (?ms ! i))"
        using sorted_wrt_nth_less[OF tally_okD_sorted[OF assms], of ?k i] i
        by (cases "?k = i") auto
      then show False using that i by simp
    qed
    then have "x \<in> set (take ?k ?ms)" using i k by (metis in_set_conv_nth length_take min_def not_le nth_take)
    then show ?thesis by (rule tally_okD_prefix[OF assms])
  qed
  have "?ms ! ?k \<in> set ?ms" using k by simp
  then show ?thesis
    using tally_okD_stop[OF assms k] below False unfolding succeededThrough_def
    by (metis le_less_trans not_le)
qed

lemma membersThrough_exact:
  assumes "tally_ok m t"
  shows "membersThrough m t from to' =
    filter (\<lambda>x. from < tk_declaration (m x) \<and> tk_declaration (m x) \<le> to') (ct_members t)"
proof -
  let ?d = "\<lambda>x. tk_declaration (m x)"
  have cut: "filter (\<lambda>x. from < ?d x \<and> ?d x \<le> to') xs =
      drop (length (takeWhile (\<lambda>x. ?d x < from + 1) xs)) (take (length (takeWhile (\<lambda>x. ?d x < to' + 1) xs)) xs)"
    if "sorted_wrt (\<lambda>x y. ?d x < ?d y) xs" for xs
    using that
  proof (induction xs)
    case (Cons x xs)
    show ?case
    proof (cases "?d x < to' + 1")
      case True
      have "takeWhile (\<lambda>x. ?d x < from + 1) xs = []" if "from < ?d x"
        using that Cons.prems by (cases xs) auto
      then show ?thesis using True Cons by auto
    next
      case False
      then have "takeWhile (\<lambda>x. ?d x < to' + 1) xs = []"
        using Cons.prems by (cases xs) auto
      then show ?thesis using False Cons by (auto simp: filter_empty_conv)
    qed
  qed simp
  have s: "sorted_wrt (\<lambda>x y. ?d x \<le> ?d y) (ct_members t)"
    by (rule sorted_wrt_mono_rel[OF _ tally_okD_sorted[OF assms]]) simp
  show ?thesis
    unfolding membersThrough_def Let_def binary_search_sorted[OF s] cut[OF tally_okD_sorted[OF assms]] ..
qed


subsection \<open>The loops of settle\<close>

lemma advance_prefix_ge: "n \<le> advance_prefix m ms n"
proof (induction m ms n rule: advance_prefix.induct)
  case (1 m ms n)
  then show ?case by (subst advance_prefix.simps) auto
qed

lemma advance_prefix_le: "n \<le> length ms \<Longrightarrow> advance_prefix m ms n \<le> length ms"
proof (induction m ms n rule: advance_prefix.induct)
  case (1 m ms n)
  then show ?case by (subst advance_prefix.simps) auto
qed

lemma advance_prefix_all:
  "\<forall>i<n. task_outcome m (ms ! i) = PredSucceeded \<Longrightarrow>
   i < advance_prefix m ms n \<Longrightarrow> task_outcome m (ms ! i) = PredSucceeded"
proof (induction m ms n rule: advance_prefix.induct)
  case (1 m ms n)
  show ?case
  proof (cases "n < length ms \<and> task_outcome m (ms ! n) = PredSucceeded")
    case True
    then have "\<forall>i<Suc n. task_outcome m (ms ! i) = PredSucceeded"
      using "1.prems"(1) less_Suc_eq by auto
    then show ?thesis using "1.IH"[OF True] "1.prems"(2) True by (subst (asm) advance_prefix.simps) simp
  next
    case False
    have "advance_prefix m ms n = n" using False by (subst advance_prefix.simps) (rule if_not_P)
    then show ?thesis using "1.prems" by simp
  qed
qed

lemma advance_prefix_stop:
  "advance_prefix m ms n < length ms \<Longrightarrow> task_outcome m (ms ! advance_prefix m ms n) \<noteq> PredSucceeded"
proof (induction m ms n rule: advance_prefix.induct)
  case (1 m ms n)
  show ?case
  proof (cases "n < length ms \<and> task_outcome m (ms ! n) = PredSucceeded")
    case True
    have e: "advance_prefix m ms n = advance_prefix m ms (Suc n)"
      using True by (subst advance_prefix.simps) simp
    show ?thesis using "1.IH"[OF True] "1.prems" unfolding e by blast
  next
    case False
    have "advance_prefix m ms n = n" using False by (subst advance_prefix.simps) (rule if_not_P)
    then show ?thesis using False "1.prems" by simp
  qed
qed

lemma cut_back_le: "cut_back ps d n \<le> n"
  by (induction ps d n rule: cut_back.induct) (auto simp: le_SucI)

lemma cut_back_suffix: "cut_back ps d n \<le> i \<Longrightarrow> i < n \<Longrightarrow> d \<le> pt_cursor (ps ! i)"
  by (induction ps d n rule: cut_back.induct) (auto split: if_splits simp: less_Suc_eq)

lemma cut_back_boundary: "cut_back ps d n = Suc i \<Longrightarrow> pt_cursor (ps ! i) < d"
  by (induction ps d n rule: cut_back.induct) (auto split: if_splits)

lemma cut_back_split:
  fixes d :: int
  assumes "sorted_wrt (\<lambda>p q. pt_cursor p \<le> pt_cursor q) ps"
  defines "i \<equiv> cut_back ps d (length ps)"
  shows "take i ps = filter (\<lambda>p. \<not> d \<le> pt_cursor p) ps \<and> drop i ps = filter (\<lambda>p. d \<le> pt_cursor p) ps"
proof -
  have i: "i \<le> length ps" by (simp add: i_def cut_back_le)
  have "pt_cursor p < d" if p: "p \<in> set (take i ps)" for p
  proof -
    obtain j where "j < length (take i ps)" "take i ps ! j = p"
      using p unfolding in_set_conv_nth by blast
    then have j: "j < i" "p = ps ! j" by simp_all
    then obtain k where k: "i = Suc k" by (cases i) auto
    have "pt_cursor (ps ! j) \<le> pt_cursor (ps ! k)"
      using sorted_wrt_nth_less[OF assms(1), of j k] j i k by (cases "j = k") auto
    then show ?thesis using cut_back_boundary[of ps d "length ps" k] k j i_def by simp
  qed
  then have a: "\<forall>p\<in>set (take i ps). \<not> d \<le> pt_cursor p" by (meson not_le)
  have b: "\<forall>p\<in>set (drop i ps). d \<le> pt_cursor p"
    using cut_back_suffix[of ps d "length ps"] i_def i by (force simp: in_set_conv_nth)
  have "filter P ps = filter P (take i ps) @ filter P (drop i ps)" for P
    by (metis append_take_drop_id filter_append)
  then show ?thesis using a b by (simp add: filter_id_conv filter_empty_conv)
qed

lemma filter_eq_all: "filter P xs = ys \<Longrightarrow> \<forall>y\<in>set ys. P y"
  by auto

lemma filter_sorted_antimono:
  assumes "sorted_wrt R xs" "\<And>x y. R x y \<Longrightarrow> P y \<Longrightarrow> P x"
  shows "takeWhile P xs = filter P xs \<and> drop (length (takeWhile P xs)) xs = filter (\<lambda>x. \<not> P x) xs"
  using assms(1)
proof (induction xs)
  case (Cons x xs)
  show ?case
  proof (cases "P x")
    case False
    then have "\<forall>y\<in>set xs. \<not> P y" using Cons.prems assms(2) by auto
    then show ?thesis using False by (auto simp: filter_empty_conv filter_id_conv)
  qed (use Cons in auto)
qed simp

text \<open>What is resolved, read from the members alone.\<close>

lemma resolved_exact:
  assumes "tally_ok m t"
  shows "resolved m t c \<longleftrightarrow>
    (\<exists>x\<in>set (ct_members t). tk_declaration (m x) \<le> c \<and> task_outcome m x = PredFailed) \<or>
    (\<forall>x\<in>set (ct_members t). tk_declaration (m x) \<le> c \<longrightarrow> task_outcome m x = PredSucceeded)"
  using assms by (simp add: resolved_def failedThrough_exact succeededThrough_exact)


subsection \<open>One member settles\<close>

abbreviation set_state :: "task_store \<Rightarrow> TaskRef \<Rightarrow> EntityState \<Rightarrow> task_store" where
  "set_state m st s \<equiv> m(st := (m st)\<lparr>tk_state := s\<rparr>)"

lemma set_state_declaration [simp]: "tk_declaration (set_state m st s x) = tk_declaration (m x)"
  by simp

lemma tally_ok_failed:
  assumes ok: "tally_ok m t" and st: "st \<in> set (ct_members t)" "task_outcome m st = PredPending"
    and s: "stateOutcome s = PredFailed"
    and new: "\<not> (ct_firstFailed t \<noteq> 0 \<and> ct_firstFailed t \<le> tk_declaration (m st))"
  shows "tally_ok (set_state m st s) (t\<lparr>ct_firstFailed := tk_declaration (m st), ct_open := os, ct_parked := ps\<rparr>)"
proof -
  have notpre: "st \<notin> set (take (ct_succeededPrefix t) (ct_members t))"
    using tally_okD_prefix[OF ok] st(2) by force
  have pos: "0 < tk_declaration (m st)" using tally_okD_pos[OF ok st(1)] .
  have least: "tk_declaration (m st) \<le> tk_declaration (m x)"
    if "x \<in> set (ct_members t)" "task_outcome m x = PredFailed" for x
    using ok that new unfolding tally_ok_def by (metis linear order_trans)
  have stop: "task_outcome (set_state m st s) (ct_members t ! ct_succeededPrefix t) \<noteq> PredSucceeded"
    if "ct_succeededPrefix t < length (ct_members t)"
    using tally_okD_stop[OF ok that] s by simp
  have pre: "\<forall>x\<in>set (take (ct_succeededPrefix t) (ct_members t)). task_outcome (set_state m st s) x = PredSucceeded"
    using tally_okD_prefix[OF ok] notpre by auto
  have first: "\<exists>x\<in>set (ct_members t). task_outcome (set_state m st s) x = PredFailed \<and> tk_declaration (m x) = tk_declaration (m st)"
    using st(1) s by (intro bexI[of _ st]) auto
  have low: "\<forall>x\<in>set (ct_members t). task_outcome (set_state m st s) x = PredFailed \<longrightarrow> tk_declaration (m st) \<le> tk_declaration (m x)"
    using least by auto
  show ?thesis
    unfolding tally_ok_def
    using pos stop pre first low tally_okD_sorted[OF ok] tally_okD_pos[OF ok] tally_okD_len[OF ok]
    by (simp del: fun_upd_apply add: set_state_declaration)
qed

lemma tally_ok_failed_old:
  assumes ok: "tally_ok m t" and st: "st \<in> set (ct_members t)" "task_outcome m st = PredPending"
    and s: "stateOutcome s = PredFailed"
    and old: "ct_firstFailed t \<noteq> 0" "ct_firstFailed t \<le> tk_declaration (m st)"
  shows "tally_ok (set_state m st s) t"
proof -
  have notpre: "st \<notin> set (take (ct_succeededPrefix t) (ct_members t))"
    using tally_okD_prefix[OF ok] st(2) by force
  obtain x where x: "x \<in> set (ct_members t)" "task_outcome m x = PredFailed"
    "tk_declaration (m x) = ct_firstFailed t"
    using ok old(1) unfolding tally_ok_def by blast
  have low: "\<forall>x\<in>set (ct_members t). task_outcome m x = PredFailed \<longrightarrow> ct_firstFailed t \<le> tk_declaration (m x)"
    using ok old(1) unfolding tally_ok_def by blast
  have "x \<noteq> st" using x st by auto
  then have first: "\<exists>x\<in>set (ct_members t). task_outcome (set_state m st s) x = PredFailed \<and> tk_declaration (m x) = ct_firstFailed t"
    using x by (intro bexI[of _ x]) auto
  have low': "\<forall>x\<in>set (ct_members t). task_outcome (set_state m st s) x = PredFailed \<longrightarrow> ct_firstFailed t \<le> tk_declaration (m x)"
    using low old(2) by auto
  have pre: "\<forall>x\<in>set (take (ct_succeededPrefix t) (ct_members t)). task_outcome (set_state m st s) x = PredSucceeded"
    using tally_okD_prefix[OF ok] notpre by auto
  have stop: "task_outcome (set_state m st s) (ct_members t ! ct_succeededPrefix t) \<noteq> PredSucceeded"
    if "ct_succeededPrefix t < length (ct_members t)"
    using tally_okD_stop[OF ok that] s by simp
  show ?thesis
    unfolding tally_ok_def
    using stop pre first low' old(1) tally_okD_sorted[OF ok] tally_okD_pos[OF ok] tally_okD_len[OF ok]
    by (simp del: fun_upd_apply add: set_state_declaration)
qed

lemma tally_ok_succeeded:
  assumes ok: "tally_ok m t" and st: "st \<in> set (ct_members t)" "task_outcome m st = PredPending"
    and s: "stateOutcome s = PredSucceeded"
  defines "m' \<equiv> set_state m st s"
  shows "tally_ok m' (t\<lparr>ct_succeededPrefix := advance_prefix m' (ct_members t) (ct_succeededPrefix t), ct_parked := ps\<rparr>)"
proof -
  let ?ms = "ct_members t" and ?k = "ct_succeededPrefix t"
  let ?k' = "advance_prefix m' ?ms ?k"
  have dec: "tk_declaration (m' x) = tk_declaration (m x)" for x by (simp add: m'_def)
  have fl: "task_outcome m' x = PredFailed \<longleftrightarrow> task_outcome m x = PredFailed" for x
    using st(2) s by (simp add: m'_def)
  have keep: "task_outcome m x = PredSucceeded \<Longrightarrow> task_outcome m' x = PredSucceeded" for x
    using s by (simp add: m'_def)
  have "\<forall>i<?k. task_outcome m' (?ms ! i) = PredSucceeded"
  proof (intro allI impI)
    fix i assume "i < ?k"
    then have "?ms ! i \<in> set (take ?k ?ms)"
      using tally_okD_len[OF ok] by (metis in_set_conv_nth length_take min.absorb2 nth_take)
    then show "task_outcome m' (?ms ! i) = PredSucceeded" using tally_okD_prefix[OF ok] keep by blast
  qed
  then have "\<forall>i<?k'. task_outcome m' (?ms ! i) = PredSucceeded" using advance_prefix_all by blast
  then have pre: "\<forall>x\<in>set (take ?k' ?ms). task_outcome m' x = PredSucceeded"
    by (auto simp: in_set_conv_nth)
  show ?thesis
    using ok pre advance_prefix_stop[of m' ?ms ?k] advance_prefix_le[OF tally_okD_len[OF ok], of m']
    unfolding tally_ok_def by (simp add: dec fl)
qed

lemma pending_change_outcome:
  assumes "task_outcome m st = PredPending" "stateOutcome s = PredPending"
  shows "task_outcome (set_state m st s) x = task_outcome m x"
  using assms by simp

lemma tally_ok_pending:
  assumes "task_outcome m st = PredPending" "stateOutcome s = PredPending"
  shows "tally_ok (set_state m st s) t = tally_ok m t"
  unfolding tally_ok_def using pending_change_outcome[of m st s, OF assms]
  by (simp del: fun_upd_apply add: set_state_declaration)


text \<open>
  What the event decides: with the cached facts exact before and after, an edge that was undecided
  becomes decided exactly when the settling member decided it.
\<close>

lemma newly_failed_resolved:
  assumes ok: "tally_ok m t" and ok': "tally_ok (set_state m st s) t'"
    and mem: "ct_members t' = ct_members t" and st: "st \<in> set (ct_members t)"
    and s: "stateOutcome s = PredFailed" and un: "\<not> resolved m t c"
  shows "resolved (set_state m st s) t' c \<longleftrightarrow> tk_declaration (m st) \<le> c"
proof -
  obtain x where x: "x \<in> set (ct_members t)" "tk_declaration (m x) \<le> c" "task_outcome m x \<noteq> PredSucceeded"
    using un resolved_exact[OF ok] by blast
  have nf: "\<forall>y\<in>set (ct_members t). tk_declaration (m y) \<le> c \<longrightarrow> task_outcome m y \<noteq> PredFailed"
    using un resolved_exact[OF ok] by blast
  have "task_outcome (set_state m st s) x \<noteq> PredSucceeded" using x s by auto
  then have "\<not> (\<forall>y\<in>set (ct_members t). tk_declaration (m y) \<le> c \<longrightarrow> task_outcome (set_state m st s) y = PredSucceeded)"
    using x by blast
  moreover have "(\<exists>y\<in>set (ct_members t). tk_declaration (m y) \<le> c \<and> task_outcome (set_state m st s) y = PredFailed)
      \<longleftrightarrow> tk_declaration (m st) \<le> c"
    using nf st s by (auto split: if_splits)
  ultimately show ?thesis
    unfolding resolved_exact[OF ok'] mem set_state_declaration by blast
qed

lemma newly_succeeded_resolved:
  assumes ok: "tally_ok m t" and ok': "tally_ok (set_state m st s) t'"
    and mem: "ct_members t' = ct_members t" and st: "task_outcome m st = PredPending"
    and s: "stateOutcome s = PredSucceeded" and un: "\<not> resolved m t c"
  shows "resolved (set_state m st s) t' c \<longleftrightarrow> succeededThrough (set_state m st s) t' c"
proof -
  have "\<forall>y\<in>set (ct_members t). tk_declaration (m y) \<le> c \<longrightarrow> task_outcome m y \<noteq> PredFailed"
    using un resolved_exact[OF ok] by blast
  then have "\<not> failedThrough t' c"
    unfolding failedThrough_exact[OF ok'] mem set_state_declaration using s st by auto
  then show ?thesis by (simp add: resolved_def)
qed

lemma succeededThrough_antimono:
  assumes "tally_ok m t" "c \<le> c'" "succeededThrough m t c'"
  shows "succeededThrough m t c"
  using assms by (auto simp: succeededThrough_exact)

text \<open>The settle step, its three cases as one statement about the tally before and after.\<close>

definition settle_post :: "task_store \<Rightarrow> collectionTally \<Rightarrow> task_store \<Rightarrow> collectionTally \<times> TaskRef list \<Rightarrow> bool" where
  "settle_post m t m' r \<longleftrightarrow>
     tally_ok m' (fst r) \<and> parked_ok m' (fst r) \<and>
     ct_members (fst r) = ct_members t \<and>
     ct_parked (fst r) = filter (\<lambda>p. \<not> resolved m' (fst r) (pt_cursor p)) (ct_parked t) \<and>
     ct_open (fst r) = (if ct_firstFailed (fst r) = 0 then ct_open t else []) \<and>
     snd r = (if ct_firstFailed (fst r) = 0 then [] else ct_open t) @
       map pt_st (filter (\<lambda>p. resolved m' (fst r) (pt_cursor p)) (ct_parked t))"

lemma parked_ok_sorted:
  "parked_ok m t \<Longrightarrow> sorted_wrt (\<lambda>p q. pt_cursor p \<le> pt_cursor q) (ct_parked t)"
  "parked_ok m t \<Longrightarrow> p \<in> set (ct_parked t) \<Longrightarrow> \<not> resolved m t (pt_cursor p)"
  by (simp_all add: parked_ok_def)

lemma settle_failed_post:
  assumes ok: "tally_ok m t" and pk: "parked_ok m t"
    and st: "st \<in> set (ct_members t)" "task_outcome m st = PredPending"
    and s: "stateOutcome s = PredFailed"
  defines "m' \<equiv> set_state m st s"
  shows "settle_post m t m' (tally_settle m' t st)"
proof (cases "ct_firstFailed t \<noteq> 0 \<and> ct_firstFailed t \<le> tk_declaration (m st)")
  case True
  have r: "tally_settle m' t st = (t, [])" using True s by (simp add: tally_settle_def m'_def)
  have ok': "tally_ok m' t" unfolding m'_def using tally_ok_failed_old[OF ok st s] True by blast
  have un: "\<not> resolved m' t (pt_cursor p)" if "p \<in> set (ct_parked t)" for p
    using newly_failed_resolved[OF ok ok'[unfolded m'_def] refl st(1) s parked_ok_sorted(2)[OF pk that]]
      parked_ok_sorted(2)[OF pk that] True
    by (auto simp: m'_def resolved_def failedThrough_def)
  have op: "ct_open t = []" using pk True by (auto simp: parked_ok_def)
  have "parked_ok m' t" using pk un by (auto simp: parked_ok_def)
  then show ?thesis using ok' un op True by (simp add: settle_post_def r filter_id_conv filter_empty_conv)
next
  case False
  let ?d = "tk_declaration (m st)"
  let ?i = "cut_back (ct_parked t) ?d (length (ct_parked t))"
  let ?t = "t\<lparr>ct_firstFailed := ?d, ct_open := [], ct_parked := take ?i (ct_parked t)\<rparr>"
  have r: "tally_settle m' t st = (?t, ct_open t @ map pt_st (drop ?i (ct_parked t)))"
    using False s by (auto simp: tally_settle_def m'_def Let_def)
  have pos: "0 < ?d" using tally_okD_pos[OF ok st(1)] .
  have ok': "tally_ok m' ?t" unfolding m'_def by (rule tally_ok_failed[OF ok st s False])
  have res: "resolved m' ?t (pt_cursor p) \<longleftrightarrow> ?d \<le> pt_cursor p" if "p \<in> set (ct_parked t)" for p
    unfolding m'_def
    by (rule newly_failed_resolved[OF ok ok'[unfolded m'_def] _ st(1) s parked_ok_sorted(2)[OF pk that]]) simp
  have f1: "filter (\<lambda>p. \<not> resolved m' ?t (pt_cursor p)) (ct_parked t) = take ?i (ct_parked t)"
    using cut_back_split[OF parked_ok_sorted(1)[OF pk], of ?d] res by (metis (mono_tags, lifting) filter_cong)
  have f2: "filter (\<lambda>p. resolved m' ?t (pt_cursor p)) (ct_parked t) = drop ?i (ct_parked t)"
    using cut_back_split[OF parked_ok_sorted(1)[OF pk], of ?d] res by (metis (mono_tags, lifting) filter_cong)
  have "\<forall>p\<in>set (take ?i (ct_parked t)). \<not> resolved m' ?t (pt_cursor p)"
    by (rule filter_eq_all[OF f1])
  moreover have "ct_builderFailed t \<longrightarrow> ct_parked t = []" using pk by (simp add: parked_ok_def)
  ultimately have "parked_ok m' ?t"
    using sorted_wrt_take[OF parked_ok_sorted(1)[OF pk], of ?i] by (simp add: parked_ok_def)
  then show ?thesis unfolding settle_post_def r fst_conv snd_conv f1 f2 using ok' pos by simp
qed


lemma settle_succeeded_post:
  assumes ok: "tally_ok m t" and pk: "parked_ok m t"
    and st: "st \<in> set (ct_members t)" "task_outcome m st = PredPending"
    and s: "stateOutcome s = PredSucceeded"
  defines "m' \<equiv> set_state m st s"
  shows "settle_post m t m' (tally_settle m' t st)"
proof -
  let ?t1 = "t\<lparr>ct_succeededPrefix := advance_prefix m' (ct_members t) (ct_succeededPrefix t)\<rparr>"
  let ?w = "takeWhile (\<lambda>p. succeededThrough m' ?t1 (pt_cursor p)) (ct_parked t)"
  let ?t = "?t1\<lparr>ct_parked := drop (length ?w) (ct_parked t)\<rparr>"
  have r: "tally_settle m' t st = (?t, map pt_st ?w)" using s by (simp add: tally_settle_def m'_def Let_def)
  have ok1: "tally_ok m' ?t1"
    using tally_ok_succeeded[OF ok st s, of "ct_parked t"] by (simp add: m'_def)
  have ok': "tally_ok m' ?t"
    using tally_ok_succeeded[OF ok st s, of "drop (length ?w) (ct_parked t)"] by (simp add: m'_def)
  have res: "resolved m' ?t (pt_cursor p) \<longleftrightarrow> succeededThrough m' ?t1 (pt_cursor p)"
    if "p \<in> set (ct_parked t)" for p
    using newly_succeeded_resolved[OF ok ok'[unfolded m'_def] _ st(2) s parked_ok_sorted(2)[OF pk that]]
    by (simp add: m'_def succeededThrough_def)
  have sp: "?w = filter (\<lambda>p. succeededThrough m' ?t1 (pt_cursor p)) (ct_parked t) \<and>
      drop (length ?w) (ct_parked t) = filter (\<lambda>p. \<not> succeededThrough m' ?t1 (pt_cursor p)) (ct_parked t)"
    by (rule filter_sorted_antimono[OF parked_ok_sorted(1)[OF pk]]) (rule succeededThrough_antimono[OF ok1])
  have f1: "filter (\<lambda>p. \<not> resolved m' ?t (pt_cursor p)) (ct_parked t) = drop (length ?w) (ct_parked t)"
    using sp res by (metis (mono_tags, lifting) filter_cong)
  have f2: "filter (\<lambda>p. resolved m' ?t (pt_cursor p)) (ct_parked t) = ?w"
    using sp res by (metis (mono_tags, lifting) filter_cong)
  have "\<forall>p\<in>set (drop (length ?w) (ct_parked t)). \<not> resolved m' ?t (pt_cursor p)"
    by (rule filter_eq_all[OF f1])
  moreover have op: "ct_open t \<noteq> [] \<longrightarrow> ct_firstFailed t = 0" "ct_builderFailed t \<longrightarrow> ct_parked t = [] \<and> ct_open t = []"
    using pk by (simp_all add: parked_ok_def)
  ultimately have "parked_ok m' ?t"
    using sorted_wrt_drop[OF parked_ok_sorted(1)[OF pk], of "length ?w"] by (simp add: parked_ok_def)
  then show ?thesis unfolding settle_post_def r fst_conv snd_conv f1 f2 using ok' op by auto
qed

lemma settle_pending_post:
  assumes ok: "tally_ok m t" and pk: "parked_ok m t" and st: "task_outcome m st = PredPending"
    and s: "stateOutcome s = PredPending"
  defines "m' \<equiv> set_state m st s"
  shows "settle_post m t m' (tally_settle m' t st)"
proof -
  have r: "tally_settle m' t st = (t, [])" using s by (simp add: tally_settle_def m'_def)
  have res: "resolved m' t c = resolved m t c" for c
    by (simp add: resolved_def succeededThrough_def m'_def)
  have "tally_ok m' t" using ok tally_ok_pending[of m st s, OF st s] by (simp add: m'_def)
  then show ?thesis
    using pk by (auto simp: settle_post_def r parked_ok_def res filter_id_conv filter_empty_conv)
qed

text \<open>
  Property (C33): settling a member keeps the tally exact and wakes exactly the Tasks whose edge the
  settle decided, the open edges first and then the closed ones in cursor order; every Task left
  parked still has an undecided edge, so no wake-up is lost and none is spurious.
\<close>

theorem settle_wakes_exactly:
  assumes "tally_ok m t" "parked_ok m t" "st \<in> set (ct_members t)" "task_outcome m st = PredPending"
  shows "settle_post m t (set_state m st s) (tally_settle (set_state m st s) t st)"
  using settle_failed_post[OF assms] settle_succeeded_post[OF assms]
    settle_pending_post[OF assms(1,2,4)]
  by (cases "stateOutcome s") auto


definition wit_cell :: "EntityState \<Rightarrow> int \<Rightarrow> taskState" where
  "wit_cell s d = \<lparr>tk_state = s, tk_declaration = d, tk_phase = PhaseRunning, tk_preds = [],
     tk_dependents = [], tk_collection = None\<rparr>"

definition wit_store :: task_store where
  "wit_store = (\<lambda>r. if r = 1 then wit_cell Done 1 else wit_cell Running (int r))"

definition wit_tally :: collectionTally where
  "wit_tally = empty_tally\<lparr>ct_members := [1, 2, 5], ct_succeededPrefix := 1,
     ct_parked := [\<lparr>pt_st = 8, pt_cursor = 3\<rparr>, \<lparr>pt_st = 9, pt_cursor = 6\<rparr>], ct_open := [7]\<rparr>"

text \<open>Member 2 fails: the open edge of 7 and both closed edges are decided.\<close>

theorem settle_wakes_exactly_witness:
  "settle_post wit_store wit_tally (set_state wit_store 2 Failed) (tally_settle (set_state wit_store 2 Failed) wit_tally 2)
   \<and> snd (tally_settle (set_state wit_store 2 Failed) wit_tally 2) = [7, 8, 9]
   \<and> snd (tally_settle (set_state wit_store 2 Done) wit_tally 2) = [8]"
proof -
  have ok: "tally_ok wit_store wit_tally" "parked_ok wit_store wit_tally"
    by (simp_all add: tally_defs failedThrough_def succeededThrough_def wit_tally_def wit_store_def
        wit_cell_def empty_tally_def stateOutcome.simps less_Suc_eq)
  have "settle_post wit_store wit_tally (set_state wit_store 2 Failed) (tally_settle (set_state wit_store 2 Failed) wit_tally 2)"
    by (rule settle_wakes_exactly[OF ok])
      (simp_all add: wit_tally_def wit_store_def wit_cell_def empty_tally_def stateOutcome.simps)
  then show ?thesis
    by (simp add: tally_settle_def wit_tally_def wit_store_def wit_cell_def empty_tally_def stateOutcome.simps
        succeededThrough_def Let_def advance_prefix.simps eval_nat_numeral)
qed

subsection \<open>The other operations keep the invariant\<close>

text \<open>A new member is pending and declared after every other one (\<open>nextDecl\<close> only grows).\<close>

lemma tally_declare_eq:
  "task_outcome m st = PredPending \<Longrightarrow> tally_declare m t st = t\<lparr>ct_members := ct_members t @ [st]\<rparr>"
  by (simp add: tally_declare_def tally_settle_def)

lemma tally_declare_ok:
  assumes ok: "tally_ok m t" and pk: "parked_ok m t" and st: "task_outcome m st = PredPending"
    and fresh: "0 < tk_declaration (m st)"
    "\<forall>x\<in>set (ct_members t). tk_declaration (m x) < tk_declaration (m st)"
  shows "tally_ok m (tally_declare m t st) \<and> parked_ok m (tally_declare m t st)"
proof -
  let ?t = "t\<lparr>ct_members := ct_members t @ [st]\<rparr>"
  have ok': "tally_ok m ?t"
    unfolding tally_ok_def
    using ok[unfolded tally_ok_def] st fresh by (auto simp: sorted_wrt_append nth_append)
  have "\<not> resolved m ?t c" if "\<not> resolved m t c" for c
    using that st unfolding resolved_exact[OF ok] resolved_exact[OF ok'] by auto
  then show ?thesis
    using pk ok' by (auto simp: tally_declare_eq[of m st, OF st] parked_ok_def)
qed

lemma tally_ok_frame [simp]:
  "tally_ok m (t\<lparr>ct_open := a\<rparr>) = tally_ok m t" "tally_ok m (t\<lparr>ct_parked := b\<rparr>) = tally_ok m t"
  "tally_ok m (t\<lparr>ct_holds := h\<rparr>) = tally_ok m t" "tally_ok m (t\<lparr>ct_sealed := s\<rparr>) = tally_ok m t"
  "tally_ok m (t\<lparr>ct_sealedThrough := c\<rparr>) = tally_ok m t" "tally_ok m (t\<lparr>ct_builderFailed := f\<rparr>) = tally_ok m t"
  by (simp_all add: tally_ok_def)

lemma resolved_frame [simp]:
  "resolved m (t\<lparr>ct_open := a\<rparr>) c = resolved m t c" "resolved m (t\<lparr>ct_parked := b\<rparr>) c = resolved m t c"
  "resolved m (t\<lparr>ct_holds := h\<rparr>) c = resolved m t c" "resolved m (t\<lparr>ct_sealed := s\<rparr>) c = resolved m t c"
  "resolved m (t\<lparr>ct_sealedThrough := d\<rparr>) c = resolved m t c"
  "resolved m (t\<lparr>ct_builderFailed := f\<rparr>) c = resolved m t c"
  by (simp_all add: resolved_def failedThrough_def succeededThrough_def)

lemma park_ok:
  assumes "tally_ok m t" "parked_ok m t" "\<not> ct_builderFailed t"
    "if open' then ct_firstFailed t = 0 else \<not> resolved m t cursor"
  shows "tally_ok m (park t st cursor open') \<and> parked_ok m (park t st cursor open')"
  using assms insertAfterOrder_sorted[of pt_cursor "ct_parked t"]
  by (auto simp: park_def parked_ok_def)

lemma seal_ok:
  "tally_ok m t \<Longrightarrow> parked_ok m t \<Longrightarrow> tally_ok m (fst (seal t c)) \<and> parked_ok m (fst (seal t c))"
  by (auto simp: seal_def parked_ok_def)

lemma unpark_ok:
  "tally_ok m t \<Longrightarrow> parked_ok m t \<Longrightarrow> tally_ok m (unpark t) \<and> parked_ok m (unpark t)"
  by (auto simp: unpark_def parked_ok_def)

lemma release_hold_ok:
  "tally_ok m t \<Longrightarrow> parked_ok m t \<Longrightarrow>
   tally_ok m (fst (release_hold t s c)) \<and> parked_ok m (fst (release_hold t s c))"
  by (auto simp: release_hold_def seal_def parked_ok_def Let_def)

lemma failBuilder_ok:
  "tally_ok m t \<Longrightarrow> parked_ok m t \<Longrightarrow>
   tally_ok m (fst (failBuilder t)) \<and> parked_ok m (fst (failBuilder t))"
  by (auto simp: failBuilder_def parked_ok_def)

lemma empty_tally_ok: "tally_ok m empty_tally \<and> parked_ok m empty_tally"
  by (simp add: tally_ok_def parked_ok_def empty_tally_def)


subsection \<open>Releasing a builder's hold\<close>

text \<open>
  When the last hold goes, every Task parked on an open edge is woken, with one
  exception: a container whose membership was sealed before its builder was defined keeps them
  parked, because \<open>seal\<close> returns early for a container already sealed.
\<close>

theorem release_wakes_open:
  "ct_holds t = 1 \<Longrightarrow>
   (if sealing \<and> ct_sealed t
    then snd (release_hold t sealing cursor) = [] \<and> ct_open (fst (release_hold t sealing cursor)) = ct_open t
    else snd (release_hold t sealing cursor) = ct_open t \<and> ct_open (fst (release_hold t sealing cursor)) = [])"
  by (simp add: release_hold_def seal_def Let_def)

text \<open>
  The container was waited for while empty (sealed through cursor 4), then given a builder, and Task
  9 was wired after it while the builder was pending.
\<close>

theorem release_wakes_open_witness:
  "(let t = park ((fst (seal empty_tally 4))\<lparr>ct_holds := 1\<rparr>) 9 0 True in
    snd (release_hold t True 6) = [] \<and> ct_open (fst (release_hold t True 6)) = [9])
   \<and> (let t = park (empty_tally\<lparr>ct_holds := 1\<rparr>) 9 0 True in snd (release_hold t True 6) = [9])"
proof -
  have 1: "ct_holds (park ((fst (seal empty_tally 4))\<lparr>ct_holds := 1\<rparr>) 9 0 True) = 1"
    by (simp add: park_def seal_def empty_tally_def)
  have 2: "ct_holds (park (empty_tally\<lparr>ct_holds := 1\<rparr>) 9 0 True) = 1"
    by (simp add: park_def empty_tally_def)
  show ?thesis
    using release_wakes_open[OF 1, of True 6] release_wakes_open[OF 2, of True 6]
    by (simp add: park_def seal_def empty_tally_def Let_def)
qed

subsection \<open>What a closed edge reads\<close>

text \<open>
  The interface the eligibility rules use: three constant-time reads that stand for the outcomes of
  the members declared through a cursor. \<open>fold_outcomes\<close> is what an edge means: failed as soon as
  one member failed, succeeded once all did, pending otherwise.
\<close>

definition fold_outcomes :: "PredOutcome list \<Rightarrow> PredOutcome" where
  "fold_outcomes vs =
     (if PredFailed \<in> set vs then PredFailed
      else if (\<forall>v\<in>set vs. v = PredSucceeded) then PredSucceeded else PredPending)"

locale edge_reader =
  fixes ok :: "'s \<Rightarrow> bool"
    and outcomes :: "'s \<Rightarrow> (int \<times> PredOutcome) list"
    and has_through failed_through succeeded_through :: "'s \<Rightarrow> int \<Rightarrow> bool"
  assumes has_iff: "ok s \<Longrightarrow> has_through s c \<longleftrightarrow> (\<exists>x\<in>set (outcomes s). fst x \<le> c)"
    and failed_iff: "ok s \<Longrightarrow> failed_through s c \<longleftrightarrow> (\<exists>x\<in>set (outcomes s). fst x \<le> c \<and> snd x = PredFailed)"
    and succeeded_iff: "ok s \<Longrightarrow> succeeded_through s c \<longleftrightarrow>
      (\<forall>x\<in>set (outcomes s). fst x \<le> c \<longrightarrow> snd x = PredSucceeded)"
begin

lemma read_is_fold:
  assumes "ok s"
  shows "(if failed_through s c then PredFailed
     else if succeeded_through s c then PredSucceeded else PredPending)
    = fold_outcomes (map snd (filter (\<lambda>x. fst x \<le> c) (outcomes s)))"
  unfolding fold_outcomes_def using failed_iff[OF assms] succeeded_iff[OF assms]
  by (auto simp: image_iff)

lemma failed_mono: "ok s \<Longrightarrow> c \<le> c' \<Longrightarrow> failed_through s c \<Longrightarrow> failed_through s c'"
  unfolding failed_iff by (meson order_trans)

lemma failed_not_succeeded: "ok s \<Longrightarrow> failed_through s c \<Longrightarrow> \<not> succeeded_through s c"
  unfolding failed_iff succeeded_iff by fastforce

lemma empty_succeeds: "ok s \<Longrightarrow> \<not> has_through s c \<Longrightarrow> succeeded_through s c \<and> \<not> failed_through s c"
  unfolding has_iff failed_iff succeeded_iff by blast

text \<open>
  A decided edge stays decided while members only progress: the outcome of the members through its
  cursor is the same list up to turning pending entries into decided ones.
\<close>

lemma decided_stays:
  assumes "ok s" "ok s'"
    and grow: "\<And>d v. (d, v) \<in> set (outcomes s') \<Longrightarrow> d \<le> c \<Longrightarrow>
      (d, v) \<in> set (outcomes s) \<or> (d, PredPending) \<in> set (outcomes s)"
    and keep: "\<And>d. (d, PredFailed) \<in> set (outcomes s) \<Longrightarrow> (d, PredFailed) \<in> set (outcomes s')"
  shows "(succeeded_through s c \<longrightarrow> succeeded_through s' c) \<and> (failed_through s c \<longrightarrow> failed_through s' c)"
proof
  show "succeeded_through s c \<longrightarrow> succeeded_through s' c"
    unfolding succeeded_iff[OF assms(1)] succeeded_iff[OF assms(2)] using grow by fastforce
  show "failed_through s c \<longrightarrow> failed_through s' c"
    unfolding failed_iff[OF assms(1)] failed_iff[OF assms(2)] using keep by fastforce
qed

end

definition member_outcomes :: "task_store \<times> collectionTally \<Rightarrow> (int \<times> PredOutcome) list" where
  "member_outcomes s = map (\<lambda>x. (tk_declaration (fst s x), task_outcome (fst s) x)) (ct_members (snd s))"

interpretation tally_reads: edge_reader "\<lambda>s. tally_ok (fst s) (snd s)" member_outcomes
  "\<lambda>s. hasMemberThrough (fst s) (snd s)" "\<lambda>s. failedThrough (snd s)"
  "\<lambda>s. succeededThrough (fst s) (snd s)"
  by unfold_locales
    (auto simp: member_outcomes_def hasMemberThrough_exact failedThrough_exact succeededThrough_exact)

text \<open>
  The three cached reads are the fold over the members declared through the cursor,
  and the binary-searched slice \<open>membersThrough\<close> is exactly the members between its two cursors.
\<close>

theorem tally_reads_exact:
  assumes "tally_ok m t"
  shows "(if failedThrough t c then PredFailed
      else if succeededThrough m t c then PredSucceeded else PredPending)
    = fold_outcomes (map (task_outcome m) (filter (\<lambda>x. tk_declaration (m x) \<le> c) (ct_members t)))
    \<and> (hasMemberThrough m t c \<longleftrightarrow> filter (\<lambda>x. tk_declaration (m x) \<le> c) (ct_members t) \<noteq> [])
    \<and> membersThrough m t from c =
      filter (\<lambda>x. from < tk_declaration (m x) \<and> tk_declaration (m x) \<le> c) (ct_members t)"
proof (intro conjI)
  have "map snd (filter (\<lambda>x. fst x \<le> c) (member_outcomes (m, t)))
      = map (task_outcome m) (filter (\<lambda>x. tk_declaration (m x) \<le> c) (ct_members t))"
    by (simp add: member_outcomes_def filter_map comp_def)
  then show "(if failedThrough t c then PredFailed
      else if succeededThrough m t c then PredSucceeded else PredPending)
    = fold_outcomes (map (task_outcome m) (filter (\<lambda>x. tk_declaration (m x) \<le> c) (ct_members t)))"
    using tally_reads.read_is_fold[of "(m, t)" c, unfolded fst_conv snd_conv, OF assms] by (simp only:)
qed (simp_all add: hasMemberThrough_exact[OF assms] membersThrough_exact[OF assms] filter_empty_conv)

theorem tally_reads_exact_witness:
  "membersThrough wit_store wit_tally 1 4 = [2] \<and>
   fold_outcomes (map (task_outcome wit_store) (filter (\<lambda>x. tk_declaration (wit_store x) \<le> 4) (ct_members wit_tally))) = PredPending"
proof -
  have ok: "tally_ok wit_store wit_tally"
    by (simp add: tally_ok_def wit_tally_def wit_store_def wit_cell_def empty_tally_def stateOutcome.simps
        less_Suc_eq)
  show ?thesis
    using tally_reads_exact[OF ok, of 4 1]
    by (simp add: wit_tally_def wit_store_def wit_cell_def empty_tally_def stateOutcome.simps
        failedThrough_def succeededThrough_def)
qed

end
