(* ===== verification/Engine_Eligibility.thy ===== *)
theory Engine_Eligibility
  imports Engine_Tally "HOL-Library.Monad_Syntax"
begin

text \<open>
  When a Task may start (\<open>internal/engine/eligibility.go\<close>, \<open>task_schedule.go\<close>): the outcome of one
  predecessor, of a Group or Sequence edge through its cursor, of an empty collection's entry, and
  the fold over a Task's predecessors that forgets those that already succeeded. An empty closed
  collection answers for what it starts after, so reading an outcome recurses along entries; the
  recursion is a \<open>partial_function\<close>, whose value \<open>None\<close> is a read that never returns. It returns
  when the entries are acyclic, and a cycle of empty collections is shown to diverge. The counter
  \<open>predChecks\<close>, which only tests read, is left out.
\<close>

subsection \<open>State\<close>

record tasksState =
  co_tally :: collectionTally
  co_entry :: "predecessor list"
  co_parent :: "ColRef option"

record scheduler =
  e_tasks :: task_store
  e_cols :: "ColRef \<Rightarrow> tasksState"
  e_draining :: bool
  e_declSeq :: int

definition no_pred :: predecessor where
  "no_pred = \<lparr>pd_task = None, pd_col = None, pd_through = 0\<rparr>"

abbreviation task_pred :: "TaskRef \<Rightarrow> predecessor" where
  "task_pred r \<equiv> \<lparr>pd_task = Some r, pd_col = None, pd_through = 0\<rparr>"

subsection \<open>Phases (task_schedule.go)\<close>

fun submitted :: "schedPhase \<Rightarrow> bool" where
  "submitted ph = (ph = PhaseQueued \<or> ph = PhaseParked \<or> ph = PhaseRunning)"

fun schedule_awaitingStart :: "schedPhase \<Rightarrow> bool" where
  "schedule_awaitingStart ph = (ph = PhaseQueued \<or> ph = PhaseParked)"

definition awaitingStart :: "taskState \<Rightarrow> bool" where
  "awaitingStart st \<longleftrightarrow> schedule_awaitingStart (tk_phase st) \<and> \<not> IsTerminalTask (tk_state st)"

definition neverDefined :: "taskState \<Rightarrow> bool" where
  "neverDefined st \<longleftrightarrow> tk_phase st = PhaseDeclared \<and> \<not> IsTerminalTask (tk_state st)"

subsection \<open>One predecessor (eligibility.go)\<close>

definition taskOutcomeLocked :: "scheduler \<Rightarrow> TaskRef \<Rightarrow> PredOutcome" where
  "taskOutcomeLocked e t =
     (let out = stateOutcome (tk_state (e_tasks e t)) in
      if out = PredPending \<and> e_draining e \<and> neverDefined (e_tasks e t) then PredFailed else out)"

definition edgeCursorLocked :: "scheduler \<Rightarrow> predecessor \<Rightarrow> ColRef \<Rightarrow> int \<times> bool" where
  "edgeCursorLocked e p c =
     (let t = co_tally (e_cols e c) in
      if ct_holds t > 0 then (0, True)
      else if pd_through p \<noteq> 0 then (pd_through p, False)
      else if ct_sealed t then (ct_sealedThrough t, False)
      else if e_draining e then (throughAll, False)
      else (0, True))"

text \<open>
  The members' answer of \<open>collectionOutcomeLocked\<close>; \<open>None\<close> is the case that has none, where the
  collection answers for its entry.
\<close>

definition collection_read :: "scheduler \<Rightarrow> predecessor \<Rightarrow> ColRef \<Rightarrow> PredOutcome option" where
  "collection_read e p c =
     (let t = co_tally (e_cols e c) in
      if ct_builderFailed t then Some PredFailed
      else
        (let (cursor, opn) = edgeCursorLocked e p c in
         if (opn \<and> ct_firstFailed t \<noteq> 0) \<or> (\<not> opn \<and> failedThrough t cursor) then Some PredFailed
         else if opn then Some PredPending
         else if \<not> hasMemberThrough (e_tasks e) t cursor then None
         else if succeededThrough (e_tasks e) t cursor then Some PredSucceeded
         else Some PredPending))"

text \<open>
  \<open>entryOutcomeLocked\<close>, with the call of \<open>outcomeLocked\<close> in its loop written out, so that the mutual
  recursion of the three functions is one.
\<close>

partial_function (option) entry_fold ::
  "scheduler \<Rightarrow> predecessor list \<Rightarrow> PredOutcome \<Rightarrow> predecessor \<Rightarrow> (PredOutcome \<times> predecessor) option" where
  "entry_fold e ps verdict blocker =
     (case ps of
        [] \<Rightarrow> Some (verdict, blocker)
      | p # rest \<Rightarrow>
          Option.bind
            (case pd_task p of
               Some r \<Rightarrow> Some (taskOutcomeLocked e r, p)
             | None \<Rightarrow>
                 (case pd_col p of
                    None \<Rightarrow> Some (PredFailed, p)
                  | Some c \<Rightarrow>
                      (case collection_read e p c of
                         Some v \<Rightarrow> Some (v, p)
                       | None \<Rightarrow> entry_fold e (co_entry (e_cols e c)) PredSucceeded no_pred)))
            (\<lambda>(out, b).
               if out = PredFailed then Some (PredFailed, b)
               else if out = PredPending \<and> verdict = PredSucceeded
                 then entry_fold e rest PredPending b
               else entry_fold e rest verdict blocker))"

definition entryOutcomeLocked :: "scheduler \<Rightarrow> ColRef \<Rightarrow> (PredOutcome \<times> predecessor) option" where
  "entryOutcomeLocked e c = entry_fold e (co_entry (e_cols e c)) PredSucceeded no_pred"

definition collectionOutcomeLocked ::
  "scheduler \<Rightarrow> predecessor \<Rightarrow> ColRef \<Rightarrow> (PredOutcome \<times> predecessor) option" where
  "collectionOutcomeLocked e p c =
     (case collection_read e p c of
        Some v \<Rightarrow> Some (v, p)
      | None \<Rightarrow> entryOutcomeLocked e c)"

definition outcomeLocked :: "scheduler \<Rightarrow> predecessor \<Rightarrow> (PredOutcome \<times> predecessor) option" where
  "outcomeLocked e p =
     (case pd_task p of
        Some r \<Rightarrow> Some (taskOutcomeLocked e r, p)
      | None \<Rightarrow>
          (case pd_col p of
             None \<Rightarrow> Some (PredFailed, p)
           | Some c \<Rightarrow> collectionOutcomeLocked e p c))"

text \<open>The loop of \<open>entryOutcomeLocked\<close> as the source writes it, over \<open>outcomeLocked\<close>.\<close>

lemma entry_fold_Nil [simp]: "entry_fold e [] v b = Some (v, b)"
  by (simp add: entry_fold.simps)

lemma entry_fold_Cons:
  "entry_fold e (p # rest) v b =
     Option.bind (outcomeLocked e p)
       (\<lambda>(out, b'). if out = PredFailed then Some (PredFailed, b')
          else if out = PredPending \<and> v = PredSucceeded then entry_fold e rest PredPending b'
          else entry_fold e rest v b)"
  by (subst entry_fold.simps)
    (simp add: outcomeLocked_def collectionOutcomeLocked_def entryOutcomeLocked_def
      cong: option.case_cong)

subsection \<open>A Task's predecessors\<close>

datatype predScan = ScanToBlocker | ScanAll

text \<open>
  The result is the verdict, what to park on, and the predecessors kept for the next read.
\<close>

fun preds_loop :: "scheduler \<Rightarrow> predScan \<Rightarrow> predecessor list \<Rightarrow> PredOutcome \<Rightarrow> predecessor \<Rightarrow>
    predecessor list \<Rightarrow> (PredOutcome \<times> predecessor \<times> predecessor list) option" where
  "preds_loop e scan [] verdict blocker kept = Some (verdict, blocker, kept)"
| "preds_loop e scan (p # rest) verdict blocker kept =
     Option.bind (outcomeLocked e p)
       (\<lambda>(out, parkOn).
          if out = PredFailed then Some (PredFailed, p, kept @ p # rest)
          else
            (let (verdict, blocker) =
                   (if out = PredPending \<and> verdict = PredSucceeded then (PredPending, parkOn)
                    else (verdict, blocker));
                 kept = (if out \<noteq> PredSucceeded \<or> pd_task p = None then kept @ [p] else kept)
             in if verdict = PredPending \<and> scan = ScanToBlocker then Some (verdict, blocker, kept @ rest)
                else preds_loop e scan rest verdict blocker kept))"

definition predsOutcomeLocked ::
  "scheduler \<Rightarrow> TaskRef \<Rightarrow> predScan \<Rightarrow> (PredOutcome \<times> predecessor \<times> scheduler) option" where
  "predsOutcomeLocked e st scan =
     Option.bind (preds_loop e scan (tk_preds (e_tasks e st)) PredSucceeded no_pred [])
       (\<lambda>(verdict, blocker, kept).
          Some (verdict, blocker,
            e\<lparr>e_tasks := (e_tasks e)(st := (e_tasks e st)\<lparr>tk_preds := kept\<rparr>)\<rparr>))"

definition eligibleLocked :: "scheduler \<Rightarrow> TaskRef \<Rightarrow> (bool \<times> scheduler) option" where
  "eligibleLocked e st =
     Option.bind (predsOutcomeLocked e st ScanToBlocker)
       (\<lambda>(verdict, _, e'). Some (verdict = PredSucceeded, e'))"

subsection \<open>Naming a populated collection closes its membership\<close>

definition closeMembership :: "scheduler \<Rightarrow> predecessor \<Rightarrow> predecessor \<times> scheduler \<times> TaskRef list" where
  "closeMembership e p =
     (case pd_col p of
        None \<Rightarrow> (p, e, [])
      | Some c \<Rightarrow>
          (let t = co_tally (e_cols e c) in
           if pd_through p \<noteq> 0 \<or> total t = 0 \<or> ct_holds t > 0 then (p, e, [])
           else
             (let (t', woken) = seal t (e_declSeq e) in
              (p\<lparr>pd_through := e_declSeq e\<rparr>,
               e\<lparr>e_cols := (e_cols e)(c := (e_cols e c)\<lparr>co_tally := t'\<rparr>)\<rparr>, woken))))"


subsection \<open>Reading an outcome returns when entries are acyclic\<close>

definition entries_ranked :: "scheduler \<Rightarrow> (ColRef \<Rightarrow> nat) \<Rightarrow> bool" where
  "entries_ranked e rank \<longleftrightarrow>
     (\<forall>c. \<forall>p\<in>set (co_entry (e_cols e c)). \<forall>c'. pd_task p = None \<and> pd_col p = Some c' \<longrightarrow> rank c' < rank c)"

lemma outcomeLocked_cases:
  "outcomeLocked e p \<noteq> None \<or>
   (\<exists>c. pd_task p = None \<and> pd_col p = Some c \<and> collection_read e p c = None \<and>
      outcomeLocked e p = entryOutcomeLocked e c)"
  by (auto simp: outcomeLocked_def collectionOutcomeLocked_def split: option.splits)

lemma entry_fold_returns:
  assumes "entries_ranked e rank"
    "\<forall>p\<in>set ps. \<forall>c. pd_task p = None \<and> pd_col p = Some c \<longrightarrow> rank c < n"
  shows "entry_fold e ps v b \<noteq> None"
  using assms(2)
proof (induction n arbitrary: ps v b rule: less_induct)
  case (less n)
  show ?case
    using less.prems
  proof (induction ps arbitrary: v b)
    case (Cons p ps)
    have "outcomeLocked e p \<noteq> None"
    proof (rule ccontr)
      assume none: "\<not> outcomeLocked e p \<noteq> None"
      then obtain c where c: "pd_task p = None" "pd_col p = Some c" "outcomeLocked e p = entryOutcomeLocked e c"
        using outcomeLocked_cases[of e p] by auto
      have "rank c < n" using Cons.prems c by simp
      moreover have "\<forall>q\<in>set (co_entry (e_cols e c)). \<forall>c'. pd_task q = None \<and> pd_col q = Some c' \<longrightarrow> rank c' < rank c"
        using assms(1) by (simp add: entries_ranked_def)
      ultimately show False using less.IH none c(3) unfolding entryOutcomeLocked_def by metis
    qed
    then show ?case using Cons by (auto simp: entry_fold_Cons)
  qed simp
qed

lemma outcome_returns:
  assumes "entries_ranked e rank"
  shows "outcomeLocked e p \<noteq> None"
proof -
  have "entryOutcomeLocked e c \<noteq> None" for c
    unfolding entryOutcomeLocked_def
    by (rule entry_fold_returns[OF assms, of _ "rank c"]) (use assms in \<open>auto simp: entries_ranked_def\<close>)
  then show ?thesis using outcomeLocked_cases[of e p] by metis
qed

text \<open>
  A set of closed empty collections, each starting after another of the set: the read recurses
  forever, whatever else the run holds.
\<close>

definition entry_cycle :: "scheduler \<Rightarrow> ColRef set \<Rightarrow> bool" where
  "entry_cycle e S \<longleftrightarrow>
     (\<forall>c\<in>S. (\<forall>p. collection_read e p c = None) \<and>
        (\<exists>q rest. co_entry (e_cols e c) = q # rest \<and> pd_task q = None \<and> (\<exists>c'\<in>S. pd_col q = Some c')))"

abbreviation into_cycle :: "ColRef set \<Rightarrow> predecessor list \<Rightarrow> bool" where
  "into_cycle S ps \<equiv> \<exists>q rest. ps = q # rest \<and> pd_task q = None \<and> (\<exists>c\<in>S. pd_col q = Some c)"

lemma entry_fold_diverges:
  assumes cyc: "entry_cycle e S" and "entry_fold e' ps v b = Some r"
  shows "\<not> (e' = e \<and> into_cycle S ps)"
proof (rule entry_fold.raw_induct[where P = "\<lambda>e' ps v b r. \<not> (e' = e \<and> into_cycle S ps)", OF _ assms(2)],
    rule notI)
  fix rec e' ps v b r
  assume IH: "\<And>e' ps v b y. rec e' ps v b = Some y \<Longrightarrow> \<not> (e' = e \<and> into_cycle S ps)"
    and body: "(case ps of [] \<Rightarrow> Some (v, b)
      | p # rest \<Rightarrow> Option.bind
          (case pd_task p of Some r \<Rightarrow> Some (taskOutcomeLocked e' r, p)
             | None \<Rightarrow> (case pd_col p of None \<Rightarrow> Some (PredFailed, p)
                  | Some c \<Rightarrow> (case collection_read e' p c of Some v \<Rightarrow> Some (v, p)
                       | None \<Rightarrow> rec e' (co_entry (e_cols e' c)) PredSucceeded no_pred)))
          (\<lambda>(out, ba). if out = PredFailed then Some (PredFailed, ba)
             else if out = PredPending \<and> v = PredSucceeded then rec e' rest PredPending ba
             else rec e' rest v b)) = Some r"
    and "e' = e \<and> into_cycle S ps"
  then obtain q rest c where q: "e' = e" "ps = q # rest" "pd_task q = None" "c \<in> S" "pd_col q = Some c"
    by blast
  then have read: "collection_read e q c = None" and next_entry: "into_cycle S (co_entry (e_cols e c))"
    using cyc by (auto simp: entry_cycle_def)
  then obtain r' where r': "rec e (co_entry (e_cols e c)) PredSucceeded no_pred = Some r'"
    using body q by (auto simp: bind_eq_Some_conv)
  show False using IH[OF r'] next_entry by blast
qed

lemma entry_cycle_diverges_lemma:
  assumes "entry_cycle e S" "c \<in> S" "pd_task p = None" "pd_col p = Some c"
  shows "outcomeLocked e p = None"
proof -
  have "entryOutcomeLocked e c = None"
    using entry_fold_diverges[OF assms(1)] assms(1,2)
    unfolding entryOutcomeLocked_def entry_cycle_def by (metis option.exhaust)
  then show ?thesis
    using assms by (auto simp: outcomeLocked_def collectionOutcomeLocked_def entry_cycle_def)
qed


definition wit_sched :: "predecessor list \<Rightarrow> scheduler" where
  "wit_sched entry = \<lparr>e_tasks = (\<lambda>r. if r = 1 then wit_cell Done 1
       else (wit_cell Running (int r))\<lparr>tk_preds := [task_pred 1, \<lparr>pd_task = None, pd_col = Some 3, pd_through = 0\<rparr>]\<rparr>),
     e_cols = (\<lambda>c. \<lparr>co_tally = empty_tally\<lparr>ct_sealed := True, ct_sealedThrough := 4\<rparr>,
       co_entry = (if c = 3 then entry else []), co_parent = None\<rparr>),
     e_draining = False, e_declSeq = 4\<rparr>"

text \<open>
  Every outcome read returns when no collection is, directly or through others,
  entered after itself.
\<close>

theorem outcome_read_terminates:
  assumes "entries_ranked e rank"
  shows "\<exists>verdict blocker. outcomeLocked e p = Some (verdict, blocker)"
  using outcome_returns[OF assms, of p] by auto

theorem outcome_read_terminates_witness:
  "\<exists>verdict blocker. outcomeLocked (wit_sched [task_pred 1, \<lparr>pd_task = None, pd_col = Some 2, pd_through = 0\<rparr>])
     \<lparr>pd_task = None, pd_col = Some 3, pd_through = 0\<rparr> = Some (verdict, blocker)"
  by (rule outcome_read_terminates[where rank = id])
    (auto simp: entries_ranked_def wit_sched_def split: if_splits)

text \<open>
  A Group entered after itself (nothing in \<open>GroupHandle.After\<close> refuses it) whose
  membership is closed while empty makes every read of it recurse without end; so do longer cycles.
\<close>

theorem entry_cycle_diverges:
  assumes "entry_cycle e S" "c \<in> S" "pd_task p = None" "pd_col p = Some c"
  shows "outcomeLocked e p = None"
  using entry_cycle_diverges_lemma[OF assms] .

theorem entry_cycle_diverges_witness:
  "outcomeLocked (wit_sched [\<lparr>pd_task = None, pd_col = Some 3, pd_through = 0\<rparr>])
     \<lparr>pd_task = None, pd_col = Some 3, pd_through = 0\<rparr> = None"
  by (rule entry_cycle_diverges[where S = "{3}" and c = 3])
    (auto simp: entry_cycle_def wit_sched_def collection_read_def edgeCursorLocked_def empty_tally_def
      Let_def failedThrough_def hasMemberThrough_def)

subsection \<open>A collection edge\<close>

text \<open>
  An edge whose membership is closed through a cursor reads the fold of the members
  declared through it, whatever is declared later; with no such member the collection answers for
  its entry. An edge still open fails with the first failure and otherwise stays pending, however
  many members already succeeded.
\<close>

theorem collection_edge_outcome:
  assumes "tally_ok (e_tasks e) (co_tally (e_cols e c))" "\<not> ct_builderFailed (co_tally (e_cols e c))"
    and "edgeCursorLocked e p c = (cursor, opn)"
  defines "t \<equiv> co_tally (e_cols e c)"
    and "seen \<equiv> filter (\<lambda>x. tk_declaration (e_tasks e x) \<le> cursor) (ct_members (co_tally (e_cols e c)))"
  shows "collectionOutcomeLocked e p c =
    (if opn then
       Some (if (\<exists>x\<in>set (ct_members t). task_outcome (e_tasks e) x = PredFailed) then PredFailed else PredPending, p)
     else if seen = [] then entryOutcomeLocked e c
     else Some (fold_outcomes (map (task_outcome (e_tasks e)) seen), p))"
proof (cases opn)
  case True
  have "ct_firstFailed t \<noteq> 0 \<longleftrightarrow> (\<exists>x\<in>set (ct_members t). task_outcome (e_tasks e) x = PredFailed)"
    using assms(1) unfolding t_def tally_ok_def by blast
  then show ?thesis
    using True assms(2,3) by (simp add: collectionOutcomeLocked_def collection_read_def t_def)
next
  case False
  have reads: "(if failedThrough t cursor then PredFailed
      else if succeededThrough (e_tasks e) t cursor then PredSucceeded else PredPending)
    = fold_outcomes (map (task_outcome (e_tasks e)) seen)"
    using tally_reads.read_is_fold[of "(e_tasks e, t)" cursor, unfolded fst_conv snd_conv] assms(1)
    by (simp add: t_def seen_def member_outcomes_def filter_map comp_def)
  have has: "hasMemberThrough (e_tasks e) t cursor \<longleftrightarrow> seen \<noteq> []"
    using hasMemberThrough_exact[OF assms(1), of cursor] by (simp add: seen_def t_def filter_empty_conv)
  have "failedThrough t cursor \<Longrightarrow> seen \<noteq> []"
    using tally_reads.empty_succeeds[of "(e_tasks e, t)" cursor, unfolded fst_conv snd_conv] has assms(1)
    by (auto simp: t_def)
  then show ?thesis
    using False assms(2,3) reads[symmetric] has
    by (auto simp: collectionOutcomeLocked_def collection_read_def t_def[symmetric] Let_def)
qed

theorem collection_edge_outcome_witness:
  "collectionOutcomeLocked
     ((wit_sched [])\<lparr>e_tasks := wit_store,
        e_cols := (\<lambda>c. \<lparr>co_tally = wit_tally, co_entry = [], co_parent = None\<rparr>)\<rparr>)
     \<lparr>pd_task = None, pd_col = Some 3, pd_through = 1\<rparr> 3
   = Some (PredSucceeded, \<lparr>pd_task = None, pd_col = Some 3, pd_through = 1\<rparr>)"
proof -
  let ?e = "(wit_sched [])\<lparr>e_tasks := wit_store,
        e_cols := (\<lambda>c. \<lparr>co_tally = wit_tally, co_entry = [], co_parent = None\<rparr>)\<rparr>"
  let ?p = "\<lparr>pd_task = None, pd_col = Some 3, pd_through = 1\<rparr>"
  have ok: "tally_ok (e_tasks ?e) (co_tally (e_cols ?e 3))"
    by (simp add: tally_ok_def wit_tally_def wit_store_def wit_cell_def empty_tally_def stateOutcome.simps
        less_Suc_eq)
  have b: "\<not> ct_builderFailed (co_tally (e_cols ?e 3))" by (simp add: wit_tally_def empty_tally_def)
  have c: "edgeCursorLocked ?e ?p 3 = (1, False)"
    by (simp add: edgeCursorLocked_def wit_tally_def empty_tally_def)
  show ?thesis
    using collection_edge_outcome[OF ok b c]
    by (simp add: wit_tally_def wit_store_def wit_cell_def empty_tally_def stateOutcome.simps fold_outcomes_def)
qed


subsection \<open>The fold over a Task's predecessors\<close>

definition pred_outcome :: "scheduler \<Rightarrow> predecessor \<Rightarrow> PredOutcome" where
  "pred_outcome e p = (case outcomeLocked e p of Some (out, b) \<Rightarrow> out | None \<Rightarrow> PredPending)"

lemma pred_outcome_eq: "outcomeLocked e p = Some (out, b) \<Longrightarrow> pred_outcome e p = out"
  by (simp add: pred_outcome_def)

lemma fold_outcomes_set: "set xs = set ys \<Longrightarrow> fold_outcomes xs = fold_outcomes ys"
  by (simp add: fold_outcomes_def)

lemma fold_outcomes_simps [simp]:
  "fold_outcomes [] = PredSucceeded"
  "fold_outcomes (PredFailed # vs) = PredFailed"
  "fold_outcomes (PredSucceeded # vs) = fold_outcomes vs"
  "fold_outcomes (PredPending # vs) = (if PredFailed \<in> set vs then PredFailed else PredPending)"
  by (auto simp: fold_outcomes_def)

lemma fold_outcomes_failed [simp]: "fold_outcomes vs = PredFailed \<longleftrightarrow> PredFailed \<in> set vs"
  by (simp add: fold_outcomes_def)

text \<open>
  What one scan decides, for a verdict so far that is succeeded or pending.
\<close>

definition join_verdict :: "PredOutcome \<Rightarrow> PredOutcome \<Rightarrow> PredOutcome" where
  "join_verdict v w = fold_outcomes [v, w]"

lemma join_verdict_simps [simp]:
  "join_verdict PredSucceeded w = w"
  "join_verdict PredPending w = (if w = PredFailed then PredFailed else PredPending)"
  by (cases w; simp add: join_verdict_def fold_outcomes_def)+

lemma preds_loop_all:
  assumes "v \<noteq> PredFailed" "preds_loop e ScanAll ps v b kept = Some (v', b', kept')"
  shows "v' = join_verdict v (fold_outcomes (map (pred_outcome e) ps))"
  using assms
proof (induction ps arbitrary: v b kept)
  case Nil
  then show ?case by (cases v) auto
next
  case (Cons p ps)
  obtain out pk where o: "outcomeLocked e p = Some (out, pk)"
    using Cons.prems(2) by (auto simp: bind_eq_Some_conv)
  note po = pred_outcome_eq[OF o]
  show ?case
  proof (cases "out = PredFailed")
    case True
    then show ?thesis using Cons.prems o po by (cases v) auto
  next
    case False
    then obtain v2 b2 kept2 where s: "preds_loop e ScanAll ps v2 b2 kept2 = Some (v', b', kept')"
      and v2: "v2 = (if out = PredPending \<and> v = PredSucceeded then PredPending else v)"
      using Cons.prems(2) o by (auto simp: Let_def split: if_splits)
    have "v' = join_verdict v2 (fold_outcomes (map (pred_outcome e) ps))"
      by (rule Cons.IH[OF _ s]) (use v2 Cons.prems(1) in auto)
    then show ?thesis using False v2 po Cons.prems(1) by (cases out; cases v) auto
  qed
qed

lemma preds_loop_blocker:
  assumes "preds_loop e ScanToBlocker ps PredSucceeded b kept = Some (v', b', kept')"
  shows "v' = PredSucceeded \<and> (\<forall>p\<in>set ps. pred_outcome e p = PredSucceeded)
    \<or> v' \<noteq> PredSucceeded \<and> (\<exists>us p rest. ps = us @ p # rest \<and> pred_outcome e p = v' \<and>
        (\<forall>u\<in>set us. pred_outcome e u = PredSucceeded) \<and>
        (v' = PredPending \<longrightarrow> outcomeLocked e p = Some (PredPending, b')))"
  using assms
proof (induction ps arbitrary: b kept)
  case (Cons p ps)
  obtain out pk where o: "outcomeLocked e p = Some (out, pk)"
    using Cons.prems by (auto simp: bind_eq_Some_conv)
  note po = pred_outcome_eq[OF o]
  show ?case
  proof (cases out)
    case PredSucceeded
    define kept2 where "kept2 = (if pd_task p = None then kept @ [p] else kept)"
    have "preds_loop e ScanToBlocker ps PredSucceeded b kept2 = Some (v', b', kept')"
      using Cons.prems o PredSucceeded by (simp add: Let_def kept2_def)
    from Cons.IH[OF this] show ?thesis
    proof (elim disjE conjE exE, goal_cases)
      case 1
      then show ?case using po PredSucceeded by simp
    next
      case (2 us q rest)
      then show ?case
        using po PredSucceeded by (intro disjI2 conjI exI[of _ "p # us"] exI[of _ q] exI[of _ rest]) auto
    qed
  next
    case PredFailed
    then have "v' = PredFailed" using Cons.prems o by simp
    then show ?thesis using po PredFailed by (intro disjI2) (auto intro!: exI[of _ "[]"])
  next
    case PredPending
    then have "v' = PredPending \<and> b' = pk" using Cons.prems o by (simp add: Let_def)
    then show ?thesis using po o PredPending by (intro disjI2) (auto intro!: exI[of _ "[]"])
  qed
qed simp

lemma preds_loop_kept:
  assumes "preds_loop e scan ps v b kept = Some (v', b', kept')"
  shows "\<exists>ks. kept' = kept @ ks \<and> set ks \<subseteq> set ps \<and>
    (\<forall>p\<in>set ps - set ks. \<exists>r. pd_task p = Some r \<and> taskOutcomeLocked e r = PredSucceeded)"
  using assms
proof (induction ps arbitrary: v b kept)
  case (Cons p ps)
  obtain out pk where o: "outcomeLocked e p = Some (out, pk)"
    using Cons.prems by (auto simp: bind_eq_Some_conv)
  define v2 b2 where "v2 = (if out = PredPending \<and> v = PredSucceeded then PredPending else v)"
    and "b2 = (if out = PredPending \<and> v = PredSucceeded then pk else b)"
  define keep where "keep \<longleftrightarrow> out \<noteq> PredSucceeded \<or> pd_task p = None"
  consider (all) "kept' = kept @ p # ps"
    | (stop) "kept' = (if keep then kept @ [p] else kept) @ ps"
    | (go) "preds_loop e scan ps v2 b2 (if keep then kept @ [p] else kept) = Some (v', b', kept')"
    using Cons.prems o by (auto simp: v2_def b2_def keep_def Let_def split: if_splits)
  moreover have forgotten: "\<exists>r. pd_task p = Some r \<and> taskOutcomeLocked e r = PredSucceeded" if "\<not> keep"
    using that o unfolding keep_def outcomeLocked_def by (cases "pd_task p") auto
  ultimately show ?case
  proof cases
    case all
    then show ?thesis by (intro exI[of _ "p # ps"]) simp
  next
    case stop
    then show ?thesis
      using forgotten by (cases keep) (auto intro: exI[of _ "p # ps"] exI[of _ ps])
  next
    case go
    from Cons.IH[OF this] obtain ks where ks: "kept' = (if keep then kept @ [p] else kept) @ ks"
      "set ks \<subseteq> set ps"
      "\<forall>p\<in>set ps - set ks. \<exists>r. pd_task p = Some r \<and> taskOutcomeLocked e r = PredSucceeded"
      by blast
    then show ?thesis
      using forgotten
      by (intro exI[of _ "if keep then p # ks else ks"]) (cases keep; auto)
  qed
qed simp


lemma preds_loop_returns:
  "entries_ranked e rank \<Longrightarrow> preds_loop e scan ps v b kept \<noteq> None"
proof (induction ps arbitrary: v b kept)
  case (Cons p ps)
  obtain out pk where "outcomeLocked e p = Some (out, pk)"
    using outcome_returns[OF Cons.prems, of p] by auto
  then show ?case using Cons by (auto simp: Let_def split: if_splits)
qed simp

text \<open>
  Property (C32): a Task is eligible exactly when every predecessor it still remembers has succeeded,
  and the scan that reads every predecessor reports the fold over all of them.
\<close>

theorem eligible_iff_all_succeeded:
  assumes "entries_ranked e rank"
  shows "(\<exists>e'. eligibleLocked e st =
      Some (\<forall>p\<in>set (tk_preds (e_tasks e st)). pred_outcome e p = PredSucceeded, e'))
    \<and> (\<exists>b e'. predsOutcomeLocked e st ScanAll =
      Some (fold_outcomes (map (pred_outcome e) (tk_preds (e_tasks e st))), b, e'))"
proof
  let ?ps = "tk_preds (e_tasks e st)"
  obtain v b kept where l: "preds_loop e ScanToBlocker ?ps PredSucceeded no_pred [] = Some (v, b, kept)"
    using preds_loop_returns[OF assms, of ScanToBlocker ?ps PredSucceeded no_pred "[]"] by auto
  have "(v = PredSucceeded) = (\<forall>p\<in>set ?ps. pred_outcome e p = PredSucceeded)"
    using preds_loop_blocker[OF l] by auto
  then show "\<exists>e'. eligibleLocked e st =
      Some (\<forall>p\<in>set (tk_preds (e_tasks e st)). pred_outcome e p = PredSucceeded, e')"
    by (simp add: eligibleLocked_def predsOutcomeLocked_def l)
  obtain v b kept where l: "preds_loop e ScanAll ?ps PredSucceeded no_pred [] = Some (v, b, kept)"
    using preds_loop_returns[OF assms, of ScanAll ?ps PredSucceeded no_pred "[]"] by auto
  show "\<exists>b e'. predsOutcomeLocked e st ScanAll =
      Some (fold_outcomes (map (pred_outcome e) (tk_preds (e_tasks e st))), b, e')"
    using preds_loop_all[OF _ l] by (simp add: predsOutcomeLocked_def l)
qed

text \<open>Task 2 waits for the finished Task 1 and for Group 3, which is entered after the running Task 2.\<close>

theorem eligible_iff_all_succeeded_witness:
  "fst (the (eligibleLocked (wit_sched [task_pred 2]) 2)) = False \<and>
   fst (the (eligibleLocked (wit_sched [task_pred 1]) 2)) = True"
proof -
  have r: "entries_ranked (wit_sched [task_pred n]) (\<lambda>_. 0)" for n
    by (simp add: entries_ranked_def wit_sched_def)
  have o: "pred_outcome (wit_sched [task_pred n]) p = (if n = 1 then PredSucceeded else PredPending)"
    if "p = \<lparr>pd_task = None, pd_col = Some 3, pd_through = 0\<rparr>" "n = 1 \<or> n = 2" for n p
    using that
    by (auto simp: pred_outcome_def outcomeLocked_def collectionOutcomeLocked_def entryOutcomeLocked_def
        entry_fold_Cons collection_read_def edgeCursorLocked_def wit_sched_def empty_tally_def
        taskOutcomeLocked_def stateOutcome.simps wit_cell_def failedThrough_def hasMemberThrough_def Let_def)
  have t: "pred_outcome (wit_sched [task_pred n]) (task_pred 1) = PredSucceeded" for n
    by (simp add: pred_outcome_def outcomeLocked_def wit_sched_def taskOutcomeLocked_def
        stateOutcome.simps wit_cell_def)
  have ps: "tk_preds (e_tasks (wit_sched [task_pred n]) 2) =
      [task_pred 1, \<lparr>pd_task = None, pd_col = Some 3, pd_through = 0\<rparr>]" for n
    by (simp add: wit_sched_def)
  show ?thesis
    using eligible_iff_all_succeeded[OF r[of 2], of 2] eligible_iff_all_succeeded[OF r[of 1], of 2]
    by (auto simp: ps o t t[unfolded One_nat_def])
qed

text \<open>
  Forgetting the predecessors found succeeded never changes a later answer: in every
  later state in which the Tasks that had succeeded still have, the remembered predecessors and all
  the original ones give the same verdict.
\<close>

theorem forgetting_predecessors_is_sound:
  assumes "predsOutcomeLocked e st scan = Some (v, b, e')"
    and "\<And>r. stateOutcome (tk_state (e_tasks e r)) = PredSucceeded \<Longrightarrow>
      stateOutcome (tk_state (e_tasks later r)) = PredSucceeded"
  shows "fold_outcomes (map (pred_outcome later) (tk_preds (e_tasks e' st)))
    = fold_outcomes (map (pred_outcome later) (tk_preds (e_tasks e st)))"
proof -
  obtain kept where l: "preds_loop e scan (tk_preds (e_tasks e st)) PredSucceeded no_pred [] = Some (v, b, kept)"
    and k: "tk_preds (e_tasks e' st) = kept"
    using assms(1) by (auto simp: predsOutcomeLocked_def bind_eq_Some_conv)
  have sub: "set kept \<subseteq> set (tk_preds (e_tasks e st))"
    and gone: "\<And>p. p \<in> set (tk_preds (e_tasks e st)) - set kept \<Longrightarrow>
      \<exists>r. pd_task p = Some r \<and> taskOutcomeLocked e r = PredSucceeded"
    using preds_loop_kept[OF l] by auto
  have "pred_outcome later p = PredSucceeded" if p: "p \<in> set (tk_preds (e_tasks e st)) - set kept" for p
  proof -
    obtain r where r: "pd_task p = Some r" "taskOutcomeLocked e r = PredSucceeded" using gone[OF p] by blast
    then have "stateOutcome (tk_state (e_tasks e r)) = PredSucceeded"
      by (simp add: taskOutcomeLocked_def Let_def split: if_splits)
    then show ?thesis
      using assms(2) r by (simp add: pred_outcome_def outcomeLocked_def taskOutcomeLocked_def Let_def)
  qed
  then show ?thesis
    using sub unfolding k fold_outcomes_def by (auto simp: image_iff)
qed

theorem forgetting_predecessors_is_sound_witness:
  "\<exists>v b e'. predsOutcomeLocked (wit_sched []) 2 ScanAll = Some (v, b, e') \<and>
     tk_preds (e_tasks e' 2) = [\<lparr>pd_task = None, pd_col = Some 3, pd_through = 0\<rparr>] \<and>
     fold_outcomes (map (pred_outcome (wit_sched [task_pred 4])) (tk_preds (e_tasks e' 2)))
       = fold_outcomes (map (pred_outcome (wit_sched [task_pred 4])) (tk_preds (e_tasks (wit_sched []) 2)))"
proof -
  define e where "e = wit_sched []"
  have "\<exists>v b e'. predsOutcomeLocked e 2 ScanAll = Some (v, b, e') \<and>
      tk_preds (e_tasks e' 2) = [\<lparr>pd_task = None, pd_col = Some 3, pd_through = 0\<rparr>]"
    by (simp add: e_def predsOutcomeLocked_def outcomeLocked_def collectionOutcomeLocked_def entryOutcomeLocked_def
        collection_read_def edgeCursorLocked_def wit_sched_def empty_tally_def taskOutcomeLocked_def
        stateOutcome.simps wit_cell_def failedThrough_def hasMemberThrough_def Let_def)
  then obtain v b e' where r: "predsOutcomeLocked e 2 ScanAll = Some (v, b, e')"
      "tk_preds (e_tasks e' 2) = [\<lparr>pd_task = None, pd_col = Some 3, pd_through = 0\<rparr>]" by blast
  have "fold_outcomes (map (pred_outcome (wit_sched [task_pred 4])) (tk_preds (e_tasks e' 2)))
       = fold_outcomes (map (pred_outcome (wit_sched [task_pred 4])) (tk_preds (e_tasks e 2)))"
    by (rule forgetting_predecessors_is_sound[OF r(1)]) (auto simp: e_def wit_sched_def wit_cell_def)
  then show ?thesis using r unfolding e_def by blast
qed

end
