(* ===== verification/Engine_Position_Set.thy ===== *)
theory Engine_Position_Set
  imports Prelude "HOL-Library.Word"
begin

unbundle bit_operations_syntax

text \<open>
  \<open>internal/engine/position_set.go\<close>: a set of positions as a tree of 64-bit words, where each bit of
  a level marks a non-empty word of the level below. The abstraction \<open>members\<close> reads the bottom
  level; the invariant \<open>tree_ok\<close> says each level mirrors the one below and the top is one word. The
  loops that walk the levels are recursions on the list of levels; \<open>reach\<close>, which adds levels until
  the top is one word, is a \<open>partial_function\<close> proved to return.
\<close>

subsection \<open>Words and levels\<close>

type_synonym level = "64 word list"

record positionSet =
  ps_levels :: "level list"
  ps_size :: nat

definition empty_positions :: positionSet where
  "empty_positions = \<lparr>ps_levels = [], ps_size = 0\<rparr>"

definition pos_bit :: "nat \<Rightarrow> 64 word" where
  "pos_bit i = push_bit (i mod 64) 1"

text \<open>\<open>bits.TrailingZeros64\<close>.\<close>

definition TrailingZeros64 :: "64 word \<Rightarrow> nat" where
  "TrailingZeros64 w = length (takeWhile (\<lambda>i. \<not> bit w i) [0..<64])"

subsection \<open>Operations (position_set.go)\<close>

definition pos_len :: "positionSet \<Rightarrow> nat" where
  "pos_len s = ps_size s"

definition has_position :: "positionSet \<Rightarrow> nat \<Rightarrow> bool" where
  "has_position s i =
     (let w = i div 64 in
      length (ps_levels s) > 0 \<and> w < length (ps_levels s ! 0) \<and> (ps_levels s ! 0 ! w) AND pos_bit i \<noteq> 0)"

definition extend_level :: "level \<Rightarrow> nat \<Rightarrow> level" where
  "extend_level lv w = lv @ replicate (Suc w - length lv) 0"

text \<open>\<open>seed\<close> marks in a new level the non-empty words of the level below.\<close>

fun seed_from :: "level \<Rightarrow> nat \<Rightarrow> level \<Rightarrow> level" where
  "seed_from [] w lv = lv"
| "seed_from (word # below) w lv =
     (if word = 0 then seed_from below (Suc w) lv
      else
        (let lv' = extend_level lv (w div 64)
         in seed_from below (Suc w) (lv'[w div 64 := (lv' ! (w div 64)) OR pos_bit w])))"

definition seed_level :: "level option \<Rightarrow> level" where
  "seed_level below = (case below of None \<Rightarrow> [] | Some b \<Rightarrow> seed_from b 0 [])"

partial_function (option) reach :: "level option \<Rightarrow> level list \<Rightarrow> nat \<Rightarrow> level list option" where
  "reach below levels i =
     (case levels of
        [] \<Rightarrow>
          (let lv = extend_level (seed_level below) (i div 64) in
           if length lv = 1 then Some [lv]
           else Option.bind (reach (Some lv) [] (i div 64)) (\<lambda>r. Some (lv # r)))
      | lv0 # up \<Rightarrow>
          (let lv = extend_level lv0 (i div 64) in
           if up = [] \<and> length lv = 1 then Some [lv]
           else Option.bind (reach (Some lv) up (i div 64)) (\<lambda>r. Some (lv # r))))"

fun add_climb :: "level list \<Rightarrow> nat \<Rightarrow> level list" where
  "add_climb [] i = []"
| "add_climb (lv # up) i =
     (let w = i div 64;
          wasEmpty = (lv ! w = 0);
          lv' = lv[w := (lv ! w) OR pos_bit i]
      in if \<not> wasEmpty then lv' # up else lv' # add_climb up w)"

definition add_position :: "positionSet \<Rightarrow> nat \<Rightarrow> positionSet option" where
  "add_position s i =
     (if has_position s i then Some s
      else Option.bind (reach None (ps_levels s) i)
        (\<lambda>levels. Some \<lparr>ps_levels = add_climb levels i, ps_size = Suc (ps_size s)\<rparr>))"

fun remove_climb :: "level list \<Rightarrow> nat \<Rightarrow> level list" where
  "remove_climb [] i = []"
| "remove_climb (lv # up) i =
     (let w = i div 64;
          lv' = lv[w := (lv ! w) AND NOT (pos_bit i)]
      in if lv' ! w \<noteq> 0 then lv' # up else lv' # remove_climb up w)"

definition remove_position :: "positionSet \<Rightarrow> nat \<Rightarrow> positionSet" where
  "remove_position s i =
     (if \<not> has_position s i then s
      else \<lparr>ps_levels = remove_climb (ps_levels s) i, ps_size = ps_size s - 1\<rparr>)"

text \<open>\<open>nextAt\<close>; its \<open>-1\<close> is \<open>None\<close>.\<close>

fun nextAt :: "level list \<Rightarrow> nat \<Rightarrow> nat option" where
  "nextAt [] from = None"
| "nextAt (lv # up) from =
     (let w = from div 64 in
      if w \<ge> length lv then None
      else
        (let m = (lv ! w) AND push_bit (from mod 64) (NOT 0) in
         if m \<noteq> 0 then Some (w * 64 + TrailingZeros64 m)
         else
           (case nextAt up (Suc w) of
              None \<Rightarrow> None
            | Some nw \<Rightarrow> Some (nw * 64 + TrailingZeros64 (lv ! nw)))))"

definition next_position :: "positionSet \<Rightarrow> nat \<Rightarrow> nat option" where
  "next_position s from = nextAt (ps_levels s) from"

fun append_from :: "positionSet \<Rightarrow> nat list \<Rightarrow> nat option \<Rightarrow> nat \<Rightarrow> nat list" where
  "append_from s dst p 0 = dst"
| "append_from s dst None (Suc k) = dst"
| "append_from s dst (Some p) (Suc k) = append_from s (dst @ [p]) (next_position s (p + 1)) k"

definition appendFirst :: "positionSet \<Rightarrow> nat list \<Rightarrow> nat \<Rightarrow> nat list" where
  "appendFirst s dst k = append_from s dst (next_position s 0) k"

subsection \<open>Abstraction and invariant\<close>

definition marked :: "level \<Rightarrow> nat set" where
  "marked lv = {i. i div 64 < length lv \<and> bit (lv ! (i div 64)) (i mod 64)}"

definition nonempty_words :: "level \<Rightarrow> nat set" where
  "nonempty_words lv = {w. w < length lv \<and> lv ! w \<noteq> 0}"

definition members :: "positionSet \<Rightarrow> nat set" where
  "members s = (case ps_levels s of [] \<Rightarrow> {} | lv # up \<Rightarrow> marked lv)"

fun levels_ok :: "level list \<Rightarrow> bool" where
  "levels_ok [] = True"
| "levels_ok [lv] = (length lv = 1)"
| "levels_ok (lv # up # rest) =
     (marked up = nonempty_words lv \<and> length lv \<le> 64 * length up \<and> levels_ok (up # rest))"

definition tree_ok :: "positionSet \<Rightarrow> bool" where
  "tree_ok s \<longleftrightarrow> levels_ok (ps_levels s) \<and> ps_size s = card (members s)"


subsection \<open>Bits of a word\<close>

lemma mask_eq: "pos_bit i = 2 ^ (i mod 64)"
  by (simp add: pos_bit_def push_bit_of_1)

lemma pos_bit_iff: "bit (pos_bit i) j \<longleftrightarrow> j = i mod 64"
  by (auto simp: mask_eq bit_exp_iff)

lemma and_mask_iff: "w AND pos_bit i \<noteq> 0 \<longleftrightarrow> bit w (i mod 64)"
  by (simp add: mask_eq and_exp_eq_0_iff_not_bit)

lemma word_zero_iff: "w = (0::64 word) \<longleftrightarrow> (\<forall>j<64. \<not> bit w j)"
  by (auto simp: bit_eq_iff)

lemma has_position_iff [simp]: "has_position s i \<longleftrightarrow> i \<in> members s"
  by (cases "ps_levels s") (auto simp: has_position_def members_def marked_def and_mask_iff Let_def)

lemma div_mod_64_eq: "i div 64 = k div 64 \<Longrightarrow> i mod 64 = k mod 64 \<Longrightarrow> i = (k::nat)"
  by (metis div_mult_mod_eq)

lemma marked_Nil [simp]: "marked [] = {}"
  by (simp add: marked_def)

lemma marked_set:
  assumes "i div 64 < length lv"
  shows "marked (lv[i div 64 := (lv ! (i div 64)) OR pos_bit i]) = insert i (marked lv)"
  using assms
  by (auto simp: marked_def nth_list_update bit_or_iff pos_bit_iff dest: div_mod_64_eq)

lemma marked_clear:
  assumes "i div 64 < length lv"
  shows "marked (lv[i div 64 := (lv ! (i div 64)) AND NOT (pos_bit i)]) = marked lv - {i}"
  using assms
  by (auto simp: marked_def nth_list_update bit_and_iff bit_not_iff pos_bit_iff dest: div_mod_64_eq)

lemma nonempty_marked: "nonempty_words lv = (\<lambda>i. i div 64) ` marked lv"
proof
  show "nonempty_words lv \<subseteq> (\<lambda>i. i div 64) ` marked lv"
  proof
    fix w assume w: "w \<in> nonempty_words lv"
    then obtain j where j: "j < 64" "bit (lv ! w) j" using word_zero_iff by (auto simp: nonempty_words_def)
    have "w * 64 + j \<in> marked lv" using w j by (simp add: marked_def nonempty_words_def)
    moreover have "(w * 64 + j) div 64 = w" using j by simp
    ultimately show "w \<in> (\<lambda>i. i div 64) ` marked lv" by (metis imageI)
  qed
qed (auto simp: marked_def nonempty_words_def)

lemma marked_bound: "i \<in> marked lv \<Longrightarrow> i < 64 * length lv"
  by (auto simp: marked_def)

lemma finite_marked: "finite (marked lv)"
  by (rule finite_subset[of _ "{..<64 * length lv}"]) (auto dest: marked_bound)

lemma finite_members: "finite (members s)"
  by (auto simp: members_def finite_marked split: list.splits)

lemma trailing_zeros:
  assumes "w \<noteq> 0"
  shows "TrailingZeros64 w < 64 \<and> bit w (TrailingZeros64 w) \<and> (\<forall>j<TrailingZeros64 w. \<not> bit w j)"
proof -
  let ?n = "TrailingZeros64 w"
  obtain k where k: "k < 64" "bit w k" using assms word_zero_iff by auto
  then have "?n < length [0..<64]"
    unfolding TrailingZeros64_def
    by (metis (no_types, lifting) atLeastLessThan_iff le_neq_implies_less length_takeWhile_le
        not_less_zero set_takeWhileD set_upt takeWhile_eq_all_conv takeWhile_eq_take take_all_iff linorder_not_le nat_le_linear order_refl)
  moreover from this have "bit w ([0..<64] ! ?n)"
    unfolding TrailingZeros64_def using nth_length_takeWhile by blast
  moreover have "\<not> bit w j" if "j < ?n" for j
  proof -
    have j: "j < length (takeWhile (\<lambda>i. \<not> bit w i) [0..<64])" using that by (simp add: TrailingZeros64_def)
    then have "takeWhile (\<lambda>i. \<not> bit w i) [0..<64] ! j = [0..<64] ! j" by (rule takeWhile_nth)
    moreover have "j < 64" using that \<open>?n < length [0..<64]\<close> by simp
    ultimately show ?thesis using nth_mem[OF j] by (auto dest: set_takeWhileD)
  qed
  ultimately show ?thesis by simp
qed

subsection \<open>Growing\<close>

lemma length_extend [simp]: "length (extend_level lv w) = max (length lv) (Suc w)"
  by (simp add: extend_level_def)

lemma nth_extend: "i < length (extend_level lv w) \<Longrightarrow>
  extend_level lv w ! i = (if i < length lv then lv ! i else 0)"
  by (simp add: extend_level_def nth_append)

lemma marked_extend [simp]: "marked (extend_level lv w) = marked lv"
proof -
  have "i \<in> marked (extend_level lv w) \<longleftrightarrow> i \<in> marked lv" for i
    unfolding marked_def mem_Collect_eq
    by (cases "i div 64 < length (extend_level lv w)") (auto simp: nth_extend split: if_splits)
  then show ?thesis by blast
qed

lemma nonempty_extend [simp]: "nonempty_words (extend_level lv w) = nonempty_words lv"
  by (simp add: nonempty_marked)

lemma nonempty_Cons: "nonempty_words (x # below) = (if x = 0 then {} else {0}) \<union> Suc ` nonempty_words below"
proof (rule set_eqI)
  fix k
  show "k \<in> nonempty_words (x # below) \<longleftrightarrow> k \<in> (if x = 0 then {} else {0}) \<union> Suc ` nonempty_words below"
    by (cases k) (auto simp: nonempty_words_def)
qed

lemma nonempty_shift:
  "(\<lambda>k. k + w) ` nonempty_words (x # below) =
   (if x = 0 then {} else {w}) \<union> (\<lambda>k. k + Suc w) ` nonempty_words below"
  unfolding nonempty_Cons by (auto simp: image_Un image_image)

lemma seed_from_marked:
  "marked (seed_from below w lv) = marked lv \<union> (\<lambda>k. k + w) ` nonempty_words below"
proof (induction below w lv rule: seed_from.induct)
  case (1 w lv)
  then show ?case by (simp add: nonempty_words_def)
next
  case (2 x below w lv)
  show ?case
  proof (cases "x = 0")
    case True
    then show ?thesis using "2.IH"(1)[OF True] by (simp add: nonempty_shift)
  next
    case False
    have "marked ((extend_level lv (w div 64))[w div 64 := (extend_level lv (w div 64) ! (w div 64)) OR pos_bit w])
        = insert w (marked lv)"
      by (subst marked_set) simp_all
    then show ?thesis using "2.IH"(2)[OF False refl] False by (simp add: nonempty_shift Let_def)
  qed
qed

lemma seed_from_length:
  "length lv \<le> n \<Longrightarrow> (w + length below - 1) div 64 < n \<or> below = [] \<Longrightarrow> length (seed_from below w lv) \<le> n"
proof (induction below w lv rule: seed_from.induct)
  case (2 x below w lv)
  have w: "w div 64 \<le> (w + length (x # below) - 1) div 64" by (simp add: div_le_mono)
  show ?case
    using "2.IH" "2.prems" w by (cases "x = 0") (simp_all add: Let_def)
qed simp

lemma seed_level_marked: "marked (seed_level (Some b)) = nonempty_words b"
  by (simp add: seed_level_def seed_from_marked)

lemma seed_level_length: "length b = Suc n \<Longrightarrow> length (seed_level (Some b)) \<le> Suc (n div 64)"
  unfolding seed_level_def option.case by (rule seed_from_length) auto

fun fits :: "level list \<Rightarrow> nat \<Rightarrow> bool" where
  "fits [] i = True"
| "fits (lv # up) i = (i div 64 < length lv \<and> fits up (i div 64))"

lemma reach_top:
  assumes "length b = Suc i"
  shows "\<exists>r. reach (Some b) [] i = Some r \<and> levels_ok (b # r) \<and> fits r i"
  using assms
proof (induction i arbitrary: b rule: less_induct)
  case (less i)
  define lv where "lv = extend_level (seed_level (Some b)) (i div 64)"
  have len: "length lv = Suc (i div 64)"
    using seed_level_length[OF less.prems] by (simp add: lv_def)
  have link: "marked lv = nonempty_words b" by (simp add: lv_def seed_level_marked)
  have cover: "length b \<le> 64 * length lv" using less.prems len by simp
  show ?case
  proof (cases "i div 64 = 0")
    case True
    then have "reach (Some b) [] i = Some [lv]"
      using len by (subst reach.simps) (auto simp: lv_def Let_def)
    then show ?thesis using link cover len True by auto
  next
    case False
    then obtain r where r: "reach (Some lv) [] (i div 64) = Some r" "levels_ok (lv # r)" "fits r (i div 64)"
      using less.IH[of "i div 64" lv] len by auto
    then have "reach (Some b) [] i = Some (lv # r)"
      using len False by (subst reach.simps) (simp add: lv_def[symmetric])
    then show ?thesis using link cover len r by (auto intro: exI[of _ "lv # r"])
  qed
qed

lemma reach_levels:
  assumes "levels_ok (lv0 # up)"
  shows "\<exists>lv r. reach b (lv0 # up) i = Some (lv # r) \<and> levels_ok (lv # r) \<and>
    marked lv = marked lv0 \<and> length lv0 \<le> length lv \<and> fits (lv # r) i"
  using assms
proof (induction up arbitrary: lv0 b i)
  case Nil
  define lv where "lv = extend_level lv0 (i div 64)"
  have len: "length lv = Suc (i div 64)" using Nil by (simp add: lv_def)
  have m: "marked lv = marked lv0" by (simp add: lv_def)
  show ?case
  proof (cases "i div 64 = 0")
    case True
    then have "reach b [lv0] i = Some [lv]"
      using len by (subst reach.simps) (auto simp: lv_def Let_def)
    then show ?thesis using len m True Nil by auto
  next
    case False
    obtain r where r: "reach (Some lv) [] (i div 64) = Some r" "levels_ok (lv # r)" "fits r (i div 64)"
      using reach_top[OF len] by blast
    then have "reach b [lv0] i = Some (lv # r)"
      using len False by (subst reach.simps) (simp add: lv_def[symmetric])
    then show ?thesis using len m r Nil by auto
  qed
next
  case (Cons up1 up)
  define lv where "lv = extend_level lv0 (i div 64)"
  have m: "marked lv = marked lv0" "nonempty_words lv = nonempty_words lv0" by (simp_all add: lv_def)
  have ok: "marked up1 = nonempty_words lv0" "length lv0 \<le> 64 * length up1" "levels_ok (up1 # up)"
    using Cons.prems by simp_all
  obtain lv1 r where r: "reach (Some lv) (up1 # up) (i div 64) = Some (lv1 # r)" "levels_ok (lv1 # r)"
    "marked lv1 = marked up1" "length up1 \<le> length lv1" "fits (lv1 # r) (i div 64)"
    using Cons.IH[OF ok(3)] by blast
  have e: "reach b (lv0 # up1 # up) i = Some (lv # lv1 # r)"
    using r(1) by (subst reach.simps) (simp add: lv_def[symmetric])
  have "i div 64 < 64 * Suc (i div 64 div 64)" by (simp add: dividend_less_times_div)
  also have "64 * Suc (i div 64 div 64) \<le> 64 * length lv1" using r(5) by simp
  finally have "length lv \<le> 64 * length lv1"
    using ok(2) r(4) by (simp add: lv_def)
  then show ?case using e r m ok by (auto simp: lv_def)
qed


lemma reach_returns:
  assumes "levels_ok levels"
  shows "\<exists>lv r. reach None levels i = Some (lv # r) \<and> levels_ok (lv # r) \<and>
    marked lv = (case levels of [] \<Rightarrow> {} | l # u \<Rightarrow> marked l) \<and> fits (lv # r) i"
proof (cases levels)
  case (Cons lv0 up)
  then show ?thesis using reach_levels[of lv0 up None i] assms by auto
next
  case Nil
  define lv where "lv = extend_level (seed_level None) (i div 64)"
  have len: "length lv = Suc (i div 64)" by (simp add: lv_def seed_level_def)
  have m: "marked lv = {}" by (simp add: lv_def seed_level_def)
  show ?thesis
  proof (cases "i div 64 = 0")
    case True
    then have "reach None [] i = Some [lv]"
      using len by (subst reach.simps) (auto simp: lv_def Let_def)
    then show ?thesis using len m True Nil by auto
  next
    case False
    obtain r where r: "reach (Some lv) [] (i div 64) = Some r" "levels_ok (lv # r)" "fits r (i div 64)"
      using reach_top[OF len] by blast
    then have "reach None [] i = Some (lv # r)"
      using len False by (subst reach.simps) (simp add: lv_def[symmetric])
    then show ?thesis using len m r Nil by auto
  qed
qed

subsection \<open>Adding and removing\<close>

lemma word_or_mask_nonzero: "w OR pos_bit i \<noteq> 0"
proof -
  have "bit (w OR pos_bit i) (i mod 64)" by (simp add: bit_or_iff pos_bit_iff)
  then show ?thesis by (metis bit_0_eq bot_apply bot_bool_def)
qed

lemma nonempty_set:
  assumes "i div 64 < length lv"
  shows "nonempty_words (lv[i div 64 := (lv ! (i div 64)) OR pos_bit i]) = insert (i div 64) (nonempty_words lv)"
  using assms by (auto simp: nonempty_words_def nth_list_update word_or_mask_nonzero)

lemma levels_ok_cong:
  "levels_ok (lv # up) \<Longrightarrow> nonempty_words lv' = nonempty_words lv \<Longrightarrow> length lv' = length lv \<Longrightarrow> levels_ok (lv' # up)"
  by (cases up) auto

lemma add_climb_ok:
  assumes "levels_ok (lv # up)" "fits (lv # up) i"
  shows "\<exists>lv' up'. add_climb (lv # up) i = lv' # up' \<and> levels_ok (lv' # up') \<and>
    marked lv' = insert i (marked lv) \<and> length lv' = length lv"
  using assms
proof (induction up arbitrary: lv i)
  case Nil
  have w: "i div 64 < length lv" using Nil.prems by simp
  have "add_climb [lv] i = [lv[i div 64 := (lv ! (i div 64)) OR pos_bit i]]" by (simp add: Let_def)
  then show ?case using marked_set[OF w] Nil.prems by simp
next
  case (Cons up1 up)
  let ?w = "i div 64"
  let ?lv = "lv[?w := (lv ! ?w) OR pos_bit i]"
  have w: "?w < length lv" using Cons.prems by simp
  show ?case
  proof (cases "lv ! ?w = 0")
    case False
    then have "nonempty_words ?lv = nonempty_words lv"
      using nonempty_set[OF w] w by (auto simp: nonempty_words_def)
    then show ?thesis
      using levels_ok_cong[OF Cons.prems(1)] False marked_set[OF w] by (auto simp: Let_def)
  next
    case True
    obtain lv1 up1' where r: "add_climb (up1 # up) ?w = lv1 # up1'" "levels_ok (lv1 # up1')"
      "marked lv1 = insert ?w (marked up1)" "length lv1 = length up1"
      using Cons.IH[of up1 ?w] Cons.prems by auto
    have "levels_ok (?lv # lv1 # up1')"
      using r Cons.prems(1) nonempty_set[OF w] by simp
    moreover have "add_climb (lv # up1 # up) i = ?lv # lv1 # up1'"
      using True r(1) by (simp only: add_climb.simps Let_def) simp
    ultimately show ?thesis using marked_set[OF w] by auto
  qed
qed

lemma remove_climb_ok:
  assumes "levels_ok (lv # up)" "i \<in> marked lv"
  shows "\<exists>lv' up'. remove_climb (lv # up) i = lv' # up' \<and> levels_ok (lv' # up') \<and>
    marked lv' = marked lv - {i} \<and> length lv' = length lv"
  using assms
proof (induction up arbitrary: lv i)
  case Nil
  have w: "i div 64 < length lv" using Nil.prems by (simp add: marked_def)
  have "remove_climb [lv] i = [lv[i div 64 := (lv ! (i div 64)) AND NOT (pos_bit i)]]" by (simp add: Let_def)
  then show ?case using marked_clear[OF w] Nil.prems by simp
next
  case (Cons up1 up)
  let ?w = "i div 64"
  let ?lv = "lv[?w := (lv ! ?w) AND NOT (pos_bit i)]"
  have w: "?w < length lv" using Cons.prems by (simp add: marked_def)
  have "bit (lv ! ?w) (i mod 64)" using Cons.prems by (simp add: marked_def)
  then have was: "lv ! ?w \<noteq> 0" by auto
  show ?case
  proof (cases "?lv ! ?w = 0")
    case False
    then have "nonempty_words ?lv = nonempty_words lv"
      using w was by (auto simp: nonempty_words_def nth_list_update)
    then show ?thesis
      using levels_ok_cong[OF Cons.prems(1)] False marked_clear[OF w] w by (auto simp: Let_def)
  next
    case True
    have "?w \<in> marked up1" using Cons.prems(1) was w by (simp add: nonempty_words_def)
    then obtain lv1 up1' where r: "remove_climb (up1 # up) ?w = lv1 # up1'" "levels_ok (lv1 # up1')"
      "marked lv1 = marked up1 - {?w}" "length lv1 = length up1"
      using Cons.IH[of up1 ?w] Cons.prems by auto
    have "nonempty_words ?lv = nonempty_words lv - {?w}"
      using w True by (auto simp: nonempty_words_def nth_list_update)
    then have "levels_ok (?lv # lv1 # up1')"
      using r Cons.prems(1) by simp
    moreover have "remove_climb (lv # up1 # up) i = ?lv # lv1 # up1'"
      using True r(1) by (simp only: remove_climb.simps Let_def) simp
    ultimately show ?thesis using marked_clear[OF w] by auto
  qed
qed


subsection \<open>The next member\<close>

definition least_from :: "nat set \<Rightarrow> nat \<Rightarrow> nat option \<Rightarrow> bool" where
  "least_from S from r \<longleftrightarrow>
     (case r of
        None \<Rightarrow> \<forall>i\<in>S. i < from
      | Some p \<Rightarrow> p \<in> S \<and> from \<le> p \<and> (\<forall>i\<in>S. from \<le> i \<longrightarrow> p \<le> i))"

lemma bit_high: "j < 64 \<Longrightarrow> bit (w AND push_bit n (NOT 0) :: 64 word) j \<longleftrightarrow> bit w j \<and> n \<le> j"
  by (auto simp: bit_and_iff bit_not_iff bit_mask_iff)

lemma marked_split: "w * 64 + j \<in> marked lv \<longleftrightarrow> w < length lv \<and> bit (lv ! w) j" if "j < 64" for w j :: nat
  using that by (simp add: marked_def)

lemma least_in_word:
  assumes w: "w < length lv" and m: "(lv ! w) AND push_bit n (NOT 0) \<noteq> 0" and fr: "w * 64 + n = from" "n < 64"
  shows "least_from (marked lv) from (Some (w * 64 + TrailingZeros64 ((lv ! w) AND push_bit n (NOT 0))))"
proof -
  define t where "t = TrailingZeros64 ((lv ! w) AND push_bit n (NOT 0))"
  have t: "t < 64" "bit ((lv ! w) AND push_bit n (NOT 0)) t"
    "\<forall>j<t. \<not> bit ((lv ! w) AND push_bit n (NOT 0)) j"
    using trailing_zeros[OF m] by (simp_all add: t_def)
  have in_word: "bit (lv ! w) t" "n \<le> t" using t(1,2) bit_high by blast+
  have "w * 64 + t \<le> i" if i: "i \<in> marked lv" "from \<le> i" for i
  proof (cases "i div 64 = w")
    case True
    have mod: "i mod 64 < 64" "i = w * 64 + i mod 64" using True by (simp_all add: div_mult_mod_eq flip: True)
    then have "bit (lv ! w) (i mod 64)" "n \<le> i mod 64" using i fr True by (auto simp: marked_def)
    then have "bit ((lv ! w) AND push_bit n (NOT 0)) (i mod 64)" using bit_high[OF mod(1)] by blast
    then have "t \<le> i mod 64" using t(3) by (meson not_le)
    then show ?thesis using mod(2) by simp
  next
    case False
    have "w * 64 \<le> i" using i(2) fr by simp
    then have "w \<le> i div 64" by (simp add: less_eq_div_iff_mult_less_eq)
    then have "Suc w \<le> i div 64" using False by simp
    then have "Suc w * 64 \<le> i" by (simp add: less_eq_div_iff_mult_less_eq)
    then show ?thesis using t(1) by simp
  qed
  then show ?thesis
    unfolding t_def[symmetric] least_from_def option.case
    using in_word t(1) w fr marked_split[OF t(1)] by auto
qed

lemma no_member_in_word:
  assumes "(lv ! w) AND push_bit n (NOT 0) = 0" "w * 64 + n = from" "n < 64"
    and i: "i \<in> marked lv" "from \<le> i"
  shows "Suc w \<le> i div 64"
proof -
  have "w * 64 \<le> i" using i(2) assms(2) by simp
  then have "w \<le> i div 64" by (simp add: less_eq_div_iff_mult_less_eq)
  moreover have "i div 64 \<noteq> w"
  proof
    assume w: "i div 64 = w"
    have mod: "i mod 64 < 64" "i = w * 64 + i mod 64" by (simp_all add: div_mult_mod_eq flip: w)
    then have "bit (lv ! w) (i mod 64)" "n \<le> i mod 64" using i assms(2) w by (auto simp: marked_def)
    then have "bit ((lv ! w) AND push_bit n (NOT 0)) (i mod 64)" using bit_high[OF mod(1)] by blast
    then show False using assms(1) by simp
  qed
  ultimately show ?thesis by simp
qed

lemma nextAt_least:
  assumes "levels_ok (lv # up)"
  shows "least_from (marked lv) from (nextAt (lv # up) from)"
  using assms
proof (induction up arbitrary: lv "from")
  case Nil
  let ?w = "from div 64" and ?n = "from mod 64"
  have f: "?w * 64 + ?n = from" "?n < 64" by simp_all
  consider (far) "?w \<ge> length lv" | (here) "?w < length lv" "(lv ! ?w) AND push_bit ?n (NOT 0) \<noteq> 0"
    | (none) "?w < length lv" "(lv ! ?w) AND push_bit ?n (NOT 0) = 0" by linarith
  then show ?case
  proof cases
    case far
    then have "\<forall>i\<in>marked lv. i < from"
      using marked_bound by (metis div_le_mono leD leI less_mult_imp_div_less mult.commute order_less_le_trans)
    then show ?thesis using far by (simp add: least_from_def)
  next
    case here
    then show ?thesis using least_in_word[OF here f] by (simp add: Let_def)
  next
    case none
    have "\<forall>i\<in>marked lv. i < from"
    proof
      fix i assume i: "i \<in> marked lv"
      have "i div 64 = 0" using i Nil.prems by (auto simp: marked_def)
      then show "i < from" using no_member_in_word[OF none(2) f i] by (cases "i < from") auto
    qed
    then show ?thesis using none by (simp add: least_from_def Let_def)
  qed
next
  case (Cons up1 up)
  let ?w = "from div 64" and ?n = "from mod 64"
  have f: "?w * 64 + ?n = from" "?n < 64" by simp_all
  have link: "marked up1 = nonempty_words lv" using Cons.prems by simp
  have IH: "least_from (nonempty_words lv) (Suc ?w) (nextAt (up1 # up) (Suc ?w))"
    using Cons.IH[of up1 "Suc ?w"] Cons.prems by simp
  have words: "i div 64 \<in> nonempty_words lv" if "i \<in> marked lv" for i
    using that nonempty_marked by blast
  consider (far) "?w \<ge> length lv" | (here) "?w < length lv" "(lv ! ?w) AND push_bit ?n (NOT 0) \<noteq> 0"
    | (none) "?w < length lv" "(lv ! ?w) AND push_bit ?n (NOT 0) = 0" by linarith
  then show ?case
  proof cases
    case far
    then have "\<forall>i\<in>marked lv. i < from"
      using marked_bound by (metis div_le_mono leD leI less_mult_imp_div_less mult.commute order_less_le_trans)
    then show ?thesis using far by (simp add: least_from_def)
  next
    case here
    then show ?thesis using least_in_word[OF here f] by (simp add: Let_def)
  next
    case none
    show ?thesis
    proof (cases "nextAt (up1 # up) (Suc ?w)")
      case None
      then have "\<forall>k\<in>nonempty_words lv. k < Suc ?w" using IH by (simp add: least_from_def)
      then have "\<forall>i\<in>marked lv. i < from"
        using words no_member_in_word[OF none(2) f] by (meson leD leI)
      moreover have "nextAt (lv # up1 # up) from = None"
        using none None by (simp only: nextAt.simps(2)[of lv] Let_def) simp
      ultimately show ?thesis by (simp add: least_from_def)
    next
      case (Some nw)
      then have nw: "nw \<in> nonempty_words lv" "Suc ?w \<le> nw" "\<forall>k\<in>nonempty_words lv. Suc ?w \<le> k \<longrightarrow> nw \<le> k"
        using IH by (auto simp: least_from_def)
      then have nz: "nw < length lv" "(lv ! nw) AND push_bit 0 (NOT 0) \<noteq> 0" by (auto simp: nonempty_words_def)
      have l: "least_from (marked lv) (nw * 64) (Some (nw * 64 + TrailingZeros64 (lv ! nw)))"
        using least_in_word[OF nz, of "nw * 64"] by simp
      have "nw * 64 \<le> i" if i: "i \<in> marked lv" "from \<le> i" for i
      proof -
        have "nw \<le> i div 64" using nw(3) words[OF i(1)] no_member_in_word[OF none(2) f i] by blast
        then show ?thesis by (simp add: less_eq_div_iff_mult_less_eq)
      qed
      moreover have "from \<le> nw * 64"
      proof -
        have "from < Suc ?w * 64" using f by simp
        also have "\<dots> \<le> nw * 64" using nw(2) by (rule mult_le_mono1)
        finally show ?thesis by simp
      qed
      moreover have "nextAt (lv # up1 # up) from = Some (nw * 64 + TrailingZeros64 (lv ! nw))"
        using none Some by (simp only: nextAt.simps(2)[of lv] Let_def) simp
      ultimately show ?thesis using l by (auto simp: least_from_def)
    qed
  qed
qed


subsection \<open>The tree as a set\<close>

lemma members_Cons: "ps_levels s = lv # up \<Longrightarrow> members s = marked lv"
  by (simp add: members_def)

lemma add_position_ok:
  assumes "tree_ok s"
  shows "\<exists>s'. add_position s i = Some s' \<and> tree_ok s' \<and> members s' = insert i (members s)"
proof (cases "i \<in> members s")
  case True
  then show ?thesis using assms by (auto simp: add_position_def)
next
  case False
  obtain lv r where r: "reach None (ps_levels s) i = Some (lv # r)" "levels_ok (lv # r)" "fits (lv # r) i"
    "marked lv = members s"
    using reach_returns[of "ps_levels s" i] assms by (auto simp: tree_ok_def members_def)
  obtain lv' up' where a: "add_climb (lv # r) i = lv' # up'" "levels_ok (lv' # up')" "marked lv' = insert i (marked lv)"
    using add_climb_ok[OF r(2,3)] by blast
  let ?s = "\<lparr>ps_levels = lv' # up', ps_size = Suc (ps_size s)\<rparr>"
  have m: "members ?s = insert i (members s)" using a(3) r(4) by (simp add: members_def)
  then have "tree_ok ?s" using a(2) assms False finite_members by (simp add: tree_ok_def)
  then show ?thesis
    using m False r(1) a(1) by (auto simp: add_position_def simp del: add_climb.simps)
qed

lemma remove_position_ok:
  assumes "tree_ok s"
  shows "tree_ok (remove_position s i) \<and> members (remove_position s i) = members s - {i}"
proof (cases "i \<in> members s")
  case False
  then show ?thesis using assms by (auto simp: remove_position_def)
next
  case True
  then obtain lv up where l: "ps_levels s = lv # up" by (cases "ps_levels s") (auto simp: members_def)
  then have i: "i \<in> marked lv" using True by (simp add: members_def)
  obtain lv' up' where a: "remove_climb (lv # up) i = lv' # up'" "levels_ok (lv' # up')" "marked lv' = marked lv - {i}"
    using remove_climb_ok[of lv up i] i assms l by (auto simp: tree_ok_def)
  have e: "remove_position s i = \<lparr>ps_levels = lv' # up', ps_size = ps_size s - 1\<rparr>"
    using True l a(1) by (simp add: remove_position_def del: remove_climb.simps)
  show ?thesis
    using a assms True finite_members[of s] by (simp add: e tree_ok_def members_def l)
qed

lemma next_position_least:
  assumes "tree_ok s"
  shows "least_from (members s) from (next_position s from)"
proof (cases "ps_levels s")
  case Nil
  then show ?thesis by (simp add: next_position_def members_def least_from_def)
next
  case (Cons lv up)
  then show ?thesis
    using nextAt_least[of lv up "from"] assms by (simp add: next_position_def members_def tree_ok_def)
qed

text \<open>
  Property (C34): the word tree implements a set of positions: adding always returns, adding and
  removing act on the members as insertion and deletion, membership and the length read the set, and
  \<open>next\<close> finds the least member at or above a position.
\<close>

theorem position_tree_refines_set:
  assumes "tree_ok s"
  shows "(\<exists>s'. add_position s i = Some s' \<and> tree_ok s' \<and> members s' = insert i (members s))
    \<and> tree_ok (remove_position s i) \<and> members (remove_position s i) = members s - {i}
    \<and> (has_position s i \<longleftrightarrow> i \<in> members s) \<and> pos_len s = card (members s)
    \<and> least_from (members s) i (next_position s i)"
  using add_position_ok[OF assms] remove_position_ok[OF assms] next_position_least[OF assms] assms
  by (simp add: pos_len_def tree_ok_def)

lemma empty_positions_ok [simp]: "tree_ok empty_positions" "members empty_positions = {}"
  by (simp_all add: tree_ok_def empty_positions_def members_def)

theorem position_tree_refines_set_witness:
  "\<exists>s s'. add_position empty_positions 5000 = Some s \<and> add_position s 7 = Some s' \<and>
     members s' = {7, 5000} \<and> next_position s' 8 = Some 5000 \<and>
     members (remove_position s' 7) = {5000}"
proof -
  obtain s where s: "add_position empty_positions 5000 = Some s" "tree_ok s" "members s = {5000}"
    using position_tree_refines_set[OF empty_positions_ok(1), of 5000] by auto
  obtain s' where s': "add_position s 7 = Some s'" "tree_ok s'" "members s' = {7, 5000}"
    using position_tree_refines_set[OF s(2), of 7] s(3) by auto
  have n: "next_position s' 8 = Some 5000"
    using position_tree_refines_set[OF s'(2), of 8] s'(3)
    by (auto simp: least_from_def split: option.splits)
  have r: "members (remove_position s' 7) = {5000}"
    using position_tree_refines_set[OF s'(2), of 7] s'(3) by auto
  show ?thesis using s(1) s'(1,3) n r by blast
qed

lemma append_from_take:
  assumes "tree_ok s"
  shows "append_from s dst (next_position s from) k
    = dst @ take k (sorted_list_of_set {i \<in> members s. from \<le> i})"
proof (induction k arbitrary: dst "from")
  case (Suc k)
  have least: "least_from (members s) from (next_position s from)" by (rule next_position_least[OF assms])
  show ?case
  proof (cases "next_position s from")
    case None
    then have e: "{i \<in> members s. from \<le> i} = {}" using least by (force simp: least_from_def)
    show ?thesis unfolding e None by simp
  next
    case (Some p)
    then have p: "p \<in> members s" "from \<le> p" "\<forall>i\<in>members s. from \<le> i \<longrightarrow> p \<le> i"
      using least by (auto simp: least_from_def)
    have split: "{i \<in> members s. from \<le> i} = insert p {i \<in> members s. p + 1 \<le> i}"
      using p by force
    have "sorted_list_of_set {i \<in> members s. from \<le> i} = p # sorted_list_of_set {i \<in> members s. p + 1 \<le> i}"
      unfolding split using finite_members[of s]
      by (subst sorted_list_of_set_insert_remove) (auto intro!: insort_is_Cons)
    then show ?thesis using Some Suc.IH[of "dst @ [p]" "p + 1"] by simp
  qed
qed simp

text \<open>
  \<open>appendFirst\<close> appends the smallest members in ascending order, as many as asked for
  or as there are.
\<close>

theorem appendFirst_smallest:
  assumes "tree_ok s"
  shows "appendFirst s dst k = dst @ take k (sorted_list_of_set (members s))"
  using append_from_take[OF assms, of dst 0 k] by (simp add: appendFirst_def)

theorem appendFirst_smallest_witness:
  "\<exists>s s'. add_position empty_positions 5000 = Some s \<and> add_position s 7 = Some s' \<and>
     appendFirst s' [1] 1 = [1, 7] \<and> appendFirst s' [] 9 = [7, 5000]"
proof -
  obtain s where s: "add_position empty_positions 5000 = Some s" "tree_ok s" "members s = {5000}"
    using add_position_ok[OF empty_positions_ok(1), of 5000] by auto
  obtain s' where s': "add_position s 7 = Some s'" "tree_ok s'" "members s' = {7, 5000}"
    using add_position_ok[OF s(2), of 7] s(3) by auto
  show ?thesis
    using s s' appendFirst_smallest[OF s'(2), of "[1]" 1] appendFirst_smallest[OF s'(2), of "[]" 9]
    by auto
qed

end
