(* ===== verification/Engine_Queue.thy ===== *)
theory Engine_Queue
  imports Engine_Eligibility "HOL-Library.Multiset"
begin

text \<open>
  The start queue of \<open>internal/engine/sched_queue.go\<close>: a min-heap on declaration, driven by Go's
  \<open>container/heap\<close>, whose \<open>Push\<close>, \<open>Pop\<close>, \<open>up\<close> and \<open>down\<close> are written out over the list of entries.
  The counters \<open>moved\<close> and \<open>visits\<close>, which only tests read, are left out. The lemmas refine the heap
  to a multiset: pushing adds, popping removes an entry of least declaration, and \<open>head\<close> finds the
  earliest-declared live entry, losing only stale ones.
\<close>

subsection \<open>container/heap\<close>

definition swap_at :: "nat \<Rightarrow> nat \<Rightarrow> 'a list \<Rightarrow> 'a list" where
  "swap_at i j xs = xs[i := xs ! j, j := xs ! i]"

function heap_up :: "('a \<Rightarrow> int) \<Rightarrow> 'a list \<Rightarrow> nat \<Rightarrow> 'a list" where
  "heap_up k xs j =
     (let i = (j - 1) div 2 in
      if i = j \<or> \<not> k (xs ! j) < k (xs ! i) then xs
      else heap_up k (swap_at i j xs) i)"
  by pat_completeness auto
termination
  by (relation "measure (\<lambda>(k, xs, j). j)") auto

declare heap_up.simps [simp del]

definition lesser_child :: "('a \<Rightarrow> int) \<Rightarrow> nat \<Rightarrow> 'a list \<Rightarrow> nat \<Rightarrow> nat" where
  "lesser_child k n xs i =
     (let j1 = 2 * i + 1; j2 = j1 + 1 in if j2 < n \<and> k (xs ! j2) < k (xs ! j1) then j2 else j1)"

lemma lesser_child_bounds: "2 * i + 1 < n \<Longrightarrow> i < lesser_child k n xs i \<and> lesser_child k n xs i < n"
  by (simp add: lesser_child_def Let_def)

function heap_down :: "('a \<Rightarrow> int) \<Rightarrow> nat \<Rightarrow> 'a list \<Rightarrow> nat \<Rightarrow> 'a list" where
  "heap_down k n xs i =
     (if 2 * i + 1 \<ge> n then xs
      else
        (let j = lesser_child k n xs i in
         if \<not> k (xs ! j) < k (xs ! i) then xs
         else heap_down k n (swap_at i j xs) j))"
  by pat_completeness auto
termination
proof (relation "measure (\<lambda>(k, n, xs, i). n - i)")
  fix k :: "'a \<Rightarrow> int" and n xs i j
  assume "\<not> n \<le> 2 * i + 1" "j = lesser_child k n xs i"
  then show "((k, n, swap_at i j xs, j), k, n, xs, i) \<in> measure (\<lambda>(k, n, xs, i). n - i)"
    using lesser_child_bounds [of i n k xs] by auto
qed simp

declare heap_down.simps [simp del]

definition heap_push :: "('a \<Rightarrow> int) \<Rightarrow> 'a \<Rightarrow> 'a list \<Rightarrow> 'a list" where
  "heap_push k x xs = heap_up k (xs @ [x]) (length xs)"

definition heap_pop :: "('a \<Rightarrow> int) \<Rightarrow> 'a list \<Rightarrow> 'a list" where
  "heap_pop k xs =
     (let n = length xs - 1 in butlast (heap_down k n (swap_at 0 n xs) 0))"

subsection \<open>The heap order\<close>

definition heap_ok :: "('a \<Rightarrow> int) \<Rightarrow> 'a list \<Rightarrow> bool" where
  "heap_ok k xs \<longleftrightarrow> (\<forall>i. 0 < i \<and> i < length xs \<longrightarrow> k (xs ! ((i - 1) div 2)) \<le> k (xs ! i))"

lemma swap_at_length [simp]: "length (swap_at i j xs) = length xs"
  by (simp add: swap_at_def)

lemma swap_at_mset [simp]: "i < length xs \<Longrightarrow> j < length xs \<Longrightarrow> mset (swap_at i j xs) = mset xs"
  by (simp add: swap_at_def mset_swap)

lemma swap_at_nth:
  "i < length xs \<Longrightarrow> j < length xs \<Longrightarrow>
   swap_at i j xs ! l = (if l = j then xs ! i else if l = i then xs ! j else xs ! l)"
  by (simp add: swap_at_def nth_list_update)

lemma heap_ok_least: "heap_ok k xs \<Longrightarrow> i < length xs \<Longrightarrow> k (xs ! 0) \<le> k (xs ! i)"
proof (induction i rule: less_induct)
  case (less i)
  show ?case
  proof (cases "i = 0")
    case False
    have "k (xs ! 0) \<le> k (xs ! ((i - 1) div 2))"
      using less.prems False by (intro less.IH) auto
    also have "\<dots> \<le> k (xs ! i)" using less.prems False by (auto simp: heap_ok_def)
    finally show ?thesis .
  qed simp
qed

lemma parent_less: "0 < i \<Longrightarrow> (i - 1) div 2 < (i :: nat)"
  by presburger

text \<open>All but position \<open>j\<close> stand above their parent, and what is below \<open>j\<close> is above its parent too.\<close>

definition heap_but :: "('a \<Rightarrow> int) \<Rightarrow> nat \<Rightarrow> 'a list \<Rightarrow> nat \<Rightarrow> bool" where
  "heap_but k n xs j \<longleftrightarrow>
     (\<forall>i. 0 < i \<and> i < n \<and> i \<noteq> j \<longrightarrow> k (xs ! ((i - 1) div 2)) \<le> k (xs ! i)) \<and>
     (\<forall>i. 0 < i \<and> i < n \<and> (i - 1) div 2 = j \<and> 0 < j \<longrightarrow> k (xs ! ((j - 1) div 2)) \<le> k (xs ! i))"

lemma heap_up_mset: "j < length xs \<Longrightarrow> mset (heap_up k xs j) = mset xs \<and> length (heap_up k xs j) = length xs"
proof (induction k xs j rule: heap_up.induct)
  case (1 k xs j)
  show ?case
    by (subst (1 2) heap_up.simps) (use 1 in \<open>auto simp: Let_def\<close>)
qed

lemma heap_up_ok:
  "j < length xs \<Longrightarrow> heap_but k (length xs) xs j \<Longrightarrow> heap_ok k (heap_up k xs j)"
proof (induction k xs j rule: heap_up.induct)
  case (1 k xs j)
  define i where "i = (j - 1) div 2"
  have step: "heap_up k xs j = (if i = j \<or> \<not> k (xs ! j) < k (xs ! i) then xs else heap_up k (swap_at i j xs) i)"
    by (subst heap_up.simps) (simp add: Let_def i_def)
  have others: "k (xs ! ((l - 1) div 2)) \<le> k (xs ! l)" if "0 < l" "l < length xs" "l \<noteq> j" for l
    using 1(3) that by (auto simp: heap_but_def)
  show ?case
  proof (cases "i = j \<or> \<not> k (xs ! j) < k (xs ! i)")
    case True
    have "k (xs ! ((l - 1) div 2)) \<le> k (xs ! l)" if "0 < l" "l < length xs" for l
      using True others [of l] that parent_less [of l] by (cases "l = j") (auto simp: i_def)
    then have "heap_ok k xs" by (simp add: heap_ok_def)
    with True show ?thesis by (simp add: step)
  next
    case False
    then have j: "i < j" "i < length xs" "k (xs ! j) < k (xs ! i)" "0 < j"
      using 1(2) by (auto simp: i_def)
    have "heap_but k (length xs) (swap_at i j xs) i"
      unfolding heap_but_def
    proof (intro conjI allI impI; elim conjE)
      fix l assume l: "0 < l" "l < length xs" "l \<noteq> i"
      show "k (swap_at i j xs ! ((l - 1) div 2)) \<le> k (swap_at i j xs ! l)"
      proof (cases "l = j")
        case True
        have parent: "(l - 1) div 2 = i" by (simp add: True i_def)
        show ?thesis unfolding parent using True j 1(2) by (simp add: swap_at_nth)
      next
        case l_j: False
        have "j = (l - 1) div 2 \<Longrightarrow> k (xs ! i) \<le> k (xs ! l)"
          using 1(3) l j(4) by (auto simp: heap_but_def i_def)
        then show ?thesis using others [OF l(1,2) l_j] l l_j j 1(2) by (auto simp: swap_at_nth)
      qed
    next
      fix l assume l: "0 < l" "l < length xs" "(l - 1) div 2 = i" "0 < i"
      have "k (xs ! ((i - 1) div 2)) \<le> k (xs ! i)" using others [of i] l(4) j by simp
      moreover have "l \<noteq> j \<Longrightarrow> k (xs ! i) \<le> k (xs ! l)" using others [OF l(1,2)] l(3) by simp
      moreover have "(i - 1) div 2 < i" "i < l" using parent_less [OF l(4)] parent_less [OF l(1)] l(3) by simp_all
      ultimately show "k (swap_at i j xs ! ((i - 1) div 2)) \<le> k (swap_at i j xs ! l)"
        using 1(2) j by (cases "l = j") (simp_all add: swap_at_nth)
    qed
    then have "heap_ok k (heap_up k (swap_at i j xs) i)"
      using 1(1) [OF i_def] False j(2) by simp
    with False show ?thesis by (simp add: step)
  qed
qed

lemma child_of: "0 < l \<Longrightarrow> (l - 1) div 2 = i \<longleftrightarrow> l = 2 * i + 1 \<or> l = 2 * i + (2 :: nat)"
  by presburger

text \<open>All but the children of \<open>i\<close> stand above their parent, and those are above \<open>i\<close>'s parent.\<close>

definition heap_below :: "('a \<Rightarrow> int) \<Rightarrow> nat \<Rightarrow> 'a list \<Rightarrow> nat \<Rightarrow> bool" where
  "heap_below k n xs i \<longleftrightarrow>
     (\<forall>l. 0 < l \<and> l < n \<and> (l - 1) div 2 \<noteq> i \<longrightarrow> k (xs ! ((l - 1) div 2)) \<le> k (xs ! l)) \<and>
     (\<forall>l. 0 < l \<and> l < n \<and> (l - 1) div 2 = i \<and> 0 < i \<longrightarrow> k (xs ! ((i - 1) div 2)) \<le> k (xs ! l))"

lemma heap_down_frame:
  "n \<le> length xs \<Longrightarrow> i < n \<or> n = 0 \<Longrightarrow>
   mset (heap_down k n xs i) = mset xs \<and> length (heap_down k n xs i) = length xs
   \<and> drop n (heap_down k n xs i) = drop n xs"
proof (induction k n xs i rule: heap_down.induct)
  case (1 k n xs i)
  let ?j = "lesser_child k n xs i"
  show ?case
  proof (cases "2 * i + 1 \<ge> n \<or> \<not> k (xs ! ?j) < k (xs ! i)")
    case True
    then have "heap_down k n xs i = xs" by (subst heap_down.simps) (auto simp: Let_def)
    then show ?thesis by simp
  next
    case False
    then have j: "?j < n" "i < n" using lesser_child_bounds [of i n k xs] by auto
    have step: "heap_down k n xs i = heap_down k n (swap_at i ?j xs) ?j"
      using False by (subst heap_down.simps) (auto simp: Let_def)
    have "drop n (swap_at i ?j xs) = drop n xs"
      using j by (simp add: swap_at_def drop_update_cancel)
    then show ?thesis
      unfolding step using 1(1) [OF _ refl] False j 1(2) by simp
  qed
qed

lemma heap_down_ok:
  "n \<le> length xs \<Longrightarrow> i < n \<or> n = 0 \<Longrightarrow> heap_below k n xs i \<Longrightarrow>
   \<forall>l. 0 < l \<and> l < n \<longrightarrow> k (heap_down k n xs i ! ((l - 1) div 2)) \<le> k (heap_down k n xs i ! l)"
proof (induction k n xs i rule: heap_down.induct)
  case (1 k n xs i)
  define j where "j = lesser_child k n xs i"
  have j_alt: "j = (if 2 * i + 2 < n \<and> k (xs ! (2 * i + 2)) < k (xs ! (2 * i + 1)) then 2 * i + 2 else 2 * i + 1)"
    by (simp add: j_def lesser_child_def Let_def)
  have step: "heap_down k n xs i =
    (if 2 * i + 1 \<ge> n \<or> \<not> k (xs ! j) < k (xs ! i) then xs else heap_down k n (swap_at i j xs) j)"
    by (subst heap_down.simps) (simp add: Let_def j_def)
  show ?case
  proof (cases "2 * i + 1 \<ge> n \<or> \<not> k (xs ! j) < k (xs ! i)")
    case True
    have "k (xs ! ((l - 1) div 2)) \<le> k (xs ! l)" if l: "0 < l" "l < n" for l
    proof (cases "(l - 1) div 2 = i")
      case child: True
      then have "l = 2 * i + 1 \<or> l = 2 * i + 2" using child_of [OF l(1), of i] by blast
      then show ?thesis using True l child by (auto simp: j_alt split: if_splits)
    next
      case False
      then show ?thesis using 1(4) l by (auto simp: heap_below_def)
    qed
    with True show ?thesis by (simp add: step)
  next
    case False
    then have j: "i < j" "j < n" "0 < j" "(j - 1) div 2 = i" "k (xs ! j) < k (xs ! i)"
      using child_of [of j i] by (auto simp: j_alt split: if_splits)
    have len: "i < length xs" "j < length xs" using j 1(2) by auto
    have least: "k (xs ! j) \<le> k (xs ! l)" if "0 < l" "l < n" "(l - 1) div 2 = i" for l
      using that child_of [of l i] by (auto simp: j_alt)
    have "heap_below k n (swap_at i j xs) j"
      unfolding heap_below_def
    proof (intro conjI allI impI; elim conjE)
      fix l assume l: "0 < l" "l < n" "(l - 1) div 2 \<noteq> j"
      have below: "(l - 1) div 2 \<noteq> i \<Longrightarrow> k (xs ! ((l - 1) div 2)) \<le> k (xs ! l)"
        using 1(4) l by (auto simp: heap_below_def)
      have up: "0 < i \<Longrightarrow> k (xs ! ((i - 1) div 2)) \<le> k (xs ! j)"
        using 1(4) j by (auto simp: heap_below_def)
      show "k (swap_at i j xs ! ((l - 1) div 2)) \<le> k (swap_at i j xs ! l)"
        using l j below up least [of l] parent_less [OF l(1)] len by (auto simp: swap_at_nth)
    next
      fix l assume l: "0 < l" "l < n" "(l - 1) div 2 = j" "0 < j"
      then have "k (xs ! j) \<le> k (xs ! l)" using 1(4) j by (auto simp: heap_below_def)
      moreover have "l \<noteq> j" "l \<noteq> i" using parent_less [OF l(1)] l(3) j(1) by auto
      ultimately show "k (swap_at i j xs ! ((j - 1) div 2)) \<le> k (swap_at i j xs ! l)"
        using j len by (simp add: swap_at_nth)
    qed
    then have "\<forall>l. 0 < l \<and> l < n \<longrightarrow> k (heap_down k n (swap_at i j xs) j ! ((l - 1) div 2))
        \<le> k (heap_down k n (swap_at i j xs) j ! l)"
      using 1(1) [OF _ j_def] 1(2) j(2) False by simp
    with False show ?thesis unfolding step by simp
  qed
qed

subsection \<open>Push and Pop\<close>

lemma heap_push_spec:
  assumes "heap_ok k xs"
  shows "heap_ok k (heap_push k x xs)" "mset (heap_push k x xs) = add_mset x (mset xs)"
proof -
  have "k ((xs @ [x]) ! ((i - 1) div 2)) \<le> k ((xs @ [x]) ! i)" if "0 < i" "i < length xs" for i
    using assms that parent_less [OF that(1)] by (simp add: heap_ok_def nth_append)
  then have "heap_but k (length (xs @ [x])) (xs @ [x]) (length xs)"
    by (auto simp: heap_but_def)
  then show "heap_ok k (heap_push k x xs)"
    unfolding heap_push_def by (intro heap_up_ok) simp_all
  show "mset (heap_push k x xs) = add_mset x (mset xs)"
    using heap_up_mset [of "length xs" "xs @ [x]" k] by (simp add: heap_push_def)
qed

lemma heap_pop_spec:
  assumes "heap_ok k xs" "xs \<noteq> []"
  shows "heap_ok k (heap_pop k xs)" "mset (heap_pop k xs) = mset xs - {#xs ! 0#}"
    "length (heap_pop k xs) = length xs - 1"
proof -
  define n where "n = length xs - 1"
  let ?s = "swap_at 0 n xs"
  let ?d = "heap_down k n ?s 0"
  have n: "n < length xs" "0 < length xs" using assms(2) by (auto simp: n_def)
  have low: "?s ! l = xs ! l" if "0 < l" "l < n" for l
    using that n by (simp add: swap_at_nth)
  have "heap_below k n ?s 0"
    unfolding heap_below_def
  proof (intro conjI allI impI; elim conjE)
    fix l assume l: "0 < l" "l < n" "(l - 1) div 2 \<noteq> 0"
    then show "k (?s ! ((l - 1) div 2)) \<le> k (?s ! l)"
      using assms(1) n parent_less [OF l(1)] low [of l] low [of "(l - 1) div 2"] by (simp add: heap_ok_def)
  qed simp
  then have order: "k (?d ! ((l - 1) div 2)) \<le> k (?d ! l)" if "0 < l" "l < n" for l
    using heap_down_ok [of n ?s 0 k] n that by auto
  have frame: "mset ?d = mset xs" "length ?d = length xs" "drop n ?d = drop n ?s"
    using heap_down_frame [of n ?s 0 k] n by auto
  have pop: "heap_pop k xs = take n ?d"
    using frame(2) by (simp add: heap_pop_def Let_def butlast_conv_take flip: n_def) (simp add: n_def)
  show "length (heap_pop k xs) = length xs - 1" using frame(2) n_def by (simp add: pop)
  show "heap_ok k (heap_pop k xs)"
    unfolding heap_ok_def pop using order frame(2) n parent_less by auto
  have "drop n ?s = [xs ! 0]"
    using n by (simp add: n_def Cons_nth_drop_Suc [symmetric] swap_at_nth)
  then have "mset ?d = mset (take n ?d) + {#xs ! 0#}"
    using frame(3) by (metis append_take_drop_id mset_append mset_single_iff)
  then show "mset (heap_pop k xs) = mset xs - {#xs ! 0#}"
    by (simp add: pop flip: frame(1))
qed

subsection \<open>The start queue\<close>

definition decl :: "task_store \<Rightarrow> TaskRef \<Rightarrow> int" where
  "decl m r = tk_declaration (m r)"

definition queue_push :: "task_store \<Rightarrow> TaskRef list \<Rightarrow> TaskRef \<Rightarrow> TaskRef list" where
  "queue_push m q st = heap_push (decl m) st q"

definition dropHead :: "task_store \<Rightarrow> TaskRef list \<Rightarrow> TaskRef list" where
  "dropHead m q = heap_pop (decl m) q"

definition queue_live :: "task_store \<Rightarrow> TaskRef \<Rightarrow> bool" where
  "queue_live m r \<longleftrightarrow> tk_phase (m r) = PhaseQueued \<and> awaitingStart (m r)"

text \<open>The loop drops one entry a turn; \<open>length\<close> decreases by \<open>heap_down_frame\<close>.\<close>

lemma heap_pop_length: "xs \<noteq> [] \<Longrightarrow> length (heap_pop k xs) = length xs - 1"
proof -
  define n where "n = length xs - 1"
  have "length (heap_down k n (swap_at 0 n xs) 0) = length xs"
  proof (rule heap_down_frame [THEN conjunct2, THEN conjunct1, THEN trans])
    show "n \<le> length (swap_at 0 n xs)" by (simp add: n_def)
    show "0 < n \<or> n = 0" by auto
  qed simp
  then show ?thesis unfolding heap_pop_def Let_def n_def by simp
qed

function queue_head :: "task_store \<Rightarrow> TaskRef list \<Rightarrow> TaskRef option \<times> TaskRef list" where
  "queue_head m q =
     (if q = [] then (None, q)
      else if queue_live m (q ! 0) then (Some (q ! 0), q)
      else queue_head m (dropHead m q))"
  by pat_completeness auto
termination
  by (relation "measure (\<lambda>(m, q). length q)") (auto simp: dropHead_def heap_pop_length)

declare queue_head.simps [simp del]

lemma queue_head_spec:
  assumes "heap_ok (decl m) q"
  shows "heap_ok (decl m) (snd (queue_head m q))
    \<and> filter_mset (queue_live m) (mset (snd (queue_head m q))) = filter_mset (queue_live m) (mset q)
    \<and> mset (snd (queue_head m q)) \<subseteq># mset q
    \<and> (case fst (queue_head m q) of
        None \<Rightarrow> snd (queue_head m q) = []
      | Some r \<Rightarrow> queue_live m r \<and> snd (queue_head m q) \<noteq> [] \<and> snd (queue_head m q) ! 0 = r)"
  using assms
proof (induction m q rule: queue_head.induct)
  case (1 m q)
  show ?case
  proof (cases "q = [] \<or> queue_live m (q ! 0)")
    case True
    then show ?thesis using 1(2) by (subst (1 2 3 4 5 6 7) queue_head.simps) auto
  next
    case False
    then have step: "queue_head m q = queue_head m (dropHead m q)" by (subst queue_head.simps) simp
    have drop: "heap_ok (decl m) (dropHead m q)" "mset (dropHead m q) = mset q - {#q ! 0#}"
      using heap_pop_spec [OF 1(2)] False by (auto simp: dropHead_def)
    have "q ! 0 \<in># mset q" using False by auto
    then have "filter_mset (queue_live m) (mset (dropHead m q)) = filter_mset (queue_live m) (mset q)"
      using False by (auto simp: drop(2) filter_diff_mset)
    moreover have "mset (dropHead m q) \<subseteq># mset q" by (simp add: drop(2))
    ultimately show ?thesis
      unfolding step using 1(1) False drop(1) by (auto intro: subset_mset.order_trans)
  qed
qed

text \<open>
  The queue's head is the earliest-declared Task that may still start: only stale entries are
  dropped on the way, none is found exactly when no live entry is queued, and the heap order
  survives every push and pop.
\<close>

theorem queue_head_earliest:
  assumes "heap_ok (decl m) q" "queue_head m q = (found, q')"
  shows "heap_ok (decl m) q' \<and> heap_ok (decl m) (queue_push m q' r) \<and> heap_ok (decl m) (dropHead m (queue_push m q' r))
    \<and> filter_mset (queue_live m) (mset q') = filter_mset (queue_live m) (mset q)
    \<and> (found = None \<longleftrightarrow> filter (queue_live m) q = [])
    \<and> (\<forall>x. found = Some x \<longrightarrow> queue_live m x \<and> x \<in> set q \<and> decl m x = Min (decl m ` {y \<in> set q. queue_live m y}))"
proof -
  note spec = queue_head_spec [OF assms(1), unfolded assms(2) fst_conv snd_conv]
  have push: "heap_ok (decl m) (queue_push m q' r)"
    unfolding queue_push_def by (rule heap_push_spec(1)) (use spec in simp)
  have "queue_push m q' r \<noteq> []"
    using heap_push_spec(2) [of "decl m" q' r] spec by (auto simp: queue_push_def)
  then have pop: "heap_ok (decl m) (dropHead m (queue_push m q' r))"
    using push heap_pop_spec(1) by (simp add: dropHead_def)
  have live: "{y \<in> set q. queue_live m y} = {y \<in> set q'. queue_live m y}"
    using spec by (metis mset_filter set_filter set_mset_mset)
  have none: "found = None \<longleftrightarrow> filter (queue_live m) q = []"
  proof -
    have "filter (queue_live m) q = [] \<longleftrightarrow> {y \<in> set q'. queue_live m y} = {}"
      unfolding live [symmetric] by (auto simp: filter_empty_conv)
    moreover have "{y \<in> set q'. queue_live m y} = {} \<longleftrightarrow> found = None"
    proof (cases found)
      case (Some a)
      then have "q' ! 0 \<in> {y \<in> set q'. queue_live m y}" using spec by auto
      with Some show ?thesis by auto
    qed (use spec in auto)
    ultimately show ?thesis by blast
  qed
  have "queue_live m x \<and> x \<in> set q \<and> decl m x = Min (decl m ` {y \<in> set q. queue_live m y})"
    if "found = Some x" for x
  proof -
    have x: "queue_live m x" "q' \<noteq> []" "q' ! 0 = x" using spec that by auto
    then have "x \<in> {y \<in> set q'. queue_live m y}" by (auto intro: nth_mem)
    moreover have "decl m x \<le> decl m y" if "y \<in> set q'" for y
      using heap_ok_least [of "decl m" q'] spec x that by (auto simp: in_set_conv_nth)
    ultimately have "decl m x = Min (decl m ` {y \<in> set q'. queue_live m y})"
      by (intro Min_eqI [symmetric]) auto
    then show ?thesis using live \<open>x \<in> {y \<in> set q'. queue_live m y}\<close> x(1) by auto
  qed
  with spec push pop none show ?thesis by simp
qed

text \<open>Task 2 has started since it was queued, so the head is Task 3, from behind Task 4's entry.\<close>

definition wit_queue_store :: task_store where
  "wit_queue_store r = \<lparr>tk_state = Pending, tk_declaration = int r,
     tk_phase = (if r = 2 then PhaseRunning else PhaseQueued), tk_preds = [], tk_dependents = [], tk_collection = None\<rparr>"

theorem queue_head_earliest_witness:
  "fst (queue_head wit_queue_store [2, 4, 3]) = Some 3 \<and> decl wit_queue_store 3 = Min {3, 4}"
proof -
  have heap: "heap_ok (decl wit_queue_store) [2, 4, 3]"
    by (auto simp: heap_ok_def decl_def wit_queue_store_def less_Suc_eq nth_Cons')
  have head: "queue_head wit_queue_store [2, 4, 3] = (Some 3, [3, 4])" by code_simp
  have "decl wit_queue_store 3 = Min (decl wit_queue_store ` {y \<in> set [2, 4, 3]. queue_live wit_queue_store y})"
    using queue_head_earliest [OF heap head, of 5] by blast
  also have "{y \<in> set [2, 4, 3]. queue_live wit_queue_store y} = {3, 4}"
    by (auto simp: queue_live_def awaitingStart_def wit_queue_store_def)
  finally show ?thesis using head by (simp add: decl_def wit_queue_store_def)
qed

end
