(* ===== verification/Engine_Schedule.thy ===== *)
theory Engine_Schedule
  imports Engine_Queue
begin

text \<open>
  The run's scheduler (\<open>internal/engine/scheduler_state.go\<close>, with \<open>settle.go\<close>, and the placing, waking,
  starting and draining of \<open>eligibility.go\<close> and \<open>execution.go\<close>). A \<open>schedState\<close> is the part of an
  \<open>Output\<close> those methods read and write under its mutex: Tasks and collections (\<open>rs_e\<close>), the start
  queue, the parked count, the worklist of woken Tasks, the slots, and \<open>sync.WaitGroup\<close>'s count;
  \<open>rs_ended\<close> is a run \<open>ensureOpen\<close> refuses, \<open>rs_procs\<close> is \<open>GOMAXPROCS\<close>. Container builders' gates are
  not part of it, misuse is not recorded, and what only paints or journals is left out.
  Settling a Task can wake others, and a woken Task can settle; the worklist \<open>woken\<close> with its flag
  \<open>waking\<close> keeps that cascade a loop, so \<open>settle\<close> and \<open>place\<close> take what a wake does as an argument,
  once as the whole \<open>wakeLocked\<close> and once as the append it is while the loop runs. An operation that
  reads an outcome returns an option, \<open>None\<close> when the read never returns.
\<close>

subsection \<open>State\<close>

text \<open>
  \<open>rs_claims\<close> is what the goroutines executing a callback hold on their stacks: the Task claimed and
  whether the claim took a slot (the arguments of their \<open>finishClaimed\<close>).
\<close>

record schedState =
  rs_e :: scheduler
  rs_order :: "TaskRef list"
  rs_queue :: "TaskRef list"
  rs_parked :: int
  rs_woken :: "TaskRef list"
  rs_waking :: bool
  rs_wg :: int
  rs_inflight :: int
  rs_maxObserved :: int
  rs_executing :: int
  rs_claims :: "(TaskRef \<times> bool) list"
  rs_cancelled :: bool
  rs_ended :: bool
  rs_maxConcurrency :: int
  rs_procs :: int
  rs_problems :: "TaskRef \<Rightarrow> bool"
  rs_closed :: "TaskRef set"

abbreviation rs_tasks :: "schedState \<Rightarrow> task_store" where
  "rs_tasks s \<equiv> e_tasks (rs_e s)"

abbreviation rs_tally :: "schedState \<Rightarrow> ColRef \<Rightarrow> collectionTally" where
  "rs_tally s c \<equiv> co_tally (e_cols (rs_e s) c)"

definition upd_task :: "TaskRef \<Rightarrow> (taskState \<Rightarrow> taskState) \<Rightarrow> scheduler \<Rightarrow> scheduler" where
  "upd_task r f e = e\<lparr>e_tasks := (e_tasks e)(r := f (e_tasks e r))\<rparr>"

definition upd_tally :: "ColRef \<Rightarrow> (collectionTally \<Rightarrow> collectionTally) \<Rightarrow> scheduler \<Rightarrow> scheduler" where
  "upd_tally c f e =
     e\<lparr>e_cols := (e_cols e)(c := (e_cols e c)\<lparr>co_tally := f (co_tally (e_cols e c))\<rparr>)\<rparr>"

text \<open>A Task's collection and every collection around it, innermost first.\<close>

partial_function (option) col_chain :: "scheduler \<Rightarrow> ColRef option \<Rightarrow> ColRef list option" where
  "col_chain e c =
     (case c of
        None \<Rightarrow> Some []
      | Some c \<Rightarrow> Option.bind (col_chain e (co_parent (e_cols e c))) (\<lambda>cs. Some (c # cs)))"

subsection \<open>Phases (eligibility.go)\<close>

definition enterPhaseLocked :: "schedState \<Rightarrow> TaskRef \<Rightarrow> schedPhase \<Rightarrow> schedState" where
  "enterPhaseLocked s st phase =
     s\<lparr>rs_parked := rs_parked s - (if tk_phase (rs_tasks s st) = PhaseParked then 1 else 0)
         + (if phase = PhaseParked then 1 else 0),
       rs_e := upd_task st (\<lambda>t. t\<lparr>tk_phase := phase\<rparr>) (rs_e s)\<rparr>"

definition abandonLocked :: "schedState \<Rightarrow> TaskRef \<Rightarrow> schedState" where
  "abandonLocked s st =
     (let s = enterPhaseLocked s st PhaseAbandoned in s\<lparr>rs_wg := rs_wg s - 1\<rparr>)"

subsection \<open>Settling (settle.go)\<close>

definition honestState :: "schedState \<Rightarrow> TaskRef \<Rightarrow> EntityState \<Rightarrow> EntityState" where
  "honestState s st state = (if (state = Done \<or> state = Skipped) \<and> rs_problems s st then Failed else state)"

text \<open>The Task's own part of \<open>settleLocked\<close>; paint, journal and census are left out.\<close>

definition settle_task :: "schedState \<Rightarrow> TaskRef \<Rightarrow> EntityState \<Rightarrow> schedState" where
  "settle_task s st state =
     (let state = honestState s st state;
          s = s\<lparr>rs_e := upd_task st (\<lambda>t. t\<lparr>tk_state := state\<rparr>) (rs_e s)\<rparr>;
          s = s\<lparr>rs_closed := insert st (rs_closed s)\<rparr>
      in if schedule_awaitingStart (tk_phase (rs_tasks s st)) then abandonLocked s st else s)"

text \<open>The loop of \<open>propagateSettleLocked\<close> over the collections the Task sits under.\<close>

fun settle_tallies :: "scheduler \<Rightarrow> TaskRef \<Rightarrow> ColRef list \<Rightarrow> TaskRef list \<Rightarrow> scheduler \<times> TaskRef list" where
  "settle_tallies e st [] deps = (e, deps)"
| "settle_tallies e st (c # cs) deps =
     (let (t, woken) = tally_settle (e_tasks e) (co_tally (e_cols e c)) st in
      settle_tallies (upd_tally c (\<lambda>_. t) e) st cs (deps @ woken))"

definition propagateSettleLocked ::
  "(schedState \<Rightarrow> TaskRef list \<Rightarrow> schedState option) \<Rightarrow> schedState \<Rightarrow> TaskRef \<Rightarrow> schedState option" where
  "propagateSettleLocked wake s st =
     Option.bind (col_chain (rs_e s) (tk_collection (rs_tasks s st))) (\<lambda>cs.
       let deps = tk_dependents (rs_tasks s st);
           e = upd_task st (\<lambda>t. t\<lparr>tk_dependents := []\<rparr>) (rs_e s);
           (e, deps) = settle_tallies e st cs deps
       in wake (s\<lparr>rs_e := e\<rparr>) deps)"

definition settle_with ::
  "(schedState \<Rightarrow> TaskRef list \<Rightarrow> schedState option) \<Rightarrow> schedState \<Rightarrow> TaskRef \<Rightarrow> EntityState \<Rightarrow> schedState option" where
  "settle_with wake s st state = propagateSettleLocked wake (settle_task s st state) st"

subsection \<open>Placing and waking (eligibility.go)\<close>

text \<open>Parking a Task on what its verdict is pending for.\<close>

definition park_on :: "schedState \<Rightarrow> predecessor \<Rightarrow> TaskRef \<Rightarrow> schedState" where
  "park_on s blocker st =
     (case pd_task blocker of
        Some t \<Rightarrow> s\<lparr>rs_e := upd_task t (\<lambda>x. x\<lparr>tk_dependents := tk_dependents x @ [st]\<rparr>) (rs_e s)\<rparr>
      | None \<Rightarrow>
          (case pd_col blocker of
             None \<Rightarrow> s
           | Some c \<Rightarrow>
               (let (cursor, opn) = edgeCursorLocked (rs_e s) blocker c in
                s\<lparr>rs_e := upd_tally c (\<lambda>t. park t st cursor opn) (rs_e s)\<rparr>)))"

definition place_with ::
  "(schedState \<Rightarrow> TaskRef list \<Rightarrow> schedState option) \<Rightarrow> schedState \<Rightarrow> TaskRef \<Rightarrow> predScan \<Rightarrow> schedState option" where
  "place_with wake s st scan =
     Option.bind (predsOutcomeLocked (rs_e s) st scan) (\<lambda>(verdict, blocker, e).
       let s = s\<lparr>rs_e := e\<rparr> in
       case verdict of
         PredSucceeded \<Rightarrow>
           (let s = enterPhaseLocked s st PhaseQueued in
            Some (s\<lparr>rs_queue := queue_push (rs_tasks s) (rs_queue s) st\<rparr>))
       | PredPending \<Rightarrow> Some (park_on (enterPhaseLocked s st PhaseParked) blocker st)
       | PredFailed \<Rightarrow> settle_with wake s st NotStarted)"

definition wake_held :: "schedState \<Rightarrow> TaskRef list \<Rightarrow> schedState option" where
  "wake_held s deps = Some (s\<lparr>rs_woken := rs_woken s @ deps\<rparr>)"

partial_function (option) drain_loop :: "nat \<Rightarrow> schedState \<Rightarrow> schedState option" where
  "drain_loop i s =
     (if i < length (rs_woken s) then
        (let st = rs_woken s ! i in
         if tk_phase (rs_tasks s st) = PhaseParked \<and> \<not> IsTerminalTask (tk_state (rs_tasks s st))
         then Option.bind (place_with wake_held s st ScanToBlocker) (drain_loop (Suc i))
         else drain_loop (Suc i) s)
      else Some (s\<lparr>rs_woken := [], rs_waking := False\<rparr>))"

definition drainWokenLocked :: "schedState \<Rightarrow> schedState option" where
  "drainWokenLocked s = drain_loop 0 (s\<lparr>rs_waking := True\<rparr>)"

definition wakeLocked :: "schedState \<Rightarrow> TaskRef list \<Rightarrow> schedState option" where
  "wakeLocked s deps =
     (let s = s\<lparr>rs_woken := rs_woken s @ deps\<rparr> in
      if rs_waking s then Some s else drainWokenLocked s)"

abbreviation settleLocked :: "schedState \<Rightarrow> TaskRef \<Rightarrow> EntityState \<Rightarrow> schedState option" where
  "settleLocked \<equiv> settle_with wakeLocked"

abbreviation placeLocked :: "schedState \<Rightarrow> TaskRef \<Rightarrow> predScan \<Rightarrow> schedState option" where
  "placeLocked \<equiv> place_with wakeLocked"

definition markNotStartedLocked :: "schedState \<Rightarrow> TaskRef \<Rightarrow> schedState option" where
  "markNotStartedLocked s st = settleLocked s st NotStarted"

definition holdWakesLocked :: "schedState \<Rightarrow> schedState" where
  "holdWakesLocked s = s\<lparr>rs_waking := True\<rparr>"

definition sealCollectionLocked :: "schedState \<Rightarrow> ColRef \<Rightarrow> schedState option" where
  "sealCollectionLocked s c =
     (let (t, woken) = seal (rs_tally s c) (e_declSeq (rs_e s)) in
      wakeLocked (s\<lparr>rs_e := upd_tally c (\<lambda>_. t) (rs_e s)\<rparr>) woken)"

subsection \<open>Submitting and starting (execution.go)\<close>

definition submitWork :: "schedState \<Rightarrow> TaskRef \<Rightarrow> schedState option" where
  "submitWork s st =
     (if st \<notin> set (rs_order s) then Some s
      else if rs_ended s then Some s
      else if IsTerminalTask (tk_state (rs_tasks s st)) then Some s
      else if submitted (tk_phase (rs_tasks s st)) then Some s
      else
        (let s = enterPhaseLocked (s\<lparr>rs_wg := rs_wg s + 1\<rparr>) st PhaseQueued in
         if rs_cancelled s then markNotStartedLocked s st
         else placeLocked s st ScanAll))"

partial_function (option) nextEligibleLocked :: "schedState \<Rightarrow> (TaskRef option \<times> schedState) option" where
  "nextEligibleLocked s =
     (let (found, q) = queue_head (rs_tasks s) (rs_queue s); s = s\<lparr>rs_queue := q\<rparr> in
      case found of
        None \<Rightarrow> Some (None, s)
      | Some st \<Rightarrow>
          Option.bind (eligibleLocked (rs_e s) st) (\<lambda>(ok, e).
            let s = s\<lparr>rs_e := e\<rparr> in
            if ok then Some (Some st, s)
            else
              Option.bind (placeLocked (s\<lparr>rs_queue := dropHead (rs_tasks s) (rs_queue s)\<rparr>) st ScanToBlocker)
                nextEligibleLocked))"

definition concurrencyCeilingLocked :: "schedState \<Rightarrow> int" where
  "concurrencyCeilingLocked s = (if rs_maxConcurrency s > 0 then rs_maxConcurrency s else max 1 (rs_procs s))"

definition takeSlotLocked :: "schedState \<Rightarrow> schedState" where
  "takeSlotLocked s =
     s\<lparr>rs_inflight := rs_inflight s + 1, rs_maxObserved := max (rs_maxObserved s) (rs_inflight s + 1)\<rparr>"

definition claimLocked :: "schedState \<Rightarrow> TaskRef \<Rightarrow> schedState" where
  "claimLocked s cand =
     (let s = enterPhaseLocked s cand PhaseRunning; s = s\<lparr>rs_executing := rs_executing s + 1\<rparr> in
      if tk_state (rs_tasks s cand) = Pending
      then s\<lparr>rs_e := upd_task cand (\<lambda>t. t\<lparr>tk_state := Running\<rparr>) (rs_e s)\<rparr> else s)"

definition takeEligible :: "schedState \<Rightarrow> (TaskRef option \<times> schedState) option" where
  "takeEligible s =
     (if rs_cancelled s then Some (None, s)
      else if rs_inflight s \<ge> concurrencyCeilingLocked s then Some (None, s)
      else
        Option.bind (nextEligibleLocked s) (\<lambda>(cand, s).
          case cand of
            None \<Rightarrow> Some (None, s)
          | Some st \<Rightarrow> Some (Some st, claimLocked (takeSlotLocked s) st)))"

text \<open>\<open>finishClaimed\<close> after its panic check: a panic settles the row before it, like any failed return.\<close>

definition finishClaimed :: "schedState \<Rightarrow> bool \<Rightarrow> schedState" where
  "finishClaimed s pooled =
     s\<lparr>rs_inflight := rs_inflight s - (if pooled then 1 else 0),
       rs_executing := rs_executing s - 1, rs_wg := rs_wg s - 1\<rparr>"

text \<open>A waiter's claim (wait.go): a callback lends its slot, a plain caller needs a free one.\<close>

definition takeWaiterSlotLocked :: "schedState \<Rightarrow> nat \<Rightarrow> bool \<times> bool \<times> schedState" where
  "takeWaiterSlotLocked s depth =
     (if depth > 0 then (False, True, s)
      else if rs_inflight s \<ge> concurrencyCeilingLocked s then (False, False, s)
      else (True, True, takeSlotLocked s))"

definition claimableLocked :: "schedState \<Rightarrow> TaskRef \<Rightarrow> (bool \<times> schedState) option" where
  "claimableLocked s cand =
     (if rs_cancelled s \<or> cand \<notin> set (rs_order s) \<or> \<not> awaitingStart (rs_tasks s cand) then Some (False, s)
      else Option.bind (eligibleLocked (rs_e s) cand) (\<lambda>(ok, e). Some (ok, s\<lparr>rs_e := e\<rparr>)))"

definition claimForWaiter :: "schedState \<Rightarrow> TaskRef \<Rightarrow> nat \<Rightarrow> ((TaskRef \<times> bool) option \<times> schedState) option" where
  "claimForWaiter s cand depth =
     Option.bind (claimableLocked s cand) (\<lambda>(ok, s).
       if \<not> ok then Some (None, s)
       else
         (let (pooled, ok, s) = takeWaiterSlotLocked s depth in
          if ok then Some (Some (cand, pooled), claimLocked s cand) else Some (None, s)))"

subsection \<open>Draining (eligibility.go, execution.go, stall.go)\<close>

fun replace_loop :: "TaskRef list \<Rightarrow> schedState \<Rightarrow> schedState option" where
  "replace_loop [] s = Some s"
| "replace_loop (st # rest) s =
     (if tk_phase (rs_tasks s st) = PhaseParked \<and> \<not> IsTerminalTask (tk_state (rs_tasks s st))
      then Option.bind (placeLocked s st ScanAll) (replace_loop rest)
      else replace_loop rest s)"

text \<open>Every registration is dropped before the parked Tasks are placed again.\<close>

definition unregister_all :: "schedState \<Rightarrow> schedState" where
  "unregister_all s =
     s\<lparr>rs_e := (rs_e s)\<lparr>
         e_tasks := (\<lambda>r. if r \<in> set (rs_order s) then (rs_tasks s r)\<lparr>tk_dependents := []\<rparr> else rs_tasks s r),
         e_cols := (\<lambda>c. (e_cols (rs_e s) c)\<lparr>co_tally := unpark (rs_tally s c)\<rparr>)\<rparr>\<rparr>"

definition replaceParkedLocked :: "schedState \<Rightarrow> schedState option" where
  "replaceParkedLocked s =
     replace_loop (filter (\<lambda>r. tk_phase (rs_tasks s r) = PhaseParked) (rs_order s)) (unregister_all s)"

definition begin_drain :: "schedState \<Rightarrow> schedState option" where
  "begin_drain s = replaceParkedLocked (s\<lparr>rs_e := (rs_e s)\<lparr>e_draining := True\<rparr>\<rparr>)"

fun abandon_loop :: "TaskRef list \<Rightarrow> schedState \<Rightarrow> schedState option" where
  "abandon_loop [] s = Some s"
| "abandon_loop (st # rest) s =
     (if tk_phase (rs_tasks s st) = PhaseParked \<and> \<not> IsTerminalTask (tk_state (rs_tasks s st))
      then Option.bind (markNotStartedLocked s st) (abandon_loop rest)
      else abandon_loop rest s)"

definition abandonStrandedLocked :: "schedState \<Rightarrow> (bool \<times> schedState) option" where
  "abandonStrandedLocked s =
     (if rs_parked s = 0 then Some (False, s)
      else Option.bind (abandon_loop (rs_order s) s) (\<lambda>s. Some (True, s)))"

definition stopUnstartedLocked :: "schedState \<Rightarrow> TaskRef \<Rightarrow> schedState option" where
  "stopUnstartedLocked s st =
     (if IsTerminalTask (tk_state (rs_tasks s st)) \<or> tk_phase (rs_tasks s st) = PhaseRunning then Some s
      else markNotStartedLocked s st)"

end
