(* ===== verification/Engine_Schedule_Inv.thy ===== *)
theory Engine_Schedule_Inv
  imports Engine_Schedule
begin

text \<open>
  What the scheduler's state keeps, and the proof that its operations keep it. The heart is that no
  wakeup is lost: a parked Task outside the worklist is registered with a predecessor (of its own,
  or inside the entry of an empty collection it waits for) that is still pending, so it cannot be
  eligible. With it go the exactness of the tallies, of the parked count and of the wait group, and
  that every queued Task is in the queue.
\<close>

subsection \<open>What a pending read is pending on\<close>

definition closed_empty :: "scheduler \<Rightarrow> predecessor \<Rightarrow> ColRef \<Rightarrow> bool" where
  "closed_empty e p c \<longleftrightarrow>
     (let t = co_tally (e_cols e c) in
      (pd_through p \<noteq> 0 \<or> ct_sealed t \<or> e_draining e) \<and>
      \<not> hasMemberThrough (e_tasks e) t
          (if pd_through p \<noteq> 0 then pd_through p else if ct_sealed t then ct_sealedThrough t else throughAll))"

text \<open>\<open>p\<close> waits for \<open>b\<close>: itself, or through the entries of empty collections.\<close>

inductive held_by :: "scheduler \<Rightarrow> predecessor \<Rightarrow> predecessor \<Rightarrow> bool" for e where
  held_refl: "held_by e b b"
| held_entry: "pd_task p = None \<Longrightarrow> pd_col p = Some c \<Longrightarrow> closed_empty e p c \<Longrightarrow>
    q \<in> set (co_entry (e_cols e c)) \<Longrightarrow> held_by e q b \<Longrightarrow> held_by e p b"

definition blocking :: "scheduler \<Rightarrow> predecessor \<Rightarrow> bool" where
  "blocking e b \<longleftrightarrow>
     (case pd_task b of
        Some t \<Rightarrow> taskOutcomeLocked e t = PredPending
      | None \<Rightarrow> (case pd_col b of None \<Rightarrow> False | Some c \<Rightarrow> collection_read e b c = Some PredPending))"

lemma read_None_closed_empty:
  "collection_read e p c = None \<Longrightarrow> closed_empty e p c"
  by (auto simp: collection_read_def closed_empty_def edgeCursorLocked_def Let_def split: if_splits)

lemma closed_empty_not_succeeded:
  "closed_empty e p c \<Longrightarrow> collection_read e p c \<noteq> Some PredSucceeded"
  by (auto simp: collection_read_def closed_empty_def edgeCursorLocked_def Let_def split: if_splits)

lemma entry_fold_pending:
  "entry_fold e ps v b = Some (PredPending, b') \<Longrightarrow>
   v = PredPending \<and> b' = b \<or> (\<exists>q\<in>set ps. outcomeLocked e q = Some (PredPending, b'))"
proof (induction ps arbitrary: v b)
  case (Cons p ps)
  then obtain out b1 where o: "outcomeLocked e p = Some (out, b1)"
    by (auto simp: entry_fold_Cons bind_eq_Some_conv)
  then show ?case
    using Cons.prems Cons.IH [of PredPending b1] Cons.IH [of v b]
    by (auto simp: entry_fold_Cons split: if_splits)
qed simp

lemma entry_fold_succeeded:
  "entry_fold e ps v b = Some (PredSucceeded, b') \<Longrightarrow>
   v = PredSucceeded \<and> (\<forall>q\<in>set ps. \<exists>b''. outcomeLocked e q = Some (PredSucceeded, b''))"
proof (induction ps arbitrary: v b)
  case (Cons p ps)
  then obtain out b1 where o: "outcomeLocked e p = Some (out, b1)"
    by (auto simp: entry_fold_Cons bind_eq_Some_conv)
  then show ?case
    using Cons.prems Cons.IH [of PredPending b1] Cons.IH [of v b]
    by (cases out) (auto simp: entry_fold_Cons split: if_splits)
qed simp

lemma outcome_blocker:
  assumes "entries_ranked e rank"
  shows "outcomeLocked e p = Some (PredPending, b) \<Longrightarrow> held_by e p b \<and> blocking e b"
proof (induction "case pd_col p of Some c \<Rightarrow> Suc (rank c) | None \<Rightarrow> 0" arbitrary: p rule: less_induct)
  case less
  show ?case
  proof (cases "pd_task p")
    case None
    then obtain c where c: "pd_col p = Some c" "collectionOutcomeLocked e p c = Some (PredPending, b)"
      using less.prems by (auto simp: outcomeLocked_def split: option.splits)
    show ?thesis
    proof (cases "collection_read e p c")
      case (Some v)
      then show ?thesis
        using None c by (auto simp: collectionOutcomeLocked_def blocking_def intro: held_refl)
    next
      case read: None
      then obtain q where q: "q \<in> set (co_entry (e_cols e c))" "outcomeLocked e q = Some (PredPending, b)"
        using c(2) entry_fold_pending [of e "co_entry (e_cols e c)" PredSucceeded no_pred b]
        by (auto simp: collectionOutcomeLocked_def entryOutcomeLocked_def)
      have "held_by e q b \<and> blocking e b"
      proof (cases "pd_task q")
        case task: None
        then obtain c' where c': "pd_col q = Some c'"
          using q(2) by (auto simp: outcomeLocked_def split: option.splits)
        then have "rank c' < rank c" using assms q(1) task by (auto simp: entries_ranked_def)
        then show ?thesis using less.hyps [OF _ q(2)] c' c(1) by simp
      next
        case (Some t)
        then show ?thesis using q(2) by (auto simp: outcomeLocked_def blocking_def intro: held_refl)
      qed
      then show ?thesis
        using held_entry [OF None c(1) read_None_closed_empty [OF read] q(1)] by blast
    qed
  next
    case (Some t)
    then show ?thesis using less.prems by (auto simp: outcomeLocked_def blocking_def intro: held_refl)
  qed
qed

lemma held_not_succeeded:
  "held_by e p b \<Longrightarrow> blocking e b \<Longrightarrow> outcomeLocked e p = Some (v, b') \<Longrightarrow> v \<noteq> PredSucceeded"
proof (induction arbitrary: v b' rule: held_by.induct)
  case (held_refl b)
  then show ?case
    by (auto simp: blocking_def outcomeLocked_def collectionOutcomeLocked_def split: option.splits)
next
  case (held_entry p c q b)
  show ?case
  proof (cases "collection_read e p c")
    case None
    then have "entry_fold e (co_entry (e_cols e c)) PredSucceeded no_pred = Some (v, b')"
      using held_entry.prems(2) held_entry.hyps(1,2)
      by (simp add: outcomeLocked_def collectionOutcomeLocked_def entryOutcomeLocked_def)
    then show ?thesis
      using held_entry.IH [OF held_entry.prems(1)] held_entry.hyps(4) entry_fold_succeeded by metis
  next
    case (Some w)
    then show ?thesis
      using held_entry.prems(2) held_entry.hyps(1,2) closed_empty_not_succeeded [OF held_entry.hyps(3)]
      by (auto simp: outcomeLocked_def collectionOutcomeLocked_def)
  qed
qed

lemma preds_loop_pending:
  assumes "preds_loop e scan ps v b kept = Some (PredPending, b', kept')"
  shows "set kept \<subseteq> set kept' \<and>
    (v = PredPending \<and> b' = b \<or> (\<exists>p\<in>set ps. p \<in> set kept' \<and> outcomeLocked e p = Some (PredPending, b')))"
  using assms
proof (induction ps arbitrary: v b kept)
  case (Cons p ps)
  obtain out pk where o: "outcomeLocked e p = Some (out, pk)"
    using Cons.prems by (auto simp: bind_eq_Some_conv)
  define v2 b2 kept2 where "v2 = (if out = PredPending \<and> v = PredSucceeded then PredPending else v)"
    and "b2 = (if out = PredPending \<and> v = PredSucceeded then pk else b)"
    and "kept2 = (if out \<noteq> PredSucceeded \<or> pd_task p = None then kept @ [p] else kept)"
  have "out \<noteq> PredFailed" using Cons.prems o by auto
  then have "(if v2 = PredPending \<and> scan = ScanToBlocker then Some (v2, b2, kept2 @ ps)
      else preds_loop e scan ps v2 b2 kept2) = Some (PredPending, b', kept')"
    using Cons.prems o
    by (cases out; cases v; cases scan; cases "pd_task p") (simp_all add: v2_def b2_def kept2_def Let_def)
  then have "set kept2 \<subseteq> set kept' \<and>
    (v2 = PredPending \<and> b' = b2 \<or> (\<exists>p\<in>set ps. p \<in> set kept' \<and> outcomeLocked e p = Some (PredPending, b')))"
    using Cons.IH [of v2 b2 kept2] by (auto split: if_splits)
  then show ?case
    using o by (auto simp: v2_def b2_def kept2_def split: if_splits)
qed simp

lemma preds_blocker:
  assumes "entries_ranked e rank" "predsOutcomeLocked e st scan = Some (PredPending, b, e')"
  shows "\<exists>p\<in>set (tk_preds (e_tasks e' st)). held_by e p b \<and> blocking e b"
proof -
  obtain kept where "preds_loop e scan (tk_preds (e_tasks e st)) PredSucceeded no_pred [] = Some (PredPending, b, kept)"
    and e': "e' = e\<lparr>e_tasks := (e_tasks e)(st := (e_tasks e st)\<lparr>tk_preds := kept\<rparr>)\<rparr>"
    using assms(2) by (auto simp: predsOutcomeLocked_def bind_eq_Some_conv)
  then show ?thesis
    using preds_loop_pending outcome_blocker [OF assms(1)] by fastforce
qed

text \<open>
  \<open>p\<close> names work that failed: the Task itself, a member its edge covers, or work an empty collection comes
  after.
\<close>

inductive failed_pred :: "scheduler \<Rightarrow> predecessor \<Rightarrow> bool" for e where
  failed_nil: "pd_task p = None \<Longrightarrow> pd_col p = None \<Longrightarrow> failed_pred e p"
| failed_task: "pd_task p = Some t \<Longrightarrow> taskOutcomeLocked e t = PredFailed \<Longrightarrow> failed_pred e p"
| failed_builder: "pd_task p = None \<Longrightarrow> pd_col p = Some c \<Longrightarrow> ct_builderFailed (co_tally (e_cols e c)) \<Longrightarrow>
    failed_pred e p"
| failed_member: "pd_task p = None \<Longrightarrow> pd_col p = Some c \<Longrightarrow> x \<in> set (ct_members (co_tally (e_cols e c))) \<Longrightarrow>
    task_outcome (e_tasks e) x = PredFailed \<Longrightarrow>
    snd (edgeCursorLocked e p c) \<or> tk_declaration (e_tasks e x) \<le> fst (edgeCursorLocked e p c) \<Longrightarrow> failed_pred e p"
| failed_entry: "pd_task p = None \<Longrightarrow> pd_col p = Some c \<Longrightarrow> closed_empty e p c \<Longrightarrow> q \<in> set (co_entry (e_cols e c)) \<Longrightarrow>
    failed_pred e q \<Longrightarrow> failed_pred e p"

lemma entry_fold_failed:
  "entry_fold e ps v b = Some (PredFailed, b') \<Longrightarrow>
   v = PredFailed \<or> (\<exists>q\<in>set ps. \<exists>b''. outcomeLocked e q = Some (PredFailed, b''))"
proof (induction ps arbitrary: v b)
  case (Cons p ps)
  then obtain out b1 where o: "outcomeLocked e p = Some (out, b1)"
    by (auto simp: entry_fold_Cons bind_eq_Some_conv)
  then show ?case
    using Cons.prems Cons.IH [of PredPending b1] Cons.IH [of v b]
    by (cases out) (auto simp: entry_fold_Cons split: if_splits)
qed simp

lemma read_failed:
  assumes "collection_read e p c = Some PredFailed" "pd_task p = None" "pd_col p = Some c"
    "tally_ok (e_tasks e) (co_tally (e_cols e c))"
  shows "failed_pred e p"
proof (cases "ct_builderFailed (co_tally (e_cols e c))")
  case False
  let ?t = "co_tally (e_cols e c)"
  obtain cursor opn where cur: "edgeCursorLocked e p c = (cursor, opn)" by force
  have "opn \<and> ct_firstFailed ?t \<noteq> 0 \<or> \<not> opn \<and> failedThrough ?t cursor"
    using assms(1) False by (auto simp: collection_read_def cur Let_def split: if_splits)
  then obtain x where "x \<in> set (ct_members ?t)" "task_outcome (e_tasks e) x = PredFailed"
    "opn \<or> tk_declaration (e_tasks e x) \<le> cursor"
    using assms(4) failedThrough_exact [OF assms(4), of cursor] by (auto simp: tally_ok_def)
  then show ?thesis using assms(2,3) cur by (auto intro: failed_member)
qed (use assms in \<open>simp add: failed_builder\<close>)

lemma outcome_failed:
  assumes ranked: "entries_ranked e rank" and tallies: "\<And>c. tally_ok (e_tasks e) (co_tally (e_cols e c))"
  shows "outcomeLocked e p = Some (PredFailed, b) \<Longrightarrow> failed_pred e p"
proof (induction "case pd_col p of Some c \<Rightarrow> Suc (rank c) | None \<Rightarrow> 0" arbitrary: p b rule: less_induct)
  case less
  show ?case
  proof (cases "pd_task p")
    case None
    show ?thesis
    proof (cases "pd_col p")
      case None
      then show ?thesis using \<open>pd_task p = None\<close> by (rule failed_nil [rotated])
    next
      case (Some c)
      then have c: "collectionOutcomeLocked e p c = Some (PredFailed, b)" using less.prems None by (simp add: outcomeLocked_def)
      show ?thesis
      proof (cases "collection_read e p c")
        case read: None
        then obtain q b'' where q: "q \<in> set (co_entry (e_cols e c))" "outcomeLocked e q = Some (PredFailed, b'')"
          using c entry_fold_failed [of e "co_entry (e_cols e c)" PredSucceeded no_pred b]
          by (auto simp: collectionOutcomeLocked_def entryOutcomeLocked_def)
        have "failed_pred e q"
        proof (cases "pd_task q = None \<and> pd_col q \<noteq> None")
          case True
          then obtain d where d: "pd_col q = Some d" "pd_task q = None" by blast
          then have "rank d < rank c" using ranked q(1) by (auto simp: entries_ranked_def)
          then show ?thesis using less.hyps [OF _ q(2)] d Some by simp
        next
          case False
          then show ?thesis
            using q(2) by (cases "pd_task q") (auto simp: outcomeLocked_def intro: failed_nil failed_task)
        qed
        then show ?thesis using failed_entry [OF None Some read_None_closed_empty [OF read] q(1)] by blast
      next
        case (Some v)
        then show ?thesis
          using c read_failed [OF _ None \<open>pd_col p = Some c\<close> tallies] by (simp add: collectionOutcomeLocked_def)
      qed
    qed
  qed (use less.prems in \<open>auto simp: outcomeLocked_def intro: failed_task\<close>)
qed

lemma preds_loop_failed:
  assumes "preds_loop e scan ps v b kept = Some (PredFailed, b', kept')"
  shows "set kept \<subseteq> set kept' \<and> (v = PredFailed \<or> (\<exists>p\<in>set ps. p \<in> set kept' \<and> (\<exists>b''. outcomeLocked e p = Some (PredFailed, b''))))"
  using assms
proof (induction ps arbitrary: v b kept)
  case (Cons p ps)
  obtain out pk where o: "outcomeLocked e p = Some (out, pk)"
    using Cons.prems by (auto simp: bind_eq_Some_conv)
  define v2 b2 kept2 where "v2 = (if out = PredPending \<and> v = PredSucceeded then PredPending else v)"
    and "b2 = (if out = PredPending \<and> v = PredSucceeded then pk else b)"
    and "kept2 = (if out \<noteq> PredSucceeded \<or> pd_task p = None then kept @ [p] else kept)"
  show ?case
  proof (cases "out = PredFailed")
    case True
    then show ?thesis using Cons.prems o by auto
  next
    case False
    then have "(if v2 = PredPending \<and> scan = ScanToBlocker then Some (v2, b2, kept2 @ ps)
        else preds_loop e scan ps v2 b2 kept2) = Some (PredFailed, b', kept')"
      using Cons.prems o
      by (cases out; cases v; cases scan; cases "pd_task p") (simp_all add: v2_def b2_def kept2_def Let_def)
    then have "set kept2 \<subseteq> set kept' \<and>
      (v2 = PredFailed \<or> (\<exists>p\<in>set ps. p \<in> set kept' \<and> (\<exists>b''. outcomeLocked e p = Some (PredFailed, b''))))"
      using Cons.IH [of v2 b2 kept2] by (auto split: if_splits)
    then show ?thesis by (auto simp: v2_def kept2_def split: if_splits)
  qed
qed simp

text \<open>A Task that can no longer start: a predecessor it remembers failed.\<close>

definition doomed :: "scheduler \<Rightarrow> TaskRef \<Rightarrow> bool" where
  "doomed e r \<longleftrightarrow> (\<exists>p\<in>set (tk_preds (e_tasks e r)). failed_pred e p)"

lemma preds_doomed:
  assumes "entries_ranked e rank" "\<And>c. tally_ok (e_tasks e) (co_tally (e_cols e c))"
    "predsOutcomeLocked e st scan = Some (PredFailed, b, e')"
  shows "\<exists>p\<in>set (tk_preds (e_tasks e' st)). failed_pred e p"
proof -
  obtain kept where "preds_loop e scan (tk_preds (e_tasks e st)) PredSucceeded no_pred [] = Some (PredFailed, b, kept)"
    and e': "e' = e\<lparr>e_tasks := (e_tasks e)(st := (e_tasks e st)\<lparr>tk_preds := kept\<rparr>)\<rparr>"
    using assms(3) by (auto simp: predsOutcomeLocked_def bind_eq_Some_conv)
  from preds_loop_failed [OF this(1)] obtain p b'' where "p \<in> set kept" "outcomeLocked e p = Some (PredFailed, b'')"
    by auto
  moreover from this have "failed_pred e p" using outcome_failed [OF assms(1,2)] by blast
  ultimately show ?thesis by (auto simp: e')
qed

subsection \<open>A tally reads only states and declarations\<close>

definition same_reads :: "task_store \<Rightarrow> task_store \<Rightarrow> bool" where
  "same_reads m m' \<longleftrightarrow> (\<forall>x. tk_state (m x) = tk_state (m' x) \<and> tk_declaration (m x) = tk_declaration (m' x))"

lemma same_readsD:
  "same_reads m m' \<Longrightarrow> tk_state (m x) = tk_state (m' x)"
  "same_reads m m' \<Longrightarrow> tk_declaration (m x) = tk_declaration (m' x)"
  by (simp_all add: same_reads_def)

lemma advance_prefix_cong: "same_reads m m' \<Longrightarrow> advance_prefix m ms n = advance_prefix m' ms n"
proof (induction m ms n rule: advance_prefix.induct)
  case (1 m ms n)
  then show ?case
    using same_readsD(1) [OF 1(2)] by (subst (1 2) advance_prefix.simps) simp
qed

lemma succeededThrough_cong: "same_reads m m' \<Longrightarrow> succeededThrough m t c = succeededThrough m' t c"
  by (simp add: succeededThrough_def same_readsD(2))

lemma tally_settle_cong:
  assumes "same_reads m m'"
  shows "tally_settle m t st = tally_settle m' t st"
proof -
  have "succeededThrough m = succeededThrough m'"
    using succeededThrough_cong [OF assms] by (intro ext) blast
  then show ?thesis
    using same_readsD [OF assms] advance_prefix_cong [OF assms]
    by (simp add: tally_settle_def Let_def cong: PredOutcome.case_cong)
qed

lemma tally_ok_cong: "same_reads m m' \<Longrightarrow> tally_ok m t = tally_ok m' t"
  by (simp add: tally_ok_def same_readsD)

lemma parked_ok_cong: "same_reads m m' \<Longrightarrow> parked_ok m t = parked_ok m' t"
  by (simp add: parked_ok_def resolved_def succeededThrough_cong)

lemma settle_post_cong: "same_reads m' m'' \<Longrightarrow> settle_post m t m' r = settle_post m t m'' r"
  by (simp add: settle_post_def tally_ok_cong parked_ok_cong resolved_def succeededThrough_cong
      cong: filter_cong)

text \<open>A change of one Task's state is invisible to a tally it is no member of.\<close>

lemma tally_ok_other:
  assumes "\<And>x. x \<noteq> st \<Longrightarrow> tk_state (m x) = tk_state (m' x)"
    "\<And>x. tk_declaration (m x) = tk_declaration (m' x)" "st \<notin> set (ct_members t)"
  shows "tally_ok m t = tally_ok m' t" "parked_ok m t = parked_ok m' t"
proof -
  have states: "x \<in> set (ct_members t) \<Longrightarrow> tk_state (m x) = tk_state (m' x)" for x
    using assms(1,3) by metis
  have nth: "n < length (ct_members t) \<Longrightarrow> tk_state (m (ct_members t ! n)) = tk_state (m' (ct_members t ! n))" for n
    using states nth_mem by metis
  have pre: "x \<in> set (take n (ct_members t)) \<Longrightarrow> tk_state (m x) = tk_state (m' x)" for x n
    using states in_set_takeD by metis
  show "tally_ok m t = tally_ok m' t"
    unfolding tally_ok_def using states nth pre by (simp add: assms(2) cong: conj_cong ball_cong)
  show "parked_ok m t = parked_ok m' t"
    by (simp add: parked_ok_def resolved_def succeededThrough_def assms(2))
qed

subsection \<open>What every operation leaves alone\<close>

definition same_shape :: "scheduler \<Rightarrow> scheduler \<Rightarrow> bool" where
  "same_shape e e' \<longleftrightarrow>
     e_draining e' = e_draining e \<and> e_declSeq e' = e_declSeq e \<and>
     (\<forall>x. tk_declaration (e_tasks e' x) = tk_declaration (e_tasks e x)
        \<and> tk_collection (e_tasks e' x) = tk_collection (e_tasks e x)) \<and>
     (\<forall>c. co_entry (e_cols e' c) = co_entry (e_cols e c) \<and> co_parent (e_cols e' c) = co_parent (e_cols e c) \<and>
        ct_members (co_tally (e_cols e' c)) = ct_members (co_tally (e_cols e c)) \<and>
        ct_sealed (co_tally (e_cols e' c)) = ct_sealed (co_tally (e_cols e c)) \<and>
        ct_sealedThrough (co_tally (e_cols e' c)) = ct_sealedThrough (co_tally (e_cols e c)) \<and>
        ct_holds (co_tally (e_cols e' c)) = ct_holds (co_tally (e_cols e c)) \<and>
        ct_builderFailed (co_tally (e_cols e' c)) = ct_builderFailed (co_tally (e_cols e c)))"

lemma same_shape_refl [simp]: "same_shape e e"
  by (simp add: same_shape_def)

lemma same_shape_trans: "same_shape a b \<Longrightarrow> same_shape b c \<Longrightarrow> same_shape a c"
  by (simp add: same_shape_def)

lemma shape_hasMember:
  "same_shape e e' \<Longrightarrow>
   hasMemberThrough (e_tasks e') (co_tally (e_cols e' c)) cur = hasMemberThrough (e_tasks e) (co_tally (e_cols e c)) cur"
  by (simp add: same_shape_def hasMemberThrough_def)

lemma shape_cursor: "same_shape e e' \<Longrightarrow> edgeCursorLocked e' p c = edgeCursorLocked e p c"
  by (simp add: same_shape_def edgeCursorLocked_def Let_def)

lemma shape_closed_empty: "same_shape e e' \<Longrightarrow> closed_empty e' p c = closed_empty e p c"
  unfolding closed_empty_def Let_def by (simp only: shape_hasMember) (simp add: same_shape_def)

lemma held_by_mono:
  assumes "\<And>p c. closed_empty e p c \<Longrightarrow> closed_empty e' p c" "\<And>c. co_entry (e_cols e' c) = co_entry (e_cols e c)"
  shows "held_by e p b \<Longrightarrow> held_by e' p b"
proof (induction rule: held_by.induct)
  case (held_entry p c q b)
  then show ?case using assms by (intro held_by.held_entry [of p c e' q]) simp_all
qed (rule held_refl)

lemma shape_held_by:
  assumes "same_shape e e'" "held_by e p b"
  shows "held_by e' p b"
  using shape_closed_empty [OF assms(1)] assms(1)
  by (intro held_by_mono [OF _ _ assms(2)]) (simp_all add: same_shape_def)

text \<open>What failed stays failed.\<close>

definition fails_stay :: "scheduler \<Rightarrow> scheduler \<Rightarrow> bool" where
  "fails_stay e e' \<longleftrightarrow>
     (\<forall>t. taskOutcomeLocked e t = PredFailed \<longrightarrow> taskOutcomeLocked e' t = PredFailed) \<and>
     (\<forall>t. task_outcome (e_tasks e) t = PredFailed \<longrightarrow> task_outcome (e_tasks e') t = PredFailed)"

lemma failed_pred_stays:
  assumes "same_shape e e'" "fails_stay e e'"
  shows "failed_pred e p \<Longrightarrow> failed_pred e' p"
proof (induction rule: failed_pred.induct)
  case (failed_task p t)
  then show ?case using assms(2) by (auto simp: fails_stay_def intro: failed_pred.failed_task)
next
  case (failed_builder p c)
  then show ?case using assms(1) by (auto simp: same_shape_def intro: failed_pred.failed_builder)
next
  case (failed_member p c x)
  show ?case
  proof (rule failed_pred.failed_member [OF failed_member(1,2)])
    show "x \<in> set (ct_members (co_tally (e_cols e' c)))" using failed_member(3) assms(1) by (simp add: same_shape_def)
    show "task_outcome (e_tasks e') x = PredFailed" using failed_member(4) assms(2) by (simp add: fails_stay_def)
    show "snd (edgeCursorLocked e' p c) \<or> tk_declaration (e_tasks e' x) \<le> fst (edgeCursorLocked e' p c)"
      using failed_member(5) assms(1) shape_cursor [OF assms(1), of p c] by (simp add: same_shape_def)
  qed
next
  case (failed_entry p c q)
  show ?case
    by (rule failed_pred.failed_entry [where q = q, OF failed_entry(1,2)])
      (use failed_entry shape_closed_empty [OF assms(1)] assms(1) in \<open>simp_all add: same_shape_def\<close>)
qed (rule failed_nil)

subsection \<open>The invariant\<close>

definition topo_ok :: "scheduler \<Rightarrow> bool" where
  "topo_ok e \<longleftrightarrow>
     (\<exists>rank. entries_ranked e rank) \<and>
     (\<exists>depth :: ColRef \<Rightarrow> nat. \<forall>c p. co_parent (e_cols e c) = Some p \<longrightarrow> depth p < depth c) \<and>
     (\<forall>r c. r \<in> set (ct_members (co_tally (e_cols e c))) \<longleftrightarrow>
        (\<exists>cs. col_chain e (tk_collection (e_tasks e r)) = Some cs \<and> c \<in> set cs)) \<and>
     (\<forall>c. ct_holds (co_tally (e_cols e c)) = 0 \<and> \<not> ct_builderFailed (co_tally (e_cols e c))) \<and>
     (\<forall>c. \<forall>x\<in>set (ct_members (co_tally (e_cols e c))). tk_declaration (e_tasks e x) \<le> e_declSeq e) \<and>
     e_declSeq e \<le> throughAll"

definition tallies_ok :: "scheduler \<Rightarrow> bool" where
  "tallies_ok e \<longleftrightarrow>
     (\<forall>c. tally_ok (e_tasks e) (co_tally (e_cols e c)) \<and> parked_ok (e_tasks e) (co_tally (e_cols e c)))"

definition registered :: "scheduler \<Rightarrow> TaskRef \<Rightarrow> predecessor \<Rightarrow> bool" where
  "registered e r b \<longleftrightarrow>
     (case pd_task b of
        Some t \<Rightarrow> r \<in> set (tk_dependents (e_tasks e t))
      | None \<Rightarrow>
          (case pd_col b of
             None \<Rightarrow> False
           | Some c \<Rightarrow>
               (let (cursor, opn) = edgeCursorLocked e b c; t = co_tally (e_cols e c) in
                if opn then r \<in> set (ct_open t)
                else \<exists>cur. \<lparr>pt_st = r, pt_cursor = cur\<rparr> \<in> set (ct_parked t) \<and>
                  (\<forall>x\<in>set (ct_members t). tk_declaration (e_tasks e x) \<le> cur
                     \<longleftrightarrow> tk_declaration (e_tasks e x) \<le> cursor))))"

definition waits :: "scheduler \<Rightarrow> TaskRef \<Rightarrow> bool" where
  "waits e r \<longleftrightarrow> (\<exists>p\<in>set (tk_preds (e_tasks e r)). \<exists>b. held_by e p b \<and> registered e r b \<and> blocking e b)"

definition phases_ok :: "schedState \<Rightarrow> bool" where
  "phases_ok s \<longleftrightarrow>
     distinct (rs_order s) \<and>
     (\<forall>r. tk_phase (rs_tasks s r) \<noteq> PhaseDeclared \<longrightarrow> r \<in> set (rs_order s)) \<and>
     (\<forall>r. IsTerminalTask (tk_state (rs_tasks s r)) \<longrightarrow> \<not> schedule_awaitingStart (tk_phase (rs_tasks s r))) \<and>
     rs_closed s = {r. IsTerminalTask (tk_state (rs_tasks s r))}"

definition count_phase :: "schedState \<Rightarrow> (schedPhase \<Rightarrow> bool) \<Rightarrow> int" where
  "count_phase s P = int (length (filter (\<lambda>r. P (tk_phase (rs_tasks s r))) (rs_order s)))"

definition counts_ok :: "schedState \<Rightarrow> bool" where
  "counts_ok s \<longleftrightarrow>
     rs_parked s = count_phase s (\<lambda>p. p = PhaseParked) \<and>
     rs_wg s = count_phase s schedule_awaitingStart + rs_executing s"

definition queue_ok :: "schedState \<Rightarrow> TaskRef set \<Rightarrow> bool" where
  "queue_ok s Y \<longleftrightarrow>
     heap_ok (decl (rs_tasks s)) (rs_queue s) \<and>
     (\<forall>r. tk_phase (rs_tasks s r) = PhaseQueued \<longrightarrow> r \<in> set (rs_queue s) \<or> r \<in> Y)"

text \<open>\<open>X\<close> are the parked Tasks exempt from being registered, \<open>Y\<close> the queued ones not yet pushed.\<close>

definition sched_inv :: "schedState \<Rightarrow> TaskRef set \<Rightarrow> TaskRef set \<Rightarrow> bool" where
  "sched_inv s X Y \<longleftrightarrow>
     topo_ok (rs_e s) \<and> tallies_ok (rs_e s) \<and> phases_ok s \<and> counts_ok s \<and> queue_ok s Y \<and>
     (\<forall>r. tk_phase (rs_tasks s r) = PhaseParked \<longrightarrow> r \<in> X \<or> waits (rs_e s) r)"

lemmas sched_inv_parts = sched_inv_def topo_ok_def tallies_ok_def phases_ok_def counts_ok_def queue_ok_def

lemma shape_chain:
  assumes shape: "same_shape e e'" and depth: "\<forall>c p. co_parent (e_cols e c) = Some p \<longrightarrow> (depth p :: nat) < depth c"
  shows "col_chain e' c = col_chain e c"
proof (induction "case c of None \<Rightarrow> 0 | Some c \<Rightarrow> Suc (depth c)" arbitrary: c rule: less_induct)
  case less
  show ?case
  proof (cases c)
    case (Some d)
    have "col_chain e' (co_parent (e_cols e d)) = col_chain e (co_parent (e_cols e d))"
      using depth Some by (intro less.hyps) (auto split: option.splits)
    then show ?thesis
      using shape Some by (subst (1 2) col_chain.simps) (simp add: same_shape_def)
  qed (simp add: col_chain.simps)
qed

lemma shape_topo: "same_shape e e' \<Longrightarrow> topo_ok e \<Longrightarrow> topo_ok e'"
proof -
  assume shape: "same_shape e e'" and topo: "topo_ok e"
  then obtain depth :: "ColRef \<Rightarrow> nat" where "\<forall>c p. co_parent (e_cols e c) = Some p \<longrightarrow> depth p < depth c"
    by (auto simp: topo_ok_def)
  then have "col_chain e' c = col_chain e c" for c using shape_chain [OF shape] by blast
  with shape topo show ?thesis
    unfolding topo_ok_def entries_ranked_def by (simp add: same_shape_def)
qed

text \<open>A chain of enclosing collections is finite and repeats none.\<close>

lemma chain_returns:
  assumes depth: "\<forall>c p. co_parent (e_cols e c) = Some p \<longrightarrow> (depth p :: nat) < depth c"
  shows "\<exists>cs. col_chain e c = Some cs \<and> distinct cs \<and> (\<forall>x\<in>set cs. \<exists>d. c = Some d \<and> depth x \<le> depth d)"
proof (induction "case c of None \<Rightarrow> 0 | Some c \<Rightarrow> Suc (depth c)" arbitrary: c rule: less_induct)
  case less
  show ?case
  proof (cases c)
    case (Some d)
    let ?p = "co_parent (e_cols e d)"
    have "(case ?p of None \<Rightarrow> 0 | Some c \<Rightarrow> Suc (depth c)) < Suc (depth d)"
      using depth by (auto split: option.splits)
    then obtain cs where cs: "col_chain e ?p = Some cs" "distinct cs" "\<forall>x\<in>set cs. \<exists>q. ?p = Some q \<and> depth x \<le> depth q"
      using less Some by fastforce
    moreover have "d \<notin> set cs" "\<forall>x\<in>set cs. depth x \<le> depth d"
      using cs(3) depth by fastforce+
    ultimately show ?thesis by (auto simp: Some col_chain.simps [of e "Some d"])
  qed (simp add: col_chain.simps)
qed

subsection \<open>Settling a Task\<close>

lemma settle_tallies_value:
  "distinct cs \<Longrightarrow> settle_tallies e st cs deps =
    (e\<lparr>e_cols := \<lambda>c. if c \<in> set cs
         then (e_cols e c)\<lparr>co_tally := fst (tally_settle (e_tasks e) (co_tally (e_cols e c)) st)\<rparr>
         else e_cols e c\<rparr>,
     deps @ concat (map (\<lambda>c. snd (tally_settle (e_tasks e) (co_tally (e_cols e c)) st)) cs))"
proof (induction e st cs deps rule: settle_tallies.induct)
  case (2 e st c cs deps)
  obtain t w where tw: "tally_settle (e_tasks e) (co_tally (e_cols e c)) st = (t, w)" by force
  let ?e = "upd_tally c (\<lambda>_. t) e"
  have same: "d \<in> set cs \<Longrightarrow> e_cols ?e d = e_cols e d" for d
    using 2(2) by (auto simp: upd_tally_def)
  have tasks: "e_tasks ?e = e_tasks e" by (simp add: upd_tally_def)
  have "settle_tallies e st (c # cs) deps = settle_tallies ?e st cs (deps @ w)" by (simp add: tw)
  also have "\<dots> = (?e\<lparr>e_cols := \<lambda>d. if d \<in> set cs
         then (e_cols ?e d)\<lparr>co_tally := fst (tally_settle (e_tasks ?e) (co_tally (e_cols ?e d)) st)\<rparr>
         else e_cols ?e d\<rparr>,
     (deps @ w) @ concat (map (\<lambda>c. snd (tally_settle (e_tasks ?e) (co_tally (e_cols ?e c)) st)) cs))"
    using 2(1) [OF tw [symmetric] refl] 2(2) by simp
  also have "map (\<lambda>c. snd (tally_settle (e_tasks ?e) (co_tally (e_cols ?e c)) st)) cs
      = map (\<lambda>c. snd (tally_settle (e_tasks e) (co_tally (e_cols e c)) st)) cs"
    by (simp add: same tasks)
  also have "?e\<lparr>e_cols := \<lambda>d. if d \<in> set cs
         then (e_cols ?e d)\<lparr>co_tally := fst (tally_settle (e_tasks ?e) (co_tally (e_cols ?e d)) st)\<rparr>
         else e_cols ?e d\<rparr>
      = e\<lparr>e_cols := \<lambda>d. if d \<in> set (c # cs)
         then (e_cols e d)\<lparr>co_tally := fst (tally_settle (e_tasks e) (co_tally (e_cols e d)) st)\<rparr>
         else e_cols e d\<rparr>"
    using 2(2) tw by (auto simp: upd_tally_def fun_eq_iff)
  finally show ?case by (simp add: tw)
qed simp

text \<open>The scheduler after a settle, before anyone is woken.\<close>

definition settled_cell :: "EntityState \<Rightarrow> taskState \<Rightarrow> taskState" where
  "settled_cell state t =
     t\<lparr>tk_state := state,
       tk_phase := if schedule_awaitingStart (tk_phase t) then PhaseAbandoned else tk_phase t,
       tk_dependents := []\<rparr>"

definition settled :: "scheduler \<Rightarrow> TaskRef \<Rightarrow> EntityState \<Rightarrow> ColRef list \<Rightarrow> scheduler" where
  "settled e st state cs =
     (let m = (e_tasks e)(st := settled_cell state (e_tasks e st)) in
      e\<lparr>e_tasks := m, e_cols := \<lambda>c. if c \<in> set cs
         then (e_cols e c)\<lparr>co_tally := fst (tally_settle m (co_tally (e_cols e c)) st)\<rparr> else e_cols e c\<rparr>)"

definition settle_deps :: "scheduler \<Rightarrow> TaskRef \<Rightarrow> EntityState \<Rightarrow> ColRef list \<Rightarrow> TaskRef list" where
  "settle_deps e st state cs =
     tk_dependents (e_tasks e st) @
     concat (map (\<lambda>c. snd (tally_settle ((e_tasks e)(st := settled_cell state (e_tasks e st)))
       (co_tally (e_cols e c)) st)) cs)"

definition settled_run :: "schedState \<Rightarrow> TaskRef \<Rightarrow> EntityState \<Rightarrow> ColRef list \<Rightarrow> schedState" where
  "settled_run s st state cs =
     (let ph = tk_phase (rs_tasks s st) in
      s\<lparr>rs_e := settled (rs_e s) st state cs, rs_closed := insert st (rs_closed s),
        rs_parked := rs_parked s - (if ph = PhaseParked then 1 else 0),
        rs_wg := rs_wg s - (if schedule_awaitingStart ph then 1 else 0)\<rparr>)"

lemma settle_with_value:
  fixes state :: EntityState
  assumes "col_chain (rs_e s) (tk_collection (rs_tasks s st)) = Some cs" "distinct cs"
    "\<And>e. same_shape (rs_e s) e \<Longrightarrow> col_chain e (tk_collection (rs_tasks s st)) = Some cs"
  defines "state' \<equiv> honestState s st state"
  shows "settle_with wake s st state =
    wake (settled_run s st state' cs) (settle_deps (rs_e s) st state' cs)"
proof -
  let ?s = "settle_task s st state"
  have e: "rs_e ?s = (rs_e s)\<lparr>e_tasks := (rs_tasks s)(st := (rs_tasks s st)\<lparr>tk_state := state',
      tk_phase := if schedule_awaitingStart (tk_phase (rs_tasks s st)) then PhaseAbandoned else tk_phase (rs_tasks s st)\<rparr>)\<rparr>"
    by (simp add: settle_task_def Let_def state'_def abandonLocked_def enterPhaseLocked_def upd_task_def)
  have "same_shape (rs_e s) (rs_e ?s)" by (simp add: e same_shape_def)
  then have chain: "col_chain (rs_e ?s) (tk_collection (rs_tasks ?s st)) = Some cs"
    using assms(3) by (simp add: e)
  have m: "e_tasks (upd_task st (\<lambda>t. t\<lparr>tk_dependents := []\<rparr>) (rs_e ?s))
      = (rs_tasks s)(st := settled_cell state' (rs_tasks s st))"
    by (simp add: upd_task_def e settled_cell_def)
  have deps: "tk_dependents (rs_tasks ?s st) = tk_dependents (rs_tasks s st)" by (simp add: e)
  have cols: "e_cols (upd_task st f (rs_e ?s)) = e_cols (rs_e s)" for f by (simp add: upd_task_def e)
  have tallies: "settle_tallies (upd_task st (\<lambda>t. t\<lparr>tk_dependents := []\<rparr>) (rs_e ?s)) st cs (tk_dependents (rs_tasks s st))
      = (settled (rs_e s) st state' cs, settle_deps (rs_e s) st state' cs)"
    unfolding settle_tallies_value [OF assms(2)] settle_deps_def settled_def m cols Let_def
    by (simp add: upd_task_def e settled_cell_def)
  have "?s\<lparr>rs_e := settled (rs_e s) st state' cs\<rparr> = settled_run s st state' cs"
    by (simp add: settled_run_def settle_task_def Let_def abandonLocked_def enterPhaseLocked_def upd_task_def)
  then show ?thesis
    by (simp add: settle_with_def propagateSettleLocked_def chain deps tallies Let_def)
qed

lemma tally_settle_fields [simp]:
  "ct_members (fst (tally_settle m t st)) = ct_members t"
  "ct_sealed (fst (tally_settle m t st)) = ct_sealed t"
  "ct_sealedThrough (fst (tally_settle m t st)) = ct_sealedThrough t"
  "ct_holds (fst (tally_settle m t st)) = ct_holds t"
  "ct_builderFailed (fst (tally_settle m t st)) = ct_builderFailed t"
  by (simp_all add: tally_settle_def Let_def split: PredOutcome.split)

lemma settled_shape: "same_shape e (settled e st state cs)"
  by (simp add: same_shape_def settled_def Let_def settled_cell_def)

lemma settled_tasks: "e_tasks (settled e st state cs) = (e_tasks e)(st := settled_cell state (e_tasks e st))"
  by (simp add: settled_def Let_def)

lemma settled_tally:
  "co_tally (e_cols (settled e st state cs) c) =
    (if c \<in> set cs then fst (tally_settle ((e_tasks e)(st := settled_cell state (e_tasks e st))) (co_tally (e_cols e c)) st)
     else co_tally (e_cols e c))"
  by (simp add: settled_def Let_def)

lemma settled_same_reads:
  "same_reads (set_state m st state) (m(st := settled_cell state (m st)))"
  by (simp add: same_reads_def settled_cell_def)

lemma settled_post:
  assumes "tally_ok m t" "parked_ok m t" "st \<in> set (ct_members t)" "\<not> IsTerminalTask (tk_state (m st))"
    "IsTerminalTask state"
  defines "m' \<equiv> m(st := settled_cell state (m st))"
  shows "settle_post m t m' (tally_settle m' t st)"
proof -
  have pending: "task_outcome m st = PredPending" using assms(4) stateOutcome_terminal by blast
  have "settle_post m t (set_state m st state) (tally_settle (set_state m st state) t st)"
  proof (cases "stateOutcome state")
    case PredPending
    then show ?thesis using assms(5) stateOutcome_terminal by blast
  qed (use settle_failed_post [OF assms(1-3) pending] settle_succeeded_post [OF assms(1-3) pending] in blast)+
  then show ?thesis
    unfolding m'_def
    by (simp only: settle_post_cong [OF settled_same_reads] tally_settle_cong [OF settled_same_reads])
qed

lemma read_pending_iff:
  "collection_read e b c = Some PredPending \<longleftrightarrow>
    (let t = co_tally (e_cols e c); (cursor, opn) = edgeCursorLocked e b c in
     \<not> ct_builderFailed t \<and>
     (if opn then ct_firstFailed t = 0
      else hasMemberThrough (e_tasks e) t cursor \<and> \<not> resolved (e_tasks e) t cursor))"
  by (auto simp: collection_read_def Let_def resolved_def split: prod.splits if_splits)

lemma same_members_resolved:
  assumes "tally_ok m t"
    "\<forall>x\<in>set (ct_members t). tk_declaration (m x) \<le> a \<longleftrightarrow> tk_declaration (m x) \<le> b"
  shows "resolved m t a = resolved m t b"
  using assms(2) by (simp add: resolved_exact [OF assms(1)] cong: ball_cong bex_cong)

lemma settled_waits_collection:
  assumes inv: "tallies_ok e" "\<not> IsTerminalTask (tk_state (e_tasks e st))" "IsTerminalTask state"
    and c: "pd_task b = None" "pd_col b = Some c" and mem: "c \<in> set cs \<Longrightarrow> st \<in> set (ct_members (co_tally (e_cols e c)))"
    and reg: "registered e r b" "blocking e b"
  defines "e' \<equiv> settled e st state cs"
  shows "r \<in> set (settle_deps e st state cs) \<or> registered e' r b \<and> blocking e' b"
proof -
  let ?t = "co_tally (e_cols e c)" and ?t' = "co_tally (e_cols e' c)" and ?m' = "e_tasks e'"
  have shape: "same_shape e e'" unfolding e'_def by (rule settled_shape)
  obtain cursor opn where cur: "edgeCursorLocked e b c = (cursor, opn)" by force
  note cur' = shape_cursor [OF shape, of b c, unfolded cur]
  have fields: "ct_members ?t' = ct_members ?t" "ct_builderFailed ?t' = ct_builderFailed ?t"
      "\<And>x. tk_declaration (?m' x) = tk_declaration (e_tasks e x)"
    using shape by (simp_all add: same_shape_def)
  have ok: "tally_ok (e_tasks e) ?t" "parked_ok (e_tasks e) ?t" using inv(1) by (simp_all add: tallies_ok_def)
  have read: "\<not> ct_builderFailed ?t" "opn \<Longrightarrow> ct_firstFailed ?t = 0"
      "\<not> opn \<Longrightarrow> hasMemberThrough (e_tasks e) ?t cursor \<and> \<not> resolved (e_tasks e) ?t cursor"
    using reg(2) c by (auto simp: blocking_def read_pending_iff cur Let_def split: if_splits)
  show ?thesis
  proof (cases "c \<in> set cs")
    case False
    then have same: "?t' = ?t" by (simp add: e'_def settled_tally)
    have "registered e' r b" using reg(1) c by (simp add: registered_def cur cur' same fields(3) Let_def)
    moreover have "blocking e' b"
      using read c shape_hasMember [OF shape, of c cursor]
      by (simp add: blocking_def read_pending_iff cur' Let_def same resolved_def succeededThrough_def fields(3))
    ultimately show ?thesis by blast
  next
    case True
    let ?r = "tally_settle ?m' ?t st"
    have t': "?t' = fst ?r" using True by (simp add: e'_def settled_tally settled_tasks)
    have post: "settle_post (e_tasks e) ?t ?m' ?r"
      using settled_post [OF ok mem [OF True] inv(2,3)] by (simp add: e'_def settled_tasks)
    have deps: "set (snd ?r) \<subseteq> set (settle_deps e st state cs)"
      using True by (auto simp: settle_deps_def e'_def settled_tasks)
    show ?thesis
    proof (cases opn)
      case True
      have "r \<in> set (ct_open ?t)" using reg(1) c True by (simp add: registered_def cur Let_def)
      then show ?thesis
        using post deps True c read fields(2)
        by (cases "ct_firstFailed (fst ?r) = 0")
          (auto simp: settle_post_def registered_def blocking_def read_pending_iff cur' Let_def t')
    next
      case False
      then obtain k where k: "\<lparr>pt_st = r, pt_cursor = k\<rparr> \<in> set (ct_parked ?t)"
        "\<forall>x\<in>set (ct_members ?t). tk_declaration (e_tasks e x) \<le> k \<longleftrightarrow> tk_declaration (e_tasks e x) \<le> cursor"
        using reg(1) c by (auto simp: registered_def cur Let_def)
      show ?thesis
      proof (cases "resolved ?m' (fst ?r) k")
        case True
        then have "r \<in> set (snd ?r)" using post k(1) by (force simp: settle_post_def)
        with deps show ?thesis by blast
      next
        case unresolved: False
        then have "\<lparr>pt_st = r, pt_cursor = k\<rparr> \<in> set (ct_parked ?t')"
          using post k(1) by (simp add: settle_post_def t')
        then have "registered e' r b" using False c k(2) by (auto simp: registered_def cur' fields Let_def)
        moreover have "\<not> resolved ?m' ?t' cursor"
          using unresolved same_members_resolved [of ?m' ?t' k cursor] post k(2)
          by (simp add: settle_post_def t' fields(3))
        ultimately show ?thesis
          using False read c fields(2) shape_hasMember [OF shape, of c cursor]
          by (auto simp: blocking_def read_pending_iff cur' Let_def)
      qed
    qed
  qed
qed

lemma count_phase_change:
  assumes "distinct (rs_order s)" "st \<in> set (rs_order s)" "rs_order s' = rs_order s"
    "\<And>r. r \<noteq> st \<Longrightarrow> tk_phase (rs_tasks s' r) = tk_phase (rs_tasks s r)"
  shows "count_phase s' P = count_phase s P
    - (if P (tk_phase (rs_tasks s st)) then 1 else 0) + (if P (tk_phase (rs_tasks s' st)) then 1 else 0)"
proof -
  obtain us vs where order: "rs_order s = us @ st # vs" "st \<notin> set us" "st \<notin> set vs"
    using assms(1,2) by (metis split_list distinct.simps(2) distinct_append not_distinct_conv_prefix in_set_conv_decomp_first)
  have "filter (\<lambda>r. P (tk_phase (rs_tasks s' r))) ws = filter (\<lambda>r. P (tk_phase (rs_tasks s r))) ws"
    if "st \<notin> set ws" for ws
    using that assms(4) by (induction ws) auto
  from this [OF order(2)] this [OF order(3)] show ?thesis
    by (simp add: count_phase_def assms(3) order(1))
qed

lemma settled_inv:
  assumes inv: "sched_inv s X Y" and st: "\<not> IsTerminalTask (tk_state (rs_tasks s st))" "st \<in> set (rs_order s)"
    and fin: "IsTerminalTask state" and cs: "col_chain (rs_e s) (tk_collection (rs_tasks s st)) = Some cs"
  shows "sched_inv (settled_run s st state cs) (X \<union> set (settle_deps (rs_e s) st state cs)) Y"
proof -
  let ?e = "rs_e s" and ?e' = "settled (rs_e s) st state cs" and ?s' = "settled_run s st state cs"
  have e': "rs_e ?s' = ?e'" by (simp add: settled_run_def Let_def)
  have shape: "same_shape ?e ?e'" by (rule settled_shape)
  have members: "c \<in> set cs \<longleftrightarrow> st \<in> set (ct_members (co_tally (e_cols ?e c)))" for c
    using inv cs by (auto simp: sched_inv_def topo_ok_def)
  have others: "r \<noteq> st \<Longrightarrow> rs_tasks ?s' r = rs_tasks s r" for r by (simp add: e' settled_tasks)
  have self: "tk_state (rs_tasks ?s' st) = state" "\<not> schedule_awaitingStart (tk_phase (rs_tasks ?s' st))"
    "tk_phase (rs_tasks ?s' st) \<noteq> PhaseDeclared \<Longrightarrow> tk_phase (rs_tasks s st) \<noteq> PhaseDeclared"
    by (auto simp: e' settled_tasks settled_cell_def split: if_splits)
  have order_same: "rs_order ?s' = rs_order s" by (simp add: settled_run_def Let_def)
  have ok: "tallies_ok ?e" "phases_ok s" "counts_ok s" "queue_ok s Y" "topo_ok ?e"
    using inv by (simp_all add: sched_inv_def)
  have "tallies_ok ?e'"
    unfolding tallies_ok_def
  proof
    fix c
    have t: "tally_ok (e_tasks ?e) (co_tally (e_cols ?e c))" "parked_ok (e_tasks ?e) (co_tally (e_cols ?e c))"
      using ok(1) by (simp_all add: tallies_ok_def)
    show "tally_ok (e_tasks ?e') (co_tally (e_cols ?e' c)) \<and> parked_ok (e_tasks ?e') (co_tally (e_cols ?e' c))"
    proof (cases "c \<in> set cs")
      case True
      then show ?thesis
        using settled_post [OF t _ st(1) fin] members by (simp add: settled_tasks settled_tally settle_post_def)
    next
      case False
      then show ?thesis
        using t members tally_ok_other [of st "e_tasks ?e" "e_tasks ?e'" "co_tally (e_cols ?e c)"]
        by (simp add: settled_tasks settled_tally settled_cell_def)
    qed
  qed
  moreover have "topo_ok ?e'" using shape_topo [OF shape ok(5)] .
  moreover have "phases_ok ?s'"
    unfolding phases_ok_def
  proof (intro conjI allI impI)
    show "distinct (rs_order ?s')" using ok(2) by (simp add: phases_ok_def settled_run_def Let_def)
    show "rs_closed ?s' = {r. IsTerminalTask (tk_state (rs_tasks ?s' r))}"
      using ok(2) fin self(1) others by (auto simp: phases_ok_def settled_run_def Let_def settled_tasks settled_cell_def)
  next
    fix r assume "tk_phase (rs_tasks ?s' r) \<noteq> PhaseDeclared"
    then show "r \<in> set (rs_order ?s')"
      using ok(2) st(2) others [of r] order_same by (cases "r = st") (auto simp: phases_ok_def)
  next
    fix r assume "IsTerminalTask (tk_state (rs_tasks ?s' r))"
    then show "\<not> schedule_awaitingStart (tk_phase (rs_tasks ?s' r))"
      using ok(2) self(2) others [of r] by (cases "r = st") (auto simp: phases_ok_def)
  qed
  moreover have "counts_ok ?s'"
  proof -
    have order: "distinct (rs_order s)" "rs_order ?s' = rs_order s"
      using ok(2) by (simp_all add: phases_ok_def settled_run_def Let_def)
    have count: "count_phase ?s' P = count_phase s P
        - (if P (tk_phase (rs_tasks s st)) then 1 else 0) + (if P (tk_phase (rs_tasks ?s' st)) then 1 else 0)" for P
      using others by (intro count_phase_change order st(2)) simp
    have "tk_phase (rs_tasks ?s' st) \<noteq> PhaseParked" using self(2) by auto
    then show ?thesis
      using ok(3) self(2) unfolding counts_ok_def count by (auto simp: settled_run_def Let_def)
  qed
  moreover have "queue_ok ?s' Y"
  proof -
    have decls: "decl (rs_tasks ?s') = decl (rs_tasks s)"
      using shape by (simp add: decl_def e' same_shape_def fun_eq_iff)
    have queue: "rs_queue ?s' = rs_queue s" by (simp add: settled_run_def Let_def)
    have "tk_phase (rs_tasks ?s' r) = PhaseQueued \<Longrightarrow> tk_phase (rs_tasks s r) = PhaseQueued" for r
      using others [of r] self(2) by (cases "r = st") auto
    with ok(4) show ?thesis unfolding queue_ok_def decls queue by blast
  qed
  moreover have "r \<in> X \<union> set (settle_deps ?e st state cs) \<or> waits ?e' r"
    if parked: "tk_phase (rs_tasks ?s' r) = PhaseParked" for r
  proof -
    have r: "r \<noteq> st" using parked self(2) by auto
    then have "tk_phase (rs_tasks s r) = PhaseParked" using parked others by simp
    then consider "r \<in> X" | "waits ?e r" using inv by (auto simp: sched_inv_def)
    then show ?thesis
    proof cases
      case 2
      then obtain p b where p: "p \<in> set (tk_preds (e_tasks ?e r))" "held_by ?e p b" "registered ?e r b" "blocking ?e b"
        by (auto simp: waits_def)
      have p': "p \<in> set (tk_preds (e_tasks ?e' r))" "held_by ?e' p b"
        using p(1) r shape_held_by [OF shape p(2)] by (simp_all add: settled_tasks)
      have "r \<in> set (settle_deps ?e st state cs) \<or> registered ?e' r b \<and> blocking ?e' b"
      proof (cases "pd_task b")
        case (Some t)
        have same: "t \<noteq> st \<Longrightarrow> taskOutcomeLocked ?e' t = taskOutcomeLocked ?e t"
          using shape by (simp add: taskOutcomeLocked_def settled_tasks same_shape_def)
        show ?thesis
          using Some p(3,4) same by (cases "t = st") (auto simp: registered_def blocking_def settle_deps_def settled_tasks)
      next
        case None
        then obtain c where "pd_col b = Some c" using p(3) by (auto simp: registered_def split: option.splits)
        then show ?thesis
          using settled_waits_collection [OF ok(1) st(1) fin None _ _ p(3,4)] members by blast
      qed
      with p' show ?thesis by (auto simp: waits_def)
    qed simp
  qed
  ultimately show ?thesis by (simp add: sched_inv_def e')
qed

subsection \<open>Steps that only add registrations\<close>

definition grows :: "scheduler \<Rightarrow> scheduler \<Rightarrow> bool" where
  "grows e e' \<longleftrightarrow>
     same_shape e e' \<and>
     (\<forall>t. set (tk_dependents (e_tasks e t)) \<subseteq> set (tk_dependents (e_tasks e' t))) \<and>
     (\<forall>t. taskOutcomeLocked e t = PredPending \<longrightarrow> taskOutcomeLocked e' t = PredPending) \<and>
     (\<forall>c. set (ct_open (co_tally (e_cols e c))) \<subseteq> set (ct_open (co_tally (e_cols e' c))) \<and>
        set (ct_parked (co_tally (e_cols e c))) \<subseteq> set (ct_parked (co_tally (e_cols e' c))) \<and>
        ct_firstFailed (co_tally (e_cols e' c)) = ct_firstFailed (co_tally (e_cols e c)) \<and>
        ct_succeededPrefix (co_tally (e_cols e' c)) = ct_succeededPrefix (co_tally (e_cols e c)))"

lemma grows_resolved:
  "grows e e' \<Longrightarrow> resolved (e_tasks e') (co_tally (e_cols e' c)) cur = resolved (e_tasks e) (co_tally (e_cols e c)) cur"
  by (simp add: grows_def same_shape_def resolved_def failedThrough_def succeededThrough_def)

lemma grows_blocking:
  assumes "grows e e'" "blocking e b"
  shows "blocking e' b"
proof (cases "pd_task b")
  case None
  have shape: "same_shape e e'" using assms(1) by (simp add: grows_def)
  obtain c where c: "pd_col b = Some c" using assms(2) None by (auto simp: blocking_def split: option.splits)
  obtain cursor opn where cur: "edgeCursorLocked e b c = (cursor, opn)" by force
  have "edgeCursorLocked e' b c = (cursor, opn)" using shape_cursor [OF shape, of b c] cur by simp
  moreover have "ct_builderFailed (co_tally (e_cols e' c)) = ct_builderFailed (co_tally (e_cols e c))"
    "ct_firstFailed (co_tally (e_cols e' c)) = ct_firstFailed (co_tally (e_cols e c))"
    using assms(1) by (simp_all add: grows_def same_shape_def)
  ultimately show ?thesis
    using assms(2) None c cur shape_hasMember [OF shape, of c cursor] grows_resolved [OF assms(1), of c cursor]
    by (simp add: blocking_def read_pending_iff Let_def)
qed (use assms in \<open>auto simp: blocking_def grows_def\<close>)

lemma grows_registered:
  assumes "grows e e'" "registered e r b"
  shows "registered e' r b"
proof (cases "pd_task b")
  case None
  have shape: "same_shape e e'" using assms(1) by (simp add: grows_def)
  obtain c where c: "pd_col b = Some c" using assms(2) None by (auto simp: registered_def split: option.splits)
  obtain cursor opn where cur: "edgeCursorLocked e b c = (cursor, opn)" by force
  have cur': "edgeCursorLocked e' b c = (cursor, opn)" using shape_cursor [OF shape, of b c] cur by simp
  have members: "ct_members (co_tally (e_cols e' c)) = ct_members (co_tally (e_cols e c))"
    "tk_declaration (e_tasks e' x) = tk_declaration (e_tasks e x)" for x
    using shape by (simp_all add: same_shape_def)
  have sub: "set (ct_open (co_tally (e_cols e c))) \<subseteq> set (ct_open (co_tally (e_cols e' c)))"
    "set (ct_parked (co_tally (e_cols e c))) \<subseteq> set (ct_parked (co_tally (e_cols e' c)))"
    using assms(1) by (simp_all add: grows_def)
  show ?thesis
  proof (cases opn)
    case True
    then show ?thesis using assms(2) None c cur cur' sub(1) by (auto simp: registered_def Let_def)
  next
    case False
    then obtain k where "\<lparr>pt_st = r, pt_cursor = k\<rparr> \<in> set (ct_parked (co_tally (e_cols e' c)))"
      "\<forall>x\<in>set (ct_members (co_tally (e_cols e c))).
         tk_declaration (e_tasks e x) \<le> k \<longleftrightarrow> tk_declaration (e_tasks e x) \<le> cursor"
      using assms(2) None c cur sub(2) by (auto simp: registered_def Let_def)
    with False None c cur' show ?thesis by (auto simp: registered_def Let_def members)
  qed
qed (use assms in \<open>auto simp: registered_def grows_def\<close>)

lemma grows_waits:
  assumes "grows e e'" "tk_preds (e_tasks e' r) = tk_preds (e_tasks e r)" "waits e r"
  shows "waits e' r"
proof -
  have "same_shape e e'" using assms(1) by (simp add: grows_def)
  then show ?thesis
    using assms(2,3) grows_blocking [OF assms(1)] grows_registered [OF assms(1)] shape_held_by
    unfolding waits_def by metis
qed

lemma grows_upd_task:
  assumes "\<And>t. tk_declaration (f t) = tk_declaration t \<and> tk_collection (f t) = tk_collection t"
    "set (tk_dependents (e_tasks e st)) \<subseteq> set (tk_dependents (f (e_tasks e st)))"
    "stateOutcome (tk_state (f (e_tasks e st))) = stateOutcome (tk_state (e_tasks e st))"
    "neverDefined (f (e_tasks e st)) \<Longrightarrow> neverDefined (e_tasks e st)"
  shows "grows e (upd_task st f e)"
  using assms by (auto simp: grows_def same_shape_def upd_task_def taskOutcomeLocked_def Let_def split: if_splits)

lemma upd_task_tallies:
  assumes "tallies_ok e" "tk_state (f (e_tasks e st)) = tk_state (e_tasks e st)"
    "tk_declaration (f (e_tasks e st)) = tk_declaration (e_tasks e st)"
  shows "tallies_ok (upd_task st f e)"
proof -
  have same: "same_reads (e_tasks e) (e_tasks (upd_task st f e))"
    using assms(2,3) by (simp add: same_reads_def upd_task_def)
  have "e_cols (upd_task st f e) = e_cols e" by (simp add: upd_task_def)
  with assms(1) show ?thesis
    by (simp add: tallies_ok_def tally_ok_cong [OF same] parked_ok_cong [OF same])
qed

definition sched_core :: "schedState \<Rightarrow> TaskRef set \<Rightarrow> TaskRef set \<Rightarrow> bool" where
  "sched_core s X Y \<longleftrightarrow>
     topo_ok (rs_e s) \<and> tallies_ok (rs_e s) \<and> phases_ok s \<and> queue_ok s Y \<and>
     (\<forall>r. tk_phase (rs_tasks s r) = PhaseParked \<longrightarrow> r \<in> X \<or> waits (rs_e s) r)"

lemma sched_inv_core: "sched_inv s X Y \<longleftrightarrow> sched_core s X Y \<and> counts_ok s"
  by (auto simp: sched_inv_def sched_core_def)

text \<open>Rewriting one Task's scheduling fields, its state and declaration apart.\<close>

lemma upd_task_core:
  assumes core: "sched_core s X Y" and st: "tk_phase (f (rs_tasks s st)) \<noteq> PhaseDeclared \<Longrightarrow> st \<in> set (rs_order s)"
    and f: "\<And>t. tk_declaration (f t) = tk_declaration t \<and> tk_collection (f t) = tk_collection t \<and> tk_state (f t) = tk_state t"
      "set (tk_dependents (rs_tasks s st)) \<subseteq> set (tk_dependents (f (rs_tasks s st)))"
    and ph: "tk_phase (f (rs_tasks s st)) = PhaseDeclared \<Longrightarrow> tk_phase (rs_tasks s st) = PhaseDeclared"
      "schedule_awaitingStart (tk_phase (f (rs_tasks s st))) \<Longrightarrow> \<not> IsTerminalTask (tk_state (rs_tasks s st))"
    and same: "tk_phase (f (rs_tasks s st)) = tk_phase (rs_tasks s st) \<Longrightarrow> tk_preds (f (rs_tasks s st)) = tk_preds (rs_tasks s st) \<or> tk_phase (rs_tasks s st) \<noteq> PhaseParked \<or> st \<in> X"
    and e': "rs_e s' = upd_task st f (rs_e s)"
    and rest: "rs_order s' = rs_order s" "rs_queue s' = rs_queue s" "rs_closed s' = rs_closed s"
  shows "sched_core s'
    (if tk_phase (f (rs_tasks s st)) = tk_phase (rs_tasks s st) then X else insert st X)
    (if tk_phase (f (rs_tasks s st)) = tk_phase (rs_tasks s st) then Y else insert st Y)"
proof -
  let ?e = "rs_e s" and ?e' = "rs_e s'" and ?same = "tk_phase (f (rs_tasks s st)) = tk_phase (rs_tasks s st)"
  have grow: "grows ?e ?e'"
    unfolding e' by (rule grows_upd_task) (use f ph(1) in \<open>auto simp: neverDefined_def\<close>)
  then have shape: "same_shape ?e ?e'" by (simp add: grows_def)
  have cell: "e_tasks ?e' r = (if r = st then f (e_tasks ?e st) else e_tasks ?e r)" for r
    by (simp add: e' upd_task_def)
  have core': "topo_ok ?e" "tallies_ok ?e" "phases_ok s" "queue_ok s Y"
    using core by (simp_all add: sched_core_def)
  have "topo_ok ?e'" using shape_topo [OF shape core'(1)] .
  moreover have "tallies_ok ?e'" unfolding e' by (rule upd_task_tallies [OF core'(2)]) (use f in simp_all)
  moreover have "phases_ok s'"
    using core'(3) ph f st unfolding phases_ok_def rest by (auto simp: cell split: if_splits)
  moreover have "queue_ok s' (if ?same then Y else insert st Y)"
  proof -
    have "decl (rs_tasks s') = decl (rs_tasks s)" using f by (auto simp: decl_def cell fun_eq_iff)
    then show ?thesis using core'(4) unfolding queue_ok_def rest by (auto simp: cell)
  qed
  moreover have "r \<in> (if ?same then X else insert st X) \<or> waits ?e' r" if "tk_phase (rs_tasks s' r) = PhaseParked" for r
  proof (cases "r = st \<and> \<not> ?same")
    case False
    then have "tk_phase (rs_tasks s r) = PhaseParked" using that by (auto simp: cell split: if_splits)
    then have "r \<in> X \<or> waits ?e r" using core by (auto simp: sched_core_def)
    moreover have "r \<in> X \<or> tk_preds (e_tasks ?e' r) = tk_preds (e_tasks ?e r)"
      using False same \<open>tk_phase (rs_tasks s r) = PhaseParked\<close> by (auto simp: cell)
    ultimately show ?thesis using grows_waits [OF grow] by auto
  qed simp
  ultimately show ?thesis by (simp add: sched_core_def)
qed

lemma enter_phase_core:
  assumes "sched_core s X Y" "st \<in> set (rs_order s)" "\<not> IsTerminalTask (tk_state (rs_tasks s st))" "ph \<noteq> PhaseDeclared"
  shows "sched_core (enterPhaseLocked s st ph) (insert st X) (insert st Y)"
proof -
  have "sched_core (enterPhaseLocked s st ph)
    (if ph = tk_phase (rs_tasks s st) then X else insert st X)
    (if ph = tk_phase (rs_tasks s st) then Y else insert st Y)"
    using upd_task_core [OF assms(1), of "\<lambda>t. t\<lparr>tk_phase := ph\<rparr>" st "enterPhaseLocked s st ph"] assms(2-4)
    by (simp add: enterPhaseLocked_def)
  then show ?thesis by (auto simp: sched_core_def queue_ok_def split: if_splits)
qed

lemma enter_phase_counts:
  assumes "phases_ok s" "st \<in> set (rs_order s)"
  shows "count_phase (enterPhaseLocked s st ph) P =
    count_phase s P - (if P (tk_phase (rs_tasks s st)) then 1 else 0) + (if P ph then 1 else 0)"
proof -
  have "distinct (rs_order s)" using assms(1) by (simp add: phases_ok_def)
  then have "count_phase (enterPhaseLocked s st ph) P = count_phase s P
    - (if P (tk_phase (rs_tasks s st)) then 1 else 0)
    + (if P (tk_phase (rs_tasks (enterPhaseLocked s st ph) st)) then 1 else 0)"
    by (rule count_phase_change [OF _ assms(2)]) (simp_all add: enterPhaseLocked_def upd_task_def)
  then show ?thesis by (simp add: enterPhaseLocked_def upd_task_def)
qed

lemma enterPhase_fields [simp]:
  "rs_order (enterPhaseLocked s st ph) = rs_order s" "rs_queue (enterPhaseLocked s st ph) = rs_queue s"
  "rs_woken (enterPhaseLocked s st ph) = rs_woken s" "rs_waking (enterPhaseLocked s st ph) = rs_waking s"
  "rs_wg (enterPhaseLocked s st ph) = rs_wg s" "rs_executing (enterPhaseLocked s st ph) = rs_executing s"
  "rs_closed (enterPhaseLocked s st ph) = rs_closed s" "rs_cancelled (enterPhaseLocked s st ph) = rs_cancelled s"
  "rs_problems (enterPhaseLocked s st ph) = rs_problems s" "rs_inflight (enterPhaseLocked s st ph) = rs_inflight s"
  "rs_ended (enterPhaseLocked s st ph) = rs_ended s"
  "rs_maxConcurrency (enterPhaseLocked s st ph) = rs_maxConcurrency s" "rs_procs (enterPhaseLocked s st ph) = rs_procs s"
  "tk_phase (rs_tasks (enterPhaseLocked s st ph) r) = (if r = st then ph else tk_phase (rs_tasks s r))"
  "tk_state (rs_tasks (enterPhaseLocked s st ph) r) = tk_state (rs_tasks s r)"
  "tk_preds (rs_tasks (enterPhaseLocked s st ph) r) = tk_preds (rs_tasks s r)"
  "rs_parked (enterPhaseLocked s st ph) =
     rs_parked s - (if tk_phase (rs_tasks s st) = PhaseParked then 1 else 0) + (if ph = PhaseParked then 1 else 0)"
  by (simp_all add: enterPhaseLocked_def upd_task_def)

lemma enter_phase_inv:
  assumes "sched_inv s X Y" "st \<in> set (rs_order s)" "\<not> IsTerminalTask (tk_state (rs_tasks s st))"
    "schedule_awaitingStart (tk_phase (rs_tasks s st))" "schedule_awaitingStart ph"
  shows "sched_inv (enterPhaseLocked s st ph) (insert st X) (insert st Y)"
proof -
  have "phases_ok s" "counts_ok s" "ph \<noteq> PhaseDeclared" using assms(1,5) by (auto simp: sched_inv_def)
  then show ?thesis
    using enter_phase_core [OF _ assms(2,3)] assms
    by (simp add: sched_inv_core counts_ok_def enter_phase_counts)
qed

subsection \<open>Placing a Task\<close>

lemma count_phase_same:
  "rs_order s' = rs_order s \<Longrightarrow> (\<And>r. tk_phase (rs_tasks s' r) = tk_phase (rs_tasks s r)) \<Longrightarrow>
   count_phase s' P = count_phase s P"
  by (simp add: count_phase_def)

lemma upd_task_inv:
  assumes "sched_inv s X Y"
    and f: "\<And>t. tk_declaration (f t) = tk_declaration t \<and> tk_collection (f t) = tk_collection t
        \<and> tk_state (f t) = tk_state t \<and> tk_phase (f t) = tk_phase t"
      "set (tk_dependents (rs_tasks s st)) \<subseteq> set (tk_dependents (f (rs_tasks s st)))"
    and "tk_preds (f (rs_tasks s st)) = tk_preds (rs_tasks s st) \<or> tk_phase (rs_tasks s st) \<noteq> PhaseParked \<or> st \<in> X"
  shows "sched_inv (s\<lparr>rs_e := upd_task st f (rs_e s)\<rparr>) X Y"
proof -
  let ?s' = "s\<lparr>rs_e := upd_task st f (rs_e s)\<rparr>"
  have core: "sched_core s X Y" "counts_ok s" "phases_ok s" using assms(1) by (auto simp: sched_inv_core sched_core_def)
  have ph: "tk_phase (f (rs_tasks s st)) = tk_phase (rs_tasks s st)" using f(1) by blast
  have "sched_core ?s'
    (if tk_phase (f (rs_tasks s st)) = tk_phase (rs_tasks s st) then X else insert st X)
    (if tk_phase (f (rs_tasks s st)) = tk_phase (rs_tasks s st) then Y else insert st Y)"
  proof (rule upd_task_core [OF core(1)])
    show "st \<in> set (rs_order s)" if "tk_phase (f (rs_tasks s st)) \<noteq> PhaseDeclared"
      using core(3) that unfolding ph phases_ok_def by blast
    show "\<not> IsTerminalTask (tk_state (rs_tasks s st))" if "schedule_awaitingStart (tk_phase (f (rs_tasks s st)))"
      using core(3) that unfolding ph phases_ok_def by blast
  qed (use f assms(4) ph in auto)
  then have "sched_core ?s' X Y" unfolding ph by simp
  moreover have "count_phase ?s' P = count_phase s P" for P
    using f(1) by (intro count_phase_same) (simp_all add: upd_task_def)
  ultimately show ?thesis using core(2) by (simp add: sched_inv_core counts_ok_def)
qed

lemma preds_inv:
  assumes "sched_inv s X Y" "predsOutcomeLocked (rs_e s) st scan = Some (v, b, e')"
    "tk_phase (rs_tasks s st) = PhaseParked \<Longrightarrow> st \<in> X"
  shows "sched_inv (s\<lparr>rs_e := e'\<rparr>) X Y" "\<exists>kept. e' = upd_task st (\<lambda>t. t\<lparr>tk_preds := kept\<rparr>) (rs_e s)"
proof -
  obtain kept where e': "e' = upd_task st (\<lambda>t. t\<lparr>tk_preds := kept\<rparr>) (rs_e s)"
    using assms(2) by (auto simp: predsOutcomeLocked_def bind_eq_Some_conv upd_task_def)
  then show "\<exists>kept. e' = upd_task st (\<lambda>t. t\<lparr>tk_preds := kept\<rparr>) (rs_e s)" by blast
  show "sched_inv (s\<lparr>rs_e := e'\<rparr>) X Y"
    unfolding e' by (rule upd_task_inv [OF assms(1)]) (use assms(3) in auto)
qed

lemma push_inv:
  assumes "sched_inv s X Y" "tk_phase (rs_tasks s st) = PhaseQueued"
  shows "sched_inv (s\<lparr>rs_queue := queue_push (rs_tasks s) (rs_queue s) st\<rparr>) (X - {st}) (Y - {st})"
proof -
  let ?s' = "s\<lparr>rs_queue := queue_push (rs_tasks s) (rs_queue s) st\<rparr>"
  have q: "heap_ok (decl (rs_tasks s)) (rs_queue s)" using assms(1) by (simp add: sched_inv_def queue_ok_def)
  have "set (queue_push (rs_tasks s) (rs_queue s) st) = insert st (set (rs_queue s))"
    using heap_push_spec(2) [OF q, of st] by (metis queue_push_def set_mset_mset set_mset_add_mset_insert)
  then have "queue_ok ?s' (Y - {st})"
    using assms(1) heap_push_spec(1) [OF q, of st] by (auto simp: sched_inv_def queue_ok_def queue_push_def)
  moreover have "phases_ok ?s'" "counts_ok ?s'"
    using assms(1) by (simp_all add: sched_inv_def phases_ok_def counts_ok_def count_phase_def)
  ultimately show ?thesis
    using assms by (auto simp: sched_inv_def)
qed

lemma park_task_inv:
  assumes "sched_inv s X Y"
  shows "sched_inv (s\<lparr>rs_e := upd_task t (\<lambda>x. x\<lparr>tk_dependents := tk_dependents x @ [st]\<rparr>) (rs_e s)\<rparr>) X Y"
  by (rule upd_task_inv [OF assms]) auto

lemma insertAfterOrder_set:
  assumes "sorted_wrt (\<lambda>x y. order x \<le> order y) items"
  shows "set (insertAfterOrder items item order) = insert item (set items)"
proof -
  have "set items = set (takeWhile (\<lambda>x. order x \<le> order item) items) \<union> set (dropWhile (\<lambda>x. order x \<le> order item) items)"
    by (metis set_append takeWhile_dropWhile_id)
  then show ?thesis by (simp add: insertAfterOrder_split [OF assms])
qed

lemma grows_park:
  assumes "tallies_ok e"
  shows "grows e (upd_tally c (\<lambda>t. park t st cursor opn) e)"
proof -
  have "sorted_wrt (\<lambda>p q. pt_cursor p \<le> pt_cursor q) (ct_parked (co_tally (e_cols e c)))"
    using assms parked_ok_sorted(1) by (auto simp: tallies_ok_def)
  from insertAfterOrder_set [OF this] show ?thesis
    unfolding grows_def same_shape_def upd_tally_def park_def by (auto simp: taskOutcomeLocked_def)
qed

lemma park_tallies:
  assumes "tallies_ok e" "\<not> ct_builderFailed (co_tally (e_cols e c))"
    "if opn then ct_firstFailed (co_tally (e_cols e c)) = 0 else \<not> resolved (e_tasks e) (co_tally (e_cols e c)) cursor"
  shows "tallies_ok (upd_tally c (\<lambda>t. park t st cursor opn) e)"
  using assms(1) park_ok [OF _ _ assms(2), of "e_tasks e" opn cursor st] assms(3)
  by (auto simp: tallies_ok_def upd_tally_def)

lemma park_on_inv:
  assumes inv: "sched_inv s X Y" and b: "p \<in> set (tk_preds (rs_tasks s st))" "held_by (rs_e s) p b" "blocking (rs_e s) b"
  shows "sched_inv (park_on s b st) (X - {st}) Y"
proof -
  let ?s' = "park_on s b st"
  have same: "tk_phase (rs_tasks ?s' r) = tk_phase (rs_tasks s r)" "tk_preds (rs_tasks ?s' r) = tk_preds (rs_tasks s r)" for r
    by (simp_all add: park_on_def upd_task_def upd_tally_def split: option.splits prod.splits)
  have grow: "grows (rs_e s) (rs_e ?s')" and reg: "registered (rs_e ?s') st b" and inv': "sched_inv ?s' X Y"
  proof (atomize (full), cases "pd_task b")
    case (Some t)
    then show "grows (rs_e s) (rs_e ?s') \<and> registered (rs_e ?s') st b \<and> sched_inv ?s' X Y"
      using park_task_inv [OF inv, of t st] grows_upd_task [of "\<lambda>x. x\<lparr>tk_dependents := tk_dependents x @ [st]\<rparr>" "rs_e s" t]
      by (auto simp: park_on_def registered_def upd_task_def neverDefined_def)
  next
    case None
    then obtain c where c: "pd_col b = Some c" using b(3) by (auto simp: blocking_def split: option.splits)
    obtain cursor opn where cur: "edgeCursorLocked (rs_e s) b c = (cursor, opn)" by force
    define e where "e = upd_tally c (\<lambda>t. park t st cursor opn) (rs_e s)"
    have s': "?s' = s\<lparr>rs_e := e\<rparr>" using None c by (simp add: park_on_def cur e_def)
    have ok: "tallies_ok (rs_e s)" using inv by (simp add: sched_inv_def)
    have grow: "grows (rs_e s) e" unfolding e_def by (rule grows_park [OF ok])
    then have shape: "same_shape (rs_e s) e" by (simp add: grows_def)
    have "collection_read (rs_e s) b c = Some PredPending" using b(3) None c by (simp add: blocking_def)
    then have read: "\<not> ct_builderFailed (rs_tally s c)"
      "if opn then ct_firstFailed (rs_tally s c) = 0 else \<not> resolved (rs_tasks s) (rs_tally s c) cursor"
      by (simp_all add: read_pending_iff cur Let_def split: if_splits)
    have "tallies_ok e" unfolding e_def by (rule park_tallies [OF ok read])
    moreover have "topo_ok e" using inv shape_topo [OF shape] by (simp add: sched_inv_def)
    moreover have cells: "e_tasks e = rs_tasks s" by (simp add: e_def upd_tally_def)
    moreover have "waits (rs_e s) r \<Longrightarrow> waits e r" for r using grows_waits [OF grow] cells by simp
    ultimately have "sched_inv ?s' X Y"
      using inv unfolding s'
      by (auto simp: sched_inv_def phases_ok_def counts_ok_def queue_ok_def count_phase_def)
    moreover have "registered e st b"
    proof -
      have sorted: "sorted_wrt (\<lambda>p q. pt_cursor p \<le> pt_cursor q) (ct_parked (rs_tally s c))"
        using ok parked_ok_sorted(1) by (auto simp: tallies_ok_def)
      have "co_tally (e_cols e c) = park (rs_tally s c) st cursor opn" by (simp add: e_def upd_tally_def)
      moreover have "edgeCursorLocked e b c = (cursor, opn)" using shape_cursor [OF shape] cur by simp
      ultimately show ?thesis
        using None c insertAfterOrder_set [OF sorted] by (auto simp: registered_def park_def Let_def)
    qed
    ultimately show "grows (rs_e s) (rs_e ?s') \<and> registered (rs_e ?s') st b \<and> sched_inv ?s' X Y"
      using grow by (simp add: s')
  qed
  have "same_shape (rs_e s) (rs_e ?s')" using grow by (simp add: grows_def)
  then have "waits (rs_e ?s') st"
    using b reg grows_blocking [OF grow] same shape_held_by unfolding waits_def by metis
  then show ?thesis using inv' by (auto simp: sched_inv_def)
qed

text \<open>What a settle, a place or a wake leaves alone in the run, and what it may do to a row.\<close>

definition same_run :: "schedState \<Rightarrow> schedState \<Rightarrow> bool" where
  "same_run s s' \<longleftrightarrow>
     same_shape (rs_e s) (rs_e s') \<and> rs_order s' = rs_order s \<and> rs_cancelled s' = rs_cancelled s \<and>
     rs_ended s' = rs_ended s \<and> rs_inflight s' = rs_inflight s \<and> rs_maxObserved s' = rs_maxObserved s \<and>
     rs_executing s' = rs_executing s \<and> rs_claims s' = rs_claims s \<and>
     rs_maxConcurrency s' = rs_maxConcurrency s \<and> rs_procs s' = rs_procs s \<and> rs_problems s' = rs_problems s"

definition only_stops :: "schedState \<Rightarrow> schedState \<Rightarrow> bool" where
  "only_stops s s' \<longleftrightarrow>
     (\<forall>r. tk_state (rs_tasks s' r) = tk_state (rs_tasks s r)
        \<or> \<not> IsTerminalTask (tk_state (rs_tasks s r)) \<and> tk_state (rs_tasks s' r) = NotStarted
          \<and> schedule_awaitingStart (tk_phase (rs_tasks s r)) \<and> doomed (rs_e s') r)
     \<and> (\<forall>r. IsTerminalTask (tk_state (rs_tasks s r)) \<longrightarrow> tk_preds (rs_tasks s' r) = tk_preds (rs_tasks s r))
     \<and> (\<forall>r. \<not> schedule_awaitingStart (tk_phase (rs_tasks s r)) \<longrightarrow> tk_phase (rs_tasks s' r) = tk_phase (rs_tasks s r))"

definition no_new_phases :: "schedState \<Rightarrow> schedState \<Rightarrow> bool" where
  "no_new_phases s s' \<longleftrightarrow>
     (\<forall>r. tk_phase (rs_tasks s' r) = PhaseParked \<longrightarrow> tk_phase (rs_tasks s r) = PhaseParked) \<and>
     (\<forall>r. tk_phase (rs_tasks s' r) = PhaseRunning \<longrightarrow> tk_phase (rs_tasks s r) = PhaseRunning)"

lemma no_new_phases_refl [simp]: "no_new_phases s s"
  by (simp add: no_new_phases_def)

lemma no_new_phases_trans: "no_new_phases a b \<Longrightarrow> no_new_phases b c \<Longrightarrow> no_new_phases a c"
  by (simp add: no_new_phases_def)

definition live :: "schedState \<Rightarrow> nat" where
  "live s = length (filter (\<lambda>r. \<not> IsTerminalTask (tk_state (rs_tasks s r))) (rs_order s))"

lemma same_run_refl [simp]: "same_run s s" and only_stops_refl [simp]: "only_stops s s"
  by (simp_all add: same_run_def only_stops_def)

lemma same_run_trans: "same_run a b \<Longrightarrow> same_run b c \<Longrightarrow> same_run a c"
  unfolding same_run_def using same_shape_trans by metis

lemma only_stops_fails:
  assumes "only_stops s s'" "same_shape (rs_e s) (rs_e s')"
  shows "fails_stay (rs_e s) (rs_e s')"
proof -
  have failed: "task_outcome (rs_tasks s') t = PredFailed" if "task_outcome (rs_tasks s) t = PredFailed" for t
  proof -
    have "IsTerminalTask (tk_state (rs_tasks s t))" using that by (cases "tk_state (rs_tasks s t)") (simp_all add: stateOutcome.simps)
    then show ?thesis using that assms(1) unfolding only_stops_def by metis
  qed
  have "taskOutcomeLocked (rs_e s') t = PredFailed" if t: "taskOutcomeLocked (rs_e s) t = PredFailed" for t
  proof (cases "task_outcome (rs_tasks s) t = PredFailed")
    case False
    then have "task_outcome (rs_tasks s) t = PredPending" "e_draining (rs_e s)" "neverDefined (rs_tasks s t)"
      using t by (auto simp: taskOutcomeLocked_def Let_def split: if_splits)
    moreover from this have "tk_state (rs_tasks s' t) = tk_state (rs_tasks s t)" "tk_phase (rs_tasks s' t) = tk_phase (rs_tasks s t)"
      using assms(1) by (auto simp: only_stops_def neverDefined_def)
    ultimately show ?thesis using assms(2) by (simp add: taskOutcomeLocked_def neverDefined_def same_shape_def)
  qed (use failed in \<open>simp add: taskOutcomeLocked_def\<close>)
  with failed show ?thesis by (simp add: fails_stay_def)
qed

lemma doomed_stays:
  assumes "doomed (rs_e s) r" "IsTerminalTask (tk_state (rs_tasks s r))" "only_stops s s'" "same_shape (rs_e s) (rs_e s')"
  shows "doomed (rs_e s') r"
proof -
  have "tk_preds (rs_tasks s' r) = tk_preds (rs_tasks s r)" using assms(2,3) by (simp add: only_stops_def)
  then show ?thesis
    using assms(1) failed_pred_stays [OF assms(4) only_stops_fails [OF assms(3,4)]] by (auto simp: doomed_def)
qed

lemma only_stops_trans:
  assumes "only_stops a b" "only_stops b c" "same_run b c"
  shows "only_stops a c"
proof -
  have shape: "same_shape (rs_e b) (rs_e c)" using assms(3) by (simp add: same_run_def)
  have "tk_state (rs_tasks c r) = tk_state (rs_tasks a r)
      \<or> \<not> IsTerminalTask (tk_state (rs_tasks a r)) \<and> tk_state (rs_tasks c r) = NotStarted
        \<and> schedule_awaitingStart (tk_phase (rs_tasks a r)) \<and> doomed (rs_e c) r" for r
  proof (cases "tk_state (rs_tasks b r) = tk_state (rs_tasks a r)")
    case True
    then show ?thesis using assms(1,2) unfolding only_stops_def by metis
  next
    case False
    then have b: "\<not> IsTerminalTask (tk_state (rs_tasks a r))" "tk_state (rs_tasks b r) = NotStarted"
      "schedule_awaitingStart (tk_phase (rs_tasks a r))" "doomed (rs_e b) r"
      using assms(1) unfolding only_stops_def by blast+
    moreover have "doomed (rs_e c) r" by (rule doomed_stays [OF b(4) _ assms(2) shape]) (simp add: b(2))
    moreover have "tk_state (rs_tasks c r) = tk_state (rs_tasks b r)"
      using assms(2) b(2) unfolding only_stops_def by (metis IsTerminalTask.simps(6))
    ultimately show ?thesis by simp
  qed
  moreover have "tk_preds (rs_tasks c r) = tk_preds (rs_tasks a r)" if "IsTerminalTask (tk_state (rs_tasks a r))" for r
    using that assms(1,2) unfolding only_stops_def by metis
  moreover have "tk_phase (rs_tasks c r) = tk_phase (rs_tasks a r)" if "\<not> schedule_awaitingStart (tk_phase (rs_tasks a r))" for r
    using that assms(1,2) unfolding only_stops_def by metis
  ultimately show ?thesis unfolding only_stops_def by blast
qed

lemma live_mono:
  assumes "rs_order s' = rs_order s"
    "\<And>r. IsTerminalTask (tk_state (rs_tasks s r)) \<Longrightarrow> IsTerminalTask (tk_state (rs_tasks s' r))"
  shows "live s' \<le> live s"
proof -
  have "length (filter (\<lambda>r. \<not> IsTerminalTask (tk_state (rs_tasks s' r))) xs)
      \<le> length (filter (\<lambda>r. \<not> IsTerminalTask (tk_state (rs_tasks s r))) xs)" for xs
    using assms(2) by (induction xs) (auto simp: le_SucI)
  then show ?thesis by (simp add: live_def assms(1))
qed

lemma live_strict:
  assumes "rs_order s' = rs_order s"
    "\<And>r. IsTerminalTask (tk_state (rs_tasks s r)) \<Longrightarrow> IsTerminalTask (tk_state (rs_tasks s' r))"
    "st \<in> set (rs_order s)" "\<not> IsTerminalTask (tk_state (rs_tasks s st))" "IsTerminalTask (tk_state (rs_tasks s' st))"
  shows "live s' < live s"
proof -
  let ?P = "\<lambda>s r. \<not> IsTerminalTask (tk_state (rs_tasks s r))"
  have le: "length (filter (?P s') xs) \<le> length (filter (?P s) xs)" for xs
    using assms(2) by (induction xs) (auto simp: le_SucI)
  obtain us vs where "rs_order s = us @ st # vs" using assms(3) by (meson split_list)
  with le [of us] le [of vs] assms(4,5) show ?thesis by (simp add: live_def assms(1))
qed

lemma inv_chain:
  assumes "sched_inv s X Y"
  obtains cs where "col_chain (rs_e s) c = Some cs" "distinct cs"
    "\<And>e. same_shape (rs_e s) e \<Longrightarrow> col_chain e c = Some cs"
proof -
  obtain depth :: "ColRef \<Rightarrow> nat" where depth: "\<forall>c p. co_parent (e_cols (rs_e s) c) = Some p \<longrightarrow> depth p < depth c"
    using assms by (auto simp: sched_inv_def topo_ok_def)
  then obtain cs where "col_chain (rs_e s) c = Some cs" "distinct cs"
    using chain_returns [OF depth] by blast
  then show ?thesis using that shape_chain [OF _ depth] by metis
qed

lemma settled_run_fields:
  "same_run s (settled_run s st state cs)" "rs_woken (settled_run s st state cs) = rs_woken s"
  "rs_waking (settled_run s st state cs) = rs_waking s" "rs_queue (settled_run s st state cs) = rs_queue s"
  "rs_tasks (settled_run s st state cs) = (rs_tasks s)(st := settled_cell state (rs_tasks s st))"
  using settled_shape by (simp_all add: same_run_def settled_run_def Let_def settled_tasks)

lemma honestState_terminal: "IsTerminalTask state \<Longrightarrow> IsTerminalTask (honestState s st state)"
  by (simp add: honestState_def)

lemma settle_core:
  assumes inv: "sched_inv s X Y" and st: "\<not> IsTerminalTask (tk_state (rs_tasks s st))" "st \<in> set (rs_order s)"
    and fin: "IsTerminalTask state"
  obtains s1 deps where "\<And>wake. settle_with wake s st state = wake s1 deps"
    "sched_inv s1 ((X - {st}) \<union> set deps) (Y - {st})" "same_run s s1" "rs_woken s1 = rs_woken s"
    "rs_waking s1 = rs_waking s" "rs_queue s1 = rs_queue s" "live s1 < live s"
    "rs_tasks s1 = (rs_tasks s)(st := settled_cell (honestState s st state) (rs_tasks s st))"
proof -
  obtain cs where cs: "col_chain (rs_e s) (tk_collection (rs_tasks s st)) = Some cs" "distinct cs"
    "\<And>e. same_shape (rs_e s) e \<Longrightarrow> col_chain e (tk_collection (rs_tasks s st)) = Some cs"
    using inv_chain [OF inv] by metis
  define state' where "state' = honestState s st state"
  have fin': "IsTerminalTask state'" using fin honestState_terminal by (simp add: state'_def)
  let ?s1 = "settled_run s st state' cs" and ?deps = "settle_deps (rs_e s) st state' cs"
  have "sched_inv ?s1 (X \<union> set ?deps) Y" by (rule settled_inv [OF inv st fin' cs(1)])
  moreover have "\<not> schedule_awaitingStart (tk_phase (rs_tasks ?s1 st))"
    by (simp add: settled_run_fields settled_cell_def)
  ultimately have "sched_inv ?s1 ((X - {st}) \<union> set ?deps) (Y - {st})"
    by (auto simp: sched_inv_def queue_ok_def)
  moreover have "live ?s1 < live s"
    using st fin' by (intro live_strict [of _ _ st]) (auto simp: settled_tasks settled_cell_def settled_run_def Let_def)
  moreover have "settle_with wake s st state = wake ?s1 ?deps" for wake
    unfolding state'_def by (rule settle_with_value [OF cs(1,2)]) (rule cs(3))
  ultimately show ?thesis
    using that [of ?s1 ?deps] settled_run_fields [of s st state' cs] unfolding state'_def by blast
qed

lemma settle_only_stops:
  assumes "rs_tasks s1 = (rs_tasks s)(st := settled_cell NotStarted (rs_tasks s st))"
    "\<not> IsTerminalTask (tk_state (rs_tasks s st))" "schedule_awaitingStart (tk_phase (rs_tasks s st))" "doomed (rs_e s1) st"
  shows "only_stops s s1"
  using assms by (auto simp: only_stops_def settled_cell_def)

lemma settle_fails:
  assumes "rs_tasks s1 = (rs_tasks s)(st := settled_cell state (rs_tasks s st))"
    "\<not> IsTerminalTask (tk_state (rs_tasks s st))" "stateOutcome state = PredFailed" "same_shape (rs_e s) (rs_e s1)"
  shows "fails_stay (rs_e s) (rs_e s1)"
  using assms by (auto simp: fails_stay_def taskOutcomeLocked_def same_shape_def settled_cell_def Let_def)

lemma inv_entries: "sched_inv s X Y \<Longrightarrow> \<exists>rank. entries_ranked (rs_e s) rank"
  by (simp add: sched_inv_def topo_ok_def)

lemma park_on_preds [simp]: "tk_preds (rs_tasks (park_on s b st) r) = tk_preds (rs_tasks s r)"
  by (simp add: park_on_def upd_task_def upd_tally_def split: option.splits prod.splits)

lemma park_on_fields [simp]:
  "rs_order (park_on s b st) = rs_order s" "rs_woken (park_on s b st) = rs_woken s"
  "rs_waking (park_on s b st) = rs_waking s" "rs_queue (park_on s b st) = rs_queue s"
  "tk_state (rs_tasks (park_on s b st) r) = tk_state (rs_tasks s r)"
  "tk_phase (rs_tasks (park_on s b st) r) = tk_phase (rs_tasks s r)"
  by (simp_all add: park_on_def upd_task_def upd_tally_def split: option.splits prod.splits)

lemma park_on_run: "same_run s (park_on s b st)"
  by (auto simp: park_on_def same_run_def same_shape_def upd_task_def upd_tally_def park_def
      split: option.splits prod.splits)

text \<open>
  Placing queues or parks the Task, or settles it NotStarted and hands on whom to wake.
\<close>

lemma place_core:
  assumes inv: "sched_inv s X Y" and st: "\<not> IsTerminalTask (tk_state (rs_tasks s st))" "st \<in> set (rs_order s)"
    "schedule_awaitingStart (tk_phase (rs_tasks s st))"
    and exempt: "tk_phase (rs_tasks s st) = PhaseParked \<Longrightarrow> st \<in> X"
  obtains (placed) s1 where "\<And>wake. place_with wake s st scan = Some s1" "sched_inv s1 (X - {st}) (Y - {st})"
      "same_run s s1" "only_stops s s1" "live s1 = live s" "rs_woken s1 = rs_woken s" "rs_waking s1 = rs_waking s"
      "rs_queue s1 = rs_queue s \<or> (\<exists>e. predsOutcomeLocked (rs_e s) st scan = Some (PredSucceeded, e))"
      "\<And>r. r \<noteq> st \<Longrightarrow> tk_phase (rs_tasks s1 r) = tk_phase (rs_tasks s r)" "tk_phase (rs_tasks s1 st) \<noteq> PhaseRunning"
    | (stopped) s1 deps where "\<And>wake. place_with wake s st scan = wake s1 deps"
      "sched_inv s1 ((X - {st}) \<union> set deps) (Y - {st})"
      "same_run s s1" "only_stops s s1" "live s1 < live s" "rs_woken s1 = rs_woken s" "rs_waking s1 = rs_waking s"
      "no_new_phases s s1"
proof -
  obtain rank where rank: "entries_ranked (rs_e s) rank" using inv_entries [OF inv] by blast
  obtain v b e' where preds: "predsOutcomeLocked (rs_e s) st scan = Some (v, b, e')"
    using preds_loop_returns [OF rank, of scan "tk_preds (rs_tasks s st)" PredSucceeded no_pred "[]"]
    by (auto simp: predsOutcomeLocked_def)
  define s0 where "s0 = s\<lparr>rs_e := e'\<rparr>"
  obtain kept where e': "e' = upd_task st (\<lambda>t. t\<lparr>tk_preds := kept\<rparr>) (rs_e s)"
    using preds_inv(2) [OF inv preds] exempt by blast
  have inv0: "sched_inv s0 X Y" unfolding s0_def by (rule preds_inv(1) [OF inv preds]) (use exempt in blast)
  have s0: "tk_state (rs_tasks s0 r) = tk_state (rs_tasks s r)" "tk_phase (rs_tasks s0 r) = tk_phase (rs_tasks s r)"
    "rs_order s0 = rs_order s" "rs_queue s0 = rs_queue s" "rs_woken s0 = rs_woken s" "rs_waking s0 = rs_waking s" for r
    by (simp_all add: s0_def e' upd_task_def)
  have preds0: "r \<noteq> st \<Longrightarrow> tk_preds (rs_tasks s0 r) = tk_preds (rs_tasks s r)" for r by (simp add: s0_def e' upd_task_def)
  have run0: "same_run s s0" by (simp add: s0_def e' same_run_def same_shape_def upd_task_def)
  have live0: "live s0 = live s" by (simp add: live_def s0)
  have st0: "\<not> IsTerminalTask (tk_state (rs_tasks s0 st))" "st \<in> set (rs_order s0)"
    "schedule_awaitingStart (tk_phase (rs_tasks s0 st))" using st by (simp_all add: s0)
  have phase: "sched_inv (enterPhaseLocked s0 st ph) (insert st X) (insert st Y)"
    if "schedule_awaitingStart ph" for ph
    by (rule enter_phase_inv [OF inv0 st0(2,1,3) that])
  have phase_run: "same_run s (enterPhaseLocked s0 st ph)" for ph
    by (rule same_run_trans [OF run0]) (simp add: same_run_def enterPhaseLocked_def same_shape_def upd_task_def)
  have stops: "only_stops s s1" if "\<And>r. tk_state (rs_tasks s1 r) = tk_state (rs_tasks s r)"
    "\<And>r. r \<noteq> st \<Longrightarrow> tk_phase (rs_tasks s1 r) = tk_phase (rs_tasks s r)"
    "\<And>r. r \<noteq> st \<Longrightarrow> tk_preds (rs_tasks s1 r) = tk_preds (rs_tasks s r)" for s1
    unfolding only_stops_def using that st(1,3) by metis
  show thesis
  proof (cases v)
    case PredSucceeded
    define q where "q = enterPhaseLocked s0 st PhaseQueued"
    define s1 where "s1 = q\<lparr>rs_queue := queue_push (rs_tasks q) (rs_queue q) st\<rparr>"
    have "sched_inv s1 (insert st X - {st}) (insert st Y - {st})"
      unfolding s1_def q_def by (rule push_inv [OF phase]) simp_all
    moreover have "place_with wake s st scan = Some s1" for wake
      by (simp add: place_with_def preds PredSucceeded Let_def s1_def q_def s0_def)
    moreover have "only_stops s s1" by (rule stops) (simp_all add: s1_def q_def s0 preds0)
    moreover have "live s1 = live s" by (simp add: live_def s1_def q_def s0)
    moreover have "same_run s s1" using phase_run [of PhaseQueued] by (simp add: s1_def q_def same_run_def)
    ultimately show thesis using placed [of s1] preds PredSucceeded by (simp add: s1_def q_def s0)
  next
    case PredPending
    define q where "q = enterPhaseLocked s0 st PhaseParked"
    define s1 where "s1 = park_on q b st"
    obtain p where p: "p \<in> set (tk_preds (e_tasks e' st))" "held_by (rs_e s) p b" "blocking (rs_e s) b"
      using preds_blocker [OF rank preds [unfolded PredPending]] by blast
    have qe: "rs_e q = upd_task st (\<lambda>t. t\<lparr>tk_preds := kept, tk_phase := PhaseParked\<rparr>) (rs_e s)"
      by (simp add: q_def enterPhaseLocked_def s0_def e' upd_task_def)
    have grow: "grows (rs_e s) (rs_e q)"
      unfolding qe by (rule grows_upd_task) (use st(3) in \<open>auto simp: neverDefined_def\<close>)
    then have "held_by (rs_e q) p b" "blocking (rs_e q) b"
      using shape_held_by [OF _ p(2)] grows_blocking [OF grow p(3)] by (simp_all add: grows_def)
    moreover have "p \<in> set (tk_preds (rs_tasks q st))" using p(1) by (simp add: q_def s0_def)
    ultimately have "sched_inv s1 (insert st X - {st}) (insert st Y)"
      unfolding s1_def q_def by (intro park_on_inv [OF phase]) simp_all
    moreover have "tk_phase (rs_tasks s1 st) \<noteq> PhaseQueued" by (simp add: s1_def q_def)
    ultimately have "sched_inv s1 (X - {st}) (Y - {st})" by (auto simp: sched_inv_def queue_ok_def)
    moreover have "place_with wake s st scan = Some s1" for wake
      by (simp add: place_with_def preds PredPending Let_def s1_def q_def s0_def)
    moreover have "only_stops s s1" by (rule stops) (simp_all add: s1_def q_def s0 preds0)
    moreover have "live s1 = live s" by (simp add: live_def s1_def q_def s0)
    moreover have "same_run s s1" unfolding s1_def q_def by (rule same_run_trans [OF phase_run park_on_run])
    ultimately show thesis using placed [of s1] by (simp add: s1_def q_def s0)
  next
    case PredFailed
    have honest: "honestState s0 st NotStarted = NotStarted" by (simp add: honestState_def)
    show thesis
    proof (rule settle_core [OF inv0 st0(1,2), of NotStarted])
      fix s1 deps
      assume settle: "\<And>wake. settle_with wake s0 st NotStarted = wake s1 deps"
        "sched_inv s1 ((X - {st}) \<union> set deps) (Y - {st})" "same_run s0 s1" "rs_woken s1 = rs_woken s0"
        "rs_waking s1 = rs_waking s0" "rs_queue s1 = rs_queue s0" "live s1 < live s0"
        "rs_tasks s1 = (rs_tasks s0)(st := settled_cell (honestState s0 st NotStarted) (rs_tasks s0 st))"
      have "place_with wake s st scan = wake s1 deps" for wake
        using settle(1) [of wake] by (simp add: place_with_def preds PredFailed Let_def s0_def)
      moreover have "only_stops s s1"
      proof -
        have stop0: "only_stops s s0" by (rule stops) (simp_all add: s0 preds0)
        have shape: "same_shape (rs_e s) (rs_e s0)" "same_shape (rs_e s0) (rs_e s1)"
          using run0 settle(3) by (simp_all add: same_run_def)
        have tallies: "tally_ok (e_tasks (rs_e s)) (co_tally (e_cols (rs_e s) c))" for c
          using inv by (simp add: sched_inv_def tallies_ok_def)
        obtain p where p: "p \<in> set (tk_preds (rs_tasks s0 st))" "failed_pred (rs_e s) p"
          using preds_doomed [OF rank tallies preds [unfolded PredFailed]] by (auto simp: s0_def)
        have "failed_pred (rs_e s0) p" by (rule failed_pred_stays [OF shape(1) only_stops_fails [OF stop0 shape(1)] p(2)])
        moreover have "fails_stay (rs_e s0) (rs_e s1)"
          by (rule settle_fails [OF settle(8) st0(1) _ shape(2)]) (simp add: honest stateOutcome.simps)
        ultimately have "failed_pred (rs_e s1) p" using failed_pred_stays [OF shape(2)] by blast
        then have "doomed (rs_e s1) st" using p(1) by (auto simp: doomed_def settle(8) settled_cell_def)
        then have "only_stops s0 s1" using settle_only_stops [of s1 s0 st] settle(8) st0 by (simp add: honest)
        then show ?thesis using only_stops_trans [OF stop0 _ settle(3)] by blast
      qed
      moreover have "same_run s s1" by (rule same_run_trans [OF run0 settle(3)])
      moreover have "no_new_phases s s1"
        using settle(8) by (simp add: no_new_phases_def s0 settled_cell_def)
      ultimately show thesis using stopped [of s1 deps] settle live0 by (simp add: s0)
    qed simp
  qed
qed

subsection \<open>Draining the worklist\<close>

lemma sched_inv_mono: "sched_inv s X Y \<Longrightarrow> X \<subseteq> X' \<Longrightarrow> Y \<subseteq> Y' \<Longrightarrow> sched_inv s X' Y'"
  by (auto simp: sched_inv_def queue_ok_def)

lemma sched_inv_worklist [simp]:
  "sched_inv (s\<lparr>rs_woken := w\<rparr>) X Y = sched_inv s X Y" "sched_inv (s\<lparr>rs_waking := b\<rparr>) X Y = sched_inv s X Y"
  by (simp_all add: sched_inv_def phases_ok_def counts_ok_def queue_ok_def count_phase_def)

definition idle :: "schedState \<Rightarrow> bool" where
  "idle s \<longleftrightarrow> \<not> rs_waking s \<and> rs_woken s = []"

definition quiet_step :: "schedState \<Rightarrow> schedState \<Rightarrow> bool" where
  "quiet_step s s' \<longleftrightarrow> same_run s s' \<and> only_stops s s' \<and> live s' \<le> live s"

lemma quiet_step_refl [simp]: "quiet_step s s"
  by (simp add: quiet_step_def)

lemma quiet_step_trans: "quiet_step a b \<Longrightarrow> quiet_step b c \<Longrightarrow> quiet_step a c"
  unfolding quiet_step_def using same_run_trans only_stops_trans le_trans by blast

lemma worklist_quiet [simp]: "quiet_step s (s\<lparr>rs_woken := w\<rparr>)" "quiet_step s (s\<lparr>rs_waking := b\<rparr>)"
  by (simp_all add: quiet_step_def same_run_def only_stops_def live_def)

lemma drain_loop_spec:
  "sched_inv s (X \<union> set (drop i (rs_woken s))) Y \<Longrightarrow>
   \<exists>s'. drain_loop i s = Some s' \<and> sched_inv s' X Y \<and> idle s' \<and> quiet_step s s' \<and> no_new_phases s s'"
proof (induction "(live s, length (rs_woken s) - i)" arbitrary: s i
    rule: wf_induct_rule [OF wf_measures [of "[fst, snd]"]])
  case (1 s i)
  let ?w = "rs_woken s"
  show ?case
  proof (cases "i < length ?w")
    case False
    then show ?thesis
      using 1(2) by (subst drain_loop.simps) (simp add: idle_def quiet_step_def same_run_def only_stops_def live_def no_new_phases_def)
  next
    case i: True
    let ?st = "?w ! i"
    have drop: "set (drop i ?w) = insert ?st (set (drop (Suc i) ?w))"
      using Cons_nth_drop_Suc [OF i, symmetric] by simp
    show ?thesis
    proof (cases "tk_phase (rs_tasks s ?st) = PhaseParked \<and> \<not> IsTerminalTask (tk_state (rs_tasks s ?st))")
      case False
      have "tk_phase (rs_tasks s ?st) \<noteq> PhaseParked"
        using False 1(2) by (auto simp: sched_inv_def phases_ok_def)
      then have "sched_inv s (X \<union> set (drop (Suc i) ?w)) Y"
        using 1(2) unfolding drop by (auto simp: sched_inv_def)
      then show ?thesis
        using 1(1) [of s "Suc i"] i False by (subst drain_loop.simps) (auto simp: Let_def)
    next
      case True
      then have st: "\<not> IsTerminalTask (tk_state (rs_tasks s ?st))" "?st \<in> set (rs_order s)"
        "schedule_awaitingStart (tk_phase (rs_tasks s ?st))"
        using 1(2) by (auto simp: sched_inv_def phases_ok_def)
      have step: "drain_loop i s = Option.bind (place_with wake_held s ?st ScanToBlocker) (drain_loop (Suc i))"
        using i True by (subst drain_loop.simps) (simp add: Let_def)
      have exempt: "?st \<in> X \<union> set (drop i ?w)" by (simp add: drop)
      show ?thesis
      proof (rule place_core [OF 1(2) st, of ScanToBlocker])
        fix s1
        assume p: "\<And>wake. place_with wake s ?st ScanToBlocker = Some s1"
          "sched_inv s1 (X \<union> set (drop i ?w) - {?st}) (Y - {?st})" "same_run s s1" "only_stops s s1"
          "live s1 = live s" "rs_woken s1 = ?w"
          "\<And>r. r \<noteq> ?st \<Longrightarrow> tk_phase (rs_tasks s1 r) = tk_phase (rs_tasks s r)"
          "tk_phase (rs_tasks s1 ?st) \<noteq> PhaseRunning"
        have "sched_inv s1 (X \<union> set (drop (Suc i) (rs_woken s1))) Y"
          using sched_inv_mono [OF p(2)] unfolding p(6) drop by blast
        then obtain s' where s': "drain_loop (Suc i) s1 = Some s'" "sched_inv s' X Y" "idle s'" "quiet_step s1 s'"
            "no_new_phases s1 s'"
          using 1(1) [of s1 "Suc i"] diff_less_mono2 [OF lessI i] p(5,6) by auto
        moreover have "quiet_step s s1" using p(3-5) by (simp add: quiet_step_def)
        moreover have "no_new_phases s s1"
          unfolding no_new_phases_def using p(7,8) True by metis
        ultimately show ?thesis using step p(1) quiet_step_trans no_new_phases_trans by auto
      next
        fix s1 deps
        assume p: "\<And>wake. place_with wake s ?st ScanToBlocker = wake s1 deps"
          "sched_inv s1 (X \<union> set (drop i ?w) - {?st} \<union> set deps) (Y - {?st})" "same_run s s1" "only_stops s s1"
          "live s1 < live s" "rs_woken s1 = ?w" "no_new_phases s s1"
        define s2 where "s2 = s1\<lparr>rs_woken := rs_woken s1 @ deps\<rparr>"
        have "set (drop (Suc i) (rs_woken s2)) = set (drop (Suc i) ?w) \<union> set deps"
          using i by (simp add: s2_def p(6))
        then have "X \<union> set (drop i ?w) - {?st} \<union> set deps \<subseteq> X \<union> set (drop (Suc i) (rs_woken s2))"
          unfolding drop by blast
        then have "sched_inv s2 (X \<union> set (drop (Suc i) (rs_woken s2))) Y"
          using sched_inv_mono [OF p(2)] by (simp add: s2_def)
        then obtain s' where s': "drain_loop (Suc i) s2 = Some s'" "sched_inv s' X Y" "idle s'" "quiet_step s2 s'"
            "no_new_phases s2 s'"
          using 1(1) [of s2 "Suc i"] p(5) by (auto simp: s2_def live_def)
        moreover have "quiet_step s s1" using p(3-5) by (simp add: quiet_step_def)
        then have "quiet_step s s2" unfolding s2_def using quiet_step_trans worklist_quiet(1) by blast
        moreover have "no_new_phases s s2" using p(7) by (simp add: no_new_phases_def s2_def)
        ultimately show ?thesis
          using step p(1) [of wake_held] quiet_step_trans no_new_phases_trans by (auto simp: wake_held_def s2_def)
      qed (use exempt in simp)
    qed
  qed
qed

lemma wake_spec:
  assumes "sched_inv s (X \<union> set deps) Y" "idle s"
  shows "\<exists>s'. wakeLocked s deps = Some s' \<and> sched_inv s' X Y \<and> idle s' \<and> quiet_step s s' \<and> no_new_phases s s'"
proof -
  define s1 where "s1 = s\<lparr>rs_woken := deps, rs_waking := True\<rparr>"
  have "sched_inv s1 (X \<union> set (drop 0 (rs_woken s1))) Y" using assms(1) by (simp add: s1_def)
  then obtain s' where s': "drain_loop 0 s1 = Some s'" "sched_inv s' X Y" "idle s'" "quiet_step s1 s'" "no_new_phases s1 s'"
    using drain_loop_spec by blast
  have "no_new_phases s s'" using s'(5) by (simp add: no_new_phases_def s1_def)
  have "quiet_step s s1"
    unfolding s1_def using worklist_quiet quiet_step_trans by blast
  moreover have "wakeLocked s deps = drain_loop 0 s1"
    using assms(2) by (simp add: wakeLocked_def drainWokenLocked_def idle_def s1_def Let_def)
  ultimately show ?thesis using s' \<open>no_new_phases s s'\<close> quiet_step_trans by auto
qed

lemma place_spec:
  assumes inv: "sched_inv s X Y" and "idle s"
    and st: "\<not> IsTerminalTask (tk_state (rs_tasks s st))" "st \<in> set (rs_order s)"
      "schedule_awaitingStart (tk_phase (rs_tasks s st))"
    and exempt: "tk_phase (rs_tasks s st) = PhaseParked \<Longrightarrow> st \<in> X"
  shows "\<exists>s'. placeLocked s st scan = Some s' \<and> sched_inv s' (X - {st}) (Y - {st}) \<and> idle s' \<and> quiet_step s s'"
proof (rule place_core [OF inv st, of scan])
  fix s1
  assume "\<And>wake. place_with wake s st scan = Some s1" "sched_inv s1 (X - {st}) (Y - {st})" "same_run s s1"
    "only_stops s s1" "live s1 = live s" "rs_woken s1 = rs_woken s" "rs_waking s1 = rs_waking s"
  then show ?thesis using \<open>idle s\<close> by (auto simp: idle_def quiet_step_def)
next
  fix s1 deps
  assume p: "\<And>wake. place_with wake s st scan = wake s1 deps" "sched_inv s1 (X - {st} \<union> set deps) (Y - {st})"
    "same_run s s1" "only_stops s s1" "live s1 < live s" "rs_woken s1 = rs_woken s" "rs_waking s1 = rs_waking s"
  have "idle s1" "quiet_step s s1" using p \<open>idle s\<close> by (auto simp: idle_def quiet_step_def)
  then show ?thesis
    using p(1) [of wakeLocked] wake_spec [OF p(2)] quiet_step_trans by auto
qed (use exempt in simp)

text \<open>A settle ends its Task as asked; whatever else it ends, it ends NotStarted.\<close>

lemma settle_spec:
  assumes inv: "sched_inv s X Y" and "idle s"
    and st: "\<not> IsTerminalTask (tk_state (rs_tasks s st))" "st \<in> set (rs_order s)"
    and fin: "IsTerminalTask state"
  shows "\<exists>s'. settleLocked s st state = Some s' \<and> sched_inv s' (X - {st}) (Y - {st}) \<and> idle s' \<and> same_run s s'
    \<and> live s' < live s \<and> tk_state (rs_tasks s' st) = honestState s st state
    \<and> (\<forall>r. r \<noteq> st \<longrightarrow> tk_state (rs_tasks s' r) = tk_state (rs_tasks s r)
        \<or> tk_state (rs_tasks s' r) = NotStarted \<and> awaitingStart (rs_tasks s r))
    \<and> (\<forall>r. \<not> schedule_awaitingStart (tk_phase (rs_tasks s r)) \<longrightarrow> tk_phase (rs_tasks s' r) = tk_phase (rs_tasks s r))
    \<and> no_new_phases s s'
    \<and> (\<forall>r. r \<noteq> st \<and> tk_state (rs_tasks s' r) \<noteq> tk_state (rs_tasks s r) \<longrightarrow> doomed (rs_e s') r)
    \<and> (\<forall>r. IsTerminalTask (tk_state (rs_tasks s r)) \<longrightarrow> tk_preds (rs_tasks s' r) = tk_preds (rs_tasks s r))"
proof (rule settle_core [OF inv st fin])
  fix s1 deps
  assume p: "\<And>wake. settle_with wake s st state = wake s1 deps" "sched_inv s1 (X - {st} \<union> set deps) (Y - {st})"
    "same_run s s1" "rs_woken s1 = rs_woken s" "rs_waking s1 = rs_waking s" "live s1 < live s"
    "rs_tasks s1 = (rs_tasks s)(st := settled_cell (honestState s st state) (rs_tasks s st))"
  have "idle s1" using p \<open>idle s\<close> by (simp add: idle_def)
  then obtain s' where s': "wakeLocked s1 deps = Some s'" "sched_inv s' (X - {st}) (Y - {st})" "idle s'" "quiet_step s1 s'"
      "no_new_phases s1 s'"
    using wake_spec [OF p(2)] by blast
  have "no_new_phases s s1" by (simp add: no_new_phases_def p(7) settled_cell_def)
  then have parks: "no_new_phases s s'" using s'(5) by (rule no_new_phases_trans)
  from s' have stops: "only_stops s1 s'" and run: "same_run s1 s'" and le: "live s' \<le> live s1"
    by (simp_all add: quiet_step_def)
  have self: "tk_state (rs_tasks s1 st) = honestState s st state" by (simp add: p(7) settled_cell_def)
  have "tk_state (rs_tasks s' st) = honestState s st state"
    using stops self honestState_terminal [OF fin, of s st] unfolding only_stops_def by metis
  moreover have "tk_state (rs_tasks s' r) = tk_state (rs_tasks s r)
        \<or> tk_state (rs_tasks s' r) = NotStarted \<and> awaitingStart (rs_tasks s r)" if "r \<noteq> st" for r
  proof -
    have "rs_tasks s1 r = rs_tasks s r" using that by (simp add: p(7))
    then show ?thesis using stops unfolding only_stops_def awaitingStart_def by metis
  qed
  moreover have "doomed (rs_e s') r" if "r \<noteq> st" "tk_state (rs_tasks s' r) \<noteq> tk_state (rs_tasks s r)" for r
  proof -
    have "rs_tasks s1 r = rs_tasks s r" using that(1) by (simp add: p(7))
    then show ?thesis using stops that(2) unfolding only_stops_def by metis
  qed
  moreover have "tk_preds (rs_tasks s' r) = tk_preds (rs_tasks s r)" if "IsTerminalTask (tk_state (rs_tasks s r))" for r
  proof -
    have "rs_tasks s1 r = rs_tasks s r" using that st(1) by (auto simp: p(7))
    then show ?thesis using stops that unfolding only_stops_def by metis
  qed
  moreover have "tk_phase (rs_tasks s' r) = tk_phase (rs_tasks s r)"
    if "\<not> schedule_awaitingStart (tk_phase (rs_tasks s r))" for r
    using stops that by (cases "r = st") (simp_all add: only_stops_def p(7) settled_cell_def)
  ultimately show ?thesis
    using p(1) [of wakeLocked] s' same_run_trans [OF p(3) run] le p(6) parks by auto
qed

end
