(* ===== verification/Engine_Run.thy ===== *)
theory Engine_Run
  imports Engine_Schedule_Inv
begin

text \<open>
  The scheduler between operations: submitting, starting and finishing keep the invariant of
  \<open>Engine_Schedule_Inv\<close> with an empty worklist (\<open>run_ok\<close>), and the start scan ends, because each turn
  either settles a Task or shortens the queue.
\<close>

subsection \<open>Reading the same outcomes\<close>

lemma outcome_cong:
  assumes ranked: "entries_ranked e rank"
    and same: "\<And>t. taskOutcomeLocked e' t = taskOutcomeLocked e t"
      "\<And>p c. collection_read e' p c = collection_read e p c" "\<And>c. co_entry (e_cols e' c) = co_entry (e_cols e c)"
  shows "outcomeLocked e' p = outcomeLocked e p"
proof (induction "case pd_col p of Some c \<Rightarrow> Suc (rank c) | None \<Rightarrow> 0" arbitrary: p rule: less_induct)
  case less
  show ?case
  proof (cases "pd_task p")
    case None
    show ?thesis
    proof (cases "pd_col p")
      case (Some c)
      have below: "outcomeLocked e' q = outcomeLocked e q" if "q \<in> set (co_entry (e_cols e c))" for q
      proof (cases "pd_task q = None \<and> pd_col q \<noteq> None")
        case True
        then show ?thesis
          using less [of q] that ranked Some by (auto simp: entries_ranked_def)
      next
        case False
        then show ?thesis using same(1) by (auto simp: outcomeLocked_def split: option.splits)
      qed
      have "entry_fold e' qs v b = entry_fold e qs v b" if "set qs \<subseteq> set (co_entry (e_cols e c))" for qs v b
        using that
      proof (induction qs arbitrary: v b)
        case (Cons q qs)
        then have eqs: "outcomeLocked e' q = outcomeLocked e q" "entry_fold e' qs = entry_fold e qs"
          using below by (auto intro!: ext)
        show ?case unfolding entry_fold_Cons eqs by (rule refl)
      qed simp
      then have "entryOutcomeLocked e' c = entryOutcomeLocked e c"
        using same(3) by (simp add: entryOutcomeLocked_def)
      then show ?thesis
        using None Some same(2)
        by (simp add: outcomeLocked_def collectionOutcomeLocked_def split: option.split)
    qed (use None in \<open>simp add: outcomeLocked_def\<close>)
  qed (use same(1) in \<open>simp add: outcomeLocked_def\<close>)
qed

lemma read_same_shape:
  assumes "same_shape e e'" "\<And>c. ct_firstFailed (co_tally (e_cols e' c)) = ct_firstFailed (co_tally (e_cols e c))"
    "\<And>c. ct_succeededPrefix (co_tally (e_cols e' c)) = ct_succeededPrefix (co_tally (e_cols e c))"
  shows "collection_read e' p c = collection_read e p c"
proof -
  obtain cursor opn where cur: "edgeCursorLocked e p c = (cursor, opn)" by force
  have "edgeCursorLocked e' p c = (cursor, opn)" using shape_cursor [OF assms(1), of p c] cur by simp
  then show ?thesis
    using shape_hasMember [OF assms(1), of c cursor] assms
    by (simp add: collection_read_def Let_def cur failedThrough_def succeededThrough_def same_shape_def)
qed

lemma outcome_upd_preds:
  assumes "entries_ranked e rank"
  shows "outcomeLocked (upd_task st (\<lambda>t. t\<lparr>tk_preds := kept\<rparr>) e) p = outcomeLocked e p"
  by (rule outcome_cong [OF assms])
    (auto simp: upd_task_def taskOutcomeLocked_def neverDefined_def Let_def same_shape_def intro!: read_same_shape)

text \<open>A Task read ineligible reads ineligible again, with fewer predecessors remembered.\<close>

lemma ineligible_again:
  assumes ranked: "entries_ranked e rank" and "eligibleLocked e st = Some (False, e')"
  shows "predsOutcomeLocked e' st ScanToBlocker \<noteq> Some (PredSucceeded, b2, e2)"
proof
  assume again: "predsOutcomeLocked e' st ScanToBlocker = Some (PredSucceeded, b2, e2)"
  obtain v b kept where l: "preds_loop e ScanToBlocker (tk_preds (e_tasks e st)) PredSucceeded no_pred [] = Some (v, b, kept)"
    and v: "v \<noteq> PredSucceeded" and e': "e' = upd_task st (\<lambda>t. t\<lparr>tk_preds := kept\<rparr>) e"
    using assms(2) by (auto simp: eligibleLocked_def predsOutcomeLocked_def bind_eq_Some_conv upd_task_def)
  have same: "pred_outcome e' p = pred_outcome e p" for p
    using outcome_upd_preds [OF ranked] by (simp add: pred_outcome_def e')
  obtain kept' where "preds_loop e' ScanToBlocker kept PredSucceeded no_pred [] = Some (PredSucceeded, b2, kept')"
    using again by (auto simp: predsOutcomeLocked_def bind_eq_Some_conv e' upd_task_def)
  then have all: "\<forall>p\<in>set kept. pred_outcome e p = PredSucceeded"
    using preds_loop_blocker same by fastforce
  obtain p where p: "p \<in> set (tk_preds (e_tasks e st))" "pred_outcome e p = v"
    using preds_loop_blocker [OF l] v by (metis in_set_conv_decomp)
  then have "p \<notin> set kept" using all v by auto
  then obtain r where "pd_task p = Some r" "taskOutcomeLocked e r = PredSucceeded"
    using preds_loop_kept [OF l] p(1) by auto
  then have "pred_outcome e p = PredSucceeded" by (simp add: pred_outcome_def outcomeLocked_def)
  with p(2) v show False by simp
qed

definition all_succeeded :: "scheduler \<Rightarrow> TaskRef \<Rightarrow> bool" where
  "all_succeeded e st \<longleftrightarrow> list_all (\<lambda>p. pred_outcome e p = PredSucceeded) (tk_preds (e_tasks e st))"

lemma eligible_all_succeeded:
  assumes ranked: "entries_ranked e rank" and "eligibleLocked e st = Some (True, e')"
  shows "all_succeeded e' st"
proof -
  obtain b kept where l: "preds_loop e ScanToBlocker (tk_preds (e_tasks e st)) PredSucceeded no_pred [] = Some (PredSucceeded, b, kept)"
    and e': "e' = upd_task st (\<lambda>t. t\<lparr>tk_preds := kept\<rparr>) e"
    using assms(2) by (auto simp: eligibleLocked_def predsOutcomeLocked_def bind_eq_Some_conv upd_task_def)
  have "pred_outcome e' p = pred_outcome e p" for p
    using outcome_upd_preds [OF ranked] by (simp add: pred_outcome_def e')
  moreover have "set kept \<subseteq> set (tk_preds (e_tasks e st))" using preds_loop_kept [OF l] by auto
  moreover have "\<forall>p\<in>set (tk_preds (e_tasks e st)). pred_outcome e p = PredSucceeded"
    using preds_loop_blocker [OF l] by auto
  ultimately show ?thesis by (auto simp: all_succeeded_def list_all_iff e' upd_task_def)
qed

subsection \<open>A state between operations\<close>

definition run_ok :: "schedState \<Rightarrow> bool" where
  "run_ok s \<longleftrightarrow> sched_inv s {} {} \<and> idle s"

text \<open>The worker slots in use and their high-water mark stay under the ceiling.\<close>

definition slots_bound :: "schedState \<Rightarrow> bool" where
  "slots_bound s \<longleftrightarrow> rs_inflight s \<le> concurrencyCeilingLocked s \<and> rs_maxObserved s \<le> concurrencyCeilingLocked s"

lemma slots_same_run: "same_run s s' \<Longrightarrow> slots_bound s' = slots_bound s"
  by (simp add: slots_bound_def same_run_def concurrencyCeilingLocked_def)

lemma submit_ok:
  assumes "run_ok s"
  shows "\<exists>s'. submitWork s st = Some s' \<and> run_ok s' \<and> same_run s s'"
proof (cases "st \<notin> set (rs_order s) \<or> rs_ended s \<or> IsTerminalTask (tk_state (rs_tasks s st))
    \<or> submitted (tk_phase (rs_tasks s st))")
  case True
  then have "submitWork s st = Some s" by (auto simp: submitWork_def)
  with assms show ?thesis by simp
next
  case False
  then have st: "st \<in> set (rs_order s)" "\<not> rs_ended s" "\<not> IsTerminalTask (tk_state (rs_tasks s st))"
    "\<not> schedule_awaitingStart (tk_phase (rs_tasks s st))" "\<not> submitted (tk_phase (rs_tasks s st))" by auto
  define s0 where "s0 = s\<lparr>rs_wg := rs_wg s + 1\<rparr>"
  define s1 where "s1 = enterPhaseLocked s0 st PhaseQueued"
  have inv: "sched_core s {} {}" "counts_ok s" "idle s" using assms by (simp_all add: run_ok_def sched_inv_core)
  have core0: "sched_core s0 {} {}"
    using inv(1) by (simp add: sched_core_def s0_def phases_ok_def queue_ok_def)
  then have core1: "sched_core s1 {st} {st}"
    unfolding s1_def by (rule enter_phase_core) (use st in \<open>simp_all add: s0_def\<close>)
  have "phases_ok s0" using core0 by (simp add: sched_core_def)
  then have count: "count_phase s1 P = count_phase s P
      - (if P (tk_phase (rs_tasks s st)) then 1 else 0) + (if P PhaseQueued then 1 else 0)" for P
    using enter_phase_counts [of s0 st PhaseQueued P] st(1) by (simp add: s1_def s0_def count_phase_def)
  have "counts_ok s1"
    using inv(2) st(4) unfolding counts_ok_def count by (auto simp: s1_def s0_def)
  with core1 have inv1: "sched_inv s1 {st} {st}" by (simp add: sched_inv_core)
  have idle1: "idle s1" using inv(3) by (simp add: idle_def s1_def s0_def)
  have st1: "\<not> IsTerminalTask (tk_state (rs_tasks s1 st))" "st \<in> set (rs_order s1)"
    "schedule_awaitingStart (tk_phase (rs_tasks s1 st))"
    using st by (simp_all add: s1_def s0_def)
  have run1: "same_run s s1"
    by (simp add: s1_def s0_def enterPhaseLocked_def same_run_def same_shape_def upd_task_def)
  have body: "submitWork s st = (if rs_cancelled s1 then markNotStartedLocked s1 st else placeLocked s1 st ScanAll)"
    using st by (simp add: submitWork_def s1_def s0_def Let_def)
  show ?thesis
  proof (cases "rs_cancelled s1")
    case True
    obtain s' where s': "settleLocked s1 st NotStarted = Some s'" "sched_inv s' ({st} - {st}) ({st} - {st})" "idle s'" "same_run s1 s'"
      using settle_spec [OF inv1 idle1 st1(1,2), of NotStarted] by auto
    moreover have "submitWork s st = settleLocked s1 st NotStarted"
      using True body by (simp add: markNotStartedLocked_def)
    ultimately show ?thesis
      using same_run_trans [OF run1] by (simp add: run_ok_def)
  next
    case False
    obtain s' where s': "placeLocked s1 st ScanAll = Some s'" "sched_inv s' ({st} - {st}) ({st} - {st})" "idle s'" "quiet_step s1 s'"
      using place_spec [OF inv1 idle1 st1, of ScanAll] by auto
    moreover have "submitWork s st = placeLocked s1 st ScanAll" using False body by simp
    ultimately show ?thesis
      using same_run_trans [OF run1] by (simp add: run_ok_def quiet_step_def)
  qed
qed

subsection \<open>Starting and finishing work\<close>

lemma promote_inv:
  assumes inv: "sched_inv s X Y" and st: "tk_state (rs_tasks s st) = Pending" "tk_phase (rs_tasks s st) = PhaseRunning"
  shows "sched_inv (s\<lparr>rs_e := upd_task st (\<lambda>t. t\<lparr>tk_state := Running\<rparr>) (rs_e s)\<rparr>) X Y"
proof -
  let ?e = "rs_e s"
  define e' where "e' = upd_task st (\<lambda>t. t\<lparr>tk_state := Running\<rparr>) ?e"
  have cell: "e_tasks e' r = (if r = st then (e_tasks ?e st)\<lparr>tk_state := Running\<rparr> else e_tasks ?e r)" for r
    by (simp add: e'_def upd_task_def)
  have tasks: "e_tasks e' = set_state (e_tasks ?e) st Running" by (simp add: e'_def upd_task_def)
  have pending: "task_outcome (e_tasks ?e) st = PredPending" "stateOutcome Running = PredPending"
    using st(1) by (simp_all add: stateOutcome.simps)
  have grow: "grows ?e e'"
    unfolding e'_def by (rule grows_upd_task) (use st pending in \<open>simp_all add: neverDefined_def\<close>)
  then have shape: "same_shape ?e e'" by (simp add: grows_def)
  have decls: "tk_declaration (e_tasks e' x) = tk_declaration (e_tasks ?e x)" for x by (simp add: cell)
  have cols: "e_cols e' = e_cols ?e" by (simp add: e'_def upd_task_def)
  have "tally_ok (e_tasks e') t = tally_ok (e_tasks ?e) t" for t
    unfolding tasks by (rule tally_ok_pending) (rule pending)+
  moreover have "parked_ok (e_tasks e') t = parked_ok (e_tasks ?e) t" for t
    by (simp add: parked_ok_def resolved_def succeededThrough_def decls)
  ultimately have "tallies_ok e'" using inv by (simp add: sched_inv_def tallies_ok_def cols)
  moreover have "topo_ok e'" using shape_topo [OF shape] inv by (simp add: sched_inv_def)
  moreover have "waits ?e r \<Longrightarrow> waits e' r" for r by (rule grows_waits [OF grow]) (simp_all add: cell)
  moreover have "decl (e_tasks e') = decl (e_tasks ?e)" by (simp add: decl_def fun_eq_iff decls)
  moreover have "phases_ok (s\<lparr>rs_e := e'\<rparr>)" using inv st by (auto simp: sched_inv_def phases_ok_def cell)
  moreover have "count_phase (s\<lparr>rs_e := e'\<rparr>) P = count_phase s P" for P
    by (rule count_phase_same) (simp_all add: cell)
  moreover have "tk_phase (e_tasks e' r) = tk_phase (e_tasks ?e r)" for r by (simp add: cell)
  ultimately show ?thesis
    using inv unfolding e'_def [symmetric] by (auto simp: sched_inv_def queue_ok_def counts_ok_def)
qed

lemma claim_fields [simp]:
  "rs_order (claimLocked s st) = rs_order s" "rs_inflight (claimLocked s st) = rs_inflight s"
  "rs_executing (claimLocked s st) = rs_executing s + 1" "rs_waking (claimLocked s st) = rs_waking s"
  "rs_woken (claimLocked s st) = rs_woken s" "rs_maxConcurrency (claimLocked s st) = rs_maxConcurrency s"
  "rs_procs (claimLocked s st) = rs_procs s" "rs_cancelled (claimLocked s st) = rs_cancelled s"
  "tk_phase (rs_tasks (claimLocked s st) r) = (if r = st then PhaseRunning else tk_phase (rs_tasks s r))"
  by (simp_all add: claimLocked_def Let_def upd_task_def)

lemma claim_shape: "same_shape (rs_e s) (rs_e (claimLocked s st))"
  by (simp add: claimLocked_def Let_def enterPhaseLocked_def upd_task_def same_shape_def)

lemma claim_ok:
  assumes "run_ok s" "st \<in> set (rs_order s)" "awaitingStart (rs_tasks s st)"
  shows "run_ok (claimLocked s st)"
proof -
  define s1 where "s1 = enterPhaseLocked s st PhaseRunning"
  define s2 where "s2 = s1\<lparr>rs_executing := rs_executing s1 + 1\<rparr>"
  have inv: "sched_core s {} {}" "counts_ok s" "idle s" "phases_ok s"
    using assms(1) by (auto simp: run_ok_def sched_inv_core sched_core_def)
  have st: "\<not> IsTerminalTask (tk_state (rs_tasks s st))" "schedule_awaitingStart (tk_phase (rs_tasks s st))"
    using assms(3) by (simp_all add: awaitingStart_def)
  have "sched_core s1 {st} {st}"
    unfolding s1_def by (rule enter_phase_core [OF inv(1) assms(2) st(1)]) simp
  moreover have "tk_phase (rs_tasks s1 st) = PhaseRunning" by (simp add: s1_def)
  ultimately have "sched_core s2 {} {}"
    by (auto simp: sched_core_def s2_def phases_ok_def queue_ok_def)
  moreover have "count_phase s2 P = count_phase s P
      - (if P (tk_phase (rs_tasks s st)) then 1 else 0) + (if P PhaseRunning then 1 else 0)" for P
    using enter_phase_counts [OF inv(4) assms(2), of PhaseRunning P] by (simp add: s2_def s1_def count_phase_def)
  then have "counts_ok s2"
    using inv(2) st(2) unfolding counts_ok_def by (auto simp: s2_def s1_def)
  ultimately have inv2: "sched_inv s2 {} {}" by (simp add: sched_inv_core)
  have idle2: "idle s2" using inv(3) by (simp add: idle_def s2_def s1_def)
  have claim: "claimLocked s st = (if tk_state (rs_tasks s2 st) = Pending
      then s2\<lparr>rs_e := upd_task st (\<lambda>t. t\<lparr>tk_state := Running\<rparr>) (rs_e s2)\<rparr> else s2)"
    by (simp add: claimLocked_def Let_def s2_def s1_def)
  have "sched_inv (claimLocked s st) {} {}"
    using promote_inv [OF inv2, of st] inv2 by (auto simp: claim s2_def s1_def)
  moreover have "idle (claimLocked s st)" using idle2 by (simp add: claim idle_def)
  ultimately show ?thesis by (simp add: run_ok_def)
qed

lemma slots_ok [simp]:
  "run_ok (s\<lparr>rs_inflight := n, rs_maxObserved := k\<rparr>) = run_ok s" "run_ok (takeSlotLocked s) = run_ok s"
  by (simp_all add: run_ok_def sched_inv_def idle_def phases_ok_def counts_ok_def queue_ok_def count_phase_def takeSlotLocked_def)

lemma finish_ok: "run_ok s \<Longrightarrow> run_ok (finishClaimed s pooled)"
  by (simp add: run_ok_def sched_inv_def idle_def phases_ok_def counts_ok_def queue_ok_def count_phase_def finishClaimed_def)

text \<open>
  A claim is being executed from the moment it is made until it is finished with the flag it was made
  with; the slots in use are those of the claims that took one.
\<close>

definition execute :: "(TaskRef \<times> bool) option \<Rightarrow> schedState \<Rightarrow> schedState" where
  "execute claim s = (case claim of None \<Rightarrow> s | Some c \<Rightarrow> s\<lparr>rs_claims := rs_claims s @ [c]\<rparr>)"

definition slots_exact :: "schedState \<Rightarrow> bool" where
  "slots_exact s \<longleftrightarrow>
     rs_executing s = int (length (rs_claims s)) \<and> rs_inflight s = int (length (filter snd (rs_claims s)))"

text \<open>What an operation does to the counters when it makes \<open>claim\<close>.\<close>

definition claims :: "(TaskRef \<times> bool) option \<Rightarrow> schedState \<Rightarrow> schedState \<Rightarrow> bool" where
  "claims claim s s' \<longleftrightarrow>
     rs_claims s' = rs_claims s \<and> rs_executing s' = rs_executing s + (if claim = None then 0 else 1) \<and>
     rs_inflight s' = rs_inflight s + (case claim of Some (_, True) \<Rightarrow> 1 | _ \<Rightarrow> 0)"

lemma execute_exact: "claims claim s s' \<Longrightarrow> slots_exact s \<Longrightarrow> slots_exact (execute claim s')"
  by (auto simp: claims_def slots_exact_def execute_def split: option.splits prod.splits bool.splits)

lemma same_run_claims: "same_run s s' \<Longrightarrow> claims None s s'"
  by (simp add: same_run_def claims_def)

lemma claims_trans: "claims None a b \<Longrightarrow> claims None b c \<Longrightarrow> claims None a c"
  by (simp add: claims_def)

lemma claims_exact: "claims None s s' \<Longrightarrow> slots_exact s \<Longrightarrow> slots_exact s'"
  by (simp add: claims_def slots_exact_def)

lemma finish_exact:
  assumes "(st, pooled) \<in> set (rs_claims s)" "slots_exact s"
  shows "slots_exact ((finishClaimed s pooled)\<lparr>rs_claims := remove1 (st, pooled) (rs_claims s)\<rparr>)"
proof -
  have "length (rs_claims s) > 0" "pooled \<Longrightarrow> length (filter snd (rs_claims s)) > 0"
    using assms(1) by (auto simp: filter_empty_conv intro: bexI [of _ "(st, True)"])
  then show ?thesis
    using assms
    by (auto simp: slots_exact_def finishClaimed_def filter_remove1 length_remove1 of_nat_diff Suc_leI)
qed

lemma execute_ok [simp]: "run_ok (execute claim s) = run_ok s" "slots_bound (execute claim s) = slots_bound s"
  by (simp_all add: execute_def run_ok_def sched_inv_def idle_def phases_ok_def counts_ok_def queue_ok_def count_phase_def
      slots_bound_def concurrencyCeilingLocked_def split: option.split)

text \<open>Reading eligibility forgets succeeded predecessors and changes nothing else.\<close>

lemma eligible_ok:
  assumes "run_ok s" "tk_phase (rs_tasks s st) \<noteq> PhaseParked"
  shows "\<exists>ok e. eligibleLocked (rs_e s) st = Some (ok, e) \<and> run_ok (s\<lparr>rs_e := e\<rparr>)
    \<and> (\<exists>kept. e = upd_task st (\<lambda>t. t\<lparr>tk_preds := kept\<rparr>) (rs_e s))"
proof -
  have inv: "sched_inv s {} {}" using assms(1) by (simp add: run_ok_def)
  obtain rank where rank: "entries_ranked (rs_e s) rank" using inv_entries [OF inv] by blast
  obtain v b e where p: "predsOutcomeLocked (rs_e s) st ScanToBlocker = Some (v, b, e)"
    using preds_loop_returns [OF rank, of ScanToBlocker "tk_preds (rs_tasks s st)" PredSucceeded no_pred "[]"]
    by (auto simp: predsOutcomeLocked_def)
  have "sched_inv (s\<lparr>rs_e := e\<rparr>) {} {}" "\<exists>kept. e = upd_task st (\<lambda>t. t\<lparr>tk_preds := kept\<rparr>) (rs_e s)"
    using preds_inv [OF inv p] assms(2) by simp_all
  then show ?thesis
    using p assms(1) by (simp add: eligibleLocked_def run_ok_def idle_def)
qed

text \<open>The start pass: stale entries go, an ineligible one is placed again, and the scan ends.\<close>

lemma queue_head_ok:
  assumes "run_ok s" "queue_head (rs_tasks s) (rs_queue s) = (found, q)"
  shows "run_ok (s\<lparr>rs_queue := q\<rparr>) \<and> length q \<le> length (rs_queue s) \<and> (found = None \<longrightarrow> q = [])
    \<and> (\<forall>st. found = Some st \<longrightarrow> queue_live (rs_tasks s) st \<and> st \<in> set (rs_order s) \<and> q \<noteq> [] \<and> q ! 0 = st)"
proof -
  let ?m = "rs_tasks s"
  have q: "queue_ok s {}" "phases_ok s" using assms(1) by (auto simp: run_ok_def sched_inv_def)
  then have "heap_ok (decl ?m) (rs_queue s)" by (simp add: queue_ok_def)
  note spec = queue_head_spec [OF this, unfolded assms(2) fst_conv snd_conv]
  have in_q: "r \<in> set q" if "tk_phase (?m r) = PhaseQueued" for r
  proof -
    have "r \<in> set (rs_queue s)" using q(1) that by (auto simp: queue_ok_def)
    moreover have "queue_live ?m r" using q(2) that by (auto simp: queue_live_def awaitingStart_def phases_ok_def)
    ultimately have "r \<in># filter_mset (queue_live ?m) (mset q)" using spec by simp
    then show ?thesis by simp
  qed
  then have "queue_ok (s\<lparr>rs_queue := q\<rparr>) {}" using spec by (simp add: queue_ok_def)
  then have "run_ok (s\<lparr>rs_queue := q\<rparr>)"
    using assms(1) by (simp add: run_ok_def sched_inv_def idle_def phases_ok_def counts_ok_def count_phase_def)
  moreover have "length q \<le> length (rs_queue s)" using spec size_mset_mono by fastforce
  moreover have "st \<in> set (rs_order s)" if "queue_live ?m st" for st
    using that q(2) by (auto simp: queue_live_def phases_ok_def)
  ultimately show ?thesis using spec by auto
qed

lemma place_again:
  assumes "run_ok s" and q: "rs_queue s \<noteq> []" "rs_queue s ! 0 = st" and st: "queue_live (rs_tasks s) st" "st \<in> set (rs_order s)"
    and no: "\<And>b e. predsOutcomeLocked (rs_e s) st ScanToBlocker \<noteq> Some (PredSucceeded, b, e)"
  defines "s1 \<equiv> s\<lparr>rs_queue := dropHead (rs_tasks s) (rs_queue s)\<rparr>"
  shows "\<exists>s'. placeLocked s1 st ScanToBlocker = Some s' \<and> run_ok s' \<and> quiet_step s s'
    \<and> (live s' < live s \<or> live s' = live s \<and> length (rs_queue s') < length (rs_queue s))"
proof -
  have inv: "sched_inv s {} {}" "idle s" "queue_ok s {}" using assms(1) by (auto simp: run_ok_def sched_inv_def)
  have heap: "heap_ok (decl (rs_tasks s)) (rs_queue s)" using inv(3) by (simp add: queue_ok_def)
  note pop = heap_pop_spec [OF heap q(1)]
  have "mset (rs_queue s) = add_mset st (mset (rs_queue s1))"
    using pop(2) q nth_mem [of 0 "rs_queue s"] by (simp add: s1_def dropHead_def)
  then have "set (rs_queue s) = insert st (set (rs_queue s1))"
    by (metis set_mset_add_mset_insert set_mset_mset)
  then have "queue_ok s1 {st}"
    using inv(3) pop(1) by (auto simp: queue_ok_def s1_def dropHead_def)
  then have inv1: "sched_inv s1 {} {st}"
    using inv(1) by (simp add: sched_inv_def s1_def phases_ok_def counts_ok_def count_phase_def)
  have st1: "\<not> IsTerminalTask (tk_state (rs_tasks s1 st))" "st \<in> set (rs_order s1)"
    "schedule_awaitingStart (tk_phase (rs_tasks s1 st))"
    using st by (simp_all add: s1_def queue_live_def awaitingStart_def)
  have phase: "tk_phase (rs_tasks s1 st) = PhaseQueued" using st by (simp add: s1_def queue_live_def)
  have quiet1: "quiet_step s s1" and live1: "live s1 = live s"
    by (simp_all add: s1_def quiet_step_def same_run_def only_stops_def live_def)
  have len: "length (rs_queue s1) < length (rs_queue s)" using pop(3) q(1) by (simp add: s1_def dropHead_def)
  show ?thesis
  proof (rule place_core [OF inv1 st1, of ScanToBlocker])
    fix s2
    assume p: "\<And>wake. place_with wake s1 st ScanToBlocker = Some s2" "sched_inv s2 ({} - {st}) ({st} - {st})"
      "same_run s1 s2" "only_stops s1 s2" "live s2 = live s1" "rs_woken s2 = rs_woken s1" "rs_waking s2 = rs_waking s1"
      "rs_queue s2 = rs_queue s1 \<or> (\<exists>e. predsOutcomeLocked (rs_e s1) st ScanToBlocker = Some (PredSucceeded, e))"
    have "rs_queue s2 = rs_queue s1" using p(8) no by (auto simp: s1_def)
    moreover have "idle s2" using p(6,7) inv(2) by (simp add: idle_def s1_def)
    moreover have "quiet_step s s2" using quiet_step_trans [OF quiet1] p(3-5) by (simp add: quiet_step_def)
    ultimately show ?thesis using p(1,2,5) live1 len by (simp add: run_ok_def)
  next
    fix s2 deps
    assume p: "\<And>wake. place_with wake s1 st ScanToBlocker = wake s2 deps"
      "sched_inv s2 ({} - {st} \<union> set deps) ({st} - {st})" "same_run s1 s2" "only_stops s1 s2" "live s2 < live s1"
      "rs_woken s2 = rs_woken s1" "rs_waking s2 = rs_waking s1"
    have "idle s2" using p(6,7) inv(2) by (simp add: idle_def s1_def)
    then obtain s' where s': "wakeLocked s2 deps = Some s'" "sched_inv s' ({} - {st}) ({st} - {st})" "idle s'" "quiet_step s2 s'"
      using wake_spec [OF p(2)] by blast
    moreover have "quiet_step s s2" using quiet_step_trans [OF quiet1] p(3-5) by (simp add: quiet_step_def)
    moreover have "live s' < live s" using p(5) live1 s'(4) by (simp add: quiet_step_def)
    ultimately show ?thesis using p(1) [of wakeLocked] quiet_step_trans by (auto simp: run_ok_def)
  qed (simp add: phase)
qed

definition start_found :: "TaskRef option \<Rightarrow> schedState \<Rightarrow> bool" where
  "start_found found s \<longleftrightarrow>
     (case found of
        None \<Rightarrow> rs_queue s = []
      | Some st \<Rightarrow> queue_live (rs_tasks s) st \<and> st \<in> set (rs_order s) \<and> rs_queue s \<noteq> [] \<and> rs_queue s ! 0 = st
          \<and> all_succeeded (rs_e s) st)"

lemma nextEligible_ok:
  "run_ok s \<Longrightarrow> \<exists>found s'. nextEligibleLocked s = Some (found, s') \<and> run_ok s' \<and> quiet_step s s'
    \<and> start_found found s'"
proof (induction "(live s, length (rs_queue s))" arbitrary: s
    rule: wf_induct_rule [OF wf_measures [of "[fst, snd]"]])
  case (1 s)
  obtain found q where fq: "queue_head (rs_tasks s) (rs_queue s) = (found, q)" by force
  define s0 where "s0 = s\<lparr>rs_queue := q\<rparr>"
  have s0: "run_ok s0" "length q \<le> length (rs_queue s)"
    "\<And>st. found = Some st \<Longrightarrow> queue_live (rs_tasks s) st \<and> st \<in> set (rs_order s) \<and> q \<noteq> [] \<and> q ! 0 = st"
    "found = None \<Longrightarrow> rs_queue s0 = []"
    using queue_head_ok [OF 1(2) fq] by (auto simp: s0_def)
  have quiet0: "quiet_step s s0" by (simp add: s0_def quiet_step_def same_run_def only_stops_def live_def)
  show ?case
  proof (cases found)
    case None
    then have "nextEligibleLocked s = Some (None, s0)"
      by (subst nextEligibleLocked.simps) (simp add: fq s0_def Let_def)
    with s0(1,4) None quiet0 show ?thesis by (auto simp: start_found_def)
  next
    case (Some st)
    note st = s0(3) [OF Some]
    have "tk_phase (rs_tasks s0 st) \<noteq> PhaseParked" using st by (simp add: s0_def queue_live_def)
    then obtain ok e kept where el: "eligibleLocked (rs_e s0) st = Some (ok, e)" "run_ok (s0\<lparr>rs_e := e\<rparr>)"
      and e: "e = upd_task st (\<lambda>t. t\<lparr>tk_preds := kept\<rparr>) (rs_e s0)"
      using eligible_ok [OF s0(1)] by blast
    define s1 where "s1 = s0\<lparr>rs_e := e\<rparr>"
    have cells: "tk_state (rs_tasks s1 r) = tk_state (rs_tasks s r)" "tk_phase (rs_tasks s1 r) = tk_phase (rs_tasks s r)" for r
      by (simp_all add: s1_def e s0_def upd_task_def)
    have "\<not> IsTerminalTask (tk_state (rs_tasks s st))" using st by (simp add: queue_live_def awaitingStart_def)
    then have preds: "tk_preds (rs_tasks s1 r) = tk_preds (rs_tasks s r)" if "IsTerminalTask (tk_state (rs_tasks s r))" for r
      using that by (auto simp: s1_def e s0_def upd_task_def)
    have quiet1: "quiet_step s s1"
      using cells preds by (simp add: quiet_step_def only_stops_def live_def)
        (simp add: s1_def s0_def same_run_def same_shape_def e upd_task_def)
    have live1: "live s1 = live s" by (simp add: live_def cells) (simp add: s1_def s0_def)
    have st1: "queue_live (rs_tasks s1) st" "st \<in> set (rs_order s1)" "rs_queue s1 = q"
      using st by (simp_all add: queue_live_def awaitingStart_def cells) (simp_all add: s1_def s0_def)
    have step: "nextEligibleLocked s = (if ok then Some (Some st, s1)
        else Option.bind (placeLocked (s1\<lparr>rs_queue := dropHead (rs_tasks s1) (rs_queue s1)\<rparr>) st ScanToBlocker) nextEligibleLocked)"
      using el(1) by (subst nextEligibleLocked.simps) (simp add: fq Some s1_def s0_def Let_def)
    have e1: "rs_e s1 = e" by (simp add: s1_def)
    have q1: "rs_queue s1 \<noteq> []" "rs_queue s1 ! 0 = st" using st st1(3) by simp_all
    obtain rank where rank: "entries_ranked (rs_e s0) rank"
      using s0(1) inv_entries [of s0 "{}" "{}"] by (metis run_ok_def)
    show ?thesis
    proof (cases ok)
      case True
      then have "eligibleLocked (rs_e s0) st = Some (True, e)" using el(1) by simp
      then have "all_succeeded (rs_e s1) st" unfolding e1 by (rule eligible_all_succeeded [OF rank])
      then have "start_found (Some st) s1" using st1(1,2) q1 by (simp add: start_found_def)
      moreover have "run_ok s1" using el(2) by (simp add: s1_def)
      ultimately show ?thesis using step True quiet1 by auto
    next
      case False
      have el_no: "eligibleLocked (rs_e s0) st = Some (False, e)" using el(1) False by simp
      have no: "predsOutcomeLocked (rs_e s1) st ScanToBlocker \<noteq> Some (PredSucceeded, b, e2)" for b e2
        unfolding e1 by (rule ineligible_again [OF rank el_no])
      have ok1: "run_ok s1" using el(2) by (simp add: s1_def)
      obtain s2 where s2: "placeLocked (s1\<lparr>rs_queue := dropHead (rs_tasks s1) (rs_queue s1)\<rparr>) st ScanToBlocker = Some s2"
        "run_ok s2" "quiet_step s1 s2" "live s2 < live s1 \<or> live s2 = live s1 \<and> length (rs_queue s2) < length (rs_queue s1)"
        using place_again [OF ok1 q1 st1(1,2) no] by blast
      have "((live s2, length (rs_queue s2)), (live s, length (rs_queue s))) \<in> measures [fst, snd]"
        using s2(4) live1 st1(3) s0(2) by auto
      then obtain found' s' where s': "nextEligibleLocked s2 = Some (found', s')" "run_ok s'" "quiet_step s2 s'"
        "start_found found' s'"
        using 1(1) s2(2) by blast
      have "nextEligibleLocked s = Some (found', s')" using step False s2(1) s'(1) by simp
      moreover have "quiet_step s s'" by (rule quiet_step_trans [OF quiet1 quiet_step_trans [OF s2(3) s'(3)]])
      ultimately show ?thesis using s'(2,4) by blast
    qed
  qed
qed

end
