(* ===== verification/Engine_Steps.thy ===== *)
theory Engine_Steps
  imports Engine_Run
begin

text \<open>
  The remaining operations of the run (sealing a collection, starting the drain, abandoning what is
  stranded, settling, stopping), the step relation every operation belongs to, and the properties of
  every state those steps reach.
\<close>

subsection \<open>Sealing\<close>

lemma chain_cong:
  assumes parents: "\<And>c. co_parent (e_cols e' c) = co_parent (e_cols e c)"
    and depth: "\<forall>c p. co_parent (e_cols e c) = Some p \<longrightarrow> (depth p :: nat) < depth c"
  shows "col_chain e' c = col_chain e c"
proof (induction "case c of None \<Rightarrow> 0 | Some c \<Rightarrow> Suc (depth c)" arbitrary: c rule: less_induct)
  case less
  show ?case
  proof (cases c)
    case (Some d)
    have "col_chain e' (co_parent (e_cols e d)) = col_chain e (co_parent (e_cols e d))"
      using depth Some by (intro less.hyps) (auto split: option.splits)
    then show ?thesis
      using parents Some by (subst (1 2) col_chain.simps) simp
  qed (simp add: col_chain.simps)
qed

text \<open>What may change without changing where Tasks and collections stand.\<close>

lemma topo_cong:
  assumes "\<And>c. co_entry (e_cols e' c) = co_entry (e_cols e c) \<and> co_parent (e_cols e' c) = co_parent (e_cols e c)
      \<and> ct_members (co_tally (e_cols e' c)) = ct_members (co_tally (e_cols e c))
      \<and> ct_holds (co_tally (e_cols e' c)) = ct_holds (co_tally (e_cols e c))
      \<and> ct_builderFailed (co_tally (e_cols e' c)) = ct_builderFailed (co_tally (e_cols e c))"
    "\<And>x. tk_declaration (e_tasks e' x) = tk_declaration (e_tasks e x)
      \<and> tk_collection (e_tasks e' x) = tk_collection (e_tasks e x)"
    "e_declSeq e' = e_declSeq e" "topo_ok e"
  shows "topo_ok e'"
proof -
  obtain depth :: "ColRef \<Rightarrow> nat" where depth: "\<forall>c p. co_parent (e_cols e c) = Some p \<longrightarrow> depth p < depth c"
    using assms(4) by (auto simp: topo_ok_def)
  have "col_chain e' c = col_chain e c" for c
    by (rule chain_cong [OF _ depth]) (use assms(1) in blast)
  then show ?thesis
    using assms unfolding topo_ok_def entries_ranked_def by auto
qed

lemma member_bound:
  assumes "topo_ok e" "tally_ok (e_tasks e) (co_tally (e_cols e c))"
  defines "t \<equiv> co_tally (e_cols e c)"
  shows "hasMemberThrough (e_tasks e) t (e_declSeq e) = hasMemberThrough (e_tasks e) t throughAll"
    "failedThrough t (e_declSeq e) = failedThrough t throughAll"
    "succeededThrough (e_tasks e) t (e_declSeq e) = succeededThrough (e_tasks e) t throughAll"
proof -
  have bound: "\<And>x. x \<in> set (ct_members t) \<Longrightarrow> tk_declaration (e_tasks e x) \<le> e_declSeq e" "e_declSeq e \<le> throughAll"
    using assms(1) by (auto simp: topo_ok_def t_def)
  have pos: "\<And>x. x \<in> set (ct_members t) \<Longrightarrow> 0 < tk_declaration (e_tasks e x)"
    using tally_okD_pos [OF assms(2)] by (simp add: t_def)
  show "hasMemberThrough (e_tasks e) t (e_declSeq e) = hasMemberThrough (e_tasks e) t throughAll"
  proof (cases "ct_members t")
    case (Cons x xs)
    then show ?thesis using bound(1) [of x] bound(2) by (simp add: hasMemberThrough_def)
  qed (simp add: hasMemberThrough_def)
  have "ct_firstFailed t \<noteq> 0 \<Longrightarrow> ct_firstFailed t \<le> e_declSeq e"
    using assms(2) bound(1) unfolding tally_ok_def t_def [symmetric] by metis
  then show "failedThrough t (e_declSeq e) = failedThrough t throughAll"
    using bound(2) by (auto simp: failedThrough_def)
  show "succeededThrough (e_tasks e) t (e_declSeq e) = succeededThrough (e_tasks e) t throughAll"
  proof (cases "ct_succeededPrefix t = length (ct_members t)")
    case False
    then have "ct_succeededPrefix t < length (ct_members t)"
      using tally_okD_len [OF assms(2)] by (simp add: t_def)
    then show ?thesis using bound(1) [OF nth_mem] bound(2) by (fastforce simp: succeededThrough_def)
  qed (simp add: succeededThrough_def)
qed

lemma seal_waits:
  assumes topo: "topo_ok e" and tallies: "tallies_ok e" and unsealed: "\<not> ct_sealed (co_tally (e_cols e c))"
    and "waits e r" and r: "r \<notin> set (ct_open (co_tally (e_cols e c)))"
  shows "waits (upd_tally c (\<lambda>_. fst (seal (co_tally (e_cols e c)) (e_declSeq e))) e) r"
proof -
  let ?t = "co_tally (e_cols e c)"
  define e' where "e' = upd_tally c (\<lambda>_. fst (seal ?t (e_declSeq e))) e"
  have holds: "ct_holds (co_tally (e_cols e d)) = 0" "\<not> ct_builderFailed (co_tally (e_cols e d))" for d
    using topo by (simp_all add: topo_ok_def)
  have tally: "tally_ok (e_tasks e) ?t" using tallies by (simp add: tallies_ok_def)
  note bound = member_bound [OF topo tally]
  have members: "\<And>x. x \<in> set (ct_members ?t) \<Longrightarrow> tk_declaration (e_tasks e x) \<le> e_declSeq e"
    and all: "e_declSeq e \<le> throughAll" using topo by (auto simp: topo_ok_def)
  have e': "e_tasks e' = e_tasks e" "e_draining e' = e_draining e" "\<And>d. d \<noteq> c \<Longrightarrow> e_cols e' d = e_cols e d"
    "\<And>d. co_entry (e_cols e' d) = co_entry (e_cols e d)"
    "co_tally (e_cols e' c) = ?t\<lparr>ct_sealed := True, ct_sealedThrough := e_declSeq e, ct_open := []\<rparr>"
    using unsealed holds by (simp_all add: e'_def upd_tally_def seal_def)
  have reads: "hasMemberThrough m (?t\<lparr>ct_sealed := True, ct_sealedThrough := k, ct_open := []\<rparr>) n = hasMemberThrough m ?t n"
    "succeededThrough m (?t\<lparr>ct_sealed := True, ct_sealedThrough := k, ct_open := []\<rparr>) n = succeededThrough m ?t n"
    "failedThrough (?t\<lparr>ct_sealed := True, ct_sealedThrough := k, ct_open := []\<rparr>) n = failedThrough ?t n" for m k n
    by (simp_all add: hasMemberThrough_def succeededThrough_def failedThrough_def)
  have closed: "closed_empty e p d \<Longrightarrow> closed_empty e' p d" for p d
    using unsealed bound(1) by (cases "d = c") (auto simp: closed_empty_def Let_def e' reads split: if_splits)
  obtain p b where p: "p \<in> set (tk_preds (e_tasks e r))" "held_by e p b" "registered e r b" "blocking e b"
    using \<open>waits e r\<close> by (auto simp: waits_def)
  have "held_by e' p b" using p(2) held_by_mono [of e e' p b] closed e'(4) by blast
  moreover have "registered e' r b \<and> blocking e' b"
  proof (cases "pd_task b = None \<and> pd_col b = Some c")
    case False
    have task: "taskOutcomeLocked e' t = taskOutcomeLocked e t" for t
      by (simp add: taskOutcomeLocked_def e')
    show ?thesis
    proof (cases "pd_task b")
      case None
      then obtain d where d: "pd_col b = Some d" "d \<noteq> c"
        using p(3) False by (auto simp: registered_def split: option.splits)
      have cur: "edgeCursorLocked e' b d = edgeCursorLocked e b d"
        by (simp add: edgeCursorLocked_def e' d(2))
      have "collection_read e' b d = collection_read e b d"
        unfolding collection_read_def by (simp only: cur e'(1) e'(3) [OF d(2)])
      moreover have "registered e' r b = registered e r b"
        unfolding registered_def by (simp only: None d(1) option.case cur e'(1) e'(3) [OF d(2)])
      ultimately show ?thesis using p(3,4) None d by (simp add: blocking_def)
    qed (use p(3,4) task in \<open>simp add: registered_def blocking_def e'\<close>)
  next
    case True
    show ?thesis
    proof (cases "pd_through b = 0 \<and> \<not> e_draining e")
      case True
      then have "r \<in> set (ct_open ?t)"
        using p(3) \<open>pd_task b = None \<and> pd_col b = Some c\<close> unsealed holds(1) [of c]
        by (simp add: registered_def edgeCursorLocked_def Let_def)
      with r show ?thesis by blast
    next
      case False
      have "collection_read e' b c = collection_read e b c"
        using False bound unsealed holds by (auto simp: collection_read_def edgeCursorLocked_def Let_def e' reads)
      moreover have "registered e' r b"
        using p(3) False True unsealed holds(1) [of c] members all
        by (fastforce simp: registered_def edgeCursorLocked_def Let_def e' split: if_splits)
      ultimately show ?thesis using p(4) True by (simp add: blocking_def)
    qed
  qed
  moreover have "p \<in> set (tk_preds (e_tasks e' r))" using p(1) by (simp add: e')
  ultimately show ?thesis unfolding e'_def [symmetric] waits_def by blast
qed

lemma run_okD: "run_ok s \<Longrightarrow> sched_inv s {} {}" "run_ok s \<Longrightarrow> idle s"
  by (simp_all add: run_ok_def)

lemma count_phase_cong:
  "rs_order s' = rs_order s \<Longrightarrow> (\<And>r. tk_phase (rs_tasks s' r) = tk_phase (rs_tasks s r)) \<Longrightarrow>
   count_phase s' P = count_phase s P"
  by (simp add: count_phase_def)

text \<open>Sealing a collection wakes exactly the Tasks parked on its open membership.\<close>

lemma seal_ok_run:
  assumes "run_ok s"
  shows "\<exists>s'. sealCollectionLocked s c = Some s' \<and> run_ok s' \<and> slots_bound s' = slots_bound s \<and> claims None s s'"
proof -
  let ?t = "rs_tally s c" and ?e = "rs_e s"
  have inv: "sched_inv s {} {}" "idle s" using assms by (rule run_okD)+
  then have parts: "topo_ok ?e" "tallies_ok ?e" by (simp_all add: sched_inv_def)
  define t where "t = fst (seal ?t (e_declSeq ?e))"
  define woken where "woken = snd (seal ?t (e_declSeq ?e))"
  define s1 where "s1 = s\<lparr>rs_e := upd_tally c (\<lambda>_. t) ?e\<rparr>"
  have holds: "ct_holds ?t = 0" using parts(1) by (simp add: topo_ok_def)
  have step: "sealCollectionLocked s c = wakeLocked s1 woken"
    by (simp add: sealCollectionLocked_def s1_def t_def woken_def split_beta)
  have tally: "tally_ok (e_tasks ?e) t \<and> parked_ok (e_tasks ?e) t"
    unfolding t_def by (rule seal_ok) (use parts(2) in \<open>simp_all add: tallies_ok_def\<close>)
  have same: "ct_members t = ct_members ?t" "ct_holds t = ct_holds ?t" "ct_builderFailed t = ct_builderFailed ?t"
    by (simp_all add: t_def seal_def)
  have waits1: "waits (rs_e s1) r" if "waits ?e r" "r \<notin> set woken" for r
  proof (cases "ct_sealed ?t")
    case True
    then have "s1 = s" by (simp add: s1_def t_def seal_def upd_tally_def)
    with that show ?thesis by simp
  next
    case False
    then have "woken = ct_open ?t" using holds by (simp add: woken_def seal_def)
    then show ?thesis
      using seal_waits [OF parts False that(1)] that(2) by (simp add: s1_def t_def)
  qed
  have "topo_ok (rs_e s1)"
    by (rule topo_cong [OF _ _ _ parts(1)]) (simp_all add: s1_def upd_tally_def same)
  moreover have "tallies_ok (rs_e s1)"
    using parts(2) tally by (simp add: tallies_ok_def s1_def upd_tally_def)
  moreover have tasks: "rs_tasks s1 = rs_tasks s" by (simp add: s1_def upd_tally_def)
  moreover have "count_phase s1 P = count_phase s P" for P
    by (rule count_phase_cong) (simp_all add: tasks, simp add: s1_def)
  ultimately have "sched_inv s1 ({} \<union> set woken) {}"
    using inv(1) waits1 by (auto simp: sched_inv_def phases_ok_def counts_ok_def queue_ok_def s1_def)
  moreover have "idle s1" using inv(2) by (simp add: idle_def s1_def)
  ultimately obtain s' where "wakeLocked s1 woken = Some s'" "sched_inv s' {} {}" "idle s'" "quiet_step s1 s'"
    using wake_spec by blast
  moreover have "slots_bound s1 = slots_bound s" by (simp add: slots_bound_def concurrencyCeilingLocked_def s1_def)
  moreover have "claims None s s1" by (simp add: claims_def s1_def)
  ultimately show ?thesis
    using slots_same_run same_run_claims claims_trans by (fastforce simp: step run_ok_def quiet_step_def)
qed

subsection \<open>Draining\<close>

text \<open>Placing a list of Tasks again leaves none of them unregistered.\<close>

lemma replace_loop_spec:
  "sched_inv s X {} \<Longrightarrow> idle s \<Longrightarrow>
   \<exists>s'. replace_loop rs s = Some s' \<and> sched_inv s' (X - set rs) {} \<and> idle s' \<and> quiet_step s s'"
proof (induction rs arbitrary: s X)
  case (Cons st rs)
  show ?case
  proof (cases "tk_phase (rs_tasks s st) = PhaseParked \<and> \<not> IsTerminalTask (tk_state (rs_tasks s st))")
    case True
    then have st: "\<not> IsTerminalTask (tk_state (rs_tasks s st))" "st \<in> set (rs_order s)"
      "schedule_awaitingStart (tk_phase (rs_tasks s st))"
      using Cons.prems(1) by (auto simp: sched_inv_def phases_ok_def)
    have "sched_inv s (insert st X) {}" using sched_inv_mono [OF Cons.prems(1)] by blast
    then obtain s1 where s1: "placeLocked s st ScanAll = Some s1" "sched_inv s1 (insert st X - {st}) ({} - {st})"
      "idle s1" "quiet_step s s1"
      using place_spec [OF _ Cons.prems(2) st] by blast
    then have "sched_inv s1 (X - {st}) {}" by simp
    then obtain s' where "replace_loop rs s1 = Some s'" "sched_inv s' (X - {st} - set rs) {}" "idle s'" "quiet_step s1 s'"
      using Cons.IH s1(3) by blast
    moreover have "X - {st} - set rs = X - set (st # rs)" by auto
    ultimately show ?thesis using True s1(1,4) quiet_step_trans by auto
  next
    case False
    have "tk_phase (rs_tasks s st) \<noteq> PhaseParked"
      using False Cons.prems(1) by (auto simp: sched_inv_def phases_ok_def)
    then have "sched_inv s (X - {st}) {}" using Cons.prems(1) by (auto simp: sched_inv_def)
    then obtain s' where "replace_loop rs s = Some s'" "sched_inv s' (X - {st} - set rs) {}" "idle s'" "quiet_step s s'"
      using Cons.IH Cons.prems(2) by blast
    moreover have "X - {st} - set rs = X - set (st # rs)" by auto
    ultimately show ?thesis using False by auto
  qed
qed simp

lemma begin_drain_ok:
  assumes "run_ok s"
  shows "\<exists>s'. begin_drain s = Some s' \<and> run_ok s' \<and> slots_bound s' = slots_bound s \<and> claims None s s'"
proof -
  have inv: "sched_inv s {} {}" "idle s" using assms by (rule run_okD)+
  define s0 where "s0 = s\<lparr>rs_e := (rs_e s)\<lparr>e_draining := True\<rparr>\<rparr>"
  define s1 where "s1 = unregister_all s0"
  define rs where "rs = filter (\<lambda>r. tk_phase (rs_tasks s r) = PhaseParked) (rs_order s)"
  have cell: "tk_state (rs_tasks s1 r) = tk_state (rs_tasks s r)" "tk_phase (rs_tasks s1 r) = tk_phase (rs_tasks s r)"
    "tk_declaration (rs_tasks s1 r) = tk_declaration (rs_tasks s r)"
    "tk_collection (rs_tasks s1 r) = tk_collection (rs_tasks s r)" for r
    by (simp_all add: s1_def s0_def unregister_all_def)
  have run: "rs_order s1 = rs_order s" "rs_queue s1 = rs_queue s" "rs_parked s1 = rs_parked s" "rs_wg s1 = rs_wg s"
    "rs_executing s1 = rs_executing s" "rs_closed s1 = rs_closed s" "idle s1"
    using inv(2) by (simp_all add: s1_def s0_def unregister_all_def idle_def)
  have tally: "rs_tally s1 c = unpark (rs_tally s c)" for c by (simp add: s1_def s0_def unregister_all_def)
  have reads: "same_reads (rs_tasks s) (rs_tasks s1)" by (simp add: same_reads_def cell)
  have "topo_ok (rs_e s1)"
    by (rule topo_cong [of _ "rs_e s"])
      (use inv(1) cell in \<open>simp_all add: sched_inv_def s1_def s0_def unregister_all_def unpark_def\<close>)
  moreover have "tallies_ok (rs_e s1)"
    unfolding tallies_ok_def tally
    using unpark_ok inv(1) tally_ok_cong [OF reads] parked_ok_cong [OF reads]
    by (simp add: sched_inv_def tallies_ok_def)
  moreover have "count_phase s1 P = count_phase s P" for P
    by (rule count_phase_cong) (simp_all add: run cell)
  moreover have "decl (rs_tasks s1) = decl (rs_tasks s)" by (simp add: decl_def fun_eq_iff cell)
  moreover have "r \<in> set rs" if "tk_phase (rs_tasks s r) = PhaseParked" for r
    using that inv(1) by (auto simp: rs_def sched_inv_def phases_ok_def)
  ultimately have "sched_inv s1 (set rs) {}"
    using inv(1) by (auto simp: sched_inv_def phases_ok_def counts_ok_def queue_ok_def cell run)
  then obtain s' where "replace_loop rs s1 = Some s'" "sched_inv s' (set rs - set rs) {}" "idle s'" "quiet_step s1 s'"
    using replace_loop_spec run(7) by blast
  moreover have "begin_drain s = replace_loop rs s1"
    by (simp add: begin_drain_def replaceParkedLocked_def rs_def s1_def s0_def)
  moreover have "slots_bound s1 = slots_bound s"
    by (simp add: slots_bound_def concurrencyCeilingLocked_def s1_def s0_def unregister_all_def)
  moreover have "claims None s s1" by (simp add: claims_def s1_def s0_def unregister_all_def)
  ultimately show ?thesis
    using slots_same_run same_run_claims claims_trans by (fastforce simp: run_ok_def quiet_step_def)
qed

subsection \<open>Settling and stopping\<close>

lemma settle_ok:
  assumes "run_ok s" "\<not> IsTerminalTask (tk_state (rs_tasks s st))" "st \<in> set (rs_order s)" "IsTerminalTask state"
  obtains s' where "settleLocked s st state = Some s'" "run_ok s'" "same_run s s'" "live s' < live s"
    "tk_state (rs_tasks s' st) = honestState s st state"
    "\<And>r. r \<noteq> st \<Longrightarrow> tk_state (rs_tasks s' r) = tk_state (rs_tasks s r)
        \<or> tk_state (rs_tasks s' r) = NotStarted \<and> awaitingStart (rs_tasks s r)"
    "no_new_phases s s'"
  using settle_spec [OF run_okD [OF assms(1)] assms(2-4)] that by (auto simp: run_ok_def)

lemma no_new_terminals: "same_run s s' \<Longrightarrow> rs_order s' = rs_order s"
  by (simp add: same_run_def)

text \<open>A terminal row stays as it is under any settle.\<close>

lemma settle_keeps_terminal:
  assumes "\<And>r. r \<noteq> st \<Longrightarrow> tk_state (rs_tasks s' r) = tk_state (rs_tasks s r)
        \<or> tk_state (rs_tasks s' r) = NotStarted \<and> awaitingStart (rs_tasks s r)"
    "IsTerminalTask (tk_state (rs_tasks s r))" "r \<noteq> st"
  shows "tk_state (rs_tasks s' r) = tk_state (rs_tasks s r)"
  using assms by (auto simp: awaitingStart_def)

lemma abandon_loop_spec:
  "run_ok s \<Longrightarrow> \<exists>s'. abandon_loop rs s = Some s' \<and> run_ok s' \<and> no_new_phases s s' \<and> same_run s s'
    \<and> (\<forall>r\<in>set rs. tk_phase (rs_tasks s' r) \<noteq> PhaseParked)"
proof (induction rs arbitrary: s)
  case (Cons st rs)
  have inv: "sched_inv s {} {}" using Cons.prems by (rule run_okD)
  show ?case
  proof (cases "tk_phase (rs_tasks s st) = PhaseParked \<and> \<not> IsTerminalTask (tk_state (rs_tasks s st))")
    case True
    then have st: "st \<in> set (rs_order s)" using inv by (auto simp: sched_inv_def phases_ok_def)
    obtain s1 where s1: "settleLocked s st NotStarted = Some s1" "run_ok s1" "same_run s s1" "no_new_phases s s1"
      "tk_state (rs_tasks s1 st) = honestState s st NotStarted"
      using settle_ok [OF Cons.prems _ st, of NotStarted] True by auto
    have "tk_phase (rs_tasks s1 st) \<noteq> PhaseParked"
      using s1(5) run_okD(1) [OF s1(2)] by (auto simp: sched_inv_def phases_ok_def honestState_def)
    moreover obtain s' where "abandon_loop rs s1 = Some s'" "run_ok s'" "no_new_phases s1 s'" "same_run s1 s'"
      "\<forall>r\<in>set rs. tk_phase (rs_tasks s' r) \<noteq> PhaseParked"
      using Cons.IH s1(2) by blast
    ultimately show ?thesis
      using True s1 no_new_phases_trans same_run_trans by (auto simp: markNotStartedLocked_def no_new_phases_def)
  next
    case False
    have "tk_phase (rs_tasks s st) \<noteq> PhaseParked" using False inv by (auto simp: sched_inv_def phases_ok_def)
    moreover obtain s' where "abandon_loop rs s = Some s'" "run_ok s'" "no_new_phases s s'" "same_run s s'"
      "\<forall>r\<in>set rs. tk_phase (rs_tasks s' r) \<noteq> PhaseParked"
      using Cons.IH Cons.prems by blast
    ultimately show ?thesis using False by (auto simp: no_new_phases_def)
  qed
qed simp

lemma count_phase_zero: "count_phase s P = 0 \<longleftrightarrow> list_all (\<lambda>r. \<not> P (tk_phase (rs_tasks s r))) (rs_order s)"
  by (auto simp: count_phase_def filter_empty_conv list_all_iff)

lemma parked_zero:
  assumes "run_ok s"
  shows "rs_parked s = 0 \<longleftrightarrow> (\<forall>r. tk_phase (rs_tasks s r) \<noteq> PhaseParked)"
proof -
  have "rs_parked s = count_phase s (\<lambda>p. p = PhaseParked)"
    using assms by (simp add: run_ok_def sched_inv_def counts_ok_def)
  then have "rs_parked s = 0 \<longleftrightarrow> (\<forall>r\<in>set (rs_order s). tk_phase (rs_tasks s r) \<noteq> PhaseParked)"
    by (simp add: count_phase_zero list_all_iff)
  moreover have "r \<in> set (rs_order s)" if "tk_phase (rs_tasks s r) = PhaseParked" for r
    using that assms by (auto simp: run_ok_def sched_inv_def phases_ok_def)
  ultimately show ?thesis by blast
qed

lemma abandon_ok:
  assumes "run_ok s"
  shows "\<exists>changed s'. abandonStrandedLocked s = Some (changed, s') \<and> run_ok s' \<and> rs_parked s' = 0
    \<and> (changed \<longleftrightarrow> rs_parked s \<noteq> 0) \<and> same_run s s'"
proof (cases "rs_parked s = 0")
  case False
  obtain s' where s': "abandon_loop (rs_order s) s = Some s'" "run_ok s'" "same_run s s'"
    "\<forall>r\<in>set (rs_order s). tk_phase (rs_tasks s' r) \<noteq> PhaseParked"
    using abandon_loop_spec [OF assms] by blast
  moreover have "r \<in> set (rs_order s)" if "tk_phase (rs_tasks s' r) = PhaseParked" for r
    using that s'(2,3) by (auto simp: run_ok_def sched_inv_def phases_ok_def same_run_def)
  ultimately have "rs_parked s' = 0" using parked_zero by blast
  then show ?thesis using False s' by (auto simp: abandonStrandedLocked_def)
qed (use assms in \<open>auto simp: abandonStrandedLocked_def\<close>)

lemma stop_ok:
  assumes "run_ok s" "st \<in> set (rs_order s)"
  shows "\<exists>s'. stopUnstartedLocked s st = Some s' \<and> run_ok s' \<and> same_run s s'"
proof (cases "IsTerminalTask (tk_state (rs_tasks s st)) \<or> tk_phase (rs_tasks s st) = PhaseRunning")
  case False
  then show ?thesis
    using settle_ok [OF assms(1) _ assms(2), of NotStarted]
    by (metis stopUnstartedLocked_def markNotStartedLocked_def IsTerminalTask.simps(6))
qed (use assms in \<open>simp add: stopUnstartedLocked_def\<close>)

subsection \<open>Starting\<close>

lemma ceiling_cong:
  "rs_maxConcurrency s' = rs_maxConcurrency s \<Longrightarrow> rs_procs s' = rs_procs s \<Longrightarrow>
   concurrencyCeilingLocked s' = concurrencyCeilingLocked s"
  by (simp add: concurrencyCeilingLocked_def)

lemma take_slot_fields [simp]:
  "rs_tasks (takeSlotLocked s) = rs_tasks s" "rs_order (takeSlotLocked s) = rs_order s"
  "rs_queue (takeSlotLocked s) = rs_queue s" "rs_e (takeSlotLocked s) = rs_e s"
  "rs_maxConcurrency (takeSlotLocked s) = rs_maxConcurrency s" "rs_procs (takeSlotLocked s) = rs_procs s"
  by (simp_all add: takeSlotLocked_def)

lemma claim_more [simp]:
  "rs_queue (claimLocked s st) = rs_queue s" "rs_claims (claimLocked s st) = rs_claims s"
  "rs_maxObserved (claimLocked s st) = rs_maxObserved s"
  "tk_declaration (rs_tasks (claimLocked s st) r) = tk_declaration (rs_tasks s r)"
  "tk_preds (rs_tasks (claimLocked s st) r) = tk_preds (rs_tasks s r)"
  by (simp_all add: claimLocked_def enterPhaseLocked_def upd_task_def Let_def)

lemma claim_outcomes:
  assumes ranked: "entries_ranked (rs_e s) rank" and st: "queue_live (rs_tasks s) st"
  shows "pred_outcome (rs_e (claimLocked s st)) p = pred_outcome (rs_e s) p"
proof -
  let ?e' = "rs_e (claimLocked s st)"
  have cols: "e_cols ?e' = e_cols (rs_e s)" and drain: "e_draining ?e' = e_draining (rs_e s)"
    by (simp_all add: claimLocked_def Let_def upd_task_def enterPhaseLocked_def)
  have state: "tk_state (e_tasks ?e' r) = (if r = st \<and> tk_state (rs_tasks s st) = Pending then Running else tk_state (rs_tasks s r))" for r
    by (simp add: claimLocked_def Let_def upd_task_def enterPhaseLocked_def)
  have task: "taskOutcomeLocked ?e' r = taskOutcomeLocked (rs_e s) r" for r
    using st by (auto simp: taskOutcomeLocked_def state drain neverDefined_def queue_live_def stateOutcome.simps)
  have "outcomeLocked ?e' p = outcomeLocked (rs_e s) p"
    by (rule outcome_cong [OF ranked task]) (auto simp: cols intro!: read_same_shape claim_shape)
  then show ?thesis by (simp add: pred_outcome_def)
qed

definition started :: "TaskRef option \<Rightarrow> schedState \<Rightarrow> schedState \<Rightarrow> bool" where
  "started cand s s' \<longleftrightarrow>
     (case cand of
        None \<Rightarrow> rs_cancelled s \<or> rs_inflight s \<ge> concurrencyCeilingLocked s
          \<or> (\<forall>r. tk_phase (rs_tasks s' r) \<noteq> PhaseQueued)
      | Some st \<Rightarrow> tk_phase (rs_tasks s' st) = PhaseRunning \<and> all_succeeded (rs_e s') st
          \<and> (\<forall>r. tk_phase (rs_tasks s' r) = PhaseQueued \<longrightarrow> decl (rs_tasks s') st \<le> decl (rs_tasks s') r)
          \<and> rs_executing s' = rs_executing s + 1 \<and> rs_inflight s' = rs_inflight s + 1)"

lemma takeEligible_ok:
  assumes "run_ok s"
  shows "\<exists>cand s'. takeEligible s = Some (cand, s') \<and> run_ok s' \<and> started cand s s'
    \<and> (slots_bound s \<longrightarrow> slots_bound s') \<and> claims (map_option (\<lambda>st. (st, True)) cand) s s'"
proof (cases "rs_cancelled s \<or> rs_inflight s \<ge> concurrencyCeilingLocked s")
  case True
  then have "takeEligible s = Some (None, s)" by (auto simp: takeEligible_def)
  with assms True show ?thesis by (auto simp: started_def claims_def)
next
  case False
  obtain found s1 where n: "nextEligibleLocked s = Some (found, s1)" "run_ok s1" "quiet_step s s1" "start_found found s1"
    using nextEligible_ok [OF assms] by blast
  have same: "rs_inflight s1 = rs_inflight s" "rs_maxObserved s1 = rs_maxObserved s" "rs_executing s1 = rs_executing s"
    "rs_claims s1 = rs_claims s" "concurrencyCeilingLocked s1 = concurrencyCeilingLocked s"
    using n(3) by (auto simp: quiet_step_def same_run_def intro!: ceiling_cong)
  have q: "queue_ok s1 {}" using run_okD(1) [OF n(2)] by (simp add: sched_inv_def)
  show ?thesis
  proof (cases found)
    case None
    then have "rs_queue s1 = []" using n(4) by (simp add: start_found_def)
    then have "\<forall>r. tk_phase (rs_tasks s1 r) \<noteq> PhaseQueued" using q by (auto simp: queue_ok_def)
    then have "started None s s1" by (simp add: started_def)
    moreover have "takeEligible s = Some (None, s1)" using False n(1) None by (simp add: takeEligible_def)
    ultimately show ?thesis using n(2) same None by (auto simp: slots_bound_def claims_def)
  next
    case (Some st)
    have st: "queue_live (rs_tasks s1) st" "st \<in> set (rs_order s1)" "rs_queue s1 \<noteq> []" "rs_queue s1 ! 0 = st"
      "all_succeeded (rs_e s1) st"
      using n(4) Some by (simp_all add: start_found_def)
    let ?s2 = "takeSlotLocked s1"
    define s' where "s' = claimLocked ?s2 st"
    have ok: "run_ok s'" unfolding s'_def
      by (rule claim_ok) (use n(2) st in \<open>simp_all add: queue_live_def\<close>)
    have take: "takeEligible s = Some (Some st, s')"
      using False n(1) Some by (simp add: takeEligible_def s'_def)
    obtain rank where "entries_ranked (rs_e s1) rank" using inv_entries [OF run_okD(1) [OF n(2)]] by blast
    then have "pred_outcome (rs_e s') p = pred_outcome (rs_e s1) p" for p
      using claim_outcomes [of ?s2 rank st p] st(1) by (simp add: s'_def)
    then have "all_succeeded (rs_e s') st" using st(5) by (simp add: all_succeeded_def s'_def)
    moreover have "decl (rs_tasks s') st \<le> decl (rs_tasks s') r" if "tk_phase (rs_tasks s' r) = PhaseQueued" for r
    proof -
      have "tk_phase (rs_tasks s1 r) = PhaseQueued" using that by (simp add: s'_def split: if_splits)
      then have "r \<in> set (rs_queue s1)" using q by (auto simp: queue_ok_def)
      then show ?thesis
        using heap_ok_least [of "decl (rs_tasks s1)" "rs_queue s1"] q st(4)
        by (auto simp: in_set_conv_nth queue_ok_def s'_def decl_def)
    qed
    ultimately have "started (Some st) s s'" using same by (simp add: started_def s'_def takeSlotLocked_def)
    moreover have "slots_bound s'" if "slots_bound s"
    proof -
      have "concurrencyCeilingLocked s' = concurrencyCeilingLocked s1" by (rule ceiling_cong) (simp_all add: s'_def)
      then show ?thesis using that False same by (simp add: slots_bound_def s'_def takeSlotLocked_def)
    qed
    moreover have "claims (Some (st, True)) s s'" using same by (simp add: claims_def s'_def takeSlotLocked_def)
    ultimately show ?thesis using take ok Some by auto
  qed
qed

text \<open>A parked Task reads ineligible, and the read keeps the predecessor it waits for.\<close>

lemma parked_read:
  assumes "run_ok s" "tk_phase (rs_tasks s r) = PhaseParked"
  shows "\<exists>e. eligibleLocked (rs_e s) r = Some (False, e) \<and> run_ok (s\<lparr>rs_e := e\<rparr>)"
proof -
  let ?e = "rs_e s"
  have inv: "sched_inv s {} {}" using assms(1) by (rule run_okD)
  obtain rank where rank: "entries_ranked ?e rank" using inv_entries [OF inv] by blast
  obtain v b kept where l: "preds_loop ?e ScanToBlocker (tk_preds (e_tasks ?e r)) PredSucceeded no_pred [] = Some (v, b, kept)"
    using preds_loop_returns [OF rank, of ScanToBlocker "tk_preds (rs_tasks s r)" PredSucceeded no_pred "[]"] by auto
  define e where "e = upd_task r (\<lambda>t. t\<lparr>tk_preds := kept\<rparr>) ?e"
  have p: "predsOutcomeLocked ?e r ScanToBlocker = Some (v, b, e)"
    by (simp add: predsOutcomeLocked_def l e_def upd_task_def)
  obtain p0 b0 where w: "p0 \<in> set (tk_preds (e_tasks ?e r))" "held_by ?e p0 b0" "registered ?e r b0" "blocking ?e b0"
    using inv assms(2) by (auto simp: sched_inv_def waits_def)
  have not_succeeded: "pred_outcome ?e p0 \<noteq> PredSucceeded"
    using held_not_succeeded [OF w(2,4)] outcome_returns [OF rank, of p0] by (auto simp: pred_outcome_def)
  then have v: "v \<noteq> PredSucceeded" using preds_loop_blocker [OF l] w(1) by auto
  have "p0 \<in> set kept"
    using preds_loop_kept [OF l] w(1) not_succeeded by (force simp: pred_outcome_def outcomeLocked_def)
  moreover have grow: "grows ?e e" unfolding e_def by (rule grows_upd_task) (auto simp: neverDefined_def)
  then have "held_by e p0 b0" "registered e r b0" "blocking e b0"
    using shape_held_by [OF _ w(2)] grows_registered [OF grow w(3)] grows_blocking [OF grow w(4)]
    by (simp_all add: grows_def)
  ultimately have waits: "waits e r" by (auto simp: waits_def e_def upd_task_def)
  have "sched_inv (s\<lparr>rs_e := e\<rparr>) {r} {}"
    by (rule preds_inv(1) [OF sched_inv_mono [OF inv] p]) auto
  with waits have "sched_inv (s\<lparr>rs_e := e\<rparr>) {} {}" by (auto simp: sched_inv_def)
  then show ?thesis using p v assms(1) by (simp add: eligibleLocked_def run_ok_def idle_def)
qed

lemma awaiting_read:
  assumes "run_ok s"
  shows "\<exists>ok e. eligibleLocked (rs_e s) r = Some (ok, e) \<and> run_ok (s\<lparr>rs_e := e\<rparr>)
    \<and> (\<exists>kept. e = upd_task r (\<lambda>t. t\<lparr>tk_preds := kept\<rparr>) (rs_e s))"
proof (cases "tk_phase (rs_tasks s r) = PhaseParked")
  case True
  then show ?thesis
    using parked_read [OF assms True]
    by (fastforce simp: eligibleLocked_def predsOutcomeLocked_def bind_eq_Some_conv upd_task_def)
qed (use eligible_ok [OF assms] in blast)

lemma waiter_ok:
  assumes "run_ok s"
  shows "\<exists>c s'. claimForWaiter s cand depth = Some (c, s') \<and> run_ok s' \<and> (slots_bound s \<longrightarrow> slots_bound s')
    \<and> claims c s s'"
proof (cases "rs_cancelled s \<or> cand \<notin> set (rs_order s) \<or> \<not> awaitingStart (rs_tasks s cand)")
  case False
  then obtain ok e kept where el: "eligibleLocked (rs_e s) cand = Some (ok, e)" "run_ok (s\<lparr>rs_e := e\<rparr>)"
    and e: "e = upd_task cand (\<lambda>t. t\<lparr>tk_preds := kept\<rparr>) (rs_e s)"
    using awaiting_read [OF assms] by blast
  define s1 where "s1 = s\<lparr>rs_e := e\<rparr>"
  have claimable: "claimableLocked s cand = Some (ok, s1)" using False el(1) by (simp add: claimableLocked_def s1_def)
  have st: "cand \<in> set (rs_order s1)" "awaitingStart (rs_tasks s1 cand)"
    using False by (simp_all add: s1_def e upd_task_def awaitingStart_def)
  have ceiling: "concurrencyCeilingLocked (claimLocked t cand) = concurrencyCeilingLocked t"
    "concurrencyCeilingLocked (takeSlotLocked t) = concurrencyCeilingLocked t"
    "concurrencyCeilingLocked s1 = concurrencyCeilingLocked s" for t
    by (rule ceiling_cong; simp add: s1_def)+
  have ok1: "run_ok s1" "slots_bound s \<Longrightarrow> slots_bound s1" using el(2) ceiling(3) by (simp_all add: s1_def slots_bound_def)
  show ?thesis
  proof (cases "\<not> ok \<or> depth = 0 \<and> rs_inflight s1 \<ge> concurrencyCeilingLocked s1")
    case True
    then have "claimForWaiter s cand depth = Some (None, s1)"
      by (auto simp: claimForWaiter_def claimable takeWaiterSlotLocked_def)
    moreover have "claims None s s1" by (simp add: claims_def s1_def)
    ultimately show ?thesis using ok1 by blast
  next
    case False
    define s2 where "s2 = (if depth > 0 then s1 else takeSlotLocked s1)"
    have "claimForWaiter s cand depth = Some (Some (cand, depth = 0), claimLocked s2 cand)"
      using False by (auto simp: claimForWaiter_def claimable takeWaiterSlotLocked_def s2_def)
    moreover have "run_ok (claimLocked s2 cand)"
      by (rule claim_ok) (use ok1 st in \<open>auto simp: s2_def\<close>)
    moreover have "slots_bound (claimLocked s2 cand)" if "slots_bound s"
    proof -
      have "rs_inflight s2 = rs_inflight s1 + (if depth > 0 then 0 else 1)"
        "rs_maxObserved s2 = (if depth > 0 then rs_maxObserved s1 else max (rs_maxObserved s1) (rs_inflight s1 + 1))"
        "concurrencyCeilingLocked s2 = concurrencyCeilingLocked s1"
        using ceiling(2) by (simp_all add: s2_def takeSlotLocked_def)
      then show ?thesis using ok1(2) [OF that] False by (auto simp: slots_bound_def ceiling(1))
    qed
    moreover have "claims (Some (cand, depth = 0)) s (claimLocked s2 cand)"
      by (auto simp: claims_def s2_def s1_def takeSlotLocked_def)
    ultimately show ?thesis by blast
  qed
next
  case True
  then have "claimForWaiter s cand depth = Some (None, s)" by (auto simp: claimForWaiter_def claimableLocked_def)
  moreover have "claims None s s" by (simp add: claims_def)
  ultimately show ?thesis using assms by blast
qed

subsection \<open>The run as a step relation\<close>

text \<open>
  One step per operation a goroutine performs under the mutex. \<open>step_settle\<close> is every way a Task
  ends (a verb, a callback's return, a cancelled Confirm, a duplicate declaration, the final sweep);
  \<open>step_finish\<close> is the end of a callback, which returns the slot its claim took;
  \<open>step_problem\<close> is a Problem recorded on a row, \<open>step_cancel\<close> the interrupt, \<open>step_end\<close> the end of
  the run, after which \<open>ensureOpen\<close> refuses.
\<close>

inductive run_step :: "schedState \<Rightarrow> schedState \<Rightarrow> bool" where
  step_submit: "submitWork s st = Some s' \<Longrightarrow> run_step s s'"
| step_start: "takeEligible s = Some (cand, s') \<Longrightarrow> run_step s (execute (map_option (\<lambda>st. (st, True)) cand) s')"
| step_claim: "claimForWaiter s st depth = Some (claim, s') \<Longrightarrow> run_step s (execute claim s')"
| step_finish: "(st, pooled) \<in> set (rs_claims s) \<Longrightarrow>
    run_step s ((finishClaimed s pooled)\<lparr>rs_claims := remove1 (st, pooled) (rs_claims s)\<rparr>)"
| step_settle: "\<not> IsTerminalTask (tk_state (rs_tasks s st)) \<Longrightarrow> st \<in> set (rs_order s) \<Longrightarrow> IsTerminalTask state \<Longrightarrow>
    settleLocked s st state = Some s' \<Longrightarrow> run_step s s'"
| step_stop: "st \<in> set (rs_order s) \<Longrightarrow> stopUnstartedLocked s st = Some s' \<Longrightarrow> run_step s s'"
| step_seal: "sealCollectionLocked s c = Some s' \<Longrightarrow> run_step s s'"
| step_drain: "begin_drain s = Some s' \<Longrightarrow> run_step s s'"
| step_strand: "abandonStrandedLocked s = Some (changed, s') \<Longrightarrow> run_step s s'"
| step_problem: "run_step s (s\<lparr>rs_problems := (rs_problems s)(st := True)\<rparr>)"
| step_cancel: "run_step s (s\<lparr>rs_cancelled := True\<rparr>)"
| step_end: "run_step s (s\<lparr>rs_ended := True\<rparr>)"

text \<open>A run before anything is submitted: Tasks and collections are declared and wired.\<close>

definition fresh_tally :: "task_store \<Rightarrow> collectionTally \<Rightarrow> bool" where
  "fresh_tally m t \<longleftrightarrow>
     ct_succeededPrefix t = 0 \<and> ct_firstFailed t = 0 \<and> ct_parked t = [] \<and> ct_open t = [] \<and>
     sorted_wrt (\<lambda>x y. tk_declaration (m x) < tk_declaration (m y)) (ct_members t) \<and>
     list_all (\<lambda>x. 0 < tk_declaration (m x)) (ct_members t)"

definition fresh_run :: "schedState \<Rightarrow> bool" where
  "fresh_run s \<longleftrightarrow>
     topo_ok (rs_e s) \<and> (\<forall>c. fresh_tally (rs_tasks s) (rs_tally s c)) \<and>
     (\<forall>r. tk_state (rs_tasks s r) = Pending \<and> tk_phase (rs_tasks s r) = PhaseDeclared) \<and>
     distinct (rs_order s) \<and> rs_queue s = [] \<and> rs_parked s = 0 \<and> rs_woken s = [] \<and> \<not> rs_waking s \<and>
     rs_wg s = 0 \<and> rs_inflight s = 0 \<and> rs_maxObserved s = 0 \<and> rs_executing s = 0 \<and> rs_claims s = [] \<and>
     rs_closed s = {}"

lemma fresh_ok:
  assumes "fresh_run s"
  shows "run_ok s" "slots_bound s" "slots_exact s"
proof -
  have "tally_ok (rs_tasks s) (rs_tally s c) \<and> parked_ok (rs_tasks s) (rs_tally s c)" for c
    using assms
    by (auto simp: fresh_run_def fresh_tally_def tally_ok_def parked_ok_def list_all_iff stateOutcome.simps)
  moreover have "count_phase s (\<lambda>p. p = PhaseParked) = 0" "count_phase s schedule_awaitingStart = 0"
    using assms by (simp_all add: count_phase_zero list_all_iff fresh_run_def)
  ultimately show "run_ok s"
    using assms by (auto simp: run_ok_def sched_inv_def tallies_ok_def phases_ok_def counts_ok_def queue_ok_def
        idle_def heap_ok_def fresh_run_def)
  show "slots_bound s"
    using assms by (auto simp: slots_bound_def concurrencyCeilingLocked_def fresh_run_def)
  show "slots_exact s" using assms by (simp add: slots_exact_def fresh_run_def)
qed

lemma step_ok:
  assumes "run_step s s'" "run_ok s" "slots_bound s" "slots_exact s"
  shows "run_ok s' \<and> slots_bound s' \<and> slots_exact s'"
  using assms
proof (induction rule: run_step.induct)
  case (step_submit s st s')
  then show ?case using submit_ok [of s st] slots_same_run claims_exact [OF same_run_claims] by fastforce
next
  case (step_start s cand s')
  then show ?case using takeEligible_ok [of s] execute_exact by fastforce
next
  case (step_claim s st depth claim s')
  then show ?case using waiter_ok [of s st depth] execute_exact by fastforce
next
  case (step_finish st pooled s)
  have "run_ok ((finishClaimed s pooled)\<lparr>rs_claims := remove1 (st, pooled) (rs_claims s)\<rparr>)"
    using step_finish(2)
    by (simp add: run_ok_def sched_inv_def idle_def phases_ok_def counts_ok_def queue_ok_def count_phase_def finishClaimed_def)
  then show ?case
    using step_finish finish_exact by (auto simp: slots_bound_def concurrencyCeilingLocked_def finishClaimed_def)
next
  case (step_settle s st state s')
  then show ?case using settle_ok [of s st state] slots_same_run claims_exact [OF same_run_claims] by (metis option.inject)
next
  case (step_stop st s s')
  then show ?case using stop_ok [of s st] slots_same_run claims_exact [OF same_run_claims] by fastforce
next
  case (step_seal s c s')
  then show ?case using seal_ok_run [of s c] claims_exact by fastforce
next
  case (step_drain s s')
  then show ?case using begin_drain_ok [of s] claims_exact by fastforce
next
  case (step_strand s changed s')
  then show ?case using abandon_ok [of s] slots_same_run claims_exact [OF same_run_claims] by fastforce
qed (auto simp: run_ok_def sched_inv_def idle_def phases_ok_def counts_ok_def queue_ok_def count_phase_def
  slots_bound_def concurrencyCeilingLocked_def slots_exact_def)

lemma reachable_ok:
  assumes "fresh_run s0" "run_step\<^sup>*\<^sup>* s0 s"
  shows "run_ok s" "slots_bound s" "slots_exact s"
proof -
  have "run_ok s \<and> slots_bound s \<and> slots_exact s"
    using assms(2) by (induction rule: rtranclp_induct) (use fresh_ok [OF assms(1)] step_ok in auto)
  then show "run_ok s" "slots_bound s" "slots_exact s" by simp_all
qed

subsection \<open>What every reachable state promises\<close>

text \<open>
  (C1) No wakeup is lost in a run whose Tasks, containers, members and edges are all declared before its
  first step, with acyclic entries and no container builders (\<open>fresh_run\<close>): in every state it reaches,
  whatever was submitted, settled, sealed, claimed or drained and in whatever order, a parked Task is
  still waiting for something, and reading its predecessors again would not let it start. Declaring or
  wiring more between the steps is outside; a builder given to a sealed container does lose a wakeup.
\<close>

theorem parked_never_eligible:
  assumes "fresh_run s0" "run_step\<^sup>*\<^sup>* s0 s" "tk_phase (rs_tasks s r) = PhaseParked"
  shows "\<exists>e. eligibleLocked (rs_e s) r = Some (False, e)"
  using parked_read [OF reachable_ok(1) [OF assms(1,2)] assms(3)] by blast


text \<open>
  (C12) What a start pass starts may start, and is the earliest: every predecessor it remembers has
  succeeded, no queued Task was declared before it, and it takes exactly one slot.
\<close>

theorem starts_in_declaration_order:
  assumes "fresh_run s0" "run_step\<^sup>*\<^sup>* s0 s" "takeEligible s = Some (Some st, s')"
  shows "tk_phase (rs_tasks s' st) = PhaseRunning \<and> all_succeeded (rs_e s') st
    \<and> (\<forall>r. tk_phase (rs_tasks s' r) = PhaseQueued \<longrightarrow> decl (rs_tasks s') st \<le> decl (rs_tasks s') r)
    \<and> rs_inflight s' = rs_inflight s + 1 \<and> rs_inflight s' \<le> concurrencyCeilingLocked s'"
proof -
  have "run_ok s' \<and> started (Some st) s s' \<and> slots_bound s'"
    using takeEligible_ok [OF reachable_ok(1) [OF assms(1,2)]] reachable_ok(2) [OF assms(1,2)] assms(3) by auto
  then show ?thesis by (simp add: started_def slots_bound_def)
qed

text \<open>
  (C14) In every state a run reaches from its declarations the counters are exact: the parked count is the
  number of parked rows, the wait group the drain blocks on is the work submitted and not started plus the
  callbacks executing, the executing count is the number of claims being executed, the slots in use are
  the claims among them that took a slot (a pooled worker's, a plain waiter's; not one a waiting callback
  lends its own to), and neither the slots nor their high-water mark exceeds the ceiling.
\<close>

theorem scheduler_counters_exact:
  assumes "fresh_run s0" "run_step\<^sup>*\<^sup>* s0 s"
  shows "rs_parked s = int (length (filter (\<lambda>r. tk_phase (rs_tasks s r) = PhaseParked) (rs_order s)))
    \<and> rs_wg s = int (length (filter (\<lambda>r. awaitingStart (rs_tasks s r)) (rs_order s))) + rs_executing s
    \<and> rs_executing s = int (length (rs_claims s))
    \<and> rs_inflight s = int (length (filter snd (rs_claims s)))
    \<and> rs_inflight s \<le> concurrencyCeilingLocked s \<and> rs_maxObserved s \<le> concurrencyCeilingLocked s"
proof -
  have "run_ok s" "slots_bound s" "slots_exact s" using reachable_ok [OF assms] by simp_all
  moreover from this have "awaitingStart (rs_tasks s r) = schedule_awaitingStart (tk_phase (rs_tasks s r))" for r
    by (auto simp: run_ok_def sched_inv_def phases_ok_def awaitingStart_def simp del: schedule_awaitingStart.simps)
  ultimately show ?thesis
    by (simp add: run_ok_def sched_inv_def counts_ok_def count_phase_def slots_bound_def slots_exact_def)
qed


text \<open>
  (C15) A settle is honest and contained: the row ends in the state asked for, or Failed when success
  was claimed over a recorded Problem, its waiters are released, and the cascade it starts ends other
  rows only as NotStarted, and only rows still awaiting their start.
\<close>

theorem settle_is_contained:
  assumes "fresh_run s0" "run_step\<^sup>*\<^sup>* s0 s" "st \<in> set (rs_order s)"
    "\<not> IsTerminalTask (tk_state (rs_tasks s st))" "IsTerminalTask state"
    "settleLocked s st state = Some s'"
  shows "tk_state (rs_tasks s' st) = (if (state = Done \<or> state = Skipped) \<and> rs_problems s st then Failed else state)
    \<and> st \<in> rs_closed s'
    \<and> (\<forall>r. r \<noteq> st \<longrightarrow> tk_state (rs_tasks s' r) = tk_state (rs_tasks s r)
        \<or> tk_state (rs_tasks s' r) = NotStarted \<and> awaitingStart (rs_tasks s r))"
proof -
  obtain s1 where s1: "settleLocked s st state = Some s1" "run_ok s1" "tk_state (rs_tasks s1 st) = honestState s st state"
    "\<And>r. r \<noteq> st \<Longrightarrow> tk_state (rs_tasks s1 r) = tk_state (rs_tasks s r)
        \<or> tk_state (rs_tasks s1 r) = NotStarted \<and> awaitingStart (rs_tasks s r)"
    using settle_ok [OF reachable_ok(1) [OF assms(1,2)] assms(4,3,5)] by metis
  have "rs_closed s1 = {r. IsTerminalTask (tk_state (rs_tasks s1 r))}"
    using run_okD(1) [OF s1(2)] by (simp add: sched_inv_def phases_ok_def)
  then have "st \<in> rs_closed s1" using s1(3) honestState_terminal [OF assms(5)] by simp
  then show ?thesis using s1 assms(6) by (simp add: honestState_def)
qed

text \<open>
  The drain never hangs on stranded work: when nothing can move any more, abandoning what is
  stranded reports whether it settled anything and leaves no Task parked, so the wait group is down to
  what is queued or executing.
\<close>

theorem stranded_work_is_released:
  assumes "fresh_run s0" "run_step\<^sup>*\<^sup>* s0 s" "abandonStrandedLocked s = Some (changed, s')"
  shows "(changed \<longleftrightarrow> rs_parked s \<noteq> 0) \<and> rs_parked s' = 0
    \<and> rs_wg s' = int (length (filter (\<lambda>r. tk_phase (rs_tasks s' r) = PhaseQueued) (rs_order s'))) + rs_executing s'"
proof -
  have ok: "run_ok s'" "rs_parked s' = 0" "changed \<longleftrightarrow> rs_parked s \<noteq> 0"
    using abandon_ok [OF reachable_ok(1) [OF assms(1,2)]] assms(3) by auto
  then have "tk_phase (rs_tasks s' r) \<noteq> PhaseParked" for r using parked_zero by blast
  then have "schedule_awaitingStart (tk_phase (rs_tasks s' r)) = (tk_phase (rs_tasks s' r) = PhaseQueued)" for r by simp
  with ok show ?thesis by (simp add: run_ok_def sched_inv_def counts_ok_def count_phase_def)
qed

subsection \<open>A concrete run\<close>

text \<open>Tasks 1 and 4 sit in container 7; Task 2 comes after Task 1, Task 3 after the container as it stands.\<close>

definition wit_run :: schedState where
  "wit_run =
     \<lparr>rs_e = \<lparr>e_tasks = (\<lambda>r. \<lparr>tk_state = Pending, tk_declaration = int r, tk_phase = PhaseDeclared,
          tk_preds = (if r = 2 then [task_pred 1] else if r = 3 then [\<lparr>pd_task = None, pd_col = Some 7, pd_through = 4\<rparr>] else []),
          tk_dependents = [], tk_collection = (if r = 1 \<or> r = 4 then Some 7 else None)\<rparr>),
        e_cols = (\<lambda>c. \<lparr>co_tally = empty_tally\<lparr>ct_members := (if c = 7 then [1, 4] else [])\<rparr>, co_entry = [], co_parent = None\<rparr>),
        e_draining = False, e_declSeq = 4\<rparr>,
      rs_order = [1, 2, 3, 4], rs_queue = [], rs_parked = 0, rs_woken = [], rs_waking = False, rs_wg = 0,
      rs_inflight = 0, rs_maxObserved = 0, rs_executing = 0, rs_claims = [], rs_cancelled = False, rs_ended = False,
      rs_maxConcurrency = 2, rs_procs = 8, rs_problems = (\<lambda>_. False), rs_closed = {}\<rparr>"

lemma wit_run_fresh: "fresh_run wit_run"
proof -
  have chain: "col_chain (rs_e wit_run) None = Some []" "col_chain (rs_e wit_run) (Some c) = Some [c]" for c
    by (subst col_chain.simps, simp add: wit_run_def col_chain.simps)+
  have "entries_ranked (rs_e wit_run) (\<lambda>_. 0)" by (simp add: entries_ranked_def wit_run_def)
  moreover have "\<exists>depth :: ColRef \<Rightarrow> nat. \<forall>c p. co_parent (e_cols (rs_e wit_run) c) = Some p \<longrightarrow> depth p < depth c"
    by (simp add: wit_run_def)
  moreover have "r \<in> set (ct_members (co_tally (e_cols (rs_e wit_run) c))) \<longleftrightarrow>
        (\<exists>cs. col_chain (rs_e wit_run) (tk_collection (e_tasks (rs_e wit_run) r)) = Some cs \<and> c \<in> set cs)" for r c
  proof (cases "r = 1 \<or> r = 4")
    case True
    then have "tk_collection (e_tasks (rs_e wit_run) r) = Some 7" by (simp add: wit_run_def)
    then show ?thesis using True by (simp add: chain) (auto simp: wit_run_def)
  next
    case False
    then have "tk_collection (e_tasks (rs_e wit_run) r) = None" by (simp add: wit_run_def)
    then show ?thesis using False by (simp add: chain) (simp add: wit_run_def)
  qed
  moreover have "ct_holds (co_tally (e_cols (rs_e wit_run) c)) = 0 \<and> \<not> ct_builderFailed (co_tally (e_cols (rs_e wit_run) c))" for c
    by (simp add: wit_run_def empty_tally_def)
  moreover have "tk_declaration (e_tasks (rs_e wit_run) x) \<le> e_declSeq (rs_e wit_run)"
    if "x \<in> set (ct_members (co_tally (e_cols (rs_e wit_run) c)))" for x c
    using that by (auto simp: wit_run_def split: if_splits)
  moreover have "e_declSeq (rs_e wit_run) \<le> throughAll" by (simp add: wit_run_def throughAll_def)
  ultimately have "topo_ok (rs_e wit_run)" unfolding topo_ok_def by blast
  then show ?thesis by (simp add: fresh_run_def fresh_tally_def wit_run_def empty_tally_def)
qed

definition wit_parked :: schedState where
  "wit_parked = the (submitWork wit_run 2)"

lemma wit_parked_step: "run_step\<^sup>*\<^sup>* wit_run wit_parked"
proof -
  have "submitWork wit_run 2 = Some wit_parked"
    using submit_ok [OF fresh_ok(1) [OF wit_run_fresh], of 2] by (auto simp: wit_parked_def)
  then show ?thesis using step_submit by blast
qed

lemma wit_parked_fields:
  "tk_phase (rs_tasks wit_parked r) = (if r = 2 then PhaseParked else PhaseDeclared)"
  "tk_state (rs_tasks wit_parked r) = Pending" "rs_queue wit_parked = []" "rs_inflight wit_parked = 0"
  "rs_cancelled wit_parked = False" "rs_maxConcurrency wit_parked = 2" "rs_order wit_parked = [1, 2, 3, 4]"
  "rs_executing wit_parked = 0"
proof -
  have "predsOutcomeLocked (rs_e (enterPhaseLocked (wit_run\<lparr>rs_wg := 1\<rparr>) 2 PhaseQueued)) 2 ScanAll
      = Some (PredPending, task_pred 1,
          upd_task 2 (\<lambda>t. t\<lparr>tk_preds := [task_pred 1]\<rparr>) (rs_e (enterPhaseLocked (wit_run\<lparr>rs_wg := 1\<rparr>) 2 PhaseQueued)))"
    by (simp add: predsOutcomeLocked_def outcomeLocked_def taskOutcomeLocked_def wit_run_def enterPhaseLocked_def
        upd_task_def Let_def stateOutcome.simps)
  then have p: "wit_parked = park_on (enterPhaseLocked (enterPhaseLocked (wit_run\<lparr>rs_wg := 1\<rparr>) 2 PhaseQueued
        \<lparr>rs_e := upd_task 2 (\<lambda>t. t\<lparr>tk_preds := [task_pred 1]\<rparr>) (rs_e (enterPhaseLocked (wit_run\<lparr>rs_wg := 1\<rparr>) 2 PhaseQueued))\<rparr>)
        2 PhaseParked) (task_pred 1) 2"
    by (simp add: wit_parked_def submitWork_def place_with_def Let_def) (simp add: wit_run_def enterPhaseLocked_def upd_task_def)
  show "tk_phase (rs_tasks wit_parked r) = (if r = 2 then PhaseParked else PhaseDeclared)"
    "tk_state (rs_tasks wit_parked r) = Pending" "rs_queue wit_parked = []" "rs_inflight wit_parked = 0"
    "rs_cancelled wit_parked = False" "rs_maxConcurrency wit_parked = 2" "rs_order wit_parked = [1, 2, 3, 4]"
    "rs_executing wit_parked = 0"
    unfolding p by (simp_all add: park_on_def wit_run_def enterPhaseLocked_def upd_task_def)
qed

text \<open>Task 2, parked on Task 1, is not eligible.\<close>

theorem parked_never_eligible_witness:
  "tk_phase (rs_tasks wit_parked 2) = PhaseParked \<and> (\<exists>e. eligibleLocked (rs_e wit_parked) 2 = Some (False, e))"
  using parked_never_eligible [OF wit_run_fresh wit_parked_step, of 2] by (simp add: wit_parked_fields)



text \<open>Task 1 submitted alone is queued, and the next start pass starts it.\<close>

definition wit_queued :: schedState where
  "wit_queued = the (submitWork wit_run 1)"

lemma wit_queued_step: "run_step\<^sup>*\<^sup>* wit_run wit_queued"
proof -
  have "submitWork wit_run 1 = Some wit_queued"
    using submit_ok [OF fresh_ok(1) [OF wit_run_fresh], of 1] by (auto simp: wit_queued_def)
  then show ?thesis using step_submit by blast
qed

lemma wit_queued_state:
  "wit_queued = (enterPhaseLocked (wit_run\<lparr>rs_wg := 1\<rparr>) 1 PhaseQueued)\<lparr>rs_queue := [1]\<rparr>"
proof -
  let ?s = "enterPhaseLocked (wit_run\<lparr>rs_wg := 1\<rparr>) 1 PhaseQueued"
  have preds: "tk_preds (rs_tasks ?s 1) = []" by (simp add: enterPhaseLocked_def upd_task_def wit_run_def)
  then have "predsOutcomeLocked (rs_e ?s) 1 ScanAll = Some (PredSucceeded, no_pred, rs_e ?s)"
    by (simp add: predsOutcomeLocked_def fun_upd_idem)
  moreover have "enterPhaseLocked ?s 1 PhaseQueued = ?s" by (simp add: enterPhaseLocked_def upd_task_def)
  ultimately have "submitWork wit_run 1 = Some (?s\<lparr>rs_queue := queue_push (rs_tasks ?s) (rs_queue ?s) 1\<rparr>)"
    by (simp add: submitWork_def place_with_def Let_def) (simp add: wit_run_def enterPhaseLocked_def upd_task_def)
  moreover have "queue_push (rs_tasks ?s) (rs_queue ?s) 1 = [1]"
    by (simp add: queue_push_def heap_push_def heap_up.simps enterPhaseLocked_def wit_run_def)
  ultimately show ?thesis by (simp add: wit_queued_def)
qed

lemma wit_queued_fields:
  "tk_phase (rs_tasks wit_queued 1) = PhaseQueued" "tk_state (rs_tasks wit_queued 1) = Pending"
  "tk_preds (rs_tasks wit_queued 1) = []" "rs_queue wit_queued = [1]" "rs_inflight wit_queued = 0"
  "rs_cancelled wit_queued = False" "rs_maxConcurrency wit_queued = 2" "rs_claims wit_queued = []"
  unfolding wit_queued_state by (simp_all add: enterPhaseLocked_def upd_task_def wit_run_def)

lemma wit_queued_take: "takeEligible wit_queued = Some (Some 1, claimLocked (takeSlotLocked wit_queued) 1)"
proof -
  have "queue_head (rs_tasks wit_queued) (rs_queue wit_queued) = (Some 1, [1])"
    by (subst queue_head.simps) (simp add: queue_live_def awaitingStart_def wit_queued_fields del: One_nat_def)
  moreover have "eligibleLocked (rs_e wit_queued) 1 = Some (True, rs_e wit_queued)"
  proof -
    have "rs_tasks wit_queued 1\<lparr>tk_preds := []\<rparr> = rs_tasks wit_queued 1" using wit_queued_fields(3) by simp
    then show ?thesis
      by (simp add: eligibleLocked_def predsOutcomeLocked_def wit_queued_fields fun_upd_idem del: One_nat_def)
  qed
  moreover have "wit_queued\<lparr>rs_queue := [1], rs_e := rs_e wit_queued\<rparr> = wit_queued" using wit_queued_fields(4) by simp
  ultimately have "nextEligibleLocked wit_queued = Some (Some 1, wit_queued)"
    by (subst nextEligibleLocked.simps) simp
  then show ?thesis
    by (simp add: takeEligible_def concurrencyCeilingLocked_def wit_queued_fields del: One_nat_def)
qed

theorem starts_in_declaration_order_witness:
  "\<exists>s'. takeEligible wit_queued = Some (Some 1, s') \<and> tk_phase (rs_tasks s' 1) = PhaseRunning \<and> rs_inflight s' = 1"
  using starts_in_declaration_order [OF wit_run_fresh wit_queued_step wit_queued_take] wit_queued_take wit_queued_fields(5)
  by simp

text \<open>Task 1 started on a pooled worker: one claim, one slot.\<close>

definition wit_started :: schedState where
  "wit_started = execute (Some (1, True)) (claimLocked (takeSlotLocked wit_queued) 1)"

lemma wit_started_step: "run_step\<^sup>*\<^sup>* wit_run wit_started"
  using rtranclp.rtrancl_into_rtrancl [OF wit_queued_step step_start [OF wit_queued_take]] by (simp add: wit_started_def)

theorem scheduler_counters_exact_witness:
  "rs_parked wit_parked = 1 \<and> rs_wg wit_parked = 1 \<and> rs_inflight wit_started = 1 \<and> rs_executing wit_started = 1"
proof -
  have "rs_claims wit_started = [(1, True)]"
    by (simp add: wit_started_def execute_def takeSlotLocked_def wit_queued_fields)
  then show ?thesis
    using scheduler_counters_exact [OF wit_run_fresh wit_parked_step] scheduler_counters_exact [OF wit_run_fresh wit_started_step]
    by (simp add: wit_parked_fields awaitingStart_def)
qed


text \<open>Task 1 fails; Task 2, parked on it, is stopped with it.\<close>

theorem settle_is_contained_witness:
  "\<exists>s'. settleLocked wit_parked 1 Failed = Some s' \<and> tk_state (rs_tasks s' 1) = Failed \<and> 1 \<in> rs_closed s'
    \<and> (tk_state (rs_tasks s' 2) = Pending \<or> tk_state (rs_tasks s' 2) = NotStarted)"
proof -
  have st: "1 \<in> set (rs_order wit_parked)" "\<not> IsTerminalTask (tk_state (rs_tasks wit_parked 1))" "IsTerminalTask Failed"
    by (simp_all add: wit_parked_fields)
  obtain s' where s': "settleLocked wit_parked 1 Failed = Some s'"
    using settle_ok [OF reachable_ok(1) [OF wit_run_fresh wit_parked_step] st(2,1,3)] by blast
  note contained = settle_is_contained [OF wit_run_fresh wit_parked_step st s']
  have "tk_state (rs_tasks s' 1) = Failed \<and> 1 \<in> rs_closed s'" using contained by simp
  moreover have "tk_state (rs_tasks s' 2) = tk_state (rs_tasks wit_parked 2) \<or> tk_state (rs_tasks s' 2) = NotStarted"
    using contained [THEN conjunct2, THEN conjunct2, THEN spec, of 2] by auto
  ultimately show ?thesis using s' by (auto simp: wit_parked_fields(2))
qed

theorem stranded_work_is_released_witness:
  "\<exists>s'. abandonStrandedLocked wit_parked = Some (True, s') \<and> rs_parked s' = 0"
proof -
  have parked: "rs_parked wit_parked \<noteq> 0"
    using parked_zero [OF reachable_ok(1) [OF wit_run_fresh wit_parked_step]] wit_parked_fields(1) [of 2] by auto
  obtain changed s' where s': "abandonStrandedLocked wit_parked = Some (changed, s')"
    using abandon_ok [OF reachable_ok(1) [OF wit_run_fresh wit_parked_step]] by blast
  show ?thesis
    using stranded_work_is_released [OF wit_run_fresh wit_parked_step s'] s' parked by auto
qed

end
