(* ===== verification/Engine_Stop.thy ===== *)
theory Engine_Stop
  imports Engine_Steps
begin

text \<open>
  Stopping work that will not run: the followers of a failed Sequence step (\<open>execution.go\<close>:
  \<open>failSequenceFollowersLocked\<close>, \<open>stopFollowersLocked\<close>, \<open>stopIfFollowerLocked\<close>) and everything not yet
  begun after an interrupt (\<open>interrupt.go\<close>: \<open>abandonQueuedWork\<close>). The fields of a container only these
  read are fixed at declaration, so they are a record of their own beside the run's state;
  \<open>stoppedAfter\<close> is threaded with it.
\<close>

subsection \<open>The container tree\<close>

record containerTree =
  tr_tasks :: "ColRef \<Rightarrow> TaskRef list"
  tr_children :: "ColRef \<Rightarrow> ColRef list"
  tr_declaration :: "ColRef \<Rightarrow> int"
  tr_sequential :: "ColRef \<Rightarrow> bool"

type_synonym stopMarks = "ColRef \<Rightarrow> int"

text \<open>The recursion follows the tree down; a cyclic tree would never return.\<close>

partial_function (option) appendDescendants :: "containerTree \<Rightarrow> ColRef list \<Rightarrow> TaskRef list \<Rightarrow> TaskRef list option" where
  "appendDescendants tr cs out =
     (case cs of
        [] \<Rightarrow> Some out
      | c # rest \<Rightarrow>
          Option.bind (appendDescendants tr (tr_children tr c) (out @ tr_tasks tr c)) (appendDescendants tr rest))"

definition appendDescendantTasksLocked :: "containerTree \<Rightarrow> ColRef \<Rightarrow> TaskRef list \<Rightarrow> TaskRef list option" where
  "appendDescendantTasksLocked tr c out = appendDescendants tr [c] out"

subsection \<open>Stopping followers (execution.go)\<close>

fun stop_all :: "TaskRef list \<Rightarrow> schedState \<Rightarrow> schedState option" where
  "stop_all [] s = Some s"
| "stop_all (st # rest) s = Option.bind (stopUnstartedLocked s st) (stop_all rest)"

fun stop_children :: "containerTree \<Rightarrow> ColRef list \<Rightarrow> int \<Rightarrow> schedState \<Rightarrow> schedState option" where
  "stop_children tr [] branch s = Some s"
| "stop_children tr (child # rest) branch s =
     (if tr_declaration tr child > branch
      then Option.bind (appendDescendantTasksLocked tr child []) (\<lambda>members.
             Option.bind (stop_all members s) (stop_children tr rest branch))
      else stop_children tr rest branch s)"

definition stopFollowersLocked :: "containerTree \<Rightarrow> ColRef \<Rightarrow> int \<Rightarrow> schedState \<Rightarrow> schedState option" where
  "stopFollowersLocked tr c branch s =
     Option.bind (stop_all (filter (\<lambda>sib. tk_declaration (rs_tasks s sib) > branch) (tr_tasks tr c)) s)
       (stop_children tr (tr_children tr c) branch)"

text \<open>The walk up the containers a Task sits under, which \<open>chain\<close> lists innermost first.\<close>

fun follow_up :: "containerTree \<Rightarrow> ColRef list \<Rightarrow> int \<Rightarrow> stopMarks \<Rightarrow> schedState \<Rightarrow> (stopMarks \<times> schedState) option" where
  "follow_up tr [] branch marks s = Some (marks, s)"
| "follow_up tr (c # up) branch marks s =
     (if \<not> tr_sequential tr c then follow_up tr up (tr_declaration tr c) marks s
      else if marks c \<noteq> 0 \<and> branch \<ge> marks c then Some (marks, s)
      else Option.bind (stopFollowersLocked tr c branch s)
             (follow_up tr up (tr_declaration tr c) (marks(c := branch))))"

definition failSequenceFollowersLocked ::
  "containerTree \<Rightarrow> stopMarks \<Rightarrow> schedState \<Rightarrow> TaskRef \<Rightarrow> (stopMarks \<times> schedState) option" where
  "failSequenceFollowersLocked tr marks s failed =
     Option.bind (col_chain (rs_e s) (tk_collection (rs_tasks s failed))) (\<lambda>chain.
       follow_up tr chain (tk_declaration (rs_tasks s failed)) marks s)"

fun passed_stop :: "containerTree \<Rightarrow> stopMarks \<Rightarrow> ColRef list \<Rightarrow> int \<Rightarrow> bool" where
  "passed_stop tr marks [] branch \<longleftrightarrow> False"
| "passed_stop tr marks (c # up) branch \<longleftrightarrow>
     tr_sequential tr c \<and> marks c \<noteq> 0 \<and> branch > marks c \<or> passed_stop tr marks up (tr_declaration tr c)"

definition stopIfFollowerLocked :: "containerTree \<Rightarrow> stopMarks \<Rightarrow> schedState \<Rightarrow> TaskRef \<Rightarrow> schedState option" where
  "stopIfFollowerLocked tr marks s st =
     Option.bind (col_chain (rs_e s) (tk_collection (rs_tasks s st))) (\<lambda>chain.
       if passed_stop tr marks chain (tk_declaration (rs_tasks s st)) then stopUnstartedLocked s st else Some s)"

definition stopsSequenceFollowers :: "EntityState \<Rightarrow> bool" where
  "stopsSequenceFollowers state \<longleftrightarrow> stateOutcome state = PredFailed"

subsection \<open>After an interrupt (interrupt.go)\<close>



subsection \<open>What a stop leaves alone\<close>

definition stopped :: "schedState \<Rightarrow> TaskRef \<Rightarrow> bool" where
  "stopped s r \<longleftrightarrow> IsTerminalTask (tk_state (rs_tasks s r)) \<or> tk_phase (rs_tasks s r) = PhaseRunning"

definition stops :: "schedState \<Rightarrow> schedState \<Rightarrow> bool" where
  "stops s s' \<longleftrightarrow>
     run_ok s' \<and> same_run s s' \<and> no_new_phases s s' \<and>
     (\<forall>r. stopped s r \<longrightarrow> tk_state (rs_tasks s' r) = tk_state (rs_tasks s r)
        \<and> (tk_phase (rs_tasks s r) = PhaseRunning \<longrightarrow> tk_phase (rs_tasks s' r) = PhaseRunning)) \<and>
     (\<forall>r. tk_state (rs_tasks s' r) = tk_state (rs_tasks s r) \<or> tk_state (rs_tasks s' r) = NotStarted) \<and>
     (\<forall>r. \<not> schedule_awaitingStart (tk_phase (rs_tasks s r)) \<longrightarrow> tk_phase (rs_tasks s' r) = tk_phase (rs_tasks s r)) \<and>
     (\<forall>r. IsTerminalTask (tk_state (rs_tasks s r)) \<longrightarrow> tk_preds (rs_tasks s' r) = tk_preds (rs_tasks s r))"

lemma stops_refl: "run_ok s \<Longrightarrow> stops s s"
  by (simp add: stops_def)

lemma stops_stopped: "stops s s' \<Longrightarrow> stopped s r \<Longrightarrow> stopped s' r"
  by (auto simp: stops_def stopped_def)

lemma stops_trans:
  assumes "stops a b" "stops b c"
  shows "stops a c"
proof -
  have "tk_state (rs_tasks c r) = tk_state (rs_tasks a r)
      \<and> (tk_phase (rs_tasks a r) = PhaseRunning \<longrightarrow> tk_phase (rs_tasks c r) = PhaseRunning)" if "stopped a r" for r
    using that stops_stopped [OF assms(1) that] assms by (auto simp: stops_def)
  moreover have "tk_state (rs_tasks c r) = tk_state (rs_tasks a r) \<or> tk_state (rs_tasks c r) = NotStarted" for r
    using assms unfolding stops_def by metis
  moreover have "same_run a c" "no_new_phases a c"
    using assms same_run_trans no_new_phases_trans unfolding stops_def by blast+
  moreover have "tk_phase (rs_tasks c r) = tk_phase (rs_tasks a r)" if "\<not> schedule_awaitingStart (tk_phase (rs_tasks a r))" for r
    using assms that unfolding stops_def by metis
  moreover have "tk_preds (rs_tasks c r) = tk_preds (rs_tasks a r)" if "IsTerminalTask (tk_state (rs_tasks a r))" for r
    using assms that stops_stopped [OF assms(1), of r] unfolding stops_def stopped_def by metis
  ultimately show ?thesis using assms(2) by (simp add: stops_def)
qed

lemma stops_frame:
  "stops s s' \<Longrightarrow> rs_order s' = rs_order s"
  "stops s s' \<Longrightarrow> tk_declaration (rs_tasks s' r) = tk_declaration (rs_tasks s r)"
  "stops s s' \<Longrightarrow> tk_collection (rs_tasks s' r) = tk_collection (rs_tasks s r)"
  "stops s s' \<Longrightarrow> co_parent (e_cols (rs_e s') c) = co_parent (e_cols (rs_e s) c)"
  by (simp_all add: stops_def same_run_def same_shape_def)

text \<open>Every row that changed is one of \<open>R\<close>, or a predecessor it remembers failed.\<close>

definition blamed :: "TaskRef set \<Rightarrow> schedState \<Rightarrow> schedState \<Rightarrow> bool" where
  "blamed R s s' \<longleftrightarrow> (\<forall>r. tk_state (rs_tasks s' r) = tk_state (rs_tasks s r) \<or> r \<in> R \<or> doomed (rs_e s') r)"

lemma blamed_refl: "blamed R s s"
  by (simp add: blamed_def)

lemma blamed_mono: "blamed R s s' \<Longrightarrow> R \<subseteq> R' \<Longrightarrow> blamed R' s s'"
  by (auto simp: blamed_def)

lemma stops_fails:
  assumes "stops s s'"
  shows "fails_stay (rs_e s) (rs_e s')"
proof -
  have draining: "e_draining (rs_e s') = e_draining (rs_e s)" using assms by (simp add: stops_def same_run_def same_shape_def)
  have failed: "task_outcome (rs_tasks s') t = PredFailed" if "task_outcome (rs_tasks s) t = PredFailed" for t
  proof -
    have "IsTerminalTask (tk_state (rs_tasks s t))" using that by (cases "tk_state (rs_tasks s t)") (simp_all add: stateOutcome.simps)
    then show ?thesis using that assms by (auto simp: stops_def stopped_def)
  qed
  have "taskOutcomeLocked (rs_e s') t = PredFailed" if t: "taskOutcomeLocked (rs_e s) t = PredFailed" for t
  proof (cases "task_outcome (rs_tasks s) t = PredFailed \<or> tk_state (rs_tasks s' t) = NotStarted")
    case True
    then have "task_outcome (rs_tasks s') t = PredFailed" using failed by (elim disjE) (blast, simp add: stateOutcome.simps)
    then show ?thesis by (simp add: taskOutcomeLocked_def)
  next
    case False
    then have "task_outcome (rs_tasks s) t = PredPending" "e_draining (rs_e s)" "neverDefined (rs_tasks s t)"
      using t by (auto simp: taskOutcomeLocked_def Let_def split: if_splits)
    moreover from this have "tk_phase (rs_tasks s' t) = tk_phase (rs_tasks s t)"
      using assms by (auto simp: stops_def neverDefined_def)
    moreover have "tk_state (rs_tasks s' t) = tk_state (rs_tasks s t)" using False assms by (auto simp: stops_def)
    ultimately show ?thesis using draining by (simp add: taskOutcomeLocked_def neverDefined_def)
  qed
  with failed show ?thesis by (simp add: fails_stay_def)
qed

lemma blamed_trans:
  assumes "blamed A a b" "blamed B b c" "stops a b" "stops b c"
  shows "blamed (A \<union> B) a c"
  unfolding blamed_def
proof
  fix r
  have shape: "same_shape (rs_e b) (rs_e c)" using assms(4) by (simp add: stops_def same_run_def)
  show "tk_state (rs_tasks c r) = tk_state (rs_tasks a r) \<or> r \<in> A \<union> B \<or> doomed (rs_e c) r"
  proof (cases "tk_state (rs_tasks b r) = tk_state (rs_tasks a r)")
    case True
    then show ?thesis using assms(2) unfolding blamed_def by (metis UnCI)
  next
    case False
    then have b: "tk_state (rs_tasks b r) = NotStarted" "r \<in> A \<or> doomed (rs_e b) r"
      using assms(1,3) unfolding blamed_def stops_def by metis+
    have "doomed (rs_e c) r" if "doomed (rs_e b) r"
    proof -
      have "tk_preds (rs_tasks c r) = tk_preds (rs_tasks b r)" using assms(4) b(1) by (simp add: stops_def)
      then show ?thesis
        using that failed_pred_stays [OF shape stops_fails [OF assms(4)]] by (auto simp: doomed_def)
    qed
    then show ?thesis using b(2) by blast
  qed
qed

lemma not_started_stops:
  assumes "run_ok s" "st \<in> set (rs_order s)" "\<not> stopped s st"
  shows "\<exists>s'. markNotStartedLocked s st = Some s' \<and> stops s s' \<and> stopped s' st \<and> blamed {st} s s'"
proof -
  have st: "\<not> IsTerminalTask (tk_state (rs_tasks s st))" "tk_phase (rs_tasks s st) \<noteq> PhaseRunning"
    using assms(3) by (simp_all add: stopped_def)
  obtain s' where s': "settleLocked s st NotStarted = Some s'" "sched_inv s' ({} - {st}) ({} - {st})" "idle s'" "same_run s s'"
    "tk_state (rs_tasks s' st) = honestState s st NotStarted"
    "\<forall>r. r \<noteq> st \<longrightarrow> tk_state (rs_tasks s' r) = tk_state (rs_tasks s r)
        \<or> tk_state (rs_tasks s' r) = NotStarted \<and> awaitingStart (rs_tasks s r)"
    "\<forall>r. \<not> schedule_awaitingStart (tk_phase (rs_tasks s r)) \<longrightarrow> tk_phase (rs_tasks s' r) = tk_phase (rs_tasks s r)"
    "no_new_phases s s'" "\<forall>r. r \<noteq> st \<and> tk_state (rs_tasks s' r) \<noteq> tk_state (rs_tasks s r) \<longrightarrow> doomed (rs_e s') r"
    "\<forall>r. IsTerminalTask (tk_state (rs_tasks s r)) \<longrightarrow> tk_preds (rs_tasks s' r) = tk_preds (rs_tasks s r)"
    using settle_spec [OF run_okD [OF assms(1)] st(1) assms(2), of NotStarted] by auto
  have self: "tk_state (rs_tasks s' st) = NotStarted" using s'(5) by (simp add: honestState_def)
  have "tk_state (rs_tasks s' r) = tk_state (rs_tasks s r)
      \<and> (tk_phase (rs_tasks s r) = PhaseRunning \<longrightarrow> tk_phase (rs_tasks s' r) = PhaseRunning)" if "stopped s r" for r
    using s'(6,7) that assms(3) by (auto simp: stopped_def awaitingStart_def)
  moreover have "tk_state (rs_tasks s' r) = tk_state (rs_tasks s r) \<or> tk_state (rs_tasks s' r) = NotStarted" for r
    using s'(6) self by metis
  ultimately have "stops s s'" using s'(2-4,7,8,10) by (simp add: stops_def run_ok_def)
  moreover have "blamed {st} s s'" using s'(9) by (auto simp: blamed_def)
  ultimately show ?thesis using s'(1) self by (simp add: markNotStartedLocked_def stopped_def)
qed

lemma stop_one:
  assumes "run_ok s" "st \<in> set (rs_order s)"
  shows "\<exists>s'. stopUnstartedLocked s st = Some s' \<and> stops s s' \<and> stopped s' st \<and> blamed {st} s s'"
proof (cases "stopped s st")
  case True
  then show ?thesis using assms(1) by (auto simp: stopUnstartedLocked_def stopped_def stops_refl blamed_refl)
next
  case False
  then show ?thesis using not_started_stops [OF assms False] by (simp add: stopUnstartedLocked_def stopped_def)
qed

lemma stop_all_spec:
  "run_ok s \<Longrightarrow> set rs \<subseteq> set (rs_order s) \<Longrightarrow>
   \<exists>s'. stop_all rs s = Some s' \<and> stops s s' \<and> (\<forall>r\<in>set rs. stopped s' r) \<and> blamed (set rs) s s'"
proof (induction rs arbitrary: s)
  case (Cons st rs)
  obtain s1 where s1: "stopUnstartedLocked s st = Some s1" "stops s s1" "stopped s1 st" "blamed {st} s s1"
    using stop_one [OF Cons.prems(1)] Cons.prems(2) by auto
  obtain s' where s': "stop_all rs s1 = Some s'" "stops s1 s'" "\<forall>r\<in>set rs. stopped s' r" "blamed (set rs) s1 s'"
    using Cons.IH [of s1] s1(2) Cons.prems(2) by (auto simp: stops_def same_run_def)
  have "stops s s'" by (rule stops_trans [OF s1(2) s'(2)])
  moreover have "stopped s' st" by (rule stops_stopped [OF s'(2) s1(3)])
  moreover have "blamed (set (st # rs)) s s'" using blamed_trans [OF s1(4) s'(4) s1(2) s'(2)] by simp
  ultimately show ?case using s1(1) s'(1,3) by auto
qed (simp add: stops_refl blamed_refl)



subsection \<open>Descendants\<close>

inductive descends :: "containerTree \<Rightarrow> ColRef \<Rightarrow> TaskRef \<Rightarrow> bool" for tr where
  descends_own: "r \<in> set (tr_tasks tr c) \<Longrightarrow> descends tr c r"
| descends_child: "child \<in> set (tr_children tr c) \<Longrightarrow> descends tr child r \<Longrightarrow> descends tr c r"

inductive_simps descends_simps: "descends tr c r"

definition tree_ranked :: "containerTree \<Rightarrow> (ColRef \<Rightarrow> nat) \<Rightarrow> bool" where
  "tree_ranked tr rank \<longleftrightarrow> (\<forall>c. \<forall>child\<in>set (tr_children tr c). rank child < rank c)"

lemma descendants_value:
  assumes ranked: "tree_ranked tr rank"
  shows "\<forall>c\<in>set cs. rank c < n \<Longrightarrow>
    \<exists>rs. appendDescendants tr cs out = Some rs \<and> set rs = set out \<union> {r. \<exists>c\<in>set cs. descends tr c r}"
proof (induction n arbitrary: cs out)
  case (Suc n)
  from Suc.prems show ?case
  proof (induction cs arbitrary: out)
    case (Cons c cs)
    have "\<forall>child\<in>set (tr_children tr c). rank child < n"
      using ranked Cons.prems by (fastforce simp: tree_ranked_def)
    then obtain rs where rs: "appendDescendants tr (tr_children tr c) (out @ tr_tasks tr c) = Some rs"
      "set rs = set (out @ tr_tasks tr c) \<union> {r. \<exists>child\<in>set (tr_children tr c). descends tr child r}"
      using Suc.IH by blast
    obtain rs' where rs': "appendDescendants tr cs rs = Some rs'"
      "set rs' = set rs \<union> {r. \<exists>c\<in>set cs. descends tr c r}"
      using Cons by force
    have "descends tr c r \<longleftrightarrow> r \<in> set (tr_tasks tr c) \<or> (\<exists>child\<in>set (tr_children tr c). descends tr child r)" for r
      by (subst descends_simps) blast
    then show ?case
      using rs rs' by (subst appendDescendants.simps) auto
  qed (simp add: appendDescendants.simps)
qed (simp add: appendDescendants.simps)

subsection \<open>The steps after a failed one\<close>

text \<open>\<open>r\<close> belongs to a step of Sequence \<open>c\<close> declared after \<open>branch\<close>.\<close>

definition follower :: "containerTree \<Rightarrow> schedState \<Rightarrow> ColRef \<Rightarrow> int \<Rightarrow> TaskRef \<Rightarrow> bool" where
  "follower tr s c branch r \<longleftrightarrow>
     r \<in> set (tr_tasks tr c) \<and> tk_declaration (rs_tasks s r) > branch
     \<or> (\<exists>child\<in>set (tr_children tr c). tr_declaration tr child > branch \<and> descends tr child r)"

lemma follower_stops: "stops s s' \<Longrightarrow> follower tr s' c b r = follower tr s c b r"
  by (simp add: follower_def stops_frame)

lemma follower_later: "follower tr s c b r \<Longrightarrow> b' \<le> b \<Longrightarrow> follower tr s c b' r"
  by (fastforce simp: follower_def)

definition tree_ok :: "containerTree \<Rightarrow> schedState \<Rightarrow> bool" where
  "tree_ok tr s \<longleftrightarrow>
     (\<exists>rank. tree_ranked tr rank) \<and>
     (\<forall>c r. descends tr c r \<longrightarrow> r \<in> set (rs_order s)) \<and>
     (\<forall>c. tr_declaration tr c > 0)"

lemma tree_ok_stops: "tree_ok tr s \<Longrightarrow> stops s s' \<Longrightarrow> tree_ok tr s'"
  by (simp add: tree_ok_def stops_frame)

lemma stop_children_spec:
  assumes tree: "tree_ok tr s0"
  shows "stops s0 s \<Longrightarrow> set cs \<subseteq> set (tr_children tr c) \<Longrightarrow>
    \<exists>s'. stop_children tr cs branch s = Some s' \<and> stops s s'
      \<and> (\<forall>child\<in>set cs. \<forall>r. tr_declaration tr child > branch \<and> descends tr child r \<longrightarrow> stopped s' r)
      \<and> blamed {r. \<exists>child\<in>set cs. tr_declaration tr child > branch \<and> descends tr child r} s s'"
proof (induction cs arbitrary: s)
  case Nil
  then show ?case using stops_refl blamed_refl by (auto simp: stops_def)
next
  case (Cons child cs)
  have ok: "run_ok s" using Cons.prems(1) by (simp add: stops_def)
  obtain s1 where s1: "stops s s1" "tr_declaration tr child > branch \<longrightarrow> (\<forall>r. descends tr child r \<longrightarrow> stopped s1 r)"
    "stop_children tr (child # cs) branch s = stop_children tr cs branch s1"
    "blamed {r. tr_declaration tr child > branch \<and> descends tr child r} s s1"
  proof (cases "tr_declaration tr child > branch")
    case True
    obtain rank where rank: "tree_ranked tr rank" using tree by (auto simp: tree_ok_def)
    obtain rs where rs: "appendDescendants tr [child] [] = Some rs" "set rs = {r. descends tr child r}"
      using descendants_value [OF rank, of "[child]" "Suc (rank child)" "[]"] by auto
    have "set rs \<subseteq> set (rs_order s)"
      using rs(2) tree tree_ok_stops [OF tree Cons.prems(1)] by (auto simp: tree_ok_def)
    then obtain s1 where "stop_all rs s = Some s1" "stops s s1" "\<forall>r\<in>set rs. stopped s1 r" "blamed (set rs) s s1"
      using stop_all_spec [OF ok] by blast
    then show thesis using that [of s1] True rs by (simp add: appendDescendantTasksLocked_def)
  next
    case False
    then show thesis using that [of s] stops_refl [OF ok] blamed_refl by simp
  qed
  obtain s' where s': "stop_children tr cs branch s1 = Some s'" "stops s1 s'"
    "\<forall>child\<in>set cs. \<forall>r. tr_declaration tr child > branch \<and> descends tr child r \<longrightarrow> stopped s' r"
    "blamed {r. \<exists>child\<in>set cs. tr_declaration tr child > branch \<and> descends tr child r} s1 s'"
    using Cons.IH [OF stops_trans [OF Cons.prems(1) s1(1)]] Cons.prems(2) by auto
  have "stops s s'" by (rule stops_trans [OF s1(1) s'(2)])
  moreover have "\<forall>d\<in>set (child # cs). \<forall>r. tr_declaration tr d > branch \<and> descends tr d r \<longrightarrow> stopped s' r"
    using s1(2) s'(3) stops_stopped [OF s'(2)] by auto
  moreover have "blamed {r. \<exists>d\<in>set (child # cs). tr_declaration tr d > branch \<and> descends tr d r} s s'"
    by (rule blamed_mono [OF blamed_trans [OF s1(4) s'(4) s1(1) s'(2)]]) auto
  ultimately show ?case using s1(3) s'(1) by auto
qed

lemma stop_followers_spec:
  assumes "tree_ok tr s" "run_ok s"
  shows "\<exists>s'. stopFollowersLocked tr c branch s = Some s' \<and> stops s s'
    \<and> (\<forall>r. follower tr s c branch r \<longrightarrow> stopped s' r) \<and> blamed {r. follower tr s c branch r} s s'"
proof -
  let ?own = "filter (\<lambda>sib. tk_declaration (rs_tasks s sib) > branch) (tr_tasks tr c)"
  have "set ?own \<subseteq> set (rs_order s)" using assms(1) descends_own by (fastforce simp: tree_ok_def)
  then obtain s1 where s1: "stop_all ?own s = Some s1" "stops s s1" "\<forall>r\<in>set ?own. stopped s1 r" "blamed (set ?own) s s1"
    using stop_all_spec [OF assms(2)] by blast
  obtain s' where s': "stop_children tr (tr_children tr c) branch s1 = Some s'" "stops s1 s'"
    "\<forall>child\<in>set (tr_children tr c). \<forall>r. tr_declaration tr child > branch \<and> descends tr child r \<longrightarrow> stopped s' r"
    "blamed {r. \<exists>child\<in>set (tr_children tr c). tr_declaration tr child > branch \<and> descends tr child r} s1 s'"
    using stop_children_spec [OF assms(1) s1(2), of "tr_children tr c" c] by blast
  have "stopped s' r" if "follower tr s c branch r" for r
    using that s1(3) s'(3) stops_stopped [OF s'(2)] by (auto simp: follower_def)
  moreover have "blamed {r. follower tr s c branch r} s s'"
    by (rule blamed_mono [OF blamed_trans [OF s1(4) s'(4) s1(2) s'(2)]]) (auto simp: follower_def)
  ultimately show ?thesis
    using s1(1) s'(1) stops_trans [OF s1(2) s'(2)] by (auto simp: stopFollowersLocked_def)
qed

subsection \<open>The marks a stop leaves\<close>

text \<open>Every Sequence on the way up is marked no later than the step the walk came from.\<close>

fun marked_up :: "containerTree \<Rightarrow> stopMarks \<Rightarrow> ColRef list \<Rightarrow> int \<Rightarrow> bool" where
  "marked_up tr marks [] branch \<longleftrightarrow> True"
| "marked_up tr marks (c # up) branch \<longleftrightarrow>
     (tr_sequential tr c \<longrightarrow> marks c \<noteq> 0 \<and> marks c \<le> branch) \<and> marked_up tr marks up (tr_declaration tr c)"

definition marks_later :: "stopMarks \<Rightarrow> stopMarks \<Rightarrow> bool" where
  "marks_later marks marks' \<longleftrightarrow> (\<forall>c. marks c \<noteq> 0 \<longrightarrow> marks' c \<noteq> 0 \<and> marks' c \<le> marks c)"

lemma marked_up_later: "marked_up tr marks cs b \<Longrightarrow> marks_later marks marks' \<Longrightarrow> marked_up tr marks' cs b"
  by (induction cs arbitrary: b) (fastforce simp: marks_later_def)+

definition marks_stopped :: "containerTree \<Rightarrow> schedState \<Rightarrow> stopMarks \<Rightarrow> bool" where
  "marks_stopped tr s marks \<longleftrightarrow>
     (\<forall>c r. tr_sequential tr c \<and> marks c \<noteq> 0 \<and> follower tr s c (marks c) r \<longrightarrow> stopped s r)"

definition marks_closed :: "containerTree \<Rightarrow> schedState \<Rightarrow> stopMarks \<Rightarrow> ColRef set \<Rightarrow> bool" where
  "marks_closed tr s marks D \<longleftrightarrow>
     (\<forall>c. c \<notin> D \<and> tr_sequential tr c \<and> marks c \<noteq> 0 \<longrightarrow>
        (\<forall>up. col_chain (rs_e s) (co_parent (e_cols (rs_e s) c)) = Some up \<longrightarrow> marked_up tr marks up (tr_declaration tr c)))"

definition marks_ok :: "containerTree \<Rightarrow> schedState \<Rightarrow> stopMarks \<Rightarrow> bool" where
  "marks_ok tr s marks \<longleftrightarrow> marks_stopped tr s marks \<and> marks_closed tr s marks {}"

lemma stops_chain:
  assumes "run_ok s" "stops s s'"
  shows "col_chain (rs_e s') c = col_chain (rs_e s) c"
proof -
  obtain cs where cs: "col_chain (rs_e s) c = Some cs" "\<And>e. same_shape (rs_e s) e \<Longrightarrow> col_chain e c = Some cs"
    using inv_chain [OF run_okD(1) [OF assms(1)]] by metis
  moreover have "same_shape (rs_e s) (rs_e s')" using assms(2) by (simp add: stops_def same_run_def)
  ultimately show ?thesis by simp
qed

lemma stops_marks:
  assumes "run_ok s" "stops s s'"
  shows "marks_stopped tr s marks \<Longrightarrow> marks_stopped tr s' marks"
    "marks_closed tr s' marks D = marks_closed tr s marks D"
  using stops_stopped [OF assms(2)] follower_stops [OF assms(2)] stops_chain [OF assms] stops_frame(4) [OF assms(2)]
  by (auto simp: marks_stopped_def marks_closed_def)

lemma chain_Cons:
  assumes "col_chain e x = Some (c # up)"
  shows "x = Some c" "col_chain e (co_parent (e_cols e c)) = Some up"
  using assms by (subst (asm) col_chain.simps; auto simp: bind_eq_Some_conv split: option.splits)+

text \<open>\<open>r\<close> belongs to a later step of some Sequence around the Task the walk starts from.\<close>

fun later_step :: "containerTree \<Rightarrow> schedState \<Rightarrow> ColRef list \<Rightarrow> int \<Rightarrow> TaskRef \<Rightarrow> bool" where
  "later_step tr s [] branch r \<longleftrightarrow> False"
| "later_step tr s (c # up) branch r \<longleftrightarrow>
     tr_sequential tr c \<and> follower tr s c branch r \<or> later_step tr s up (tr_declaration tr c) r"

lemma later_step_stops: "stops s s' \<Longrightarrow> later_step tr s' cs b r = later_step tr s cs b r"
  by (induction cs arbitrary: b) (simp_all add: follower_stops)

lemma follow_up_spec:
  "tree_ok tr s \<Longrightarrow> run_ok s \<Longrightarrow> col_chain (rs_e s) x = Some cs \<Longrightarrow> distinct cs \<Longrightarrow> set cs \<inter> D = {} \<Longrightarrow> branch > 0 \<Longrightarrow>
   marks_stopped tr s marks \<Longrightarrow> marks_closed tr s marks D \<Longrightarrow>
   \<exists>marks' s'. follow_up tr cs branch marks s = Some (marks', s') \<and> stops s s' \<and> marks_later marks marks'
     \<and> marked_up tr marks' cs branch \<and> marks_stopped tr s' marks' \<and> marks_closed tr s' marks' D
     \<and> blamed {r. later_step tr s cs branch r} s s'"
proof (induction cs arbitrary: x D branch marks s)
  case Nil
  then show ?case using stops_refl blamed_refl by (auto simp: marks_later_def)
next
  case (Cons c up)
  have chain: "col_chain (rs_e s) (co_parent (e_cols (rs_e s) c)) = Some up"
    using chain_Cons [OF Cons.prems(3)] by simp
  have up: "distinct up" "set up \<inter> insert c D = {}" "c \<notin> D" using Cons.prems(4,5) by auto
  have positive: "tr_declaration tr c > 0" using Cons.prems(1) by (simp add: tree_ok_def)
  show ?case
  proof (cases "tr_sequential tr c")
    case False
    have "marks_closed tr s marks (insert c D)" using Cons.prems(8) by (simp add: marks_closed_def)
    then obtain marks' s' where "follow_up tr up (tr_declaration tr c) marks s = Some (marks', s')" "stops s s'"
      "marks_later marks marks'" "marked_up tr marks' up (tr_declaration tr c)" "marks_stopped tr s' marks'"
      "marks_closed tr s' marks' (insert c D)" "blamed {r. later_step tr s up (tr_declaration tr c) r} s s'"
      using Cons.IH [OF Cons.prems(1,2) chain up(1,2) positive Cons.prems(7)] by blast
    moreover have "marks_closed tr s' marks' D"
      using calculation(6) False unfolding marks_closed_def by (metis insert_iff)
    ultimately show ?thesis using False by auto
  next
    case seq: True
    show ?thesis
    proof (cases "marks c \<noteq> 0 \<and> branch \<ge> marks c")
      case True
      then have "marked_up tr marks up (tr_declaration tr c)"
        using Cons.prems(8) up(3) seq chain unfolding marks_closed_def by blast
      then show ?thesis using True seq Cons.prems(2,7,8) stops_refl blamed_refl by (auto simp: marks_later_def)
    next
      case False
      define marks1 where "marks1 = marks(c := branch)"
      have later1: "marks_later marks marks1" using False Cons.prems(6) by (auto simp: marks_later_def marks1_def)
      obtain s1 where s1: "stopFollowersLocked tr c branch s = Some s1" "stops s s1"
        "\<forall>r. follower tr s c branch r \<longrightarrow> stopped s1 r" "blamed {r. follower tr s c branch r} s s1"
        using stop_followers_spec [OF Cons.prems(1,2)] by blast
      have ok1: "run_ok s1" using s1(2) by (simp add: stops_def)
      have "marks_stopped tr s1 marks1"
        using stops_marks(1) [OF Cons.prems(2) s1(2) Cons.prems(7)] s1(3) follower_stops [OF s1(2)]
        unfolding marks_stopped_def marks1_def by auto
      moreover have "marks_closed tr s1 marks1 (insert c D)"
        unfolding stops_marks(2) [OF Cons.prems(2) s1(2)]
        using Cons.prems(8) marked_up_later [OF _ later1] by (auto simp: marks_closed_def marks1_def)
      moreover have "col_chain (rs_e s1) (co_parent (e_cols (rs_e s) c)) = Some up"
        using chain stops_chain [OF Cons.prems(2) s1(2)] by simp
      ultimately obtain marks' s' where m: "follow_up tr up (tr_declaration tr c) marks1 s1 = Some (marks', s')" "stops s1 s'"
        "marks_later marks1 marks'" "marked_up tr marks' up (tr_declaration tr c)" "marks_stopped tr s' marks'"
        "marks_closed tr s' marks' (insert c D)" "blamed {r. later_step tr s1 up (tr_declaration tr c) r} s1 s'"
        using Cons.IH [OF tree_ok_stops [OF Cons.prems(1) s1(2)] ok1 _ up(1,2) positive] by blast
      have "marks' c \<noteq> 0 \<and> marks' c \<le> branch"
        using m(3) Cons.prems(6) by (auto simp: marks_later_def marks1_def split: if_splits)
      moreover have "marks_later marks marks'" using later1 m(3) unfolding marks_later_def by fastforce
      moreover have stops: "stops s s'" by (rule stops_trans [OF s1(2) m(2)])
      moreover have "blamed {r. later_step tr s (c # up) branch r} s s'"
        by (rule blamed_mono [OF blamed_trans [OF s1(4) m(7) s1(2) m(2)]]) (use seq later_step_stops [OF s1(2)] in auto)
      moreover have "marks_closed tr s' marks' D"
      proof -
        have "col_chain (rs_e s') (co_parent (e_cols (rs_e s') c)) = Some up"
          using chain stops_chain [OF Cons.prems(2) stops] stops_frame(4) [OF stops] by simp
        then show ?thesis using m(4,6) unfolding marks_closed_def by (metis insert_iff option.inject)
      qed
      ultimately show ?thesis using seq False s1(1) m by (auto simp: marks1_def)
    qed
  qed
qed

lemma later_step_stopped:
  "marked_up tr marks cs b \<Longrightarrow> marks_stopped tr s marks \<Longrightarrow> later_step tr s cs b r \<Longrightarrow> stopped s r"
  by (induction cs arbitrary: b) (auto simp: marks_stopped_def dest: follower_later)

text \<open>
  (C13) A failed step stops every later step, of every Sequence it sits under, that has not started: the
  walk that ends at the first Sequence already stopped at or before this step misses nobody, because the
  marks it leaves keep their meaning. It changes no other row, except that the cascade of those stops
  settles Tasks a remembered predecessor of which failed; whatever it changes had not started and becomes
  NotStarted.
\<close>

theorem failure_stops_later_steps:
  assumes "fresh_run s0" "run_step\<^sup>*\<^sup>* s0 s" "tree_ok tr s" "marks_ok tr s marks" "tk_declaration (rs_tasks s failed) > 0"
    "col_chain (rs_e s) (tk_collection (rs_tasks s failed)) = Some chain"
  shows "\<exists>marks' s'. failSequenceFollowersLocked tr marks s failed = Some (marks', s') \<and> marks_ok tr s' marks'
    \<and> (\<forall>r. later_step tr s chain (tk_declaration (rs_tasks s failed)) r \<longrightarrow> stopped s' r)
    \<and> (\<forall>r. tk_state (rs_tasks s' r) = tk_state (rs_tasks s r)
        \<or> tk_state (rs_tasks s' r) = NotStarted \<and> \<not> stopped s r
          \<and> (later_step tr s chain (tk_declaration (rs_tasks s failed)) r
              \<or> (\<exists>p\<in>set (tk_preds (rs_tasks s' r)). failed_pred (rs_e s') p)))"
proof -
  note ok = reachable_ok(1) [OF assms(1,2)]
  obtain cs where cs: "col_chain (rs_e s) (tk_collection (rs_tasks s failed)) = Some cs" "distinct cs"
    using inv_chain [OF run_okD(1) [OF ok]] by metis
  then have distinct: "distinct chain" using assms(6) by simp
  have marks: "marks_stopped tr s marks" "marks_closed tr s marks {}" using assms(4) by (simp_all add: marks_ok_def)
  obtain marks' s' where m: "follow_up tr chain (tk_declaration (rs_tasks s failed)) marks s = Some (marks', s')" "stops s s'"
    "marked_up tr marks' chain (tk_declaration (rs_tasks s failed))" "marks_stopped tr s' marks'" "marks_closed tr s' marks' {}"
    "blamed {r. later_step tr s chain (tk_declaration (rs_tasks s failed)) r} s s'"
    using follow_up_spec [OF assms(3) ok assms(6) distinct _ assms(5) marks] by auto
  have "stopped s' r" if "later_step tr s chain (tk_declaration (rs_tasks s failed)) r" for r
    using later_step_stopped [OF m(3,4)] that later_step_stops [OF m(2)] by blast
  moreover have "tk_state (rs_tasks s' r) = tk_state (rs_tasks s r)
      \<or> tk_state (rs_tasks s' r) = NotStarted \<and> \<not> stopped s r
        \<and> (later_step tr s chain (tk_declaration (rs_tasks s failed)) r
            \<or> (\<exists>p\<in>set (tk_preds (rs_tasks s' r)). failed_pred (rs_e s') p))" for r
    using m(2,6) unfolding stops_def blamed_def doomed_def by blast
  ultimately show ?thesis
    using m(1,4,5) assms(6) by (auto simp: failSequenceFollowersLocked_def marks_ok_def)
qed

subsection \<open>A Task declared after the failure\<close>

definition tree_parents :: "containerTree \<Rightarrow> schedState \<Rightarrow> bool" where
  "tree_parents tr s \<longleftrightarrow>
     (\<forall>c. \<forall>r\<in>set (tr_tasks tr c). tk_collection (rs_tasks s r) = Some c) \<and>
     (\<forall>c. \<forall>child\<in>set (tr_children tr c). co_parent (e_cols (rs_e s) child) = Some c)"

lemma chain_up:
  assumes "run_ok s"
  shows "\<exists>up. col_chain (rs_e s) (co_parent (e_cols (rs_e s) c)) = Some up \<and> col_chain (rs_e s) (Some c) = Some (c # up)"
proof -
  obtain up where "col_chain (rs_e s) (co_parent (e_cols (rs_e s) c)) = Some up"
    using inv_chain [OF run_okD(1) [OF assms]] by metis
  then show ?thesis by (simp add: col_chain.simps [of "rs_e s" "Some c"])
qed

lemma descends_chain:
  assumes "run_ok s" "tree_parents tr s"
  shows "descends tr d st \<Longrightarrow> \<exists>pre up. col_chain (rs_e s) (tk_collection (rs_tasks s st)) = Some (pre @ d # up)
    \<and> col_chain (rs_e s) (Some d) = Some (d # up)"
proof (induction rule: descends.induct)
  case (descends_own r c)
  then show ?case using chain_up [OF assms(1), of c] assms(2) by (fastforce simp: tree_parents_def)
next
  case (descends_child child c r)
  then obtain pre up where up: "col_chain (rs_e s) (tk_collection (rs_tasks s r)) = Some (pre @ child # up)"
    "col_chain (rs_e s) (Some child) = Some (child # up)" by blast
  have "co_parent (e_cols (rs_e s) child) = Some c" using descends_child(1) assms(2) by (simp add: tree_parents_def)
  then obtain up' where "up = c # up'" "col_chain (rs_e s) (Some c) = Some (c # up')"
    using chain_Cons(2) [OF up(2)] chain_up [OF assms(1), of c] by auto
  with up(1) show ?case by (metis append.assoc append_Cons append_Nil)
qed

lemma passed_stop_below:
  "tr_sequential tr c \<Longrightarrow> marks c \<noteq> 0 \<Longrightarrow> tr_declaration tr d > marks c \<Longrightarrow> passed_stop tr marks (pre @ d # c # up) b"
  by (induction pre arbitrary: b) auto

text \<open>
  A step declared after the failure is stopped too: if every other Task a stopped Sequence has
  moved past is stopped, then after \<open>stopIfFollowerLocked\<close> on the new Task they all are.
\<close>

theorem late_step_is_stopped:
  assumes "fresh_run s0" "run_step\<^sup>*\<^sup>* s0 s" "tree_parents tr s" "st \<in> set (rs_order s)"
    "\<And>c r. r \<noteq> st \<Longrightarrow> tr_sequential tr c \<Longrightarrow> marks c \<noteq> 0 \<Longrightarrow> follower tr s c (marks c) r \<Longrightarrow> stopped s r"
  shows "\<exists>s'. stopIfFollowerLocked tr marks s st = Some s'
    \<and> (\<forall>c r. tr_sequential tr c \<and> marks c \<noteq> 0 \<and> follower tr s c (marks c) r \<longrightarrow> stopped s' r)"
proof -
  note ok = reachable_ok(1) [OF assms(1,2)]
  obtain chain where chain: "col_chain (rs_e s) (tk_collection (rs_tasks s st)) = Some chain"
    using inv_chain [OF run_okD(1) [OF ok]] by metis
  let ?b = "tk_declaration (rs_tasks s st)"
  have passed: "passed_stop tr marks chain ?b" if m: "tr_sequential tr c" "marks c \<noteq> 0" "follower tr s c (marks c) st" for c
  proof (cases "st \<in> set (tr_tasks tr c) \<and> ?b > marks c")
    case True
    then have "tk_collection (rs_tasks s st) = Some c" using assms(3) by (simp add: tree_parents_def)
    then obtain up where "chain = c # up" using chain chain_up [OF ok, of c] by auto
    then show ?thesis using True m by simp
  next
    case False
    then obtain child where child: "child \<in> set (tr_children tr c)" "tr_declaration tr child > marks c" "descends tr child st"
      using m(3) by (auto simp: follower_def)
    obtain pre up where up: "chain = pre @ child # up" "col_chain (rs_e s) (Some child) = Some (child # up)"
      using descends_chain [OF ok assms(3) child(3)] chain by auto
    have "co_parent (e_cols (rs_e s) child) = Some c" using child(1) assms(3) by (simp add: tree_parents_def)
    then obtain up' where "up = c # up'" using chain_Cons(2) [OF up(2)] chain_up [OF ok, of c] by auto
    then show ?thesis using passed_stop_below [of tr c marks child] m(1,2) child(2) up(1) by simp
  qed
  show ?thesis
  proof (cases "passed_stop tr marks chain ?b")
    case True
    obtain s' where s': "stopUnstartedLocked s st = Some s'" "stops s s'" "stopped s' st"
      using stop_one [OF ok assms(4)] by blast
    have "\<forall>c r. tr_sequential tr c \<and> marks c \<noteq> 0 \<and> follower tr s c (marks c) r \<longrightarrow> stopped s' r"
      using assms(5) stops_stopped [OF s'(2)] s'(3) by metis
    then show ?thesis using True s'(1) chain by (simp add: stopIfFollowerLocked_def)
  next
    case False
    then have "\<forall>c r. tr_sequential tr c \<and> marks c \<noteq> 0 \<and> follower tr s c (marks c) r \<longrightarrow> stopped s r"
      using passed assms(5) by metis
    then show ?thesis using False chain by (simp add: stopIfFollowerLocked_def)
  qed
qed

subsection \<open>A concrete failure\<close>

text \<open>Sequence 7 holds Tasks 1 and 4 and, as a later step, Group 8, which holds Task 2.\<close>

definition wit_tree :: "ColRef list \<Rightarrow> containerTree" where
  "wit_tree kids = \<lparr>tr_tasks = (\<lambda>c. if c = 7 then [1, 4] else if c \<in> set kids then [2] else []),
     tr_children = (\<lambda>c. if c = 7 then kids else []), tr_declaration = (\<lambda>c. if c = 8 then 5 else 6),
     tr_sequential = (\<lambda>c. c = 7)\<rparr>"

lemma wit_tree_ok: "tree_ok (wit_tree [8]) wit_run" "marks_ok (wit_tree [8]) wit_run (\<lambda>_. 0)"
proof -
  have "tree_ranked (wit_tree [8]) (\<lambda>c. if c = 7 then 1 else 0)" by (simp add: tree_ranked_def wit_tree_def)
  moreover have "descends (wit_tree [8]) c r \<Longrightarrow> r \<in> {1, 2, 4}" for c r
    by (induction rule: descends.induct) (auto simp: wit_tree_def split: if_splits)
  moreover have "rs_order wit_run = [1, 2, 3, 4]" by (simp add: wit_run_def)
  ultimately have "\<exists>rank. tree_ranked (wit_tree [8]) rank"
    "\<forall>c r. descends (wit_tree [8]) c r \<longrightarrow> r \<in> set (rs_order wit_run)" by (blast, fastforce)
  then show "tree_ok (wit_tree [8]) wit_run" by (simp add: tree_ok_def wit_tree_def)
  show "marks_ok (wit_tree [8]) wit_run (\<lambda>_. 0)" by (simp add: marks_ok_def marks_stopped_def marks_closed_def)
qed

lemma wit_run_chain: "col_chain (rs_e wit_run) (tk_collection (rs_tasks wit_run r)) = Some (if r = 1 \<or> r = 4 then [7] else [])"
  by (simp add: wit_run_def col_chain.simps)

text \<open>Task 1 fails: Task 4 and Group 8's Task 2 never start.\<close>

theorem failure_stops_later_steps_witness:
  "\<exists>marks' s'. failSequenceFollowersLocked (wit_tree [8]) (\<lambda>_. 0) wit_run 1 = Some (marks', s') \<and> stopped s' 2 \<and> stopped s' 4"
proof -
  have chain: "col_chain (rs_e wit_run) (tk_collection (rs_tasks wit_run 1)) = Some [7]" using wit_run_chain [of 1] by simp
  have positive: "tk_declaration (rs_tasks wit_run 1) > 0" by (simp add: wit_run_def)
  have "descends (wit_tree [8]) 8 2" by (rule descends_own) (simp add: wit_tree_def)
  then have "later_step (wit_tree [8]) wit_run [7] (tk_declaration (rs_tasks wit_run 1)) 2"
    "later_step (wit_tree [8]) wit_run [7] (tk_declaration (rs_tasks wit_run 1)) 4"
    by (simp_all add: follower_def) (simp_all add: wit_tree_def wit_run_def)
  then show ?thesis
    using failure_stops_later_steps [OF wit_run_fresh rtranclp.rtrancl_refl wit_tree_ok positive chain] by blast
qed

text \<open>Sequence 7 was stopped after its step 1 before Task 4 was declared.\<close>

theorem late_step_is_stopped_witness:
  "\<exists>s'. stopIfFollowerLocked (wit_tree []) (\<lambda>_. 1) wit_run 4 = Some s' \<and> stopped s' 4"
proof -
  have parents: "tree_parents (wit_tree []) wit_run" by (simp add: tree_parents_def wit_tree_def wit_run_def)
  have others: "stopped wit_run r"
    if "r \<noteq> 4" "tr_sequential (wit_tree []) c" "(1::int) \<noteq> 0" "follower (wit_tree []) wit_run c 1 r" for c r
    using that by (auto simp: follower_def wit_tree_def wit_run_def split: if_splits)
  have st: "4 \<in> set (rs_order wit_run)" by (simp add: wit_run_def)
  have "follower (wit_tree []) wit_run 7 1 4" by (simp add: follower_def wit_tree_def wit_run_def)
  moreover have "tr_sequential (wit_tree []) 7" by (simp add: wit_tree_def)
  ultimately show ?thesis
    using late_step_is_stopped [OF wit_run_fresh rtranclp.rtrancl_refl parents st, of "\<lambda>_. 1"] others
    by (metis zero_neq_one)
qed


end
