(* ===== verification/Engine_Walk.thy ===== *)
theory Engine_Walk
  imports Prelude
begin

text \<open>
  The depth-first walk of \<open>internal/engine/cycle.go\<close> (\<open>dependencyCyclesLocked\<close>, \<open>cycleThrough\<close>) over any
  graph, whose edges are read one vertex at a time and may be a read that never returns. The path is
  kept with its top first. The walk reports no cycle exactly when none can be reached from its roots.
\<close>

subsection \<open>The walk\<close>

datatype vertexColor = Unvisited | OnPath | Finished

record 'n cycleFrame =
  cf_n :: 'n
  cf_edges :: "'n list"
  cf_next :: nat

text \<open>The frames from the top down to the one of \<open>to\<close>; running off the path would be a panic.\<close>

fun frames_to :: "'n cycleFrame list \<Rightarrow> 'n \<Rightarrow> 'n cycleFrame list option" where
  "frames_to [] to = None"
| "frames_to (f # path) to = (if cf_n f = to then Some [f] else map_option (Cons f) (frames_to path to))"

definition cycleThrough :: "'n cycleFrame list \<Rightarrow> 'n \<Rightarrow> 'n list option" where
  "cycleThrough path to = map_option (\<lambda>fs. rev (map cf_n fs) @ [to]) (frames_to path to)"

partial_function (option) walk ::
  "('n \<Rightarrow> 'n list option) \<Rightarrow> ('n \<Rightarrow> vertexColor) \<Rightarrow> 'n cycleFrame list \<Rightarrow> 'n list list \<Rightarrow>
   (('n \<Rightarrow> vertexColor) \<times> 'n list list) option" where
  "walk edges color path cycles =
     (case path of
        [] \<Rightarrow> Some (color, cycles)
      | fr # below \<Rightarrow>
          if cf_next fr = length (cf_edges fr)
          then walk edges (color(cf_n fr := Finished)) below cycles
          else
            (let to = cf_edges fr ! cf_next fr; fr = fr\<lparr>cf_next := Suc (cf_next fr)\<rparr> in
             case color to of
               Unvisited \<Rightarrow>
                 Option.bind (edges to) (\<lambda>es.
                   walk edges (color(to := OnPath)) (\<lparr>cf_n = to, cf_edges = es, cf_next = 0\<rparr> # fr # below) cycles)
             | OnPath \<Rightarrow>
                 Option.bind (cycleThrough (fr # below) to) (\<lambda>cycle.
                   walk edges color (fr # below) (cycles @ [cycle]))
             | Finished \<Rightarrow> walk edges color (fr # below) cycles))"

fun walk_roots ::
  "('n \<Rightarrow> 'n list option) \<Rightarrow> ('n \<Rightarrow> bool) \<Rightarrow> 'n list \<Rightarrow> ('n \<Rightarrow> vertexColor) \<Rightarrow> 'n list list \<Rightarrow> 'n list list option" where
  "walk_roots edges isRoot [] color cycles = Some cycles"
| "walk_roots edges isRoot (root # rest) color cycles =
     (if \<not> isRoot root \<or> color root \<noteq> Unvisited then walk_roots edges isRoot rest color cycles
      else
        Option.bind (edges root) (\<lambda>es.
          Option.bind (walk edges (color(root := OnPath)) [\<lparr>cf_n = root, cf_edges = es, cf_next = 0\<rparr>] cycles)
            (\<lambda>(color, cycles). walk_roots edges isRoot rest color cycles)))"

text \<open>One round of the loop, by what its edge finds.\<close>

lemma walk_round:
  "walk E color [] cycles = Some (color, cycles)"
  "cf_next fr = length (cf_edges fr) \<Longrightarrow>
     walk E color (fr # below) cycles = walk E (color(cf_n fr := Finished)) below cycles"
  "cf_next fr < length (cf_edges fr) \<Longrightarrow> color (cf_edges fr ! cf_next fr) = Unvisited \<Longrightarrow> E (cf_edges fr ! cf_next fr) = Some es \<Longrightarrow>
     walk E color (fr # below) cycles = walk E (color(cf_edges fr ! cf_next fr := OnPath))
       (\<lparr>cf_n = cf_edges fr ! cf_next fr, cf_edges = es, cf_next = 0\<rparr> # fr\<lparr>cf_next := Suc (cf_next fr)\<rparr> # below) cycles"
  "cf_next fr < length (cf_edges fr) \<Longrightarrow> color (cf_edges fr ! cf_next fr) = OnPath \<Longrightarrow>
     cycleThrough (fr\<lparr>cf_next := Suc (cf_next fr)\<rparr> # below) (cf_edges fr ! cf_next fr) = Some ns \<Longrightarrow>
     walk E color (fr # below) cycles = walk E color (fr\<lparr>cf_next := Suc (cf_next fr)\<rparr> # below) (cycles @ [ns])"
  "cf_next fr < length (cf_edges fr) \<Longrightarrow> color (cf_edges fr ! cf_next fr) = Finished \<Longrightarrow>
     walk E color (fr # below) cycles = walk E color (fr\<lparr>cf_next := Suc (cf_next fr)\<rparr> # below) cycles"
  by (subst walk.simps, simp add: Let_def)+

subsection \<open>Edges, cycles and order of finishing\<close>

definition edge :: "('n \<Rightarrow> 'n list option) \<Rightarrow> 'n \<Rightarrow> 'n \<Rightarrow> bool" where
  "edge E a b \<longleftrightarrow> (\<exists>es. E a = Some es \<and> b \<in> set es)"

definition is_cycle :: "('n \<Rightarrow> 'n list option) \<Rightarrow> 'n list \<Rightarrow> bool" where
  "is_cycle E ns \<longleftrightarrow> 2 \<le> length ns \<and> hd ns = last ns \<and> successively (edge E) ns"

lemma successively_reach: "successively (edge E) ns \<Longrightarrow> a \<in> set ns \<Longrightarrow> (edge E)\<^sup>*\<^sup>* (hd ns) a"
proof (induction ns rule: successively.induct [of _ "edge E"])
  case (3 x y ns)
  then show ?case by (auto intro: converse_rtranclp_into_rtranclp)
qed auto

lemma is_cycle_reaches_itself:
  assumes "is_cycle E ns"
  shows "(edge E)\<^sup>+\<^sup>+ (hd ns) (hd ns)"
proof -
  obtain x y rest where ns: "ns = x # y # rest"
    using assms by (cases ns; cases "tl ns") (auto simp: is_cycle_def)
  have "successively (edge E) (x # y # rest)" using assms by (simp only: is_cycle_def ns)
  then have "successively (edge E) (y # rest)" by simp
  moreover have "last ns \<in> set (y # rest)" unfolding ns by (metis last_ConsR last_in_set list.discI)
  ultimately have "(edge E)\<^sup>*\<^sup>* (hd (y # rest)) (last ns)" by (rule successively_reach)
  then have "(edge E)\<^sup>*\<^sup>* y (last ns)" by simp
  moreover have "successively (edge E) (x # y # rest)" using assms by (simp only: is_cycle_def ns)
  then have "edge E x y" by simp
  moreover have "last ns = x" using assms unfolding is_cycle_def ns by (metis list.sel(1))
  ultimately show ?thesis using rtranclp_into_tranclp2 [of "edge E" x y x] by (simp add: ns)
qed

text \<open>\<open>fin\<close> lists finished vertices in order: each one's edges lead to vertices finished before it.\<close>

definition ordered :: "('n \<Rightarrow> 'n list option) \<Rightarrow> 'n list \<Rightarrow> bool" where
  "ordered E fin \<longleftrightarrow> (\<forall>us n vs. fin = us @ n # vs \<longrightarrow> (\<forall>m. edge E n m \<longrightarrow> m \<in> set us))"

lemma ordered_snoc: "ordered E fin \<Longrightarrow> (\<And>m. edge E n m \<Longrightarrow> m \<in> set fin) \<Longrightarrow> ordered E (fin @ [n])"
  unfolding ordered_def by (auto simp: append_eq_append_conv2 Cons_eq_append_conv append_eq_Cons_conv)

lemma ordered_reach:
  assumes "ordered E fin"
  shows "(edge E)\<^sup>+\<^sup>+ a b \<Longrightarrow> fin = us @ a # vs \<Longrightarrow> b \<in> set us"
proof (induction arbitrary: us vs rule: converse_tranclp_induct)
  case (base a)
  then show ?case using assms by (auto simp: ordered_def)
next
  case (step a c)
  then have "c \<in> set us" using assms by (auto simp: ordered_def)
  then obtain us1 us2 where "us = us1 @ c # us2" by (meson split_list)
  then show ?case using step.IH [of us1 "us2 @ a # vs"] step.prems by auto
qed

lemma ordered_acyclic:
  assumes "ordered E fin" "a \<in> set fin" "(edge E)\<^sup>*\<^sup>* a n"
  shows "\<not> (edge E)\<^sup>+\<^sup>+ n n"
proof
  assume cycle: "(edge E)\<^sup>+\<^sup>+ n n"
  have "n \<in> set fin"
    using assms ordered_reach [OF assms(1)] by (metis Un_iff in_set_conv_decomp_last rtranclpD set_append)
  then obtain us vs where "fin = us @ n # vs" "n \<notin> set us" by (meson split_list_first)
  then show False using ordered_reach [OF assms(1) cycle] by blast
qed

subsection \<open>What the walk keeps\<close>

definition frame_ok :: "('n \<Rightarrow> 'n list option) \<Rightarrow> 'n cycleFrame \<Rightarrow> bool" where
  "frame_ok E f \<longleftrightarrow> E (cf_n f) = Some (cf_edges f) \<and> cf_next f \<le> length (cf_edges f)"

text \<open>Each frame below the top last followed its edge to the frame above it.\<close>

fun linked :: "'n cycleFrame list \<Rightarrow> bool" where
  "linked (f # g # path) \<longleftrightarrow>
     0 < cf_next g \<and> cf_next g \<le> length (cf_edges g) \<and> cf_edges g ! (cf_next g - 1) = cf_n f \<and> linked (g # path)"
| "linked path \<longleftrightarrow> True"

text \<open>The edges a frame has followed to the end lead to finished vertices.\<close>

fun done_below :: "'n set \<Rightarrow> 'n cycleFrame list \<Rightarrow> bool" where
  "done_below F [] \<longleftrightarrow> True"
| "done_below F (f # path) \<longleftrightarrow> set (take (cf_next f - 1) (cf_edges f)) \<subseteq> F \<and> done_below F path"

definition done_path :: "'n set \<Rightarrow> 'n cycleFrame list \<Rightarrow> bool" where
  "done_path F path \<longleftrightarrow>
     (case path of [] \<Rightarrow> True | f # below \<Rightarrow> set (take (cf_next f) (cf_edges f)) \<subseteq> F \<and> done_below F below)"

definition walk_inv ::
  "('n \<Rightarrow> 'n list option) \<Rightarrow> 'n set \<Rightarrow> ('n \<Rightarrow> vertexColor) \<Rightarrow> 'n cycleFrame list \<Rightarrow> 'n list list \<Rightarrow> 'n list \<Rightarrow> bool" where
  "walk_inv E N color path cycles fin \<longleftrightarrow>
     (\<forall>f\<in>set path. frame_ok E f) \<and> linked path \<and> distinct (map cf_n path) \<and>
     (\<forall>n. color n = OnPath \<longleftrightarrow> n \<in> set (map cf_n path)) \<and> (\<forall>n. color n = Finished \<longleftrightarrow> n \<in> set fin) \<and>
     set (map cf_n path) \<subseteq> N \<and> set fin \<subseteq> N \<and>
     (\<forall>ns\<in>set cycles. is_cycle E ns \<and> hd ns \<in> N) \<and>
     (cycles = [] \<longrightarrow> ordered E fin \<and> done_path (set fin) path)"

lemma done_below_mono: "done_below F path \<Longrightarrow> F \<subseteq> F' \<Longrightarrow> done_below F' path"
  by (induction path) auto

lemma frames_to_some: "to \<in> set (map cf_n path) \<Longrightarrow> \<exists>fs rest. frames_to path to = Some fs \<and> path = fs @ rest
    \<and> fs \<noteq> [] \<and> cf_n (last fs) = to"
proof (induction path)
  case (Cons f path)
  show ?case
  proof (cases "cf_n f = to")
    case False
    then obtain fs rest where "frames_to path to = Some fs" "path = fs @ rest" "fs \<noteq> []" "cf_n (last fs) = to"
      using Cons by auto
    then show ?thesis using False by auto
  qed auto
qed simp

lemma linked_append: "linked (us @ vs) \<Longrightarrow> linked us"
proof (induction us rule: linked.induct)
  case (1 f g path)
  then show ?case by simp
qed simp_all

lemma linked_successive:
  "linked fs \<Longrightarrow> \<forall>f\<in>set fs. frame_ok E f \<Longrightarrow> successively (edge E) (rev (map cf_n fs))"
proof (induction fs rule: linked.induct)
  case (1 f g path)
  have "edge E (cf_n g) (cf_n f)"
    using 1(2,3) nth_mem [of "cf_next g - 1" "cf_edges g"] by (auto simp: edge_def frame_ok_def)
  then show ?case using 1 by (auto simp: successively_append_iff)
qed simp_all

text \<open>An edge back onto the path closes a cycle of real edges; the walk never runs off its path.\<close>

lemma cycle_closed:
  assumes "linked path" "\<forall>f\<in>set path. frame_ok E f" "path \<noteq> []" "edge E (cf_n (hd path)) to" "to \<in> set (map cf_n path)"
  shows "\<exists>ns. cycleThrough path to = Some ns \<and> is_cycle E ns \<and> hd ns = to"
proof -
  obtain fs rest where fs: "frames_to path to = Some fs" "path = fs @ rest" "fs \<noteq> []" "cf_n (last fs) = to"
    using frames_to_some [OF assms(5)] by blast
  let ?ns = "rev (map cf_n fs) @ [to]"
  have "successively (edge E) (rev (map cf_n fs))"
    using linked_successive linked_append assms(1,2) fs(2) by (metis Un_iff set_append)
  moreover have "last (rev (map cf_n fs)) = cf_n (hd path)" using fs(2,3) by (simp add: last_rev hd_map)
  ultimately have "successively (edge E) ?ns" using assms(4) by (auto simp: successively_append_iff)
  moreover have "hd ?ns = to" using fs(3,4) by (simp add: hd_append hd_rev last_map)
  moreover have "2 \<le> length ?ns" using fs(3) by (cases fs) auto
  ultimately show ?thesis using fs(1) by (simp add: cycleThrough_def is_cycle_def)
qed

definition unvisited :: "'n set \<Rightarrow> ('n \<Rightarrow> vertexColor) \<Rightarrow> nat" where
  "unvisited N color = card {n \<in> N. color n = Unvisited}"

definition to_follow :: "'n cycleFrame list \<Rightarrow> nat" where
  "to_follow path = sum_list (map (\<lambda>f. Suc (length (cf_edges f)) - cf_next f) path)"

lemma unvisited_visit: "finite N \<Longrightarrow> n \<in> N \<Longrightarrow> color n = Unvisited \<Longrightarrow> c \<noteq> Unvisited \<Longrightarrow>
   unvisited N (color(n := c)) < unvisited N color"
  unfolding unvisited_def by (rule psubset_card_mono) auto

lemma walk_spec:
  assumes N: "finite N" "\<And>n. n \<in> N \<Longrightarrow> \<exists>es. E n = Some es \<and> set es \<subseteq> N"
  shows "walk_inv E N color path cycles fin \<Longrightarrow>
    \<exists>color' cycles' fin'. walk E color path cycles = Some (color', cycles') \<and> walk_inv E N color' [] cycles' (fin @ fin')
      \<and> (cycles \<noteq> [] \<longrightarrow> cycles' \<noteq> []) \<and> set (map cf_n path) \<subseteq> set fin'"
proof (induction "(unvisited N color, to_follow path)" arbitrary: color path cycles fin
    rule: wf_induct_rule [OF wf_measures [of "[fst, snd]"]])
  case (1 color path cycles fin)
  note inv = 1(2) [unfolded walk_inv_def]
  show ?case
  proof (cases path)
    case Nil
    then show ?thesis using 1(2) by (subst walk.simps) (auto intro: exI [of _ "[]"])
  next
    case (Cons f below)
    have f: "E (cf_n f) = Some (cf_edges f)" "cf_next f \<le> length (cf_edges f)" "cf_n f \<in> N" "color (cf_n f) = OnPath"
      using inv Cons by (auto simp: frame_ok_def)
    show ?thesis
    proof (cases "cf_next f = length (cf_edges f)")
      case True
      define color1 where "color1 = color(cf_n f := Finished)"
      have step: "walk E color path cycles = walk E color1 below cycles"
        unfolding Cons using True by (subst walk.simps) (simp add: color1_def)
      have fresh: "cf_n f \<notin> set fin" "cf_n f \<notin> set (map cf_n below)"
        using inv f(4) Cons by (metis vertexColor.distinct(5), auto)
      have "linked below" using inv Cons by (cases below) auto
      moreover have "\<forall>m. edge E (cf_n f) m \<longrightarrow> m \<in> set fin" if "cycles = []"
        using inv Cons that True f(1) by (auto simp: done_path_def edge_def)
      moreover have "done_path (set (fin @ [cf_n f])) below" if "cycles = []"
      proof (cases below)
        case (Cons g rest)
        then have g: "0 < cf_next g" "cf_next g \<le> length (cf_edges g)" "cf_edges g ! (cf_next g - 1) = cf_n f"
          "set (take (cf_next g - 1) (cf_edges g)) \<subseteq> set fin" "done_below (set fin) rest"
          using inv that \<open>path = f # below\<close> by (auto simp: done_path_def)
        have "take (cf_next g) (cf_edges g) = take (cf_next g - 1) (cf_edges g) @ [cf_n f]"
          using take_Suc_conv_app_nth [of "cf_next g - 1" "cf_edges g"] g(1-3) by auto
        moreover have "done_below (set (fin @ [cf_n f])) rest" by (rule done_below_mono [OF g(5)]) auto
        ultimately show ?thesis using g(4) Cons by (auto simp: done_path_def)
      qed (simp add: done_path_def)
      ultimately have inv1: "walk_inv E N color1 below cycles (fin @ [cf_n f])"
        using inv Cons fresh f(3) by (auto simp: walk_inv_def color1_def intro!: ordered_snoc)
      have "unvisited N color1 = unvisited N color"
        using f(4) unfolding unvisited_def color1_def by (intro arg_cong [of _ _ card]) auto
      moreover have "to_follow below < to_follow path" using f(2) Cons by (simp add: to_follow_def)
      ultimately have "((unvisited N color1, to_follow below), (unvisited N color, to_follow path)) \<in> measures [fst, snd]"
        by simp
      from 1(1) [OF this inv1] obtain color' cycles' fin' where "walk E color1 below cycles = Some (color', cycles')"
        "walk_inv E N color' [] cycles' ((fin @ [cf_n f]) @ fin')" "cycles \<noteq> [] \<longrightarrow> cycles' \<noteq> []"
        "set (map cf_n below) \<subseteq> set fin'"
        by blast
      then show ?thesis using step Cons by (intro exI [of _ color'] exI [of _ cycles'] exI [of _ "cf_n f # fin'"]) auto
    next
      case False
      then have more: "cf_next f < length (cf_edges f)" using f(2) by simp
      define to where "to = cf_edges f ! cf_next f"
      define f1 where "f1 = f\<lparr>cf_next := Suc (cf_next f)\<rparr>"
      have f1: "cf_n f1 = cf_n f" "cf_edges f1 = cf_edges f" "cf_next f1 = Suc (cf_next f)" by (simp_all add: f1_def)
      have to: "to \<in> set (cf_edges f)" "edge E (cf_n f) to" using more f(1) by (auto simp: to_def edge_def)
      then have "to \<in> N" using N(2) [OF f(3)] f(1) by auto
      have "linked (f # below)" using inv Cons by simp
      then have "linked (f1 # below)" by (cases below) (simp_all add: f1)
      moreover have "\<forall>g\<in>set (f1 # below). frame_ok E g" using inv Cons more f(1) by (auto simp: frame_ok_def f1)
      ultimately have path1: "\<forall>g\<in>set (f1 # below). frame_ok E g" "linked (f1 # below)" "map cf_n (f1 # below) = map cf_n path"
        using Cons by (simp_all add: f1)
      have walk: "walk E color path cycles = (case color to of
          Unvisited \<Rightarrow> Option.bind (E to) (\<lambda>es.
            walk E (color(to := OnPath)) (\<lparr>cf_n = to, cf_edges = es, cf_next = 0\<rparr> # f1 # below) cycles)
        | OnPath \<Rightarrow> Option.bind (cycleThrough (f1 # below) to) (\<lambda>cycle. walk E color (f1 # below) (cycles @ [cycle]))
        | Finished \<Rightarrow> walk E color (f1 # below) cycles)"
        unfolding Cons to_def f1_def using False by (subst walk.simps) (simp add: Let_def)
      have less: "to_follow (f1 # below) < to_follow path" using more Cons by (simp add: to_follow_def f1)
      have goal: ?thesis
        if "walk E color path cycles = walk E color1 path1 cycles1" "walk_inv E N color1 path1 cycles1 fin"
          "((unvisited N color1, to_follow path1), (unvisited N color, to_follow path)) \<in> measures [fst, snd]"
          "cycles \<noteq> [] \<longrightarrow> cycles1 \<noteq> []" "set (map cf_n path) \<subseteq> set (map cf_n path1)" for color1 path1 cycles1
        using 1(1) [OF that(3,2)] that(1,4,5) by (metis subset_trans)
      show ?thesis
      proof (cases "color to")
        case Unvisited
        obtain es where es: "E to = Some es" using N(2) [OF \<open>to \<in> N\<close>] by blast
        have "to \<notin> set (map cf_n path)" "to \<notin> set fin" using inv Unvisited by (metis vertexColor.distinct(1), metis vertexColor.distinct(3))
        moreover have "done_path (set fin) (\<lparr>cf_n = to, cf_edges = es, cf_next = 0\<rparr> # f1 # below)" if "cycles = []"
          using inv Cons that by (simp add: done_path_def f1)
        moreover have "linked (\<lparr>cf_n = to, cf_edges = es, cf_next = 0\<rparr> # f1 # below)"
          using path1(2) more by (simp add: f1 to_def)
        moreover have "\<forall>g\<in>set (\<lparr>cf_n = to, cf_edges = es, cf_next = 0\<rparr> # f1 # below). frame_ok E g"
          using path1(1) es by (simp add: frame_ok_def)
        moreover have "map cf_n (\<lparr>cf_n = to, cf_edges = es, cf_next = 0\<rparr> # f1 # below) = to # map cf_n path"
          using path1(3) by simp
        ultimately have "walk_inv E N (color(to := OnPath)) (\<lparr>cf_n = to, cf_edges = es, cf_next = 0\<rparr> # f1 # below) cycles fin"
          using inv Unvisited \<open>to \<in> N\<close> unfolding walk_inv_def by (simp only: set_simps distinct.simps fun_upd_apply) auto
        then show ?thesis
          using walk Unvisited es unvisited_visit [OF N(1) \<open>to \<in> N\<close>, of color OnPath] Cons by (intro goal) (auto simp: f1)
      next
        case OnPath
        then have "to \<in> set (map cf_n (f1 # below))" using inv path1(3) by metis
        then obtain ns where ns: "cycleThrough (f1 # below) to = Some ns" "is_cycle E ns" "hd ns = to"
          using cycle_closed [OF path1(2,1)] to(2) by (auto simp: f1)
        then have "walk_inv E N color (f1 # below) (cycles @ [ns]) fin"
          using inv path1 \<open>to \<in> N\<close> unfolding walk_inv_def by auto
        then show ?thesis using walk OnPath ns(1) less Cons by (intro goal) (auto simp: f1)
      next
        case Finished
        then have "to \<in> set fin" using inv by metis
        moreover have "take (Suc (cf_next f)) (cf_edges f) = take (cf_next f) (cf_edges f) @ [to]"
          using more by (simp add: to_def take_Suc_conv_app_nth)
        ultimately have "done_path (set fin) (f1 # below)" if "cycles = []"
          using inv Cons that by (simp add: done_path_def f1)
        then have "walk_inv E N color (f1 # below) cycles fin"
          using inv path1 unfolding walk_inv_def by auto
        then show ?thesis using walk Finished less Cons by (intro goal) (auto simp: f1)
      qed
    qed
  qed
qed

subsection \<open>The walk from every root\<close>

lemma walk_roots_spec:
  assumes N: "finite N" "\<And>n. n \<in> N \<Longrightarrow> \<exists>es. E n = Some es \<and> set es \<subseteq> N"
  shows "walk_inv E N color [] cycles fin \<Longrightarrow> {r \<in> set roots. isRoot r} \<subseteq> N \<Longrightarrow>
    \<exists>cycles' fin'. walk_roots E isRoot roots color cycles = Some cycles' \<and>
      (\<forall>ns\<in>set cycles'. is_cycle E ns \<and> hd ns \<in> N) \<and>
      (cycles' = [] \<longrightarrow> cycles = [] \<and> ordered E fin' \<and> set fin \<union> {r \<in> set roots. isRoot r} \<subseteq> set fin')"
proof (induction roots arbitrary: color cycles fin)
  case Nil
  then show ?case by (intro exI [of _ cycles] exI [of _ fin]) (auto simp: walk_inv_def)
next
  case (Cons root roots)
  have roots: "{r \<in> set roots. isRoot r} \<subseteq> N" using Cons.prems(2) by auto
  show ?case
  proof (cases "isRoot root \<and> color root = Unvisited")
    case False
    have "isRoot root \<Longrightarrow> root \<in> set fin"
      using False Cons.prems(1) by (cases "color root") (auto simp: walk_inv_def)
    moreover obtain cycles' fin' where "walk_roots E isRoot roots color cycles = Some cycles'"
      "\<forall>ns\<in>set cycles'. is_cycle E ns \<and> hd ns \<in> N"
      "cycles' = [] \<longrightarrow> cycles = [] \<and> ordered E fin' \<and> set fin \<union> {r \<in> set roots. isRoot r} \<subseteq> set fin'"
      using Cons.IH [OF Cons.prems(1) roots] by blast
    ultimately show ?thesis
      using False by (intro exI [of _ cycles'] exI [of _ fin']) auto
  next
    case True
    then have root: "root \<in> N" using Cons.prems(2) by auto
    then obtain es where es: "E root = Some es" using N(2) by blast
    have "root \<notin> set fin" using Cons.prems(1) True by (metis vertexColor.distinct(3) walk_inv_def)
    then have "walk_inv E N (color(root := OnPath)) [\<lparr>cf_n = root, cf_edges = es, cf_next = 0\<rparr>] cycles fin"
      using Cons.prems(1) True root es
      by (auto simp: walk_inv_def frame_ok_def done_path_def)
    then obtain color1 cycles1 fin1 where walk:
      "walk E (color(root := OnPath)) [\<lparr>cf_n = root, cf_edges = es, cf_next = 0\<rparr>] cycles = Some (color1, cycles1)"
      "walk_inv E N color1 [] cycles1 (fin @ fin1)" "cycles \<noteq> [] \<longrightarrow> cycles1 \<noteq> []" "root \<in> set fin1"
      using walk_spec [OF N] by fastforce
    obtain cycles' fin' where "walk_roots E isRoot roots color1 cycles1 = Some cycles'"
      "\<forall>ns\<in>set cycles'. is_cycle E ns \<and> hd ns \<in> N"
      "cycles' = [] \<longrightarrow> cycles1 = [] \<and> ordered E fin' \<and> set (fin @ fin1) \<union> {r \<in> set roots. isRoot r} \<subseteq> set fin'"
      using Cons.IH [OF walk(2) roots] by blast
    then show ?thesis
      using True es walk(1,3,4) by (intro exI [of _ cycles'] exI [of _ fin']) auto
  qed
qed

definition reachable_from :: "('n \<Rightarrow> 'n list option) \<Rightarrow> 'n set \<Rightarrow> 'n set" where
  "reachable_from E R = {n. \<exists>r\<in>R. (edge E)\<^sup>*\<^sup>* r n}"

text \<open>
  From a finite graph whose edges can all be read, the walk returns, reports only cycles reachable from
  a root, and reports none only if there is none.
\<close>

lemma walk_roots_exact:
  assumes M: "finite M" "\<And>n. n \<in> M \<Longrightarrow> \<exists>es. E n = Some es \<and> set es \<subseteq> M" "{r \<in> set roots. isRoot r} \<subseteq> M"
  defines "R \<equiv> {r \<in> set roots. isRoot r}"
  shows "\<exists>cycles. walk_roots E isRoot roots (\<lambda>_. Unvisited) [] = Some cycles
    \<and> (\<forall>ns\<in>set cycles. is_cycle E ns \<and> hd ns \<in> reachable_from E R)
    \<and> (cycles = [] \<longleftrightarrow> (\<forall>n\<in>reachable_from E R. \<not> (edge E)\<^sup>+\<^sup>+ n n))"
proof -
  let ?N = "reachable_from E R"
  have sub: "n \<in> M" if "(edge E)\<^sup>*\<^sup>* r n" "r \<in> M" for r n
    using that
  proof (induction rule: rtranclp_induct)
    case (step y z)
    then show ?case using M(2) [of y] by (auto simp: edge_def)
  qed
  have N_M: "?N \<subseteq> M" using sub M(3) by (auto simp: reachable_from_def R_def)
  have fin: "finite ?N" using finite_subset [OF N_M M(1)] .
  have closed: "\<exists>es. E n = Some es \<and> set es \<subseteq> ?N" if "n \<in> ?N" for n
  proof -
    have "n \<in> M" using N_M that by blast
    then obtain es where es: "E n = Some es" using M(2) by blast
    from \<open>n \<in> ?N\<close> obtain r where r: "r \<in> R" "(edge E)\<^sup>*\<^sup>* r n" by (auto simp: reachable_from_def)
    have "(edge E)\<^sup>*\<^sup>* r m" if "m \<in> set es" for m
      by (rule rtranclp.rtrancl_into_rtrancl [OF r(2)]) (use es that in \<open>auto simp: edge_def\<close>)
    then show ?thesis using es r(1) by (auto simp: reachable_from_def)
  qed
  have "walk_inv E ?N (\<lambda>_. Unvisited) [] [] []" by (simp add: walk_inv_def ordered_def done_path_def)
  moreover have "R \<subseteq> ?N" by (auto simp: reachable_from_def)
  ultimately obtain cycles fin' where c: "walk_roots E isRoot roots (\<lambda>_. Unvisited) [] = Some cycles"
    "\<forall>ns\<in>set cycles. is_cycle E ns \<and> hd ns \<in> ?N" "cycles = [] \<longrightarrow> ordered E fin' \<and> R \<subseteq> set fin'"
    using walk_roots_spec [OF fin, of E "\<lambda>_. Unvisited" "[]" "[]" roots isRoot] closed by (auto simp: R_def)
  have "\<not> (edge E)\<^sup>+\<^sup>+ n n" if "cycles = []" "n \<in> ?N" for n
    using that c(3) ordered_acyclic [of E fin'] by (auto simp: reachable_from_def)
  moreover have "\<exists>n\<in>?N. (edge E)\<^sup>+\<^sup>+ n n" if "cycles \<noteq> []"
    using that c(2) is_cycle_reaches_itself by (metis last_in_set)
  ultimately show ?thesis using c(1,2) by blast
qed

end
