(* ===== verification/Engine_Cycle.thy ===== *)
theory Engine_Cycle
  imports Engine_Stop Engine_Walk
begin

text \<open>
  Breaking After cycles once a run has stalled (\<open>internal/engine/cycle.go\<close>): the waits-for edges of a
  Task or a container, the walk over them from every parked Task, and settling Blocked every parked Task
  on a cycle it found. The path text of the row and the misuse it records are left out. A nil
  predecessor and a vertex that is neither Task nor container do not occur; reading one is \<open>None\<close>.
\<close>

subsection \<open>The waits-for graph\<close>

record depNode =
  dn_task :: "TaskRef option"
  dn_col :: "ColRef option"

abbreviation task_node :: "TaskRef \<Rightarrow> depNode" where
  "task_node r \<equiv> \<lparr>dn_task = Some r, dn_col = None\<rparr>"

abbreviation col_node :: "ColRef \<Rightarrow> depNode" where
  "col_node c \<equiv> \<lparr>dn_task = None, dn_col = Some c\<rparr>"

abbreviation col_pred :: "ColRef \<Rightarrow> predecessor" where
  "col_pred c \<equiv> \<lparr>pd_task = None, pd_col = Some c, pd_through = 0\<rparr>"

fun pending_preds :: "scheduler \<Rightarrow> predecessor list \<Rightarrow> depNode list option" where
  "pending_preds e [] = Some []"
| "pending_preds e (p # rest) =
     Option.bind (outcomeLocked e p) (\<lambda>(outcome, _).
       Option.bind (pending_preds e rest) (\<lambda>ns.
         Some (if outcome = PredPending then \<lparr>dn_task = pd_task p, dn_col = pd_col p\<rparr> # ns else ns)))"

fun pending_children :: "scheduler \<Rightarrow> ColRef list \<Rightarrow> depNode list option" where
  "pending_children e [] = Some []"
| "pending_children e (c # rest) =
     Option.bind (collectionOutcomeLocked e (col_pred c) c) (\<lambda>(outcome, _).
       Option.bind (pending_children e rest) (\<lambda>ns.
         Some (if outcome = PredPending then col_node c # ns else ns)))"

definition waitsForLocked :: "containerTree \<Rightarrow> scheduler \<Rightarrow> depNode \<Rightarrow> depNode list option" where
  "waitsForLocked tr e n =
     (case dn_task n of
        Some r \<Rightarrow> if tk_phase (e_tasks e r) \<noteq> PhaseParked then Some [] else pending_preds e (tk_preds (e_tasks e r))
      | None \<Rightarrow>
          (case dn_col n of
             None \<Rightarrow> None
           | Some c \<Rightarrow>
               if total (co_tally (e_cols e c)) = 0 then pending_preds e (co_entry (e_cols e c))
               else
                 Option.bind (pending_children e (tr_children tr c)) (\<lambda>ns.
                   Some (map task_node (filter (\<lambda>t. \<not> IsTerminalTask (tk_state (e_tasks e t))) (tr_tasks tr c)) @ ns))))"

definition parked_node :: "scheduler \<Rightarrow> depNode \<Rightarrow> bool" where
  "parked_node e n = (case dn_task n of None \<Rightarrow> False | Some r \<Rightarrow> tk_phase (e_tasks e r) = PhaseParked)"

definition dependencyCyclesLocked :: "containerTree \<Rightarrow> schedState \<Rightarrow> depNode list list option" where
  "dependencyCyclesLocked tr s =
     walk_roots (waitsForLocked tr (rs_e s)) (parked_node (rs_e s)) (map task_node (rs_order s)) (\<lambda>_. Unvisited) []"

subsection \<open>Blocking the Tasks on a cycle\<close>

definition blockInCycleLocked :: "schedState \<Rightarrow> TaskRef \<Rightarrow> schedState option" where
  "blockInCycleLocked s st = settleLocked (s\<lparr>rs_problems := (rs_problems s)(st := True)\<rparr>) st Blocked"

fun block_nodes :: "depNode list \<Rightarrow> schedState \<Rightarrow> schedState option" where
  "block_nodes [] s = Some s"
| "block_nodes (n # rest) s =
     (case dn_task n of
        None \<Rightarrow> block_nodes rest s
      | Some st \<Rightarrow>
          if tk_phase (rs_tasks s st) = PhaseParked \<and> \<not> IsTerminalTask (tk_state (rs_tasks s st))
          then Option.bind (blockInCycleLocked s st) (block_nodes rest)
          else block_nodes rest s)"

fun block_cycles :: "depNode list list \<Rightarrow> schedState \<Rightarrow> schedState option" where
  "block_cycles [] s = Some s"
| "block_cycles (cycle # rest) s = Option.bind (block_nodes cycle s) (block_cycles rest)"

definition blockCyclesLocked :: "containerTree \<Rightarrow> schedState \<Rightarrow> (bool \<times> schedState) option" where
  "blockCyclesLocked tr s =
     (if rs_parked s = 0 then Some (False, s)
      else
        Option.bind (dependencyCyclesLocked tr s) (\<lambda>cycles.
          Option.bind (block_cycles cycles (holdWakesLocked s)) (\<lambda>s.
            Option.bind (drainWokenLocked s) (\<lambda>s. Some (cycles \<noteq> [], s)))))"

subsection \<open>Every edge can be read\<close>

text \<open>Everything named as a predecessor or a member was declared in this run.\<close>

definition pred_declared :: "schedState \<Rightarrow> ColRef set \<Rightarrow> predecessor \<Rightarrow> bool" where
  "pred_declared s C p \<longleftrightarrow>
     (case pd_task p of Some r \<Rightarrow> r \<in> set (rs_order s) \<and> pd_col p = None | None \<Rightarrow> (\<exists>c\<in>C. pd_col p = Some c))"

definition declared_in :: "containerTree \<Rightarrow> schedState \<Rightarrow> ColRef set \<Rightarrow> bool" where
  "declared_in tr s C \<longleftrightarrow>
     finite C \<and>
     (\<forall>r\<in>set (rs_order s). \<forall>p\<in>set (tk_preds (rs_tasks s r)). pred_declared s C p) \<and>
     (\<forall>c\<in>C. (\<forall>p\<in>set (co_entry (e_cols (rs_e s) c)). pred_declared s C p)
        \<and> set (tr_tasks tr c) \<subseteq> set (rs_order s) \<and> set (tr_children tr c) \<subseteq> C)"

definition declared_nodes :: "schedState \<Rightarrow> ColRef set \<Rightarrow> depNode set" where
  "declared_nodes s C = task_node ` set (rs_order s) \<union> col_node ` C"

lemma pending_preds_returns:
  assumes "entries_ranked (rs_e s) rank"
  shows "\<forall>p\<in>set ps. pred_declared s C p \<Longrightarrow> \<exists>ns. pending_preds (rs_e s) ps = Some ns \<and> set ns \<subseteq> declared_nodes s C"
proof (induction ps)
  case (Cons p ps)
  obtain out b where out: "outcomeLocked (rs_e s) p = Some (out, b)" using outcome_returns [OF assms, of p] by auto
  have "\<lparr>dn_task = pd_task p, dn_col = pd_col p\<rparr> \<in> declared_nodes s C"
    using Cons.prems by (auto simp: pred_declared_def declared_nodes_def split: option.splits)
  then show ?case using Cons out by auto
qed simp

lemma pending_children_returns:
  assumes "entries_ranked (rs_e s) rank"
  shows "set cs \<subseteq> C \<Longrightarrow> \<exists>ns. pending_children (rs_e s) cs = Some ns \<and> set ns \<subseteq> declared_nodes s C"
proof (induction cs)
  case (Cons c cs)
  obtain out b where "outcomeLocked (rs_e s) (col_pred c) = Some (out, b)" using outcome_returns [OF assms, of "col_pred c"] by auto
  then have "collectionOutcomeLocked (rs_e s) (col_pred c) c = Some (out, b)" by (simp add: outcomeLocked_def)
  moreover have "col_node c \<in> declared_nodes s C" using Cons.prems by (simp add: declared_nodes_def)
  ultimately show ?case using Cons by auto
qed simp

lemma waits_for_returns:
  assumes "run_ok s" "declared_in tr s C" "n \<in> declared_nodes s C"
  shows "\<exists>ns. waitsForLocked tr (rs_e s) n = Some ns \<and> set ns \<subseteq> declared_nodes s C"
proof -
  obtain rank where rank: "entries_ranked (rs_e s) rank" using inv_entries [OF run_okD(1) [OF assms(1)]] by blast
  consider r where "r \<in> set (rs_order s)" "n = task_node r" | c where "c \<in> C" "n = col_node c"
    using assms(3) by (auto simp: declared_nodes_def)
  then show ?thesis
  proof cases
    case 1
    then show ?thesis
      using pending_preds_returns [OF rank, of "tk_preds (rs_tasks s r)" C] assms(2)
      by (auto simp: waitsForLocked_def declared_in_def)
  next
    case 2
    have entry: "\<exists>ns. pending_preds (rs_e s) (co_entry (e_cols (rs_e s) c)) = Some ns \<and> set ns \<subseteq> declared_nodes s C"
      by (rule pending_preds_returns [OF rank]) (use assms(2) 2 in \<open>simp add: declared_in_def\<close>)
    have "set (tr_children tr c) \<subseteq> C" using assms(2) 2 by (simp add: declared_in_def)
    then obtain ns where "pending_children (rs_e s) (tr_children tr c) = Some ns" "set ns \<subseteq> declared_nodes s C"
      using pending_children_returns [OF rank] by blast
    moreover have "set (tr_tasks tr c) \<subseteq> set (rs_order s)" using assms(2) 2 by (simp add: declared_in_def)
    then have "task_node ` set (tr_tasks tr c) \<subseteq> declared_nodes s C" by (auto simp: declared_nodes_def)
    ultimately show ?thesis using 2 entry by (auto simp: waitsForLocked_def)
  qed
qed

abbreviation waits_for :: "containerTree \<Rightarrow> schedState \<Rightarrow> depNode \<Rightarrow> depNode \<Rightarrow> bool" where
  "waits_for tr s \<equiv> edge (waitsForLocked tr (rs_e s))"

definition parked_reaches :: "containerTree \<Rightarrow> schedState \<Rightarrow> depNode \<Rightarrow> bool" where
  "parked_reaches tr s n \<longleftrightarrow>
     (\<exists>r. tk_phase (rs_tasks s r) = PhaseParked \<and> (waits_for tr s)\<^sup>*\<^sup>* (task_node r) n)"

lemma cycles_found:
  assumes "run_ok s" "declared_in tr s C"
  shows "\<exists>cycles. dependencyCyclesLocked tr s = Some cycles
    \<and> (\<forall>ns\<in>set cycles. is_cycle (waitsForLocked tr (rs_e s)) ns \<and> parked_reaches tr s (hd ns))
    \<and> (cycles = [] \<longleftrightarrow> (\<forall>n. parked_reaches tr s n \<longrightarrow> \<not> (waits_for tr s)\<^sup>+\<^sup>+ n n))"
proof -
  let ?E = "waitsForLocked tr (rs_e s)" and ?roots = "map task_node (rs_order s)"
  have fin: "finite (declared_nodes s C)" using assms(2) by (simp add: declared_nodes_def declared_in_def)
  have roots: "{r \<in> set ?roots. parked_node (rs_e s) r} \<subseteq> declared_nodes s C" by (auto simp: declared_nodes_def)
  have order: "r \<in> set (rs_order s)" if "tk_phase (rs_tasks s r) = PhaseParked" for r
    using that run_okD(1) [OF assms(1)] by (auto simp: sched_inv_def phases_ok_def)
  have reach: "n \<in> reachable_from ?E {r \<in> set ?roots. parked_node (rs_e s) r} \<longleftrightarrow> parked_reaches tr s n" for n
    unfolding reachable_from_def parked_reaches_def using order by (auto simp: parked_node_def)
  have "\<exists>cycles. walk_roots ?E (parked_node (rs_e s)) ?roots (\<lambda>_. Unvisited) [] = Some cycles
      \<and> (\<forall>ns\<in>set cycles. is_cycle ?E ns \<and> hd ns \<in> reachable_from ?E {r \<in> set ?roots. parked_node (rs_e s) r})
      \<and> (cycles = [] \<longleftrightarrow> (\<forall>n\<in>reachable_from ?E {r \<in> set ?roots. parked_node (rs_e s) r}. \<not> (edge ?E)\<^sup>+\<^sup>+ n n))"
    by (rule walk_roots_exact [OF fin _ roots]) (rule waits_for_returns [OF assms])
  then show ?thesis
    unfolding dependencyCyclesLocked_def reach Ball_def .
qed

text \<open>
  (C18) In every state of a run whose topology was declared before its first step, with acyclic entries and
  no builders (\<open>fresh_run\<close>), and whose predecessors, entries and members all name declared Tasks and
  containers (\<open>declared_in\<close>), the search returns; what it reports are cycles of waits-for edges reached from
  a parked Task, and it reports none only when no parked Task reaches one. Cyclic entries are excluded:
  reading the outcome of an empty closed container among them, which the search does, does not return.
\<close>

theorem dependency_cycles_exact:
  assumes "fresh_run s0" "run_step\<^sup>*\<^sup>* s0 s" "declared_in tr s C"
  shows "\<exists>cycles. dependencyCyclesLocked tr s = Some cycles
    \<and> (\<forall>ns\<in>set cycles. is_cycle (waitsForLocked tr (rs_e s)) ns \<and> parked_reaches tr s (hd ns))
    \<and> (cycles = [] \<longleftrightarrow> (\<forall>n. parked_reaches tr s n \<longrightarrow> \<not> (waits_for tr s)\<^sup>+\<^sup>+ n n))"
  using cycles_found [OF reachable_ok(1) [OF assms(1,2)] assms(3)] .

subsection \<open>Settling while wakes are held\<close>

text \<open>\<open>s\<close> is \<open>s0\<close> with the Tasks of \<open>B\<close>, all parked there, Blocked and their wakes held.\<close>

definition held :: "schedState \<Rightarrow> TaskRef set \<Rightarrow> schedState \<Rightarrow> bool" where
  "held s0 B s \<longleftrightarrow>
     sched_inv s (set (rs_woken s)) {} \<and> rs_waking s \<and> same_run (s0\<lparr>rs_problems := rs_problems s\<rparr>) s \<and>
     B \<subseteq> {r. tk_phase (rs_tasks s0 r) = PhaseParked} \<and>
     (\<forall>r. tk_state (rs_tasks s r) = (if r \<in> B then Blocked else tk_state (rs_tasks s0 r))
        \<and> tk_phase (rs_tasks s r) = (if r \<in> B then PhaseAbandoned else tk_phase (rs_tasks s0 r))) \<and>
     live s + (if B = {} then 0 else 1) \<le> live s0 \<and> (B = {} \<longrightarrow> s = holdWakesLocked s0)"

lemma sched_inv_problems [simp]: "sched_inv (s\<lparr>rs_problems := p\<rparr>) X Y = sched_inv s X Y"
  by (simp add: sched_inv_def phases_ok_def counts_ok_def queue_ok_def count_phase_def)

lemma block_one:
  assumes "held s0 B s" "tk_phase (rs_tasks s st) = PhaseParked" "\<not> IsTerminalTask (tk_state (rs_tasks s st))"
  shows "\<exists>s'. blockInCycleLocked s st = Some s' \<and> held s0 (insert st B) s'"
proof -
  define s1 where "s1 = s\<lparr>rs_problems := (rs_problems s)(st := True)\<rparr>"
  have h: "sched_inv s (set (rs_woken s)) {}" "rs_waking s" "same_run (s0\<lparr>rs_problems := rs_problems s\<rparr>) s"
    "B \<subseteq> {r. tk_phase (rs_tasks s0 r) = PhaseParked}"
    "\<And>r. tk_state (rs_tasks s r) = (if r \<in> B then Blocked else tk_state (rs_tasks s0 r))"
    "\<And>r. tk_phase (rs_tasks s r) = (if r \<in> B then PhaseAbandoned else tk_phase (rs_tasks s0 r))" "live s \<le> live s0"
    using assms(1) by (auto simp: held_def)
  have fields: "rs_tasks s1 = rs_tasks s" "rs_order s1 = rs_order s" "rs_woken s1 = rs_woken s" "rs_waking s1"
    "rs_problems s1 = (rs_problems s)(st := True)" "live s1 = live s"
    using h(2) by (simp_all add: s1_def live_def)
  have st: "\<not> IsTerminalTask (tk_state (rs_tasks s1 st))" "st \<in> set (rs_order s1)"
    using assms(2,3) h(1) by (auto simp: fields sched_inv_def phases_ok_def)
  have inv1: "sched_inv s1 (set (rs_woken s1)) {}" using h(1) by (simp add: s1_def)
  show ?thesis
  proof (rule settle_core [OF inv1 st, of Blocked])
    fix s2 deps
    assume p: "\<And>wake. settle_with wake s1 st Blocked = wake s2 deps"
      "sched_inv s2 (set (rs_woken s1) - {st} \<union> set deps) ({} - {st})" "same_run s1 s2" "rs_woken s2 = rs_woken s1"
      "rs_waking s2 = rs_waking s1" "live s2 < live s1"
      "rs_tasks s2 = (rs_tasks s1)(st := settled_cell (honestState s1 st Blocked) (rs_tasks s1 st))"
    define s3 where "s3 = s2\<lparr>rs_woken := rs_woken s2 @ deps\<rparr>"
    have step: "blockInCycleLocked s st = Some s3"
      using p(1) [of wakeLocked] p(5) fields(4)
      by (simp add: blockInCycleLocked_def s1_def [symmetric] wakeLocked_def s3_def Let_def)
    have "sched_inv s3 (set (rs_woken s3)) {}"
      using sched_inv_mono [OF p(2), of "set (rs_woken s3)" "{}"] by (auto simp: s3_def p(4))
    moreover have "same_run (s0\<lparr>rs_problems := rs_problems s3\<rparr>) s3"
    proof -
      have "rs_problems s3 = rs_problems s1" using p(3) by (simp add: s3_def same_run_def)
      moreover have "same_run (s0\<lparr>rs_problems := rs_problems s1\<rparr>) s1"
        using h(3) by (simp add: same_run_def s1_def)
      moreover have "same_run s2 s3" by (simp add: s3_def same_run_def)
      ultimately show ?thesis using p(3) same_run_trans by metis
    qed
    moreover have "tk_phase (rs_tasks s0 st) = PhaseParked" using assms(2) h(6) [of st] by (auto split: if_splits)
    moreover have "tk_state (rs_tasks s3 r) = (if r \<in> insert st B then Blocked else tk_state (rs_tasks s0 r))
        \<and> tk_phase (rs_tasks s3 r) = (if r \<in> insert st B then PhaseAbandoned else tk_phase (rs_tasks s0 r))" for r
      using assms(2) h(5,6) [of r] by (cases "r = st") (simp_all add: s3_def p(7) settled_cell_def honestState_def fields)
    moreover have "live s3 + 1 \<le> live s0" using p(6) fields(6) h(7) by (simp add: s3_def live_def)
    moreover have "rs_waking s3" using p(5) fields(4) by (simp add: s3_def)
    ultimately have "held s0 (insert st B) s3" using h(4) by (simp add: held_def)
    then show ?thesis using step by blast
  qed simp
qed

definition parked_on :: "schedState \<Rightarrow> depNode list \<Rightarrow> TaskRef set" where
  "parked_on s ns = {r. tk_phase (rs_tasks s r) = PhaseParked \<and> (\<exists>n\<in>set ns. dn_task n = Some r)}"

lemma block_nodes_spec:
  "run_ok s0 \<Longrightarrow> held s0 B s \<Longrightarrow> \<exists>s'. block_nodes ns s = Some s' \<and> held s0 (B \<union> parked_on s0 ns) s'"
proof (induction ns arbitrary: B s)
  case (Cons n ns)
  show ?case
  proof (cases "\<exists>st. dn_task n = Some st \<and> tk_phase (rs_tasks s st) = PhaseParked \<and> \<not> IsTerminalTask (tk_state (rs_tasks s st))")
    case True
    then obtain st s1 where st: "dn_task n = Some st" "tk_phase (rs_tasks s st) = PhaseParked"
      "\<not> IsTerminalTask (tk_state (rs_tasks s st))" "blockInCycleLocked s st = Some s1" "held s0 (insert st B) s1"
      using block_one [OF Cons.prems(2)] by blast
    have "tk_phase (rs_tasks s0 st) = PhaseParked"
      using st(2) Cons.prems(2) by (auto simp: held_def split: if_splits)
    then have "parked_on s0 (n # ns) = insert st (parked_on s0 ns)" using st(1) by (auto simp: parked_on_def)
    then show ?thesis using Cons.IH [OF Cons.prems(1) st(5)] st by auto
  next
    case False
    have "st \<in> B" if "dn_task n = Some st" "tk_phase (rs_tasks s0 st) = PhaseParked" for st
    proof (rule ccontr)
      assume "st \<notin> B"
      then have "rs_tasks s st = rs_tasks s st \<and> tk_phase (rs_tasks s st) = PhaseParked"
        "tk_state (rs_tasks s st) = tk_state (rs_tasks s0 st)" using Cons.prems(2) that by (simp_all add: held_def)
      moreover have "\<not> IsTerminalTask (tk_state (rs_tasks s0 st))"
        using Cons.prems(1) that(2) by (auto simp: run_ok_def sched_inv_def phases_ok_def)
      ultimately show False using False that(1) by simp
    qed
    then have "B \<union> parked_on s0 (n # ns) = B \<union> parked_on s0 ns" by (auto simp: parked_on_def)
    moreover have "block_nodes (n # ns) s = block_nodes ns s"
      using False by (auto split: option.splits)
    ultimately show ?thesis using Cons.IH [OF Cons.prems] by simp
  qed
qed (simp add: parked_on_def)

lemma block_cycles_spec:
  "run_ok s0 \<Longrightarrow> held s0 B s \<Longrightarrow> \<exists>s'. block_cycles cycles s = Some s' \<and> held s0 (B \<union> parked_on s0 (concat cycles)) s'"
proof (induction cycles arbitrary: B s)
  case (Cons ns cycles)
  obtain s1 where s1: "block_nodes ns s = Some s1" "held s0 (B \<union> parked_on s0 ns) s1"
    using block_nodes_spec [OF Cons.prems] by blast
  have "B \<union> parked_on s0 (concat (ns # cycles)) = B \<union> parked_on s0 ns \<union> parked_on s0 (concat cycles)"
    by (auto simp: parked_on_def)
  then show ?case using Cons.IH [OF Cons.prems(1) s1(2)] s1(1) by auto
qed (simp add: parked_on_def)

text \<open>The drain that follows the blocking wakes what waited and stops nothing that had begun.\<close>

lemma drain_after_blocking:
  assumes "sched_inv s {} {}" "idle s" "held s B s1"
  shows "\<exists>s'. drain_loop 0 s1 = Some s' \<and> run_ok s'
    \<and> (\<forall>r. if r \<in> B then tk_state (rs_tasks s' r) = Blocked
        else tk_state (rs_tasks s' r) = tk_state (rs_tasks s r)
          \<or> tk_state (rs_tasks s' r) = NotStarted \<and> awaitingStart (rs_tasks s r))
    \<and> (if B = {} then s' = s else live s' < live s)"
proof -
  have "sched_inv s1 ({} \<union> set (drop 0 (rs_woken s1))) {}" using assms(3) by (simp add: held_def)
  then obtain s' where s': "drain_loop 0 s1 = Some s'" "sched_inv s' {} {}" "idle s'" "quiet_step s1 s'"
    using drain_loop_spec by blast
  have "if r \<in> B then tk_state (rs_tasks s' r) = Blocked
      else tk_state (rs_tasks s' r) = tk_state (rs_tasks s r)
        \<or> tk_state (rs_tasks s' r) = NotStarted \<and> awaitingStart (rs_tasks s r)" for r
  proof -
    have "tk_state (rs_tasks s1 r) = (if r \<in> B then Blocked else tk_state (rs_tasks s r))"
      "tk_phase (rs_tasks s1 r) = (if r \<in> B then PhaseAbandoned else tk_phase (rs_tasks s r))"
      using assms(3) by (simp_all add: held_def)
    moreover have "tk_state (rs_tasks s' r) = tk_state (rs_tasks s1 r)
      \<or> \<not> IsTerminalTask (tk_state (rs_tasks s1 r)) \<and> tk_state (rs_tasks s' r) = NotStarted
        \<and> schedule_awaitingStart (tk_phase (rs_tasks s1 r))"
      using s'(4) unfolding quiet_step_def only_stops_def by blast
    ultimately show ?thesis by (auto simp: awaitingStart_def split: if_splits)
  qed
  moreover have "if B = {} then s' = s else live s' < live s"
  proof (cases "B = {}")
    case True
    then have "s1 = holdWakesLocked s" using assms(3) by (simp add: held_def)
    then have "drain_loop 0 s1 = Some s"
      using assms(2) by (subst drain_loop.simps) (simp add: holdWakesLocked_def idle_def)
    then show ?thesis using True s'(1) by simp
  qed (use assms(3) s'(4) in \<open>simp add: held_def quiet_step_def\<close>)
  ultimately show ?thesis using s' by (auto simp: run_ok_def)
qed

text \<open>
  (C17) In every state of a run whose topology was declared before its first step (\<open>fresh_run\<close>), every parked
  Task on a cycle the search reports settles Blocked, whatever else it waits for; any other row is left
  alone or, when it awaited its start, may settle NotStarted. The run stays well formed. It has fewer
  unfinished Tasks when a reported cycle passes through a parked Task; when cycles are reported but none
  passes through one, nothing changes at all, and the call still answers that it broke a cycle.
\<close>

theorem after_cycles_are_blocked:
  assumes "fresh_run s0" "run_step\<^sup>*\<^sup>* s0 s" "declared_in tr s C" "dependencyCyclesLocked tr s = Some cycles"
  defines "B \<equiv> parked_on s (concat cycles)"
  shows "\<exists>s'. blockCyclesLocked tr s = Some (cycles \<noteq> [], s') \<and> run_ok s'
    \<and> (\<forall>r. if r \<in> B then tk_state (rs_tasks s' r) = Blocked
        else tk_state (rs_tasks s' r) = tk_state (rs_tasks s r)
          \<or> tk_state (rs_tasks s' r) = NotStarted \<and> awaitingStart (rs_tasks s r))
    \<and> (if B = {} then s' = s else live s' < live s)"
proof -
  note ok = reachable_ok(1) [OF assms(1,2)]
  show ?thesis
  proof (cases "rs_parked s = 0")
    case True
    then have none: "tk_phase (rs_tasks s r) \<noteq> PhaseParked" for r using parked_zero [OF ok] by blast
    then have "B = {}" by (auto simp: B_def parked_on_def)
    moreover have "cycles = []"
      using cycles_found [OF ok assms(3)] assms(4) none by (auto simp: parked_reaches_def)
    ultimately show ?thesis using True ok by (simp add: blockCyclesLocked_def)
  next
    case False
    have inv: "sched_inv s {} {}" "idle s" using ok by (rule run_okD)+
    have "held s {} (holdWakesLocked s)"
      using inv by (simp add: held_def holdWakesLocked_def idle_def same_run_def live_def)
    then obtain s1 where s1: "block_cycles cycles (holdWakesLocked s) = Some s1" "held s B s1"
      using block_cycles_spec [OF ok, of "{}" _ cycles] by (auto simp: B_def)
    have "s1\<lparr>rs_waking := True\<rparr> = s1" using s1(2) by (simp add: held_def)
    then have "blockCyclesLocked tr s = Option.bind (drain_loop 0 s1) (\<lambda>s. Some (cycles \<noteq> [], s))"
      using False assms(4) s1(1) by (simp add: blockCyclesLocked_def drainWokenLocked_def)
    then show ?thesis using drain_after_blocking [OF inv s1(2)] by (elim exE conjE) (intro exI conjI, simp_all)
  qed
qed

subsection \<open>A concrete cycle\<close>

text \<open>Submitting a Task whose one predecessor is pending parks it and changes no outcome.\<close>

definition same_waits :: "schedState \<Rightarrow> schedState \<Rightarrow> TaskRef set \<Rightarrow> bool" where
  "same_waits s s' R \<longleftrightarrow>
     same_run s s' \<and> (\<forall>q. outcomeLocked (rs_e s') q = outcomeLocked (rs_e s) q) \<and>
     (\<forall>r. tk_state (rs_tasks s' r) = tk_state (rs_tasks s r) \<and> tk_preds (rs_tasks s' r) = tk_preds (rs_tasks s r)
        \<and> tk_phase (rs_tasks s' r) = (if r \<in> R then PhaseParked else tk_phase (rs_tasks s r)))"

lemma submit_parks:
  assumes ok: "run_ok s" and st: "st \<in> set (rs_order s)" "tk_state (rs_tasks s st) = Pending" "tk_phase (rs_tasks s st) = PhaseDeclared"
    and run: "\<not> rs_ended s" "\<not> rs_cancelled s" "\<not> e_draining (rs_e s)"
    and pred: "tk_preds (rs_tasks s st) = [p]" "outcomeLocked (rs_e s) p = Some (PredPending, p)"
  shows "\<exists>s'. submitWork s st = Some s' \<and> same_waits s s' {st}"
proof -
  obtain rank where rank: "entries_ranked (rs_e s) rank" using inv_entries [OF run_okD(1) [OF ok]] by blast
  define s1 where "s1 = enterPhaseLocked (s\<lparr>rs_wg := rs_wg s + 1\<rparr>) st PhaseQueued"
  define s2 where "s2 = park_on (enterPhaseLocked s1 st PhaseParked) p st"
  have outcome1: "outcomeLocked (rs_e s1) q = outcomeLocked (rs_e s) q" for q
    by (rule outcome_cong [OF rank])
      (auto simp: s1_def enterPhaseLocked_def upd_task_def taskOutcomeLocked_def run(3) same_shape_def Let_def intro!: read_same_shape)
  have outcome2: "outcomeLocked (rs_e s2) q = outcomeLocked (rs_e s) q" for q
  proof (rule outcome_cong [OF rank])
    show "taskOutcomeLocked (rs_e s2) t = taskOutcomeLocked (rs_e s) t" for t
      by (auto simp: s2_def s1_def park_on_def enterPhaseLocked_def upd_task_def upd_tally_def taskOutcomeLocked_def run(3) Let_def
          split: option.splits prod.splits)
    show "collection_read (rs_e s2) q c = collection_read (rs_e s) q c" for q c
      by (rule read_same_shape)
        (auto simp: s2_def s1_def park_on_def park_def enterPhaseLocked_def upd_task_def upd_tally_def same_shape_def
          split: option.splits prod.splits)
    show "co_entry (e_cols (rs_e s2) c) = co_entry (e_cols (rs_e s) c)" for c
      by (auto simp: s2_def s1_def park_on_def enterPhaseLocked_def upd_task_def upd_tally_def split: option.splits prod.splits)
  qed
  have preds1: "tk_preds (rs_tasks s1 st) = [p]" using pred(1) by (simp add: s1_def)
  then have "predsOutcomeLocked (rs_e s1) st ScanAll = Some (PredPending, p, rs_e s1)"
    using outcome1 [of p] pred(2) by (simp add: predsOutcomeLocked_def fun_upd_idem)
  then have step: "submitWork s st = Some s2"
    using st run by (simp add: submitWork_def place_with_def Let_def s1_def [symmetric] s2_def)
      (simp add: s1_def enterPhaseLocked_def)
  then have "same_run s s2" using submit_ok [OF ok, of st] by auto
  moreover have "tk_preds (rs_tasks s2 r) = tk_preds (rs_tasks s r)" for r
    by (auto simp: s2_def s1_def park_on_def enterPhaseLocked_def upd_task_def upd_tally_def split: option.splits prod.splits)
  moreover have "tk_state (rs_tasks s2 r) = tk_state (rs_tasks s r)"
    "tk_phase (rs_tasks s2 r) = (if r = st then PhaseParked else tk_phase (rs_tasks s r))" for r
    by (simp_all add: s2_def s1_def)
  ultimately show ?thesis using step outcome2 by (simp add: same_waits_def)
qed

lemma submit_parks_more:
  assumes "fresh_run s0" "run_step\<^sup>*\<^sup>* s0 s" "same_waits s0 s R"
    and "st \<in> set (rs_order s0)" "st \<notin> R" "\<not> rs_ended s0" "\<not> rs_cancelled s0" "\<not> e_draining (rs_e s0)"
    "tk_preds (rs_tasks s0 st) = [p]" "outcomeLocked (rs_e s0) p = Some (PredPending, p)"
  shows "\<exists>s'. run_step\<^sup>*\<^sup>* s0 s' \<and> same_waits s0 s' (insert st R)"
proof -
  have fresh: "tk_state (rs_tasks s0 st) = Pending" "tk_phase (rs_tasks s0 st) = PhaseDeclared"
    using assms(1) by (simp_all add: fresh_run_def)
  have ok: "run_ok s" using reachable_ok(1) [OF assms(1,2)] .
  have same: "\<not> rs_ended s" "\<not> rs_cancelled s" "\<not> e_draining (rs_e s)" "st \<in> set (rs_order s)"
    "tk_state (rs_tasks s st) = Pending" "tk_phase (rs_tasks s st) = PhaseDeclared" "tk_preds (rs_tasks s st) = [p]"
    "outcomeLocked (rs_e s) p = Some (PredPending, p)"
    using assms(3-10) fresh by (simp_all add: same_waits_def same_run_def same_shape_def)
  obtain s' where s': "submitWork s st = Some s'" "same_waits s s' {st}"
    using submit_parks [OF ok same(4-6,1-3,7,8)] by blast
  have "same_waits s0 s' (insert st R)"
    using assms(3) s'(2) same_run_trans by (fastforce simp: same_waits_def)
  moreover have "run_step\<^sup>*\<^sup>* s0 s'" using assms(2) step_submit [OF s'(1)] by simp
  ultimately show ?thesis by blast
qed

text \<open>A run of four Tasks whose containers hold only Tasks and start after nothing.\<close>

definition flat_run :: "(TaskRef \<Rightarrow> predecessor list) \<Rightarrow> TaskRef list \<Rightarrow> schedState" where
  "flat_run preds members = wit_run\<lparr>rs_e := (rs_e wit_run)\<lparr>
     e_tasks := (\<lambda>r. (rs_tasks wit_run r)\<lparr>tk_preds := preds r, tk_collection := (if r \<in> set members then Some 7 else None)\<rparr>),
     e_cols := (\<lambda>c. \<lparr>co_tally = empty_tally\<lparr>ct_members := (if c = 7 then members else [])\<rparr>, co_entry = [], co_parent = None\<rparr>)\<rparr>\<rparr>"

definition flat_tree :: "TaskRef list \<Rightarrow> containerTree" where
  "flat_tree members = \<lparr>tr_tasks = (\<lambda>c. if c = 7 then members else []), tr_children = (\<lambda>_. []),
     tr_declaration = (\<lambda>_. 1), tr_sequential = (\<lambda>_. False)\<rparr>"

lemma flat_run_fields [simp]:
  "rs_order (flat_run preds ms) = [1, 2, 3, 4]" "\<not> rs_ended (flat_run preds ms)" "\<not> rs_cancelled (flat_run preds ms)"
  "\<not> e_draining (rs_e (flat_run preds ms))" "tk_preds (rs_tasks (flat_run preds ms) r) = preds r"
  "tk_state (rs_tasks (flat_run preds ms) r) = Pending" "tk_phase (rs_tasks (flat_run preds ms) r) = PhaseDeclared"
  "tk_declaration (rs_tasks (flat_run preds ms) r) = int r"
  "co_entry (e_cols (rs_e (flat_run preds ms)) c) = []" "co_parent (e_cols (rs_e (flat_run preds ms)) c) = None"
  "co_tally (e_cols (rs_e (flat_run preds ms)) c) = empty_tally\<lparr>ct_members := (if c = 7 then ms else [])\<rparr>"
  by (simp_all add: flat_run_def wit_run_def)

lemma flat_run_fresh:
  assumes "sorted_wrt (<) ms" "set ms \<subseteq> {1, 2, 3, 4}"
  shows "fresh_run (flat_run preds ms)"
proof -
  let ?e = "rs_e (flat_run preds ms)"
  have chain: "col_chain ?e None = Some []" "col_chain ?e (Some c) = Some [c]" for c
    by (subst col_chain.simps, simp add: col_chain.simps)+
  have "r \<in> set (ct_members (co_tally (e_cols ?e c))) \<longleftrightarrow>
      (\<exists>cs. col_chain ?e (tk_collection (e_tasks ?e r)) = Some cs \<and> c \<in> set cs)" for r c
  proof -
    have "tk_collection (e_tasks ?e r) = (if r \<in> set ms then Some 7 else None)" by (simp add: flat_run_def)
    then show ?thesis by (auto simp: chain)
  qed
  moreover have "tk_declaration (e_tasks ?e x) \<le> e_declSeq ?e" if "x \<in> set (ct_members (co_tally (e_cols ?e c)))" for x c
    using that assms(2) by (auto simp: flat_run_def wit_run_def split: if_splits)
  moreover have "entries_ranked ?e (\<lambda>_. 0)" "e_declSeq ?e \<le> throughAll"
    by (simp_all add: entries_ranked_def) (simp add: flat_run_def wit_run_def throughAll_def)
  moreover have "\<exists>depth :: ColRef \<Rightarrow> nat. \<forall>c p. co_parent (e_cols ?e c) = Some p \<longrightarrow> depth p < depth c" by simp
  moreover have "\<forall>c. ct_holds (co_tally (e_cols ?e c)) = 0 \<and> \<not> ct_builderFailed (co_tally (e_cols ?e c))"
    by (simp add: empty_tally_def)
  ultimately have topo: "topo_ok ?e" unfolding topo_ok_def by blast
  have positive: "\<forall>x\<in>set ms. 0 < x" using assms(2) by auto
  have "fresh_tally (rs_tasks (flat_run preds ms)) (rs_tally (flat_run preds ms) c)" for c
    using assms(1) positive by (simp add: fresh_tally_def empty_tally_def list_all_iff)
  moreover have "distinct (rs_order (flat_run preds ms))" by simp
  ultimately show ?thesis using topo by (simp add: fresh_run_def) (simp add: flat_run_def wit_run_def)
qed

lemma flat_declared:
  assumes "\<And>r. r \<in> {1, 2, 3, 4} \<Longrightarrow> list_all (pred_declared (flat_run preds ms) {7}) (preds r)" "set ms \<subseteq> {1, 2, 3, 4}"
    "same_waits (flat_run preds ms) s R"
  shows "declared_in (flat_tree ms) s {7}"
proof -
  have order: "rs_order s = [1, 2, 3, 4]" using assms(3) by (simp add: same_waits_def same_run_def)
  then have "pred_declared s {7} p" if "pred_declared (flat_run preds ms) {7} p" for p
    using that by (simp add: pred_declared_def split: option.splits)
  moreover have "co_entry (e_cols (rs_e s) c) = []" for c
    using assms(3) by (simp add: same_waits_def same_run_def same_shape_def)
  moreover have "tk_preds (rs_tasks s r) = preds r" for r using assms(3) by (simp add: same_waits_def)
  ultimately show ?thesis
    using assms(1,2) order by (auto simp: declared_in_def flat_tree_def list_all_iff)
qed

text \<open>Tasks 1 and 2, each after the other, are both parked and both Blocked.\<close>

definition loop_preds :: "TaskRef \<Rightarrow> predecessor list" where
  "loop_preds r = (if r = 1 then [task_pred 2] else if r = 2 then [task_pred 1] else [])"

lemma task_pending: "outcomeLocked (rs_e (flat_run preds ms)) (task_pred r) = Some (PredPending, task_pred r)"
  by (simp add: outcomeLocked_def taskOutcomeLocked_def Let_def stateOutcome.simps)

lemma loop_run:
  "\<exists>s. run_step\<^sup>*\<^sup>* (flat_run loop_preds []) s \<and> same_waits (flat_run loop_preds []) s {1, 2}"
proof -
  let ?s0 = "flat_run loop_preds []"
  have fresh: "fresh_run ?s0" by (rule flat_run_fresh) simp_all
  have "same_waits ?s0 ?s0 {}" by (simp add: same_waits_def)
  then obtain s1 where s1: "run_step\<^sup>*\<^sup>* ?s0 s1" "same_waits ?s0 s1 {2}"
    using submit_parks_more [OF fresh rtranclp.rtrancl_refl, of "{}" 2 "task_pred 1"] task_pending
    by (auto simp: loop_preds_def)
  then show ?thesis
    using submit_parks_more [OF fresh s1, of 1 "task_pred 2"] task_pending by (auto simp: loop_preds_def)
qed

lemma loop_edges:
  assumes "same_waits (flat_run loop_preds []) s {1, 2}"
  shows "waitsForLocked (flat_tree []) (rs_e s) (task_node r) =
    Some (if r = 1 then [task_node 2] else if r = 2 then [task_node 1] else [])"
  using assms task_pending [of loop_preds "[]"]
  by (auto simp: waitsForLocked_def same_waits_def loop_preds_def simp del: One_nat_def)

lemma loop_cycles:
  assumes "same_waits (flat_run loop_preds []) s {1, 2}"
  shows "dependencyCyclesLocked (flat_tree []) s = Some [[task_node 1, task_node 2, task_node 1]]"
proof -
  have "rs_order s = [1, 2, 3, 4]" using assms by (simp add: same_waits_def same_run_def)
  moreover have "parked_node (rs_e s) (task_node r) \<longleftrightarrow> r = 1 \<or> r = 2" for r
    using assms by (simp add: parked_node_def same_waits_def)
  ultimately show ?thesis
    by (simp add: dependencyCyclesLocked_def walk_round cycleThrough_def loop_edges [OF assms] del: One_nat_def)
qed

theorem dependency_cycles_exact_witness:
  "\<exists>s n. parked_reaches (flat_tree []) s n \<and> (waits_for (flat_tree []) s)\<^sup>+\<^sup>+ n n"
proof -
  obtain s where s: "run_step\<^sup>*\<^sup>* (flat_run loop_preds []) s" "same_waits (flat_run loop_preds []) s {1, 2}"
    using loop_run by blast
  have fresh: "fresh_run (flat_run loop_preds [])" by (rule flat_run_fresh) simp_all
  have "declared_in (flat_tree []) s {7}"
    by (rule flat_declared [OF _ _ s(2)]) (auto simp: loop_preds_def pred_declared_def)
  from dependency_cycles_exact [OF fresh s(1) this] obtain cycles where
    "dependencyCyclesLocked (flat_tree []) s = Some cycles"
    "cycles = [] \<longleftrightarrow> (\<forall>n. parked_reaches (flat_tree []) s n \<longrightarrow> \<not> (waits_for (flat_tree []) s)\<^sup>+\<^sup>+ n n)"
    by blast
  then show ?thesis unfolding loop_cycles [OF s(2)] by (metis list.discI option.inject)
qed

theorem after_cycles_are_blocked_witness:
  "\<exists>s s'. run_step\<^sup>*\<^sup>* (flat_run loop_preds []) s \<and> blockCyclesLocked (flat_tree []) s = Some (True, s')
    \<and> tk_state (rs_tasks s' 1) = Blocked \<and> tk_state (rs_tasks s' 2) = Blocked \<and> live s' < live s"
proof -
  obtain s where s: "run_step\<^sup>*\<^sup>* (flat_run loop_preds []) s" "same_waits (flat_run loop_preds []) s {1, 2}"
    using loop_run by blast
  have fresh: "fresh_run (flat_run loop_preds [])" by (rule flat_run_fresh) simp_all
  have declared: "declared_in (flat_tree []) s {7}"
    by (rule flat_declared [OF _ _ s(2)]) (auto simp: loop_preds_def pred_declared_def)
  have "parked_on s (concat [[task_node 1, task_node 2, task_node 1]]) = {1, 2}"
    using s(2) by (auto simp: parked_on_def same_waits_def)
  from after_cycles_are_blocked [OF fresh s(1) declared loop_cycles [OF s(2)], unfolded this]
  obtain s' where s': "blockCyclesLocked (flat_tree []) s = Some (True, s')" "live s' < live s"
    "\<forall>r. if r \<in> {1, 2} then tk_state (rs_tasks s' r) = Blocked
        else tk_state (rs_tasks s' r) = tk_state (rs_tasks s r)
          \<or> tk_state (rs_tasks s' r) = NotStarted \<and> awaitingStart (rs_tasks s r)" by auto
  have "tk_state (rs_tasks s' 1) = Blocked \<and> tk_state (rs_tasks s' 2) = Blocked"
    using s'(3) [THEN spec, of 1] s'(3) [THEN spec, of 2] by simp
  then show ?thesis using s(1) s'(1,2) by blast
qed

subsection \<open>A cycle that is none\<close>

text \<open>
  Task 3 comes after container 7 as it stood when it held only Task 2; Task 4, declared into it later,
  comes after Task 3, and Task 2 after Task 1. Nothing is circular: once Task 2 is done, Task 3's edge
  has succeeded, whatever Task 4 does.
\<close>

definition late_preds :: "TaskRef \<Rightarrow> predecessor list" where
  "late_preds r = (if r = 2 then [task_pred 1] else if r = 3 then [(col_pred 7)\<lparr>pd_through := 2\<rparr>]
     else if r = 4 then [task_pred 3] else [])"

lemma late_edge: "outcomeLocked (rs_e (flat_run late_preds [2, 4])) ((col_pred 7)\<lparr>pd_through := 2\<rparr>)
    = Some (PredPending, (col_pred 7)\<lparr>pd_through := 2\<rparr>)"
  by (simp add: outcomeLocked_def collectionOutcomeLocked_def collection_read_def edgeCursorLocked_def Let_def empty_tally_def
      failedThrough_def hasMemberThrough_def succeededThrough_def)

lemma late_run:
  "\<exists>s. run_step\<^sup>*\<^sup>* (flat_run late_preds [2, 4]) s \<and> same_waits (flat_run late_preds [2, 4]) s {2, 3, 4}"
proof -
  let ?s0 = "flat_run late_preds [2, 4]"
  have fresh: "fresh_run ?s0" by (rule flat_run_fresh) simp_all
  have "same_waits ?s0 ?s0 {}" by (simp add: same_waits_def)
  then obtain s1 where s1: "run_step\<^sup>*\<^sup>* ?s0 s1" "same_waits ?s0 s1 {4}"
    using submit_parks_more [OF fresh rtranclp.rtrancl_refl, of "{}" 4 "task_pred 3"] task_pending
    by (auto simp: late_preds_def)
  then obtain s2 where s2: "run_step\<^sup>*\<^sup>* ?s0 s2" "same_waits ?s0 s2 {3, 4}"
    using submit_parks_more [OF fresh s1, of 3 "(col_pred 7)\<lparr>pd_through := 2\<rparr>"] late_edge by (auto simp: late_preds_def)
  then show ?thesis
    using submit_parks_more [OF fresh s2, of 2 "task_pred 1"] task_pending by (auto simp: late_preds_def)
qed

lemma late_edges:
  assumes "same_waits (flat_run late_preds [2, 4]) s {2, 3, 4}"
  shows "waitsForLocked (flat_tree [2, 4]) (rs_e s) (task_node r) =
      Some (if r = 2 then [task_node 1] else if r = 3 then [col_node 7] else if r = 4 then [task_node 3] else [])"
    "waitsForLocked (flat_tree [2, 4]) (rs_e s) (col_node 7) = Some [task_node 2, task_node 4]"
proof -
  show "waitsForLocked (flat_tree [2, 4]) (rs_e s) (task_node r) =
      Some (if r = 2 then [task_node 1] else if r = 3 then [col_node 7] else if r = 4 then [task_node 3] else [])"
    using assms task_pending [of late_preds "[2, 4]"] late_edge
    by (auto simp: waitsForLocked_def same_waits_def late_preds_def simp del: One_nat_def)
  have "total (co_tally (e_cols (rs_e s) 7)) = 2"
    using assms by (simp add: total_def same_waits_def same_run_def same_shape_def)
  moreover have "tk_state (rs_tasks s r) = Pending" for r using assms by (simp add: same_waits_def)
  ultimately show "waitsForLocked (flat_tree [2, 4]) (rs_e s) (col_node 7) = Some [task_node 2, task_node 4]"
    by (simp add: waitsForLocked_def flat_tree_def)
qed

lemma late_cycles:
  assumes "same_waits (flat_run late_preds [2, 4]) s {2, 3, 4}"
  shows "dependencyCyclesLocked (flat_tree [2, 4]) s = Some [[task_node 3, col_node 7, task_node 4, task_node 3]]"
proof -
  have "rs_order s = [1, 2, 3, 4]" using assms by (simp add: same_waits_def same_run_def)
  moreover have "parked_node (rs_e s) (task_node r) \<longleftrightarrow> r = 2 \<or> r = 3 \<or> r = 4" for r
    using assms by (simp add: parked_node_def same_waits_def)
  ultimately show ?thesis
    by (simp add: dependencyCyclesLocked_def walk_round cycleThrough_def late_edges [OF assms] del: One_nat_def)
qed

text \<open>
  The search walks every member of a container, not only those the edge into it waits for, so here
  it reports Task 3 and Task 4 as a cycle although settling Task 2 lets Task 3 start.
\<close>

theorem late_member_is_taken_for_a_cycle:
  "\<exists>s s'. run_step\<^sup>*\<^sup>* (flat_run late_preds [2, 4]) s
    \<and> dependencyCyclesLocked (flat_tree [2, 4]) s = Some [[task_node 3, col_node 7, task_node 4, task_node 3]]
    \<and> settleLocked s 2 Done = Some s'
    \<and> outcomeLocked (rs_e s') ((col_pred 7)\<lparr>pd_through := 2\<rparr>) = Some (PredSucceeded, (col_pred 7)\<lparr>pd_through := 2\<rparr>)"
proof -
  obtain s where s: "run_step\<^sup>*\<^sup>* (flat_run late_preds [2, 4]) s" "same_waits (flat_run late_preds [2, 4]) s {2, 3, 4}"
    using late_run by blast
  have fresh: "fresh_run (flat_run late_preds [2, 4])" by (rule flat_run_fresh) simp_all
  have run0: "same_run (flat_run late_preds [2, 4]) s" and state: "\<And>r. tk_state (rs_tasks s r) = Pending"
    and prob: "rs_problems s = (\<lambda>_. False)"
    using s(2) by (simp_all add: same_waits_def same_run_def) (simp add: flat_run_def wit_run_def)
  have "2 \<in> set (rs_order s)" using run0 by (simp add: same_run_def)
  then obtain s' where s': "settleLocked s 2 Done = Some s'" "run_ok s'" "same_run s s'"
    "tk_state (rs_tasks s' 2) = honestState s 2 Done"
    using settle_ok [OF reachable_ok(1) [OF fresh s(1)], of 2 Done] by (simp add: state) (metis (no_types))
  have run: "same_run (flat_run late_preds [2, 4]) s'" by (rule same_run_trans [OF run0 s'(3)])
  let ?p = "(col_pred 7)\<lparr>pd_through := 2\<rparr>" and ?t = "co_tally (e_cols (rs_e s') 7)"
  have shape: "ct_members ?t = [2, 4]" "\<And>r. tk_declaration (rs_tasks s' r) = int r" "ct_holds ?t = 0" "\<not> ct_builderFailed ?t"
    using run by (simp_all add: same_run_def same_shape_def empty_tally_def)
  have tally: "tally_ok (rs_tasks s') ?t" using s'(2) by (simp add: run_ok_def sched_inv_def tallies_ok_def)
  have cursor: "edgeCursorLocked (rs_e s') ?p 7 = (2, False)" using shape(3) by (simp add: edgeCursorLocked_def)
  have "filter (\<lambda>x. tk_declaration (rs_tasks s' x) \<le> 2) (ct_members ?t) = [2]" using shape(1,2) by simp
  moreover have "tk_state (rs_tasks s' 2) = Done" using s'(4) prob by (simp add: honestState_def)
  ultimately have "collectionOutcomeLocked (rs_e s') ?p 7 = Some (PredSucceeded, ?p)"
    using collection_edge_outcome [OF tally shape(4) cursor] by (simp add: fold_outcomes_def stateOutcome.simps)
  then have "outcomeLocked (rs_e s') ?p = Some (PredSucceeded, ?p)" by (simp add: outcomeLocked_def)
  then show ?thesis using s(1) late_cycles [OF s(2)] s'(1) by blast
qed

end
