(* ===== verification/Engine_Counts.thy ===== *)
theory Engine_Counts
  imports Core_Tally "HOL-Library.Multiset" "HOL-Library.AList"
begin

text \<open>
  The counters a live frame and a container's verdict read instead of walking the children
  (\<open>internal/engine/child_counts.go\<close>) and the verdict itself (\<open>internal/engine/snapshot.go\<close>,
  \<open>derivedState\<close> and what hangs on it). A Task is filed under what the counts read of it, unfiled
  and filed again when it changes; the contract \<open>counted_bag\<close> says the counters then equal a recount
  of the filed Tasks, and both counters provide it. A container is a tree whose nodes carry the
  cached counts, so a verdict that folds caches is compared with the states of all Tasks beneath.
\<close>

subsection \<open>Filings and counters (child_counts.go, child_index.go)\<close>

record filing =
  fi_state :: EntityState
  fi_width :: nat
  fi_warned :: bool

record childCounters =
  ctr_total :: int
  ctr_done :: int
  ctr_running :: int
  ctr_pending :: int
  ctr_unfinished :: int
  ctr_widths :: "(nat \<times> int) list"
  ctr_maxWidth :: nat

definition no_counters :: childCounters where
  "no_counters = \<lparr>ctr_total = 0, ctr_done = 0, ctr_running = 0, ctr_pending = 0, ctr_unfinished = 0,
     ctr_widths = [], ctr_maxWidth = 0\<rparr>"

definition counters_move :: "childCounters \<Rightarrow> filing \<Rightarrow> int \<Rightarrow> childCounters" where
  "counters_move c f delta =
     (let s = fi_state f;
          c = c\<lparr>ctr_total := ctr_total c + delta\<rparr>;
          c = (if s = Done \<or> s = Skipped then c\<lparr>ctr_done := ctr_done c + delta\<rparr>
               else if s = Running then c\<lparr>ctr_running := ctr_running c + delta\<rparr>
               else if s = Pending then c\<lparr>ctr_pending := ctr_pending c + delta\<rparr>
               else c)
      in if \<not> IsTerminalTask s then c\<lparr>ctr_unfinished := ctr_unfinished c + delta\<rparr> else c)"

text \<open>A missing key of \<open>widths\<close> reads 0, as in Go; the map is an association list.\<close>

definition width_count :: "childCounters \<Rightarrow> nat \<Rightarrow> int" where
  "width_count c w = (case map_of (ctr_widths c) w of None \<Rightarrow> 0 | Some n \<Rightarrow> n)"

definition counters_add :: "childCounters \<Rightarrow> filing \<Rightarrow> childCounters" where
  "counters_add c f =
     (let c = counters_move c f 1
      in c\<lparr>ctr_widths := AList.update (fi_width f) (width_count c (fi_width f) + 1) (ctr_widths c),
           ctr_maxWidth := max (ctr_maxWidth c) (fi_width f)\<rparr>)"

definition counters_remove :: "childCounters \<Rightarrow> filing \<Rightarrow> childCounters" where
  "counters_remove c f =
     (let c = counters_move c f (- 1);
          n = width_count c (fi_width f) - 1;
          c = c\<lparr>ctr_widths := AList.update (fi_width f) n (ctr_widths c)\<rparr>
      in if n > 0 then c
         else
           (let c = c\<lparr>ctr_widths := AList.delete (fi_width f) (ctr_widths c)\<rparr>
            in if fi_width f < ctr_maxWidth c then c
               else c\<lparr>ctr_maxWidth := fold max (map fst (ctr_widths c)) 0\<rparr>))"

definition counts :: "childCounters \<Rightarrow> time \<Rightarrow> ChildCounts" where
  "counts c earliest =
     \<lparr>cc_Total = nat (ctr_total c), cc_Done = nat (ctr_done c), cc_Running = (ctr_running c > 0),
      cc_Pending = (ctr_pending c > 0), cc_Unfinished = (ctr_unfinished c > 0),
      cc_EarliestSeen = earliest, cc_NameWidth = ctr_maxWidth c\<rparr>"

record stateCounts =
  sc_running :: int
  sc_failed :: int
  sc_blocked :: int
  sc_cancelled :: int
  sc_notStarted :: int
  sc_unresolved :: int
  sc_warned :: int

definition no_states :: stateCounts where
  "no_states = \<lparr>sc_running = 0, sc_failed = 0, sc_blocked = 0, sc_cancelled = 0, sc_notStarted = 0,
     sc_unresolved = 0, sc_warned = 0\<rparr>"

definition states_move :: "stateCounts \<Rightarrow> filing \<Rightarrow> int \<Rightarrow> stateCounts" where
  "states_move s f delta =
     (let s = (case fi_state f of
          Running \<Rightarrow> s\<lparr>sc_running := sc_running s + delta\<rparr>
        | Failed \<Rightarrow> s\<lparr>sc_failed := sc_failed s + delta\<rparr>
        | Blocked \<Rightarrow> s\<lparr>sc_blocked := sc_blocked s + delta\<rparr>
        | Cancelled \<Rightarrow> s\<lparr>sc_cancelled := sc_cancelled s + delta\<rparr>
        | NotStarted \<Rightarrow> s\<lparr>sc_notStarted := sc_notStarted s + delta\<rparr>
        | Done \<Rightarrow> s
        | Skipped \<Rightarrow> s
        | _ \<Rightarrow> s\<lparr>sc_unresolved := sc_unresolved s + delta\<rparr>)
      in if fi_warned f then s\<lparr>sc_warned := sc_warned s + delta\<rparr> else s)"

definition states_add :: "stateCounts \<Rightarrow> filing \<Rightarrow> stateCounts" where
  "states_add s f = states_move s f 1"

definition states_remove :: "stateCounts \<Rightarrow> filing \<Rightarrow> stateCounts" where
  "states_remove s f = states_move s f (- 1)"

subsection \<open>The contract of a counter\<close>

datatype 'f filing_event = File 'f | Unfile 'f

fun filed_after :: "'f multiset \<Rightarrow> 'f filing_event list \<Rightarrow> 'f multiset option" where
  "filed_after B [] = Some B"
| "filed_after B (File f # es) = filed_after (add_mset f B) es"
| "filed_after B (Unfile f # es) = (if f \<in># B then filed_after (B - {#f#}) es else None)"

fun run_filings :: "('c \<Rightarrow> 'f \<Rightarrow> 'c) \<Rightarrow> ('c \<Rightarrow> 'f \<Rightarrow> 'c) \<Rightarrow> 'c \<Rightarrow> 'f filing_event list \<Rightarrow> 'c" where
  "run_filings add rem c [] = c"
| "run_filings add rem c (File f # es) = run_filings add rem (add c f) es"
| "run_filings add rem c (Unfile f # es) = run_filings add rem (rem c f) es"

locale counted_bag =
  fixes counted :: "'c \<Rightarrow> 'f multiset \<Rightarrow> bool"
    and unit :: 'c
    and add :: "'c \<Rightarrow> 'f \<Rightarrow> 'c"
    and rem :: "'c \<Rightarrow> 'f \<Rightarrow> 'c"
  assumes counted_empty: "counted unit {#}"
    and counted_add: "counted c B \<Longrightarrow> counted (add c f) (add_mset f B)"
    and counted_rem: "counted c B \<Longrightarrow> f \<in># B \<Longrightarrow> counted (rem c f) (B - {#f#})"
begin

lemma counted_history:
  "counted c B \<Longrightarrow> filed_after B es = Some B' \<Longrightarrow> counted (run_filings add rem c es) B'"
proof (induction es arbitrary: c B)
  case (Cons e es)
  show ?case
  proof (cases e)
    case (File f)
    then show ?thesis using Cons.IH[OF counted_add[OF Cons.prems(1)]] Cons.prems(2) by simp
  next
    case (Unfile f)
    then have "f \<in># B" "filed_after (B - {#f#}) es = Some B'" using Cons.prems(2) by (auto split: if_splits)
    then show ?thesis using Cons.IH[OF counted_rem[OF Cons.prems(1)]] Unfile by simp
  qed
qed simp

lemma counted_after: "filed_after {#} es = Some B \<Longrightarrow> counted (run_filings add rem unit es) B"
  by (rule counted_history[OF counted_empty])

lemma counted_recount: "counted (fold (\<lambda>f c. add c f) fs unit) (mset fs)"
proof -
  have "counted c B \<Longrightarrow> counted (fold (\<lambda>f c. add c f) fs c) (B + mset fs)" for c B
  proof (induction fs arbitrary: c B)
    case (Cons f fs)
    then show ?case using Cons.IH[OF counted_add[OF Cons.prems]] by simp
  qed simp
  then show ?thesis using counted_empty by fastforce
qed

end


subsection \<open>Both counters are counted bags\<close>

definition size_if :: "('f \<Rightarrow> bool) \<Rightarrow> 'f multiset \<Rightarrow> int" where
  "size_if P B = int (size (filter_mset P B))"

lemma size_if_simps [simp]:
  "size_if P {#} = 0"
  "size_if P (add_mset f B) = size_if P B + (if P f then 1 else 0)"
  "f \<in># B \<Longrightarrow> size_if P (B - {#f#}) = size_if P B - (if P f then 1 else 0)"
proof -
  show "size_if P (B - {#f#}) = size_if P B - (if P f then 1 else 0)" if f: "f \<in># B"
  proof -
    obtain B' where B: "B = add_mset f B'" using multi_member_split[OF f] by blast
    show ?thesis unfolding B by (simp add: size_if_def)
  qed
qed (simp_all add: size_if_def)

lemma size_if_pos: "size_if P B > 0 \<longleftrightarrow> (\<exists>f\<in>#B. P f)"
proof -
  have "size_if P B > 0 \<longleftrightarrow> filter_mset P B \<noteq> {#}" by (metis nonempty_has_size of_nat_0_less_iff size_if_def)
  then show ?thesis unfolding set_mset_eq_empty_iff[symmetric] set_mset_filter by blast
qed

lemma size_if_eq_size: "size_if (\<lambda>_. True) B = int (size B)"
  by (simp add: size_if_def)

definition states_counted :: "stateCounts \<Rightarrow> filing multiset \<Rightarrow> bool" where
  "states_counted s B \<longleftrightarrow>
     sc_running s = size_if (\<lambda>f. fi_state f = Running) B \<and>
     sc_failed s = size_if (\<lambda>f. fi_state f = Failed) B \<and>
     sc_blocked s = size_if (\<lambda>f. fi_state f = Blocked) B \<and>
     sc_cancelled s = size_if (\<lambda>f. fi_state f = Cancelled) B \<and>
     sc_notStarted s = size_if (\<lambda>f. fi_state f = NotStarted) B \<and>
     sc_unresolved s = size_if (\<lambda>f. fi_state f \<in> {Pending, Empty, Incomplete}) B \<and>
     sc_warned s = size_if fi_warned B"

interpretation state_bag: counted_bag states_counted no_states states_add states_remove
  by unfold_locales
    (auto simp: states_counted_def no_states_def states_add_def states_remove_def states_move_def Let_def
      split: EntityState.splits)

definition widths_counted :: "(nat \<times> int) list \<Rightarrow> nat \<Rightarrow> filing multiset \<Rightarrow> bool" where
  "widths_counted ws m B \<longleftrightarrow>
     distinct (map fst ws) \<and>
     (\<forall>w. map_of ws w = (let n = size_if (\<lambda>f. fi_width f = w) B in if n > 0 then Some n else None)) \<and>
     m = Max (insert 0 (fi_width ` set_mset B))"

definition children_counted :: "childCounters \<Rightarrow> filing multiset \<Rightarrow> bool" where
  "children_counted c B \<longleftrightarrow>
     ctr_total c = int (size B) \<and>
     ctr_done c = size_if (\<lambda>f. fi_state f = Done \<or> fi_state f = Skipped) B \<and>
     ctr_running c = size_if (\<lambda>f. fi_state f = Running) B \<and>
     ctr_pending c = size_if (\<lambda>f. fi_state f = Pending) B \<and>
     ctr_unfinished c = size_if (\<lambda>f. \<not> IsTerminalTask (fi_state f)) B \<and>
     widths_counted (ctr_widths c) (ctr_maxWidth c) B"

lemma widths_add:
  assumes "widths_counted (ctr_widths c) m B"
  shows "widths_counted (AList.update (fi_width f) (width_count c (fi_width f) + 1) (ctr_widths c))
    (max m (fi_width f)) (add_mset f B)"
proof -
  have n: "width_count c w = size_if (\<lambda>f. fi_width f = w) B" for w
    using assms by (auto simp: width_count_def widths_counted_def Let_def size_if_def)
  have nn: "0 \<le> size_if P B" for P by (simp add: size_if_def)
  have "Max (insert 0 (fi_width ` set_mset (add_mset f B))) = max (Max (insert 0 (fi_width ` set_mset B))) (fi_width f)"
    by (simp add: insert_commute[of 0] max.commute max.left_commute)
  then show ?thesis
    using assms n nn[of "\<lambda>f'. fi_width f' = fi_width f"]
    by (auto simp: widths_counted_def distinct_update update_conv' Let_def)
qed

lemma fold_max_Max: "fold max xs (m::nat) = Max (insert m (set xs))"
  using Max.set_eq_fold[of m xs] by simp

lemma widths_keys:
  assumes "widths_counted ws m B"
  shows "set (map fst ws) = fi_width ` set_mset B"
proof -
  have "w \<in> set (map fst ws) \<longleftrightarrow> map_of ws w \<noteq> None" for w
    by (simp add: map_of_eq_None_iff)
  also have "map_of ws w \<noteq> None \<longleftrightarrow> size_if (\<lambda>f. fi_width f = w) B > 0" for w
    using assms by (simp add: widths_counted_def Let_def)
  finally have keys: "\<And>w. w \<in> set (map fst ws) \<longleftrightarrow> size_if (\<lambda>f. fi_width f = w) B > 0" .
  show ?thesis by (rule set_eqI) (auto simp only: keys size_if_pos image_iff)
qed

lemma widths_remove:
  assumes ok: "widths_counted (ctr_widths c) m B" and f: "f \<in># B"
  defines "n \<equiv> width_count c (fi_width f) - 1"
  defines "ws \<equiv> AList.update (fi_width f) n (ctr_widths c)"
  defines "ws' \<equiv> AList.delete (fi_width f) ws"
  shows "if n > 0 then widths_counted ws m (B - {#f#})
    else widths_counted ws' (if fi_width f < m then m else fold max (map fst ws') 0) (B - {#f#})"
proof -
  let ?B = "B - {#f#}"
  have cnt: "width_count c w = size_if (\<lambda>f. fi_width f = w) B" for w
    using ok by (auto simp: width_count_def widths_counted_def Let_def size_if_def)
  have n: "n = size_if (\<lambda>g. fi_width g = fi_width f) ?B" using cnt f by (simp add: n_def)
  have B: "B = add_mset f ?B" using f by simp
  have img: "fi_width ` set_mset B = insert (fi_width f) (fi_width ` set_mset ?B)"
    by (metis B image_insert set_mset_add_mset_insert)
  show ?thesis
  proof (cases "n > 0")
    case True
    then obtain g where "g \<in># ?B" "fi_width g = fi_width f" using n by (auto simp: size_if_pos)
    then have "fi_width ` set_mset B = fi_width ` set_mset ?B" using img by (metis imageI insert_absorb)
    then show ?thesis
      using True ok n f by (auto simp: widths_counted_def ws_def distinct_update update_conv' Let_def)
  next
    case False
    have maps: "map_of ws' w = (let n = size_if (\<lambda>f. fi_width f = w) ?B in if n > 0 then Some n else None)" for w
      using ok n f False
      by (auto simp: ws'_def ws_def delete_conv' update_conv' widths_counted_def Let_def)
    have dist: "distinct (map fst ws')"
      using ok by (auto simp: ws'_def ws_def widths_counted_def distinct_update distinct_delete)
    have notin: "fi_width f \<notin> fi_width ` set_mset ?B"
      using False n size_if_pos[of "\<lambda>g. fi_width g = fi_width f" ?B] by auto
    have m: "m = max (fi_width f) (Max (insert 0 (fi_width ` set_mset ?B)))"
      using ok img by (simp add: widths_counted_def insert_commute[of 0])
    have keys: "set (map fst ws') = fi_width ` set_mset ?B"
    proof -
      have "widths_counted ws' (Max (insert 0 (fi_width ` set_mset ?B))) ?B"
        using maps dist by (simp add: widths_counted_def)
      then show ?thesis by (rule widths_keys)
    qed
    have "(if fi_width f < m then m else fold max (map fst ws') 0) = Max (insert 0 (fi_width ` set_mset ?B))"
      unfolding fold_max_Max keys using m by auto
    then show ?thesis using False maps dist by (simp add: widths_counted_def)
  qed
qed

lemma counters_move_fields [simp]:
  "ctr_total (counters_move c f d) = ctr_total c + d"
  "ctr_done (counters_move c f d) = ctr_done c + (if fi_state f = Done \<or> fi_state f = Skipped then d else 0)"
  "ctr_running (counters_move c f d) = ctr_running c + (if fi_state f = Running then d else 0)"
  "ctr_pending (counters_move c f d) = ctr_pending c + (if fi_state f = Pending then d else 0)"
  "ctr_unfinished (counters_move c f d) = ctr_unfinished c + (if \<not> IsTerminalTask (fi_state f) then d else 0)"
  "ctr_widths (counters_move c f d) = ctr_widths c" "ctr_maxWidth (counters_move c f d) = ctr_maxWidth c"
  "width_count (counters_move c f d) w = width_count c w"
  by (auto simp: counters_move_def Let_def width_count_def)

interpretation child_bag: counted_bag children_counted no_counters counters_add counters_remove
proof
  show "children_counted no_counters {#}"
    by (simp add: children_counted_def no_counters_def widths_counted_def)
next
  fix c B f assume "children_counted c B"
  then show "children_counted (counters_add c f) (add_mset f B)"
    using widths_add[of c "ctr_maxWidth c" B f]
    by (simp add: children_counted_def counters_add_def Let_def)
next
  fix c B f assume "children_counted c B" "f \<in># B"
  moreover from this have "B \<noteq> {#}" by auto
  ultimately show "children_counted (counters_remove c f) (B - {#f#})"
    using widths_remove[of c "ctr_maxWidth c" B f]
    by (cases "width_count c (fi_width f) - 1 > 0")
      (simp_all add: children_counted_def counters_remove_def Let_def size_Diff_singleton if_splits
        int_ops(6) split: if_splits)
qed


text \<open>
  Filing a Task's snapshot: what \<open>refile\<close> reads of it for the counts.
\<close>

definition filing_of :: "TaskSnapshot \<Rightarrow> filing" where
  "filing_of t = \<lparr>fi_state = ts_State t, fi_width = RuneCountInString (ts_Name t),
     fi_warned = (ts_Warnings t \<noteq> [])\<rparr>"

lemma Max_insert_max: "finite S \<Longrightarrow> Max (insert (max a b) S) = max a (Max (insert b S))"
  for a b :: "'a::linorder"
  by (cases "S = {}") (simp_all add: max.assoc)

lemma foldl_countsAdd:
  "cc_Total (foldl countsAdd c ts) = cc_Total c + length ts"
  "cc_Done (foldl countsAdd c ts) = cc_Done c + length (filter (\<lambda>t. ts_State t = Done \<or> ts_State t = Skipped) ts)"
  "cc_Running (foldl countsAdd c ts) \<longleftrightarrow> cc_Running c \<or> (\<exists>t\<in>set ts. ts_State t = Running)"
  "cc_Pending (foldl countsAdd c ts) \<longleftrightarrow> cc_Pending c \<or> (\<exists>t\<in>set ts. ts_State t = Pending)"
  "cc_Unfinished (foldl countsAdd c ts) \<longleftrightarrow> cc_Unfinished c \<or> (\<exists>t\<in>set ts. \<not> IsTerminalTask (ts_State t))"
  "cc_NameWidth (foldl countsAdd c ts) = Max (insert (cc_NameWidth c) ((\<lambda>t. RuneCountInString (ts_Name t)) ` set ts))"
proof -
  show "cc_NameWidth (foldl countsAdd c ts) = Max (insert (cc_NameWidth c) ((\<lambda>t. RuneCountInString (ts_Name t)) ` set ts))"
    by (induction ts arbitrary: c)
      (simp_all add: countsAdd_def Max_insert_max max.commute[of "cc_NameWidth _"] insert_commute[of "cc_NameWidth _"])
qed (induction ts arbitrary: c; auto simp: countsAdd_def)+

lemma size_if_filings:
  "size_if P (image_mset f (mset ts)) = int (length (filter (\<lambda>t. P (f t)) ts))"
  by (simp add: size_if_def filter_mset_image_mset comp_def flip: mset_filter)

text \<open>
  After any history of filing and unfiling, the counters a live frame reads equal the
  counts of a walk over the Tasks that are filed at the end, whatever order they were filed in.
\<close>

theorem child_counters_recount:
  assumes "filed_after {#} es = Some (image_mset filing_of (mset ts))"
  shows "counts (run_filings counters_add counters_remove no_counters es) (cc_EarliestSeen (CountTasks ts))
    = CountTasks ts"
proof -
  let ?c = "run_filings counters_add counters_remove no_counters es"
  have ok: "children_counted ?c (image_mset filing_of (mset ts))"
    by (rule child_bag.counted_after[OF assms])
  have w: "ctr_maxWidth ?c = Max (insert 0 ((\<lambda>t. RuneCountInString (ts_Name t)) ` set ts))"
    using ok by (simp add: children_counted_def widths_counted_def image_image filing_of_def)
  have ne: "0 < length (filter P ts) \<longleftrightarrow> (\<exists>t\<in>set ts. P t)" for P
    by (auto simp: length_greater_0_conv filter_empty_conv)
  show ?thesis
    using ok w
    by (simp add: CountTasks_def counts_def children_counted_def size_if_filings filing_of_def
        foldl_countsAdd zeroCounts_def ne del: length_greater_0_conv)
qed


definition wit_task :: "EntityState \<Rightarrow> gostring \<Rightarrow> TaskSnapshot" where
  "wit_task s n = \<lparr>ts_ID = [], ts_Key = [], ts_Name = n, ts_State = s, ts_Phase = [], ts_ActivityAt = 0,
     ts_liveFirstSeenAt = 0, ts_Progress = \<lparr>pr_Kind = Indeterminate, pr_Completed = 0, pr_Total = 0\<rparr>,
     ts_Summary = [], ts_Problems = [], ts_Warnings = [], ts_Facts = [], ts_Verification = [],
     ts_Actions = [], ts_Skipped = [], ts_Kept = [], ts_Collection = [], ts_Declaration = 0,
     ts_Resolution = ResolutionNone,
     ts_Evidence = \<lparr>te_Before = \<lparr>ep_Evaluated = False, ep_Satisfied = False, ep_Source = []\<rparr>,
       te_After = \<lparr>ep_Evaluated = False, ep_Satisfied = False, ep_Source = []\<rparr>\<rparr>,
     ts_synthetic = False, ts_liveTail = \<lparr>lt_Lines = [], lt_Evidence = 0, lt_LastLineAt = 0\<rparr>\<rparr>"

text \<open>A wide Task is filed Running and refiled Done under a narrower name than it leaves behind.\<close>

theorem child_counters_recount_witness:
  "counts (run_filings counters_add counters_remove no_counters
      [File (filing_of (wit_task Running ''long'')), File (filing_of (wit_task Pending ''b'')),
       Unfile (filing_of (wit_task Running ''long'')), File (filing_of (wit_task Done ''abc''))])
      (cc_EarliestSeen (CountTasks [wit_task Done ''abc'', wit_task Pending ''b'']))
    = CountTasks [wit_task Done ''abc'', wit_task Pending ''b'']"
  by (rule child_counters_recount) (auto simp: filing_of_def wit_task_def)

end
