(* ===== verification/Engine_Verdict.thy ===== *)
theory Engine_Verdict
  imports Engine_Counts
begin

text \<open>
  The verdict of a Group or Sequence (\<open>internal/engine/snapshot.go\<close>: \<open>derivedState\<close>,
  \<open>verdictFold\<close>, \<open>displaySummary\<close>, \<open>hasWarnedOrFailedDescendant\<close>). A container is a tree: its
  builder's phase, what its direct Tasks are filed as, its nested containers, the counts cached of
  its direct Tasks and its summary. The lemmas compare the verdict, which reads only caches and the
  children's verdicts, with the states of every Task beneath.
\<close>

subsection \<open>Containers and verdicts\<close>

datatype builderPhase = BuilderPending | BuilderDone | BuilderNotStarted | BuilderFailed

datatype container = Container
  (cn_builder: "builderPhase option")
  (cn_tasks: "filing list")
  (cn_children: "container list")
  (cn_states: stateCounts)
  (cn_summary: gostring)

record verdictFold =
  vf_running :: bool
  vf_failed :: bool
  vf_blocked :: bool
  vf_cancelled :: bool
  vf_unresolved :: bool

definition states_fold :: "stateCounts \<Rightarrow> verdictFold" where
  "states_fold s = \<lparr>vf_running = sc_running s > 0, vf_failed = sc_failed s > 0,
     vf_blocked = sc_blocked s > 0, vf_cancelled = sc_cancelled s > 0,
     vf_unresolved = sc_unresolved s > 0\<rparr>"

fun verdict_add :: "verdictFold \<Rightarrow> EntityState \<Rightarrow> verdictFold" where
  "verdict_add v Running = v\<lparr>vf_running := True\<rparr>"
| "verdict_add v Failed = v\<lparr>vf_failed := True\<rparr>"
| "verdict_add v Blocked = v\<lparr>vf_blocked := True\<rparr>"
| "verdict_add v Cancelled = v\<lparr>vf_cancelled := True\<rparr>"
| "verdict_add v Done = v"
| "verdict_add v Skipped = v"
| "verdict_add v NotStarted = v"
| "verdict_add v _ = v\<lparr>vf_unresolved := True\<rparr>"

definition verdict_state :: "verdictFold \<Rightarrow> EntityState" where
  "verdict_state v =
     (if vf_running v then Running
      else if vf_failed v then Failed
      else if vf_blocked v then Blocked
      else if vf_cancelled v then Cancelled
      else if vf_unresolved v then Incomplete
      else Done)"

definition allTasksNotStarted :: "filing list \<Rightarrow> stateCounts \<Rightarrow> bool" where
  "allTasksNotStarted ts sc \<longleftrightarrow> length ts > 0 \<and> sc_notStarted sc = int (length ts)"

fun derivedState :: "container \<Rightarrow> EntityState"
and fold_children :: "verdictFold \<Rightarrow> container list \<Rightarrow> verdictFold" where
  "derivedState (Container b ts ks sc sm) =
     (if b = Some BuilderFailed then Failed
      else if length ts = 0 \<and> length ks = 0
        then (if b = Some BuilderNotStarted then NotStarted else Empty)
      else if length ks = 0 \<and> allTasksNotStarted ts sc then NotStarted
      else verdict_state (fold_children (states_fold sc) ks))"
| "fold_children v [] = v"
| "fold_children v (k # ks) =
     (let s = derivedState k in
      fold_children
        (if s = Empty then v
         else if s = NotStarted then v\<lparr>vf_unresolved := True\<rparr>
         else verdict_add v s) ks)"

fun hasWarnedOrFailedDescendant :: "container \<Rightarrow> bool" where
  "hasWarnedOrFailedDescendant (Container b ts ks sc sm) =
     (if sc_failed sc > 0 \<or> sc_cancelled sc > 0 \<or> sc_warned sc > 0 then True
      else list_ex hasWarnedOrFailedDescendant ks)"

definition displaySummary :: "container \<Rightarrow> EntityState \<Rightarrow> gostring" where
  "displaySummary g st =
     (if st = Done \<and> cn_summary g \<noteq> [] \<and> \<not> hasWarnedOrFailedDescendant g then cn_summary g else [])"

subsection \<open>What lies beneath a container\<close>

fun cached :: "container \<Rightarrow> bool" where
  "cached (Container b ts ks sc sm) \<longleftrightarrow> states_counted sc (mset ts) \<and> (\<forall>k\<in>set ks. cached k)"

fun filings_beneath :: "container \<Rightarrow> filing set" where
  "filings_beneath (Container b ts ks sc sm) = set ts \<union> (\<Union>k\<in>set ks. filings_beneath k)"

fun builder_failed :: "container \<Rightarrow> bool" where
  "builder_failed (Container b ts ks sc sm) \<longleftrightarrow> b = Some BuilderFailed \<or> (\<exists>k\<in>set ks. builder_failed k)"

definition states_beneath :: "container \<Rightarrow> EntityState set" where
  "states_beneath g = fi_state ` filings_beneath g"

text \<open>The order in which a header reports what is beneath it.\<close>

definition worst :: "EntityState set \<Rightarrow> EntityState option" where
  "worst S =
     (if Running \<in> S then Some Running
      else if Failed \<in> S then Some Failed
      else if Blocked \<in> S then Some Blocked
      else if Cancelled \<in> S then Some Cancelled
      else None)"

lemma states_beneath_Container:
  "states_beneath (Container b ts ks sc sm) = fi_state ` set ts \<union> (\<Union>k\<in>set ks. states_beneath k)"
  by (auto simp: states_beneath_def)

lemma states_fold_counted:
  assumes "states_counted sc (mset ts)"
  shows "vf_running (states_fold sc) \<longleftrightarrow> Running \<in> fi_state ` set ts"
    "vf_failed (states_fold sc) \<longleftrightarrow> Failed \<in> fi_state ` set ts"
    "vf_blocked (states_fold sc) \<longleftrightarrow> Blocked \<in> fi_state ` set ts"
    "vf_cancelled (states_fold sc) \<longleftrightarrow> Cancelled \<in> fi_state ` set ts"
    "vf_unresolved (states_fold sc) \<longleftrightarrow> fi_state ` set ts \<inter> {Pending, Empty, Incomplete} \<noteq> {}"
proof -
  have img: "s \<in> fi_state ` set ts \<longleftrightarrow> (\<exists>f\<in>set ts. fi_state f = s)" for s by auto
  show "vf_running (states_fold sc) \<longleftrightarrow> Running \<in> fi_state ` set ts"
    "vf_failed (states_fold sc) \<longleftrightarrow> Failed \<in> fi_state ` set ts"
    "vf_blocked (states_fold sc) \<longleftrightarrow> Blocked \<in> fi_state ` set ts"
    "vf_cancelled (states_fold sc) \<longleftrightarrow> Cancelled \<in> fi_state ` set ts"
    using assms by (simp_all add: states_fold_def states_counted_def size_if_pos img)
  show "vf_unresolved (states_fold sc) \<longleftrightarrow> fi_state ` set ts \<inter> {Pending, Empty, Incomplete} \<noteq> {}"
    using assms by (auto simp: states_fold_def states_counted_def size_if_pos img)
qed

text \<open>Folding the children in only ever adds the flags their verdicts carry.\<close>

lemma fold_children_flags:
  "vf_running (fold_children v ks) \<longleftrightarrow> vf_running v \<or> (\<exists>k\<in>set ks. derivedState k = Running)"
  "vf_failed (fold_children v ks) \<longleftrightarrow> vf_failed v \<or> (\<exists>k\<in>set ks. derivedState k = Failed)"
  "vf_blocked (fold_children v ks) \<longleftrightarrow> vf_blocked v \<or> (\<exists>k\<in>set ks. derivedState k = Blocked)"
  "vf_cancelled (fold_children v ks) \<longleftrightarrow> vf_cancelled v \<or> (\<exists>k\<in>set ks. derivedState k = Cancelled)"
  "vf_unresolved (fold_children v ks) \<longleftrightarrow>
     vf_unresolved v \<or> (\<exists>k\<in>set ks. derivedState k \<in> {NotStarted, Pending, Incomplete})"
proof (induction ks arbitrary: v)
  case (Cons k ks)
  { case 1 show ?case by (cases "derivedState k") (auto simp: Cons.IH(1)) }
  { case 2 show ?case by (cases "derivedState k") (auto simp: Cons.IH(2)) }
  { case 3 show ?case by (cases "derivedState k") (auto simp: Cons.IH(3)) }
  { case 4 show ?case by (cases "derivedState k") (auto simp: Cons.IH(4)) }
  { case 5 show ?case by (cases "derivedState k") (auto simp: Cons.IH(5)) }
qed simp_all

lemma all_not_started:
  assumes "states_counted sc (mset ts)" "allTasksNotStarted ts sc"
  shows "fi_state ` set ts = {NotStarted}"
proof -
  have "int (size (filter_mset (\<lambda>f. fi_state f = NotStarted) (mset ts))) = int (size (mset ts))"
    using assms by (simp add: states_counted_def allTasksNotStarted_def size_if_def)
  then have "length (filter (\<lambda>f. fi_state f = NotStarted) ts) = length ts" by (simp flip: mset_filter)
  then have "\<forall>f\<in>set ts. fi_state f = NotStarted"
    using length_filter_less[of _ ts "\<lambda>f. fi_state f = NotStarted"] by force
  moreover have "ts \<noteq> []" using assms by (auto simp: allTasksNotStarted_def)
  ultimately show ?thesis by (cases ts) auto
qed


subsection \<open>Failures surface\<close>

definition verdict_ok :: "container \<Rightarrow> bool" where
  "verdict_ok g \<longleftrightarrow>
     (Failed \<in> states_beneath g \<or> builder_failed g \<longrightarrow> derivedState g \<in> {Running, Failed}) \<and>
     (\<not> builder_failed g \<longrightarrow>
        (case worst (states_beneath g) of
           Some s \<Rightarrow> derivedState g = s
         | None \<Rightarrow> derivedState g \<in> {Done, Incomplete, Empty, NotStarted})) \<and>
     (derivedState g = Done \<longrightarrow> \<not> builder_failed g \<and> states_beneath g \<subseteq> {Done, Skipped, NotStarted}) \<and>
     (derivedState g = Empty \<longrightarrow> \<not> builder_failed g \<and> states_beneath g = {}) \<and>
     derivedState g \<noteq> Skipped \<and> derivedState g \<noteq> Pending \<and>
     (derivedState g = Running \<longrightarrow> Running \<in> states_beneath g)"

lemma verdict_state_simps:
  "verdict_state v = Running \<longleftrightarrow> vf_running v"
  "verdict_state v = Failed \<longleftrightarrow> \<not> vf_running v \<and> vf_failed v"
  "verdict_state v = Blocked \<longleftrightarrow> \<not> vf_running v \<and> \<not> vf_failed v \<and> vf_blocked v"
  "verdict_state v = Cancelled \<longleftrightarrow> \<not> vf_running v \<and> \<not> vf_failed v \<and> \<not> vf_blocked v \<and> vf_cancelled v"
  "verdict_state v = Done \<longleftrightarrow> \<not> vf_running v \<and> \<not> vf_failed v \<and> \<not> vf_blocked v \<and> \<not> vf_cancelled v \<and> \<not> vf_unresolved v"
  "verdict_state v \<in> {Running, Failed, Blocked, Cancelled, Incomplete, Done}"
  by (simp_all add: verdict_state_def)

text \<open>The facts about one child its parent's fold uses.\<close>

lemma verdict_okD:
  assumes "verdict_ok k"
  shows "Failed \<in> states_beneath k \<or> builder_failed k \<Longrightarrow> derivedState k = Running \<or> derivedState k = Failed"
    and "\<not> builder_failed k \<Longrightarrow> derivedState k = Running \<longleftrightarrow> Running \<in> states_beneath k"
    and "\<not> builder_failed k \<Longrightarrow> Running \<notin> states_beneath k \<Longrightarrow>
      derivedState k = Failed \<longleftrightarrow> Failed \<in> states_beneath k"
    and "\<not> builder_failed k \<Longrightarrow> Running \<notin> states_beneath k \<Longrightarrow> Failed \<notin> states_beneath k \<Longrightarrow>
      derivedState k = Blocked \<longleftrightarrow> Blocked \<in> states_beneath k"
    and "\<not> builder_failed k \<Longrightarrow> Running \<notin> states_beneath k \<Longrightarrow> Failed \<notin> states_beneath k \<Longrightarrow>
      Blocked \<notin> states_beneath k \<Longrightarrow> derivedState k = Cancelled \<longleftrightarrow> Cancelled \<in> states_beneath k"
    and "derivedState k = Done \<Longrightarrow> \<not> builder_failed k \<and> states_beneath k \<subseteq> {Done, Skipped, NotStarted}"
    and "derivedState k = Empty \<Longrightarrow> \<not> builder_failed k \<and> states_beneath k = {}"
    and "derivedState k \<noteq> Skipped" "derivedState k \<noteq> Pending"
    and "derivedState k = Running \<Longrightarrow> Running \<in> states_beneath k"
  using assms by (auto simp: verdict_ok_def worst_def split: if_splits)

lemma folded_verdict_ok:
  assumes sc: "states_counted sc (mset ts)" and kids: "\<forall>k\<in>set ks. verdict_ok k"
    and b: "b \<noteq> Some BuilderFailed"
    and d: "derivedState (Container b ts ks sc sm) = verdict_state (fold_children (states_fold sc) ks)"
  shows "verdict_ok (Container b ts ks sc sm)"
proof -
  let ?g = "Container b ts ks sc sm"
  let ?v = "fold_children (states_fold sc) ks"
  let ?D = "fi_state ` set ts"
  have S: "states_beneath ?g = ?D \<union> (\<Union>k\<in>set ks. states_beneath k)" by (rule states_beneath_Container)
  have B: "builder_failed ?g \<longleftrightarrow> (\<exists>k\<in>set ks. builder_failed k)" using b by simp
  note flags = fold_children_flags[of "states_fold sc" ks, unfolded states_fold_counted[OF sc]]
  have kid: "verdict_ok k" if "k \<in> set ks" for k using kids that by blast
  have "Failed \<in> states_beneath ?g \<or> builder_failed ?g \<Longrightarrow> vf_running ?v \<or> vf_failed ?v"
    unfolding S B flags(1,2) using verdict_okD(1)[OF kid] by blast
  then have 1: "Failed \<in> states_beneath ?g \<or> builder_failed ?g \<longrightarrow> derivedState ?g \<in> {Running, Failed}"
    unfolding d using verdict_state_simps(1,2)[of ?v] by auto
  have 2: "case worst (states_beneath ?g) of Some s \<Rightarrow> derivedState ?g = s
      | None \<Rightarrow> derivedState ?g \<in> {Done, Incomplete, Empty, NotStarted}" if nb: "\<not> builder_failed ?g"
  proof -
    have nbk: "\<not> builder_failed k" if "k \<in> set ks" for k using nb B that by blast
    have r: "vf_running ?v \<longleftrightarrow> Running \<in> states_beneath ?g"
      unfolding S flags(1) using verdict_okD(2)[OF kid nbk] by blast
    have f: "vf_failed ?v \<longleftrightarrow> Failed \<in> states_beneath ?g" if "Running \<notin> states_beneath ?g"
      using that unfolding S flags(2) using verdict_okD(3)[OF kid nbk] by blast
    have bl: "vf_blocked ?v \<longleftrightarrow> Blocked \<in> states_beneath ?g"
      if a: "Running \<notin> states_beneath ?g" "Failed \<notin> states_beneath ?g"
    proof -
      have "derivedState k = Blocked \<longleftrightarrow> Blocked \<in> states_beneath k" if "k \<in> set ks" for k
        by (rule verdict_okD(4)[OF kid[OF that] nbk[OF that]]) (use a that S in blast)+
      then show ?thesis unfolding S flags(3) by blast
    qed
    have c: "vf_cancelled ?v \<longleftrightarrow> Cancelled \<in> states_beneath ?g"
      if a: "Running \<notin> states_beneath ?g" "Failed \<notin> states_beneath ?g" "Blocked \<notin> states_beneath ?g"
    proof -
      have "derivedState k = Cancelled \<longleftrightarrow> Cancelled \<in> states_beneath k" if "k \<in> set ks" for k
        by (rule verdict_okD(5)[OF kid[OF that] nbk[OF that]]) (use a that S in blast)+
      then show ?thesis unfolding S flags(4) by blast
    qed
    show ?thesis
      unfolding d worst_def verdict_state_def using r f bl c by auto
  qed
  have 3: "\<not> builder_failed ?g \<and> states_beneath ?g \<subseteq> {Done, Skipped, NotStarted}" if "derivedState ?g = Done"
  proof -
    have v: "\<not> vf_running ?v" "\<not> vf_failed ?v" "\<not> vf_blocked ?v" "\<not> vf_cancelled ?v" "\<not> vf_unresolved ?v"
      using that unfolding d verdict_state_simps by blast+
    have dk: "derivedState k = Done \<or> derivedState k = Empty" if "k \<in> set ks" for k
      using v[unfolded flags] that verdict_okD(8,9)[OF kid[OF that]] by (cases "derivedState k") auto
    then have "\<not> builder_failed k \<and> states_beneath k \<subseteq> {Done, Skipped, NotStarted}" if "k \<in> set ks" for k
      using verdict_okD(6,7)[OF kid[OF that]] that by blast
    moreover have "?D \<subseteq> {Done, Skipped, NotStarted}"
    proof
      fix s assume s: "s \<in> ?D"
      have "Running \<notin> ?D" "Failed \<notin> ?D" "Blocked \<notin> ?D" "Cancelled \<notin> ?D"
        using v(1-4)[unfolded flags] by blast+
      moreover have "s \<notin> {Pending, Empty, Incomplete}" using v(5)[unfolded flags] s by blast
      ultimately show "s \<in> {Done, Skipped, NotStarted}"
        using s by (cases s) (simp_all only: insert_iff simp_thms)
    qed
    ultimately show ?thesis unfolding S B by blast
  qed
  have 4: "Running \<in> states_beneath ?g" if "derivedState ?g = Running"
    using that verdict_okD(10)[OF kid] unfolding d verdict_state_simps(1) flags(1) S by blast
  show ?thesis
    unfolding verdict_ok_def using 1 2 3 4 verdict_state_simps(6)[of ?v] d by auto
qed

lemma verdict_ok_beneath: "cached g \<Longrightarrow> verdict_ok g"
proof (induction g)
  case (Container b ts ks sc sm)
  have kids: "\<forall>k\<in>set ks. verdict_ok k" using Container by simp
  have sc: "states_counted sc (mset ts)" using Container.prems by simp
  consider (bf) "b = Some BuilderFailed" | (none) "b \<noteq> Some BuilderFailed" "ts = []" "ks = []"
    | (ns) "b \<noteq> Some BuilderFailed" "ks = []" "allTasksNotStarted ts sc"
    | (fold) "b \<noteq> Some BuilderFailed" "\<not> (ts = [] \<and> ks = [])" "\<not> (ks = [] \<and> allTasksNotStarted ts sc)"
    by blast
  then show ?case
  proof cases
    case bf
    then show ?thesis by (simp add: verdict_ok_def)
  next
    case none
    then show ?thesis by (auto simp: verdict_ok_def states_beneath_Container worst_def)
  next
    case ns
    have "fi_state ` set ts = {NotStarted}" using all_not_started[OF sc ns(3)] .
    moreover have "length ts > 0" using ns by (simp add: allTasksNotStarted_def)
    ultimately show ?thesis using ns by (auto simp: verdict_ok_def states_beneath_Container worst_def)
  next
    case fold
    then show ?thesis by (intro folded_verdict_ok[OF sc kids]) auto
  qed
qed

text \<open>
  Property (C31): with the cached counts current, a failed Task or builder at any depth makes every
  header above it Failed, or Running while something beneath still runs; without a failed builder the
  header is the first of Running, Failed, Blocked, Cancelled that occurs at any depth; and a header
  reads Done only when every Task beneath finished, was skipped or was never started. The last case does
  occur: a Task stopped by a predecessor outside the container leaves its header Done.
\<close>

theorem failure_surfaces_at_any_depth:
  assumes "cached g"
  shows "(Failed \<in> states_beneath g \<or> builder_failed g \<longrightarrow> derivedState g \<in> {Running, Failed})
    \<and> (\<not> builder_failed g \<longrightarrow>
        (case worst (states_beneath g) of
           Some s \<Rightarrow> derivedState g = s
         | None \<Rightarrow> derivedState g \<in> {Done, Incomplete, Empty, NotStarted}))
    \<and> (derivedState g = Done \<longrightarrow> \<not> builder_failed g \<and> states_beneath g \<subseteq> {Done, Skipped, NotStarted})"
  using verdict_ok_beneath[OF assms] unfolding verdict_ok_def by blast

definition wit_leaf :: "EntityState list \<Rightarrow> container list \<Rightarrow> container" where
  "wit_leaf ss ks =
     (let ts = map (\<lambda>s. \<lparr>fi_state = s, fi_width = 1, fi_warned = False\<rparr>) ss
      in Container None ts ks (fold (\<lambda>f s. states_add s f) ts no_states) ''ok'')"

text \<open>
  A failure two levels down, and a Group whose second Task was stopped by a predecessor outside it:
  the Group's header reads Done over a Task that never started.
\<close>

theorem failure_surfaces_at_any_depth_witness:
  "derivedState (wit_leaf [Done] [wit_leaf [] [wit_leaf [Done, Failed, Blocked] []]]) = Failed \<and>
   derivedState (wit_leaf [Done, NotStarted] []) = Done"
proof -
  have c: "cached (wit_leaf [Done] [wit_leaf [] [wit_leaf [Done, Failed, Blocked] []]])"
    by (simp add: wit_leaf_def Let_def states_counted_def states_add_def states_move_def no_states_def)
  have "worst (states_beneath (wit_leaf [Done] [wit_leaf [] [wit_leaf [Done, Failed, Blocked] []]])) = Some Failed"
    "\<not> builder_failed (wit_leaf [Done] [wit_leaf [] [wit_leaf [Done, Failed, Blocked] []]])"
    by (simp_all add: wit_leaf_def Let_def states_beneath_def worst_def)
  then have "derivedState (wit_leaf [Done] [wit_leaf [] [wit_leaf [Done, Failed, Blocked] []]]) = Failed"
    using failure_surfaces_at_any_depth[OF c] by simp
  moreover have "derivedState (wit_leaf [Done, NotStarted] []) = Done"
    by (simp add: wit_leaf_def Let_def states_add_def states_move_def no_states_def allTasksNotStarted_def
        states_fold_def verdict_state_def)
  ultimately show ?thesis by blast
qed

text \<open>
  A container's own success summary is shown only over a Done verdict with no warning
  and no failed or cancelled Task at any depth.
\<close>

theorem summary_only_when_clean:
  assumes "cached g" "displaySummary g (derivedState g) \<noteq> []"
  shows "derivedState g = Done \<and> (\<forall>f\<in>filings_beneath g. \<not> fi_warned f \<and> fi_state f \<in> {Done, Skipped, NotStarted})"
proof -
  have warned: "\<not> hasWarnedOrFailedDescendant h \<Longrightarrow> cached h \<Longrightarrow> \<forall>f\<in>filings_beneath h. \<not> fi_warned f" for h
  proof (induction h)
    case (Container b ts ks sc sm)
    then have "\<not> sc_warned sc > 0" "\<forall>k\<in>set ks. \<not> hasWarnedOrFailedDescendant k"
      by (auto simp: list_ex_iff split: if_splits)
    moreover have "sc_warned sc = size_if fi_warned (mset ts)"
      using Container.prems by (simp add: states_counted_def)
    ultimately show ?case using Container by (auto simp: size_if_pos)
  qed
  have "derivedState g = Done" "\<not> hasWarnedOrFailedDescendant g"
    using assms(2) by (auto simp: displaySummary_def split: if_splits)
  then show ?thesis
    using warned[OF _ assms(1)] verdict_ok_beneath[OF assms(1)]
    by (auto simp: verdict_ok_def states_beneath_def)
qed

theorem summary_only_when_clean_witness:
  "displaySummary (wit_leaf [Done] [wit_leaf [Skipped] []]) Done = ''ok'' \<and>
   Failed \<notin> states_beneath (wit_leaf [Done] [wit_leaf [Skipped] []])"
proof -
  let ?g = "wit_leaf [Done] [wit_leaf [Skipped] []]"
  have c: "cached ?g" and d: "derivedState ?g = Done"
    by (simp_all add: wit_leaf_def Let_def states_counted_def states_add_def states_move_def no_states_def
        allTasksNotStarted_def states_fold_def verdict_state_def)
  have s: "displaySummary ?g Done = ''ok''"
    by (simp add: displaySummary_def wit_leaf_def Let_def states_add_def states_move_def no_states_def)
  then show ?thesis using summary_only_when_clean[OF c] d by (fastforce simp: states_beneath_def)
qed

end
