(* ===== verification/Engine_Finish.thy ===== *)
theory Engine_Finish
  imports Engine_Verdict Core_Conclusion
begin

text \<open>
  The end of a run (\<open>internal/engine/finish.go\<close>, \<open>task_commit.go\<close>, \<open>misuse.go\<close>): the sweeps that
  give every Task left unresolved its honest outcome, and the conclusion drawn from what is then
  settled. The run's Tasks are a list in declaration order; a container names its Tasks by their
  positions. \<open>Finish\<close> reaches this point after the scheduler has drained, when no Task is parked, so
  settling a row here moves only that row. A strict run panics on the first misuse, which is the
  left branch of the results. Rendering, the machine streams and the wording of the misuse line are
  not modelled.
\<close>

subsection \<open>State\<close>

datatype tasksNode = TasksNode
  (tn_id: gostring)
  (tn_key: gostring)
  (tn_name: gostring)
  (tn_summary: gostring)
  (tn_declaration: int)
  (tn_sequential: bool)
  (tn_builder: "builderPhase option")
  (tn_tasks: "nat list")
  (tn_children: "tasksNode list")

datatype ledgerTense = TenseChanged | TensePlanned

record runState =
  rn_tasks :: "TaskSnapshot list"
  rn_collections :: "tasksNode list"
  rn_ledger :: "((gostring \<times> ledgerTense) \<times> EffectRecord list) list"
  rn_misuse :: "gostring option"
  rn_misuseSubject :: gostring
  rn_cancelCause :: gostring

record finishConfig =
  cf_strict :: bool
  cf_failedExitCode :: int

definition ErrUnresolvedTask :: gostring where
  "ErrUnresolvedTask = ''evo: task has no final state''"

definition em_dash :: gostring where
  "em_dash = [CHR 0xE2, CHR 0x80, CHR 0x94]"

definition notStartedSummary :: gostring where
  "notStartedSummary = ''not started''"

definition unresolvedTaskCancelledSummary :: gostring where
  "unresolvedTaskCancelledSummary = ''cancelled '' @ em_dash @ '' run concluded before finish''"

definition unresolvedTaskIncompleteSummary :: gostring where
  "unresolvedTaskIncompleteSummary = ''incomplete '' @ em_dash @ '' run concluded before finish''"

definition unresolvedTaskHint :: gostring where
  "unresolvedTaskHint = ''call Define, Fail, Block, or Skipped on this task''"

subsection \<open>Settling one row (settle.go, task_commit.go)\<close>

definition declaresSuccess :: "EntityState \<Rightarrow> bool" where
  "declaresSuccess s \<longleftrightarrow> s = Done \<or> s = Skipped"

definition honestOutcome :: "TaskSnapshot \<Rightarrow> EntityState \<Rightarrow> EntityState" where
  "honestOutcome t s = (if declaresSuccess s \<and> length (ts_Problems t) > 0 then Failed else s)"

definition settle_row :: "TaskSnapshot \<Rightarrow> EntityState \<Rightarrow> TaskSnapshot" where
  "settle_row t s = t\<lparr>ts_State := honestOutcome t s, ts_Phase := []\<rparr>"

subsection \<open>Misuse (misuse.go)\<close>

text \<open>The first misuse is kept; a strict run panics with the one just recorded.\<close>

definition recordMisuse :: "finishConfig \<Rightarrow> gostring \<Rightarrow> runState \<Rightarrow> gostring + runState" where
  "recordMisuse cfg err r =
     (let r' = (if rn_misuse r = None then r\<lparr>rn_misuse := Some err\<rparr> else r) in
      if cf_strict cfg then Inl err else Inr r')"

definition recordMisuseFor :: "finishConfig \<Rightarrow> gostring \<Rightarrow> gostring \<Rightarrow> runState \<Rightarrow> gostring + runState" where
  "recordMisuseFor cfg subject err r =
     recordMisuse cfg err (if rn_misuse r = None then r\<lparr>rn_misuseSubject := subject\<rparr> else r)"

subsection \<open>The sweeps (finish.go)\<close>

definition hasRecordedEffect :: "runState \<Rightarrow> gostring \<Rightarrow> bool" where
  "hasRecordedEffect r taskID =
     list_ex (\<lambda>tense. case map_of (rn_ledger r) (taskID, tense) of
         Some records \<Rightarrow> length records > 0
       | None \<Rightarrow> False) [TenseChanged, TensePlanned]"

definition hasSealedProgress :: "TaskSnapshot \<Rightarrow> bool" where
  "hasSealedProgress t =
     (let p = ts_Progress t in
      if pr_Kind p = Indeterminate then False
      else pr_Total p > 0 \<and> pr_Completed p \<ge> pr_Total p)"

definition hasRecordedTaxonomy :: "TaskSnapshot \<Rightarrow> bool" where
  "hasRecordedTaxonomy t \<longleftrightarrow> length (ts_Skipped t) > 0 \<or> length (ts_Kept t) > 0"

definition resolveUnstartedTask :: "TaskSnapshot \<Rightarrow> TaskSnapshot" where
  "resolveUnstartedTask t =
     (if ts_State t = Running
      then settle_row (t\<lparr>ts_Summary := unresolvedTaskCancelledSummary\<rparr>) Cancelled
      else settle_row (t\<lparr>ts_Summary := notStartedSummary\<rparr>) NotStarted)"

definition abnormalFinish :: "TaskSnapshot list \<Rightarrow> bool" where
  "abnormalFinish ts = list_ex (\<lambda>t. ts_State t = Failed \<or> ts_State t = Cancelled) ts"

definition hint_action :: Action where
  "hint_action = \<lparr>ac_Label = unresolvedTaskHint, ac_Command = None, ac_URL = [], ac_File = [],
     ac_Explanation = [], ac_RequiresConfirmation = False, ac_Destructive = False\<rparr>"

definition attachUnresolvedTaskHint :: "TaskSnapshot \<Rightarrow> TaskSnapshot" where
  "attachUnresolvedTaskHint t = t\<lparr>ts_Actions := ts_Actions t @ [hint_action]\<rparr>"

text \<open>Whether the row already tells a complete story without a terminal verb.\<close>

definition told_its_story :: "runState \<Rightarrow> TaskSnapshot \<Rightarrow> bool" where
  "told_its_story r t \<longleftrightarrow> length (ts_Problems t) > 0 \<or> hasRecordedEffect r (ts_ID t) \<or>
     hasSealedProgress t \<or> hasRecordedTaxonomy t \<or> length (ts_Warnings t) > 0"

definition settle_unresolved_task ::
  "finishConfig \<Rightarrow> bool \<Rightarrow> TaskSnapshot \<Rightarrow> runState \<Rightarrow> gostring + TaskSnapshot \<times> runState" where
  "settle_unresolved_task cfg abnormal t r =
     (if IsTerminalTask (ts_State t) then Inr (t, r)
      else if told_its_story r t then Inr (settle_row t Done, r)
      else if \<not> abnormal then
        Inr (attachUnresolvedTaskHint
               (settle_row (t\<lparr>ts_Summary := unresolvedTaskIncompleteSummary\<rparr>) Incomplete), r)
      else
        (let t' = resolveUnstartedTask t in
         if ts_State t' = NotStarted then Inr (t', r)
         else (case recordMisuseFor cfg (ts_Name t') ErrUnresolvedTask r of
                 Inl err \<Rightarrow> Inl err
               | Inr r' \<Rightarrow> Inr (attachUnresolvedTaskHint t', r'))))"

fun settle_unresolved_from ::
  "finishConfig \<Rightarrow> bool \<Rightarrow> TaskSnapshot list \<Rightarrow> runState \<Rightarrow> gostring + TaskSnapshot list \<times> runState" where
  "settle_unresolved_from cfg abnormal [] r = Inr ([], r)"
| "settle_unresolved_from cfg abnormal (t # ts) r =
     (case settle_unresolved_task cfg abnormal t r of
        Inl err \<Rightarrow> Inl err
      | Inr (t', r') \<Rightarrow>
          (case settle_unresolved_from cfg abnormal ts r' of
             Inl err \<Rightarrow> Inl err
           | Inr (ts', r'') \<Rightarrow> Inr (t' # ts', r'')))"

definition settleUnresolvedTasks :: "finishConfig \<Rightarrow> runState \<Rightarrow> gostring + runState" where
  "settleUnresolvedTasks cfg r =
     (case settle_unresolved_from cfg (abnormalFinish (rn_tasks r)) (rn_tasks r) r of
        Inl err \<Rightarrow> Inl err
      | Inr (ts, r') \<Rightarrow> Inr (r'\<lparr>rn_tasks := ts\<rparr>))"

text \<open>\<open>autoResolveGroupsLocked\<close>: the Tasks of a Sequence declared after a failed or cancelled one.\<close>

fun stop_after_trigger :: "bool \<Rightarrow> nat list \<Rightarrow> TaskSnapshot list \<Rightarrow> TaskSnapshot list" where
  "stop_after_trigger triggered [] ts = ts"
| "stop_after_trigger triggered (i # is) ts =
     (if \<not> triggered then
        stop_after_trigger (ts_State (ts ! i) = Failed \<or> ts_State (ts ! i) = Cancelled) is ts
      else if IsTerminalTask (ts_State (ts ! i)) then stop_after_trigger triggered is ts
      else stop_after_trigger triggered is
             (ts[i := settle_row ((ts ! i)\<lparr>ts_Summary := notStartedSummary\<rparr>) NotStarted]))"

definition autoResolveGroups :: "runState \<Rightarrow> runState" where
  "autoResolveGroups r =
     r\<lparr>rn_tasks := foldl (\<lambda>ts col. if \<not> tn_sequential col then ts
          else stop_after_trigger False (tn_tasks col) ts) (rn_tasks r) (rn_collections r)\<rparr>"

subsection \<open>The snapshot and the conclusion (snapshot.go, finish.go)\<close>

definition recount :: "filing list \<Rightarrow> stateCounts" where
  "recount fs = fold (\<lambda>f s. states_add s f) fs no_states"

fun node_container :: "TaskSnapshot list \<Rightarrow> tasksNode \<Rightarrow> container" where
  "node_container ts (TasksNode i k n sm d sq b is ks) =
     (let fs = map (\<lambda>i. filing_of (ts ! i)) is
      in Container b fs (map (node_container ts) ks) (recount fs) sm)"

fun node_snapshot :: "TaskSnapshot list \<Rightarrow> tasksNode \<Rightarrow> TasksSnapshot" where
  "node_snapshot ts (TasksNode i k n sm d sq b is ks) =
     (let c = node_container ts (TasksNode i k n sm d sq b is ks);
          st = derivedState c
      in TasksSnapshot i k n st (displaySummary c st) (map (\<lambda>i. ts ! i) is)
           (map (node_snapshot ts) ks) sq d None None)"

text \<open>
  \<open>snapshotLocked\<close>: the base supplies what the sweeps leave alone (subject, changes, plans, actions,
  facts, warnings, the dry-run flag).
\<close>

definition run_snapshot :: "Snapshot \<Rightarrow> runState \<Rightarrow> Snapshot" where
  "run_snapshot base r =
     base\<lparr>s_Collections := map (node_snapshot (rn_tasks r)) (rn_collections r),
          s_Tasks := filter (\<lambda>t. ts_Collection t = []) (rn_tasks r)\<rparr>"

definition explainCancellation :: "runState \<Rightarrow> Conclusion \<Rightarrow> Conclusion" where
  "explainCancellation r c =
     (if c_State c = StateCancelled \<and> c_Explanation c = [] then c\<lparr>c_Explanation := rn_cancelCause r\<rparr> else c)"

definition conclude :: "finishConfig \<Rightarrow> Snapshot \<Rightarrow> runState \<Rightarrow> Conclusion" where
  "conclude cfg base r =
     the (ApplyFailedExitCode
       (FoldLeftoverMisuse (Some (explainCancellation r (InferConclusion (run_snapshot base r)))) (rn_misuse r))
       (cf_failedExitCode cfg))"

definition finish_run :: "finishConfig \<Rightarrow> Snapshot \<Rightarrow> runState \<Rightarrow> gostring + Conclusion \<times> runState" where
  "finish_run cfg base r =
     (case settleUnresolvedTasks cfg (autoResolveGroups r) of
        Inl err \<Rightarrow> Inl err
      | Inr r' \<Rightarrow> Inr (conclude cfg base r', r'))"


subsection \<open>What the sweep leaves\<close>

text \<open>
  The sweep of one row as a function of the row alone, and whether it leaves misuse behind.
\<close>

definition settled_row :: "runState \<Rightarrow> bool \<Rightarrow> TaskSnapshot \<Rightarrow> TaskSnapshot" where
  "settled_row r abnormal t =
     (if IsTerminalTask (ts_State t) then t
      else if told_its_story r t then settle_row t Done
      else if \<not> abnormal then
        attachUnresolvedTaskHint (settle_row (t\<lparr>ts_Summary := unresolvedTaskIncompleteSummary\<rparr>) Incomplete)
      else if ts_State t = Running then attachUnresolvedTaskHint (resolveUnstartedTask t)
      else resolveUnstartedTask t)"

definition cut_short :: "runState \<Rightarrow> bool \<Rightarrow> TaskSnapshot \<Rightarrow> bool" where
  "cut_short r abnormal t \<longleftrightarrow> abnormal \<and> ts_State t = Running \<and> \<not> told_its_story r t"

definition settled_state :: "EntityState \<Rightarrow> bool" where
  "settled_state s \<longleftrightarrow> IsTerminalTask s \<or> s = Incomplete"

lemma settle_row_state [simp]: "ts_State (settle_row t s) = honestOutcome t s"
  by (simp add: settle_row_def)

lemma hint_state [simp]: "ts_State (attachUnresolvedTaskHint t) = ts_State t"
  by (simp add: attachUnresolvedTaskHint_def)

lemma honestOutcome_other: "\<not> declaresSuccess s \<Longrightarrow> honestOutcome t s = s"
  by (simp add: honestOutcome_def)

lemma resolveUnstarted_state [simp]:
  "ts_State (resolveUnstartedTask t) = (if ts_State t = Running then Cancelled else NotStarted)"
  by (simp add: resolveUnstartedTask_def honestOutcome_def declaresSuccess_def)

lemma settled_row_state:
  "ts_State (settled_row r abnormal t) =
    (if IsTerminalTask (ts_State t) then ts_State t
     else if told_its_story r t then (if ts_Problems t = [] then Done else Failed)
     else if \<not> abnormal then Incomplete
     else if ts_State t = Running then Cancelled else NotStarted)"
  by (simp add: settled_row_def honestOutcome_def declaresSuccess_def)

lemma settled_row_settled: "settled_state (ts_State (settled_row r abnormal t))"
  by (simp add: settled_state_def settled_row_state)

lemma told_frame [simp]:
  "told_its_story (r\<lparr>rn_misuse := m\<rparr>) t = told_its_story r t"
  "told_its_story (r\<lparr>rn_misuseSubject := s\<rparr>) t = told_its_story r t"
  by (simp_all add: told_its_story_def hasRecordedEffect_def)

text \<open>One row: never a panic in a run that is not strict.\<close>

definition misused :: "TaskSnapshot \<Rightarrow> runState \<Rightarrow> runState" where
  "misused t r = (if rn_misuse r = None
     then r\<lparr>rn_misuseSubject := ts_Name t, rn_misuse := Some ErrUnresolvedTask\<rparr> else r)"

lemma settle_unresolved_task_eq:
  "\<not> cf_strict cfg \<Longrightarrow> settle_unresolved_task cfg abnormal t r =
     Inr (settled_row r abnormal t,
       if cut_short r abnormal t \<and> \<not> IsTerminalTask (ts_State t) then misused t r else r)"
  by (auto simp: settle_unresolved_task_def settled_row_def cut_short_def recordMisuseFor_def
      recordMisuse_def misused_def resolveUnstartedTask_def settle_row_def honestOutcome_def declaresSuccess_def
      Let_def)

lemma misused_frame [simp]:
  "settled_row (misused t r) abnormal u = settled_row r abnormal u"
  "cut_short (misused t r) abnormal u = cut_short r abnormal u"
  by (auto simp: misused_def settled_row_def cut_short_def told_its_story_def hasRecordedEffect_def)

lemma settle_unresolved_from_eq:
  assumes "\<not> cf_strict cfg"
  shows "\<exists>r'. settle_unresolved_from cfg abnormal ts r = Inr (map (settled_row r abnormal) ts, r') \<and>
    rn_misuse r' = (if rn_misuse r \<noteq> None then rn_misuse r
      else if \<exists>t\<in>set ts. cut_short r abnormal t then Some ErrUnresolvedTask else None) \<and>
    rn_collections r' = rn_collections r \<and> rn_ledger r' = rn_ledger r \<and> rn_cancelCause r' = rn_cancelCause r"
proof (induction ts arbitrary: r)
  case (Cons t ts)
  define r1 where "r1 = (if cut_short r abnormal t \<and> \<not> IsTerminalTask (ts_State t) then misused t r else r)"
  have nt: "cut_short r abnormal t \<Longrightarrow> \<not> IsTerminalTask (ts_State t)" by (simp add: cut_short_def)
  obtain r' where r': "settle_unresolved_from cfg abnormal ts r1 = Inr (map (settled_row r1 abnormal) ts, r')"
    "rn_misuse r' = (if rn_misuse r1 \<noteq> None then rn_misuse r1
      else if \<exists>t\<in>set ts. cut_short r1 abnormal t then Some ErrUnresolvedTask else None)"
    "rn_collections r' = rn_collections r1" "rn_ledger r' = rn_ledger r1" "rn_cancelCause r' = rn_cancelCause r1"
    using Cons.IH[of r1] by blast
  have same: "settled_row r1 abnormal u = settled_row r abnormal u" "cut_short r1 abnormal u = cut_short r abnormal u"
    "rn_collections r1 = rn_collections r" "rn_ledger r1 = rn_ledger r" "rn_cancelCause r1 = rn_cancelCause r" for u
    by (simp_all add: r1_def) (simp_all add: misused_def)
  have m1: "rn_misuse r1 = (if rn_misuse r \<noteq> None then rn_misuse r
      else if cut_short r abnormal t then Some ErrUnresolvedTask else None)"
    using nt by (auto simp: r1_def misused_def)
  show ?case
    using r' same m1 settle_unresolved_task_eq[OF assms, of abnormal t r, folded r1_def] by auto
qed simp

definition honestly_settled :: "runState \<Rightarrow> bool \<Rightarrow> TaskSnapshot \<Rightarrow> TaskSnapshot \<Rightarrow> bool" where
  "honestly_settled r abnormal t t' \<longleftrightarrow>
     settled_state (ts_State t') \<and>
     (if IsTerminalTask (ts_State t) then t' = t
      else ts_State t' =
        (if told_its_story r t then (if ts_Problems t = [] then Done else Failed)
         else if \<not> abnormal then Incomplete
         else if ts_State t = Running then Cancelled else NotStarted))"

lemma settled_row_honest: "honestly_settled r abnormal t (settled_row r abnormal t)"
proof (cases "IsTerminalTask (ts_State t)")
  case True
  then show ?thesis by (simp add: honestly_settled_def settled_row_def settled_state_def)
next
  case False
  then show ?thesis
    using settled_row_settled[of r abnormal t]
    unfolding honestly_settled_def settled_row_state by (simp only: if_False simp_thms)
qed

lemma honest_rows: "list_all2 (honestly_settled r abnormal) ts (map (settled_row r abnormal) ts)"
  by (induction ts) (simp_all add: settled_row_honest)

lemma settleUnresolvedTasks_returns:
  assumes "\<not> cf_strict cfg"
  shows "\<exists>r'. settleUnresolvedTasks cfg r = Inr r' \<and>
    rn_tasks r' = map (settled_row r (abnormalFinish (rn_tasks r))) (rn_tasks r) \<and>
    rn_misuse r' = (if rn_misuse r \<noteq> None then rn_misuse r
      else if \<exists>t\<in>set (rn_tasks r). cut_short r (abnormalFinish (rn_tasks r)) t then Some ErrUnresolvedTask
      else None) \<and>
    rn_collections r' = rn_collections r"
proof -
  let ?ab = "abnormalFinish (rn_tasks r)"
  obtain r' where r': "settle_unresolved_from cfg ?ab (rn_tasks r) r = Inr (map (settled_row r ?ab) (rn_tasks r), r')"
    "rn_misuse r' = (if rn_misuse r \<noteq> None then rn_misuse r
      else if \<exists>t\<in>set (rn_tasks r). cut_short r ?ab t then Some ErrUnresolvedTask else None)"
    "rn_collections r' = rn_collections r"
    using settle_unresolved_from_eq[OF assms, of ?ab "rn_tasks r" r] by blast
  show ?thesis
    using r'(2,3)
    by (intro exI[of _ "r'\<lparr>rn_tasks := map (settled_row r ?ab) (rn_tasks r)\<rparr>"])
      (simp add: settleUnresolvedTasks_def r'(1))
qed

text \<open>
  Property (C36): outside strict mode the sweep always completes; every row it leaves is terminal or
  Incomplete; rows already terminal are untouched; a row that recorded a Problem, an effect, a
  finished progress, a disposition or a warning settles Done, or Failed if it holds a Problem; the
  others settle Incomplete on a clean finish, and on an abnormal one Cancelled if they were running
  and NotStarted if they were not; misuse is recorded exactly for an unexplained running row of an
  abnormal finish.
\<close>

theorem unresolved_sweep_is_honest:
  assumes "\<not> cf_strict cfg"
  shows "\<exists>r'. settleUnresolvedTasks cfg r = Inr r' \<and>
    list_all2 (honestly_settled r (abnormalFinish (rn_tasks r))) (rn_tasks r) (rn_tasks r') \<and>
    rn_misuse r' = (if rn_misuse r \<noteq> None then rn_misuse r
      else if \<exists>t\<in>set (rn_tasks r). cut_short r (abnormalFinish (rn_tasks r)) t then Some ErrUnresolvedTask
      else None)"
  using settleUnresolvedTasks_returns[OF assms, of r] honest_rows by metis

definition wit_run :: "EntityState list \<Rightarrow> runState" where
  "wit_run ss = \<lparr>rn_tasks = map (\<lambda>s. wit_task s ''t'') ss, rn_collections = [], rn_ledger = [],
     rn_misuse = None, rn_misuseSubject = [], rn_cancelCause = ''by user''\<rparr>"

definition wit_config :: finishConfig where
  "wit_config = \<lparr>cf_strict = False, cf_failedExitCode = 0\<rparr>"

theorem unresolved_sweep_is_honest_witness:
  "\<exists>r'. settleUnresolvedTasks wit_config (wit_run [Failed, Running, Pending]) = Inr r' \<and>
     map ts_State (rn_tasks r') = [Failed, Cancelled, NotStarted] \<and> rn_misuse r' = Some ErrUnresolvedTask"
proof -
  have "\<not> cf_strict wit_config" by (simp add: wit_config_def)
  from unresolved_sweep_is_honest[OF this, of "wit_run [Failed, Running, Pending]"]
  obtain r' where "settleUnresolvedTasks wit_config (wit_run [Failed, Running, Pending]) = Inr r'"
    "list_all2 (honestly_settled (wit_run [Failed, Running, Pending]) True)
       (rn_tasks (wit_run [Failed, Running, Pending])) (rn_tasks r')"
    "rn_misuse r' = Some ErrUnresolvedTask"
    by (auto simp: wit_run_def wit_task_def abnormalFinish_def cut_short_def told_its_story_def
        hasRecordedEffect_def hasSealedProgress_def hasRecordedTaxonomy_def)
  then show ?thesis
    by (auto simp: wit_run_def wit_task_def honestly_settled_def told_its_story_def list_all2_Cons1
        hasRecordedEffect_def hasSealedProgress_def hasRecordedTaxonomy_def)
qed


subsection \<open>The conclusion of a finished run\<close>

text \<open>A strict run that does not panic did what a lenient one does.\<close>

lemma strict_task:
  "settle_unresolved_task cfg ab t r = Inr x \<Longrightarrow>
   settle_unresolved_task (cfg\<lparr>cf_strict := False\<rparr>) ab t r = Inr x"
  by (auto simp: settle_unresolved_task_def recordMisuseFor_def recordMisuse_def Let_def
      split: if_splits sum.splits)

lemma strict_from:
  "settle_unresolved_from cfg ab ts r = Inr x \<Longrightarrow>
   settle_unresolved_from (cfg\<lparr>cf_strict := False\<rparr>) ab ts r = Inr x"
proof (induction ts arbitrary: r x)
  case (Cons t ts)
  obtain t' r1 where t: "settle_unresolved_task cfg ab t r = Inr (t', r1)"
    using Cons.prems by (cases "settle_unresolved_task cfg ab t r") auto
  obtain ts' r2 where ts: "settle_unresolved_from cfg ab ts r1 = Inr (ts', r2)"
    using Cons.prems t by (cases "settle_unresolved_from cfg ab ts r1") auto
  show ?case using Cons.prems Cons.IH[OF ts] strict_task[OF t] t ts by simp
qed simp

lemma settleUnresolvedTasks_Inr:
  assumes "settleUnresolvedTasks cfg r = Inr r'"
  shows "rn_tasks r' = map (settled_row r (abnormalFinish (rn_tasks r))) (rn_tasks r)
    \<and> rn_misuse r' = (if rn_misuse r \<noteq> None then rn_misuse r
      else if \<exists>t\<in>set (rn_tasks r). cut_short r (abnormalFinish (rn_tasks r)) t then Some ErrUnresolvedTask
      else None)
    \<and> rn_collections r' = rn_collections r"
proof -
  have "settleUnresolvedTasks (cfg\<lparr>cf_strict := False\<rparr>) r = Inr r'"
    using assms strict_from by (fastforce simp: settleUnresolvedTasks_def split: sum.splits)
  then show ?thesis using settleUnresolvedTasks_returns[of "cfg\<lparr>cf_strict := False\<rparr>" r] by auto
qed

fun node_refs :: "tasksNode \<Rightarrow> nat set" where
  "node_refs (TasksNode i k n sm d sq b is ks) = set is \<union> (\<Union>c\<in>set ks. node_refs c)"

fun node_builder_failed :: "tasksNode \<Rightarrow> bool" where
  "node_builder_failed (TasksNode i k n sm d sq b is ks) \<longleftrightarrow>
     b = Some BuilderFailed \<or> (\<exists>c\<in>set ks. node_builder_failed c)"

definition reported_states :: "runState \<Rightarrow> EntityState set" where
  "reported_states r =
     ts_State ` {t \<in> set (rn_tasks r). ts_Collection t = []} \<union>
     (\<Union>c\<in>set (rn_collections r). (\<lambda>i. ts_State (rn_tasks r ! i)) ` node_refs c)"

definition refs_ok :: "runState \<Rightarrow> bool" where
  "refs_ok r \<longleftrightarrow> (\<forall>c\<in>set (rn_collections r). \<forall>i\<in>node_refs c. i < length (rn_tasks r))"

lemma filing_of_state [simp]: "fi_state (filing_of t) = ts_State t"
  by (simp add: filing_of_def)

lemma node_container_facts:
  "cached (node_container ts c) \<and> states_beneath (node_container ts c) = (\<lambda>i. ts_State (ts ! i)) ` node_refs c
    \<and> (builder_failed (node_container ts c) \<longleftrightarrow> node_builder_failed c)"
proof (induction c)
  case (TasksNode i k n sm d sq b "is" ks)
  have "states_counted (recount fs) (mset fs)" for fs
    using state_bag.counted_recount[of fs] by (simp add: recount_def)
  then show ?case
    using TasksNode by (simp add: states_beneath_Container Let_def image_Un image_UN image_image del: mset_map)
qed

lemma node_snapshot_state: "col_State (node_snapshot ts c) = derivedState (node_container ts c)"
  by (cases c) (simp add: Let_def)

text \<open>The bad states a header can show are those beneath it, once nothing is running.\<close>

lemma header_bad_iff:
  assumes "Running \<notin> states_beneath (node_container ts c)"
  shows "derivedState (node_container ts c) \<in> {Failed, Blocked, Cancelled} \<longleftrightarrow>
    node_builder_failed c \<or> (\<lambda>i. ts_State (ts ! i)) ` node_refs c \<inter> {Failed, Blocked, Cancelled} \<noteq> {}"
proof -
  let ?g = "node_container ts c"
  have ok: "verdict_ok ?g" using node_container_facts verdict_ok_beneath by blast
  have nr: "derivedState ?g \<noteq> Running" using verdict_okD(10)[OF ok] assms by blast
  have S: "states_beneath ?g = (\<lambda>i. ts_State (ts ! i)) ` node_refs c"
    and B: "builder_failed ?g \<longleftrightarrow> node_builder_failed c" using node_container_facts by blast+
  show ?thesis
  proof (cases "builder_failed ?g")
    case True
    then show ?thesis using verdict_okD(1)[OF ok] nr B by auto
  next
    case False
    have "case worst (states_beneath ?g) of Some s \<Rightarrow> derivedState ?g = s
        | None \<Rightarrow> derivedState ?g \<in> {Done, Incomplete, Empty, NotStarted}"
      using ok False unfolding verdict_ok_def by blast
    moreover have "worst (states_beneath ?g) = None \<longleftrightarrow> states_beneath ?g \<inter> {Failed, Blocked, Cancelled} = {}"
      "\<And>s. worst (states_beneath ?g) = Some s \<Longrightarrow> s \<in> {Failed, Blocked, Cancelled}"
      using assms by (auto simp: worst_def split: if_splits)
    ultimately show ?thesis using False B S by (cases "worst (states_beneath ?g)") auto
  qed
qed

lemma conclude_exit_zero:
  "c_ExitCode (conclude cfg base r) = 0 \<longleftrightarrow>
   root_states (run_snapshot base r) \<inter> {Failed, Blocked, Cancelled} = {} \<and> rn_misuse r = None"
proof -
  let ?c = "InferConclusion (run_snapshot base r)"
  have exit0: "c_ExitCode ?c = 0 \<longleftrightarrow> root_states (run_snapshot base r) \<inter> {Failed, Blocked, Cancelled} = {}"
    by (simp add: InferConclusion_exit_code exitCodeFor_outcome outcome_InferConclusion worst_outcome_def)
  have st: "c_State ?c = StateFailed \<Longrightarrow> c_ExitCode ?c \<noteq> 0"
    by (simp add: InferConclusion_exit_code exit_codes)
  show ?thesis
    unfolding exit0[symmetric]
    using st by (auto simp: conclude_def FoldLeftoverMisuse_def ApplyFailedExitCode_def explainCancellation_def
        exit_codes split: option.splits if_splits)
qed

lemma root_states_run:
  "root_states (run_snapshot base r) = ts_State ` {t \<in> set (rn_tasks r). ts_Collection t = []} \<union>
     (\<lambda>c. derivedState (node_container (rn_tasks r) c)) ` set (rn_collections r)"
  by (auto simp: root_states_def run_snapshot_def node_snapshot_state image_iff)


text \<open>Neither sweep adds or drops a Task, moves one between containers, or leaves one running.\<close>

lemma length_stop_after [simp]: "length (stop_after_trigger b is ts) = length ts"
  by (induction b "is" ts rule: stop_after_trigger.induct) auto

lemma autoResolve_frame:
  "length (rn_tasks (autoResolveGroups r)) = length (rn_tasks r)"
  "rn_collections (autoResolveGroups r) = rn_collections r" "rn_misuse (autoResolveGroups r) = rn_misuse r"
proof -
  have "length (foldl (\<lambda>ts col. if \<not> tn_sequential col then ts else stop_after_trigger False (tn_tasks col) ts) ts cols)
      = length ts" for ts cols
    by (induction cols arbitrary: ts) auto
  then show "length (rn_tasks (autoResolveGroups r)) = length (rn_tasks r)" by (simp add: autoResolveGroups_def)
qed (simp_all add: autoResolveGroups_def)

lemma swept_not_running:
  assumes "settleUnresolvedTasks cfg r = Inr r'" "t \<in> set (rn_tasks r')"
  shows "settled_state (ts_State t)"
  using settleUnresolvedTasks_Inr[OF assms(1)] assms(2) settled_row_settled by auto

lemma reported_bad_iff:
  assumes "refs_ok r" "\<forall>t\<in>set (rn_tasks r). ts_State t \<noteq> Running"
  shows "root_states (run_snapshot base r) \<inter> {Failed, Blocked, Cancelled} = {} \<longleftrightarrow>
    reported_states r \<inter> {Failed, Blocked, Cancelled} = {} \<and> (\<forall>c\<in>set (rn_collections r). \<not> node_builder_failed c)"
proof -
  have "derivedState (node_container (rn_tasks r) c) \<in> {Failed, Blocked, Cancelled} \<longleftrightarrow>
      node_builder_failed c \<or> (\<lambda>i. ts_State (rn_tasks r ! i)) ` node_refs c \<inter> {Failed, Blocked, Cancelled} \<noteq> {}"
    if c: "c \<in> set (rn_collections r)" for c
  proof (rule header_bad_iff)
    have "\<forall>i\<in>node_refs c. ts_State (rn_tasks r ! i) \<noteq> Running"
      using assms c by (auto simp: refs_ok_def)
    then show "Running \<notin> states_beneath (node_container (rn_tasks r) c)"
      using node_container_facts by auto
  qed
  note heads = this
  show ?thesis
    unfolding root_states_run reported_states_def Int_Un_distrib2 Un_empty
    using heads by (fastforce simp: disjoint_iff)
qed

text \<open>
  Property (C8): a finished run exits 0 exactly when no Task, at the root or at any depth of a
  container, is Failed, Blocked or Cancelled, no container's builder failed and no misuse was
  recorded, whatever exit code is configured for failures.
\<close>

theorem finish_exit_zero_iff:
  assumes "finish_run cfg base r = Inr (c, r')" "refs_ok r"
  shows "c_ExitCode c = 0 \<longleftrightarrow>
    reported_states r' \<inter> {Failed, Blocked, Cancelled} = {} \<and>
    (\<forall>n\<in>set (rn_collections r'). \<not> node_builder_failed n) \<and> rn_misuse r' = None"
proof -
  have s: "settleUnresolvedTasks cfg (autoResolveGroups r) = Inr r'" and c: "c = conclude cfg base r'"
    using assms(1) by (auto simp: finish_run_def split: sum.splits)
  have len: "length (rn_tasks r') = length (rn_tasks r)" "rn_collections r' = rn_collections r"
    using settleUnresolvedTasks_Inr[OF s] autoResolve_frame[of r] by simp_all
  then have refs: "refs_ok r'" using assms(2) by (simp add: refs_ok_def)
  have "\<forall>t\<in>set (rn_tasks r'). ts_State t \<noteq> Running"
    using swept_not_running[OF s] by (fastforce simp: settled_state_def)
  from reported_bad_iff[OF refs this] show ?thesis
    unfolding c conclude_exit_zero by simp
qed

definition wit_group :: "EntityState list \<Rightarrow> runState" where
  "wit_group ss = (wit_run ss)\<lparr>rn_tasks := map (\<lambda>s. (wit_task s ''t'')\<lparr>ts_Collection := ''g''\<rparr>) ss,
     rn_collections := [TasksNode ''g'' ''g'' ''g'' [] 1 False None []
       [TasksNode ''h'' ''h'' ''h'' [] 2 True None [0..<length ss] []]]\<rparr>"

definition wit_base :: Snapshot where
  "wit_base = \<lparr>s_Subject = ''run'', s_Tasks = [], s_Collections = [], s_Changes = [], s_Plans = [],
     s_Actions = [], s_DryRun = False, s_Warnings = [], s_Facts = []\<rparr>"

text \<open>A failure in a nested Sequence, and a clean nested Sequence with a forgotten Task.\<close>

theorem finish_exit_zero_iff_witness:
  "(\<exists>c r'. finish_run wit_config wit_base (wit_group [Done, Failed, Pending]) = Inr (c, r') \<and> c_ExitCode c \<noteq> 0)
   \<and> (\<exists>c r'. finish_run wit_config wit_base (wit_group [Done, Pending]) = Inr (c, r') \<and> c_ExitCode c = 0)"
proof
  have refs: "refs_ok (wit_group ss)" for ss by (auto simp: refs_ok_def wit_group_def)
  have nost: "\<not> cf_strict wit_config" by (simp add: wit_config_def)
  have auto_id: "autoResolveGroups (wit_group ss) = wit_group ss" for ss
    by (simp add: autoResolveGroups_def wit_group_def)
  note simps = wit_group_def wit_run_def wit_task_def abnormalFinish_def cut_short_def told_its_story_def
    hasRecordedEffect_def hasSealedProgress_def hasRecordedTaxonomy_def settled_row_def settle_row_def
    honestOutcome_def declaresSuccess_def attachUnresolvedTaskHint_def resolveUnstartedTask_def
  obtain r1 where s1: "settleUnresolvedTasks wit_config (wit_group [Done, Failed, Pending]) = Inr r1"
    using settleUnresolvedTasks_returns[OF nost] by blast
  then have f1: "finish_run wit_config wit_base (wit_group [Done, Failed, Pending]) = Inr (conclude wit_config wit_base r1, r1)"
    by (simp add: finish_run_def auto_id)
  from settleUnresolvedTasks_Inr[OF s1]
  have "Failed \<in> reported_states r1" by (simp add: reported_states_def simps)
  then show "\<exists>c r'. finish_run wit_config wit_base (wit_group [Done, Failed, Pending]) = Inr (c, r') \<and> c_ExitCode c \<noteq> 0"
    using finish_exit_zero_iff[OF f1 refs] f1 by auto
  obtain r' where s: "settleUnresolvedTasks wit_config (wit_group [Done, Pending]) = Inr r'"
    using settleUnresolvedTasks_returns[OF nost] by blast
  then have f: "finish_run wit_config wit_base (wit_group [Done, Pending]) = Inr (conclude wit_config wit_base r', r')"
    by (simp add: finish_run_def auto_id)
  from settleUnresolvedTasks_Inr[OF s]
  have "reported_states r' = {Done, Incomplete}" "rn_misuse r' = None"
    "\<forall>n\<in>set (rn_collections r'). \<not> node_builder_failed n"
    by (auto simp: reported_states_def simps)
  then show "\<exists>c r'. finish_run wit_config wit_base (wit_group [Done, Pending]) = Inr (c, r') \<and> c_ExitCode c = 0"
    using finish_exit_zero_iff[OF f refs] f by auto
qed


text \<open>Nothing failed or was cancelled: no Sequence is stopped, and the sweep cancels nothing.\<close>

lemma stop_after_untriggered:
  assumes "\<forall>i\<in>set is. i < length ts" "\<not> abnormalFinish ts"
  shows "stop_after_trigger False is ts = ts"
proof -
  have "\<not> (ts_State (ts ! i) = Failed \<or> ts_State (ts ! i) = Cancelled)" if "i \<in> set is" for i
    using assms that unfolding abnormalFinish_def list_ex_iff by (meson nth_mem)
  then show ?thesis by (induction "is") auto
qed

lemma node_tasks_refs: "set (tn_tasks c) \<subseteq> node_refs c"
  by (cases c) auto

lemma autoResolve_clean:
  assumes "refs_ok r" "\<not> abnormalFinish (rn_tasks r)"
  shows "autoResolveGroups r = r"
proof -
  have "foldl (\<lambda>ts col. if \<not> tn_sequential col then ts else stop_after_trigger False (tn_tasks col) ts)
      (rn_tasks r) cols = rn_tasks r" if "set cols \<subseteq> set (rn_collections r)" for cols
    using that
  proof (induction cols)
    case (Cons c cols)
    have "\<forall>i\<in>set (tn_tasks c). i < length (rn_tasks r)"
      using assms(1) Cons.prems node_tasks_refs[of c] by (auto simp: refs_ok_def)
    then show ?case using Cons stop_after_untriggered[OF _ assms(2)] by simp
  qed simp
  then show ?thesis by (simp add: autoResolveGroups_def)
qed

text \<open>
  When no Task had failed or been cancelled before, finishing records no misuse,
  cancels and stops nothing, and never concludes Cancelled: a forgotten verb costs the run at most an
  Incomplete row.
\<close>

theorem clean_finish_never_cancels:
  assumes "finish_run cfg base r = Inr (c, r')" "refs_ok r" "\<not> abnormalFinish (rn_tasks r)"
    and "\<forall>n\<in>set (rn_collections r). \<not> node_builder_failed n"
  shows "c_State c \<noteq> StateCancelled \<and> rn_misuse r' = rn_misuse r \<and>
    list_all2 (\<lambda>t t'. ts_State t' \<in> {ts_State t, Done, Failed, Incomplete}) (rn_tasks r) (rn_tasks r')"
proof -
  have s: "settleUnresolvedTasks cfg r = Inr r'" and c: "c = conclude cfg base r'"
    using assms(1) autoResolve_clean[OF assms(2,3)] by (auto simp: finish_run_def split: sum.splits)
  have rows: "rn_tasks r' = map (settled_row r False) (rn_tasks r)" and mis: "rn_misuse r' = rn_misuse r"
    and cols: "rn_collections r' = rn_collections r"
    using settleUnresolvedTasks_Inr[OF s] assms(3) by (simp_all add: cut_short_def)
  have all2: "list_all2 (\<lambda>t t'. ts_State t' \<in> {ts_State t, Done, Failed, Incomplete}) (rn_tasks r) (rn_tasks r')"
    unfolding rows list_all2_map2 by (simp add: list_all2_same settled_row_state)
  have "\<forall>t\<in>set (rn_tasks r). ts_State t \<noteq> Cancelled"
    using assms(3) by (auto simp: abnormalFinish_def list_ex_iff)
  then have nc: "\<forall>t\<in>set (rn_tasks r'). ts_State t \<noteq> Cancelled"
    by (auto simp: rows settled_row_state split: if_splits)
  have refs: "refs_ok r'" using assms(2) by (simp add: refs_ok_def rows cols)
  have "derivedState (node_container (rn_tasks r') n) \<noteq> Cancelled" if n: "n \<in> set (rn_collections r')" for n
  proof -
    let ?g = "node_container (rn_tasks r') n"
    note facts = node_container_facts[of "rn_tasks r'" n]
    have ok: "verdict_ok ?g" using facts verdict_ok_beneath by blast
    have nb: "\<not> builder_failed ?g" using facts assms(4) n cols by simp
    have "states_beneath ?g = (\<lambda>i. ts_State (rn_tasks r' ! i)) ` node_refs n"
      using node_container_facts by blast
    moreover have "\<forall>i\<in>node_refs n. ts_State (rn_tasks r' ! i) \<noteq> Cancelled"
      using refs n nc by (auto simp: refs_ok_def)
    ultimately have "Cancelled \<notin> states_beneath ?g" by auto
    then have "worst (states_beneath ?g) \<noteq> Some Cancelled" by (simp add: worst_def)
    moreover have "case worst (states_beneath ?g) of Some s \<Rightarrow> derivedState ?g = s
        | None \<Rightarrow> derivedState ?g \<in> {Done, Incomplete, Empty, NotStarted}"
      using ok nb unfolding verdict_ok_def by blast
    ultimately show ?thesis by (cases "worst (states_beneath ?g)") auto
  qed
  then have root: "Cancelled \<notin> root_states (run_snapshot base r')"
    unfolding root_states_run using nc by fastforce
  have "worst_outcome (root_states (run_snapshot base r')) \<noteq> OutCancelled"
    using root by (simp add: worst_outcome_def)
  then have "c_State (InferConclusion (run_snapshot base r')) \<noteq> StateCancelled"
    using outcome_InferConclusion[of "run_snapshot base r'"] by auto
  then have "c_State c \<noteq> StateCancelled"
    by (auto simp: c conclude_def FoldLeftoverMisuse_def ApplyFailedExitCode_def explainCancellation_def)
  then show ?thesis using mis all2 by blast
qed

theorem clean_finish_never_cancels_witness:
  "\<exists>c r'. finish_run wit_config wit_base (wit_group [Done, Running]) = Inr (c, r') \<and>
     c_State c \<noteq> StateCancelled \<and> map ts_State (rn_tasks r') = [Done, Incomplete]"
proof -
  have nost: "\<not> cf_strict wit_config" by (simp add: wit_config_def)
  have refs: "refs_ok (wit_group [Done, Running])" by (auto simp: refs_ok_def wit_group_def)
  have ab: "\<not> abnormalFinish (rn_tasks (wit_group [Done, Running]))"
    by (simp add: abnormalFinish_def wit_group_def wit_task_def)
  have nb: "\<forall>n\<in>set (rn_collections (wit_group [Done, Running])). \<not> node_builder_failed n"
    by (simp add: wit_group_def)
  obtain r' where s: "settleUnresolvedTasks wit_config (wit_group [Done, Running]) = Inr r'"
    using settleUnresolvedTasks_returns[OF nost] by blast
  have f: "finish_run wit_config wit_base (wit_group [Done, Running]) = Inr (conclude wit_config wit_base r', r')"
    by (simp add: finish_run_def autoResolve_clean[OF refs ab] s)
  have "map ts_State (rn_tasks r') = [Done, Incomplete]"
    using settleUnresolvedTasks_Inr[OF s] ab
    by (simp add: wit_group_def settled_row_state wit_task_def told_its_story_def
        hasRecordedEffect_def hasSealedProgress_def hasRecordedTaxonomy_def wit_run_def)
  then show ?thesis
    using clean_finish_never_cancels[OF f refs ab nb] f
    by (intro exI[of _ "conclude wit_config wit_base r'"] exI[of _ r']) simp
qed

end
