(* ===== verification/Find_Walk.thy ===== *)
theory Find_Walk
  imports Publish_Recover "HOL-Library.Multiset" "HOL-Library.List_Lexorder" "HOL-Library.Char_ord"
begin

text \<open>
  The bounded-parallel search for files by base name (\<open>internal/find/walk.go\<close>). Each worker loops over
  \<open>next\<close> and \<open>read\<close>; the part of a loop it runs under the mutex is one step, reading a directory is
  another, and a worker waiting on the condition variable sleeps until some step broadcasts. What
  \<open>Source.ReadDir\<close> answers is a parameter: no directory is read twice, so it may change between reads.
  Any number of workers, in any order, find what one worker reading the same answers would.
\<close>

subsection \<open>The search\<close>

datatype fs_error = ErrNotExist | ErrOther nat

datatype find_error = ErrContext | ErrNotDirectory | ErrLstat fs_error | ErrReadDir gostring fs_error

datatype entryKind = EntryDir | EntryRegular | EntryOther

record dirEntry =
  de_Name :: gostring
  de_Type :: entryKind

type_synonym source = "gostring \<Rightarrow> fs_error + dirEntry list"

record search =
  se_root :: gostring
  se_display :: gostring
  se_want :: "gostring set"

definition toSet :: "gostring list \<Rightarrow> gostring set" where
  "toSet names = set (filter (\<lambda>n. n \<noteq> []) names)"

text \<open>\<open>filepath.Join\<close> of three elements: leading empty ones are skipped, the rest is cleaned.\<close>

definition Join3 :: "gostring \<Rightarrow> gostring \<Rightarrow> gostring \<Rightarrow> gostring" where
  "Join3 a b c = (if a \<noteq> [] then Clean (a @ ''/'' @ b @ ''/'' @ c) else Join b c)"

fun read_entries :: "search \<Rightarrow> gostring \<Rightarrow> dirEntry list \<Rightarrow> gostring list \<times> gostring list \<Rightarrow> gostring list \<times> gostring list" where
  "read_entries s rel [] (subdirs, found) = (subdirs, found)"
| "read_entries s rel (e # rest) (subdirs, found) =
     (if IsStaging (de_Name e) then read_entries s rel rest (subdirs, found)
      else if de_Type e = EntryDir then read_entries s rel rest (subdirs @ [Join rel (de_Name e)], found)
      else if de_Type e = EntryRegular \<and> de_Name e \<in> se_want s
        then read_entries s rel rest (subdirs, found @ [Join3 (se_display s) rel (de_Name e)])
      else read_entries s rel rest (subdirs, found))"

text \<open>A directory removed before it is read holds nothing; the root must exist.\<close>

definition read_dir :: "search \<Rightarrow> source \<Rightarrow> gostring \<Rightarrow> find_error + (gostring list \<times> gostring list)" where
  "read_dir s src rel =
     (case src (Join (se_root s) rel) of
        Inl err \<Rightarrow>
          if err = ErrNotExist \<and> rel \<noteq> [] then Inr ([], [])
          else Inl (ErrReadDir (Join (se_display s) rel) err)
      | Inr entries \<Rightarrow> Inr (read_entries s rel entries ([], [])))"

record searchState =
  ss_queue :: "gostring list"
  ss_active :: int
  ss_failed :: "find_error option"
  ss_matches :: "gostring list"

datatype nextStep = NextStop | NextTake gostring | NextWait

text \<open>One pass of the loop in \<open>next\<close>; when nothing is active either, its broadcast and return.\<close>

definition next_step :: "bool \<Rightarrow> searchState \<Rightarrow> nextStep \<times> searchState" where
  "next_step cancelled s =
     (if ss_failed s \<noteq> None \<or> cancelled then (NextStop, s)
      else if length (ss_queue s) > 0
        then (NextTake (last (ss_queue s)), s\<lparr>ss_queue := butlast (ss_queue s), ss_active := ss_active s + 1\<rparr>)
      else if ss_active s = 0 then (NextStop, s)
      else (NextWait, s))"

definition record_read :: "find_error + (gostring list \<times> gostring list) \<Rightarrow> searchState \<Rightarrow> searchState" where
  "record_read result s =
     (let s = s\<lparr>ss_active := ss_active s - 1\<rparr> in
      case result of
        Inl err \<Rightarrow> if ss_failed s = None then s\<lparr>ss_failed := Some err\<rparr> else s
      | Inr (subdirs, found) \<Rightarrow> s\<lparr>ss_queue := ss_queue s @ subdirs, ss_matches := ss_matches s @ found\<rparr>)"

subsection \<open>The workers\<close>

datatype worker = Ready | Asleep | Reading gostring | Returned

record searchRun =
  sr_state :: searchState
  sr_workers :: "worker list"
  sr_cancelled :: bool
  sr_notify :: bool

definition broadcast :: "worker list \<Rightarrow> worker list" where
  "broadcast ws = map (\<lambda>w. if w = Asleep then Ready else w) ws"

definition worker_next :: "searchRun \<Rightarrow> nat \<Rightarrow> searchRun" where
  "worker_next r i =
     (let (step, s) = next_step (sr_cancelled r) (sr_state r); ws = sr_workers r in
      case step of
        NextTake dir \<Rightarrow> r\<lparr>sr_state := s, sr_workers := ws[i := Reading dir]\<rparr>
      | NextWait \<Rightarrow> r\<lparr>sr_state := s, sr_workers := ws[i := Asleep]\<rparr>
      | NextStop \<Rightarrow>
          r\<lparr>sr_state := s,
            sr_workers := (if ss_failed s = None \<and> \<not> sr_cancelled r then broadcast ws else ws)[i := Returned]\<rparr>)"

definition worker_read :: "search \<Rightarrow> source \<Rightarrow> searchRun \<Rightarrow> nat \<Rightarrow> gostring \<Rightarrow> searchRun" where
  "worker_read s src r i dir =
     r\<lparr>sr_state := record_read (read_dir s src dir) (sr_state r), sr_workers := (broadcast (sr_workers r))[i := Ready]\<rparr>"

text \<open>\<open>step_notify\<close> is the function \<open>context.AfterFunc\<close> runs, some time after the cancellation.\<close>

inductive worker_step :: "search \<Rightarrow> source \<Rightarrow> searchRun \<Rightarrow> searchRun \<Rightarrow> bool" for s src where
  step_next: "i < length (sr_workers r) \<Longrightarrow> sr_workers r ! i = Ready \<Longrightarrow> worker_step s src r (worker_next r i)"
| step_read: "i < length (sr_workers r) \<Longrightarrow> sr_workers r ! i = Reading dir \<Longrightarrow> worker_step s src r (worker_read s src r i dir)"

inductive search_step :: "search \<Rightarrow> source \<Rightarrow> searchRun \<Rightarrow> searchRun \<Rightarrow> bool" for s src where
  step_worker: "worker_step s src r r' \<Longrightarrow> search_step s src r r'"
| step_cancel: "\<not> sr_cancelled r \<Longrightarrow> search_step s src r (r\<lparr>sr_cancelled := True, sr_notify := True\<rparr>)"
| step_notify: "sr_notify r \<Longrightarrow> search_step s src r (r\<lparr>sr_notify := False, sr_workers := broadcast (sr_workers r)\<rparr>)"

definition DefaultWorkers :: int where "DefaultWorkers = 16"

definition search_start :: "int \<Rightarrow> searchRun" where
  "search_start workers =
     \<lparr>sr_state = \<lparr>ss_queue = [ [] ], ss_active = 0, ss_failed = None, ss_matches = []\<rparr>,
      sr_workers = replicate (nat (if workers \<le> 0 then DefaultWorkers else workers)) Ready,
      sr_cancelled = False, sr_notify = False\<rparr>"

text \<open>What \<open>run\<close> returns after every worker has.\<close>

definition search_result :: "searchRun \<Rightarrow> find_error + gostring list" where
  "search_result r =
     (case ss_failed (sr_state r) of
        Some err \<Rightarrow> Inl err
      | None \<Rightarrow> if sr_cancelled r then Inl ErrContext else Inr (sort (ss_matches (sr_state r))))"

text \<open>\<open>Search\<close> before it starts the workers: the context, and what \<open>Lstat\<close> says of the root.\<close>

definition search_refused :: "bool \<Rightarrow> fs_error + bool \<Rightarrow> find_error option" where
  "search_refused cancelled lstat =
     (if cancelled then Some ErrContext
      else case lstat of
             Inl err \<Rightarrow> Some (ErrLstat err)
           | Inr is_dir \<Rightarrow> if \<not> is_dir then Some ErrNotDirectory else None)"

definition returned :: "searchRun \<Rightarrow> bool" where
  "returned r \<longleftrightarrow> list_all (\<lambda>w. w = Returned) (sr_workers r)"

subsection \<open>One worker reading the same tree\<close>

definition subdirs_of :: "search \<Rightarrow> source \<Rightarrow> gostring \<Rightarrow> gostring list" where
  "subdirs_of s src rel = (case read_dir s src rel of Inl _ \<Rightarrow> [] | Inr (subdirs, _) \<Rightarrow> subdirs)"

definition found_in :: "search \<Rightarrow> source \<Rightarrow> gostring \<Rightarrow> gostring list" where
  "found_in s src rel = (case read_dir s src rel of Inl _ \<Rightarrow> [] | Inr (_, found) \<Rightarrow> found)"

definition readable :: "search \<Rightarrow> source \<Rightarrow> gostring \<Rightarrow> bool" where
  "readable s src rel \<longleftrightarrow> is_ok (read_dir s src rel)"

text \<open>The directories below \<open>rel\<close>, itself first; a tree of files is no deeper than its rank.\<close>

fun dirs_below :: "search \<Rightarrow> source \<Rightarrow> nat \<Rightarrow> gostring \<Rightarrow> gostring list" where
  "dirs_below s src 0 rel = []"
| "dirs_below s src (Suc n) rel = rel # concat (map (dirs_below s src n) (subdirs_of s src rel))"

inductive beneath :: "search \<Rightarrow> source \<Rightarrow> gostring \<Rightarrow> bool" for s src where
  beneath_root: "beneath s src []"
| beneath_sub: "beneath s src rel \<Longrightarrow> d \<in> set (subdirs_of s src rel) \<Longrightarrow> beneath s src d"

definition tree_ranked :: "search \<Rightarrow> source \<Rightarrow> (gostring \<Rightarrow> nat) \<Rightarrow> bool" where
  "tree_ranked s src rank \<longleftrightarrow>
     (\<forall>rel. beneath s src rel \<longrightarrow> (\<forall>d\<in>set (subdirs_of s src rel). rank d < rank rel))"

lemma dirs_below_enough:
  assumes "tree_ranked s src rank"
  shows "beneath s src rel \<Longrightarrow> rank rel < n \<Longrightarrow> rank rel < m \<Longrightarrow> dirs_below s src n rel = dirs_below s src m rel"
proof (induction n arbitrary: m rel)
  case (Suc n)
  obtain k where m: "m = Suc k" using Suc.prems(3) by (cases m) auto
  have "dirs_below s src n d = dirs_below s src k d" if "d \<in> set (subdirs_of s src rel)" for d
  proof -
    have "rank d < rank rel" "beneath s src d"
      using assms that Suc.prems(1) beneath_sub by (auto simp: tree_ranked_def)
    then show ?thesis using Suc.IH [of d k] Suc.prems m by linarith
  qed
  then show ?case by (simp add: m cong: map_cong)
qed simp

definition dirs_from :: "search \<Rightarrow> source \<Rightarrow> (gostring \<Rightarrow> nat) \<Rightarrow> gostring \<Rightarrow> gostring list" where
  "dirs_from s src rank rel = dirs_below s src (Suc (rank rel)) rel"

lemma dirs_from_step:
  assumes "tree_ranked s src rank" "beneath s src rel"
  shows "dirs_from s src rank rel = rel # concat (map (dirs_from s src rank) (subdirs_of s src rel))"
proof -
  have "dirs_below s src (rank rel) d = dirs_from s src rank d" if "d \<in> set (subdirs_of s src rel)" for d
    unfolding dirs_from_def
    by (rule dirs_below_enough [OF assms(1)]) (use assms that beneath_sub in \<open>auto simp: tree_ranked_def\<close>)
  then show ?thesis by (simp add: dirs_from_def [of s src rank rel] cong: map_cong)
qed

subsection \<open>What is left to do\<close>

definition reading_of :: "worker \<Rightarrow> gostring multiset" where
  "reading_of w = (case w of Reading d \<Rightarrow> {#d#} | _ \<Rightarrow> {#})"

definition reading :: "worker list \<Rightarrow> gostring multiset" where
  "reading ws = (\<Sum>w\<in>#mset ws. reading_of w)"

lemma reading_of_simps [simp]:
  "reading_of (Reading d) = {#d#}" "reading_of Ready = {#}" "reading_of Asleep = {#}" "reading_of Returned = {#}"
  by (simp_all add: reading_of_def)

lemma reading_update: "i < length ws \<Longrightarrow> reading (ws[i := w]) + reading_of (ws ! i) = reading ws + reading_of w"
proof (induction ws arbitrary: i)
  case (Cons v ws)
  then show ?case by (cases i) (auto simp: reading_def)
qed simp

lemma reading_broadcast [simp]: "reading (broadcast ws) = reading ws"
  by (induction ws) (auto simp: reading_def broadcast_def)

lemma length_broadcast [simp]: "length (broadcast ws) = length ws"
  by (simp add: broadcast_def)

lemma broadcast_nth: "i < length ws \<Longrightarrow> ws ! i \<noteq> Asleep \<Longrightarrow> broadcast ws ! i = ws ! i"
  by (simp add: broadcast_def)

lemma broadcast_mem: "Asleep \<notin> set (broadcast ws)" "w \<noteq> Asleep \<Longrightarrow> w \<noteq> Ready \<Longrightarrow> w \<in> set (broadcast ws) \<longleftrightarrow> w \<in> set ws"
  by (auto simp: broadcast_def image_iff)

definition pending :: "searchRun \<Rightarrow> gostring multiset" where
  "pending r = mset (ss_queue (sr_state r)) + reading (sr_workers r)"

definition files_from :: "search \<Rightarrow> source \<Rightarrow> (gostring \<Rightarrow> nat) \<Rightarrow> gostring \<Rightarrow> gostring multiset" where
  "files_from s src rank rel = mset (concat (map (found_in s src) (dirs_from s src rank rel)))"

definition all_readable :: "search \<Rightarrow> source \<Rightarrow> (gostring \<Rightarrow> nat) \<Rightarrow> gostring \<Rightarrow> bool" where
  "all_readable s src rank rel \<longleftrightarrow> list_all (readable s src) (dirs_from s src rank rel)"

lemma concat_map_mset: "mset (concat (map f xs)) = (\<Sum>x\<in>#mset xs. mset (f x))"
  by (induction xs) auto

lemma tree_steps:
  assumes "tree_ranked s src rank" "beneath s src rel"
  shows "files_from s src rank rel = mset (found_in s src rel) + (\<Sum>d\<in>#mset (subdirs_of s src rel). files_from s src rank d)"
    "all_readable s src rank rel \<longleftrightarrow> readable s src rel \<and> (\<forall>d\<in>set (subdirs_of s src rel). all_readable s src rank d)"
    "length (dirs_from s src rank rel) = 1 + (\<Sum>d\<in>#mset (subdirs_of s src rel). length (dirs_from s src rank d))"
proof -
  note step = dirs_from_step [OF assms]
  show "files_from s src rank rel = mset (found_in s src rel) + (\<Sum>d\<in>#mset (subdirs_of s src rel). files_from s src rank d)"
  proof -
    have "mset (concat (map f (concat (map g xs)))) = (\<Sum>x\<in>#mset xs. mset (concat (map f (g x))))"
      for f :: "gostring \<Rightarrow> gostring list" and g :: "gostring \<Rightarrow> gostring list" and xs
      by (induction xs) auto
    then show ?thesis unfolding files_from_def step by simp
  qed
  show "all_readable s src rank rel \<longleftrightarrow> readable s src rel \<and> (\<forall>d\<in>set (subdirs_of s src rel). all_readable s src rank d)"
    unfolding all_readable_def step by (auto simp: list_all_iff)
  have "length (concat (map f xs)) = (\<Sum>x\<in>#mset xs. length (f x))" for f :: "gostring \<Rightarrow> gostring list" and xs
    by (induction xs) auto
  then show "length (dirs_from s src rank rel) = 1 + (\<Sum>d\<in>#mset (subdirs_of s src rel). length (dirs_from s src rank d))"
    unfolding step by simp
qed

definition search_inv :: "search \<Rightarrow> source \<Rightarrow> (gostring \<Rightarrow> nat) \<Rightarrow> searchRun \<Rightarrow> bool" where
  "search_inv s src rank r \<longleftrightarrow>
     ss_active (sr_state r) = int (size (reading (sr_workers r))) \<and>
     (\<forall>p\<in>#pending r. beneath s src p \<and> set (dirs_from s src rank p) \<subseteq> set (dirs_from s src rank [])) \<and>
     (case ss_failed (sr_state r) of
        None \<Rightarrow> (all_readable s src rank [] \<longleftrightarrow> (\<forall>p\<in>#pending r. all_readable s src rank p))
          \<and> mset (ss_matches (sr_state r)) + (\<Sum>p\<in>#pending r. files_from s src rank p) = files_from s src rank []
      | Some err \<Rightarrow> \<exists>d\<in>set (dirs_from s src rank []). read_dir s src d = Inl err) \<and>
     (Asleep \<in> set (sr_workers r) \<longrightarrow> reading (sr_workers r) \<noteq> {#}) \<and> (sr_notify r \<longrightarrow> sr_cancelled r) \<and>
     (Returned \<in> set (sr_workers r) \<longrightarrow> ss_failed (sr_state r) \<noteq> None \<or> sr_cancelled r \<or> pending r = {#})"

lemma start_inv: "search_inv s src rank (search_start n)"
proof -
  have "reading (replicate k Ready) = {#}" for k by (induction k) (auto simp: reading_def)
  then show ?thesis by (auto simp: search_inv_def search_start_def pending_def set_replicate_conv_if beneath_root)
qed

lemma next_inv:
  assumes inv: "search_inv s src rank r" and i: "i < length (sr_workers r)" "sr_workers r ! i = Ready"
  shows "search_inv s src rank (worker_next r i)"
proof -
  let ?st = "sr_state r" and ?ws = "sr_workers r"
  consider (stop) "ss_failed ?st \<noteq> None \<or> sr_cancelled r"
    | (take) "ss_failed ?st = None" "\<not> sr_cancelled r" "ss_queue ?st \<noteq> []"
    | (finish) "ss_failed ?st = None" "\<not> sr_cancelled r" "ss_queue ?st = []" "ss_active ?st = 0"
    | (wait) "ss_failed ?st = None" "\<not> sr_cancelled r" "ss_queue ?st = []" "ss_active ?st \<noteq> 0"
    by blast
  then show ?thesis
  proof cases
    case stop
    then have "worker_next r i = r\<lparr>sr_workers := ?ws[i := Returned]\<rparr>" by (auto simp: worker_next_def next_step_def)
    moreover have "reading (?ws[i := Returned]) = reading ?ws" using reading_update [OF i(1), of Returned] i(2) by simp
    moreover have "Asleep \<in> set (?ws[i := Returned]) \<longrightarrow> Asleep \<in> set ?ws"
      using set_update_subset_insert [of ?ws i Returned] by auto
    ultimately show ?thesis using inv stop by (simp add: search_inv_def pending_def cong: option.case_cong) blast
  next
    case take
    let ?q = "ss_queue ?st"
    have next_r: "worker_next r i = r\<lparr>sr_state := ?st\<lparr>ss_queue := butlast ?q, ss_active := ss_active ?st + 1\<rparr>,
        sr_workers := ?ws[i := Reading (last ?q)]\<rparr>"
      using take by (auto simp: worker_next_def next_step_def)
    have read: "reading (?ws[i := Reading (last ?q)]) = add_mset (last ?q) (reading ?ws)"
      using reading_update [OF i(1), of "Reading (last ?q)"] i(2) by simp
    have "mset ?q = add_mset (last ?q) (mset (butlast ?q))"
      using append_butlast_last_id [OF take(3)] by (metis mset_append add_mset_add_single mset.simps)
    then have pend: "pending (worker_next r i) = pending r" by (simp add: pending_def next_r read)
    have "Returned \<in> set (?ws[i := Reading (last ?q)]) \<Longrightarrow> Returned \<in> set ?ws"
      using set_update_subset_insert [of ?ws i "Reading (last ?q)"] by auto
    then have "Returned \<in> set (sr_workers (worker_next r i)) \<Longrightarrow> pending r = {#}"
      using inv take by (auto simp: search_inv_def next_r)
    then show ?thesis using inv take unfolding search_inv_def pend by (simp add: next_r read)
  next
    case finish
    then have next_r: "worker_next r i = r\<lparr>sr_workers := (broadcast ?ws)[i := Returned]\<rparr>"
      by (simp add: worker_next_def next_step_def)
    have read: "reading ((broadcast ?ws)[i := Returned]) = reading ?ws"
      using reading_update [of i "broadcast ?ws" Returned] i broadcast_nth [OF i(1)] by simp
    moreover have "reading ?ws = {#}" using inv finish by (simp add: search_inv_def)
    moreover have "Asleep \<notin> set ((broadcast ?ws)[i := Returned])"
      using set_update_subset_insert [of "broadcast ?ws" i Returned] broadcast_mem(1) by auto
    ultimately show ?thesis using inv finish by (simp add: search_inv_def pending_def next_r)
  next
    case wait
    then have next_r: "worker_next r i = r\<lparr>sr_workers := ?ws[i := Asleep]\<rparr>"
      by (simp add: worker_next_def next_step_def)
    have read: "reading (?ws[i := Asleep]) = reading ?ws" using reading_update [OF i(1), of Asleep] i(2) by simp
    have "Returned \<in> set (?ws[i := Asleep]) \<longrightarrow> Returned \<in> set ?ws"
      using set_update_subset_insert [of ?ws i Asleep] by auto
    moreover have "reading ?ws \<noteq> {#}" using inv wait by (auto simp: search_inv_def)
    ultimately show ?thesis
      using inv by (simp add: search_inv_def pending_def next_r read cong: option.case_cong)
  qed
qed

lemma read_inv:
  assumes ranked: "tree_ranked s src rank" and inv: "search_inv s src rank r"
    and i: "i < length (sr_workers r)" "sr_workers r ! i = Reading dir"
  shows "search_inv s src rank (worker_read s src r i dir)"
proof -
  let ?st = "sr_state r" and ?ws = "sr_workers r" and ?r = "worker_read s src r i dir"
  define P where "P = mset (ss_queue ?st) + reading ((broadcast ?ws)[i := Ready])"
  have read: "reading ?ws = add_mset dir (reading ((broadcast ?ws)[i := Ready]))"
    using reading_update [of i "broadcast ?ws" Ready] i broadcast_nth [OF i(1)] by simp
  then have pend: "pending r = add_mset dir P" by (simp add: pending_def P_def)
  have workers: "sr_workers ?r = (broadcast ?ws)[i := Ready]" by (simp add: worker_read_def)
  have "Asleep \<notin> set (sr_workers ?r)"
    using set_update_subset_insert [of "broadcast ?ws" i Ready] broadcast_mem(1) by (auto simp: workers)
  moreover have "Returned \<in> set (sr_workers ?r) \<Longrightarrow> Returned \<in> set ?ws"
    using set_update_subset_insert [of "broadcast ?ws" i Ready] broadcast_mem(2) [of Returned] by (auto simp: workers)
  then have returned: "Returned \<in> set (sr_workers ?r) \<longrightarrow> ss_failed ?st \<noteq> None \<or> sr_cancelled r"
    using inv pend by (auto simp: search_inv_def)
  have active: "ss_active ?st - 1 = int (size (reading (sr_workers ?r)))"
    using inv by (simp add: search_inv_def read workers)
  have below: "set (dirs_from s src rank dir) \<subseteq> set (dirs_from s src rank [])" "beneath s src dir"
    "\<forall>p\<in>#P. beneath s src p \<and> set (dirs_from s src rank p) \<subseteq> set (dirs_from s src rank [])"
    using inv by (auto simp: search_inv_def pend)
  note steps = tree_steps [OF ranked below(2)] and from_dir = dirs_from_step [OF ranked below(2)]
  show ?thesis
  proof (cases "read_dir s src dir")
    case (Inl err)
    have "pending ?r = P" "sr_cancelled ?r = sr_cancelled r" "sr_notify ?r = sr_notify r"
      "ss_failed (sr_state ?r) = Some (case ss_failed ?st of None \<Rightarrow> err | Some e \<Rightarrow> e)"
      "ss_active (sr_state ?r) = ss_active ?st - 1"
      by (auto simp: pending_def P_def worker_read_def record_read_def Inl Let_def split: option.split)
    moreover have "\<exists>d\<in>set (dirs_from s src rank []). read_dir s src d = Inl (case ss_failed ?st of None \<Rightarrow> err | Some e \<Rightarrow> e)"
      using inv Inl below(1) from_dir by (auto simp: search_inv_def split: option.splits)
    ultimately show ?thesis
      using active below(3) \<open>Asleep \<notin> set (sr_workers ?r)\<close> inv by (simp add: search_inv_def)
  next
    case (Inr res)
    obtain subs found where res: "res = (subs, found)" by force
    have here: "subdirs_of s src dir = subs" "found_in s src dir = found" "readable s src dir"
      by (simp_all add: subdirs_of_def found_in_def readable_def Inr res)
    have new: "pending ?r = P + mset subs" "sr_cancelled ?r = sr_cancelled r" "sr_notify ?r = sr_notify r" "ss_failed (sr_state ?r) = ss_failed ?st"
      "ss_active (sr_state ?r) = ss_active ?st - 1" "ss_matches (sr_state ?r) = ss_matches ?st @ found"
      by (auto simp: pending_def P_def worker_read_def record_read_def Inr res Let_def)
    have "\<forall>p\<in>#pending ?r. beneath s src p \<and> set (dirs_from s src rank p) \<subseteq> set (dirs_from s src rank [])"
      using below from_dir beneath_sub [OF below(2)] by (auto simp: new here)
    moreover have "case ss_failed ?st of
        None \<Rightarrow> (all_readable s src rank [] \<longleftrightarrow> (\<forall>p\<in>#pending ?r. all_readable s src rank p))
          \<and> mset (ss_matches (sr_state ?r)) + (\<Sum>p\<in>#pending ?r. files_from s src rank p) = files_from s src rank []
      | Some err \<Rightarrow> \<exists>d\<in>set (dirs_from s src rank []). read_dir s src d = Inl err"
    proof (cases "ss_failed ?st")
      case None
      then have "(all_readable s src rank [] \<longleftrightarrow> (\<forall>p\<in>#pending r. all_readable s src rank p))"
        "mset (ss_matches ?st) + (\<Sum>p\<in>#pending r. files_from s src rank p) = files_from s src rank []"
        using inv by (simp_all add: search_inv_def)
      then show ?thesis using None steps(1,2) here by (auto simp: new pend ac_simps)
    qed (use inv in \<open>auto simp: search_inv_def\<close>)
    ultimately show ?thesis
      using active returned \<open>Asleep \<notin> set (sr_workers ?r)\<close> inv by (simp add: search_inv_def new) blast
  qed
qed

lemma search_step_inv:
  assumes "tree_ranked s src rank" "search_step s src r r'" "search_inv s src rank r"
  shows "search_inv s src rank r'"
  using assms(2)
proof cases
  case step_worker
  then show ?thesis
    by cases (use next_inv [OF assms(3)] read_inv [OF assms(1,3)] in auto)
next
  case step_notify
  have "pending r' = pending r" "sr_state r' = sr_state r" "sr_cancelled r' = sr_cancelled r" "\<not> sr_notify r'"
    "sr_workers r' = broadcast (sr_workers r)" by (simp_all add: pending_def step_notify)
  then show ?thesis
    using assms(3) broadcast_mem(1) broadcast_mem(2) [of Returned "sr_workers r"]
    by (simp add: search_inv_def cong: option.case_cong)
next
  case step_cancel
  have "pending r' = pending r" "sr_state r' = sr_state r" "sr_cancelled r'" "sr_workers r' = sr_workers r"
    by (simp_all add: pending_def step_cancel)
  then show ?thesis using assms(3) by (simp add: search_inv_def cong: option.case_cong)
qed

lemma search_reachable:
  assumes "tree_ranked s src rank" "(search_step s src)\<^sup>*\<^sup>* (search_start n) r"
  shows "search_inv s src rank r"
  using assms(2)
proof (induction rule: rtranclp_induct)
  case base
  then show ?case by (rule start_inv)
next
  case (step r r')
  then show ?case using search_step_inv [OF assms(1)] by blast
qed

lemma length_workers [simp]:
  "length (sr_workers (worker_next r i)) = length (sr_workers r)"
  "length (sr_workers (worker_read s src r i dir)) = length (sr_workers r)"
  by (simp_all add: worker_next_def worker_read_def Let_def split: nextStep.split prod.split)

lemma search_workers:
  assumes "(search_step s src)\<^sup>*\<^sup>* (search_start n) r"
  shows "sr_workers r \<noteq> []"
proof -
  have "length (sr_workers r) = length (sr_workers (search_start n))"
    using assms
  proof (induction rule: rtranclp_induct)
    case (step r r')
    from step(2) have "length (sr_workers r') = length (sr_workers r)"
      by (auto simp: search_step.simps worker_step.simps)
    then show ?case using step(3) by simp
  qed simp
  moreover have "length (sr_workers (search_start n)) > 0" by (simp add: search_start_def DefaultWorkers_def)
  ultimately show ?thesis by auto
qed

subsection \<open>What every search promises\<close>

definition tree_files :: "search \<Rightarrow> source \<Rightarrow> nat \<Rightarrow> gostring list" where
  "tree_files s src n = sort (concat (map (found_in s src) (dirs_below s src n [])))"

text \<open>
  (C25) When all workers have returned and the search was not cancelled, its result does not depend on
  how many there were or how they interleaved: the sorted list of what one worker would find if every
  directory below the root can be read, and otherwise the error of one that cannot.
\<close>

theorem parallel_search_is_sequential:
  assumes "tree_ranked s src rank" "(search_step s src)\<^sup>*\<^sup>* (search_start n) r" "returned r" "\<not> sr_cancelled r"
  defines "dirs \<equiv> dirs_below s src (Suc (rank [])) []"
  shows "if list_all (readable s src) dirs then search_result r = Inr (tree_files s src (Suc (rank [])))
    else \<exists>d\<in>set dirs. \<exists>err. read_dir s src d = Inl err \<and> search_result r = Inl err"
proof -
  have inv: "search_inv s src rank r" using search_reachable [OF assms(1,2)] .
  have dirs: "dirs = dirs_from s src rank []" by (simp add: dirs_def dirs_from_def)
  have "Returned \<in> set (sr_workers r)"
    using assms(3) search_workers [OF assms(2)] by (cases "sr_workers r") (auto simp: returned_def)
  then have finished: "ss_failed (sr_state r) \<noteq> None \<or> pending r = {#}" using inv assms(4) by (auto simp: search_inv_def)
  show ?thesis
  proof (cases "ss_failed (sr_state r)")
    case None
    then have p: "pending r = {#}" using finished by simp
    then have "all_readable s src rank []" "mset (ss_matches (sr_state r)) = files_from s src rank []"
      using inv None by (simp_all add: search_inv_def)
    moreover have "sort (ss_matches (sr_state r)) = sort (concat (map (found_in s src) dirs))"
      by (rule properties_for_sort) (use calculation(2) in \<open>simp_all add: files_from_def dirs\<close>)
    ultimately show ?thesis
      using None assms(4) by (simp add: all_readable_def dirs search_result_def tree_files_def dirs_from_def)
  next
    case (Some err)
    then obtain d where d: "d \<in> set dirs" "read_dir s src d = Inl err" using inv by (auto simp: search_inv_def dirs)
    then have "\<not> list_all (readable s src) dirs" by (force simp: list_all_iff readable_def is_ok_iff)
    then show ?thesis using Some d by (auto simp: search_result_def)
  qed
qed

definition phase_left :: "searchRun \<Rightarrow> nat" where
  "phase_left r = (if \<not> sr_cancelled r then 2 else if sr_notify r then 1 else 0)"

definition work_left :: "search \<Rightarrow> source \<Rightarrow> (gostring \<Rightarrow> nat) \<Rightarrow> searchRun \<Rightarrow> nat" where
  "work_left s src rank r =
     (\<Sum>p\<in>#mset (ss_queue (sr_state r)). 2 * length (dirs_from s src rank p))
     + (\<Sum>p\<in>#reading (sr_workers r). 2 * length (dirs_from s src rank p) - 1)"

definition turns_left :: "searchRun \<Rightarrow> nat" where
  "turns_left r = sum_list (map (\<lambda>w. case w of Ready \<Rightarrow> 2 | Asleep \<Rightarrow> 1 | _ \<Rightarrow> 0) (sr_workers r))"

lemma turns_update:
  assumes "i < length ws" "ws ! i = Ready" "w \<in> {Asleep, Returned}"
  shows "turns_left (r\<lparr>sr_workers := ws[i := w]\<rparr>) < turns_left (r\<lparr>sr_workers := ws\<rparr>)"
  using assms
proof (induction ws arbitrary: i)
  case (Cons v ws)
  then show ?case by (cases i) (auto simp: turns_left_def)
qed simp

lemma worker_step_decreases:
  assumes ranked: "tree_ranked s src rank" and inv: "search_inv s src rank r" and step: "worker_step s src r r'"
  shows "phase_left r' = phase_left r" "work_left s src rank r' < work_left s src rank r
    \<or> work_left s src rank r' = work_left s src rank r \<and> turns_left r' < turns_left r"
proof -
  let ?len = "\<lambda>p. length (dirs_from s src rank p)" and ?st = "sr_state r" and ?ws = "sr_workers r"
  have "phase_left r' = phase_left r
    \<and> (work_left s src rank r' < work_left s src rank r
      \<or> work_left s src rank r' = work_left s src rank r \<and> turns_left r' < turns_left r)"
    using step
  proof cases
    case (step_next i)
    note i = step_next(2,3)
    have asleep: "reading (?ws[i := w]) = reading ?ws" if "reading_of w = {#}" for w
      using reading_update [OF i(1), of w] i(2) that by simp
    consider (take) "ss_failed ?st = None" "\<not> sr_cancelled r" "ss_queue ?st \<noteq> []"
      | (idle) w where "r' = r\<lparr>sr_workers := ?ws[i := w]\<rparr>" "w \<in> {Asleep, Returned}"
    proof (cases "ss_failed ?st = None \<and> \<not> sr_cancelled r \<and> ss_queue ?st = [] \<and> ss_active ?st = 0")
      case True
      then have "Asleep \<notin> set ?ws" using inv by (auto simp: search_inv_def)
      then have "broadcast ?ws = ?ws" by (auto simp: broadcast_def intro!: map_idI)
      then show thesis using True that(2) step_next(1) by (simp add: worker_next_def next_step_def)
    next
      case False
      then show thesis using that step_next(1) by (auto simp: worker_next_def next_step_def split: if_splits)
    qed
    then show ?thesis
    proof cases
      case take
      let ?q = "ss_queue ?st"
      have r': "r' = r\<lparr>sr_state := ?st\<lparr>ss_queue := butlast ?q, ss_active := ss_active ?st + 1\<rparr>, sr_workers := ?ws[i := Reading (last ?q)]\<rparr>"
        using take step_next(1) by (auto simp: worker_next_def next_step_def)
      have read: "reading (?ws[i := Reading (last ?q)]) = add_mset (last ?q) (reading ?ws)"
        using reading_update [OF i(1), of "Reading (last ?q)"] i(2) by simp
      have "mset ?q = add_mset (last ?q) (mset (butlast ?q))"
        using append_butlast_last_id [OF take(3)] by (metis mset_append add_mset_add_single mset.simps)
      moreover have "?len (last ?q) > 0" by (simp add: dirs_from_def)
      ultimately have "work_left s src rank r' < work_left s src rank r" by (simp add: work_left_def r' read)
      then show ?thesis by (simp add: phase_left_def r')
    next
      case idle
      then show ?thesis
        using asleep [of w] turns_update [OF i, of w r] by (auto simp: phase_left_def work_left_def)
    qed
  next
    case (step_read i dir)
    note i = step_read(2,3)
    have read: "reading ?ws = add_mset dir (reading ((broadcast ?ws)[i := Ready]))"
      using reading_update [of i "broadcast ?ws" Ready] i broadcast_nth [OF i(1)] by simp
    have "beneath s src dir" using inv by (simp add: search_inv_def pending_def read)
    then have "2 * ?len dir - 1 > (\<Sum>p\<in>#mset (subdirs_of s src dir). 2 * ?len p)"
      using tree_steps(3) [OF ranked] by (simp add: sum_mset_distrib_left)
    then have "work_left s src rank r' < work_left s src rank r"
      by (cases "read_dir s src dir")
        (auto simp: step_read(1) work_left_def worker_read_def record_read_def Let_def read subdirs_of_def)
    then show ?thesis by (simp add: step_read(1) phase_left_def worker_read_def)
  qed
  then show "phase_left r' = phase_left r" "work_left s src rank r' < work_left s src rank r
    \<or> work_left s src rank r' = work_left s src rank r \<and> turns_left r' < turns_left r" by blast+
qed

lemma search_decreases:
  assumes "tree_ranked s src rank" "search_inv s src rank r" "search_step s src r r'"
  shows "(r', r) \<in> measures [phase_left, work_left s src rank, turns_left]"
  using assms(3)
proof cases
  case step_worker
  then show ?thesis using worker_step_decreases [OF assms(1,2)] by auto
qed (use assms(2) in \<open>auto simp: phase_left_def search_inv_def\<close>)

lemma worker_can_step:
  assumes "search_inv s src rank r" "\<not> returned r"
  shows "\<exists>r'. worker_step s src r r'"
proof -
  obtain i where i: "i < length (sr_workers r)" "sr_workers r ! i \<noteq> Returned"
    using assms(2) by (auto simp: returned_def list_all_length)
  show ?thesis
  proof (cases "sr_workers r ! i")
    case Asleep
    then have "reading (sr_workers r) \<noteq> {#}" using assms(1) i(1) nth_mem by (fastforce simp: search_inv_def)
    then obtain w where w: "w \<in> set (sr_workers r)" "reading_of w \<noteq> {#}" by (auto simp: reading_def)
    from w(2) obtain d where "w = Reading d" by (cases w) simp_all
    then have "Reading d \<in> set (sr_workers r)" using w(1) by simp
    then obtain j where "j < length (sr_workers r)" "sr_workers r ! j = Reading d" by (meson in_set_conv_nth)
    then show ?thesis using step_read by blast
  qed (use i step_next step_read in blast)+
qed

text \<open>
  (C26) A search never hangs: while a worker has not returned some worker can take a step, whether or not
  the search failed or was cancelled, and no schedule goes on forever.
\<close>

theorem search_always_ends:
  assumes "tree_ranked s src rank"
  shows "(\<forall>r. (search_step s src)\<^sup>*\<^sup>* (search_start n) r \<and> \<not> returned r \<longrightarrow> (\<exists>r'. worker_step s src r r'))
    \<and> wf {(r', r). (search_step s src)\<^sup>*\<^sup>* (search_start n) r \<and> search_step s src r r'}"
proof -
  have "{(r', r). (search_step s src)\<^sup>*\<^sup>* (search_start n) r \<and> search_step s src r r'}
      \<subseteq> measures [phase_left, work_left s src rank, turns_left]"
    using search_decreases [OF assms search_reachable [OF assms]] by blast
  then have "wf {(r', r). (search_step s src)\<^sup>*\<^sup>* (search_start n) r \<and> search_step s src r r'}"
    by (rule wf_subset [OF wf_measures])
  then show ?thesis using worker_can_step [OF search_reachable [OF assms]] by blast
qed

subsection \<open>A concrete search\<close>

text \<open>Below \<open>/r\<close>: \<open>x\<close>, \<open>y\<close> and the directory \<open>a\<close>, which holds another \<open>x\<close>.\<close>

definition wit_source :: source where
  "wit_source path =
     Inr (if path = ''/r'' then [\<lparr>de_Name = ''a'', de_Type = EntryDir\<rparr>, \<lparr>de_Name = ''x'', de_Type = EntryRegular\<rparr>,
         \<lparr>de_Name = ''y'', de_Type = EntryRegular\<rparr>]
       else if path = ''/r/a'' then [\<lparr>de_Name = ''x'', de_Type = EntryRegular\<rparr>] else [])"

definition wit_search :: search where
  "wit_search = \<lparr>se_root = ''/r'', se_display = ''d'', se_want = toSet [''x'', '''']\<rparr>"

lemma wit_reads:
  "read_dir wit_search wit_source [] = Inr ([''a''], [''d/x''])"
  "read_dir wit_search wit_source ''a'' = Inr ([], [''d/a/x''])"
  by code_simp+

lemma wit_beneath: "beneath wit_search wit_source rel \<Longrightarrow> rel = [] \<or> rel = ''a''"
  by (induction rule: beneath.induct) (auto simp: subdirs_of_def wit_reads)

lemma wit_ranked: "tree_ranked wit_search wit_source (\<lambda>rel. if rel = [] then 1 else 0)"
  using wit_beneath by (fastforce simp: tree_ranked_def subdirs_of_def wit_reads)

text \<open>One worker reads both directories and then returns.\<close>

definition wit_done :: searchRun where
  "wit_done =
     (let r = worker_next (search_start 1) 0; r = worker_read wit_search wit_source r 0 [];
          r = worker_next r 0; r = worker_read wit_search wit_source r 0 ''a''
      in worker_next r 0)"

lemma wit_run:
  "(search_step wit_search wit_source)\<^sup>*\<^sup>* (search_start 1) wit_done" "returned wit_done" "\<not> sr_cancelled wit_done"
proof -
  define r1 where "r1 = worker_next (search_start 1) 0"
  define r2 where "r2 = worker_read wit_search wit_source r1 0 []"
  define r3 where "r3 = worker_next r2 0"
  define r4 where "r4 = worker_read wit_search wit_source r3 0 ''a''"
  have end_state: "wit_done = worker_next r4 0" by (simp add: wit_done_def r1_def r2_def r3_def r4_def)
  have w: "sr_workers (search_start 1) = [Ready]" "sr_workers r1 = [Reading []]" "sr_workers r2 = [Ready]"
    "sr_workers r3 = [Reading ''a'']" "sr_workers r4 = [Ready]" "sr_workers wit_done = [Returned]" "\<not> sr_cancelled wit_done"
    unfolding end_state r4_def r3_def r2_def r1_def
    by (simp_all add: search_start_def worker_next_def next_step_def worker_read_def record_read_def wit_reads broadcast_def Let_def)
  have "search_step wit_search wit_source (search_start 1) r1" "search_step wit_search wit_source r1 r2"
    "search_step wit_search wit_source r2 r3" "search_step wit_search wit_source r3 r4"
    "search_step wit_search wit_source r4 wit_done"
    unfolding end_state r4_def [symmetric]
    using w worker_step.intros by (simp_all add: step_worker r1_def r2_def r3_def r4_def end_state)
  then show "(search_step wit_search wit_source)\<^sup>*\<^sup>* (search_start 1) wit_done"
    by (meson converse_rtranclp_into_rtranclp rtranclp.rtrancl_refl)
  show "returned wit_done" "\<not> sr_cancelled wit_done" using w by (simp_all add: returned_def)
qed

theorem parallel_search_is_sequential_witness:
  "search_result wit_done = Inr [''d/a/x'', ''d/x'']"
proof -
  have dirs: "dirs_below wit_search wit_source (Suc 1) [] = [ [], ''a'' ]"
    by (simp add: subdirs_of_def wit_reads)
  then have "list_all (readable wit_search wit_source) (dirs_below wit_search wit_source (Suc 1) [])"
    by (simp add: readable_def wit_reads)
  moreover have "tree_files wit_search wit_source (Suc 1) = [''d/a/x'', ''d/x'']"
    unfolding tree_files_def dirs by (simp add: found_in_def wit_reads)
  ultimately show ?thesis
    using parallel_search_is_sequential [OF wit_ranked wit_run] by simp
qed

theorem search_always_ends_witness:
  "wf {(r', r). (search_step wit_search wit_source)\<^sup>*\<^sup>* (search_start 3) r \<and> search_step wit_search wit_source r r'}"
  using search_always_ends [OF wit_ranked, of 3] by simp

end
