(* ===== verification/Find_Coalesce.thy ===== *)
theory Find_Coalesce
  imports Prelude "HOL-Library.Multiset" "HOL-Library.List_Lexorder" "HOL-Library.Char_ord"
begin

text \<open>
  Sharing one search among identical concurrent ones (\<open>internal/find/coalesce.go\<close>, \<open>key.go\<close>). The state
  is the \<open>Coalescer\<close>'s map, every run it ever started and every call of \<open>Do\<close>; a step is what one
  goroutine does under the mutex or between two such parts. What \<open>fn\<close> returns is left open: a step may
  record any result, and the run remembers whether its context was cancelled by then.
\<close>

subsection \<open>Keys\<close>

text \<open>\<open>scope\<close> is the text \<open>pointerKey\<close> prints of a pointer.\<close>

definition SearchKey :: "gostring \<Rightarrow> gostring \<Rightarrow> gostring list \<Rightarrow> gostring" where
  "SearchKey scope root names = join [CHR 0x00] ([scope, root] @ remdups_adj (sort names))"

lemma remdups_adj_sorted:
  assumes "sorted (xs :: 'a :: linorder list)"
  shows "remdups_adj xs = sorted_list_of_set (set xs)"
proof -
  have "distinct (remdups_adj xs)"
    using assms by (induction xs rule: remdups_adj.induct) (auto intro: order.antisym)
  moreover have "sorted (remdups_adj xs)" using assms by simp
  ultimately have "sorted_list_of_set (set (remdups_adj xs)) = remdups_adj xs"
    by (rule sorted_list_of_set.idem_if_sorted_distinct [rotated])
  then show ?thesis by simp
qed

text \<open>
  Two searches share a run exactly when they have one scope, one root and the same set of names, in
  whatever order and however often each is given; no path or name holds a NUL byte.
\<close>

theorem key_identifies_search:
  assumes "list_all (\<lambda>x. CHR 0x00 \<notin> set x) ([scope, root] @ names)" "list_all (\<lambda>x. CHR 0x00 \<notin> set x) ([scope', root'] @ names')"
  shows "SearchKey scope root names = SearchKey scope' root' names' \<longleftrightarrow> scope = scope' \<and> root = root' \<and> set names = set names'"
proof -
  have parts: "split_on (CHR 0x00) (SearchKey s r ns) = [s, r] @ sorted_list_of_set (set ns)"
    if "list_all (\<lambda>x. CHR 0x00 \<notin> set x) ([s, r] @ ns)" for s r ns
    unfolding SearchKey_def
    by (subst split_on_join) (use that in \<open>auto simp: list_all_iff remdups_adj_sorted\<close>)
  show ?thesis
  proof
    assume "SearchKey scope root names = SearchKey scope' root' names'"
    then have "[scope, root] @ sorted_list_of_set (set names) = [scope', root'] @ sorted_list_of_set (set names')"
      using parts assms by metis
    then show "scope = scope' \<and> root = root' \<and> set names = set names'"
      by (auto dest!: arg_cong [of "sorted_list_of_set (set names)" _ set])
  next
    assume "scope = scope' \<and> root = root' \<and> set names = set names'"
    then show "SearchKey scope root names = SearchKey scope' root' names'" by (simp add: SearchKey_def remdups_adj_sorted)
  qed
qed

theorem key_identifies_search_witness:
  "SearchKey ''0xc0'' ''/r'' [''b'', ''a'', ''b''] = SearchKey ''0xc0'' ''/r'' [''a'', ''b''] \<and> SearchKey ''0xc0'' ''/r'' [''a''] \<noteq> SearchKey ''0xc0'' ''/r'' [''b'']"
proof -
  have "SearchKey ''0xc0'' ''/r'' [''b'', ''a'', ''b''] = SearchKey ''0xc0'' ''/r'' [''a'', ''b'']"
    by (subst key_identifies_search) (simp_all, blast)
  moreover have "SearchKey ''0xc0'' ''/r'' [''a''] \<noteq> SearchKey ''0xc0'' ''/r'' [''b'']"
    by (subst key_identifies_search) simp_all
  ultimately show ?thesis ..
qed

subsection \<open>State\<close>

datatype runPhase = Searching | Recorded | Closed

record 'r run =
  rn_key :: gostring
  rn_waiters :: int
  rn_cancelled :: bool
  rn_phase :: runPhase
  rn_result :: "'r option"
  rn_late :: bool

datatype 'r call = Calling gostring | Waiting nat | Answered nat 'r | GaveUp

record 'r coalescer =
  co_runs :: "gostring \<Rightarrow> nat option"
  co_store :: "'r run list"
  co_calls :: "'r call list"
  co_done :: "nat set"

text \<open>\<open>co_done\<close> are the calls whose own context is done.\<close>

definition put_run :: "nat \<Rightarrow> ('r run \<Rightarrow> 'r run) \<Rightarrow> 'r coalescer \<Rightarrow> 'r coalescer" where
  "put_run n f c = c\<lparr>co_store := (co_store c)[n := f (co_store c ! n)]\<rparr>"

definition put_call :: "nat \<Rightarrow> 'r call \<Rightarrow> 'r coalescer \<Rightarrow> 'r coalescer" where
  "put_call i x c = c\<lparr>co_calls := (co_calls c)[i := x]\<rparr>"

definition forget_run :: "nat \<Rightarrow> 'r coalescer \<Rightarrow> 'r coalescer" where
  "forget_run n c =
     (let key = rn_key (co_store c ! n) in
      if co_runs c key = Some n then c\<lparr>co_runs := (co_runs c)(key := None)\<rparr> else c)"

subsection \<open>Operations\<close>

text \<open>\<open>Do\<close> up to its \<open>select\<close>.\<close>

definition do_join :: "nat \<Rightarrow> gostring \<Rightarrow> 'r coalescer \<Rightarrow> 'r coalescer" where
  "do_join i key c =
     (if i \<in> co_done c then put_call i GaveUp c
      else
        (let (n, c) =
           (case co_runs c key of
              Some n \<Rightarrow> (n, c)
            | None \<Rightarrow>
                (length (co_store c),
                 c\<lparr>co_runs := (co_runs c)(key \<mapsto> length (co_store c)),
                   co_store := co_store c @
                     [\<lparr>rn_key = key, rn_waiters = 0, rn_cancelled = False, rn_phase = Searching, rn_result = None, rn_late = False\<rparr>]\<rparr>))
         in put_call i (Waiting n) (put_run n (\<lambda>r. r\<lparr>rn_waiters := rn_waiters r + 1\<rparr>) c)))"

text \<open>The goroutine of a run: what it does under the mutex once \<open>fn\<close> returned, and after.\<close>

definition record_result :: "nat \<Rightarrow> 'r \<Rightarrow> 'r coalescer \<Rightarrow> 'r coalescer" where
  "record_result n res c =
     forget_run n (put_run n (\<lambda>r. r\<lparr>rn_result := Some res, rn_phase := Recorded, rn_late := rn_cancelled r\<rparr>) c)"

definition close_run :: "nat \<Rightarrow> 'r coalescer \<Rightarrow> 'r coalescer" where
  "close_run n c = put_run n (\<lambda>r. r\<lparr>rn_cancelled := True, rn_phase := Closed\<rparr>) c"

definition leave :: "nat \<Rightarrow> 'r coalescer \<Rightarrow> 'r coalescer" where
  "leave n c =
     (let c = put_run n (\<lambda>r. r\<lparr>rn_waiters := rn_waiters r - 1\<rparr>) c in
      if rn_waiters (co_store c ! n) = 0
      then put_run n (\<lambda>r. r\<lparr>rn_cancelled := True\<rparr>) (forget_run n c)
      else c)"

inductive coalesce_step :: "'r coalescer \<Rightarrow> 'r coalescer \<Rightarrow> bool" where
  step_call: "coalesce_step c (c\<lparr>co_calls := co_calls c @ [Calling key]\<rparr>)"
| step_context: "i < length (co_calls c) \<Longrightarrow> coalesce_step c (c\<lparr>co_done := insert i (co_done c)\<rparr>)"
| step_join: "i < length (co_calls c) \<Longrightarrow> co_calls c ! i = Calling key \<Longrightarrow> coalesce_step c (do_join i key c)"
| step_record: "n < length (co_store c) \<Longrightarrow> rn_phase (co_store c ! n) = Searching \<Longrightarrow>
    coalesce_step c (record_result n res c)"
| step_close: "n < length (co_store c) \<Longrightarrow> rn_phase (co_store c ! n) = Recorded \<Longrightarrow> coalesce_step c (close_run n c)"
| step_answer: "i < length (co_calls c) \<Longrightarrow> co_calls c ! i = Waiting n \<Longrightarrow> rn_phase (co_store c ! n) = Closed \<Longrightarrow>
    rn_result (co_store c ! n) = Some res \<Longrightarrow> coalesce_step c (put_call i (Answered n res) (leave n c))"
| step_give_up: "i < length (co_calls c) \<Longrightarrow> co_calls c ! i = Waiting n \<Longrightarrow> i \<in> co_done c \<Longrightarrow>
    coalesce_step c (put_call i GaveUp (leave n c))"

definition no_searches :: "'r coalescer" where
  "no_searches = \<lparr>co_runs = Map.empty, co_store = [], co_calls = [], co_done = {}\<rparr>"

subsection \<open>What is shared\<close>

definition waiting :: "'r coalescer \<Rightarrow> nat \<Rightarrow> nat" where
  "waiting c n = count (mset (co_calls c)) (Waiting n)"

definition run_ok :: "'r coalescer \<Rightarrow> nat \<Rightarrow> bool" where
  "run_ok c n \<longleftrightarrow>
     (let r = co_store c ! n in
      rn_waiters r = int (waiting c n) \<and>
      (rn_cancelled r \<and> rn_phase r \<noteq> Closed \<longrightarrow> waiting c n = 0) \<and>
      (rn_late r \<longrightarrow> rn_phase r \<noteq> Searching \<and> waiting c n = 0) \<and>
      (rn_result r = None \<longleftrightarrow> rn_phase r = Searching) \<and>
      (rn_phase r = Searching \<and> \<not> rn_cancelled r \<longleftrightarrow> co_runs c (rn_key r) = Some n) \<and>
      (rn_phase r = Searching \<and> \<not> rn_cancelled r \<longrightarrow> waiting c n > 0))"

definition coalesce_inv :: "'r coalescer \<Rightarrow> bool" where
  "coalesce_inv c \<longleftrightarrow>
     (\<forall>n<length (co_store c). run_ok c n) \<and>
     (\<forall>key n. co_runs c key = Some n \<longrightarrow> n < length (co_store c) \<and> rn_key (co_store c ! n) = key) \<and>
     (\<forall>n. Waiting n \<in> set (co_calls c) \<longrightarrow> n < length (co_store c)) \<and>
     (\<forall>n res. Answered n res \<in> set (co_calls c) \<longrightarrow> n < length (co_store c)
        \<and> rn_result (co_store c ! n) = Some res \<and> \<not> rn_late (co_store c ! n))"

lemma coalesce_invI:
  assumes "\<And>n. n < length (co_store c) \<Longrightarrow> run_ok c n"
    "\<And>key n. co_runs c key = Some n \<Longrightarrow> n < length (co_store c) \<and> rn_key (co_store c ! n) = key"
    "\<And>n. Waiting n \<in> set (co_calls c) \<Longrightarrow> n < length (co_store c)"
    "\<And>n res. Answered n res \<in> set (co_calls c) \<Longrightarrow>
       n < length (co_store c) \<and> rn_result (co_store c ! n) = Some res \<and> \<not> rn_late (co_store c ! n)"
  shows "coalesce_inv c"
  using assms by (simp add: coalesce_inv_def)

lemma coalesce_invD:
  assumes "coalesce_inv c"
  shows "n < length (co_store c) \<Longrightarrow> run_ok c n"
    "co_runs c key = Some n \<Longrightarrow> n < length (co_store c) \<and> rn_key (co_store c ! n) = key"
    "Waiting n \<in> set (co_calls c) \<Longrightarrow> n < length (co_store c)"
    "Answered n res \<in> set (co_calls c) \<Longrightarrow>
       n < length (co_store c) \<and> rn_result (co_store c ! n) = Some res \<and> \<not> rn_late (co_store c ! n)"
  using assms by (simp_all add: coalesce_inv_def)

lemma waiting_set: "Waiting n \<in> set (co_calls c) \<longleftrightarrow> waiting c n > 0"
  by (simp add: waiting_def)

lemma waiting_update:
  assumes "i < length (co_calls c)" "co_calls c' = (co_calls c)[i := x]"
  shows "waiting c' n + (if co_calls c ! i = Waiting n then 1 else 0) = waiting c n + (if x = Waiting n then 1 else 0)"
proof -
  have "mset (co_calls c') + {#co_calls c ! i#} = mset (co_calls c) + {#x#}"
    using assms by (simp add: mset_update)
  then have "count (mset (co_calls c') + {#co_calls c ! i#}) (Waiting n) = count (mset (co_calls c) + {#x#}) (Waiting n)"
    by (rule arg_cong)
  then show ?thesis by (auto simp: waiting_def split: if_splits)
qed

lemma leave_fields [simp]: "co_calls (leave n c) = co_calls c" "co_done (leave n c) = co_done c"
  "length (co_store (leave n c)) = length (co_store c)"
  by (simp_all add: leave_def forget_run_def put_run_def Let_def)

lemma leave_inv:
  assumes inv: "coalesce_inv c" and i: "i < length (co_calls c)" "co_calls c ! i = Waiting n"
    and x: "x = GaveUp \<or> x = Answered n res \<and> rn_result (co_store c ! n) = Some res"
  shows "coalesce_inv (put_call i x (leave n c))"
proof -
  let ?c = "put_call i x (leave n c)" and ?r = "co_store c ! n"
  have mem: "Waiting n \<in> set (co_calls c)" using i nth_mem by metis
  then have n: "n < length (co_store c)" "run_ok c n" using inv by (auto simp: coalesce_inv_def)
  have pos: "waiting c n > 0" using mem by (simp add: waiting_set)
  have calls: "co_calls ?c = (co_calls c)[i := x]" by (simp add: put_call_def)
  have wait: "waiting ?c m + (if m = n then 1 else 0) = waiting c m" for m
    using waiting_update [OF i(1) calls, of m] i(2) x by auto
  have waiters: "rn_waiters ?r = int (waiting c n)" and not_late: "\<not> rn_late ?r"
    using n(2) pos by (auto simp: run_ok_def Let_def)
  have store: "co_store ?c ! m = (if m = n then ?r\<lparr>rn_waiters := rn_waiters ?r - 1,
        rn_cancelled := rn_cancelled ?r \<or> rn_waiters ?r = 1\<rparr> else co_store c ! m)" if "m < length (co_store c)" for m
    using that n(1) by (auto simp: put_call_def leave_def forget_run_def put_run_def Let_def nth_list_update)
  have runs: "co_runs ?c = (if rn_waiters ?r = 1 \<and> co_runs c (rn_key ?r) = Some n
      then (co_runs c)(rn_key ?r := None) else co_runs c)"
    using n(1) by (auto simp: put_call_def leave_def forget_run_def put_run_def Let_def)
  have len: "length (co_store ?c) = length (co_store c)" by (simp add: put_call_def)
  have F1: "run_ok ?c m" if m: "m < length (co_store c)" for m
  proof (cases "m = n")
    case True
    have "waiting c n = Suc (waiting ?c n)" using wait [of n] by simp
    then show ?thesis
      using n(2) True by (auto simp: run_ok_def Let_def store [OF n(1)] runs waiters split: if_splits)
  next
    case False
    then have "waiting ?c m = waiting c m" using wait [of m] by simp
    moreover have "run_ok c m" by (rule coalesce_invD(1) [OF inv m])
    moreover have "co_runs c (rn_key ?r) = Some n \<Longrightarrow> co_runs c (rn_key (co_store c ! m)) = Some m \<Longrightarrow>
        rn_key (co_store c ! m) \<noteq> rn_key ?r" using False by auto
    ultimately show ?thesis using False by (auto simp: run_ok_def Let_def store [OF m] runs)
  qed
  have F2: "m < length (co_store c) \<and> rn_key (co_store ?c ! m) = key" if "co_runs ?c key = Some m" for key m
  proof -
    have "co_runs c key = Some m" using that by (simp add: runs split: if_splits)
    then have "m < length (co_store c)" "rn_key (co_store c ! m) = key" using coalesce_invD(2) [OF inv] by blast+
    then show ?thesis using store [of m] by (cases "m = n") simp_all
  qed
  have mem': "y \<in> set (co_calls ?c) \<Longrightarrow> y = x \<or> y \<in> set (co_calls c)" for y
    using set_update_subset_insert [of "co_calls c" i x] by (auto simp: calls)
  have F3: "m < length (co_store c)" if "Waiting m \<in> set (co_calls ?c)" for m
    using mem' [OF that] x coalesce_invD(3) [OF inv] by auto
  have F4: "m < length (co_store c) \<and> rn_result (co_store ?c ! m) = Some y \<and> \<not> rn_late (co_store ?c ! m)"
    if "Answered m y \<in> set (co_calls ?c)" for m y
  proof -
    have "m < length (co_store c) \<and> rn_result (co_store c ! m) = Some y \<and> \<not> rn_late (co_store c ! m)"
      using mem' [OF that] x n(1) not_late coalesce_invD(4) [OF inv] by auto
    then show ?thesis using store [of m] by (cases "m = n") simp_all
  qed
  show ?thesis by (rule coalesce_invI, unfold len) (fact F1 F2 F3 F4)+
qed

lemma join_inv:
  assumes inv: "coalesce_inv c" and i: "i < length (co_calls c)" "co_calls c ! i = Calling key"
  shows "coalesce_inv (do_join i key c)"
proof (cases "i \<in> co_done c")
  case True
  let ?c = "put_call i GaveUp c"
  have wait: "waiting ?c m = waiting c m" for m
    using waiting_update [OF i(1), of ?c GaveUp m] i(2) by (simp add: put_call_def)
  have mem: "Waiting n \<in> set ((co_calls c)[i := GaveUp]) \<longrightarrow> Waiting n \<in> set (co_calls c)"
    "Answered n y \<in> set ((co_calls c)[i := GaveUp]) \<longrightarrow> Answered n y \<in> set (co_calls c)" for n y
    using set_update_subset_insert [of "co_calls c" i GaveUp] by auto
  have "run_ok ?c m = run_ok c m" for m by (simp add: run_ok_def wait) (simp add: put_call_def)
  then have "coalesce_inv ?c"
    using coalesce_invD(1-3) [OF inv] mem(1) coalesce_invD(4) [OF inv] mem(2)
    by (intro coalesce_invI) (simp_all add: put_call_def, blast+)
  then show ?thesis using True by (simp add: do_join_def)
next
  case False
  define n where "n = (case co_runs c key of Some n \<Rightarrow> n | None \<Rightarrow> length (co_store c))"
  define st where "st = (case co_runs c key of Some n \<Rightarrow> co_store c
      | None \<Rightarrow> co_store c @ [\<lparr>rn_key = key, rn_waiters = 0, rn_cancelled = False, rn_phase = Searching, rn_result = None, rn_late = False\<rparr>])"
  let ?c = "do_join i key c"
  have fields: "co_calls ?c = (co_calls c)[i := Waiting n]" "co_runs ?c = (co_runs c)(key := Some n)"
    "co_store ?c = st[n := (st ! n)\<lparr>rn_waiters := rn_waiters (st ! n) + 1\<rparr>]"
    using False by (auto simp: do_join_def n_def st_def put_call_def put_run_def Let_def fun_upd_idem split: option.split)
  have wait: "waiting ?c m = waiting c m + (if m = n then 1 else 0)" for m
    using waiting_update [OF i(1) fields(1), of m] i(2) by auto
  have old: "m < length st \<and> st ! m = co_store c ! m" if "m < length (co_store c)" for m
    using that by (auto simp: st_def nth_append split: option.split)
  have n: "n < length st" "rn_key (st ! n) = key" "rn_phase (st ! n) = Searching" "\<not> rn_cancelled (st ! n)"
    "\<not> rn_late (st ! n)" "rn_result (st ! n) = None" "rn_waiters (st ! n) = int (waiting c n)"
  proof -
    have "waiting c (length (co_store c)) = 0"
      using inv waiting_set [of "length (co_store c)" c] by (auto simp: coalesce_inv_def)
    moreover have "m < length (co_store c) \<and> rn_key (co_store c ! m) = key \<and> run_ok c m" if "co_runs c key = Some m" for m
      using that inv by (auto simp: coalesce_inv_def)
    ultimately have "n < length st \<and> rn_key (st ! n) = key \<and> rn_phase (st ! n) = Searching \<and> \<not> rn_cancelled (st ! n)
        \<and> \<not> rn_late (st ! n) \<and> rn_result (st ! n) = None \<and> rn_waiters (st ! n) = int (waiting c n)"
      by (cases "co_runs c key") (auto simp: n_def st_def run_ok_def Let_def)
    then show "n < length st" "rn_key (st ! n) = key" "rn_phase (st ! n) = Searching" "\<not> rn_cancelled (st ! n)"
      "\<not> rn_late (st ! n)" "rn_result (st ! n) = None" "rn_waiters (st ! n) = int (waiting c n)" by blast+
  qed
  have len: "length (co_store ?c) = length st" by (simp add: fields)
  have cases: "m = n \<or> m < length (co_store c)" if "m < length st" for m
    using that by (auto simp: st_def n_def split: option.splits)
  have F1: "run_ok ?c m" if m: "m < length st" for m
  proof (cases "m = n")
    case True
    then show ?thesis using n wait [of n] by (simp add: run_ok_def fields Let_def)
  next
    case False
    then have "m < length (co_store c)" using cases m by blast
    then have "run_ok c m" "st ! m = co_store c ! m" using coalesce_invD(1) [OF inv] old by auto
    moreover have "co_runs c key \<noteq> Some m" using False by (auto simp: n_def)
    ultimately show ?thesis using False wait [of m] by (auto simp: run_ok_def fields Let_def)
  qed
  have F2: "m < length st \<and> rn_key (co_store ?c ! m) = k" if "co_runs ?c k = Some m" for k m
    using that n coalesce_invD(2) [OF inv, of k m] old [of m] by (auto simp: fields nth_list_update split: if_splits)
  have mem: "y \<in> set (co_calls ?c) \<Longrightarrow> y = Waiting n \<or> y \<in> set (co_calls c)" for y
    using set_update_subset_insert [of "co_calls c" i "Waiting n"] by (auto simp: fields)
  have F3: "m < length st" if "Waiting m \<in> set (co_calls ?c)" for m
    using mem [OF that] n(1) coalesce_invD(3) [OF inv, of m] old [of m] by auto
  have F4: "m < length st \<and> rn_result (co_store ?c ! m) = Some y \<and> \<not> rn_late (co_store ?c ! m)"
    if "Answered m y \<in> set (co_calls ?c)" for m y
    using mem [OF that] n coalesce_invD(4) [OF inv, of m y] old [of m] by (auto simp: fields nth_list_update)
  show ?thesis by (rule coalesce_invI, unfold len) (fact F1 F2 F3 F4)+
qed

lemma put_run_inv:
  assumes inv: "coalesce_inv c" and n: "n < length (co_store c)"
    and f: "rn_key (f (co_store c ! n)) = rn_key (co_store c ! n)"
      "\<And>res. rn_result (co_store c ! n) = Some res \<Longrightarrow> rn_result (f (co_store c ! n)) = Some res"
      "rn_late (f (co_store c ! n)) \<longrightarrow> rn_late (co_store c ! n) \<or> rn_result (co_store c ! n) = None"
    and c': "co_calls c' = co_calls c" "co_store c' = (co_store c)[n := f (co_store c ! n)]"
      "\<And>k. co_runs c' k = Some n \<Longrightarrow> co_runs c k = Some n" "\<And>k m. m \<noteq> n \<Longrightarrow> co_runs c' k = Some m \<longleftrightarrow> co_runs c k = Some m"
    and ok: "run_ok c' n"
  shows "coalesce_inv c'"
proof -
  have len: "length (co_store c') = length (co_store c)" by (simp add: c')
  have wait: "waiting c' m = waiting c m" for m by (simp add: waiting_def c'(1))
  have F1: "run_ok c' m" if "m < length (co_store c)" for m
  proof (cases "m = n")
    case False
    then show ?thesis using coalesce_invD(1) [OF inv that] c'(4) [of m] by (simp add: run_ok_def Let_def wait c'(2))
  qed (use ok in simp)
  have F2: "m < length (co_store c) \<and> rn_key (co_store c' ! m) = k" if "co_runs c' k = Some m" for k m
    using that c'(3,4) n f(1) coalesce_invD(2) [OF inv, of k m] by (cases "m = n") (auto simp: c'(2))
  have F4: "m < length (co_store c) \<and> rn_result (co_store c' ! m) = Some y \<and> \<not> rn_late (co_store c' ! m)"
    if "Answered m y \<in> set (co_calls c')" for m y
    using that n f(2,3) coalesce_invD(4) [OF inv, of m y] by (cases "m = n") (auto simp: c'(1,2))
  have F3: "m < length (co_store c)" if "Waiting m \<in> set (co_calls c')" for m
    using that coalesce_invD(3) [OF inv] by (simp add: c'(1))
  show ?thesis by (rule coalesce_invI, unfold len) (fact F1 F2 F3 F4)+
qed

lemma record_inv:
  assumes inv: "coalesce_inv c" and n: "n < length (co_store c)" "rn_phase (co_store c ! n) = Searching"
  shows "coalesce_inv (record_result n res c)"
proof -
  let ?f = "\<lambda>r. r\<lparr>rn_result := Some res, rn_phase := Recorded, rn_late := rn_cancelled r\<rparr>"
  have ok: "run_ok c n" using inv n(1) by (simp add: coalesce_inv_def)
  then have none: "rn_result (co_store c ! n) = None" using n(2) by (simp add: run_ok_def Let_def)
  have key: "co_runs c k = Some n \<Longrightarrow> k = rn_key (co_store c ! n)" for k using inv by (auto simp: coalesce_inv_def)
  show ?thesis
  proof (rule put_run_inv [OF inv n(1), of ?f])
    show "co_runs (record_result n res c) k = Some n \<Longrightarrow> co_runs c k = Some n" for k
      by (auto simp: record_result_def forget_run_def put_run_def Let_def split: if_splits)
    show "m \<noteq> n \<Longrightarrow> co_runs (record_result n res c) k = Some m \<longleftrightarrow> co_runs c k = Some m" for k m
      using n(1) by (auto simp: record_result_def forget_run_def put_run_def Let_def)
    have "waiting (record_result n res c) n = waiting c n"
      by (simp add: waiting_def record_result_def forget_run_def put_run_def Let_def)
    then show "run_ok (record_result n res c) n"
      using ok n by (auto simp: run_ok_def Let_def) (auto simp: record_result_def forget_run_def put_run_def Let_def)
  qed (auto simp: none record_result_def forget_run_def put_run_def Let_def)
qed

lemma close_inv:
  assumes inv: "coalesce_inv c" and n: "n < length (co_store c)" "rn_phase (co_store c ! n) = Recorded"
  shows "coalesce_inv (close_run n c)"
proof -
  have ok: "run_ok c n" using inv n(1) by (simp add: coalesce_inv_def)
  have "waiting (close_run n c) n = waiting c n" by (simp add: waiting_def close_run_def put_run_def)
  then have "run_ok (close_run n c) n"
    using ok n by (auto simp: run_ok_def Let_def) (auto simp: close_run_def put_run_def)
  then show ?thesis
    by (intro put_run_inv [OF inv n(1), of "\<lambda>r. r\<lparr>rn_cancelled := True, rn_phase := Closed\<rparr>"])
      (auto simp: close_run_def put_run_def)
qed

lemma coalesce_reachable:
  assumes "coalesce_step\<^sup>*\<^sup>* no_searches c"
  shows "coalesce_inv c"
  using assms
proof (induction rule: rtranclp_induct)
  case base
  then show ?case by (simp add: coalesce_inv_def no_searches_def)
next
  case (step c c')
  from step(2,3) show ?case
  proof (induction rule: coalesce_step.induct)
    case (step_call c key)
    have "run_ok (c\<lparr>co_calls := co_calls c @ [Calling key]\<rparr>) n = run_ok c n" for n
      by (simp add: run_ok_def waiting_def)
    then show ?case using step_call by (auto simp: coalesce_inv_def)
  next
    case (step_context i c)
    have "run_ok (c\<lparr>co_done := insert i (co_done c)\<rparr>) n = run_ok c n" for n by (simp add: run_ok_def waiting_def)
    then show ?case using step_context by (simp add: coalesce_inv_def)
  qed (blast intro: join_inv record_inv close_inv leave_inv)+
qed

text \<open>
  (C27) Sharing a search is safe in every interleaving: at most one live search runs per key; a search is
  cancelled as soon as nobody waits for it and never while somebody does; and whoever is answered gets
  what its run returned before anyone cancelled it, so a searcher that leaves cannot fail its peers.
\<close>

theorem coalesced_search_is_shared:
  assumes "coalesce_step\<^sup>*\<^sup>* no_searches c"
  defines "live \<equiv> \<lambda>n. n < length (co_store c) \<and> rn_phase (co_store c ! n) = Searching \<and> \<not> rn_cancelled (co_store c ! n)"
  shows "(\<forall>n m. live n \<and> live m \<and> rn_key (co_store c ! n) = rn_key (co_store c ! m) \<longrightarrow> n = m)
    \<and> (\<forall>n. n < length (co_store c) \<and> rn_phase (co_store c ! n) = Searching \<longrightarrow> (live n \<longleftrightarrow> Waiting n \<in> set (co_calls c)))
    \<and> (\<forall>n res. Answered n res \<in> set (co_calls c) \<longrightarrow> rn_result (co_store c ! n) = Some res \<and> \<not> rn_late (co_store c ! n))"
proof -
  have inv: "coalesce_inv c" using coalesce_reachable [OF assms(1)] .
  have ok: "run_ok c n" if "n < length (co_store c)" for n using inv that by (simp add: coalesce_inv_def)
  have "n = m" if "live n" "live m" "rn_key (co_store c ! n) = rn_key (co_store c ! m)" for n m
    using that ok [of n] ok [of m] by (auto simp: live_def run_ok_def Let_def)
  moreover have "live n \<longleftrightarrow> Waiting n \<in> set (co_calls c)"
    if "n < length (co_store c)" "rn_phase (co_store c ! n) = Searching" for n
    using that ok [of n] by (auto simp: live_def run_ok_def Let_def waiting_set)
  ultimately show ?thesis using inv by (auto simp: coalesce_inv_def)
qed

text \<open>Two calls share one search; the first leaves, and the second is answered.\<close>

theorem coalesced_search_is_shared_witness:
  "\<exists>c. coalesce_step\<^sup>*\<^sup>* no_searches c \<and> co_calls c = [GaveUp, Answered 0 (7::nat)] \<and> \<not> rn_late (co_store c ! 0)"
proof -
  let ?K = "''k''"
  define c1 :: "nat coalescer" where "c1 = no_searches\<lparr>co_calls := [Calling ?K]\<rparr>"
  define c2 where "c2 = c1\<lparr>co_calls := [Calling ?K, Calling ?K]\<rparr>"
  define c3 where "c3 = do_join 0 ?K c2"
  define c4 where "c4 = do_join 1 ?K c3"
  define c5 where "c5 = c4\<lparr>co_done := insert 0 (co_done c4)\<rparr>"
  define c6 where "c6 = put_call 0 GaveUp (leave 0 c5)"
  define c7 where "c7 = record_result 0 7 c6"
  define c8 where "c8 = close_run 0 c7"
  define c9 where "c9 = put_call 1 (Answered 0 7) (leave 0 c8)"
  note eval = c1_def c2_def c3_def c4_def c5_def c6_def c7_def c8_def c9_def no_searches_def do_join_def put_call_def put_run_def
    leave_def forget_run_def record_result_def close_run_def Let_def
  have s: "coalesce_step no_searches c1" "coalesce_step c1 c2" "coalesce_step c2 c3" "coalesce_step c3 c4"
    "coalesce_step c4 c5" "coalesce_step c5 c6" "coalesce_step c6 c7" "coalesce_step c7 c8" "coalesce_step c8 c9"
    using step_call [of no_searches ?K] step_call [of c1 ?K] step_join [of 0 c2 ?K] step_join [of 1 c3 ?K] step_context [of 0 c4]
      step_give_up [of 0 c5 0] step_record [of 0 c6 7] step_close [of 0 c7] step_answer [of 1 c8 0 7]
    by (simp_all add: eval)
  then have reach: "coalesce_step\<^sup>*\<^sup>* no_searches c9" by (meson converse_rtranclp_into_rtranclp rtranclp.rtrancl_refl)
  moreover have calls: "co_calls c9 = [GaveUp, Answered 0 7]" by (simp add: eval)
  ultimately show ?thesis using coalesced_search_is_shared [OF reach] by auto
qed

end
