(* ===== verification/Render_Fold.thy ===== *)
theory Render_Fold
  imports Core_Model Text_Width Go_Std
begin

text \<open>
  The fold of the human ledger, \<open>internal/render/ledger_fold.go\<close>: sibling Tasks that each record the
  same Effect share one row named for their container. The survey of what every container holds, the
  target of one section, the loop that lays the sections out, and the qualification and alignment of
  their subjects are modelled as they are written; an index or a nil pointer that would panic is
  \<open>None\<close>. The lemmas show that the layout is the one the package comment describes, that it always
  returns, and that it neither loses nor invents a counted item.
\<close>

subsection \<open>Sections (ledger\_fold.go, effects.go)\<close>

record SectionSource =
  ss_Subject :: gostring
  ss_Records :: "EffectRecord list"
  ss_IntendedVerb :: gostring
  ss_Containers :: ContainerPath
  ss_Streamed :: bool

record EffectSection =
  es_Kind :: gostring
  es_Subject :: gostring
  es_Records :: "EffectRecord list"
  es_IntendedVerb :: gostring
  es_NameWidth :: int
  es_Width :: int

record effectKind =
  ek_verb :: gostring
  ek_object :: gostring

definition no_kind :: effectKind where
  "no_kind = \<lparr>ek_verb = [], ek_object = []\<rparr>"

definition record_kind :: "EffectRecord \<Rightarrow> effectKind" where
  "record_kind r = \<lparr>ek_verb = er_Verb r, ek_object = er_Object r\<rparr>"

text \<open>\<open>foldKind\<close>: \<open>None\<close> is the pair of the zero kind and false.\<close>

definition foldKind :: "SectionSource \<Rightarrow> effectKind option" where
  "foldKind s =
     (if ss_Streamed s \<or> ss_Containers s = [] then None
      else case ss_Records s of [] \<Rightarrow> None
        | r0 # _ \<Rightarrow>
            if list_all (\<lambda>r. er_HasQty r \<and> record_kind r = record_kind r0) (ss_Records s)
            then Some (record_kind r0) else None)"

definition inert :: "SectionSource \<Rightarrow> bool" where
  "inert s \<longleftrightarrow> \<not> ss_Streamed s \<and> ss_Records s = []"

definition quantityOf :: "EffectRecord list \<Rightarrow> int" where
  "quantityOf records = foldl (\<lambda>total r. int64 (total + er_Quantity r)) 0 records"

definition ownContainerID :: "SectionSource \<Rightarrow> gostring" where
  "ownContainerID s =
     (case ss_Containers s of [] \<Rightarrow> []
      | c # _ \<Rightarrow> if ss_Subject s = cr_Name c then cr_ID c else [])"

subsection \<open>The survey\<close>

text \<open>The kind half of \<open>foldKind\<close>'s result.\<close>

definition kind_of :: "effectKind option \<Rightarrow> effectKind" where
  "kind_of fk = (case fk of Some k \<Rightarrow> k | None \<Rightarrow> no_kind)"

record containerFold =
  cf_kind :: effectKind
  cf_count :: nat
  cf_mixed :: bool

type_synonym foldKey = "gostring \<times> effectKind"

record foldSurvey =
  fs_subtrees :: "gostring \<Rightarrow> containerFold option"
  fs_direct :: "foldKey \<Rightarrow> nat"

definition survey_container ::
    "effectKind option \<Rightarrow> (gostring \<Rightarrow> containerFold option) \<Rightarrow> ContainerRef
      \<Rightarrow> (gostring \<Rightarrow> containerFold option)" where
  "survey_container fk m c =
     (let k = kind_of fk;
          f = (case m (cr_ID c) of Some f \<Rightarrow> f | None \<Rightarrow> \<lparr>cf_kind = k, cf_count = 0, cf_mixed = False\<rparr>)
      in m(cr_ID c \<mapsto> f\<lparr>cf_count := Suc (cf_count f),
                        cf_mixed := cf_mixed f \<or> fk = None \<or> cf_kind f \<noteq> k\<rparr>))"

definition survey_section :: "foldSurvey \<Rightarrow> SectionSource \<Rightarrow> foldSurvey" where
  "survey_section v src =
     (if inert src then v
      else
        let fk = foldKind src;
            direct = (case (fk, ss_Containers src) of
                (Some k, c # _) \<Rightarrow> (fs_direct v)((cr_ID c, k) := Suc (fs_direct v (cr_ID c, k)))
              | _ \<Rightarrow> fs_direct v)
        in \<lparr>fs_subtrees = foldl (survey_container fk) (fs_subtrees v) (ss_Containers src),
            fs_direct = direct\<rparr>)"

definition surveyFold :: "SectionSource list \<Rightarrow> foldSurvey" where
  "surveyFold sources = foldl survey_section \<lparr>fs_subtrees = (\<lambda>_. None), fs_direct = (\<lambda>_. 0)\<rparr> sources"

subsection \<open>Where a section folds\<close>

text \<open>
  The loop of \<open>highestUniform\<close> from the container at index \<open>i\<close>: the number of leading containers that are not
  mixed (\<open>top + 1\<close> in the code). A container the survey lacks is a nil pointer, hence \<open>None\<close>.
\<close>

fun uniform_loop :: "foldSurvey \<Rightarrow> nat \<Rightarrow> ContainerPath \<Rightarrow> nat option" where
  "uniform_loop v i [] = Some i"
| "uniform_loop v i (c # cs) =
     (case fs_subtrees v (cr_ID c) of None \<Rightarrow> None
      | Some f \<Rightarrow> if cf_mixed f then Some i else uniform_loop v (Suc i) cs)"

definition highestUniform :: "foldSurvey \<Rightarrow> SectionSource \<Rightarrow> ContainerPath option option" where
  "highestUniform v src =
     Option.bind (uniform_loop v 0 (ss_Containers src)) (\<lambda>n.
       if n = 0 then Some None
       else case fs_subtrees v (cr_ID (ss_Containers src ! (n - 1))) of None \<Rightarrow> None
         | Some f \<Rightarrow> if cf_count f < 2 then Some None else Some (Some (drop (n - 1) (ss_Containers src))))"

text \<open>\<open>target\<close>: the outer \<open>None\<close> is a panic, the inner one \<open>false\<close>.\<close>

definition fold_target :: "foldSurvey \<Rightarrow> SectionSource \<Rightarrow> (ContainerPath \<times> foldKey) option option" where
  "fold_target v src =
     (case foldKind src of None \<Rightarrow> Some None
      | Some kind \<Rightarrow>
          Option.bind (highestUniform v src) (\<lambda>lifted.
            case lifted of
              Some up \<Rightarrow> (case up of [] \<Rightarrow> None | t # _ \<Rightarrow> Some (Some (up, (cr_ID t, kind))))
            | None \<Rightarrow>
                (case ss_Containers src of [] \<Rightarrow> None
                 | nearest # _ \<Rightarrow>
                     if fs_direct v (cr_ID nearest, kind) \<ge> 2
                     then Some (Some (ss_Containers src, (cr_ID nearest, kind))) else Some None)))"

subsection \<open>Laying the sections out\<close>

text \<open>\<open>sh_out\<close> is \<open>None\<close> for the index -1 of a streamed row.\<close>

record shownSubject =
  sh_text :: gostring
  sh_out :: "nat option"
  sh_owner :: gostring
  sh_container :: ContainerPath

record foldState =
  fo_out :: "EffectSection list"
  fo_at :: "foldKey \<Rightarrow> nat option"
  fo_shown :: "shownSubject list"

definition own_section :: "gostring \<Rightarrow> int \<Rightarrow> SectionSource \<Rightarrow> EffectSection" where
  "own_section kind width src =
     \<lparr>es_Kind = kind, es_Subject = ss_Subject src, es_Records = ss_Records src,
      es_IntendedVerb = ss_IntendedVerb src, es_NameWidth = 0, es_Width = width\<rparr>"

definition folded_section :: "gostring \<Rightarrow> int \<Rightarrow> gostring \<Rightarrow> effectKind \<Rightarrow> int \<Rightarrow> EffectSection" where
  "folded_section kind width name k quantity =
     \<lparr>es_Kind = kind, es_Subject = name,
      es_Records = [\<lparr>er_Verb = ek_verb k, er_Quantity = quantity, er_HasQty = True, er_Object = ek_object k\<rparr>],
      es_IntendedVerb = [], es_NameWidth = 0, es_Width = width\<rparr>"

definition show_unfolded :: "gostring \<Rightarrow> int \<Rightarrow> SectionSource \<Rightarrow> foldState \<Rightarrow> foldState" where
  "show_unfolded kind width src st =
     (let row = \<lparr>sh_text = ss_Subject src, sh_out = None, sh_owner = ownContainerID src, sh_container = []\<rparr>
      in if ss_Streamed src then st\<lparr>fo_shown := fo_shown st @ [row]\<rparr>
         else st\<lparr>fo_shown := fo_shown st @ [row\<lparr>sh_out := Some (length (fo_out st))\<rparr>],
                 fo_out := fo_out st @ [own_section kind width src]\<rparr>)"

text \<open>\<open>out[at].Records[0].Quantity += q\<close>.\<close>

definition count_onto :: "nat \<Rightarrow> int \<Rightarrow> EffectSection list \<Rightarrow> EffectSection list option" where
  "count_onto at q out =
     (if length out \<le> at then None
      else case es_Records (out ! at) of [] \<Rightarrow> None
        | r # rs \<Rightarrow>
            Some (out[at := (out ! at)\<lparr>es_Records := r\<lparr>er_Quantity := int64 (er_Quantity r + q)\<rparr> # rs\<rparr>]))"

definition fold_step ::
    "foldSurvey \<Rightarrow> gostring \<Rightarrow> int \<Rightarrow> foldState \<Rightarrow> SectionSource \<Rightarrow> foldState option" where
  "fold_step v kind width st src =
     Option.bind (fold_target v src) (\<lambda>tg.
       case tg of None \<Rightarrow> Some (show_unfolded kind width src st)
       | Some (path, key) \<Rightarrow>
           (case fo_at st key of
              Some at \<Rightarrow> map_option (\<lambda>out. st\<lparr>fo_out := out\<rparr>) (count_onto at (quantityOf (ss_Records src)) (fo_out st))
            | None \<Rightarrow>
                (case path of [] \<Rightarrow> None
                 | t # _ \<Rightarrow>
                     Some \<lparr>fo_out = fo_out st @ [folded_section kind width (cr_Name t) (snd key) (quantityOf (ss_Records src))],
                           fo_at = (fo_at st)(key \<mapsto> length (fo_out st)),
                           fo_shown = fo_shown st @ [\<lparr>sh_text = cr_Name t, sh_out = Some (length (fo_out st)),
                             sh_owner = cr_ID t, sh_container = path\<rparr>]\<rparr>)))"

fun fold_loop ::
    "foldSurvey \<Rightarrow> gostring \<Rightarrow> int \<Rightarrow> foldState \<Rightarrow> SectionSource list \<Rightarrow> foldState option" where
  "fold_loop v kind width st [] = Some st"
| "fold_loop v kind width st (src # srcs) =
     Option.bind (fold_step v kind width st src) (\<lambda>st. fold_loop v kind width st srcs)"

subsection \<open>Naming and aligning the rows\<close>

definition note_owner :: "(gostring \<Rightarrow> gostring option) \<times> (gostring \<Rightarrow> bool) \<Rightarrow> shownSubject
    \<Rightarrow> (gostring \<Rightarrow> gostring option) \<times> (gostring \<Rightarrow> bool)" where
  "note_owner st s =
     (case fst st (sh_text s) of None \<Rightarrow> ((fst st)(sh_text s \<mapsto> sh_owner s), snd st)
      | Some prior \<Rightarrow>
          if sh_owner s = [] \<or> prior \<noteq> sh_owner s then (fst st, (snd st)(sh_text s := True)) else st)"

definition duplicated_subjects :: "shownSubject list \<Rightarrow> gostring \<Rightarrow> bool" where
  "duplicated_subjects shown = snd (foldl note_owner ((\<lambda>_. None), (\<lambda>_. False)) shown)"

fun qualify_rows ::
    "(gostring \<Rightarrow> bool) \<Rightarrow> shownSubject list \<Rightarrow> EffectSection list
      \<Rightarrow> (shownSubject list \<times> EffectSection list) option" where
  "qualify_rows dup [] out = Some ([], out)"
| "qualify_rows dup (s # rest) out =
     (if length (sh_container s) < 2 \<or> \<not> dup (sh_text s)
      then map_option (\<lambda>(shown, out). (s # shown, out)) (qualify_rows dup rest out)
      else
        let text = Qualify (drop 1 (sh_container s)) (sh_text s) in
        case sh_out s of None \<Rightarrow> None
        | Some i \<Rightarrow>
            if length out \<le> i then None
            else map_option (\<lambda>(shown, out). (s\<lparr>sh_text := text\<rparr> # shown, out))
                   (qualify_rows dup rest (out[i := (out ! i)\<lparr>es_Subject := text\<rparr>])))"

definition qualifyDuplicates ::
    "EffectSection list \<Rightarrow> shownSubject list \<Rightarrow> (shownSubject list \<times> EffectSection list) option" where
  "qualifyDuplicates out shown = qualify_rows (duplicated_subjects shown) shown out"

definition alignSubjects ::
    "unicode_tables \<Rightarrow> EffectSection list \<Rightarrow> shownSubject list \<Rightarrow> EffectSection list" where
  "alignSubjects U out shown =
     (if length shown < 2 then out
      else
        let widest = foldl (\<lambda>w s. max w (Cells U (sh_text s))) 0 shown
        in map (\<lambda>s. s\<lparr>es_NameWidth := widest\<rparr>) out)"

definition FoldEffectSections ::
    "unicode_tables \<Rightarrow> gostring \<Rightarrow> int \<Rightarrow> SectionSource list \<Rightarrow> EffectSection list option" where
  "FoldEffectSections U kind width sources =
     Option.bind
       (fold_loop (surveyFold sources) kind width \<lparr>fo_out = [], fo_at = (\<lambda>_. None), fo_shown = []\<rparr> sources)
       (\<lambda>st. map_option (\<lambda>(shown, out). alignSubjects U out shown) (qualifyDuplicates (fo_out st) (fo_shown st)))"

subsection \<open>The rule the survey decides\<close>

text \<open>The sections that say something beneath a container, and its own children with one Effect.\<close>

definition beneath :: "gostring \<Rightarrow> SectionSource list \<Rightarrow> SectionSource list" where
  "beneath cid sources = filter (\<lambda>s. \<not> inert s \<and> cid \<in> cr_ID ` set (ss_Containers s)) sources"

definition siblings :: "gostring \<Rightarrow> effectKind \<Rightarrow> SectionSource list \<Rightarrow> SectionSource list" where
  "siblings cid k sources =
     filter (\<lambda>s. foldKind s = Some k \<and> cr_ID (hd (ss_Containers s)) = cid) sources"

definition uniform_under :: "gostring \<Rightarrow> effectKind \<Rightarrow> SectionSource list \<Rightarrow> bool" where
  "uniform_under cid k sources \<longleftrightarrow> (\<forall>s\<in>set (beneath cid sources). foldKind s = Some k)"

text \<open>
  The fold rule of the package comment. A section that qualifies is lifted to the highest container
  whose whole subtree records its Effect, when at least two sections are there; failing that it joins
  its nearest container's own children with the same Effect, when there are at least two.
\<close>

definition fold_rule :: "SectionSource list \<Rightarrow> SectionSource \<Rightarrow> (ContainerPath \<times> foldKey) option" where
  "fold_rule sources src =
     (case foldKind src of None \<Rightarrow> None
      | Some k \<Rightarrow>
          let cs = ss_Containers src;
              u = takeWhile (\<lambda>c. uniform_under (cr_ID c) k sources) cs
          in if u \<noteq> [] \<and> 2 \<le> length (beneath (cr_ID (last u)) sources)
             then Some (drop (length u - 1) cs, (cr_ID (last u), k))
             else if 2 \<le> length (siblings (cr_ID (hd cs)) k sources)
             then Some (cs, (cr_ID (hd cs), k))
             else None)"

definition distinct_paths :: "SectionSource list \<Rightarrow> bool" where
  "distinct_paths sources \<longleftrightarrow> (\<forall>s\<in>set sources. distinct (map cr_ID (ss_Containers s)))"

lemma foldKind_Some:
  assumes "foldKind s = Some k"
  shows "\<not> ss_Streamed s" "ss_Containers s \<noteq> []" "\<not> inert s"
    "\<forall>r\<in>set (ss_Records s). er_HasQty r \<and> record_kind r = k"
  using assms by (auto simp: foldKind_def inert_def list_all_iff split: if_splits list.splits)

definition bumped :: "effectKind option \<Rightarrow> containerFold option \<Rightarrow> containerFold" where
  "bumped fk e =
     (let f = (case e of Some f \<Rightarrow> f | None \<Rightarrow> \<lparr>cf_kind = kind_of fk, cf_count = 0, cf_mixed = False\<rparr>)
      in f\<lparr>cf_count := Suc (cf_count f), cf_mixed := cf_mixed f \<or> fk = None \<or> cf_kind f \<noteq> kind_of fk\<rparr>)"

lemma survey_container_bumped: "survey_container fk m c = m(cr_ID c \<mapsto> bumped fk (m (cr_ID c)))"
  by (simp add: survey_container_def bumped_def Let_def)

lemma survey_path:
  "distinct (map cr_ID cs) \<Longrightarrow>
     foldl (survey_container fk) m cs cid = (if cid \<in> cr_ID ` set cs then Some (bumped fk (m cid)) else m cid)"
proof (induction cs arbitrary: m)
  case (Cons c cs)
  then show ?case by (auto simp: survey_container_bumped)
qed simp

definition survey_entry :: "SectionSource list \<Rightarrow> containerFold option" where
  "survey_entry b =
     (if b = [] then None
      else Some \<lparr>cf_kind = kind_of (foldKind (hd b)), cf_count = length b,
        cf_mixed = (\<exists>s\<in>set b. foldKind s \<noteq> Some (kind_of (foldKind (hd b))))\<rparr>)"

lemma survey_entry_snoc: "Some (bumped (foldKind s) (survey_entry b)) = survey_entry (b @ [s])"
  by (cases "foldKind s") (auto simp: survey_entry_def bumped_def kind_of_def Let_def hd_append split: option.splits)

lemma surveyFold_spec:
  assumes "distinct_paths sources"
  shows "fs_subtrees (surveyFold sources) cid = survey_entry (beneath cid sources)
    \<and> fs_direct (surveyFold sources) (cid, k) = length (siblings cid k sources)"
  using assms
proof (induction sources rule: rev_induct)
  case Nil
  then show ?case by (simp add: surveyFold_def beneath_def siblings_def survey_entry_def)
next
  case (snoc s sources)
  have IH: "fs_subtrees (surveyFold sources) cid = survey_entry (beneath cid sources)"
    "fs_direct (surveyFold sources) (cid, k) = length (siblings cid k sources)"
    using snoc by (auto simp: distinct_paths_def)
  have d: "distinct (map cr_ID (ss_Containers s))" using snoc.prems by (simp add: distinct_paths_def)
  have step: "surveyFold (sources @ [s]) = survey_section (surveyFold sources) s" by (simp add: surveyFold_def)
  show ?case
  proof (cases "inert s")
    case True
    then have "foldKind s \<noteq> Some k" for k using foldKind_Some(3) by blast
    then show ?thesis using True IH by (simp add: step survey_section_def beneath_def siblings_def)
  next
    case False
    have "fs_subtrees (surveyFold (sources @ [s])) cid = survey_entry (beneath cid (sources @ [s]))"
      using False IH(1) survey_path [OF d] survey_entry_snoc
      by (simp add: step survey_section_def Let_def beneath_def)
    moreover have "fs_direct (surveyFold (sources @ [s])) (cid, k) = length (siblings cid k (sources @ [s]))"
      using False IH(2) foldKind_Some(2) [of s k]
      by (auto simp: step survey_section_def Let_def siblings_def split: option.split list.split)
    ultimately show ?thesis by blast
  qed
qed

lemma uniform_loop_takeWhile:
  "(\<And>c. c \<in> set cs \<Longrightarrow> \<exists>f. fs_subtrees v (cr_ID c) = Some f \<and> (cf_mixed f \<longleftrightarrow> \<not> P c)) \<Longrightarrow>
     uniform_loop v i cs = Some (i + length (takeWhile P cs))"
proof (induction cs arbitrary: i)
  case (Cons c cs)
  obtain f where "fs_subtrees v (cr_ID c) = Some f" "cf_mixed f \<longleftrightarrow> \<not> P c" using Cons.prems [of c] by auto
  then show ?case using Cons.IH [of "Suc i"] Cons.prems by auto
qed simp

lemma beneath_own:
  "s \<in> set sources \<Longrightarrow> foldKind s = Some k \<Longrightarrow> c \<in> set (ss_Containers s) \<Longrightarrow> s \<in> set (beneath (cr_ID c) sources)"
  using foldKind_Some(3) by (auto simp: beneath_def)

lemma survey_entry_own:
  assumes "s \<in> set b" "foldKind s = Some k"
  shows "\<exists>f. survey_entry b = Some f \<and> (cf_mixed f \<longleftrightarrow> \<not> (\<forall>s\<in>set b. foldKind s = Some k)) \<and> cf_count f = length b"
proof -
  have "b \<noteq> []" using assms by auto
  moreover have "foldKind (hd b) = Some k" if "\<forall>s\<in>set b. foldKind s = Some k" using that \<open>b \<noteq> []\<close> by simp
  moreover have "k = k'" if "\<forall>s\<in>set b. foldKind s = Some k'" for k' using that assms by auto
  ultimately show ?thesis using assms by (fastforce simp: survey_entry_def kind_of_def split: option.splits)
qed

lemma fold_target_rule:
  assumes d: "distinct_paths sources" and s: "s \<in> set sources"
  shows "fold_target (surveyFold sources) s = Some (fold_rule sources s)"
proof (cases "foldKind s")
  case None
  then show ?thesis by (simp add: fold_target_def fold_rule_def)
next
  case (Some k)
  let ?v = "surveyFold sources" and ?cs = "ss_Containers s"
  let ?P = "\<lambda>c. uniform_under (cr_ID c) k sources"
  let ?u = "takeWhile ?P ?cs"
  have entry: "\<exists>f. fs_subtrees ?v (cr_ID c) = Some f \<and> (cf_mixed f \<longleftrightarrow> \<not> ?P c)
      \<and> cf_count f = length (beneath (cr_ID c) sources)" if "c \<in> set ?cs" for c
    using survey_entry_own [OF beneath_own [OF s Some that] Some] surveyFold_spec [OF d]
    by (simp add: uniform_under_def)
  have loop: "uniform_loop ?v 0 ?cs = Some (length ?u)"
    using uniform_loop_takeWhile [of ?cs ?v ?P 0] entry by fastforce
  obtain c cs where cs: "?cs = c # cs" using foldKind_Some(2) [OF Some] by (cases ?cs) auto
  have last: "?u \<noteq> [] \<Longrightarrow> ?cs ! (length ?u - 1) = last ?u"
    by (metis last_conv_nth takeWhile_nth diff_less length_greater_0_conv zero_less_one)
  have top: "?u \<noteq> [] \<Longrightarrow> \<exists>t. drop (length ?u - 1) ?cs = last ?u # t"
    using last by (metis Cons_nth_drop_Suc diff_less length_greater_0_conv length_takeWhile_le less_le_trans zero_less_one)
  have up: "\<exists>f. fs_subtrees ?v (cr_ID (last ?u)) = Some f \<and> cf_count f = length (beneath (cr_ID (last ?u)) sources)"
    if "?u \<noteq> []" using entry [of "last ?u"] set_takeWhileD [of "last ?u" ?P ?cs] last_in_set [OF that] by blast
  have direct: "fs_direct ?v (cr_ID c, k) = length (siblings (cr_ID c) k sources)"
    using surveyFold_spec [OF d] by blast
  show ?thesis
  proof (cases "?u = []")
    case True
    then show ?thesis using Some loop cs direct
      by (simp add: fold_target_def fold_rule_def highestUniform_def Let_def)
  next
    case False
    obtain f where f: "fs_subtrees ?v (cr_ID (last ?u)) = Some f"
      "cf_count f = length (beneath (cr_ID (last ?u)) sources)" using up [OF False] by blast
    have "length ?u \<noteq> 0" using False by simp
    then have "highestUniform ?v s =
        Some (if length (beneath (cr_ID (last ?u)) sources) < 2 then None else Some (drop (length ?u - 1) ?cs))"
      using loop f last [OF False] by (simp add: highestUniform_def)
    then show ?thesis using Some False top [OF False] cs direct
      by (auto simp: fold_target_def fold_rule_def Let_def not_less)
  qed
qed

subsection \<open>No row counts a single section\<close>

text \<open>
  The containers of a run form a tree: a container's own enclosing path is the same whichever section
  names it, and no path passes a container twice.
\<close>

definition nested_paths :: "SectionSource list \<Rightarrow> bool" where
  "nested_paths sources \<longleftrightarrow>
     distinct_paths sources \<and>
     (\<forall>s\<in>set sources. \<forall>t\<in>set sources. \<forall>a c b a' c' b'.
        ss_Containers s = a @ c # b \<longrightarrow> ss_Containers t = a' @ c' # b' \<longrightarrow> cr_ID c = cr_ID c' \<longrightarrow> c = c' \<and> b = b')"

lemma nested_pathsD:
  assumes "nested_paths sources" "s \<in> set sources" "t \<in> set sources"
    "ss_Containers s = a @ c # b" "ss_Containers t = a' @ c' # b'" "cr_ID c = cr_ID c'"
  shows "c = c'" "b = b'"
  using assms unfolding nested_paths_def by blast+

lemma fold_rule_cong:
  "foldKind s = foldKind t \<Longrightarrow> ss_Containers s = ss_Containers t \<Longrightarrow> fold_rule sources s = fold_rule sources t"
  by (cases "foldKind t") (simp_all add: fold_rule_def Let_def)

lemma another_index:
  assumes "2 \<le> length (filter P xs)" "i < length xs" "P (xs ! i)"
  shows "\<exists>j<length xs. j \<noteq> i \<and> P (xs ! j)"
proof (rule ccontr)
  assume "\<not> ?thesis"
  then have "{j. j < length xs \<and> P (xs ! j)} \<subseteq> {i}" by blast
  then have "card {j. j < length xs \<and> P (xs ! j)} \<le> card {i}" by (intro card_mono) simp_all
  then show False using assms(1) by (simp add: length_filter_conv_card)
qed

text \<open>Everything beneath a container lies beneath the containers around it.\<close>

lemma uniform_under_inner:
  assumes n: "nested_paths sources" and t: "t \<in> set sources" and path: "ss_Containers t = a @ c # b"
    and u: "uniform_under (cr_ID c) k sources" and x: "x \<in> set a"
  shows "uniform_under (cr_ID x) k sources"
  unfolding uniform_under_def
proof
  fix s assume s: "s \<in> set (beneath (cr_ID x) sources)"
  then obtain x' where x': "x' \<in> set (ss_Containers s)" "cr_ID x' = cr_ID x" by (auto simp: beneath_def)
  obtain a1 a2 where a: "a = a1 @ x # a2" using x by (meson split_list)
  obtain s1 s2 where p: "ss_Containers s = s1 @ x' # s2" using x'(1) by (meson split_list)
  have "s \<in> set sources" using s by (simp add: beneath_def)
  then have "s2 = a2 @ c # b" using nested_pathsD(2) [OF n _ t p _ x'(2), of a1 "a2 @ c # b"] path a by simp
  then have "s \<in> set (beneath (cr_ID c) sources)" using s p by (simp add: beneath_def)
  then show "foldKind s = Some k" using u by (simp add: uniform_under_def)
qed

lemma lifted_together:
  assumes n: "nested_paths sources" and s: "s \<in> set sources" "foldKind s = Some k"
    and u: "u = takeWhile (\<lambda>c. uniform_under (cr_ID c) k sources) (ss_Containers s)" "u \<noteq> []"
    and two: "2 \<le> length (beneath (cr_ID (last u)) sources)"
    and t: "t \<in> set (beneath (cr_ID (last u)) sources)"
  shows "fold_rule sources t = fold_rule sources s"
proof -
  let ?P = "\<lambda>c. uniform_under (cr_ID c) k sources" and ?c = "last u"
  define b where "b = dropWhile ?P (ss_Containers s)"
  have path: "ss_Containers s = butlast u @ ?c # b" unfolding b_def u(1)
    using takeWhile_dropWhile_id [of ?P "ss_Containers s"] u append_butlast_last_id [of u] by (metis append_Cons append_assoc append_Nil)
  have Pc: "?P ?c" using u set_takeWhileD last_in_set by metis
  have b: "b = [] \<or> \<not> ?P (hd b)" unfolding b_def using hd_dropWhile by blast
  have t': "t \<in> set sources" "cr_ID ?c \<in> cr_ID ` set (ss_Containers t)"
    using t by (auto simp: beneath_def)
  then obtain a' c' b' where pt: "ss_Containers t = a' @ c' # b'" "cr_ID ?c = cr_ID c'"
    using split_list by (metis imageE)
  have same: "?c = c'" "b = b'" using nested_pathsD [OF n s(1) t'(1) path pt(1,2)] by simp_all
  have kt: "foldKind t = Some k" using Pc t by (simp add: uniform_under_def)
  have inner: "\<forall>x\<in>set a'. ?P x"
    using uniform_under_inner [OF n t'(1) pt(1)] Pc same(1) by blast
  have ut: "takeWhile ?P (ss_Containers t) = a' @ [?c]"
    using inner Pc b same unfolding pt(1) by (cases b) (auto simp: takeWhile_append2)
  have "drop (length u - 1) (ss_Containers s) = ?c # b"
    using path u(2) by (metis append_eq_conv_conj length_butlast)
  moreover have "drop (length (a' @ [?c]) - 1) (ss_Containers t) = ?c # b" using pt same by simp
  ultimately show ?thesis using s(2) kt u two ut by (simp add: fold_rule_def Let_def)
qed

lemma folded_together:
  assumes n: "nested_paths sources" and i: "i < length sources"
    and r: "fold_rule sources (sources ! i) = Some (path, key)"
  shows "\<exists>j<length sources. j \<noteq> i \<and> fold_rule sources (sources ! j) = Some (path, key)"
proof -
  let ?s = "sources ! i"
  have s: "?s \<in> set sources" using i by simp
  obtain k where k: "foldKind ?s = Some k" using r by (cases "foldKind ?s") (auto simp: fold_rule_def)
  let ?u = "takeWhile (\<lambda>c. uniform_under (cr_ID c) k sources) (ss_Containers ?s)"
  show ?thesis
  proof (cases "?u \<noteq> [] \<and> 2 \<le> length (beneath (cr_ID (last ?u)) sources)")
    case True
    then have "last ?u \<in> set (ss_Containers ?s)" using set_takeWhileD last_in_set by metis
    then have own: "\<not> inert ?s \<and> cr_ID (last ?u) \<in> cr_ID ` set (ss_Containers ?s)"
      using beneath_own [OF s k] by (simp add: beneath_def)
    obtain j where j: "j < length sources" "j \<noteq> i"
      "\<not> inert (sources ! j) \<and> cr_ID (last ?u) \<in> cr_ID ` set (ss_Containers (sources ! j))"
      using another_index [OF True [THEN conjunct2, unfolded beneath_def] i] own by blast
    then have "sources ! j \<in> set (beneath (cr_ID (last ?u)) sources)" by (simp add: beneath_def)
    then show ?thesis using lifted_together [OF n s k refl] True r j by metis
  next
    case False
    obtain c cs where cs: "ss_Containers ?s = c # cs" using foldKind_Some(2) [OF k] by (cases "ss_Containers ?s") auto
    have two: "2 \<le> length (siblings (cr_ID c) k sources)"
      using r k False cs by (auto simp: fold_rule_def Let_def split: if_splits)
    obtain j where j: "j < length sources" "j \<noteq> i" "foldKind (sources ! j) = Some k"
      "cr_ID (hd (ss_Containers (sources ! j))) = cr_ID c"
      using another_index [OF two [unfolded siblings_def] i] k cs by auto
    obtain d ds where ds: "ss_Containers (sources ! j) = d # ds" using foldKind_Some(2) [OF j(3)] by (cases "ss_Containers (sources ! j)") auto
    have ids: "cr_ID c = cr_ID d" using j(4) ds by simp
    have paths: "ss_Containers ?s = [] @ c # cs" "ss_Containers (sources ! j) = [] @ d # ds" using cs ds by simp_all
    have "c = d \<and> cs = ds" using nested_pathsD [OF n s nth_mem [OF j(1)] paths ids] by blast
    then have "fold_rule sources (sources ! j) = fold_rule sources ?s"
      using cs ds k j(3) by (intro fold_rule_cong) auto
    then show ?thesis using j r by auto
  qed
qed

subsection \<open>The layout\<close>

text \<open>
  The ledger as the comment states it: one row per section that does not fold and is not streamed, and
  one row per container and Effect at the place of its first member, counting every member.
\<close>

definition row_key :: "SectionSource list \<Rightarrow> SectionSource \<Rightarrow> foldKey option" where
  "row_key sources s = map_option snd (fold_rule sources s)"

definition leads :: "SectionSource list \<Rightarrow> SectionSource list \<Rightarrow> nat \<Rightarrow> bool" where
  "leads sources xs i \<longleftrightarrow>
     (case row_key sources (xs ! i) of None \<Rightarrow> \<not> ss_Streamed (xs ! i)
      | Some key \<Rightarrow> list_all (\<lambda>j. row_key sources (xs ! j) \<noteq> Some key) [0..<i])"

definition leaders :: "SectionSource list \<Rightarrow> SectionSource list \<Rightarrow> nat list" where
  "leaders sources xs = filter (leads sources xs) [0..<length xs]"

definition members :: "SectionSource list \<Rightarrow> SectionSource list \<Rightarrow> foldKey \<Rightarrow> SectionSource list" where
  "members sources xs key = filter (\<lambda>s. row_key sources s = Some key) xs"

definition counted :: "SectionSource list \<Rightarrow> SectionSource list \<Rightarrow> foldKey \<Rightarrow> int" where
  "counted sources xs key =
     int64 (\<Sum>s\<leftarrow>members sources xs key. \<Sum>r\<leftarrow>ss_Records s. er_Quantity r)"

definition lead_row ::
    "gostring \<Rightarrow> int \<Rightarrow> SectionSource list \<Rightarrow> SectionSource list \<Rightarrow> nat \<Rightarrow> EffectSection" where
  "lead_row kind width sources xs i =
     (case fold_rule sources (xs ! i) of None \<Rightarrow> own_section kind width (xs ! i)
      | Some (path, key) \<Rightarrow>
          folded_section kind width (cr_Name (hd path)) (snd key) (counted sources xs key))"

lemma fold_rule_path:
  assumes "fold_rule sources s = Some (path, key)"
  shows "path \<noteq> []" "foldKind s = Some (snd key)" "fst key = cr_ID (hd path)"
proof -
  obtain k where k: "foldKind s = Some k" using assms by (cases "foldKind s") (auto simp: fold_rule_def)
  let ?cs = "ss_Containers s" and ?u = "takeWhile (\<lambda>c. uniform_under (cr_ID c) k sources) (ss_Containers s)"
  have "hd (drop (length ?u - 1) ?cs) = last ?u \<and> drop (length ?u - 1) ?cs \<noteq> []" if "?u \<noteq> []"
  proof -
    have "length ?u - 1 < length ?u" using that by simp
    then have "length ?u - 1 < length ?cs" "?cs ! (length ?u - 1) = last ?u"
      using that by (meson length_takeWhile_le less_le_trans) (metis \<open>length ?u - 1 < length ?u\<close> last_conv_nth takeWhile_nth that)
    then show ?thesis by (simp add: hd_drop_conv_nth)
  qed
  then show "path \<noteq> []" "foldKind s = Some (snd key)" "fst key = cr_ID (hd path)"
    using assms k foldKind_Some(2) [OF k] by (auto simp: fold_rule_def Let_def split: if_splits)
qed

lemma quantityOf_sum: "quantityOf rs = int64 (\<Sum>r\<leftarrow>rs. er_Quantity r)"
proof -
  have "foldl (\<lambda>t r. int64 (t + er_Quantity r)) (int64 n) rs = int64 (n + (\<Sum>r\<leftarrow>rs. er_Quantity r))" for n
  proof (induction rs arbitrary: n)
    case (Cons r rs)
    then show ?case by (simp add: int64_add add.assoc)
  qed simp
  from this [of 0] show ?thesis by (simp add: quantityOf_def int64_small)
qed

lemma leads_append: "i < length xs \<Longrightarrow> leads sources (xs @ ys) i = leads sources xs i"
  by (auto simp: leads_def nth_append list_all_iff split: option.splits)

lemma leaders_snoc:
  "leaders sources (xs @ [s]) =
     leaders sources xs @
       (if case row_key sources s of None \<Rightarrow> \<not> ss_Streamed s | Some key \<Rightarrow> members sources xs key = []
        then [length xs] else [])"
proof -
  have "filter (leads sources (xs @ [s])) [0..<length xs] = leaders sources xs"
    unfolding leaders_def by (rule filter_cong) (simp_all add: leads_append)
  moreover have "leads sources (xs @ [s]) (length xs) \<longleftrightarrow>
      (case row_key sources s of None \<Rightarrow> \<not> ss_Streamed s | Some key \<Rightarrow> members sources xs key = [])"
    by (auto simp: leads_def members_def list_all_iff nth_append filter_empty_conv all_set_conv_all_nth split: option.split)
  ultimately show ?thesis by (simp add: leaders_def)
qed

lemma leaders_bound: "j < length (leaders sources xs) \<Longrightarrow> leaders sources xs ! j < length xs"
  using nth_mem [of j "leaders sources xs"] by (simp add: leaders_def)

lemma leaders_unique:
  assumes "i < length (leaders sources xs)" "j < length (leaders sources xs)"
    and "row_key sources (xs ! (leaders sources xs ! i)) = Some key" "row_key sources (xs ! (leaders sources xs ! j)) = Some key"
  shows "i = j"
proof -
  have l: "leads sources xs (leaders sources xs ! n)" if "n < length (leaders sources xs)" for n
    using nth_mem [OF that] by (simp add: leaders_def)
  have "leaders sources xs ! i = leaders sources xs ! j"
    using l [OF assms(1)] l [OF assms(2)] assms(3,4)
    by (cases "leaders sources xs ! i" "leaders sources xs ! j" rule: linorder_cases)
      (auto simp: leads_def list_all_iff)
  then show ?thesis using assms(1,2) nth_eq_iff_index_eq [of "leaders sources xs"] by (simp add: leaders_def)
qed

lemma counted_snoc:
  "counted sources (xs @ [s]) key =
     (if row_key sources s = Some key then int64 (counted sources xs key + quantityOf (ss_Records s))
      else counted sources xs key)"
  by (simp add: counted_def members_def quantityOf_sum int64_add)

lemma lead_row_snoc:
  assumes "i < length xs"
  shows "lead_row kind width sources (xs @ [s]) i =
    (case row_key sources (xs ! i) of None \<Rightarrow> lead_row kind width sources xs i
     | Some key \<Rightarrow>
        if row_key sources s = Some key
        then (lead_row kind width sources xs i)
          \<lparr>es_Records := [\<lparr>er_Verb = ek_verb (snd key),
             er_Quantity = int64 (counted sources xs key + quantityOf (ss_Records s)),
             er_HasQty = True, er_Object = ek_object (snd key)\<rparr>]\<rparr>
        else lead_row kind width sources xs i)"
  using assms
  by (auto simp: lead_row_def nth_append row_key_def counted_snoc folded_section_def split: option.splits)

text \<open>A shown row carries the subject of its section; a key points at the row that leads it.\<close>

definition shown_ok :: "EffectSection list \<Rightarrow> shownSubject \<Rightarrow> bool" where
  "shown_ok out r \<longleftrightarrow>
     (case sh_out r of None \<Rightarrow> sh_container r = []
      | Some i \<Rightarrow> i < length out \<and> sh_text r = es_Subject (out ! i))"

definition at_ok :: "SectionSource list \<Rightarrow> SectionSource list \<Rightarrow> foldKey \<Rightarrow> nat option \<Rightarrow> bool" where
  "at_ok sources xs key at \<longleftrightarrow>
     (case at of None \<Rightarrow> members sources xs key = []
      | Some i \<Rightarrow> i < length (leaders sources xs) \<and> row_key sources (xs ! (leaders sources xs ! i)) = Some key)"

definition fold_inv ::
    "gostring \<Rightarrow> int \<Rightarrow> SectionSource list \<Rightarrow> SectionSource list \<Rightarrow> foldState \<Rightarrow> bool" where
  "fold_inv kind width sources xs st \<longleftrightarrow>
     fo_out st = map (lead_row kind width sources xs) (leaders sources xs)
     \<and> (\<forall>key. at_ok sources xs key (fo_at st key))
     \<and> List.map_filter sh_out (fo_shown st) = [0..<length (fo_out st)]
     \<and> (\<forall>r\<in>set (fo_shown st). shown_ok (fo_out st) r)"

lemma fold_invD:
  assumes "fold_inv kind width sources xs st"
  shows "fo_out st = map (lead_row kind width sources xs) (leaders sources xs)"
    "at_ok sources xs key (fo_at st key)"
    "List.map_filter sh_out (fo_shown st) = [0..<length (fo_out st)]"
    "\<forall>r\<in>set (fo_shown st). shown_ok (fo_out st) r"
  using assms unfolding fold_inv_def by blast+

lemma map_filter_snoc: "List.map_filter f (xs @ [x]) = List.map_filter f xs @ (case f x of None \<Rightarrow> [] | Some y \<Rightarrow> [y])"
  by (simp add: List.map_filter_def split: option.split)

lemma old_rows:
  assumes "\<And>key. row_key sources s = Some key \<Longrightarrow> members sources xs key = []"
  shows "map (lead_row kind width sources (xs @ [s])) (leaders sources xs) = map (lead_row kind width sources xs) (leaders sources xs)"
proof (rule map_cong [OF refl])
  fix i assume i: "i \<in> set (leaders sources xs)"
  then have "i < length xs" by (simp add: leaders_def)
  moreover have "row_key sources s \<noteq> Some key" if "row_key sources (xs ! i) = Some key" for key
    using assms [of key] that \<open>i < length xs\<close> by (auto simp: members_def filter_empty_conv)
  ultimately show "lead_row kind width sources (xs @ [s]) i = lead_row kind width sources xs i"
    by (auto simp: lead_row_snoc split: option.split)
qed

lemma shown_ok_append: "shown_ok out r \<Longrightarrow> shown_ok (out @ ys) r"
  by (auto simp: shown_ok_def nth_append split: option.splits)

lemma at_ok_snoc:
  assumes "at_ok sources xs key at" "row_key sources s \<noteq> Some key"
  shows "at_ok sources (xs @ [s]) key at"
  using assms leaders_bound [of _ sources xs]
  by (auto simp: at_ok_def members_def leaders_snoc nth_append split: option.splits)

lemma step_unfolded:
  assumes inv: "fold_inv kind width sources xs st" and none: "fold_rule sources s = None"
  shows "fold_inv kind width sources (xs @ [s]) (show_unfolded kind width s st)"
proof -
  note D = fold_invD [OF inv]
  have key: "row_key sources s = None" using none by (simp add: row_key_def)
  have old: "map (lead_row kind width sources (xs @ [s])) (leaders sources xs) = fo_out st"
    using old_rows [of sources s xs kind width] key D(1) by simp
  have lead: "leaders sources (xs @ [s]) = leaders sources xs @ (if ss_Streamed s then [] else [length xs])"
    by (simp add: leaders_snoc key)
  have new: "lead_row kind width sources (xs @ [s]) (length xs) = own_section kind width s"
    by (simp add: lead_row_def none)
  have at: "at_ok sources (xs @ [s]) key (fo_at st key)" for key using at_ok_snoc D(2) key by auto
  show ?thesis
  proof (cases "ss_Streamed s")
    case True
    then show ?thesis using old lead at D(3,4)
      by (simp add: fold_inv_def show_unfolded_def Let_def map_filter_snoc) (simp add: shown_ok_def)
  next
    case False
    then show ?thesis using old lead new at D(3,4) shown_ok_append
      by (simp add: fold_inv_def show_unfolded_def Let_def map_filter_snoc)
        (simp add: shown_ok_def own_section_def)
  qed
qed

lemma step_first:
  assumes inv: "fold_inv kind width sources xs st" and r: "fold_rule sources s = Some (path, key)" and none: "fo_at st key = None"
  shows "fold_inv kind width sources (xs @ [s])
    \<lparr>fo_out = fo_out st @ [folded_section kind width (cr_Name (hd path)) (snd key) (quantityOf (ss_Records s))],
     fo_at = (fo_at st)(key \<mapsto> length (fo_out st)),
     fo_shown = fo_shown st @ [\<lparr>sh_text = cr_Name (hd path), sh_out = Some (length (fo_out st)),
       sh_owner = cr_ID (hd path), sh_container = path\<rparr>]\<rparr>"
proof -
  note D = fold_invD [OF inv]
  have key: "row_key sources s = Some key" using r by (simp add: row_key_def)
  have none': "members sources xs key = []" using D(2) [of key] none by (simp add: at_ok_def)
  have old: "map (lead_row kind width sources (xs @ [s])) (leaders sources xs) = fo_out st"
    using old_rows [of sources s xs kind width] key none' D(1) by simp
  have lead: "leaders sources (xs @ [s]) = leaders sources xs @ [length xs]"
    by (simp add: leaders_snoc key none')
  have "counted sources (xs @ [s]) key = quantityOf (ss_Records s)"
    using key none' by (simp add: counted_def members_def quantityOf_sum)
  then have new: "lead_row kind width sources (xs @ [s]) (length xs)
      = folded_section kind width (cr_Name (hd path)) (snd key) (quantityOf (ss_Records s))"
    by (simp add: lead_row_def r)
  have len: "length (fo_out st) = length (leaders sources xs)" using D(1) by simp
  have at: "at_ok sources (xs @ [s]) key' (((fo_at st)(key \<mapsto> length (fo_out st))) key')" for key'
  proof (cases "key' = key")
    case True
    then show ?thesis using len key by (simp add: at_ok_def lead)
  next
    case False
    then show ?thesis using at_ok_snoc [OF D(2) [of key'], of s] key by simp
  qed
  have "shown_ok (fo_out st @ [folded_section kind width (cr_Name (hd path)) (snd key) (quantityOf (ss_Records s))])
     \<lparr>sh_text = cr_Name (hd path), sh_out = Some (length (fo_out st)), sh_owner = cr_ID (hd path), sh_container = path\<rparr>"
    by (simp add: shown_ok_def folded_section_def)
  then show ?thesis using old lead new at D(3,4) shown_ok_append by (simp add: fold_inv_def map_filter_snoc)
qed

lemma step_counted:
  assumes inv: "fold_inv kind width sources xs st" and r: "fold_rule sources s = Some (path, key)" and some: "fo_at st key = Some at"
  shows "\<exists>out. count_onto at (quantityOf (ss_Records s)) (fo_out st) = Some out
    \<and> fold_inv kind width sources (xs @ [s]) (st\<lparr>fo_out := out\<rparr>)"
proof -
  note D = fold_invD [OF inv]
  let ?L = "leaders sources xs" and ?q = "quantityOf (ss_Records s)"
  have key: "row_key sources s = Some key" using r by (simp add: row_key_def)
  have at: "at < length ?L" "row_key sources (xs ! (?L ! at)) = Some key"
    using D(2) [of key] some by (auto simp: at_ok_def)
  have mem: "members sources xs key \<noteq> []"
    using at leaders_bound [OF at(1)] by (auto simp: members_def filter_empty_conv)
  have lead: "leaders sources (xs @ [s]) = ?L" by (simp add: leaders_snoc key mem)
  define row where "row = lead_row kind width sources xs (?L ! at)"
  have atrow: "fo_out st ! at = row" "length (fo_out st) = length ?L" using D(1) at(1) by (simp_all add: row_def)
  obtain path' where "fold_rule sources (xs ! (?L ! at)) = Some (path', key)" using at(2) by (auto simp: row_key_def)
  then have recs: "es_Records row = [\<lparr>er_Verb = ek_verb (snd key), er_Quantity = counted sources xs key,
      er_HasQty = True, er_Object = ek_object (snd key)\<rparr>]"
    by (simp add: row_def lead_row_def folded_section_def)
  define row' where "row' = row\<lparr>es_Records := [\<lparr>er_Verb = ek_verb (snd key),
      er_Quantity = int64 (counted sources xs key + ?q), er_HasQty = True, er_Object = ek_object (snd key)\<rparr>]\<rparr>"
  have count: "count_onto at ?q (fo_out st) = Some ((fo_out st)[at := row'])"
    using at(1) atrow recs by (simp add: count_onto_def row'_def)
  have rows: "(fo_out st)[at := row'] = map (lead_row kind width sources (xs @ [s])) (leaders sources (xs @ [s]))"
  proof (rule nth_equalityI)
    fix j assume "j < length ((fo_out st)[at := row'])"
    then have j: "j < length ?L" using atrow by simp
    have "j = at" if "row_key sources (xs ! (?L ! j)) = Some key" using leaders_unique [OF j at(1) that at(2)] .
    then show "(fo_out st)[at := row'] ! j = map (lead_row kind width sources (xs @ [s])) (leaders sources (xs @ [s])) ! j"
      using j at atrow leaders_bound [OF j] leaders_bound [OF at(1)] D(1) key lead
      by (auto simp: nth_list_update lead_row_snoc row'_def row_def split: option.split)
  qed (use lead atrow in simp)
  have "at_ok sources (xs @ [s]) k (fo_at st k)" for k
  proof (cases "k = key")
    case True
    then show ?thesis using some at leaders_bound [OF at(1)] by (simp add: at_ok_def lead nth_append)
  next
    case False
    then show ?thesis using at_ok_snoc D(2) key by simp
  qed
  moreover have "shown_ok ((fo_out st)[at := row']) x" if "shown_ok (fo_out st) x" for x
    using that atrow at(1) by (auto simp: shown_ok_def nth_list_update row'_def split: option.splits)
  ultimately have "fold_inv kind width sources (xs @ [s]) (st\<lparr>fo_out := (fo_out st)[at := row']\<rparr>)"
    using rows D(3,4) lead atrow by (simp add: fold_inv_def)
  then show ?thesis using count by blast
qed

lemma fold_step_spec:
  assumes d: "distinct_paths sources" and s: "s \<in> set sources" and inv: "fold_inv kind width sources xs st"
  shows "\<exists>st'. fold_step (surveyFold sources) kind width st s = Some st' \<and> fold_inv kind width sources (xs @ [s]) st'"
proof (cases "fold_rule sources s")
  case None
  then show ?thesis using step_unfolded [OF inv None] by (simp add: fold_step_def fold_target_rule [OF d s])
next
  case (Some pk)
  obtain path key where r: "fold_rule sources s = Some (path, key)" using Some by (cases pk) auto
  obtain t ts where path: "path = t # ts" using fold_rule_path(1) [OF r] by (cases path) auto
  show ?thesis
  proof (cases "fo_at st key")
    case None
    then show ?thesis using step_first [OF inv r None] path r by (simp add: fold_step_def fold_target_rule [OF d s])
  next
    case (Some at)
    then show ?thesis using step_counted [OF inv r Some] r by (auto simp: fold_step_def fold_target_rule [OF d s])
  qed
qed

lemma fold_loop_spec:
  assumes d: "distinct_paths sources"
  shows "set ys \<subseteq> set sources \<Longrightarrow> fold_inv kind width sources xs st \<Longrightarrow>
    \<exists>st'. fold_loop (surveyFold sources) kind width st ys = Some st' \<and> fold_inv kind width sources (xs @ ys) st'"
proof (induction ys arbitrary: xs st)
  case (Cons y ys)
  obtain st1 where st1: "fold_step (surveyFold sources) kind width st y = Some st1" "fold_inv kind width sources (xs @ [y]) st1"
    using fold_step_spec [OF d _ Cons.prems(2), of y] Cons.prems(1) by auto
  then show ?case using Cons.IH [OF _ st1(2)] Cons.prems(1) by auto
qed simp

lemma fold_inv_start:
  "fold_inv kind width sources [] \<lparr>fo_out = [], fo_at = (\<lambda>_. None), fo_shown = []\<rparr>"
  by (simp add: fold_inv_def at_ok_def members_def leaders_def List.map_filter_def)

text \<open>Qualifying changes subjects only, and a row stays in step with its section.\<close>

definition plain :: "EffectSection \<Rightarrow> EffectSection" where
  "plain s = s\<lparr>es_Subject := [], es_NameWidth := 0\<rparr>"

lemma qualify_rows_spec:
  "distinct (List.map_filter sh_out shown) \<Longrightarrow> \<forall>r\<in>set shown. shown_ok out r \<Longrightarrow>
     \<exists>shown' out'. qualify_rows dup shown out = Some (shown', out') \<and> map plain out' = map plain out
       \<and> map sh_out shown' = map sh_out shown \<and> (\<forall>r\<in>set shown'. shown_ok out' r)
       \<and> (\<forall>i. i \<notin> set (List.map_filter sh_out shown) \<longrightarrow> es_Subject (out' ! i) = es_Subject (out ! i))"
proof (induction shown arbitrary: out)
  case (Cons s rest)
  have step: "\<exists>shown' out'. qualify_rows dup rest out1 = Some (shown', out') \<and> map plain out' = map plain out
       \<and> map sh_out (s1 # shown') = map sh_out (s # rest) \<and> (\<forall>r\<in>set (s1 # shown'). shown_ok out' r)
       \<and> (\<forall>i. i \<notin> set (List.map_filter sh_out (s # rest)) \<longrightarrow> es_Subject (out' ! i) = es_Subject (out ! i))"
    if out1: "map plain out1 = map plain out" and others: "\<forall>i. sh_out s \<noteq> Some i \<longrightarrow> es_Subject (out1 ! i) = es_Subject (out ! i)"
      and s1: "sh_out s1 = sh_out s" "shown_ok out1 s1" for out1 s1
  proof -
    have dis: "distinct (List.map_filter sh_out rest)" "\<forall>i. sh_out s = Some i \<longrightarrow> i \<notin> set (List.map_filter sh_out rest)"
      using Cons.prems(1) by (auto simp: List.map_filter_def split: if_splits option.splits)
    have len: "length out1 = length out" using out1 map_eq_imp_length_eq by blast
    have "shown_ok out1 r" if "r \<in> set rest" for r
    proof -
      have ok: "shown_ok out r" using that Cons.prems(2) by simp
      have "sh_out r = Some i \<Longrightarrow> sh_out s \<noteq> Some i" for i using dis(2) that by (force simp: List.map_filter_def)
      then show ?thesis using ok others len by (auto simp: shown_ok_def split: option.splits)
    qed
    then obtain shown' out' where q: "qualify_rows dup rest out1 = Some (shown', out')" "map plain out' = map plain out1"
        "map sh_out shown' = map sh_out rest" "\<forall>r\<in>set shown'. shown_ok out' r"
        "\<forall>i. i \<notin> set (List.map_filter sh_out rest) \<longrightarrow> es_Subject (out' ! i) = es_Subject (out1 ! i)"
      using Cons.IH [OF dis(1)] by blast
    have len': "length out' = length out1" using q(2) map_eq_imp_length_eq by blast
    have "shown_ok out' s1" using s1 q(5) dis(2) len' by (auto simp: shown_ok_def split: option.splits)
    moreover have "es_Subject (out' ! i) = es_Subject (out ! i)" if "i \<notin> set (List.map_filter sh_out (s # rest))" for i
      using that q(5) others by (auto simp: List.map_filter_def split: if_splits option.splits)
    ultimately show ?thesis using q out1 s1 by auto
  qed
  show ?case
  proof (cases "length (sh_container s) < 2 \<or> \<not> dup (sh_text s)")
    case True
    then show ?thesis using step [of out s] Cons.prems(2) by fastforce
  next
    case False
    then obtain i where i: "sh_out s = Some i" "i < length out"
      using Cons.prems(2) by (auto simp: shown_ok_def split: option.splits)
    define name where "name = Qualify (drop 1 (sh_container s)) (sh_text s)"
    let ?out1 = "out[i := (out ! i)\<lparr>es_Subject := name\<rparr>]"
    have "map plain ?out1 = map plain out"
      using i(2) by (intro nth_equalityI) (auto simp: nth_list_update plain_def)
    moreover have "\<forall>j. sh_out s \<noteq> Some j \<longrightarrow> es_Subject (?out1 ! j) = es_Subject (out ! j)"
      using i by (auto simp: nth_list_update)
    moreover have "shown_ok ?out1 (s\<lparr>sh_text := name\<rparr>)" using i by (simp add: shown_ok_def)
    ultimately show ?thesis using step [of ?out1 "s\<lparr>sh_text := name\<rparr>"] False i by (fastforce simp: name_def Let_def)
  qed
qed simp

text \<open>Aligning changes the width only, to one that every shown subject fits.\<close>

lemma widest_max: "foldl (\<lambda>w s. max w (f s)) (b :: int) xs = foldl max b (map f xs)"
  by (induction xs arbitrary: b) auto

lemma widest_upper: "b \<le> foldl max b xs \<and> (\<forall>x\<in>set xs. x \<le> foldl max (b :: int) xs)"
proof (induction xs arbitrary: b)
  case (Cons x xs)
  have "max b x \<le> foldl max (max b x) xs" "\<forall>y\<in>set xs. y \<le> foldl max (max b x) xs"
    using Cons.IH [of "max b x"] by blast+
  then show ?case by simp
qed simp

lemma alignSubjects_spec:
  assumes rows: "map sh_out shown = map sh_out shown0" "List.map_filter sh_out shown0 = [0..<length out]"
    and ok: "\<forall>r\<in>set shown. shown_ok out r"
  shows "map plain (alignSubjects U out shown) = map plain out"
    "2 \<le> length out \<Longrightarrow> \<forall>s\<in>set (alignSubjects U out shown). Cells U (es_Subject s) \<le> es_NameWidth s"
proof -
  show "map plain (alignSubjects U out shown) = map plain out" by (simp add: alignSubjects_def plain_def Let_def)
  assume two: "2 \<le> length out"
  have "List.map_filter id (map sh_out shown) = [0..<length out]"
    using rows by (simp add: List.map_filter_def filter_map o_def)
  then have outs: "List.map_filter sh_out shown = [0..<length out]" by (simp add: List.map_filter_def filter_map o_def)
  then have "length (List.map_filter sh_out shown) = length out" by simp
  then have len: "2 \<le> length shown"
    using two length_filter_le [of "\<lambda>x. sh_out x \<noteq> None" shown] by (simp add: List.map_filter_def)
  have "Cells U (es_Subject (out ! i)) \<le> foldl max 0 (map (\<lambda>s. Cells U (sh_text s)) shown)" if "i < length out" for i
  proof -
    have "i \<in> set (List.map_filter sh_out shown)" using outs that by simp
    then obtain r where r: "r \<in> set shown" "sh_out r = Some i" by (auto simp: List.map_filter_def)
    then have same: "sh_text r = es_Subject (out ! i)" using ok by (auto simp: shown_ok_def)
    have top:  "\<forall>x\<in>set (map (\<lambda>s. Cells U (sh_text s)) shown). x \<le> foldl max 0 (map (\<lambda>s. Cells U (sh_text s)) shown)"
      by (rule widest_upper [THEN conjunct2])
    have "Cells U (sh_text r) \<in> set (map (\<lambda>s. Cells U (sh_text s)) shown)" using r(1) by simp
    then show ?thesis unfolding same [symmetric] by (rule top [rule_format])
  qed
  then have "\<forall>s\<in>set out. Cells U (es_Subject s) \<le> foldl max 0 (map (\<lambda>s. Cells U (sh_text s)) shown)"
    by (auto simp only: in_set_conv_nth)
  then have "\<forall>s\<in>set out. Cells U (es_Subject s) \<le> foldl (\<lambda>w s. max w (Cells U (sh_text s))) 0 shown"
    by (subst widest_max)
  then show "\<forall>s\<in>set (alignSubjects U out shown). Cells U (es_Subject s) \<le> es_NameWidth s"
    using len by (simp add: alignSubjects_def Let_def)
qed

lemma alignSubjects_width:
  "\<forall>s\<in>set out. es_NameWidth s = 0 \<Longrightarrow> s \<in> set (alignSubjects U out shown) \<Longrightarrow> t \<in> set (alignSubjects U out shown)
     \<Longrightarrow> es_NameWidth s = es_NameWidth t"
  by (auto simp: alignSubjects_def Let_def split: if_splits)

lemma lead_row_width: "es_NameWidth (lead_row kind width sources xs i) = 0"
  by (auto simp: lead_row_def own_section_def folded_section_def split: option.splits)

lemma qualify_rows_width:
  "\<forall>s\<in>set out. es_NameWidth s = n \<Longrightarrow> qualify_rows dup shown out = Some (shown', out') \<Longrightarrow> \<forall>s\<in>set out'. es_NameWidth s = n"
proof (induction dup shown out arbitrary: shown' rule: qualify_rows.induct)
  case (2 dup s rest out)
  show ?case
  proof (cases "length (sh_container s) < 2 \<or> \<not> dup (sh_text s)")
    case True
    then show ?thesis using 2(1) [OF True 2(3)] 2(4) by auto
  next
    case False
    then obtain i where i: "sh_out s = Some i" "i < length out" using 2(4) by (auto simp: Let_def split: option.splits if_splits)
    let ?out1 = "out[i := (out ! i)\<lparr>es_Subject := Qualify (drop 1 (sh_container s)) (sh_text s)\<rparr>]"
    have "\<forall>s\<in>set ?out1. es_NameWidth s = n" using 2(3) i(2) set_update_subset_insert [of out i] by fastforce
    then show ?thesis using 2(2) [OF False refl i(1)] 2(4) False i by (auto simp: Let_def)
  qed
qed simp

text \<open>The pieces of one call, as the properties use them.\<close>

lemma FoldEffectSections_run:
  assumes d: "distinct_paths sources"
  obtains st shown out where
    "fold_loop (surveyFold sources) kind width \<lparr>fo_out = [], fo_at = (\<lambda>_. None), fo_shown = []\<rparr> sources = Some st"
    "fold_inv kind width sources sources st"
    "qualify_rows (duplicated_subjects (fo_shown st)) (fo_shown st) (fo_out st) = Some (shown, out)"
    "map plain out = map plain (fo_out st)" "map sh_out shown = map sh_out (fo_shown st)" "\<forall>r\<in>set shown. shown_ok out r"
    "FoldEffectSections U kind width sources = Some (alignSubjects U out shown)"
proof -
  obtain st where st: "fold_loop (surveyFold sources) kind width \<lparr>fo_out = [], fo_at = (\<lambda>_. None), fo_shown = []\<rparr> sources = Some st"
      "fold_inv kind width sources sources st"
    using fold_loop_spec [OF d subset_refl fold_inv_start] by auto
  have dis: "distinct (List.map_filter sh_out (fo_shown st))" "\<forall>r\<in>set (fo_shown st). shown_ok (fo_out st) r"
    using fold_invD(3,4) [OF st(2)] by simp_all
  obtain shown out where "qualify_rows (duplicated_subjects (fo_shown st)) (fo_shown st) (fo_out st) = Some (shown, out)"
      "map plain out = map plain (fo_out st)" "map sh_out shown = map sh_out (fo_shown st)" "\<forall>r\<in>set shown. shown_ok out r"
    using qualify_rows_spec [OF dis] by blast
  then show thesis using that st by (simp add: FoldEffectSections_def qualifyDuplicates_def)
qed

text \<open>
  Laying the ledger out never panics. A section that does not fold keeps its row unless it was
  streamed; the sections one container folds for one Effect are one row, at the place of the first, that
  counts them all, as the fold rule says. All rows share one subject column, which every subject fits
  when there are two.
\<close>

theorem ledger_layout:
  assumes "distinct_paths sources"
  shows "\<exists>out. FoldEffectSections U kind width sources = Some out
    \<and> map plain out = map (\<lambda>i. plain (lead_row kind width sources sources i)) (leaders sources sources)
    \<and> (\<exists>column. list_all (\<lambda>s. es_NameWidth s = column \<and> (2 \<le> length out \<longrightarrow> Cells U (es_Subject s) \<le> column)) out)"
proof -
  obtain st shown out where run:
    "fold_inv kind width sources sources st"
    "qualify_rows (duplicated_subjects (fo_shown st)) (fo_shown st) (fo_out st) = Some (shown, out)"
    "map plain out = map plain (fo_out st)" "map sh_out shown = map sh_out (fo_shown st)" "\<forall>r\<in>set shown. shown_ok out r"
    "FoldEffectSections U kind width sources = Some (alignSubjects U out shown)"
    using FoldEffectSections_run [OF assms] by metis
  note D = fold_invD [OF run(1)]
  have lens: "length out = length (fo_out st)" "length (alignSubjects U out shown) = length out"
    using run(3) map_eq_imp_length_eq by (auto simp: alignSubjects_def Let_def)
  have widths: "\<forall>s\<in>set out. es_NameWidth s = 0"
    by (rule qualify_rows_width [OF _ run(2)]) (auto simp: D(1) lead_row_width)
  note al = alignSubjects_spec [OF run(4) _ run(5), of U]
  have "map plain (alignSubjects U out shown) = map (\<lambda>i. plain (lead_row kind width sources sources i)) (leaders sources sources)"
    using al(1) D(3) lens run(3) D(1) by simp
  moreover have "list_all (\<lambda>s. es_NameWidth s = column \<and> (2 \<le> length out \<longrightarrow> Cells U (es_Subject s) \<le> column))
      (alignSubjects U out shown)" if column: "column = es_NameWidth (hd (alignSubjects U out shown))" for column
    unfolding list_all_iff
  proof
    fix s assume s: "s \<in> set (alignSubjects U out shown)"
    then have "es_NameWidth s = column"
      unfolding column by (metis alignSubjects_width [OF widths] hd_in_set emptyE empty_set)
    then show "es_NameWidth s = column \<and> (2 \<le> length out \<longrightarrow> Cells U (es_Subject s) \<le> column)"
      using al(2) D(3) lens(1) s by auto
  qed
  ultimately show ?thesis using run(6) lens(2) by auto
qed

subsection \<open>Nothing is lost or invented\<close>

text \<open>The quantity a list of records states for one Effect, and a whole ledger's.\<close>

definition stated :: "effectKind \<Rightarrow> EffectRecord list \<Rightarrow> int" where
  "stated k records = (\<Sum>r\<leftarrow>filter (\<lambda>r. record_kind r = k) records. er_Quantity r)"

definition ledger_total :: "effectKind \<Rightarrow> EffectSection list \<Rightarrow> int" where
  "ledger_total k out = (\<Sum>s\<leftarrow>out. stated k (es_Records s))"

definition source_total :: "effectKind \<Rightarrow> SectionSource list \<Rightarrow> int" where
  "source_total k sources = (\<Sum>s\<leftarrow>filter (\<lambda>s. \<not> ss_Streamed s) sources. stated k (ss_Records s))"

lemma stated_uniform:
  "\<forall>r\<in>set records. record_kind r = k' \<Longrightarrow>
     stated k records = (if k' = k then (\<Sum>r\<leftarrow>records. er_Quantity r) else 0)"
  by (induction records) (auto simp: stated_def)

lemma sum_list_replace:
  "i < length xs \<Longrightarrow> (\<Sum>x\<leftarrow>xs[i := y]. f x) = (\<Sum>x\<leftarrow>xs. f x) - f (xs ! i) + (f y :: int)"
proof (induction xs arbitrary: i)
  case (Cons x xs)
  then show ?case by (cases i) auto
qed simp

lemma count_onto_total:
  assumes "count_onto at q out = Some out'" "es_Records (out ! at) = [r]"
  shows "ledger_total k out' =
    ledger_total k out + (if record_kind r = k then int64 (er_Quantity r + q) - er_Quantity r else 0)"
proof -
  have at: "at < length out" using assms(1) by (auto simp: count_onto_def split: if_splits)
  have out': "out' = out[at := (out ! at)\<lparr>es_Records := [r\<lparr>er_Quantity := int64 (er_Quantity r + q)\<rparr>]\<rparr>]"
    using assms by (auto simp: count_onto_def split: if_splits)
  show ?thesis
    unfolding out' ledger_total_def sum_list_replace [OF at]
    using assms(2) by (simp add: stated_def record_kind_def)
qed

lemma folded_row_record:
  assumes inv: "fold_inv kind width sources xs st" and some: "fo_at st key = Some at"
  shows "\<exists>r. es_Records (fo_out st ! at) = [r] \<and> record_kind r = snd key"
proof -
  have at: "at < length (leaders sources xs)" "row_key sources (xs ! (leaders sources xs ! at)) = Some key"
    using fold_invD(2) [OF inv, of key] some by (auto simp: at_ok_def)
  then obtain path where "fold_rule sources (xs ! (leaders sources xs ! at)) = Some (path, key)" by (auto simp: row_key_def)
  then have "fo_out st ! at = folded_section kind width (cr_Name (hd path)) (snd key) (counted sources xs key)"
    using fold_invD(1) [OF inv] at(1) by (simp add: lead_row_def)
  then show ?thesis by (simp add: folded_section_def record_kind_def)
qed

lemma int64_shift: "int64 a = int64 b \<Longrightarrow> int64 (a + c) = int64 (b + c)"
  by (metis int64_add(1))

lemma fold_step_total:
  assumes d: "distinct_paths sources" and s: "s \<in> set sources" and inv: "fold_inv kind width sources xs st"
    and step: "fold_step (surveyFold sources) kind width st s = Some st'"
  shows "int64 (ledger_total k (fo_out st')) = int64 (ledger_total k (fo_out st) + source_total k [s])"
proof (cases "fold_rule sources s")
  case None
  then have "st' = show_unfolded kind width s st" using step by (simp add: fold_step_def fold_target_rule [OF d s])
  then show ?thesis
    by (simp add: show_unfolded_def Let_def ledger_total_def source_total_def own_section_def)
next
  case (Some pk)
  obtain path key where r: "fold_rule sources s = Some (path, key)" using Some by (cases pk) auto
  note fk = fold_rule_path(2) [OF r]
  have src: "source_total k [s] = (if snd key = k then (\<Sum>r\<leftarrow>ss_Records s. er_Quantity r) else 0)"
    using foldKind_Some(1,4) [OF fk] stated_uniform [of "ss_Records s" "snd key" k] by (simp add: source_total_def)
  obtain t ts where path: "path = t # ts" using fold_rule_path(1) [OF r] by (cases path) auto
  show ?thesis
  proof (cases "fo_at st key")
    case None
    then have "ledger_total k (fo_out st') = ledger_total k (fo_out st)
        + (if snd key = k then quantityOf (ss_Records s) else 0)"
      using step path r by (auto simp: fold_step_def fold_target_rule [OF d s] ledger_total_def folded_section_def
          stated_def record_kind_def)
    then show ?thesis using src by (simp add: quantityOf_sum int64_add)
  next
    case (Some at)
    obtain r0 where r0: "es_Records (fo_out st ! at) = [r0]" "record_kind r0 = snd key"
      using folded_row_record [OF inv Some] by blast
    have "count_onto at (quantityOf (ss_Records s)) (fo_out st) = Some (fo_out st')"
      using step Some r by (auto simp: fold_step_def fold_target_rule [OF d s])
    note total = count_onto_total [OF this r0(1), of k]
    show ?thesis
    proof (cases "snd key = k")
      case True
      have "int64 (int64 (er_Quantity r0 + quantityOf (ss_Records s))
            + (ledger_total k (fo_out st) - er_Quantity r0))
          = int64 (ledger_total k (fo_out st) + (\<Sum>r\<leftarrow>ss_Records s. er_Quantity r))"
        unfolding int64_add(1) quantityOf_sum by (simp add: int64_add add.commute)
      moreover have "ledger_total k (fo_out st') = int64 (er_Quantity r0 + quantityOf (ss_Records s))
          + (ledger_total k (fo_out st) - er_Quantity r0)" using total r0(2) True by simp
      ultimately show ?thesis using src True by simp
    qed (use total src r0(2) in simp)
  qed
qed

lemma fold_loop_total:
  assumes d: "distinct_paths sources"
  shows "set ys \<subseteq> set sources \<Longrightarrow> fold_inv kind width sources xs st \<Longrightarrow>
    fold_loop (surveyFold sources) kind width st ys = Some st' \<Longrightarrow>
    int64 (ledger_total k (fo_out st')) = int64 (ledger_total k (fo_out st) + source_total k ys)"
proof (induction ys arbitrary: xs st)
  case (Cons y ys)
  obtain st1 where st1: "fold_step (surveyFold sources) kind width st y = Some st1" "fold_inv kind width sources (xs @ [y]) st1"
    using fold_step_spec [OF d _ Cons.prems(2), of y] Cons.prems(1) by auto
  have "int64 (ledger_total k (fo_out st')) = int64 (ledger_total k (fo_out st1) + source_total k ys)"
    using Cons.IH [OF _ st1(2)] Cons.prems(1,3) st1(1) by simp
  also have "\<dots> = int64 (ledger_total k (fo_out st) + source_total k [y] + source_total k ys)"
    by (rule int64_shift) (rule fold_step_total [OF d _ Cons.prems(2) st1(1)], use Cons.prems(1) in simp)
  also have "ledger_total k (fo_out st) + source_total k [y] + source_total k ys
      = ledger_total k (fo_out st) + source_total k (y # ys)" by (simp add: source_total_def)
  finally show ?case .
qed (simp add: source_total_def)

lemma ledger_total_plain: "map plain out = map plain out' \<Longrightarrow> ledger_total k out = ledger_total k out'"
proof -
  assume "map plain out = map plain out'"
  then have "map (\<lambda>s. stated k (es_Records s)) (map plain out) = map (\<lambda>s. stated k (es_Records s)) (map plain out')" by simp
  then show ?thesis by (simp add: ledger_total_def plain_def o_def)
qed

text \<open>
  (C39) The fold loses no counted item and invents none: for every verb and object, the written rows
  state the total the sections recorded, in the 64 bits the sums are kept in. Sections already streamed
  are not written again.
\<close>

theorem fold_keeps_totals:
  assumes "distinct_paths sources"
  shows "\<exists>out. FoldEffectSections U kind width sources = Some out
    \<and> int64 (ledger_total k out) = int64 (source_total k sources)"
proof -
  obtain st shown out where run:
    "fold_loop (surveyFold sources) kind width \<lparr>fo_out = [], fo_at = (\<lambda>_. None), fo_shown = []\<rparr> sources = Some st"
    "map plain out = map plain (fo_out st)" "FoldEffectSections U kind width sources = Some (alignSubjects U out shown)"
    using FoldEffectSections_run [OF assms] by metis
  have "map plain (alignSubjects U out shown) = map plain out" by (simp add: alignSubjects_def plain_def Let_def)
  then have "ledger_total k (alignSubjects U out shown) = ledger_total k (fo_out st)"
    using run(2) ledger_total_plain by metis
  then show ?thesis
    using fold_loop_total [OF assms subset_refl fold_inv_start run(1), of k] run(3) by (simp add: ledger_total_def)
qed

text \<open>
  A folded row always speaks for at least two sections, which all record the same Effect beneath
  the container it names: where the containers form a tree, a section that folds has another that folds
  into the same container, along the same path, with the same verb and object.
\<close>

theorem fold_never_lone:
  assumes "nested_paths sources" "i < length sources"
    and "fold_target (surveyFold sources) (sources ! i) = Some (Some (path, key))"
  shows "\<exists>j<length sources. j \<noteq> i \<and> fold_target (surveyFold sources) (sources ! j) = Some (Some (path, key))
    \<and> foldKind (sources ! i) = Some (snd key) \<and> foldKind (sources ! j) = Some (snd key)
    \<and> fst key = cr_ID (hd path)"
proof -
  have d: "distinct_paths sources" using assms(1) by (simp add: nested_paths_def)
  have r: "fold_rule sources (sources ! i) = Some (path, key)"
    using assms(3) fold_target_rule [OF d nth_mem [OF assms(2)]] by simp
  obtain j where "j < length sources" "j \<noteq> i" "fold_rule sources (sources ! j) = Some (path, key)"
    using folded_together [OF assms(1,2) r] by blast
  then show ?thesis using fold_rule_path [OF r] fold_rule_path(2) fold_target_rule [OF d nth_mem] by metis
qed

subsection \<open>A concrete ledger\<close>

text \<open>Two items of one Group fold; a third Task, outside it, does not.\<close>

definition sample_source :: "gostring \<Rightarrow> int \<Rightarrow> ContainerPath \<Rightarrow> SectionSource" where
  "sample_source name quantity path =
     \<lparr>ss_Subject = name, ss_Records = [\<lparr>er_Verb = ''deleted'', er_Quantity = quantity, er_HasQty = True, er_Object = ''branch''\<rparr>],
      ss_IntendedVerb = [], ss_Containers = path, ss_Streamed = False\<rparr>"

definition sample_group :: ContainerRef where
  "sample_group = \<lparr>cr_ID = ''g1'', cr_Name = ''prune''\<rparr>"

definition sample_tables :: unicode_tables where
  "sample_tables = \<lparr>in_Mn = \<lambda>_. False, in_Me = \<lambda>_. False, in_Cf = \<lambda>_. False\<rparr>"

definition sample_sources :: "SectionSource list" where
  "sample_sources = [sample_source ''a'' 2 [sample_group], sample_source ''z'' 7 [], sample_source ''b'' 3 [sample_group]]"

lemma sample_nested: "nested_paths sample_sources"
  by (auto simp: nested_paths_def distinct_paths_def sample_sources_def sample_source_def Cons_eq_append_conv)

theorem ledger_layout_witness:
  "\<exists>out. FoldEffectSections sample_tables ''changed'' 80 sample_sources = Some out \<and>
     map (\<lambda>s. map er_Quantity (es_Records s)) out = [[5], [7]]"
proof -
  obtain out where out: "FoldEffectSections sample_tables ''changed'' 80 sample_sources = Some out"
    "map plain out = map (\<lambda>i. plain (lead_row ''changed'' 80 sample_sources sample_sources i)) (leaders sample_sources sample_sources)"
    using ledger_layout [of sample_sources sample_tables "''changed''" 80] sample_nested by (auto simp: nested_paths_def)
  have rule: "map (fold_rule sample_sources) sample_sources =
      [Some ([sample_group], (''g1'', \<lparr>ek_verb = ''deleted'', ek_object = ''branch''\<rparr>)), None,
       Some ([sample_group], (''g1'', \<lparr>ek_verb = ''deleted'', ek_object = ''branch''\<rparr>))]"
    by code_simp
  then have "leaders sample_sources sample_sources = [0, 1]" by code_simp
  then have "map (\<lambda>s. map er_Quantity (es_Records s)) (map plain out) = [[5], [7]]"
    unfolding out(2) by code_simp
  then show ?thesis using out(1) by (auto simp: plain_def o_def)
qed

theorem fold_keeps_totals_witness:
  "\<exists>out. FoldEffectSections sample_tables ''changed'' 80 sample_sources = Some out
     \<and> int64 (ledger_total \<lparr>ek_verb = ''deleted'', ek_object = ''branch''\<rparr> out) = 12"
proof -
  have "int64 (source_total \<lparr>ek_verb = ''deleted'', ek_object = ''branch''\<rparr> sample_sources) = 12" by code_simp
  then show ?thesis
    using fold_keeps_totals [of sample_sources sample_tables "''changed''" 80 "\<lparr>ek_verb = ''deleted'', ek_object = ''branch''\<rparr>"]
      sample_nested by (simp add: nested_paths_def)
qed

theorem fold_never_lone_witness:
  "\<exists>j<3. j \<noteq> 0 \<and> (\<exists>path key. fold_target (surveyFold sample_sources) (sample_sources ! j) = Some (Some (path, key)))"
proof -
  have "fold_target (surveyFold sample_sources) (sample_sources ! 0)
      = Some (Some ([sample_group], (''g1'', \<lparr>ek_verb = ''deleted'', ek_object = ''branch''\<rparr>)))" by code_simp
  moreover have "length sample_sources = 3" by (simp add: sample_sources_def)
  ultimately show ?thesis using fold_never_lone [OF sample_nested, of 0] by (metis zero_less_numeral)
qed

end
