(* ===== verification/Render_Effects.thy ===== *)
theory Render_Effects
  imports Render_Fold Text_Words
begin

text \<open>
  The written ledger, \<open>internal/render/effects.go\<close> with the styles of \<open>style.go\<close> it uses: how one
  [changed] or [planned] section reads, and the one line an early end states about what was already
  mutated. A writer's \<open>strings.Builder\<close> is the text it appends. The Unicode tables of the cell counts
  and the letters of the plural rule are parameters, \<open>U\<close> and \<open>L\<close>.
\<close>

subsection \<open>Styles (style.go)\<close>

record RenderStyle =
  sty_Color :: bool
  sty_Verbose :: bool
  sty_Profile :: GlyphProfile

definition style_Dim :: "RenderStyle \<Rightarrow> gostring \<Rightarrow> gostring" where
  "style_Dim s t = Dim t (sty_Color s)"

definition Paint :: "RenderStyle \<Rightarrow> gostring \<Rightarrow> gostring \<Rightarrow> gostring" where
  "Paint s t sgr = Style t sgr (sty_Color s)"

definition WarningGlyph :: "RenderStyle \<Rightarrow> gostring" where
  "WarningGlyph s = Style (Render GlyphWarningState (sty_Profile s)) SGRYellow (sty_Color s)"

definition OverflowGlyph :: "RenderStyle \<Rightarrow> gostring" where
  "OverflowGlyph s = style_Dim s (Render GlyphOverflow (sty_Profile s))"

definition EffectColor :: "gostring \<Rightarrow> gostring" where
  "EffectColor kind =
     (if kind = ''changed'' then SGRGreen else if kind = ''planned'' then SGRBlue else SGRCyan)"

subsection \<open>Counts\<close>

text \<open>\<open>strconv.FormatInt(n, 10)\<close>.\<close>

definition FormatInt :: "int \<Rightarrow> gostring" where
  "FormatInt n = (if n < 0 then CHR ''-'' # dec (nat (- n)) else dec (nat n))"

text \<open>\<open>for i := len(digits) - 3; i > 0; i -= 3\<close>.\<close>

function comma_loop :: "gostring \<Rightarrow> int \<Rightarrow> gostring" where
  "comma_loop digits i =
     (if 0 < i then comma_loop (take (nat i) digits @ '','' @ drop (nat i) digits) (i - 3) else digits)"
  by pat_completeness auto

termination
  by (relation "measure (\<lambda>(_, i). nat i)") auto

declare comma_loop.simps [simp del]

definition quantityText :: "int \<Rightarrow> gostring" where
  "quantityText n =
     (let digits = FormatInt n;
          sign = (if n < 0 then ''-'' else '''');
          digits = (if n < 0 then drop 1 digits else digits)
      in sign @ comma_loop digits (int (length digits) - 3))"

definition ledgerObject :: "(rune \<Rightarrow> bool) \<Rightarrow> EffectRecord \<Rightarrow> gostring" where
  "ledgerObject L r = (if \<not> er_HasQty r then er_Object r else Pluralize L (er_Quantity r) (er_Object r))"

subsection \<open>Merging identical records\<close>

definition merged_record :: "EffectRecord \<Rightarrow> EffectRecord \<Rightarrow> EffectRecord" where
  "merged_record m r =
     (let m = (if \<not> er_HasQty m then m\<lparr>er_HasQty := True, er_Quantity := 1\<rparr> else m)
      in m\<lparr>er_Quantity := int64 (er_Quantity m + (if er_HasQty r then er_Quantity r else 1))\<rparr>)"

definition merge_step ::
    "(effectKind \<Rightarrow> nat option) \<times> EffectRecord list \<Rightarrow> EffectRecord \<Rightarrow> (effectKind \<Rightarrow> nat option) \<times> EffectRecord list" where
  "merge_step st r =
     (case fst st (record_kind r) of
        Some i \<Rightarrow> (fst st, (snd st)[i := merged_record (snd st ! i) r])
      | None \<Rightarrow> ((fst st)(record_kind r \<mapsto> length (snd st)), snd st @ [r]))"

definition mergeIdenticalEffectRecords :: "EffectRecord list \<Rightarrow> EffectRecord list" where
  "mergeIdenticalEffectRecords records = snd (foldl merge_step ((\<lambda>_. None), []) records)"

subsection \<open>Writing one section\<close>

definition LF :: gostring where "LF = [CHR 0x0A]"

definition CompactLayoutMaxWidth :: int where "CompactLayoutMaxWidth = 40"

definition maxVisibleEffectRows :: nat where "maxVisibleEffectRows = 5"

definition maxEffectLeader :: int where "maxEffectLeader = 12"

definition writeNothingToDo :: "EffectSection \<Rightarrow> gostring" where
  "writeNothingToDo sec =
     (if es_IntendedVerb sec \<noteq> [] then ''nothing to '' @ es_IntendedVerb sec @ '' '' @ es_Subject sec @ LF
      else ''nothing to change for '' @ es_Subject sec @ LF)"

definition writeEffectLine :: "unicode_tables \<Rightarrow> (rune \<Rightarrow> bool) \<Rightarrow> gostring \<Rightarrow> EffectSection \<Rightarrow> EffectRecord \<Rightarrow> gostring" where
  "writeEffectLine U L tag sec r =
     (let name = PadRight U (es_Subject sec) (es_NameWidth sec)
      in if er_HasQty r
         then tag @ '' '' @ name @ ''  '' @ er_Verb r @ '' '' @ quantityText (er_Quantity r) @ '' '' @ ledgerObject L r @ LF
         else tag @ '' '' @ name @ ''  '' @ er_Verb r @ '' '' @ er_Object r @ LF)"

definition compact_row :: "(rune \<Rightarrow> bool) \<Rightarrow> EffectRecord \<Rightarrow> gostring" where
  "compact_row L r =
     (if er_HasQty r then ''  '' @ er_Verb r @ '' '' @ quantityText (er_Quantity r) @ '' '' @ ledgerObject L r @ LF
      else ''  '' @ er_Verb r @ '' '' @ er_Object r @ LF)"

definition writeCompactEffects :: "(rune \<Rightarrow> bool) \<Rightarrow> EffectRecord list \<Rightarrow> gostring" where
  "writeCompactEffects L visible = concat (map (compact_row L) visible)"

text \<open>The widest verb and quantity, in bytes, and one aligned row; the leader is U+00B7.\<close>

definition max_verb :: "EffectRecord list \<Rightarrow> int" where
  "max_verb visible = foldl (\<lambda>m r. max m (int (length (er_Verb r)))) 0 visible"

definition max_qty :: "EffectRecord list \<Rightarrow> int" where
  "max_qty visible =
     foldl (\<lambda>m r. if er_HasQty r then max m (int (length (quantityText (er_Quantity r)))) else m) 0 visible"

definition aligned_row ::
    "unicode_tables \<Rightarrow> (rune \<Rightarrow> bool) \<Rightarrow> RenderStyle \<Rightarrow> int \<Rightarrow> int \<Rightarrow> EffectRecord \<Rightarrow> gostring" where
  "aligned_row U L s maxVerb maxQty r =
     (let verb = PadRight U (er_Verb r) maxVerb;
          gap = min (maxVerb - int (length (er_Verb r))) maxEffectLeader
      in if er_HasQty r
         then ''  '' @ verb @ ''  '' @ PadLeft U (quantityText (er_Quantity r)) maxQty @ '' '' @ ledgerObject L r @ LF
         else if gap > 2
         then ''  '' @ er_Verb r @ style_Dim s (concat (replicate (nat gap) [CHR 0xC2, CHR 0xB7])) @ '' '' @ er_Object r @ LF
         else ''  '' @ verb @ ''  '' @ PadLeft U '''' maxQty @ '' '' @ er_Object r @ LF)"

definition writeAlignedEffects ::
    "unicode_tables \<Rightarrow> (rune \<Rightarrow> bool) \<Rightarrow> EffectRecord list \<Rightarrow> RenderStyle \<Rightarrow> gostring" where
  "writeAlignedEffects U L visible s =
     concat (map (aligned_row U L s (max_verb visible) (max_qty visible)) visible)"

definition writeEffectOverflow :: "nat \<Rightarrow> RenderStyle \<Rightarrow> gostring" where
  "writeEffectOverflow omitted s =
     (if omitted = 0 then []
      else ''  '' @ OverflowGlyph s @ ''  +'' @ FormatInt (int omitted) @ '' more (not shown)'' @ LF)"

definition WriteEffects :: "unicode_tables \<Rightarrow> (rune \<Rightarrow> bool) \<Rightarrow> EffectSection \<Rightarrow> RenderStyle \<Rightarrow> gostring" where
  "WriteEffects U L sec s =
     (if es_Records sec = [] then writeNothingToDo sec
      else
        let tag = Paint s (''['' @ es_Kind sec @ '']'') (EffectColor (es_Kind sec));
            visible = mergeIdenticalEffectRecords (es_Records sec)
        in if length visible = 1 then writeEffectLine U L tag sec (visible ! 0)
           else
             let omitted = length visible - maxVisibleEffectRows;
                 shown = take (length visible - omitted) visible
             in tag @ ''  '' @ es_Subject sec @ LF
                @ (if 0 < es_Width sec \<and> es_Width sec < CompactLayoutMaxWidth then writeCompactEffects L shown
                   else writeAlignedEffects U L shown s)
                @ writeEffectOverflow omitted s)"

subsection \<open>The whole ledger\<close>

definition change_source :: "ChangesSnapshot \<Rightarrow> SectionSource" where
  "change_source c = \<lparr>ss_Subject = ch_Subject c, ss_Records = ch_Records c, ss_IntendedVerb = ch_IntendedVerb c,
     ss_Containers = ch_containers c, ss_Streamed = False\<rparr>"

definition plan_source :: "PlanSnapshot \<Rightarrow> SectionSource" where
  "plan_source p = \<lparr>ss_Subject = pl_Subject p, ss_Records = pl_Records p, ss_IntendedVerb = pl_IntendedVerb p,
     ss_Containers = pl_containers p, ss_Streamed = False\<rparr>"

definition WriteLedger ::
    "unicode_tables \<Rightarrow> (rune \<Rightarrow> bool) \<Rightarrow> Snapshot \<Rightarrow> int \<Rightarrow> RenderStyle \<Rightarrow> gostring option" where
  "WriteLedger U L snap width s =
     Option.bind (FoldEffectSections U ''changed'' width (map change_source (s_Changes snap))) (\<lambda>changes.
       Option.bind (FoldEffectSections U ''planned'' width (map plan_source (s_Plans snap))) (\<lambda>plans.
         Some (concat (map (\<lambda>sec. WriteEffects U L sec s) (changes @ plans)))))"

subsection \<open>What was already mutated\<close>

record mutatedEffect =
  me_verb :: gostring
  me_object :: gostring
  me_countable :: bool
  me_total :: int
  me_owners :: "gostring list"

text \<open>Only called for a section with records; the panic of an empty one is \<open>None\<close>.\<close>

definition changeSectionEffect :: "ChangesSnapshot \<Rightarrow> mutatedEffect option" where
  "changeSectionEffect ch =
     (case ch_Records ch of [] \<Rightarrow> None
      | r0 # _ \<Rightarrow>
          let total = foldl (\<lambda>t r. int64 (t + (if er_HasQty r then er_Quantity r else 1))) 0 (ch_Records ch);
              mixedVerb = list_ex (\<lambda>r. er_Verb r \<noteq> er_Verb r0) (ch_Records ch);
              mixedObject = list_ex (\<lambda>r. er_Object r \<noteq> er_Object r0) (ch_Records ch)
          in Some \<lparr>me_verb = (if mixedVerb then [] else er_Verb r0),
                   me_object = (if mixedObject then ch_Subject ch else er_Object r0),
                   me_countable = (\<not> mixedObject), me_total = total, me_owners = [ch_Subject ch]\<rparr>)"

text \<open>The key \<open>verb\<close>, NUL, \<open>object\<close>, NUL, \<open>countable\<close>, printed by \<open>Sprintf\<close>.\<close>

definition mutated_key :: "mutatedEffect \<Rightarrow> gostring" where
  "mutated_key e = me_verb e @ [CHR 0x00] @ me_object e @ [CHR 0x00] @ (if me_countable e then ''true'' else ''false'')"

definition aggregate_step ::
    "(gostring \<Rightarrow> nat option) \<times> mutatedEffect list \<Rightarrow> ChangesSnapshot
      \<Rightarrow> (gostring \<Rightarrow> nat option) \<times> mutatedEffect list" where
  "aggregate_step st ch =
     (case changeSectionEffect ch of None \<Rightarrow> st
      | Some e \<Rightarrow>
          (case fst st (mutated_key e) of
             Some at \<Rightarrow> (fst st, (snd st)[at := (snd st ! at)
               \<lparr>me_total := int64 (me_total (snd st ! at) + me_total e), me_owners := me_owners (snd st ! at) @ me_owners e\<rparr>])
           | None \<Rightarrow> ((fst st)(mutated_key e \<mapsto> length (snd st)), snd st @ [e])))"

definition aggregateMutatedEffects :: "ChangesSnapshot list \<Rightarrow> mutatedEffect list" where
  "aggregateMutatedEffects changes = snd (foldl aggregate_step ((\<lambda>_. None), []) changes)"

definition mutated_text :: "(rune \<Rightarrow> bool) \<Rightarrow> mutatedEffect \<Rightarrow> gostring" where
  "mutated_text L e =
     (let object = (if me_countable e then Pluralize L (me_total e) (me_object e) else me_object e)
      in if me_verb e = [] then quantityText (me_total e) @ '' '' @ object @ '' changed''
         else quantityText (me_total e) @ '' '' @ object @ '' '' @ me_verb e)"

definition SummarizeAlreadyMutated :: "(rune \<Rightarrow> bool) \<Rightarrow> ChangesSnapshot list \<Rightarrow> gostring option" where
  "SummarizeAlreadyMutated L changes =
     (let effects = aggregateMutatedEffects changes
      in if effects = [] then None
         else Some (join ''; '' (map (\<lambda>e.
           if length effects > 1 \<and> length (me_owners e) = 1 then me_owners e ! 0 @ '': '' @ mutated_text L e
           else mutated_text L e) effects)))"

definition WriteAlreadyMutated :: "(rune \<Rightarrow> bool) \<Rightarrow> ChangesSnapshot list \<Rightarrow> RenderStyle \<Rightarrow> gostring" where
  "WriteAlreadyMutated L changes s =
     (case SummarizeAlreadyMutated L changes of None \<Rightarrow> []
      | Some summary \<Rightarrow> WarningGlyph s @ ''  already mutated: '' @ summary @ LF)"

subsection \<open>Counts read back\<close>

text \<open>Groups of three digits from the right, as the loop inserts them.\<close>

function grouped :: "gostring \<Rightarrow> gostring" where
  "grouped d = (if length d \<le> 3 then d else grouped (take (length d - 3) d) @ '','' @ drop (length d - 3) d)"
  by pat_completeness auto

termination
  by (relation "measure length") auto

declare grouped.simps [simp del]

lemma comma_loop_grouped: "comma_loop (d @ rest) (int (length d) - 3) = grouped d @ rest"
proof (induction d arbitrary: rest rule: grouped.induct)
  case (1 d)
  show ?case
  proof (cases "length d \<le> 3")
    case True
    then show ?thesis by (simp add: comma_loop.simps grouped.simps [of d])
  next
    case False
    let ?n = "length d - 3"
    have i: "0 < int (length d) - 3" "nat (int (length d) - 3) = ?n" using False by auto
    have len: "int (length (take ?n d)) - 3 = int (length d) - 3 - 3" using False by simp
    have "comma_loop (d @ rest) (int (length d) - 3) = comma_loop (take ?n d @ ('','' @ drop ?n d @ rest)) (int (length d) - 3 - 3)"
      using False by (subst comma_loop.simps) (simp add: i(2))
    also have "\<dots> = grouped (take ?n d) @ '','' @ drop ?n d @ rest"
      using 1 [OF False, of "'','' @ drop ?n d @ rest"] unfolding len by simp
    finally show ?thesis using False by (simp add: grouped.simps [of d])
  qed
qed

lemma quantityText_grouped:
  "quantityText n = (if n < 0 then ''-'' @ grouped (dec (nat (- n))) else grouped (dec (nat n)))"
  using comma_loop_grouped [of _ "[]"] by (simp add: quantityText_def FormatInt_def Let_def)

lemma grouped_digits: "CHR '','' \<notin> set d \<Longrightarrow> filter (\<lambda>c. c \<noteq> CHR '','') (grouped d) = d"
proof (induction d rule: grouped.induct)
  case (1 d)
  have keep: "filter (\<lambda>c. c \<noteq> CHR '','') s = s" if "CHR '','' \<notin> set s" for s
    using that by (simp add: filter_id_conv) metis
  have "CHR '','' \<notin> set (take k d)" "CHR '','' \<notin> set (drop k d)" for k
    using 1(2) by (auto dest: in_set_takeD in_set_dropD)
  then show ?case using 1 keep by (cases "length d \<le> 3") (simp_all add: grouped.simps [of d])
qed

lemma grouped_parts:
  "CHR '','' \<notin> set d \<Longrightarrow> d \<noteq> [] \<Longrightarrow>
     (\<exists>g gs. split_on CHR '','' (grouped d) = g # gs \<and> 1 \<le> length g \<and> length g \<le> 3 \<and> list_all (\<lambda>h. length h = 3) gs)"
proof (induction d rule: grouped.induct)
  case (1 d)
  show ?case
  proof (cases "length d \<le> 3")
    case True
    then show ?thesis using 1(2,3) by (simp add: grouped.simps [of d] split_on_no_sep Suc_leI)
  next
    case False
    let ?n = "length d - 3"
    have no: "CHR '','' \<notin> set (take ?n d)" "CHR '','' \<notin> set (drop ?n d)"
      using 1(2) by (auto dest: in_set_takeD in_set_dropD)
    have "take ?n d \<noteq> []" using False by (cases d) auto
    then obtain g gs where g: "split_on CHR '','' (grouped (take ?n d)) = g # gs" "1 \<le> length g" "length g \<le> 3"
        "list_all (\<lambda>h. length h = 3) gs"
      using 1(1) [OF False no(1)] by blast
    then have "split_on CHR '','' (grouped d) = g # gs @ [drop ?n d]"
      using False no(2) by (simp add: grouped.simps [of d] split_on_append split_on_no_sep)
    then show ?thesis using g False by auto
  qed
qed

lemma dec_no_comma: "CHR '','' \<notin> set (dec n)"
  using dec_digits [of n] by (auto simp: list_all_iff is_digit_def)

text \<open>What a reader makes of the text: the commas are left out, a leading minus negates.\<close>

definition read_quantity :: "gostring \<Rightarrow> int" where
  "read_quantity s =
     (let d = filter (\<lambda>c. c \<noteq> CHR '','') s
      in if has_prefix d ''-'' then - dec_value (drop 1 d) else dec_value d)"

text \<open>
  A quantity reads back as the number it states, for every value and both signs, and its commas
  part it into groups of three digits after a first group of one to three.
\<close>

theorem quantity_reads_back:
  "read_quantity (quantityText n) = n
   \<and> (\<exists>g gs. split_on CHR '','' (quantityText n) = ((if n < 0 then ''-'' else []) @ g) # gs
        \<and> 1 \<le> length g \<and> length g \<le> 3 \<and> list_all (\<lambda>h. length h = 3) gs)"
proof -
  let ?d = "dec (nat \<bar>n\<bar>)"
  have q: "quantityText n = (if n < 0 then ''-'' else []) @ grouped ?d" by (simp add: quantityText_grouped)
  have "\<not> has_prefix ?d ''-''"
    using dec_digits [of "nat \<bar>n\<bar>"] by (cases ?d) (auto simp: is_digit_def)
  then have "read_quantity (quantityText n) = n"
    using grouped_digits [OF dec_no_comma, of "nat \<bar>n\<bar>"] dec_value_dec [of "nat \<bar>n\<bar>"]
    by (cases "n < 0") (simp_all add: q read_quantity_def)
  moreover obtain g gs where "split_on CHR '','' (grouped ?d) = g # gs" "1 \<le> length g" "length g \<le> 3"
      "list_all (\<lambda>h. length h = 3) gs"
    using grouped_parts [OF dec_no_comma, of "nat \<bar>n\<bar>"] dec_digits [of "nat \<bar>n\<bar>"] by blast
  moreover from this have "split_on CHR '','' (quantityText n) = ((if n < 0 then ''-'' else []) @ g) # gs"
    unfolding q by (cases "n < 0") simp_all
  ultimately show ?thesis by blast
qed

subsection \<open>Merging keeps every record's count\<close>

lemma merge_step_index: "merge_step = index_step record_kind (\<lambda>r. r) merged_record"
  by (intro ext) (simp add: merge_step_def index_step_def)

lemma merge_groups:
  "mergeIdenticalEffectRecords records =
     map (group_of record_kind (\<lambda>r. r) merged_record records) (firsts [] (map record_kind records))"
  by (simp add: mergeIdenticalEffectRecords_def merge_step_index index_fold)

definition record_units :: "EffectRecord \<Rightarrow> int" where
  "record_units r = (if er_HasQty r then er_Quantity r else 1)"

lemma merged_record_fields:
  "er_HasQty (merged_record m r)" "er_Quantity (merged_record m r) = int64 (record_units m + record_units r)"
  "record_kind (merged_record m r) = record_kind m"
  by (simp_all add: merged_record_def record_units_def record_kind_def Let_def)

lemma merged_records:
  "record_kind (foldl merged_record m rs) = record_kind m
   \<and> (rs \<noteq> [] \<longrightarrow> er_HasQty (foldl merged_record m rs)
        \<and> er_Quantity (foldl merged_record m rs) = int64 (record_units m + (\<Sum>r\<leftarrow>rs. record_units r)))"
proof (induction rs arbitrary: m)
  case (Cons r rs)
  have "int64 (record_units (merged_record m r) + x) = int64 (record_units m + record_units r + x)" for x
    by (simp add: record_units_def [of "merged_record m r"] merged_record_fields int64_add)
  then show ?case
    using Cons.IH [of "merged_record m r"] by (cases "rs = []") (simp_all add: merged_record_fields add.assoc)
qed simp

lemma merge_group_kind:
  assumes "k \<in> set (firsts [] (map record_kind records))"
  shows "record_kind (group_of record_kind (\<lambda>r. r) merged_record records k) = k
      \<and> (let g = filter (\<lambda>r. record_kind r = k) records; m = group_of record_kind (\<lambda>r. r) merged_record records k
         in if length g = 1 then m = hd g
            else er_HasQty m \<and> er_Quantity m = int64 (\<Sum>r\<leftarrow>g. record_units r))"
proof -
  have "k \<in> record_kind ` set records" using assms by (simp add: set_firsts)
  then have "filter (\<lambda>r. record_kind r = k) records \<noteq> []" by (auto simp: filter_empty_conv)
  then obtain m rs where g: "filter (\<lambda>r. record_kind r = k) records = m # rs" by (cases "filter (\<lambda>r. record_kind r = k) records") auto
  then have "m \<in> set (filter (\<lambda>r. record_kind r = k) records)" by simp
  then have "record_kind m = k" by simp
  then show ?thesis using g merged_records [of m rs] by (cases "rs = []") (simp_all add: group_of_def)
qed

lemma merge_identical_kinds:
  "map record_kind (mergeIdenticalEffectRecords records) = firsts [] (map record_kind records)"
  unfolding merge_groups map_map by (rule map_idI) (simp add: merge_group_kind)

text \<open>
  The merged view has one row for each verb and object, in the order of first appearance: the
  record itself where it stands alone, and otherwise one with the summed quantity, a record without a
  quantity counting as one.
\<close>

theorem merge_identical:
  "map record_kind (mergeIdenticalEffectRecords records) = firsts [] (map record_kind records)
   \<and> list_all (\<lambda>m. let g = filter (\<lambda>r. record_kind r = record_kind m) records
        in if length g = 1 then m = hd g
           else er_HasQty m \<and> er_Quantity m = int64 (\<Sum>r\<leftarrow>g. record_units r))
      (mergeIdenticalEffectRecords records)"
proof
  let ?G = "group_of record_kind (\<lambda>r. r) merged_record records"
  show "map record_kind (mergeIdenticalEffectRecords records) = firsts [] (map record_kind records)"
    by (rule merge_identical_kinds)
  show "list_all (\<lambda>m. let g = filter (\<lambda>r. record_kind r = record_kind m) records
        in if length g = 1 then m = hd g
           else er_HasQty m \<and> er_Quantity m = int64 (\<Sum>r\<leftarrow>g. record_units r))
      (mergeIdenticalEffectRecords records)"
    unfolding list_all_iff merge_groups
  proof
    fix m assume "m \<in> set (map ?G (firsts [] (map record_kind records)))"
    then obtain k where k: "m = ?G k" "k \<in> set (firsts [] (map record_kind records))" by auto
    note g = merge_group_kind [OF k(2), folded k(1)]
    then have m: "record_kind m = k" by blast
    show "let g = filter (\<lambda>r. record_kind r = record_kind m) records
        in if length g = 1 then m = hd g
           else er_HasQty m \<and> er_Quantity m = int64 (\<Sum>r\<leftarrow>g. record_units r)"
      using g [THEN conjunct2] unfolding Let_def m .
  qed
qed

subsection \<open>A section is bounded\<close>

definition newlines :: "gostring \<Rightarrow> nat" where
  "newlines s = length (filter (\<lambda>c. c = CHR 0x0A) s)"

lemma newlines_append [simp]: "newlines (s @ t) = newlines s + newlines t"
  by (simp add: newlines_def)

lemma newlines_Nil [simp]: "newlines [] = 0"
  by (simp add: newlines_def)

lemma newlines_Cons [simp]: "newlines (c # s) = (if c = CHR 0x0A then 1 else 0) + newlines s"
  by (simp add: newlines_def)

lemma newlines_LF [simp]: "newlines LF = 1"
  by (simp add: LF_def)

lemma newlines_none: "CHR 0x0A \<notin> set s \<longleftrightarrow> newlines s = 0"
  by (auto simp: newlines_def filter_empty_conv)

lemma newlines_replicate: "c \<noteq> CHR 0x0A \<Longrightarrow> newlines (replicate k c) = 0"
  by (induction k) simp_all

lemma newlines_pad:
  "newlines (PadRight U s n) = newlines s" "newlines (PadLeft U s n) = newlines s"
  by (simp_all add: PadRight_def PadLeft_def Let_def newlines_replicate)

lemma newlines_style:
  "newlines code = 0 \<Longrightarrow> newlines (Style s code color) = newlines s"
  "newlines (style_Dim sty s) = newlines s"
  by (simp_all add: Style_def style_Dim_def Dim_def SGRDim_def sgrReset_def)

lemma newlines_dec: "newlines (dec n) = 0"
  using dec_digits [of n] by (auto simp: newlines_none [symmetric] list_all_iff is_digit_def)

lemma newlines_grouped: "newlines d = 0 \<Longrightarrow> newlines (grouped d) = 0"
proof (induction d rule: grouped.induct)
  case (1 d)
  have "CHR 0x0A \<notin> set (take k d)" "CHR 0x0A \<notin> set (drop k d)" for k
    using 1(2) by (auto simp: newlines_none [symmetric] dest: in_set_takeD in_set_dropD)
  then show ?case using 1 by (cases "length d \<le> 3") (simp_all add: grouped.simps [of d] newlines_none)
qed

lemma newlines_quantity: "newlines (quantityText n) = 0"
  by (simp add: quantityText_grouped newlines_grouped newlines_dec)

lemma newlines_Pluralize:
  assumes "newlines s = 0"
  shows "newlines (Pluralize L q s) = 0"
proof -
  have "newlines p = 0" if "map_of irregularPlural s = Some p" for p
    using map_of_SomeD [OF that] by (auto simp: irregularPlural_def)
  moreover have "newlines (take k s) = 0" for k
    using assms by (auto simp: newlines_none [symmetric] dest: in_set_takeD)
  ultimately show ?thesis using assms by (auto simp: Pluralize_def split: option.split)
qed

definition one_line_record :: "EffectRecord \<Rightarrow> bool" where
  "one_line_record r \<longleftrightarrow> newlines (er_Verb r) = 0 \<and> newlines (er_Object r) = 0"

definition one_line_section :: "EffectSection \<Rightarrow> bool" where
  "one_line_section sec \<longleftrightarrow> newlines (es_Kind sec) = 0 \<and> newlines (es_Subject sec) = 0
     \<and> newlines (es_IntendedVerb sec) = 0 \<and> list_all one_line_record (es_Records sec)"

lemma newlines_rows:
  assumes "one_line_record r"
  shows "newlines (compact_row L r) = 1" "newlines (aligned_row U L s a b r) = 1"
proof -
  have "newlines (ledgerObject L r) = 0"
    using assms by (simp add: ledgerObject_def one_line_record_def newlines_Pluralize)
  moreover have "newlines (concat (replicate k [CHR 0xC2, CHR 0xB7])) = 0" for k by (induction k) simp_all
  ultimately show "newlines (compact_row L r) = 1" "newlines (aligned_row U L s a b r) = 1"
    using assms by (simp_all add: compact_row_def aligned_row_def Let_def one_line_record_def newlines_pad
        newlines_style newlines_quantity)
qed

lemma newlines_concat: "list_all (\<lambda>r. newlines (f r) = 1) rs \<Longrightarrow> newlines (concat (map f rs)) = length rs"
  by (induction rs) auto

lemma merged_one_line:
  assumes "list_all one_line_record records"
  shows "list_all one_line_record (mergeIdenticalEffectRecords records)"
proof -
  have "one_line_record r \<longleftrightarrow> one_line_record r'" if "record_kind r = record_kind r'" for r r'
    using that by (simp add: one_line_record_def record_kind_def)
  moreover have "\<exists>r\<in>set records. record_kind r = record_kind m" if "m \<in> set (mergeIdenticalEffectRecords records)" for m
  proof -
    have "record_kind m \<in> set (map record_kind (mergeIdenticalEffectRecords records))" using that by simp
    then show ?thesis
      by (simp add: merge_identical_kinds set_firsts image_iff) metis
  qed
  ultimately show ?thesis using assms unfolding list_all_iff by metis
qed

text \<open>
  (C40) A section of the ledger is one line, or a header with at most five rows and, when there are
  more, one line that says how many it left out: rows shown and rows left out are together all the
  distinct effects.
\<close>

theorem section_is_bounded:
  assumes "one_line_section sec"
  shows "let n = length (mergeIdenticalEffectRecords (es_Records sec))
     in newlines (WriteEffects U L sec s) = (if n \<le> 1 then 1 else if n \<le> 5 then 1 + n else 7)
       \<and> (5 < n \<longrightarrow> has_suffix (WriteEffects U L sec s)
             (OverflowGlyph s @ ''  +'' @ FormatInt (int n - 5) @ '' more (not shown)'' @ LF))"
proof (cases "es_Records sec = []")
  case True
  then show ?thesis using assms
    by (simp add: WriteEffects_def writeNothingToDo_def mergeIdenticalEffectRecords_def one_line_section_def)
next
  case False
  let ?v = "mergeIdenticalEffectRecords (es_Records sec)"
  have ne: "?v \<noteq> []" using False by (simp add: merge_groups) (metis empty_set list.map_disc_iff list.set_map set_firsts sup_bot_left set_empty)
  have lines: "list_all one_line_record ?v" using assms merged_one_line by (simp add: one_line_section_def)
  have tag: "newlines (Paint s (''['' @ es_Kind sec @ '']'') (EffectColor (es_Kind sec))) = 0"
    using assms by (simp add: Paint_def newlines_style EffectColor_def sgr_defs one_line_section_def)
  show ?thesis
  proof (cases "length ?v = 1")
    case True
    then have "one_line_record (?v ! 0)" using lines by (simp add: list_all_length)
    then have "newlines (ledgerObject L (?v ! 0)) = 0" "newlines (er_Verb (?v ! 0)) = 0" "newlines (er_Object (?v ! 0)) = 0"
      by (simp_all add: ledgerObject_def one_line_record_def newlines_Pluralize)
    then show ?thesis using False True tag assms
      by (simp add: WriteEffects_def writeEffectLine_def Let_def newlines_pad newlines_quantity one_line_section_def)
  next
    case many: False
    then have n: "2 \<le> length ?v" using ne by (cases ?v) (auto simp: Suc_le_eq)
    let ?shown = "take (length ?v - (length ?v - maxVisibleEffectRows)) ?v"
    have "list_all one_line_record ?shown" using lines by (auto simp: list_all_iff dest: in_set_takeD)
    then have rows: "newlines (writeCompactEffects L ?shown) = min (length ?v) 5"
        "newlines (writeAlignedEffects U L ?shown s) = min (length ?v) 5"
      by (simp_all add: writeCompactEffects_def writeAlignedEffects_def newlines_concat newlines_rows list_all_iff
          maxVisibleEffectRows_def)
    have glyph: "newlines (OverflowGlyph s) = 0"
      by (simp add: OverflowGlyph_def newlines_style Render_def GlyphOverflow_def)
    have over: "newlines (writeEffectOverflow k s) = (if k = 0 then 0 else 1)" for k
      using glyph by (simp add: writeEffectOverflow_def FormatInt_def newlines_dec)
    have "newlines (es_Subject sec) = 0" using assms by (simp add: one_line_section_def)
    then have count: "newlines (WriteEffects U L sec s) = 1 + min (length ?v) 5 + (if length ?v \<le> 5 then 0 else 1)"
      using False many tag rows over by (simp add: WriteEffects_def Let_def maxVisibleEffectRows_def)
    have "\<exists>t. WriteEffects U L sec s = t @ writeEffectOverflow (length ?v - 5) s"
      using False many by (simp add: WriteEffects_def Let_def maxVisibleEffectRows_def)
    then have "5 < length ?v \<Longrightarrow> has_suffix (WriteEffects U L sec s)
        (OverflowGlyph s @ ''  +'' @ FormatInt (int (length ?v) - 5) @ '' more (not shown)'' @ LF)"
      by (auto simp: writeEffectOverflow_def has_suffix_iff of_nat_diff)
    then show ?thesis using count n by (auto simp: Let_def)
  qed
qed

theorem section_is_bounded_witness:
  "let sec = \<lparr>es_Kind = ''changed'', es_Subject = ''prune'',
       es_Records = map (\<lambda>k. \<lparr>er_Verb = ''deleted'', er_Quantity = 2, er_HasQty = True, er_Object = replicate (Suc k) CHR ''a''\<rparr>) [0..<7],
       es_IntendedVerb = [], es_NameWidth = 0, es_Width = 80\<rparr>;
       s = \<lparr>sty_Color = False, sty_Verbose = False, sty_Profile = GlyphsASCII\<rparr>
   in newlines (WriteEffects sample_tables (\<lambda>_. False) sec s) = 7
     \<and> has_suffix (WriteEffects sample_tables (\<lambda>_. False) sec s) (''...  +2 more (not shown)'' @ LF)"
proof -
  define sec where "sec = \<lparr>es_Kind = ''changed'', es_Subject = ''prune'',
       es_Records = map (\<lambda>k. \<lparr>er_Verb = ''deleted'', er_Quantity = 2, er_HasQty = True, er_Object = replicate (Suc k) CHR ''a''\<rparr>) [0..<7],
       es_IntendedVerb = [], es_NameWidth = 0, es_Width = 80\<rparr>"
  define s where "s = \<lparr>sty_Color = False, sty_Verbose = False, sty_Profile = GlyphsASCII\<rparr>"
  have one: "one_line_section sec" unfolding sec_def by code_simp
  have n: "length (mergeIdenticalEffectRecords (es_Records sec)) = 7" unfolding sec_def by code_simp
  have o: "OverflowGlyph s @ ''  +'' @ FormatInt 2 @ '' more (not shown)'' @ LF = ''...  +2 more (not shown)'' @ LF"
    unfolding s_def by code_simp
  show ?thesis
    using section_is_bounded [OF one, of sample_tables "\<lambda>_. False" s] n
    unfolding sec_def [symmetric] s_def [symmetric] Let_def o [symmetric] by simp
qed

subsection \<open>What was already mutated\<close>

lemma aggregate_step_index:
  "snd (foldl aggregate_step st changes) =
     snd (foldl (index_step mutated_key (\<lambda>e. e) (\<lambda>e e'. e
        \<lparr>me_total := int64 (me_total e + me_total e'), me_owners := me_owners e @ me_owners e'\<rparr>)) st
      (List.map_filter changeSectionEffect changes))"
proof (induction changes arbitrary: st)
  case (Cons ch changes)
  then show ?case
    by (cases "changeSectionEffect ch") (simp_all add: aggregate_step_def index_step_def List.map_filter_def)
qed (simp add: List.map_filter_def)

definition change_units :: "ChangesSnapshot list \<Rightarrow> int" where
  "change_units changes = (\<Sum>ch\<leftarrow>changes. \<Sum>r\<leftarrow>ch_Records ch. record_units r)"

text \<open>Adding to one place of a list of effects adds to its total.\<close>

lemma aggregate_total:
  "int64 (\<Sum>e\<leftarrow>snd (foldl aggregate_step st changes). me_total e) =
     int64 ((\<Sum>e\<leftarrow>snd st. me_total e) + change_units changes)"
  if "\<forall>k i. fst st k = Some i \<longrightarrow> i < length (snd st)"
  using that
proof (induction changes arbitrary: st)
  case (Cons ch changes)
  show ?case
  proof (cases "changeSectionEffect ch")
    case None
    then have "ch_Records ch = []" by (auto simp: changeSectionEffect_def Let_def split: list.splits)
    then show ?thesis using Cons None by (simp add: aggregate_step_def change_units_def)
  next
    case (Some e)
    have sums: "foldl (\<lambda>t r. int64 (t + (if er_HasQty r then er_Quantity r else 1))) (int64 n) rs
        = int64 (n + (\<Sum>r\<leftarrow>rs. if er_HasQty r then er_Quantity r else 1))" for n rs
      by (induction rs arbitrary: n) (simp_all add: int64_add add.assoc)
    have tot: "me_total e = int64 (\<Sum>r\<leftarrow>ch_Records ch. record_units r)"
      using Some sums [of "er_Quantity _"] sums [of 1]
      by (auto simp: changeSectionEffect_def Let_def record_units_def split: list.splits)
    let ?st = "aggregate_step st ch"
    have sum: "int64 (\<Sum>e\<leftarrow>snd ?st. me_total e) = int64 ((\<Sum>e\<leftarrow>snd st. me_total e) + (\<Sum>r\<leftarrow>ch_Records ch. record_units r))"
    proof (cases "fst st (mutated_key e)")
      case None
      then show ?thesis using Some tot by (simp add: aggregate_step_def int64_add)
    next
      case at: (Some i)
      then have i: "i < length (snd st)" using Cons.prems by blast
      let ?S = "\<Sum>e\<leftarrow>snd st. me_total e" and ?m = "me_total (snd st ! i)"
      have "(\<Sum>e\<leftarrow>snd ?st. me_total e) = int64 (?m + me_total e) + (?S - ?m)"
        using Some at sum_list_replace [OF i, of me_total] by (simp add: aggregate_step_def)
      also have "int64 \<dots> = int64 (?m + me_total e + (?S - ?m))" by (rule int64_add)
      finally show ?thesis by (simp add: tot int64_add add.commute)
    qed
    have "\<forall>k i. fst ?st k = Some i \<longrightarrow> i < length (snd ?st)"
      using Cons.prems Some by (auto simp: aggregate_step_def less_SucI split: option.split)
    then have "int64 (\<Sum>e\<leftarrow>snd (foldl aggregate_step ?st changes). me_total e)
        = int64 ((\<Sum>e\<leftarrow>snd ?st. me_total e) + change_units changes)" by (rule Cons.IH)
    also have "\<dots> = int64 ((\<Sum>e\<leftarrow>snd st. me_total e) + (\<Sum>r\<leftarrow>ch_Records ch. record_units r) + change_units changes)"
      by (rule int64_shift) (rule sum)
    finally show ?thesis by (simp add: change_units_def add.assoc)
  qed
qed (simp add: change_units_def)

text \<open>
  The line about what was already mutated counts every committed record once, under one fragment
  for each distinct effect, and is left out exactly when nothing was committed.
\<close>

theorem already_mutated_counts_all:
  "distinct (map mutated_key (aggregateMutatedEffects changes))
   \<and> int64 (\<Sum>e\<leftarrow>aggregateMutatedEffects changes. me_total e) = int64 (change_units changes)
   \<and> (SummarizeAlreadyMutated L changes = None) = list_all (\<lambda>ch. ch_Records ch = []) changes"
proof -
  let ?add = "\<lambda>e e'. e\<lparr>me_total := int64 (me_total e + me_total e'), me_owners := me_owners e @ me_owners e'\<rparr>"
  let ?es = "List.map_filter changeSectionEffect changes"
  have groups: "aggregateMutatedEffects changes =
      map (group_of mutated_key (\<lambda>e. e) ?add ?es) (firsts [] (map mutated_key ?es))"
    by (simp add: aggregateMutatedEffects_def aggregate_step_index index_fold)
  have key: "mutated_key (foldl ?add e rs) = mutated_key e" for e rs
    by (induction rs arbitrary: e) (simp_all add: mutated_key_def)
  have "mutated_key (group_of mutated_key (\<lambda>e. e) ?add ?es k) = k" if "k \<in> set (firsts [] (map mutated_key ?es))" for k
  proof -
    have "filter (\<lambda>e. mutated_key e = k) ?es \<noteq> []" using that by (auto simp: set_firsts filter_empty_conv)
    then have "mutated_key (hd (filter (\<lambda>e. mutated_key e = k) ?es)) = k" using hd_in_set by fastforce
    then show ?thesis by (simp add: group_of_def key Let_def)
  qed
  then have "map mutated_key (aggregateMutatedEffects changes) = firsts [] (map mutated_key ?es)"
    unfolding groups map_map by (intro map_idI) simp
  then have "distinct (map mutated_key (aggregateMutatedEffects changes))" by (simp add: distinct_firsts)
  moreover have "aggregateMutatedEffects changes = [] \<longleftrightarrow> ?es = []"
    unfolding groups using set_firsts [of "[]" "map mutated_key ?es"] by (cases ?es) auto
  moreover have "?es = [] \<longleftrightarrow> list_all (\<lambda>ch. ch_Records ch = []) changes"
    by (induction changes) (auto simp: List.map_filter_def changeSectionEffect_def Let_def split: list.split)
  moreover have "int64 (\<Sum>e\<leftarrow>aggregateMutatedEffects changes. me_total e) = int64 (change_units changes)"
    using aggregate_total [of "((\<lambda>_. None), [])" changes] by (simp add: aggregateMutatedEffects_def)
  ultimately show ?thesis by (simp add: SummarizeAlreadyMutated_def Let_def)
qed

end
