(* ===== verification/Digest_Frames.thy ===== *)
theory Digest_Frames
  imports Prelude "HOL-Library.Multiset"
begin

text \<open>
  What a digest over a list of entries needs of their frames: a frame can be read off the front of any
  text, and what was read tells the entries apart or points into them. The directory digests of
  \<open>internal/checksum\<close> and \<open>internal/fingerprint\<close> both rest on it.
\<close>

text \<open>Sorting a listing keeps its size, so a traversal may go on with the sorted one.\<close>

lemma size_sort_key: "size_list f (sort_key k es) = size_list f es"
proof -
  have "sum_list (map f (sort_key k es)) = sum_list (map f es)"
    by (metis mset_map mset_sort sum_mset_sum_list)
  then show ?thesis by (simp add: size_list_conv_sum_list)
qed

text \<open>A text without the mark is read off up to the first one.\<close>

lemma upto_mark_inject: "a @ m # r = b @ m # s \<Longrightarrow> m \<notin> set a \<Longrightarrow> m \<notin> set b \<Longrightarrow> a = b \<and> r = s"
proof (induction a arbitrary: b)
  case Nil
  then show ?case by (cases b) auto
next
  case (Cons x a)
  then show ?case by (cases b) auto
qed

locale frames =
  fixes frame_of :: "'e \<Rightarrow> char list"
    and framed :: "'e \<Rightarrow> bool"
    and same :: "'e \<Rightarrow> 'e \<Rightarrow> bool"
  assumes frame_nonempty: "frame_of e \<noteq> []"
    and frame_read: "framed e \<Longrightarrow> framed e' \<Longrightarrow> frame_of e @ r = frame_of e' @ r' \<Longrightarrow> same e e' \<and> r = r'"
begin

definition text_of :: "'e list \<Rightarrow> char list" where
  "text_of es = concat (map frame_of es)"

lemma text_of_simps: "text_of [] = []" "text_of (e # es) = frame_of e @ text_of es"
  by (simp_all add: text_of_def)

lemma text_of_read:
  "\<forall>e\<in>set es \<union> set es'. framed e \<Longrightarrow> text_of es = text_of es' \<Longrightarrow> list_all2 same es es'"
proof (induction es arbitrary: es')
  case Nil
  then show ?case using frame_nonempty by (cases es') (auto simp: text_of_simps)
next
  case (Cons e es)
  then obtain e' rest where es': "es' = e' # rest"
    using frame_nonempty by (cases es') (auto simp: text_of_simps)
  have "same e e' \<and> text_of es = text_of rest"
    using Cons.prems frame_read [of e e'] by (simp add: es' text_of_simps)
  then show ?case using Cons.IH [of rest] Cons.prems(1) by (simp add: es')
qed

lemma text_of_decides:
  assumes "text_of es = text_of es'" "\<forall>e\<in>set es \<union> set es'. framed e"
    and "\<And>e e'. e \<in> set es \<Longrightarrow> e' \<in> set es' \<Longrightarrow> same e e' \<Longrightarrow> e = e' \<or> clash e e'"
  shows "es = es' \<or> (\<exists>e\<in>set es. \<exists>e'\<in>set es'. clash e e')"
proof (rule disjCI)
  assume none: "\<not> (\<exists>e\<in>set es. \<exists>e'\<in>set es'. clash e e')"
  have "list_all2 (=) es es'"
    by (rule list.rel_mono_strong [OF text_of_read [OF assms(2,1)]]) (use assms(3) none in blast)
  then show "es = es'" by (simp add: list.rel_eq)
qed

end

end
