(* ===== verification/Checksum_Tree.thy ===== *)
theory Checksum_Tree
  imports Stage_Name Digest_Frames "HOL-Library.Word" "HOL-Library.List_Lexorder" "HOL-Library.Char_ord" "HOL-Library.Multiset"
begin

text \<open>
  The content identity of files and trees, \<open>internal/checksum\<close>: the walk of a directory (\<open>tree.go\<close>),
  what it leaves out, and the Merkle digest it combines. SHA-256 is a parameter \<open>H\<close>, an exclusion the
  predicate its patterns decide, and the \<open>Source\<close> a tree of what it answers at each path together with
  the calls that fail. Leaves are digested where the walk meets them: the pool that runs them writes each
  result to its own node, so its schedule decides only which of several failures is reported; here it is
  the first in listing order.
\<close>

unbundle bit_operations_syntax

subsection \<open>What the source answers (source.go)\<close>

text \<open>The mode bits, the bytes, the link text and the listing of one path.\<close>

datatype fsnode = FsNode
  (fs_mode: "32 word") (fs_bytes: gostring) (fs_target: gostring) (fs_entries: "(gostring \<times> fsnode) list")

datatype source_op = SrcLstat | SrcReadDir | SrcInfo | SrcOpen | SrcReadlink

type_synonym faults = "source_op \<Rightarrow> gostring \<Rightarrow> bool"

datatype checksum_error = ErrSymlink | ErrNotRegular | ErrNotDirectory | ErrSource | ErrCancelled

subsection \<open>Kinds (tree.go)\<close>

definition ModeDir :: "32 word" where "ModeDir = push_bit 31 1"
definition ModeSymlink :: "32 word" where "ModeSymlink = push_bit 27 1"
definition ModeDevice :: "32 word" where "ModeDevice = push_bit 26 1"
definition ModeNamedPipe :: "32 word" where "ModeNamedPipe = push_bit 25 1"
definition ModeSocket :: "32 word" where "ModeSocket = push_bit 24 1"
definition ModeCharDevice :: "32 word" where "ModeCharDevice = push_bit 21 1"
definition ModeIrregular :: "32 word" where "ModeIrregular = push_bit 19 1"

definition ModeType :: "32 word" where
  "ModeType = ModeDir OR ModeSymlink OR ModeNamedPipe OR ModeSocket OR ModeDevice OR ModeCharDevice OR ModeIrregular"

text \<open>\<open>0o111\<close>.\<close>

definition execBits :: "32 word" where "execBits = 73"

datatype kind =
  kindDir | kindFile | kindExec | kindSymlink | kindFIFO | kindSocket | kindDevice | kindChar | kindOther

definition kind_byte :: "kind \<Rightarrow> char" where
  "kind_byte k = (case k of kindDir \<Rightarrow> CHR ''d'' | kindFile \<Rightarrow> CHR ''f'' | kindExec \<Rightarrow> CHR ''x''
     | kindSymlink \<Rightarrow> CHR ''l'' | kindFIFO \<Rightarrow> CHR ''p'' | kindSocket \<Rightarrow> CHR ''s''
     | kindDevice \<Rightarrow> CHR ''b'' | kindChar \<Rightarrow> CHR ''c'' | kindOther \<Rightarrow> CHR ''?'')"

definition kindOf :: "32 word \<Rightarrow> kind" where
  "kindOf mode =
     (let t = mode AND ModeType
      in if t = 0 then kindFile
         else if t AND ModeDir \<noteq> 0 then kindDir
         else if t AND ModeSymlink \<noteq> 0 then kindSymlink
         else if t AND ModeNamedPipe \<noteq> 0 then kindFIFO
         else if t AND ModeSocket \<noteq> 0 then kindSocket
         else if t AND ModeCharDevice \<noteq> 0 then kindChar
         else if t AND ModeDevice \<noteq> 0 then kindDevice
         else kindOther)"

definition leafKind :: "32 word \<Rightarrow> kind" where
  "leafKind mode = (if mode AND execBits \<noteq> 0 then kindExec else kindFile)"

subsection \<open>The walk\<close>

type_synonym digest = gostring

datatype cnode = CNode
  (cn_name: gostring) (cn_kind: kind) (cn_digest: digest) (cn_children: "cnode list")

text \<open>A \<open>Digest\<close> nobody wrote.\<close>

definition zero_digest :: digest where "zero_digest = replicate 32 (CHR 0x00)"

definition linkDomain :: gostring where "linkDomain = ''evo.link.v1'' @ [CHR 0x00]"

definition treeDomain :: gostring where "treeDomain = ''evo.tree.v2'' @ [CHR 0x00]"

definition inFlightStage :: "kind \<Rightarrow> gostring \<Rightarrow> bool" where
  "inFlightStage k name \<longleftrightarrow> (k = kindDir \<or> k = kindFile) \<and> IsStaging name"

definition leaf :: "(gostring \<Rightarrow> digest) \<Rightarrow> faults \<Rightarrow> gostring \<Rightarrow> fsnode \<Rightarrow> checksum_error + digest" where
  "leaf H faults path n = (if faults SrcOpen path then Inl ErrSource else Inr (H (fs_bytes n)))"

definition leafAt :: "(gostring \<Rightarrow> digest) \<Rightarrow> faults \<Rightarrow> gostring \<Rightarrow> gostring \<Rightarrow> fsnode \<Rightarrow> checksum_error + cnode" where
  "leafAt H faults path name n =
     (if faults SrcInfo path then Inl ErrSource
      else case leaf H faults path n of Inl e \<Rightarrow> Inl e
        | Inr d \<Rightarrow> Inr (CNode name (leafKind (fs_mode n)) d []))"

definition sorted_entries :: "(gostring \<times> fsnode) list \<Rightarrow> (gostring \<times> fsnode) list" where
  "sorted_entries es = sort_key fst es"

lemma size_sorted_entries: "size_list f (sorted_entries es) = size_list f es"
  by (simp add: sorted_entries_def size_sort_key)

lemma size_fs_entries: "size_list (\<lambda>e. size (snd e)) (fs_entries n) < size n"
proof (cases n)
  case (FsNode m b t es)
  have "size_list (\<lambda>e. size (snd e)) es \<le> size_list (size_prod (\<lambda>_. 0) size) es"
    by (rule size_list_pointwise) (auto simp: size_prod_simp)
  then show ?thesis using FsNode by simp
qed

text \<open>
  \<open>list\<close> and \<open>entry\<close>: the children of the directory whose in-tree path is \<open>rel\<close>, in the order of their
  names. An entry that is left out is never read.
\<close>

function (sequential) walk_list ::
    "(gostring \<Rightarrow> digest) \<Rightarrow> faults \<Rightarrow> (gostring \<Rightarrow> bool) \<Rightarrow> gostring \<Rightarrow> (gostring \<times> fsnode) list
      \<Rightarrow> checksum_error + cnode list"
  and walk_entry ::
    "(gostring \<Rightarrow> digest) \<Rightarrow> faults \<Rightarrow> (gostring \<Rightarrow> bool) \<Rightarrow> gostring \<Rightarrow> gostring \<Rightarrow> fsnode
      \<Rightarrow> checksum_error + cnode option" where
  "walk_list H faults excludes rel [] = Inr []"
| "walk_list H faults excludes rel ((name, n) # es) =
     (case walk_entry H faults excludes rel name n of Inl e \<Rightarrow> Inl e
      | Inr child \<Rightarrow>
          (case walk_list H faults excludes rel es of Inl e \<Rightarrow> Inl e
           | Inr cs \<Rightarrow> Inr (case child of None \<Rightarrow> cs | Some c \<Rightarrow> c # cs)))"
| "walk_entry H faults excludes rel name n =
     (let k = kindOf (fs_mode n);
          childRel = rel @ name @ (if k = kindDir then ''/'' else [])
      in if excludes childRel \<or> inFlightStage k name then Inr None
         else if k = kindDir then
           (if faults SrcReadDir childRel then Inl ErrSource
            else case walk_list H faults excludes childRel (sorted_entries (fs_entries n)) of
                Inl e \<Rightarrow> Inl e
              | Inr cs \<Rightarrow> Inr (Some (CNode name k zero_digest cs)))
         else if k = kindFile then map_sum id Some (leafAt H faults childRel name n)
         else if k = kindSymlink then
           (if faults SrcReadlink childRel then Inl ErrSource
            else Inr (Some (CNode name k (H (linkDomain @ fs_target n)) [])))
         else Inr (Some (CNode name k zero_digest [])))"
  by pat_completeness auto

termination
  by (relation "measure (\<lambda>x. case x of
      Inl (H, faults, excludes, rel, es) \<Rightarrow> size_list (\<lambda>e. size (snd e)) es
    | Inr (H, faults, excludes, rel, name, n) \<Rightarrow> size n)")
    (auto simp: size_sorted_entries size_fs_entries)

subsection \<open>The digest of a directory\<close>

text \<open>\<open>binary.AppendUvarint\<close>: seven bits a byte, low ones first, the high bit set on all but the last.\<close>

fun uvarint :: "nat \<Rightarrow> gostring" where
  "uvarint n = (if n < 128 then [char_of n] else char_of (n mod 128 + 128) # uvarint (n div 128))"

declare uvarint.simps [simp del]

definition frame :: "kind \<Rightarrow> gostring \<Rightarrow> digest \<Rightarrow> gostring" where
  "frame k name d = kind_byte k # uvarint (length name) @ name @ d"

fun combine :: "(gostring \<Rightarrow> digest) \<Rightarrow> cnode \<Rightarrow> digest" where
  "combine H (CNode name k d children) =
     H (treeDomain @ concat (map (\<lambda>c. frame (cn_kind c) (cn_name c)
          (if cn_kind c = kindDir then combine H c else cn_digest c)) children))"

subsection \<open>Files and trees (engine.go)\<close>

definition checksum_File :: "(gostring \<Rightarrow> digest) \<Rightarrow> faults \<Rightarrow> bool \<Rightarrow> gostring \<Rightarrow> fsnode \<Rightarrow> checksum_error + digest" where
  "checksum_File H faults cancelled path n =
     (if cancelled then Inl ErrCancelled
      else if faults SrcLstat path then Inl ErrSource
      else if fs_mode n AND ModeSymlink \<noteq> 0 then Inl ErrSymlink
      else if fs_mode n AND ModeType \<noteq> 0 then Inl ErrNotRegular
      else leaf H faults path n)"

definition walkTree ::
    "(gostring \<Rightarrow> digest) \<Rightarrow> faults \<Rightarrow> (gostring \<Rightarrow> bool) \<Rightarrow> fsnode \<Rightarrow> checksum_error + digest" where
  "walkTree H faults excludes root =
     (if faults SrcReadDir ''/'' then Inl ErrSource
      else case walk_list H faults excludes ''/'' (sorted_entries (fs_entries root)) of Inl e \<Rightarrow> Inl e
        | Inr cs \<Rightarrow> Inr (combine H (CNode [] kindDir zero_digest cs)))"

definition checksum_Tree ::
    "(gostring \<Rightarrow> digest) \<Rightarrow> faults \<Rightarrow> bool \<Rightarrow> (gostring \<Rightarrow> bool) \<Rightarrow> fsnode \<Rightarrow> checksum_error + digest" where
  "checksum_Tree H faults cancelled excludes root =
     (if cancelled then Inl ErrCancelled
      else if faults SrcLstat ''/'' then Inl ErrSource
      else if fs_mode root AND ModeDir = 0 then Inl ErrNotDirectory
      else walkTree H faults excludes root)"

subsection \<open>What a digest stands for\<close>

text \<open>
  The content of a tree: names, structure, the bytes of files and whether they run, link texts, and the
  kind of anything else. Owners, times and all other mode bits are not part of it.
\<close>

datatype content =
  Directory "(gostring \<times> content) list"
| RegularFile bool gostring
| Link gostring
| Special kind

fun content_kind :: "content \<Rightarrow> kind" where
  "content_kind (Directory es) = kindDir"
| "content_kind (RegularFile exec b) = (if exec then kindExec else kindFile)"
| "content_kind (Link t) = kindSymlink"
| "content_kind (Special k) = k"

fun content_ok :: "content \<Rightarrow> bool" where
  "content_ok (Directory es) \<longleftrightarrow> list_all (\<lambda>e. content_ok (snd e)) es"
| "content_ok (Special k) \<longleftrightarrow> k \<notin> {kindDir, kindFile, kindExec, kindSymlink}"
| "content_ok c \<longleftrightarrow> True"

function (sequential) contents_of :: "(gostring \<Rightarrow> bool) \<Rightarrow> gostring \<Rightarrow> (gostring \<times> fsnode) list \<Rightarrow> (gostring \<times> content) list"
  and content_of :: "(gostring \<Rightarrow> bool) \<Rightarrow> gostring \<Rightarrow> gostring \<Rightarrow> fsnode \<Rightarrow> content option" where
  "contents_of excludes rel [] = []"
| "contents_of excludes rel ((name, n) # es) =
     (case content_of excludes rel name n of None \<Rightarrow> [] | Some c \<Rightarrow> [(name, c)]) @ contents_of excludes rel es"
| "content_of excludes rel name n =
     (let k = kindOf (fs_mode n); childRel = rel @ name @ (if k = kindDir then ''/'' else [])
      in if excludes childRel \<or> inFlightStage k name then None
         else Some (if k = kindDir then Directory (contents_of excludes childRel (sorted_entries (fs_entries n)))
           else if k = kindFile then RegularFile (fs_mode n AND execBits \<noteq> 0) (fs_bytes n)
           else if k = kindSymlink then Link (fs_target n)
           else Special k))"
  by pat_completeness auto

termination
  by (relation "measure (\<lambda>x. case x of
      Inl (excludes, rel, es) \<Rightarrow> size_list (\<lambda>e. size (snd e)) es
    | Inr (excludes, rel, name, n) \<Rightarrow> size n)")
    (auto simp: size_sorted_entries size_fs_entries)

text \<open>The Merkle digest of a content, and every text it hashes.\<close>

fun content_digest :: "(gostring \<Rightarrow> digest) \<Rightarrow> content \<Rightarrow> digest" where
  "content_digest H (Directory es) =
     H (treeDomain @ concat (map (\<lambda>e. frame (content_kind (snd e)) (fst e) (content_digest H (snd e))) es))"
| "content_digest H (RegularFile exec b) = H b"
| "content_digest H (Link t) = H (linkDomain @ t)"
| "content_digest H (Special k) = zero_digest"

fun hashed :: "(gostring \<Rightarrow> digest) \<Rightarrow> content \<Rightarrow> gostring set" where
  "hashed H (Directory es) =
     insert (treeDomain @ concat (map (\<lambda>e. frame (content_kind (snd e)) (fst e) (content_digest H (snd e))) es))
       (\<Union>e\<in>set es. hashed H (snd e))"
| "hashed H (RegularFile exec b) = {b}"
| "hashed H (Link t) = {linkDomain @ t}"
| "hashed H (Special k) = {}"

definition no_faults :: faults where "no_faults = (\<lambda>_ _. False)"

text \<open>A walk without failures builds the nodes of the content.\<close>

fun node_of :: "(gostring \<Rightarrow> digest) \<Rightarrow> gostring \<Rightarrow> content \<Rightarrow> cnode" where
  "node_of H name (Directory es) = CNode name kindDir zero_digest (map (\<lambda>e. node_of H (fst e) (snd e)) es)"
| "node_of H name c = CNode name (content_kind c) (content_digest H c) []"

lemma kindOf_not_exec: "kindOf m \<noteq> kindExec"
  by (simp add: kindOf_def Let_def)

lemma walk_content:
  "walk_list H no_faults excludes rel es = Inr (map (\<lambda>e. node_of H (fst e) (snd e)) (contents_of excludes rel es))"
  "walk_entry H no_faults excludes rel name n = Inr (map_option (node_of H name) (content_of excludes rel name n))"
proof (induction excludes rel es and excludes rel name n rule: contents_of_content_of.induct)
  case (2 excludes rel name n es)
  then show ?case by (simp split: option.split)
next
  case (3 excludes rel name n)
  then show ?case
    by (cases "kindOf (fs_mode n)") (simp_all add: Let_def no_faults_def leafAt_def leaf_def leafKind_def kindOf_not_exec)
qed simp

lemma node_of_fields [simp]:
  "cn_kind (node_of H name c) = content_kind c" "cn_name (node_of H name c) = name"
  by (cases c; simp)+

lemma combine_node:
  "content_ok c \<Longrightarrow>
     (if cn_kind (node_of H name c) = kindDir then combine H (node_of H name c) else cn_digest (node_of H name c))
     = content_digest H c"
proof (induction c arbitrary: name)
  case (Directory es)
  have "map (\<lambda>c. frame (cn_kind c) (cn_name c) (if cn_kind c = kindDir then combine H c else cn_digest c))
        (map (\<lambda>e. node_of H (fst e) (snd e)) es)
      = map (\<lambda>e. frame (content_kind (snd e)) (fst e) (content_digest H (snd e))) es"
    unfolding map_map
    by (rule map_cong [OF refl]) (use Directory in \<open>force simp: list_all_iff snds.simps\<close>)
  then show ?case by (simp only: node_of.simps cnode.sel combine.simps content_digest.simps if_True refl)
qed auto

lemma contents_ok:
  "list_all (\<lambda>e. content_ok (snd e)) (contents_of excludes rel es)"
  "content_of excludes rel name n = Some c \<Longrightarrow> content_ok c"
proof (induction excludes rel es and excludes rel name n arbitrary: and c rule: contents_of_content_of.induct)
  case (2 excludes rel name n es)
  then show ?case by (simp split: option.split)
next
  case (3 excludes rel name n)
  then show ?case
    by (cases "kindOf (fs_mode n)") (auto simp: Let_def kindOf_not_exec split: if_splits)
qed simp

text \<open>What a \<open>Tree\<close> call stands for.\<close>

definition tree_content :: "(gostring \<Rightarrow> bool) \<Rightarrow> fsnode \<Rightarrow> content" where
  "tree_content excludes root = Directory (contents_of excludes ''/'' (sorted_entries (fs_entries root)))"

lemma tree_content_ok: "content_ok (tree_content excludes root)"
  using contents_ok(1) by (simp add: tree_content_def)

lemma walkTree_content: "walkTree H no_faults excludes root = Inr (content_digest H (tree_content excludes root))"
  using combine_node [OF tree_content_ok, of H "[]" excludes root]
  by (simp add: walkTree_def walk_content no_faults_def [symmetric] tree_content_def) (simp add: no_faults_def)

subsection \<open>Frames are read back\<close>

lemma char_of_inject:
  assumes "char_of (a::nat) = (char_of b :: char)" "a < 256" "b < 256"
  shows "a = b"
proof -
  have "of_char (char_of a :: char) = (of_char (char_of b :: char) :: nat)" using assms(1) by simp
  then show ?thesis using assms(2,3) by simp
qed

lemma uvarint_inject: "uvarint m @ x = uvarint n @ y \<Longrightarrow> m = n \<and> x = y"
proof (induction m arbitrary: n rule: uvarint.induct)
  case (1 m)
  have byte: "char_of (k + 128) \<noteq> (char_of l :: char)" if "k < 128" "l < 128" for k l :: nat
    using that by (auto dest: char_of_inject)
  show ?case
  proof (cases "m < 128"; cases "n < 128")
    assume "m < 128" "n < 128"
    then show ?thesis using 1(2) by (auto simp: uvarint.simps [of m] uvarint.simps [of n] dest: char_of_inject)
  next
    assume "m < 128" "\<not> n < 128"
    then show ?thesis using 1(2) byte [of "n mod 128" m] by (simp add: uvarint.simps [of m] uvarint.simps [of n])
  next
    assume "\<not> m < 128" "n < 128"
    then show ?thesis using 1(2) byte [of "m mod 128" n] by (simp add: uvarint.simps [of m] uvarint.simps [of n])
  next
    assume b: "\<not> m < 128" "\<not> n < 128"
    then have "char_of (m mod 128 + 128) = (char_of (n mod 128 + 128) :: char)"
        "uvarint (m div 128) @ x = uvarint (n div 128) @ y"
      using 1(2) by (simp_all add: uvarint.simps [of m] uvarint.simps [of n])
    moreover from this have "m div 128 = n div 128 \<and> x = y" using 1(1) b by blast
    moreover have "m mod 128 + 128 < 256" "n mod 128 + 128 < 256" by simp_all
    ultimately have "m mod 128 = n mod 128" "m div 128 = n div 128" "x = y" by (auto dest: char_of_inject)
    then show ?thesis by (metis div_mult_mod_eq)
  qed
qed

lemma kind_byte_inject: "kind_byte k = kind_byte l \<Longrightarrow> k = l"
  by (cases k; cases l) (simp_all add: kind_byte_def)

lemma frame_inject:
  assumes "frame k n d @ r = frame k' n' d' @ r'" "length d = length d'"
  shows "k = k' \<and> n = n' \<and> d = d' \<and> r = r'"
proof -
  have k: "k = k'" and "uvarint (length n) @ (n @ d @ r) = uvarint (length n') @ (n' @ d' @ r')"
    using assms(1) kind_byte_inject by (simp_all add: frame_def)
  then have "length n = length n' \<and> n @ d @ r = n' @ d' @ r'" by (blast dest: uvarint_inject)
  then show ?thesis using k assms(2) by auto
qed

text \<open>The frame of one entry of a content, and its frames in a row.\<close>

definition entry_frame :: "(gostring \<Rightarrow> digest) \<Rightarrow> gostring \<times> content \<Rightarrow> gostring" where
  "entry_frame H e = frame (content_kind (snd e)) (fst e) (content_digest H (snd e))"

lemma entry_frame_nonempty: "entry_frame H e \<noteq> []"
  by (simp add: entry_frame_def frame_def)

lemma entry_frame_read:
  assumes "length (content_digest H (snd e)) = 32" "length (content_digest H (snd e')) = 32"
    and "entry_frame H e @ r = entry_frame H e' @ r'"
  shows "(content_kind (snd e) = content_kind (snd e') \<and> fst e = fst e'
      \<and> content_digest H (snd e) = content_digest H (snd e')) \<and> r = r'"
  using frame_inject [OF assms(3) [unfolded entry_frame_def]] assms(1,2) by simp

interpretation tree_frames: frames "entry_frame H" "\<lambda>e. length (content_digest H (snd e)) = 32"
    "\<lambda>e e'. content_kind (snd e) = content_kind (snd e') \<and> fst e = fst e' \<and> content_digest H (snd e) = content_digest H (snd e')"
  for H
  by unfold_locales (rule entry_frame_nonempty, rule entry_frame_read)

lemma frames_text: "concat (map (\<lambda>e. frame (content_kind (snd e)) (fst e) (content_digest H (snd e))) es) = tree_frames.text_of H es"
  by (simp only: tree_frames.text_of_def) (simp add: entry_frame_def [abs_def])

subsection \<open>Equal digests\<close>

text \<open>Two different texts, one hashed for each content, with one hash.\<close>

definition collision :: "(gostring \<Rightarrow> digest) \<Rightarrow> content \<Rightarrow> content \<Rightarrow> bool" where
  "collision H c c' \<longleftrightarrow> (\<exists>p\<in>hashed H c. \<exists>q\<in>hashed H c'. p \<noteq> q \<and> H p = H q)"

lemma content_digest_length: "(\<And>x. length (H x) = 32) \<Longrightarrow> length (content_digest H c) = 32"
  by (cases c) (simp_all add: zero_digest_def)

lemma collision_inside:
  "e \<in> set es \<Longrightarrow> e' \<in> set es' \<Longrightarrow> collision H (snd e) (snd e') \<Longrightarrow> collision H (Directory es) (Directory es')"
  unfolding collision_def hashed.simps by blast

lemma digest_identifies:
  assumes H: "\<And>x. length (H x) = 32"
  shows "content_ok c \<Longrightarrow> content_ok c' \<Longrightarrow> content_kind c = content_kind c' \<Longrightarrow>
    content_digest H c = content_digest H c' \<Longrightarrow> c = c' \<or> collision H c c'"
proof (induction c arbitrary: c')
  case (Directory es)
  then obtain es' where c': "c' = Directory es'" by (cases c') (auto split: if_splits)
  let ?text = "\<lambda>es. treeDomain @ concat (map (\<lambda>e. frame (content_kind (snd e)) (fst e) (content_digest H (snd e))) es)"
  show ?case
  proof (cases "?text es = ?text es'")
    case True
    have "es = es' \<or> (\<exists>e\<in>set es. \<exists>e'\<in>set es'. collision H (snd e) (snd e'))"
    proof (rule tree_frames.text_of_decides)
      show "tree_frames.text_of H es = tree_frames.text_of H es'" using True by (simp add: frames_text)
      show "\<forall>e\<in>set es \<union> set es'. length (content_digest H (snd e)) = 32" using H by (simp add: content_digest_length)
    next
      fix e e' assume "e \<in> set es" "e' \<in> set es'" "content_kind (snd e) = content_kind (snd e') \<and> fst e = fst e' \<and>
        content_digest H (snd e) = content_digest H (snd e')"
      then show "e = e' \<or> collision H (snd e) (snd e')"
        using Directory.IH [of e "snd e" "snd e'"] Directory.prems by (auto simp: c' list_all_iff snds.simps prod_eq_iff)
    qed
    then have "es = es' \<or> collision H (Directory es) (Directory es')" by (blast intro: collision_inside)
    then show ?thesis by (simp add: c')
  next
    case False
    have "H (?text es) = H (?text es')" using Directory.prems(4) by (simp add: c')
    with False have "collision H (Directory es) (Directory es')" unfolding collision_def hashed.simps by blast
    then show ?thesis by (simp add: c')
  qed
next
  case (RegularFile exec b)
  then show ?case by (cases c') (auto simp: collision_def split: if_splits)
next
  case (Link t)
  then show ?case by (cases c') (auto simp: collision_def split: if_splits)
next
  case (Special k)
  then show ?case by (cases c') (auto simp: collision_def split: if_splits)
qed

text \<open>
  (C19) Two trees with one digest have the same content: the same names, structure, file bytes, run bits,
  link texts and kinds of special files, whatever each left out; or else two different texts that the two
  digests hashed have one SHA-256. Nothing about the hash is assumed but its length.
\<close>

theorem tree_digest_identifies_content:
  assumes "\<forall>x. length (H x) = 32"
    and "checksum_Tree H no_faults False excludes r = Inr d" "checksum_Tree H no_faults False excludes' r' = Inr d"
  shows "tree_content excludes r = tree_content excludes' r' \<or>
    (\<exists>p\<in>hashed H (tree_content excludes r). \<exists>q\<in>hashed H (tree_content excludes' r'). p \<noteq> q \<and> H p = H q)"
proof -
  have "content_digest H (tree_content excludes r) = content_digest H (tree_content excludes' r')"
    using assms(2,3) by (simp add: checksum_Tree_def walkTree_content split: if_splits)
  moreover have "content_kind (tree_content excludes r) = content_kind (tree_content excludes' r')"
    by (simp add: tree_content_def)
  ultimately have "tree_content excludes r = tree_content excludes' r'
      \<or> collision H (tree_content excludes r) (tree_content excludes' r')"
    using assms(1) by (intro digest_identifies tree_content_ok) simp_all
  then show ?thesis unfolding collision_def .
qed

text \<open>A hash that keeps the first 32 bytes, and one tree listed in two orders with two owners' mode bits.\<close>

definition sample_hash :: "gostring \<Rightarrow> digest" where "sample_hash x = take 32 (x @ zero_digest)"

definition sample_tree :: "bool \<Rightarrow> fsnode" where
  "sample_tree b =
     (let run = FsNode (if b then 64 else 73) ''go'' [] []; link = FsNode ModeSymlink [] ''run'' [];
          sub = FsNode ModeDir [] [] [(''run'', run)]; stage = FsNode 0 ''half'' [] []
      in FsNode ModeDir [] [] (if b then [(''link'', link), (''sub'', sub), (''skip'', stage)]
           else [(''sub'', sub), (''link'', link)]))"

definition skips :: "gostring \<Rightarrow> bool" where "skips p \<longleftrightarrow> p = ''/skip''"

lemma sample_same: "tree_content skips (sample_tree True) = tree_content skips (sample_tree False)"
  by code_simp

lemma tree_digest_identifies_content_witness:
  "tree_content skips (sample_tree True) = tree_content skips (sample_tree False) \<or>
    (\<exists>p\<in>hashed sample_hash (tree_content skips (sample_tree True)).
     \<exists>q\<in>hashed sample_hash (tree_content skips (sample_tree False)). p \<noteq> q \<and> sample_hash p = sample_hash q)"
proof (rule tree_digest_identifies_content)
  show "\<forall>x. length (sample_hash x) = 32" by (auto simp: sample_hash_def zero_digest_def)
  show "checksum_Tree sample_hash no_faults False skips (sample_tree True)
      = Inr (content_digest sample_hash (tree_content skips (sample_tree True)))"
    by (simp add: checksum_Tree_def walkTree_content) (simp add: no_faults_def sample_tree_def Let_def ModeDir_def)
  show "checksum_Tree sample_hash no_faults False skips (sample_tree False)
      = Inr (content_digest sample_hash (tree_content skips (sample_tree True)))"
    by (simp add: checksum_Tree_def walkTree_content sample_same) (simp add: no_faults_def sample_tree_def Let_def ModeDir_def)
qed

text \<open>Neither the order of a listing nor a failure that the walk never meets changes a digest.\<close>

lemma listing_order_irrelevant:
  assumes "mset es = mset es'" "distinct (map fst es)"
  shows "checksum_Tree H faults cancelled excludes (FsNode m b t es) = checksum_Tree H faults cancelled excludes (FsNode m b t es')"
proof -
  have "sorted_entries es = sorted_entries es'"
    unfolding sorted_entries_def
    by (rule sort_key_inj_key_eq) (use assms in \<open>simp_all add: distinct_map\<close>)
  then show ?thesis by (simp add: checksum_Tree_def walkTree_def)
qed

text \<open>
  A file is hashed without a domain of its own, so the file that spells a directory's domain and frames has
  the directory's digest; inside a tree its kind byte still tells it apart.
\<close>

lemma file_spells_tree:
  assumes "checksum_Tree H no_faults False excludes root = Inr d"
  obtains b where "checksum_File H no_faults False path (FsNode 0 b [] []) = Inr d"
proof
  let ?b = "treeDomain @ concat (map (\<lambda>e. frame (content_kind (snd e)) (fst e) (content_digest H (snd e)))
      (contents_of excludes ''/'' (sorted_entries (fs_entries root))))"
  show "checksum_File H no_faults False path (FsNode 0 ?b [] []) = Inr d"
    using assms
    by (simp add: checksum_Tree_def walkTree_content tree_content_def checksum_File_def leaf_def split: if_splits)
      (simp add: no_faults_def)
qed

end
