(* ===== verification/Fingerprint_Path.thy ===== *)
theory Fingerprint_Path
  imports Checksum_Tree
begin

text \<open>
  What a path looks like to \<open>FSPath\<close> (\<open>internal/fingerprint/fspath.go\<close>), and what its digest tells. The
  file system is a tree of answers, one for each path the traversal may ask about; SHA-256 is the
  parameter \<open>H\<close>. Reading a file its own mode denies, with the mode put back, is modelled with every
  call that may fail.
\<close>

subsection \<open>Answers of the file system (fs.go)\<close>

datatype read_answer = ReadOK gostring | ReadPermission | ReadFailed

text \<open>The first read, whether the mode can be widened, the second read, whether the mode can be put back.\<close>

record file_reads =
  fr_first :: read_answer
  fr_widen :: bool
  fr_second :: read_answer
  fr_restore :: bool

datatype fp_node =
  FpMissing
| FpDenied
| FpNode (fp_mode: "32 word") (fp_reads: file_reads) (fp_target: "gostring option")
    (fp_entries: "(gostring \<times> fp_node) list option")

subsection \<open>Reading a regular file\<close>

definition ModePerm :: "32 word" where "ModePerm = 511"
definition ModeSetuid :: "32 word" where "ModeSetuid = push_bit 23 1"
definition ModeSetgid :: "32 word" where "ModeSetgid = push_bit 22 1"
definition ModeSticky :: "32 word" where "ModeSticky = push_bit 20 1"

definition keptModeBits :: "32 word" where
  "keptModeBits = ModePerm OR ModeSetuid OR ModeSetgid OR ModeSticky"

text \<open>\<open>0o400\<close>.\<close>

definition ownerRead :: "32 word" where "ownerRead = 256"

definition read_bytes :: "read_answer \<Rightarrow> gostring option" where
  "read_bytes a = (case a of ReadOK b \<Rightarrow> Some b | _ \<Rightarrow> None)"

text \<open>The bytes, and the modes the file was given on the way, in order.\<close>

definition readRegular :: "bool \<Rightarrow> 32 word \<Rightarrow> file_reads \<Rightarrow> gostring option \<times> 32 word list" where
  "readRegular real mode r =
     (if fr_first r \<noteq> ReadPermission then (read_bytes (fr_first r), [])
      else if \<not> real then (None, [])
      else let original = mode AND keptModeBits
        in if \<not> fr_widen r then (None, [])
           else if \<not> fr_restore r \<and> read_bytes (fr_second r) \<noteq> None then (None, [original OR ownerRead])
           else (read_bytes (fr_second r),
             (original OR ownerRead) # (if fr_restore r then [original] else [])))"

text \<open>Bytes are returned only with the mode as it was found; only a call that fails can leave it widened.\<close>

lemma read_leaves_mode:
  assumes "fst (readRegular real mode r) = Some b \<or> fr_restore r"
  shows "snd (readRegular real mode r) = [] \<or> last (snd (readRegular real mode r)) = mode AND keptModeBits"
  using assms by (auto simp: readRegular_def Let_def split: if_splits)

subsection \<open>The digest of a path\<close>

definition NUL :: char where "NUL = CHR 0x00"

definition markerRegularFile :: gostring where "markerRegularFile = ''evident-output:fspath:file:v1'' @ [NUL]"
definition markerSymlink :: gostring where "markerSymlink = ''evident-output:fspath:symlink:v1'' @ [NUL]"
definition markerMissing :: gostring where "markerMissing = ''evident-output:fspath:missing:v1''"
definition markerDirEntry :: gostring where "markerDirEntry = ''evident-output:fspath:dir-entry:v1'' @ [NUL]"
definition markerDir :: gostring where "markerDir = ''evident-output:fspath:dir:v1'' @ [NUL]"

definition regularFileDigest :: "(gostring \<Rightarrow> digest) \<Rightarrow> gostring \<Rightarrow> digest" where
  "regularFileDigest H contents = H (markerRegularFile @ contents)"

definition missingDigest :: "(gostring \<Rightarrow> digest) \<Rightarrow> digest" where
  "missingDigest H = H markerMissing"

definition sorted_dir_entries :: "(gostring \<times> fp_node) list \<Rightarrow> (gostring \<times> fp_node) list" where
  "sorted_dir_entries es = sort_key fst es"

lemma size_sorted_dir_entries: "size_list f (sorted_dir_entries es) = size_list f es"
  by (simp add: sorted_dir_entries_def size_sort_key)

lemma size_listing: "size_list (\<lambda>e. size (snd e)) es < Suc (Suc (size_list (size_prod (\<lambda>_. 0) size) es))"
proof -
  have "size_list (\<lambda>e. size (snd e)) es \<le> size_list (size_prod (\<lambda>_. 0) size) es"
    by (rule size_list_pointwise) (auto simp: size_prod_simp)
  then show ?thesis by simp
qed

function (sequential) fingerprintPath :: "(gostring \<Rightarrow> digest) \<Rightarrow> bool \<Rightarrow> fp_node \<Rightarrow> digest option"
  and dir_preimage :: "(gostring \<Rightarrow> digest) \<Rightarrow> bool \<Rightarrow> (gostring \<times> fp_node) list \<Rightarrow> gostring option" where
  "fingerprintPath H real FpMissing = Some (missingDigest H)"
| "fingerprintPath H real FpDenied = None"
| "fingerprintPath H real (FpNode mode reads target entries) =
     (if mode AND ModeSymlink \<noteq> 0 then map_option (\<lambda>t. H (markerSymlink @ t)) target
      else if mode AND ModeDir \<noteq> 0 then
        (case entries of None \<Rightarrow> None
         | Some es \<Rightarrow> map_option (\<lambda>p. H (markerDir @ p)) (dir_preimage H real (sorted_dir_entries es)))
      else if mode AND ModeType = 0 then map_option (regularFileDigest H) (fst (readRegular real mode reads))
      else None)"
| "dir_preimage H real [] = Some []"
| "dir_preimage H real ((name, n) # es) =
     (case fingerprintPath H real n of None \<Rightarrow> None
      | Some d \<Rightarrow> map_option (\<lambda>p. markerDirEntry @ name @ NUL # d @ p) (dir_preimage H real es))"
  by pat_completeness auto

termination
  by (relation "measure (\<lambda>x. case x of
      Inl (H, real, n) \<Rightarrow> size n
    | Inr (H, real, es) \<Rightarrow> size_list (\<lambda>e. size (snd e)) es)")
    (auto simp: size_sorted_dir_entries size_listing)

subsection \<open>What was observed\<close>

text \<open>The content a digest stands for: no permission, owner or time is part of it.\<close>

datatype observed =
  SeenMissing | SeenFile gostring | SeenLink gostring | SeenDir "(gostring \<times> observed) list"

function (sequential) observe :: "bool \<Rightarrow> fp_node \<Rightarrow> observed option"
  and observe_entries :: "bool \<Rightarrow> (gostring \<times> fp_node) list \<Rightarrow> (gostring \<times> observed) list option" where
  "observe real FpMissing = Some SeenMissing"
| "observe real FpDenied = None"
| "observe real (FpNode mode reads target entries) =
     (if mode AND ModeSymlink \<noteq> 0 then map_option SeenLink target
      else if mode AND ModeDir \<noteq> 0 then
        (case entries of None \<Rightarrow> None | Some es \<Rightarrow> map_option SeenDir (observe_entries real (sorted_dir_entries es)))
      else if mode AND ModeType = 0 then map_option SeenFile (fst (readRegular real mode reads))
      else None)"
| "observe_entries real [] = Some []"
| "observe_entries real ((name, n) # es) =
     (case observe real n of None \<Rightarrow> None
      | Some s \<Rightarrow> map_option (\<lambda>ss. (name, s) # ss) (observe_entries real es))"
  by pat_completeness auto

termination
  by (relation "measure (\<lambda>x. case x of
      Inl (real, n) \<Rightarrow> size n
    | Inr (real, es) \<Rightarrow> size_list (\<lambda>e. size (snd e)) es)")
    (auto simp: size_sorted_dir_entries size_listing)

text \<open>The text that is hashed for an observation, and all texts hashed on the way.\<close>

fun seen_text :: "(gostring \<Rightarrow> digest) \<Rightarrow> observed \<Rightarrow> gostring" where
  "seen_text H SeenMissing = markerMissing"
| "seen_text H (SeenFile b) = markerRegularFile @ b"
| "seen_text H (SeenLink t) = markerSymlink @ t"
| "seen_text H (SeenDir es) =
     markerDir @ concat (map (\<lambda>e. markerDirEntry @ fst e @ NUL # H (seen_text H (snd e))) es)"

fun seen_texts :: "(gostring \<Rightarrow> digest) \<Rightarrow> observed \<Rightarrow> gostring set" where
  "seen_texts H (SeenDir es) = insert (seen_text H (SeenDir es)) (\<Union>e\<in>set es. seen_texts H (snd e))"
| "seen_texts H s = {seen_text H s}"

lemma seen_text_in: "seen_text H s \<in> seen_texts H s"
  by (cases s) simp_all

lemma fingerprint_observes:
  "fingerprintPath H real n = map_option (\<lambda>s. H (seen_text H s)) (observe real n)"
  "dir_preimage H real es =
     map_option (\<lambda>es. concat (map (\<lambda>e. markerDirEntry @ fst e @ NUL # H (seen_text H (snd e))) es))
       (observe_entries real es)"
proof (induction real n and real es rule: observe_observe_entries.induct)
  case (3 real mode reads target entries)
  then show ?case
    by (auto simp: regularFileDigest_def [abs_def] option.map_comp comp_def split: option.split)
next
  case (5 real name n es)
  then show ?case by (auto simp: option.map_comp comp_def split: option.split)
qed (simp_all add: missingDigest_def)

text \<open>Names of directory entries hold no NUL byte, at any depth: no file system has one.\<close>

fun names_ok :: "observed \<Rightarrow> bool" where
  "names_ok (SeenDir es) \<longleftrightarrow> list_all (\<lambda>e. NUL \<notin> set (fst e) \<and> names_ok (snd e)) es"
| "names_ok s \<longleftrightarrow> True"

subsection \<open>Equal digests\<close>

definition seen_frame :: "(gostring \<Rightarrow> digest) \<Rightarrow> gostring \<times> observed \<Rightarrow> gostring" where
  "seen_frame H e = markerDirEntry @ fst e @ NUL # H (seen_text H (snd e))"

lemma seen_frame_read:
  assumes "NUL \<notin> set (fst e) \<and> length (H (seen_text H (snd e))) = 32"
    and "NUL \<notin> set (fst e') \<and> length (H (seen_text H (snd e'))) = 32"
    and "seen_frame H e @ r = seen_frame H e' @ r'"
  shows "(fst e = fst e' \<and> H (seen_text H (snd e)) = H (seen_text H (snd e'))) \<and> r = r'"
proof -
  have "fst e @ NUL # (H (seen_text H (snd e)) @ r) = fst e' @ NUL # (H (seen_text H (snd e')) @ r')"
    using assms(3) by (simp add: seen_frame_def)
  then have "fst e = fst e' \<and> H (seen_text H (snd e)) @ r = H (seen_text H (snd e')) @ r'"
    using assms(1,2) by (blast dest: upto_mark_inject)
  then show ?thesis using assms(1,2) by simp
qed

interpretation seen_frames: frames "seen_frame H"
    "\<lambda>e. NUL \<notin> set (fst e) \<and> length (H (seen_text H (snd e))) = 32"
    "\<lambda>e e'. fst e = fst e' \<and> H (seen_text H (snd e)) = H (seen_text H (snd e'))"
  for H
  by unfold_locales (simp add: seen_frame_def, rule seen_frame_read)

definition seen_collision :: "(gostring \<Rightarrow> digest) \<Rightarrow> observed \<Rightarrow> observed \<Rightarrow> bool" where
  "seen_collision H s s' \<longleftrightarrow> (\<exists>p\<in>seen_texts H s. \<exists>q\<in>seen_texts H s'. p \<noteq> q \<and> H p = H q)"

lemma seen_inside:
  "e \<in> set es \<Longrightarrow> e' \<in> set es' \<Longrightarrow> seen_collision H (snd e) (snd e') \<Longrightarrow> seen_collision H (SeenDir es) (SeenDir es')"
  unfolding seen_collision_def seen_texts.simps by blast

lemmas marker_defs = markerMissing_def markerRegularFile_def markerSymlink_def markerDir_def

text \<open>The markers keep the kinds of observation apart.\<close>

lemma seen_text_kinds:
  assumes "seen_text H s = seen_text H s'"
  shows "s = s' \<or> (\<exists>es es'. s = SeenDir es \<and> s' = SeenDir es' \<and> seen_frames.text_of H es = seen_frames.text_of H es')"
proof -
  have frames: "concat (map (\<lambda>e. markerDirEntry @ fst e @ NUL # H (seen_text H (snd e))) es) = seen_frames.text_of H es" for es
    by (simp only: seen_frames.text_of_def) (simp add: seen_frame_def [abs_def])
  show ?thesis using assms by (cases s; cases s') (simp_all add: marker_defs frames)
qed

lemma seen_digest_identifies:
  assumes H: "\<And>x. length (H x) = 32"
  shows "names_ok s \<Longrightarrow> names_ok s' \<Longrightarrow> H (seen_text H s) = H (seen_text H s') \<Longrightarrow> s = s' \<or> seen_collision H s s'"
proof (induction s arbitrary: s' rule: observed.induct)
  case (SeenDir es)
  show ?case
  proof (cases "seen_text H (SeenDir es) = seen_text H s'")
    case True
    then consider "s' = SeenDir es" | es' where "s' = SeenDir es'" "seen_frames.text_of H es = seen_frames.text_of H es'"
      using seen_text_kinds by blast
    then show ?thesis
    proof cases
      case (2 es')
      have "es = es' \<or> (\<exists>e\<in>set es. \<exists>e'\<in>set es'. seen_collision H (snd e) (snd e'))"
      proof (rule seen_frames.text_of_decides [OF 2(2)])
        show "\<forall>e\<in>set es \<union> set es'. NUL \<notin> set (fst e) \<and> length (H (seen_text H (snd e))) = 32"
          using H SeenDir.prems(1,2) by (auto simp: 2(1) list_all_iff)
      next
        fix e e' assume "e \<in> set es" "e' \<in> set es'" "fst e = fst e' \<and> H (seen_text H (snd e)) = H (seen_text H (snd e'))"
        then show "e = e' \<or> seen_collision H (snd e) (snd e')"
          using SeenDir.IH [of e "snd e" "snd e'"] SeenDir.prems
          by (auto simp: 2(1) list_all_iff snds.simps prod_eq_iff)
      qed
      then show ?thesis using seen_inside by (auto simp: 2(1))
    qed simp
  next
    case False
    then show ?thesis using SeenDir.prems(3) seen_text_in unfolding seen_collision_def by blast
  qed
qed (metis seen_text_kinds seen_text_in seen_collision_def observed.distinct)+

text \<open>
  (C20) Two paths that \<open>FSPath\<close> gives one digest were observed alike: both missing, links with one text, files
  with the same bytes, or directories that agree entry by entry all the way down, whatever their permissions
  and however often a read had to be widened; or else two different texts that were hashed have one SHA-256.
\<close>

theorem path_digest_identifies_observation:
  assumes "\<forall>x. length (H x) = 32"
    and "fingerprintPath H real n = Some d" "fingerprintPath H real' n' = Some d"
    and "observe real n = Some s" "names_ok s" "observe real' n' = Some s'" "names_ok s'"
  shows "s = s' \<or> (\<exists>p\<in>seen_texts H s. \<exists>q\<in>seen_texts H s'. p \<noteq> q \<and> H p = H q)"
proof -
  have "H (seen_text H s) = H (seen_text H s')" using assms(2,3,4,6) by (simp add: fingerprint_observes)
  then show ?thesis using seen_digest_identifies [of H s s'] assms(1,5,7) by (simp add: seen_collision_def)
qed

text \<open>One directory observed twice: listed in another order, with a file its own mode denies the second time.\<close>

definition sample_dir :: "bool \<Rightarrow> fp_node" where
  "sample_dir b =
     (let r = \<lparr>fr_first = (if b then ReadOK ''hi'' else ReadPermission), fr_widen = True, fr_second = ReadOK ''hi'', fr_restore = True\<rparr>;
          file = FpNode (if b then 420 else 0) r None None;
          link = FpNode ModeSymlink r (Some ''gone'') None
      in FpNode ModeDir r None (Some (if b then [(''a'', file), (''b'', link)] else [(''b'', link), (''a'', file)])))"

definition sample_seen :: observed where
  "sample_seen = SeenDir [(''a'', SeenFile ''hi''), (''b'', SeenLink ''gone'')]"

lemma sample_observed: "observe True (sample_dir True) = Some sample_seen" "observe True (sample_dir False) = Some sample_seen"
  by code_simp+

lemma path_digest_identifies_observation_witness:
  "sample_seen = sample_seen \<or>
    (\<exists>p\<in>seen_texts sample_hash sample_seen. \<exists>q\<in>seen_texts sample_hash sample_seen. p \<noteq> q \<and> sample_hash p = sample_hash q)"
proof (rule path_digest_identifies_observation [where n = "sample_dir True" and n' = "sample_dir False"])
  show "\<forall>x. length (sample_hash x) = 32" by (auto simp: sample_hash_def zero_digest_def)
  show "fingerprintPath sample_hash True (sample_dir True) = Some (sample_hash (seen_text sample_hash sample_seen))"
    "fingerprintPath sample_hash True (sample_dir False) = Some (sample_hash (seen_text sample_hash sample_seen))"
    by (simp_all add: fingerprint_observes sample_observed)
  show "names_ok sample_seen" by (simp add: sample_seen_def NUL_def)
  then show "names_ok sample_seen" .
qed (rule sample_observed)+

end
