(* ===== verification/Fingerprint_Value.thy ===== *)
theory Fingerprint_Value
  imports Fingerprint_Path Go_Std "HOL-Library.Log_Nat"
begin

text \<open>
  The identity of a value a caller supplies (\<open>internal/fingerprint/value.go\<close>) and of the running program
  (\<open>app.go\<close>). A float is its IEEE 754 bits; a time is its seconds since 1970 and its nanoseconds.
\<close>

subsection \<open>Values\<close>

datatype go_value =
  GoString gostring
| GoBool bool
| GoInt "64 word" | GoInt8 "8 word" | GoInt16 "16 word" | GoInt32 "32 word" | GoInt64 "64 word"
| GoUint "64 word" | GoUint8 "8 word" | GoUint16 "16 word" | GoUint32 "32 word" | GoUint64 "64 word"
| GoFloat32 "32 word"
| GoFloat64 "64 word"
| GoTime int nat
| GoBytes gostring
| GoOther

datatype value_error = ErrUnsupportedValueType | ErrNonFiniteFloat

definition tagString :: char where "tagString = CHR 0x00"
definition tagBool :: char where "tagBool = CHR 0x01"
definition tagInt :: char where "tagInt = CHR 0x02"
definition tagUint :: char where "tagUint = CHR 0x03"
definition tagFloat :: char where "tagFloat = CHR 0x04"
definition tagTime :: char where "tagTime = CHR 0x05"
definition tagBytes :: char where "tagBytes = CHR 0x06"

subsection \<open>Floats\<close>

text \<open>The sign, the biased exponent and the fraction of a float of \<open>e\<close> exponent and \<open>f\<close> fraction bits.\<close>

definition float_sign :: "nat \<Rightarrow> nat \<Rightarrow> nat \<Rightarrow> nat" where "float_sign e f n = n div 2 ^ (e + f)"
definition float_exp :: "nat \<Rightarrow> nat \<Rightarrow> nat \<Rightarrow> nat" where "float_exp e f n = n div 2 ^ f mod 2 ^ e"
definition float_frac :: "nat \<Rightarrow> nat \<Rightarrow> nat" where "float_frac f n = n mod 2 ^ f"

definition float_bits :: "nat \<Rightarrow> nat \<Rightarrow> nat \<Rightarrow> nat \<Rightarrow> nat \<Rightarrow> nat" where
  "float_bits e f s x m = (s * 2 ^ e + x) * 2 ^ f + m"

text \<open>\<open>float64(value)\<close>: a subnormal \<open>float32\<close> becomes a normal number, infinities and NaNs stay what they are.\<close>

definition widen_float :: "32 word \<Rightarrow> 64 word" where
  "widen_float w =
     (let n = unat w; s = float_sign 8 23 n; x = float_exp 8 23 n; m = float_frac 23 n
      in word_of_nat
        (if x = 255 then float_bits 11 52 s 2047 (m * 2 ^ 29)
         else if x \<noteq> 0 then float_bits 11 52 s (x + 896) (m * 2 ^ 29)
         else if m = 0 then float_bits 11 52 s 0 0
         else let k = floorlog 2 m - 1 in float_bits 11 52 s (k + 874) (m * 2 ^ (52 - k) - 2 ^ 52)))"

text \<open>\<open>math.IsNaN\<close> or \<open>math.IsInf\<close>.\<close>

definition non_finite :: "64 word \<Rightarrow> bool" where "non_finite w \<longleftrightarrow> float_exp 11 52 (unat w) = 2047"

text \<open>The number a finite float is, in units of its least subnormal: 2^-149 and 2^-1074.\<close>

definition float_units :: "nat \<Rightarrow> nat \<Rightarrow> nat \<Rightarrow> int" where
  "float_units e f n =
     (if float_sign e f n = 0 then 1 else -1)
     * int (if float_exp e f n = 0 then float_frac f n
            else (2 ^ f + float_frac f n) * 2 ^ (float_exp e f n - 1))"

subsection \<open>Encoding\<close>

text \<open>\<open>binary.BigEndian.PutUint64\<close>.\<close>

definition put_uint64 :: "64 word \<Rightarrow> gostring" where
  "put_uint64 n = map (\<lambda>i. char_of (unat n div 2 ^ (8 * i))) (rev [0..<8])"

definition encodeUint64 :: "char \<Rightarrow> 64 word \<Rightarrow> gostring" where
  "encodeUint64 tag n = tag # put_uint64 n"

text \<open>An \<open>int64\<close> and its conversion to \<open>uint64\<close> have the same bits.\<close>

definition encodeInt64 :: "char \<Rightarrow> int \<Rightarrow> gostring" where
  "encodeInt64 tag n = encodeUint64 tag (word_of_int n)"

definition reflectInt64 :: "go_value \<Rightarrow> int" where
  "reflectInt64 v = (case v of GoInt n \<Rightarrow> sint n | GoInt8 n \<Rightarrow> sint n | GoInt16 n \<Rightarrow> sint n
     | GoInt32 n \<Rightarrow> sint n | GoInt64 n \<Rightarrow> sint n | _ \<Rightarrow> 0)"

definition reflectUint64 :: "go_value \<Rightarrow> 64 word" where
  "reflectUint64 v = (case v of GoUint n \<Rightarrow> n | GoUint8 n \<Rightarrow> ucast n | GoUint16 n \<Rightarrow> ucast n
     | GoUint32 n \<Rightarrow> ucast n | GoUint64 n \<Rightarrow> n | _ \<Rightarrow> 0)"

definition encodeFloat :: "64 word \<Rightarrow> value_error + gostring" where
  "encodeFloat f = (if non_finite f then Inl ErrNonFiniteFloat else Inr (encodeUint64 tagFloat f))"

text \<open>\<open>Time.UnixNano\<close>: the product of the seconds wraps as an \<open>int64\<close>.\<close>

definition UnixNano :: "int \<Rightarrow> nat \<Rightarrow> int" where
  "UnixNano sec nsec = int64 (int64 (sec * 10 ^ 9) + int nsec)"

fun encodeValue :: "go_value \<Rightarrow> value_error + gostring" where
  "encodeValue (GoString s) = Inr (tagString # s)"
| "encodeValue (GoBool b) = Inr [tagBool, if b then CHR 0x01 else CHR 0x00]"
| "encodeValue (GoFloat32 f) = encodeFloat (widen_float f)"
| "encodeValue (GoFloat64 f) = encodeFloat f"
| "encodeValue (GoTime s n) = Inr (encodeInt64 tagTime (UnixNano s n))"
| "encodeValue (GoBytes b) = Inr (tagBytes # b)"
| "encodeValue GoOther = Inl ErrUnsupportedValueType"
| "encodeValue v =
     (case v of GoUint _ \<Rightarrow> Inr (encodeUint64 tagUint (reflectUint64 v))
      | GoUint8 _ \<Rightarrow> Inr (encodeUint64 tagUint (reflectUint64 v))
      | GoUint16 _ \<Rightarrow> Inr (encodeUint64 tagUint (reflectUint64 v))
      | GoUint32 _ \<Rightarrow> Inr (encodeUint64 tagUint (reflectUint64 v))
      | GoUint64 _ \<Rightarrow> Inr (encodeUint64 tagUint (reflectUint64 v))
      | _ \<Rightarrow> Inr (encodeInt64 tagInt (reflectInt64 v)))"

subsection \<open>Decoding\<close>

text \<open>What an encoding says: the class of the value and the value, without its width.\<close>

datatype reading =
  ReadString gostring | ReadBool bool | ReadInt int | ReadUint nat | ReadFloat "64 word" | ReadTime int | ReadBytes gostring

definition get_uint64 :: "gostring \<Rightarrow> nat" where
  "get_uint64 b = foldl (\<lambda>n c. n * 256 + of_char c) 0 b"

definition decodeValue :: "gostring \<Rightarrow> reading option" where
  "decodeValue b =
     (case b of [] \<Rightarrow> None
      | t # body \<Rightarrow>
          if t = tagString then Some (ReadString body)
          else if t = tagBytes then Some (ReadBytes body)
          else if t = tagBool then (case body of [c] \<Rightarrow> Some (ReadBool (c = CHR 0x01)) | _ \<Rightarrow> None)
          else if length body \<noteq> 8 then None
          else let n = get_uint64 body
            in if t = tagInt then Some (ReadInt (int64 (int n)))
               else if t = tagUint then Some (ReadUint n)
               else if t = tagFloat then Some (ReadFloat (word_of_nat n))
               else if t = tagTime then Some (ReadTime (int64 (int n)))
               else None)"

fun value_reading :: "go_value \<Rightarrow> reading" where
  "value_reading (GoString s) = ReadString s"
| "value_reading (GoBool b) = ReadBool b"
| "value_reading (GoInt n) = ReadInt (sint n)"
| "value_reading (GoInt8 n) = ReadInt (sint n)"
| "value_reading (GoInt16 n) = ReadInt (sint n)"
| "value_reading (GoInt32 n) = ReadInt (sint n)"
| "value_reading (GoInt64 n) = ReadInt (sint n)"
| "value_reading (GoUint n) = ReadUint (unat n)"
| "value_reading (GoUint8 n) = ReadUint (unat n)"
| "value_reading (GoUint16 n) = ReadUint (unat n)"
| "value_reading (GoUint32 n) = ReadUint (unat n)"
| "value_reading (GoUint64 n) = ReadUint (unat n)"
| "value_reading (GoFloat32 f) = ReadFloat (widen_float f)"
| "value_reading (GoFloat64 f) = ReadFloat f"
| "value_reading (GoTime s n) = ReadTime (int64 (s * 10 ^ 9 + int n))"
| "value_reading (GoBytes b) = ReadBytes b"
| "value_reading GoOther = ReadString []"

lemma put_uint64_length: "length (put_uint64 n) = 8"
  by (simp add: put_uint64_def)

lemma unat64_less: "unat (w :: 64 word) < 2 ^ 64"
  using unsigned_less [of w] by simp

text \<open>Reading big-endian bytes after the top of a number gives the number.\<close>

lemma big_endian_read:
  "foldl (\<lambda>n c. n * 256 + of_char c) (x div 2 ^ (8 * k)) (map (\<lambda>i. char_of (x div 2 ^ (8 * i)) :: char) (rev [0..<k])) = x"
  for x k :: nat
proof (induction k)
  case (Suc k)
  have "x div 2 ^ (8 * Suc k) = x div 2 ^ (8 * k) div 256"
    by (simp add: power_add div_mult2_eq [symmetric] mult.commute)
  then have "x div 2 ^ (8 * Suc k) * 256 + x div 2 ^ (8 * k) mod 256 = x div 2 ^ (8 * k)" by simp
  then show ?case using Suc by simp
qed simp

lemma get_put_uint64: "get_uint64 (put_uint64 n) = unat n"
  using big_endian_read [of "unat n" 8] unat64_less [of n] by (simp add: get_uint64_def put_uint64_def)

lemma int64_idem: "int64 (int64 n) = int64 n"
  using int64_mod by (simp only: int64_eq_iff)

lemma int64_of_word: "int64 (uint (word_of_int n :: 64 word)) = int64 n"
  by (simp add: int64_eq_iff unsigned_of_int take_bit_eq_mod)

lemma int64_sint: "int64 (sint (w :: 'a::len word)) = sint w" if "LENGTH('a) \<le> 64"
proof -
  have "- (2 ^ (LENGTH('a) - 1)) \<le> sint w" "sint w < 2 ^ (LENGTH('a) - 1)"
    using sint_greater_eq [of w] sint_less [of w] by auto
  moreover have "(2::int) ^ (LENGTH('a) - 1) \<le> 2 ^ 63" using that by (intro power_increasing) auto
  ultimately show ?thesis by (intro int64_small) auto
qed

lemma widened_unsigned: "unat (ucast (w :: 'a word) :: 64 word) = unat w" if "LENGTH('a::len) \<le> 64"
proof -
  have "unat w < 2 ^ LENGTH('a)" by (rule unsigned_less)
  also have "(2::nat) ^ LENGTH('a) \<le> 2 ^ 64" using that by (intro power_increasing) auto
  finally show ?thesis by (simp add: unsigned_ucast_eq take_bit_nat_eq_self_iff)
qed

text \<open>The four classes of eight bytes, and the words the integer types widen to.\<close>

lemma decode_word:
  "decodeValue (encodeInt64 tagInt n) = Some (ReadInt (int64 n))"
  "decodeValue (encodeInt64 tagTime n) = Some (ReadTime (int64 n))"
  "decodeValue (encodeUint64 tagUint w) = Some (ReadUint (unat w))"
  "decodeValue (encodeUint64 tagFloat w) = Some (ReadFloat w)"
  by (simp_all add: decodeValue_def encodeInt64_def encodeUint64_def put_uint64_length get_put_uint64
      tagString_def tagBool_def tagInt_def tagUint_def tagFloat_def tagTime_def tagBytes_def int64_of_word
      del: unsigned_of_int)

lemma decode_plain:
  "decodeValue (tagString # s) = Some (ReadString s)"
  "decodeValue (tagBytes # s) = Some (ReadBytes s)"
  "decodeValue [tagBool, c] = Some (ReadBool (c = CHR 0x01))"
  by (simp_all add: decodeValue_def tagString_def tagBool_def tagBytes_def)

text \<open>
  (C21) Every value that has an encoding is read back from it, up to what the encoding leaves out: the width
  of an integer, whether a float had 32 bits, and the multiples of 2^64 nanoseconds in a time.
\<close>

theorem encoded_value_reads_back:
  assumes "encodeValue v = Inr b"
  shows "decodeValue b = Some (value_reading v)"
  using assms
  by (cases v) (auto simp: encodeFloat_def decode_word reflectInt64_def reflectUint64_def UnixNano_def int64_sint
      int64_add int64_idem widened_unsigned decode_plain split: if_splits)

text \<open>The greatest 8-bit integer, and its encoding as the code writes it.\<close>

lemma put_uint64_127: "put_uint64 127 = [CHR 0x00, CHR 0x00, CHR 0x00, CHR 0x00, CHR 0x00, CHR 0x00, CHR 0x00, CHR 0x7F]"
proof -
  have "rev [0..<8] = [7, 6, 5, 4, 3, 2, 1, 0 :: nat]" by (simp add: upt_rec)
  then show ?thesis by (simp add: put_uint64_def char_of_def bit_0)
qed

lemma encoded_value_reads_back_witness:
  "decodeValue (tagInt # [CHR 0x00, CHR 0x00, CHR 0x00, CHR 0x00, CHR 0x00, CHR 0x00, CHR 0x00, CHR 0x7F]) = Some (value_reading (GoInt8 127))"
proof (rule encoded_value_reads_back)
  have "sint (127 :: 8 word) = 127" by simp
  then show "encodeValue (GoInt8 127) = Inr (tagInt # [CHR 0x00, CHR 0x00, CHR 0x00, CHR 0x00, CHR 0x00, CHR 0x00, CHR 0x00, CHR 0x7F])"
    by (simp only: encodeValue.simps go_value.simps reflectInt64_def encodeInt64_def encodeUint64_def put_uint64_127 [symmetric])
      simp
qed

text \<open>Nothing else counts: values that read the same, an \<open>int8\<close> and an \<open>int64\<close> say, share their encoding.\<close>

fun encode_reading :: "reading \<Rightarrow> gostring" where
  "encode_reading (ReadString s) = tagString # s"
| "encode_reading (ReadBool b) = [tagBool, if b then CHR 0x01 else CHR 0x00]"
| "encode_reading (ReadInt n) = encodeInt64 tagInt n"
| "encode_reading (ReadUint n) = encodeUint64 tagUint (word_of_nat n)"
| "encode_reading (ReadFloat f) = encodeUint64 tagFloat f"
| "encode_reading (ReadTime n) = encodeInt64 tagTime n"
| "encode_reading (ReadBytes b) = tagBytes # b"

lemma encoding_of_reading: "encodeValue v = Inr b \<Longrightarrow> b = encode_reading (value_reading v)"
  by (cases v) (auto simp: encodeFloat_def reflectInt64_def reflectUint64_def UnixNano_def int64_add split: if_splits)

lemma encodings_equal:
  "encodeValue v = Inr b \<Longrightarrow> encodeValue w = Inr c \<Longrightarrow> value_reading v = value_reading w \<Longrightarrow> b = c"
  using encoding_of_reading by metis

subsection \<open>Widening is exact\<close>

lemma float_bits_fields:
  assumes "s < 2" "x < 2 ^ e" "m < 2 ^ f"
  shows "float_sign e f (float_bits e f s x m) = s" "float_exp e f (float_bits e f s x m) = x"
    "float_frac f (float_bits e f s x m) = m" "float_bits e f s x m < 2 ^ (1 + e + f)"
proof -
  have top: "float_bits e f s x m div 2 ^ f = s * 2 ^ e + x" using assms(3) by (simp add: float_bits_def)
  show "float_exp e f (float_bits e f s x m) = x" using assms(2) by (simp add: float_exp_def top)
  have "float_bits e f s x m div 2 ^ (e + f) = float_bits e f s x m div 2 ^ f div 2 ^ e"
    by (simp add: power_add mult.commute div_mult2_eq [symmetric])
  then show "float_sign e f (float_bits e f s x m) = s" using assms(2) by (simp add: float_sign_def top)
  show "float_frac f (float_bits e f s x m) = m" using assms(3) by (simp add: float_frac_def float_bits_def)
  have "s * 2 ^ e + x < 2 * 2 ^ e" using assms(1,2) by (cases s) auto
  then have "float_bits e f s x m div 2 ^ f < 2 ^ (1 + e)" by (simp add: top)
  then show "float_bits e f s x m < 2 ^ (1 + e + f)" by (simp add: div_less_iff_less_mult power_add ac_simps)
qed

lemma float_fields_bounds:
  assumes "n < 2 ^ (1 + e + f)"
  shows "float_sign e f n < 2" "float_exp e f n < 2 ^ e" "float_frac f n < 2 ^ f"
  using assms by (simp_all add: float_sign_def float_exp_def float_frac_def div_less_iff_less_mult power_add ac_simps)

text \<open>The widened float has the fields that were put together.\<close>

lemma widened_fields:
  assumes "w = word_of_nat (float_bits 11 52 s x m)" "s < 2" "x < 2 ^ 11" "m < 2 ^ 52"
  shows "float_sign 11 52 (unat (w :: 64 word)) = s" "float_exp 11 52 (unat w) = x" "float_frac 52 (unat w) = m"
proof -
  have "float_bits 11 52 s x m < 2 ^ 64" using float_bits_fields(4) [OF assms(2-4)] by simp
  then have "unat w = float_bits 11 52 s x m" by (simp add: assms(1) unsigned_of_nat take_bit_nat_eq_self_iff)
  then show "float_sign 11 52 (unat w) = s" "float_exp 11 52 (unat w) = x" "float_frac 52 (unat w) = m"
    using float_bits_fields [OF assms(2-4)] by simp_all
qed

lemma widened_normal:
  assumes "x \<noteq> 0" shows "(2 ^ 52 + m * 2 ^ 29) * 2 ^ (x + 896 - 1) = (2 ^ 23 + m) * 2 ^ (x - 1) * (2 ^ 925 :: nat)"
proof -
  have "x + 896 - 1 = (x - 1) + 896" using assms by simp
  moreover have "(2 ^ 52 + m * 2 ^ 29 :: nat) = (2 ^ 23 + m) * 2 ^ 29" by simp
  moreover have "(2 :: nat) ^ 925 = 2 ^ 29 * 2 ^ 896" by (simp only: power_add [symmetric]) simp
  ultimately show ?thesis by (simp only: power_add ac_simps)
qed

lemma widened_subnormal:
  assumes "m \<noteq> 0" "m < 2 ^ 23"
  defines "k \<equiv> floorlog 2 m - 1"
  shows "k < 23" "2 ^ 52 \<le> m * 2 ^ (52 - k)" "m * 2 ^ (52 - k) - 2 ^ 52 < 2 ^ 52"
    "(2 ^ 52 + (m * 2 ^ (52 - k) - 2 ^ 52)) * 2 ^ (k + 874 - 1) = m * (2 ^ 925 :: nat)"
proof -
  have fl: "2 ^ k \<le> m" "m < 2 ^ Suc k"
    using floorlog_bounds [of m 2] assms(1) by (auto simp: k_def floorlog_def)
  then have "(2 :: nat) ^ k < 2 ^ 23" using assms(2) by linarith
  then show k: "k < 23" by (simp only: power_strict_increasing_iff)
  have split: "(2 :: nat) ^ 52 = 2 ^ k * 2 ^ (52 - k)" using k by (simp only: power_add [symmetric]) simp
  show low: "2 ^ 52 \<le> m * 2 ^ (52 - k)" unfolding split using fl(1) by simp
  have "m * 2 ^ (52 - k) < 2 ^ Suc k * 2 ^ (52 - k)" using fl(2) by simp
  also have "\<dots> = 2 * 2 ^ 52" unfolding split by simp
  finally show "m * 2 ^ (52 - k) - 2 ^ 52 < 2 ^ 52" by simp
  have "52 - k + (k + 874 - 1) = 925" using k by simp
  then have "(2 :: nat) ^ (52 - k) * 2 ^ (k + 874 - 1) = 2 ^ 925" by (simp only: power_add [symmetric])
  then show "(2 ^ 52 + (m * 2 ^ (52 - k) - 2 ^ 52)) * 2 ^ (k + 874 - 1) = m * (2 ^ 925 :: nat)"
    using low by (simp only: le_add_diff_inverse mult.assoc)
qed

lemma float_units_cong:
  assumes "float_sign e f n = float_sign e' f' n'"
    and "(if float_exp e f n = 0 then float_frac f n else (2 ^ f + float_frac f n) * 2 ^ (float_exp e f n - 1))
      = (if float_exp e' f' n' = 0 then float_frac f' n' else (2 ^ f' + float_frac f' n') * 2 ^ (float_exp e' f' n' - 1)) * u"
  shows "float_units e f n = float_units e' f' n' * int u"
  unfolding float_units_def assms by simp

text \<open>
  A widened float is finite exactly when it was, and then it is the same number: the unit of a
  \<open>float32\<close> is 2^925 units of a \<open>float64\<close>.
\<close>

lemma widen_float_exact:
  assumes "float_exp 8 23 (unat w) \<noteq> 255"
  shows "\<not> non_finite (widen_float w) \<and> float_units 11 52 (unat (widen_float w)) = float_units 8 23 (unat w) * int (2 ^ 925)"
proof -
  define s x m where "s = float_sign 8 23 (unat w)" and "x = float_exp 8 23 (unat w)" and "m = float_frac 23 (unat w)"
  have b: "s < 2" "x < 2 ^ 8" "m < 2 ^ 23"
    using float_fields_bounds [of "unat w" 8 23] unsigned_less [of w] by (simp_all add: s_def x_def m_def)
  note d = widen_float_def Let_def s_def [symmetric] x_def [symmetric] m_def [symmetric]
  have x: "x \<noteq> 255" using assms by (simp add: x_def)
  consider "x \<noteq> 0" | "x = 0" "m = 0" | "x = 0" "m \<noteq> 0" by blast
  then show ?thesis
  proof cases
    case 1
    have "widen_float w = word_of_nat (float_bits 11 52 s (x + 896) (m * 2 ^ 29))" using 1 x by (simp add: d)
    note f = widened_fields [OF this b(1)]
    have "x + 896 < 2 ^ 11" "m * 2 ^ 29 < 2 ^ 52" using b x by auto
    note f = f [OF this]
    have "float_units 11 52 (unat (widen_float w)) = float_units 8 23 (unat w) * int (2 ^ 925)"
      by (rule float_units_cong) (use 1 widened_normal [of x m] in \<open>simp_all only: f s_def [symmetric] x_def [symmetric] m_def [symmetric] if_False add_is_0 simp_thms\<close>)
    then show ?thesis using b(2) x by (simp add: non_finite_def f)
  next
    case 2
    have "widen_float w = word_of_nat (float_bits 11 52 s 0 0)" using 2 by (simp add: d)
    note f = widened_fields [OF this b(1)]
    show ?thesis using 2 by (simp add: non_finite_def f float_units_def s_def x_def m_def)
  next
    case 3
    define k where "k = floorlog 2 m - 1"
    note sub = widened_subnormal [OF 3(2) b(3), folded k_def]
    have "widen_float w = word_of_nat (float_bits 11 52 s (k + 874) (m * 2 ^ (52 - k) - 2 ^ 52))"
      using 3 by (simp add: d k_def)
    note f = widened_fields [OF this b(1)]
    have "k + 874 < 2 ^ 11" using sub(1) by simp
    note f = f [OF this sub(3)]
    have "float_units 11 52 (unat (widen_float w)) = float_units 8 23 (unat w) * int (2 ^ 925)"
      by (rule float_units_cong) (use 3 sub(4) in \<open>simp_all only: f s_def [symmetric] x_def [symmetric] m_def [symmetric] if_False if_True add_is_0 zero_neq_numeral [symmetric] simp_thms\<close>)
    then show ?thesis using sub(1) by (simp add: non_finite_def f)
  qed
qed

lemma widen_float_non_finite:
  assumes "float_exp 8 23 (unat w) = 255"
  shows "non_finite (widen_float w)"
proof -
  have b: "float_sign 8 23 (unat w) < 2" "float_frac 23 (unat w) < 2 ^ 23"
    using float_fields_bounds [of "unat w" 8 23] unsigned_less [of w] by simp_all
  have "widen_float w = word_of_nat (float_bits 11 52 (float_sign 8 23 (unat w)) 2047 (float_frac 23 (unat w) * 2 ^ 29))"
    using assms by (simp add: widen_float_def Let_def)
  from widened_fields(2) [OF this b(1)] show ?thesis using b(2) by (simp add: non_finite_def)
qed

subsection \<open>The running program (app.go)\<close>

text \<open>What the process answers: the path of its executable, the bytes read there, and its build information.\<close>

record build_info =
  bi_path :: gostring
  bi_sum :: gostring
  bi_settings :: "(gostring \<times> gostring) list"

record app_environment =
  ae_Executable :: "gostring option"
  ae_ReadFile :: "gostring \<Rightarrow> gostring option"
  ae_build :: "build_info option"

definition ReadBuildInfo :: "build_info option \<Rightarrow> gostring option" where
  "ReadBuildInfo info =
     (case info of None \<Rightarrow> None
      | Some i \<Rightarrow>
          (case find (\<lambda>s. fst s = ''vcs.revision'' \<and> snd s \<noteq> []) (bi_settings i) of
             Some s \<Rightarrow> Some (bi_path i @ ''@'' @ snd s)
           | None \<Rightarrow> if bi_sum i \<noteq> [] then Some (bi_path i @ ''@'' @ bi_sum i) else None))"

definition markerBuildID :: gostring where
  "markerBuildID = ''evident-output:fingerprint:app:buildid:v1'' @ [NUL]"

definition appDigest :: "(gostring \<Rightarrow> digest) \<Rightarrow> app_environment \<Rightarrow> digest option" where
  "appDigest H env =
     (case Option.bind (ae_Executable env) (ae_ReadFile env) of
        Some b \<Rightarrow> Some (H (markerRegularFile @ b))
      | None \<Rightarrow> map_option (\<lambda>i. H (markerBuildID @ i)) (ReadBuildInfo (ae_build env)))"

text \<open>A program whose executable can be read has the digest \<open>FSPath\<close> gives that file.\<close>

lemma app_is_its_file:
  assumes "ae_Executable env = Some exe" "ae_ReadFile env exe = Some b" "fr_first r = ReadOK b"
  shows "appDigest H env = fingerprintPath H osfs (FpNode 493 r t es)"
  using assms by (simp add: appDigest_def regularFileDigest_def readRegular_def read_bytes_def
      ModeSymlink_def ModeDir_def ModeType_def ModeNamedPipe_def ModeSocket_def ModeDevice_def ModeCharDevice_def ModeIrregular_def)

lemma ReadBuildInfo_None:
  "ReadBuildInfo (Some i) = None \<longleftrightarrow> bi_sum i = [] \<and> (\<forall>s\<in>set (bi_settings i). fst s = ''vcs.revision'' \<longrightarrow> snd s = [])"
proof (cases "find (\<lambda>s. fst s = ''vcs.revision'' \<and> snd s \<noteq> []) (bi_settings i)")
  case None
  then have "ReadBuildInfo (Some i) = (if bi_sum i \<noteq> [] then Some (bi_path i @ ''@'' @ bi_sum i) else None)"
    by (simp add: ReadBuildInfo_def)
  then show ?thesis using None by (auto simp: find_None_iff)
next
  case (Some s)
  then have "s \<in> set (bi_settings i)" "fst s = ''vcs.revision''" "snd s \<noteq> []"
    by (auto simp: find_Some_iff)
  then show ?thesis using Some by (auto simp: ReadBuildInfo_def)
qed

text \<open>It has no identity exactly when neither its bytes nor a revision or checksum can be found.\<close>

lemma app_unavailable:
  "appDigest H env = None \<longleftrightarrow>
     (\<forall>exe. ae_Executable env = Some exe \<longrightarrow> ae_ReadFile env exe = None) \<and>
     (\<forall>i. ae_build env = Some i \<longrightarrow> bi_sum i = [] \<and> (\<forall>s\<in>set (bi_settings i). fst s = ''vcs.revision'' \<longrightarrow> snd s = []))"
proof -
  have "appDigest H env = None \<longleftrightarrow> Option.bind (ae_Executable env) (ae_ReadFile env) = None \<and> ReadBuildInfo (ae_build env) = None"
    by (simp add: appDigest_def split: option.split)
  moreover have "Option.bind (ae_Executable env) (ae_ReadFile env) = None \<longleftrightarrow>
      (\<forall>exe. ae_Executable env = Some exe \<longrightarrow> ae_ReadFile env exe = None)"
    by (cases "ae_Executable env") simp_all
  moreover have "ReadBuildInfo (ae_build env) = None \<longleftrightarrow> (\<forall>i. ae_build env = Some i \<longrightarrow> bi_sum i = []
      \<and> (\<forall>s\<in>set (bi_settings i). fst s = ''vcs.revision'' \<longrightarrow> snd s = []))"
    by (cases "ae_build env") (simp_all add: ReadBuildInfo_None, simp add: ReadBuildInfo_def)
  ultimately show ?thesis by simp
qed

end
