(* ===== verification/Extract.thy ===== *)
theory Extract
  imports Prelude "HOL-Library.Word" "HOL-Library.Sublist"
begin

text \<open>
  Unpacking an archive (\<open>internal/extract\<close>). The members are what \<open>archive/tar\<close> and \<open>archive/zip\<close> read
  from the bytes; the file system is a map from absolute paths to entries, and every call resolves its path
  the way a kernel does, through links. Any call may fail. What is shown is that no archive reaches outside
  the staging directory, neither while it is unpacked nor through a link it leaves behind.
\<close>

subsection \<open>A file system with links\<close>

type_synonym gostring = "char list"

type_synonym path = "gostring list"

datatype fs_entry = EDir | EFile nat gostring | ELink gostring

type_synonym filesystem = "path \<Rightarrow> fs_entry option"

definition dotdot :: gostring where "dotdot = ''..''"

text \<open>\<open>segments\<close>: the names of a path, without empty ones and dots; a kernel reads a link text the same way.\<close>

definition segments :: "gostring \<Rightarrow> path" where
  "segments p = filter (\<lambda>s. s \<noteq> [] \<and> s \<noteq> ''.'') (split_on CHR ''/'' p)"

definition absolute :: "gostring \<Rightarrow> bool" where "absolute p \<longleftrightarrow> prefix ''/'' p"

datatype walk_error = NoEntry | NotDirectory | TooManyLinks

text \<open>The real path of what the names lead to from a real directory, after at most \<open>b\<close> links.\<close>

function (sequential) walk :: "filesystem \<Rightarrow> nat \<Rightarrow> path \<Rightarrow> path \<Rightarrow> walk_error + path" where
  "walk fs b cur [] = Inr cur"
| "walk fs b cur (s # rest) =
     (if s = dotdot then walk fs b (butlast cur) rest
      else case fs (cur @ [s]) of
          None \<Rightarrow> Inl NoEntry
        | Some EDir \<Rightarrow> walk fs b (cur @ [s]) rest
        | Some (EFile _ _) \<Rightarrow> if rest = [] then Inr (cur @ [s]) else Inl NotDirectory
        | Some (ELink t) \<Rightarrow>
            (if b = 0 then Inl TooManyLinks
             else walk fs (b - 1) (if absolute t then [] else cur) (segments t @ rest)))"
  by pat_completeness auto

termination
  by (relation "inv_image (less_than <*lex*> less_than) (\<lambda>(fs, b, cur, names). (b, length names))") auto

text \<open>Linux follows at most 40 links on one path.\<close>

definition max_links :: nat where "max_links = 40"

definition real_parent :: "filesystem \<Rightarrow> path \<Rightarrow> walk_error + path" where
  "real_parent fs p =
     (case walk fs max_links [] (butlast p) of
        Inl e \<Rightarrow> Inl e
      | Inr d \<Rightarrow> if fs d = Some EDir then Inr d else Inl NotDirectory)"

text \<open>\<open>os.Lstat\<close>, and the calls that create a name: \<open>Mkdir\<close>, \<open>OpenFile\<close> with \<open>O_EXCL\<close>, \<open>Symlink\<close>, \<open>Link\<close>.\<close>

datatype lstat = NotExist | LstatFailed | Found fs_entry

definition Lstat :: "filesystem \<Rightarrow> path \<Rightarrow> lstat" where
  "Lstat fs p =
     (case real_parent fs p of
        Inl NoEntry \<Rightarrow> NotExist
      | Inl _ \<Rightarrow> LstatFailed
      | Inr d \<Rightarrow> (case fs (d @ [last p]) of None \<Rightarrow> NotExist | Some e \<Rightarrow> Found e))"

datatype placed = Placed path filesystem | AlreadyThere | PlaceFailed

definition place :: "filesystem \<Rightarrow> path \<Rightarrow> fs_entry \<Rightarrow> placed" where
  "place fs p e =
     (case real_parent fs p of
        Inl _ \<Rightarrow> PlaceFailed
      | Inr d \<Rightarrow> if fs (d @ [last p]) \<noteq> None then AlreadyThere
          else Placed (d @ [last p]) (fs(d @ [last p] \<mapsto> e)))"

subsection \<open>Errors and failing calls\<close>

datatype extract_error = ErrMalformed | ErrUnsafeEntry | ErrContext | ErrOS

text \<open>The places that call the operating system; one entry calls each at most once for a path.\<close>

datatype call_site = AtParentLstat | AtParentMkdir | AtDirLstat | AtDirMkdir | AtOpen | AtChmod | AtClose
  | AtSymlink | AtSourceLstat | AtSourceFinal | AtLink

type_synonym call_faults = "call_site \<Rightarrow> path \<Rightarrow> bool"

definition try_lstat :: "call_faults \<Rightarrow> call_site \<Rightarrow> filesystem \<Rightarrow> path \<Rightarrow> lstat" where
  "try_lstat f site fs p = (if f site p then LstatFailed else Lstat fs p)"

definition try_place :: "call_faults \<Rightarrow> call_site \<Rightarrow> filesystem \<Rightarrow> path \<Rightarrow> fs_entry \<Rightarrow> placed" where
  "try_place f site fs p e = (if f site p then PlaceFailed else place fs p e)"

subsection \<open>Names (writer.go)\<close>

definition forbidden_char :: "gostring \<Rightarrow> bool" where
  "forbidden_char name \<longleftrightarrow> CHR 0x5C \<in> set name \<or> CHR 0x00 \<in> set name"

definition relPath :: "path \<Rightarrow> gostring \<Rightarrow> extract_error + path \<times> bool" where
  "relPath strip name =
     (if name = [] \<or> forbidden_char name then Inl ErrUnsafeEntry
      else if absolute name then Inl ErrUnsafeEntry
      else let segs = segments name
        in if dotdot \<in> set segs then Inl ErrUnsafeEntry
           else if strip \<noteq> [] then
             (if \<not> prefix strip segs then Inl ErrUnsafeEntry
              else let below = drop (length strip) segs in Inr (below, below = []))
           else Inr (segs, segs = []))"

text \<open>
  \<open>symlink\<close>'s reading of a target: how many \<open>..\<close> it begins with, or \<open>None\<close> when one comes after a name.
\<close>

fun link_ups :: "path \<Rightarrow> bool \<Rightarrow> nat \<Rightarrow> nat option" where
  "link_ups [] descending ups = Some ups"
| "link_ups (s # rest) descending ups =
     (if s = [] \<or> s = ''.'' then link_ups rest descending ups
      else if s = dotdot then (if descending then None else link_ups rest descending (ups + 1))
      else link_ups rest True ups)"

definition maxLinkTarget :: nat where "maxLinkTarget = 4096"

definition link_target_ok :: "path \<Rightarrow> gostring \<Rightarrow> bool" where
  "link_target_ok segs target \<longleftrightarrow>
     \<not> (length target > maxLinkTarget \<or> target = [] \<or> forbidden_char target \<or> absolute target) \<and>
     (case link_ups (split_on CHR ''/'' target) False 0 of None \<Rightarrow> False | Some ups \<Rightarrow> \<not> ups > length segs - 1)"

subsection \<open>Writing entries (writer.go)\<close>

type_synonym outcome = "extract_error option \<times> filesystem"

text \<open>\<open>parentDir\<close>: every ancestor is a real directory or is made one.\<close>

fun make_parents :: "call_faults \<Rightarrow> path \<Rightarrow> path \<Rightarrow> filesystem \<Rightarrow> outcome" where
  "make_parents f cur [] fs = (None, fs)"
| "make_parents f cur (s # rest) fs =
     (let p = cur @ [s]
      in case try_lstat f AtParentLstat fs p of
          NotExist \<Rightarrow>
            (case try_place f AtParentMkdir fs p EDir of
               Placed _ fs' \<Rightarrow> make_parents f p rest fs'
             | _ \<Rightarrow> (Some ErrOS, fs))
        | LstatFailed \<Rightarrow> (Some ErrOS, fs)
        | Found EDir \<Rightarrow> make_parents f p rest fs
        | Found _ \<Rightarrow> (Some ErrUnsafeEntry, fs))"

definition parentDir :: "call_faults \<Rightarrow> path \<Rightarrow> path \<Rightarrow> filesystem \<Rightarrow> outcome" where
  "parentDir f root segs fs = make_parents f root (butlast segs) fs"

definition extract_mkdir :: "call_faults \<Rightarrow> path \<Rightarrow> path \<Rightarrow> filesystem \<Rightarrow> outcome" where
  "extract_mkdir f root segs fs =
     (case parentDir f root segs fs of
        (Some e, fs) \<Rightarrow> (Some e, fs)
      | (None, fs) \<Rightarrow>
          (let p = root @ segs
           in case try_lstat f AtDirLstat fs p of
               NotExist \<Rightarrow> (case try_place f AtDirMkdir fs p EDir of Placed _ fs' \<Rightarrow> (None, fs') | _ \<Rightarrow> (Some ErrOS, fs))
             | LstatFailed \<Rightarrow> (Some ErrOS, fs)
             | Found EDir \<Rightarrow> (None, fs)
             | Found _ \<Rightarrow> (Some ErrUnsafeEntry, fs)))"

text \<open>How reading a body and writing it ended, with the bytes that were written.\<close>

datatype copied = CopyDone | CopyMalformed | CopyCancelled | CopyWriteFailed

type_synonym body = "gostring \<times> copied"

definition classifyCopy :: "copied \<Rightarrow> extract_error" where
  "classifyCopy c = (case c of CopyCancelled \<Rightarrow> ErrContext | CopyMalformed \<Rightarrow> ErrMalformed | _ \<Rightarrow> ErrOS)"

text \<open>Permissions: \<open>0o600\<close> while a file is written, then \<open>0o644\<close>, or \<open>0o755\<close> if its owner may run it.\<close>

definition file_perm :: "32 word \<Rightarrow> nat" where
  "file_perm mode = (if and mode 64 \<noteq> 0 then 493 else 420)"

definition extract_file :: "call_faults \<Rightarrow> path \<Rightarrow> path \<Rightarrow> 32 word \<Rightarrow> body \<Rightarrow> filesystem \<Rightarrow> outcome" where
  "extract_file f root segs mode body fs =
     (case parentDir f root segs fs of
        (Some e, fs) \<Rightarrow> (Some e, fs)
      | (None, fs) \<Rightarrow>
          (let p = root @ segs
           in case try_place f AtOpen fs p (EFile 384 []) of
               AlreadyThere \<Rightarrow> (Some ErrUnsafeEntry, fs)
             | PlaceFailed \<Rightarrow> (Some ErrOS, fs)
             | Placed q fs \<Rightarrow>
                 (let fs = fs(q \<mapsto> EFile 384 (fst body))
                  in if snd body \<noteq> CopyDone then (Some (classifyCopy (snd body)), fs)
                     else if f AtChmod p then (Some ErrOS, fs)
                     else (if f AtClose p then Some ErrOS else None,
                       fs(q \<mapsto> EFile (file_perm mode) (fst body))))))"

definition extract_symlink :: "call_faults \<Rightarrow> path \<Rightarrow> path \<Rightarrow> gostring \<Rightarrow> filesystem \<Rightarrow> outcome" where
  "extract_symlink f root segs target fs =
     (if \<not> link_target_ok segs target then (Some ErrUnsafeEntry, fs)
      else case parentDir f root segs fs of
        (Some e, fs) \<Rightarrow> (Some e, fs)
      | (None, fs) \<Rightarrow>
          (case try_place f AtSymlink fs (root @ segs) (ELink target) of
             AlreadyThere \<Rightarrow> (Some ErrUnsafeEntry, fs)
           | PlaceFailed \<Rightarrow> (Some ErrOS, fs)
           | Placed _ fs' \<Rightarrow> (None, fs')))"

text \<open>The loop of \<open>hardlink\<close> over the names of its target: nothing on the way is missing or a link.\<close>

fun source_plain :: "call_faults \<Rightarrow> filesystem \<Rightarrow> path \<Rightarrow> path \<Rightarrow> bool" where
  "source_plain f fs src [] = True"
| "source_plain f fs src (s # rest) =
     (case try_lstat f AtSourceLstat fs (src @ [s]) of
        Found (ELink _) \<Rightarrow> False
      | Found _ \<Rightarrow> source_plain f fs (src @ [s]) rest
      | _ \<Rightarrow> False)"

text \<open>A file is written once, when its name is made, so a further name for it holds the same bytes for good.\<close>

definition extract_hardlink :: "call_faults \<Rightarrow> path \<Rightarrow> path \<Rightarrow> path \<Rightarrow> gostring \<Rightarrow> filesystem \<Rightarrow> outcome" where
  "extract_hardlink f root strip segs target fs =
     (case relPath strip target of
        Inl _ \<Rightarrow> (Some ErrUnsafeEntry, fs)
      | Inr (tsegs, skip) \<Rightarrow>
          (if skip then (Some ErrUnsafeEntry, fs)
           else if \<not> source_plain f fs root tsegs then (Some ErrUnsafeEntry, fs)
           else case try_lstat f AtSourceFinal fs (root @ tsegs) of
             Found (EFile perm bytes) \<Rightarrow>
               (case parentDir f root segs fs of
                  (Some e, fs) \<Rightarrow> (Some e, fs)
                | (None, fs) \<Rightarrow>
                    (case try_place f AtLink fs (root @ segs) (EFile perm bytes) of
                       AlreadyThere \<Rightarrow> (Some ErrUnsafeEntry, fs)
                     | PlaceFailed \<Rightarrow> (Some ErrOS, fs)
                     | Placed _ fs' \<Rightarrow> (None, fs')))
           | _ \<Rightarrow> (Some ErrUnsafeEntry, fs)))"

subsection \<open>Members of an archive (extract.go, writer.go)\<close>

datatype tar_type = TypeXGlobalHeader | TypeDir | TypeReg | TypeSymlink | TypeLink | TypeOther

record tar_header =
  th_Name :: gostring
  th_Type :: tar_type
  th_Mode :: "64 word"
  th_Linkname :: gostring

text \<open>A zip member; \<open>ze_Mode\<close> is its \<open>fs.FileMode\<close>, type bits included.\<close>

record zip_entry =
  ze_Name :: gostring
  ze_Mode :: "32 word"
  ze_opens :: bool
  ze_body :: body

definition zip_ModeDir :: "32 word" where "zip_ModeDir = push_bit 31 1"
definition zip_ModeSymlink :: "32 word" where "zip_ModeSymlink = push_bit 27 1"
definition zip_ModeType :: "32 word" where "zip_ModeType = 0x8F280000"

text \<open>The staging root, the names to strip, and the entries seen so far.\<close>

record writer =
  wr_root :: path
  wr_strip :: path
  wr_entries :: nat

definition addTar ::
    "call_faults \<Rightarrow> writer \<Rightarrow> tar_header \<Rightarrow> body \<Rightarrow> filesystem \<Rightarrow> extract_error option \<times> writer \<times> filesystem" where
  "addTar f w h body fs =
     (if th_Type h = TypeXGlobalHeader then (None, w, fs)
      else let w = w\<lparr>wr_entries := wr_entries w + 1\<rparr>
        in case relPath (wr_strip w) (th_Name h) of
            Inl e \<Rightarrow> (Some e, w, fs)
          | Inr (segs, skip) \<Rightarrow>
              (let (r, fs) =
                 (case th_Type h of
                    TypeDir \<Rightarrow> if skip then (None, fs) else extract_mkdir f (wr_root w) segs fs
                  | TypeReg \<Rightarrow> if skip then (Some ErrUnsafeEntry, fs)
                      else extract_file f (wr_root w) segs (ucast (th_Mode h)) body fs
                  | TypeSymlink \<Rightarrow> if skip then (Some ErrUnsafeEntry, fs)
                      else extract_symlink f (wr_root w) segs (th_Linkname h) fs
                  | TypeLink \<Rightarrow> if skip then (Some ErrUnsafeEntry, fs)
                      else extract_hardlink f (wr_root w) (wr_strip w) segs (th_Linkname h) fs
                  | _ \<Rightarrow> (Some ErrUnsafeEntry, fs))
               in (r, w, fs)))"

text \<open>The target of a zip link: \<open>io.ReadAll\<close> of a reader that stops one byte past the longest target.\<close>

definition read_target :: "body \<Rightarrow> extract_error + gostring" where
  "read_target b =
     (if length (fst b) > maxLinkTarget then Inr (take (maxLinkTarget + 1) (fst b))
      else if snd b = CopyDone then Inr (fst b)
      else Inl (classifyCopy (snd b)))"

definition addZip ::
    "call_faults \<Rightarrow> writer \<Rightarrow> zip_entry \<Rightarrow> filesystem \<Rightarrow> extract_error option \<times> writer \<times> filesystem" where
  "addZip f w z fs =
     (let w = w\<lparr>wr_entries := wr_entries w + 1\<rparr>;
          isDir = (and (ze_Mode z) zip_ModeDir \<noteq> 0 \<or> suffix ''/'' (ze_Name z))
      in case relPath (wr_strip w) (ze_Name z) of
          Inl e \<Rightarrow> (Some e, w, fs)
        | Inr (segs, skip) \<Rightarrow>
            (if skip \<and> \<not> isDir then (Some ErrUnsafeEntry, w, fs)
             else if skip then (None, w, fs)
             else if \<not> ze_opens z then (Some ErrMalformed, w, fs)
             else let (r, fs) =
               (if isDir then extract_mkdir f (wr_root w) segs fs
                else if and (ze_Mode z) zip_ModeSymlink \<noteq> 0 then
                  (case read_target (ze_body z) of Inl e \<Rightarrow> (Some e, fs)
                   | Inr target \<Rightarrow> extract_symlink f (wr_root w) segs target fs)
                else if and (ze_Mode z) zip_ModeType = 0 then
                  extract_file f (wr_root w) segs (ze_Mode z) (ze_body z) fs
                else (Some ErrUnsafeEntry, fs))
             in (r, w, fs)))"

text \<open>What the tar reader says after its last member.\<close>

datatype tar_end = TarEOF | TarMalformed | TarCancelled

text \<open>\<open>cancelled n\<close> is what \<open>ctx.Err\<close> says before the \<open>n\<close>th member, \<open>f n\<close> the calls that fail in it.\<close>

fun tar_each ::
    "(nat \<Rightarrow> bool) \<Rightarrow> (nat \<Rightarrow> call_faults) \<Rightarrow> nat \<Rightarrow> (tar_header \<times> body) list \<Rightarrow> tar_end \<Rightarrow> writer \<Rightarrow> filesystem
      \<Rightarrow> extract_error option \<times> writer \<times> filesystem" where
  "tar_each cancelled f n [] e w fs =
     (if cancelled n then (Some ErrContext, w, fs)
      else case e of TarEOF \<Rightarrow> (None, w, fs) | TarMalformed \<Rightarrow> (Some ErrMalformed, w, fs)
        | TarCancelled \<Rightarrow> (Some ErrContext, w, fs))"
| "tar_each cancelled f n ((h, body) # ms) e w fs =
     (if cancelled n then (Some ErrContext, w, fs)
      else case addTar (f n) w h body fs of
          (Some err, w, fs) \<Rightarrow> (Some err, w, fs)
        | (None, w, fs) \<Rightarrow> tar_each cancelled f (n + 1) ms e w fs)"

fun zip_each ::
    "(nat \<Rightarrow> bool) \<Rightarrow> (nat \<Rightarrow> call_faults) \<Rightarrow> nat \<Rightarrow> zip_entry list \<Rightarrow> writer \<Rightarrow> filesystem
      \<Rightarrow> extract_error option \<times> writer \<times> filesystem" where
  "zip_each cancelled f n [] w fs = (None, w, fs)"
| "zip_each cancelled f n (z # zs) w fs =
     (if cancelled n then (Some ErrContext, w, fs)
      else case addZip (f n) w z fs of
          (Some err, w, fs) \<Rightarrow> (Some err, w, fs)
        | (None, w, fs) \<Rightarrow> zip_each cancelled f (n + 1) zs w fs)"

datatype format = Tar bool | Zip

definition gzipMagic :: gostring where "gzipMagic = [CHR 0x1F, CHR 0x8B]"
definition zipMagic :: gostring where "zipMagic = ''PK'' @ [CHR 0x03, CHR 0x04]"
definition zipEmptyMagic :: gostring where "zipEmptyMagic = ''PK'' @ [CHR 0x05, CHR 0x06]"

text \<open>\<open>newReader\<close>; \<open>fails\<close> says that reading the first bytes or seeking back failed.\<close>

definition newReader :: "bool \<Rightarrow> gostring \<Rightarrow> extract_error + format" where
  "newReader fails bytes =
     (let head = take 4 bytes
      in if head = [] then Inl ErrMalformed
         else if fails then Inl ErrOS
         else if prefix gzipMagic head then Inr (Tar True)
         else if prefix zipMagic head \<or> prefix zipEmptyMagic head then Inr Zip
         else Inr (Tar False))"

text \<open>The standard library's readers: the members a tar stream (gzipped or not) or a zip file holds.\<close>

record readers =
  rd_tar :: "bool \<Rightarrow> gostring \<Rightarrow> extract_error + (tar_header \<times> body) list \<times> tar_end"
  rd_zip :: "gostring \<Rightarrow> extract_error + zip_entry list"

text \<open>The world of one call: contexts, faults of the calls around the members, faults inside them.\<close>

record unpack_world =
  uw_started :: bool
  uw_opens :: bool
  uw_head_fails :: bool
  uw_abs_fails :: bool
  uw_cancelled :: "nat \<Rightarrow> bool"
  uw_faults :: "nat \<Rightarrow> call_faults"

definition Unpack ::
    "readers \<Rightarrow> unpack_world \<Rightarrow> gostring \<Rightarrow> gostring \<Rightarrow> path \<Rightarrow> filesystem \<Rightarrow> outcome" where
  "Unpack rd u bytes root dest fs =
     (if \<not> uw_started u then (Some ErrContext, fs)
      else if \<not> uw_opens u then (Some ErrOS, fs)
      else case newReader (uw_head_fails u) bytes of
          Inl e \<Rightarrow> (Some e, fs)
        | Inr fmt \<Rightarrow>
            (if uw_abs_fails u then (Some ErrOS, fs)
             else let w = \<lparr>wr_root = dest, wr_strip = segments root, wr_entries = 0\<rparr>;
               (r, w, fs) =
                 (case fmt of
                    Tar gz \<Rightarrow>
                      (case rd_tar rd gz bytes of Inl e \<Rightarrow> (Some e, w, fs)
                       | Inr (ms, ending) \<Rightarrow> tar_each (uw_cancelled u) (uw_faults u) 0 ms ending w fs)
                  | Zip \<Rightarrow>
                      (case rd_zip rd bytes of Inl e \<Rightarrow> (Some e, w, fs)
                       | Inr zs \<Rightarrow> zip_each (uw_cancelled u) (uw_faults u) 0 zs w fs))
             in (if r = None \<and> wr_entries w = 0 then Some ErrMalformed else r, fs)))"

subsection \<open>Containment\<close>

text \<open>The directory to fill: real all the way down, and empty.\<close>

definition staging :: "filesystem \<Rightarrow> path \<Rightarrow> bool" where
  "staging fs root \<longleftrightarrow>
     dotdot \<notin> set root \<and> (\<forall>p. prefix p root \<longrightarrow> fs p = Some EDir) \<and> (\<forall>p. strict_prefix root p \<longrightarrow> fs p = None)"

text \<open>A link \<open>n\<close> directories below the root leads at most \<open>n\<close> up, and only before it leads down.\<close>

definition link_fits :: "nat \<Rightarrow> gostring \<Rightarrow> bool" where
  "link_fits n t \<longleftrightarrow> \<not> absolute t \<and>
     (\<exists>k ns. segments t = replicate k dotdot @ ns \<and> k \<le> n \<and> dotdot \<notin> set ns)"

text \<open>
  What holds at every state of an unpacking that began at \<open>fs0\<close>: outside the root nothing has changed,
  everything below it sits in a real directory, and every link fits.
\<close>

definition contained :: "filesystem \<Rightarrow> path \<Rightarrow> filesystem \<Rightarrow> bool" where
  "contained fs0 root fs \<longleftrightarrow>
     (\<forall>p. \<not> strict_prefix root p \<longrightarrow> fs p = fs0 p) \<and>
     (\<forall>p s. fs (root @ p @ [s]) \<noteq> None \<longrightarrow> fs (root @ p) = Some EDir) \<and>
     (\<forall>p s t. fs (root @ p @ [s]) = Some (ELink t) \<longrightarrow> link_fits (length p) t)"

definition keeps :: "filesystem \<Rightarrow> filesystem \<Rightarrow> bool" where
  "keeps fs fs' \<longleftrightarrow> (\<forall>p e. fs p = Some e \<longrightarrow> fs' p = Some e)"

lemma keeps_refl [simp]: "keeps fs fs" by (simp add: keeps_def)

lemma keeps_trans: "keeps fs fs' \<Longrightarrow> keeps fs' fs'' \<Longrightarrow> keeps fs fs''" by (simp add: keeps_def)

lemma keeps_at: "keeps fs fs' \<Longrightarrow> fs p = Some e \<Longrightarrow> fs' p = Some e" by (simp add: keeps_def)

lemma keeps_new: "fs p = None \<Longrightarrow> keeps fs (fs(p \<mapsto> e))" by (simp add: keeps_def)

lemma contained_start: "staging fs0 root \<Longrightarrow> contained fs0 root fs0"
proof -
  assume s: "staging fs0 root"
  have "fs0 (root @ p @ [n]) = None" for p n using s by (simp add: staging_def strict_prefix_def)
  then show ?thesis by (simp add: contained_def)
qed

lemma contained_add:
  assumes c: "contained fs0 root fs" and p: "fs (root @ q) = Some EDir" "fs (root @ q @ [s]) = None"
    and e: "\<And>t. e = ELink t \<Longrightarrow> link_fits (length q) t"
  shows "contained fs0 root (fs(root @ q @ [s] \<mapsto> e))"
proof -
  have out: "\<And>p. \<not> strict_prefix root p \<Longrightarrow> fs p = fs0 p"
    and par: "\<And>p n. fs (root @ p @ [n]) \<noteq> None \<Longrightarrow> fs (root @ p) = Some EDir"
    and fits: "\<And>p n t. fs (root @ p @ [n]) = Some (ELink t) \<Longrightarrow> link_fits (length p) t"
    using c by (auto simp: contained_def)
  show ?thesis unfolding contained_def
  proof (intro conjI allI impI)
    fix p assume "\<not> strict_prefix root p"
    then show "(fs(root @ q @ [s] \<mapsto> e)) p = fs0 p" using out by (auto simp: strict_prefix_def)
  next
    fix p n assume n: "(fs(root @ q @ [s] \<mapsto> e)) (root @ p @ [n]) \<noteq> None"
    then have "fs (root @ p) = Some EDir" using par p(1) by (cases "p = q \<and> n = s") auto
    then show "(fs(root @ q @ [s] \<mapsto> e)) (root @ p) = Some EDir" using p(2) by auto
  next
    fix p n t assume "(fs(root @ q @ [s] \<mapsto> e)) (root @ p @ [n]) = Some (ELink t)"
    then show "link_fits (length p) t" using fits e by (cases "p = q \<and> n = s") auto
  qed
qed

text \<open>All ancestors of a path, and it itself, are real directories.\<close>

definition real_path :: "filesystem \<Rightarrow> path \<Rightarrow> bool" where
  "real_path fs p \<longleftrightarrow> dotdot \<notin> set p \<and> (\<forall>q. prefix q p \<longrightarrow> fs q = Some EDir)"

lemma real_path_snoc: "real_path fs (p @ [s]) \<longleftrightarrow> real_path fs p \<and> s \<noteq> dotdot \<and> fs (p @ [s]) = Some EDir"
  by (auto simp: real_path_def)

lemma real_path_keeps: "real_path fs p \<Longrightarrow> keeps fs fs' \<Longrightarrow> real_path fs' p"
  by (simp add: real_path_def keeps_def)

lemma walk_real: "real_path fs (cur @ names) \<Longrightarrow> walk fs b cur (names @ beyond) = walk fs b (cur @ names) beyond"
proof (induction names arbitrary: cur)
  case (Cons s names)
  have "prefix (cur @ [s]) (cur @ s # names)" by simp
  then have "fs (cur @ [s]) = Some EDir" "s \<noteq> dotdot" using Cons.prems by (auto simp only: real_path_def set_append set_simps)
  then show ?case using Cons by simp
qed simp

lemma real_parent_real: "real_path fs p \<Longrightarrow> real_parent fs (p @ [s]) = Inr p"
  using walk_real [of fs "[]" p max_links "[]"] by (simp add: real_parent_def) (simp add: real_path_def)

lemma Lstat_real:
  "real_path fs p \<Longrightarrow> Lstat fs (p @ [s]) = (case fs (p @ [s]) of None \<Rightarrow> NotExist | Some e \<Rightarrow> Found e)"
  by (simp add: Lstat_def real_parent_real)

lemma place_real:
  "real_path fs p \<Longrightarrow> place fs (p @ [s]) e =
     (if fs (p @ [s]) \<noteq> None then AlreadyThere else Placed (p @ [s]) (fs(p @ [s] \<mapsto> e)))"
  by (simp add: place_def real_parent_real)

lemma try_place_real:
  assumes "real_path fs p" "try_place f site fs (p @ [s]) e = Placed q fs'"
  shows "q = p @ [s] \<and> fs (p @ [s]) = None \<and> fs' = fs(p @ [s] \<mapsto> e)"
  using assms by (auto simp: try_place_def place_real split: if_splits)

lemma try_lstat_real:
  assumes "real_path fs p"
  shows "try_lstat f site fs (p @ [s]) = Found e \<Longrightarrow> fs (p @ [s]) = Some e"
    and "try_lstat f site fs (p @ [s]) = NotExist \<Longrightarrow> fs (p @ [s]) = None"
  using assms by (auto simp: try_lstat_def Lstat_real split: if_splits option.splits)

lemma make_parents_contained:
  assumes "contained fs0 root fs" "real_path fs (root @ q)" "dotdot \<notin> set rest"
    and "make_parents f (root @ q) rest fs = (r, fs')"
  shows "contained fs0 root fs' \<and> keeps fs fs' \<and> (r = None \<longrightarrow> real_path fs' (root @ q @ rest))"
  using assms
proof (induction rest arbitrary: q fs)
  case (Cons s rest)
  let ?p = "root @ q @ [s]"
  have rp: "real_path fs ((root @ q))" and s: "s \<noteq> dotdot" using Cons.prems by auto
  have go: "contained fs0 root fs' \<and> keeps fs1 fs' \<and> (r = None \<longrightarrow> real_path fs' (root @ q @ s # rest))"
    if "contained fs0 root fs1" "real_path fs1 ?p" "make_parents f ?p rest fs1 = (r, fs')" for fs1
    using Cons.IH [of fs1 "q @ [s]"] that Cons.prems(3) by simp
  show ?case
  proof (cases "try_lstat f AtParentLstat fs ?p")
    case NotExist
    show ?thesis
    proof (cases "try_place f AtParentMkdir fs ?p EDir")
      case (Placed p1 fs1)
      have fs1: "fs ?p = None" "fs1 = fs(?p \<mapsto> EDir)" using try_place_real [OF rp, of f AtParentMkdir s] Placed by simp_all
      have "contained fs0 root fs1" unfolding fs1(2)
        by (rule contained_add) (use Cons.prems(1) fs1(1) rp in \<open>simp_all add: real_path_def\<close>)
      moreover have k: "keeps fs fs1" using fs1 keeps_new by simp
      moreover have "real_path fs1 ?p"
        using real_path_keeps [OF rp k] s by (simp add: real_path_snoc [of _ "root @ q", simplified] fs1(2))
      ultimately show ?thesis using go [of fs1] Cons.prems(4) NotExist Placed keeps_trans by (simp add: Let_def)
    qed (use Cons.prems NotExist in \<open>auto simp: Let_def\<close>)
  next
    case LstatFailed
    then show ?thesis using Cons.prems by (auto simp: Let_def)
  next
    case (Found e)
    then have e: "fs ?p = Some e" using try_lstat_real(1) [OF rp, of f AtParentLstat s] by simp
    show ?thesis
    proof (cases e)
      case EDir
      then have "real_path fs ?p" using rp s e by (simp add: real_path_snoc [of _ "root @ q", simplified])
      then show ?thesis using go [of fs] Cons.prems Found EDir by (simp add: Let_def)
    qed (use Cons.prems Found in \<open>auto simp: Let_def\<close>)
  qed
qed auto

text \<open>What every operation promises: containment, nothing overwritten, and the entry in place when it succeeds.\<close>

definition writes :: "filesystem \<Rightarrow> path \<Rightarrow> filesystem \<Rightarrow> outcome \<Rightarrow> path \<Rightarrow> fs_entry \<Rightarrow> bool" where
  "writes fs0 root fs out segs e \<longleftrightarrow>
     contained fs0 root (snd out) \<and> keeps fs (snd out) \<and> (fst out = None \<longrightarrow> snd out (root @ segs) = Some e)"

lemma parentDir_contained:
  assumes "contained fs0 root fs" "real_path fs root" "dotdot \<notin> set segs" "parentDir f root segs fs = (r, fs')"
  shows "contained fs0 root fs' \<and> keeps fs fs' \<and> (r = None \<longrightarrow> real_path fs' (root @ butlast segs))"
  using make_parents_contained [of fs0 root fs "[]" "butlast segs" f r fs'] assms
  by (auto simp: parentDir_def dest: in_set_butlastD)

text \<open>
  The part that the operations share: make the parents, then go on in a directory that is real. An
  operation that keeps the promise there keeps it from the start.
\<close>

lemma after_parents:
  assumes "contained fs0 root fs" "real_path fs root" "dotdot \<notin> set segs" "segs \<noteq> []"
    and "\<And>fs1 q s. segs = q @ [s] \<Longrightarrow> contained fs0 root fs1 \<Longrightarrow> real_path fs1 (root @ q) \<Longrightarrow> keeps fs fs1 \<Longrightarrow>
      writes fs0 root fs1 (go fs1) segs e"
  shows "writes fs0 root fs
    (case parentDir f root segs fs of (Some err, fs) \<Rightarrow> (Some err, fs) | (None, fs) \<Rightarrow> go fs) segs e"
proof -
  obtain r fs1 where p: "parentDir f root segs fs = (r, fs1)" by fastforce
  note c = parentDir_contained [OF assms(1-3) p]
  obtain q s where qs: "segs = q @ [s]" using assms(4) by (cases segs rule: rev_cases) auto
  show ?thesis
  proof (cases r)
    case None
    then have "writes fs0 root fs1 (go fs1) segs e" using assms(5) [OF qs] c by (simp add: qs)
    then show ?thesis using c keeps_trans by (auto simp: p None writes_def)
  next
    case (Some err)
    then show ?thesis using c by (simp add: p writes_def)
  qed
qed

text \<open>Placing a new entry in a real directory below the root.\<close>

lemma placed_writes:
  assumes "contained fs0 root fs" "real_path fs (root @ q)" "try_place f site fs (root @ q @ [s]) e0 = Placed p fs'"
    and "\<And>t. e0 = ELink t \<Longrightarrow> link_fits (length q) t"
  shows "p = root @ q @ [s]" "fs' = fs(root @ q @ [s] \<mapsto> e0)"
    "\<And>e. (\<And>t. e = ELink t \<Longrightarrow> link_fits (length q) t) \<Longrightarrow>
      writes fs0 root fs (r, fs(root @ q @ [s] \<mapsto> e)) (q @ [s]) e"
proof -
  have n: "p = root @ q @ [s] \<and> fs (root @ q @ [s]) = None \<and> fs' = fs(root @ q @ [s] \<mapsto> e0)"
    using try_place_real [OF assms(2), of f site s e0 p fs'] assms(3) by simp
  then show "p = root @ q @ [s]" "fs' = fs(root @ q @ [s] \<mapsto> e0)" by simp_all
  fix e assume "\<And>t. e = ELink t \<Longrightarrow> link_fits (length q) t"
  then show "writes fs0 root fs (r, fs(root @ q @ [s] \<mapsto> e)) (q @ [s]) e"
    using n assms(1,2) contained_add [of fs0 root fs q s e] keeps_new by (simp add: writes_def real_path_def)
qed

lemma failed_writes: "contained fs0 root fs \<Longrightarrow> writes fs0 root fs (Some err, fs) segs e"
  by (simp add: writes_def)

lemma placing_writes:
  assumes "contained fs0 root fs" "real_path fs (root @ q)" "\<And>t. e = ELink t \<Longrightarrow> link_fits (length q) t"
  shows "writes fs0 root fs
    (case try_place f site fs (root @ q @ [s]) e of
       Placed _ fs' \<Rightarrow> (None, fs') | AlreadyThere \<Rightarrow> (Some a, fs) | PlaceFailed \<Rightarrow> (Some b, fs)) (q @ [s]) e"
proof (cases "try_place f site fs (root @ q @ [s]) e")
  case (Placed p fs')
  then show ?thesis
    using placed_writes(2) [OF assms(1,2) Placed assms(3)] placed_writes(3) [OF assms(1,2) Placed assms(3) assms(3)]
    by simp
qed (simp_all add: failed_writes assms(1))

lemma mkdir_writes:
  assumes "contained fs0 root fs" "real_path fs root" "dotdot \<notin> set segs" "segs \<noteq> []"
  shows "writes fs0 root fs (extract_mkdir f root segs fs) segs EDir"
  unfolding extract_mkdir_def
proof (rule after_parents [OF assms])
  fix fs1 q s assume s: "segs = q @ [s]" and c: "contained fs0 root fs1" "real_path fs1 (root @ q)"
  show "writes fs0 root fs1 (let p = root @ segs in case try_lstat f AtDirLstat fs1 p of
      NotExist \<Rightarrow> (case try_place f AtDirMkdir fs1 p EDir of Placed _ fs' \<Rightarrow> (None, fs') | _ \<Rightarrow> (Some ErrOS, fs1))
    | LstatFailed \<Rightarrow> (Some ErrOS, fs1) | Found EDir \<Rightarrow> (None, fs1) | Found _ \<Rightarrow> (Some ErrUnsafeEntry, fs1)) segs EDir"
  proof (cases "try_lstat f AtDirLstat fs1 (root @ q @ [s])")
    case NotExist
    then show ?thesis using placing_writes [OF c, where e = EDir and f = f and site = AtDirMkdir and s = s and a = ErrOS and b = ErrOS] by (simp add: s)
  next
    case LstatFailed
    then show ?thesis using c(1) by (simp add: s failed_writes)
  next
    case (Found e)
    then have "fs1 (root @ q @ [s]) = Some e" using try_lstat_real(1) [OF c(2), of f AtDirLstat s] by simp
    then show ?thesis using Found c(1) by (cases e) (simp_all add: s failed_writes, simp add: writes_def)
  qed
qed

lemma file_writes:
  assumes "contained fs0 root fs" "real_path fs root" "dotdot \<notin> set segs" "segs \<noteq> []"
  shows "writes fs0 root fs (extract_file f root segs mode body fs) segs (EFile (file_perm mode) (fst body))"
  unfolding extract_file_def
proof (rule after_parents [OF assms])
  fix fs1 q s assume s: "segs = q @ [s]" and c: "contained fs0 root fs1" "real_path fs1 (root @ q)"
  show "writes fs0 root fs1 (let p = root @ segs in case try_place f AtOpen fs1 p (EFile 384 []) of
      AlreadyThere \<Rightarrow> (Some ErrUnsafeEntry, fs1) | PlaceFailed \<Rightarrow> (Some ErrOS, fs1)
    | Placed q fs \<Rightarrow> (let fs = fs(q \<mapsto> EFile 384 (fst body)) in
        if snd body \<noteq> CopyDone then (Some (classifyCopy (snd body)), fs)
        else if f AtChmod p then (Some ErrOS, fs)
        else (if f AtClose p then Some ErrOS else None, fs(q \<mapsto> EFile (file_perm mode) (fst body)))))
      segs (EFile (file_perm mode) (fst body))"
  proof (cases "try_place f AtOpen fs1 (root @ segs) (EFile 384 [])")
    case (Placed p fs2)
    then have "try_place f AtOpen fs1 (root @ q @ [s]) (EFile 384 []) = Placed p fs2" by (simp add: s)
    note w = placed_writes [OF c this]
    show ?thesis using w(1,2) w(3) [of "EFile 384 (fst body)"] w(3) [of "EFile (file_perm mode) (fst body)"]
      by (simp add: s Placed [unfolded s, simplified] Let_def writes_def)
  qed (simp_all add: Let_def failed_writes c(1))
qed

lemma symlink_writes:
  assumes "contained fs0 root fs" "real_path fs root" "dotdot \<notin> set segs" "segs \<noteq> []"
    and "link_target_ok segs target \<Longrightarrow> link_fits (length segs - 1) target"
  shows "writes fs0 root fs (extract_symlink f root segs target fs) segs (ELink target)"
proof (cases "link_target_ok segs target")
  case True
  have "writes fs0 root fs
      (case parentDir f root segs fs of (Some err, fs) \<Rightarrow> (Some err, fs)
       | (None, fs) \<Rightarrow> (case try_place f AtSymlink fs (root @ segs) (ELink target) of
           AlreadyThere \<Rightarrow> (Some ErrUnsafeEntry, fs) | PlaceFailed \<Rightarrow> (Some ErrOS, fs) | Placed _ fs' \<Rightarrow> (None, fs')))
      segs (ELink target)"
  proof (rule after_parents [OF assms(1-4)])
    fix fs1 q s assume s: "segs = q @ [s]" and c: "contained fs0 root fs1" "real_path fs1 (root @ q)"
    show "writes fs0 root fs1 (case try_place f AtSymlink fs1 (root @ segs) (ELink target) of
        AlreadyThere \<Rightarrow> (Some ErrUnsafeEntry, fs1) | PlaceFailed \<Rightarrow> (Some ErrOS, fs1) | Placed _ fs' \<Rightarrow> (None, fs'))
        segs (ELink target)"
      unfolding s by (rule placing_writes [OF c]) (use assms(5) True in \<open>simp add: s\<close>)
  qed
  then show ?thesis using True by (simp add: extract_symlink_def)
qed (simp add: extract_symlink_def failed_writes assms(1))

text \<open>A source that passes the loop is reached through real directories.\<close>

lemma source_plain_real:
  assumes "source_plain f fs src rest" "real_path fs src" "dotdot \<notin> set rest" "rest \<noteq> []"
  shows "real_path fs (src @ butlast rest)"
  using assms
proof (induction rest arbitrary: src)
  case (Cons s rest)
  show ?case
  proof (cases rest)
    case (Cons s2 rest2)
    obtain e where e: "fs (src @ [s]) = Some e" "\<forall>t. e \<noteq> ELink t"
      using Cons.prems(1,2) try_lstat_real(1) [of fs src f AtSourceLstat s]
      by (auto split: lstat.splits fs_entry.splits)
    have "e \<noteq> EFile perm bytes" for perm bytes
    proof
      assume "e = EFile perm bytes"
      then have "walk fs b (src) [s] = Inr (src @ [s])" for b using e(1) Cons.prems(3) by auto
      then have "real_parent fs (src @ [s, s2]) = Inl NotDirectory"
        using walk_real [of fs "[]" src max_links "[s]"] Cons.prems(2) e(1) \<open>e = EFile perm bytes\<close>
        by (simp add: real_parent_def butlast_append)
      then have "try_lstat f AtSourceLstat fs (src @ [s, s2]) = LstatFailed"
        by (simp add: try_lstat_def Lstat_def)
      then show False using Cons.prems(1) Cons by (auto split: lstat.splits fs_entry.splits)
    qed
    then have "e = EDir" using e(2) by (cases e) auto
    then have "real_path fs (src @ [s])" using e(1) Cons.prems(2,3) by (auto simp: real_path_snoc)
    then show ?thesis using Cons.IH [of "src @ [s]"] Cons.prems Cons by (auto split: lstat.splits fs_entry.splits)
  qed (use Cons.prems in simp)
qed simp

lemma relPath_safe:
  "relPath strip name = Inr (segs, skip) \<Longrightarrow> dotdot \<notin> set segs \<and> (skip \<longleftrightarrow> segs = [])"
  by (auto simp: relPath_def Let_def split: if_splits dest: in_set_dropD)

lemma hardlink_writes:
  assumes "contained fs0 root fs" "real_path fs root" "dotdot \<notin> set segs" "segs \<noteq> []"
  shows "\<exists>e. writes fs0 root fs (extract_hardlink f root strip segs target fs) segs e \<and>
    (fst (extract_hardlink f root strip segs target fs) = None \<longrightarrow>
      (\<exists>tsegs. relPath strip target = Inr (tsegs, False) \<and> fs (root @ tsegs) = Some e))"
proof -
  have link: "writes fs0 root fs
      (case parentDir f root segs fs of (Some err, fs) \<Rightarrow> (Some err, fs)
       | (None, fs) \<Rightarrow> (case try_place f AtLink fs (root @ segs) (EFile perm bytes) of
           AlreadyThere \<Rightarrow> (Some ErrUnsafeEntry, fs) | PlaceFailed \<Rightarrow> (Some ErrOS, fs) | Placed _ fs' \<Rightarrow> (None, fs')))
      segs (EFile perm bytes)" for perm bytes
  proof (rule after_parents [OF assms])
    fix fs1 q s assume s: "segs = q @ [s]" and c: "contained fs0 root fs1" "real_path fs1 (root @ q)"
    show "writes fs0 root fs1 (case try_place f AtLink fs1 (root @ segs) (EFile perm bytes) of
        AlreadyThere \<Rightarrow> (Some ErrUnsafeEntry, fs1) | PlaceFailed \<Rightarrow> (Some ErrOS, fs1) | Placed _ fs' \<Rightarrow> (None, fs'))
        segs (EFile perm bytes)"
      unfolding s append_assoc by (rule placing_writes [OF c]) simp
  qed
  have "\<exists>err. extract_hardlink f root strip segs target fs = (Some err, fs)"
    if "\<nexists>tsegs perm bytes. relPath strip target = Inr (tsegs, False) \<and> source_plain f fs root tsegs
        \<and> try_lstat f AtSourceFinal fs (root @ tsegs) = Found (EFile perm bytes)"
    using that by (auto simp: extract_hardlink_def split: sum.split lstat.split fs_entry.split)
  then consider (refused) err where "extract_hardlink f root strip segs target fs = (Some err, fs)"
    | (source) tsegs perm bytes where "relPath strip target = Inr (tsegs, False)" "source_plain f fs root tsegs"
        "try_lstat f AtSourceFinal fs (root @ tsegs) = Found (EFile perm bytes)"
    by blast
  then show ?thesis
  proof cases
    case refused
    then show ?thesis using assms(1) by (auto simp: failed_writes)
  next
    case source
    have t: "dotdot \<notin> set tsegs" "tsegs \<noteq> []" using relPath_safe [OF source(1)] by auto
    then obtain q s where tq: "tsegs = q @ [s]" by (cases tsegs rule: rev_cases) auto
    have "real_path fs (root @ q)" using source_plain_real [OF source(2) assms(2) t] by (simp add: tq)
    then have "fs (root @ tsegs) = Some (EFile perm bytes)"
      using try_lstat_real(1) [of fs "root @ q" f AtSourceFinal s] source(3) by (simp add: tq)
    then show ?thesis using link [of perm bytes] source by (auto simp: extract_hardlink_def)
  qed
qed

text \<open>What the check of a link target finds is what the kernel will follow.\<close>

lemma link_ups_shape:
  assumes "link_ups parts d ups = Some k"
  shows "ups \<le> k \<and> (d \<longrightarrow> k = ups) \<and>
    (\<exists>ns. filter (\<lambda>s. s \<noteq> [] \<and> s \<noteq> ''.'') parts = replicate (k - ups) dotdot @ ns \<and> dotdot \<notin> set ns)"
  using assms
proof (induction parts d ups rule: link_ups.induct)
  case (2 s rest d ups)
  consider (skip) "s = [] \<or> s = ''.''" | (up) "s = dotdot" "\<not> d" | (down) "s \<noteq> []" "s \<noteq> ''.''" "s \<noteq> dotdot"
    using 2(4) by (fastforce split: if_splits)
  then show ?case
  proof cases
    case skip
    then show ?thesis using 2(1) [OF skip] 2(4) by auto
  next
    case up
    have e: "\<not> (s = [] \<or> s = ''.'')" using up by (simp add: dotdot_def)
    then have "link_ups rest d (ups + 1) = Some k" using up 2(4) by simp
    then obtain ns where ns: "ups + 1 \<le> k" "dotdot \<notin> set ns"
        "filter (\<lambda>s. s \<noteq> [] \<and> s \<noteq> ''.'') rest = replicate (k - (ups + 1)) dotdot @ ns"
      using 2(2) [OF e up] by auto
    then have "k - ups = Suc (k - (ups + 1))" by simp
    then have "filter (\<lambda>s. s \<noteq> [] \<and> s \<noteq> ''.'') (s # rest) = replicate (k - ups) dotdot @ ns"
      using e up ns(3) by simp
    then show ?thesis using ns up by auto
  next
    case down
    then have "link_ups rest True ups = Some k" using 2(4) by simp
    then have "k = ups \<and> dotdot \<notin> set (filter (\<lambda>s. s \<noteq> [] \<and> s \<noteq> ''.'') rest)" using 2(3) down by fastforce
    then show ?thesis using down by (intro conjI exI [of _ "filter (\<lambda>s. s \<noteq> [] \<and> s \<noteq> ''.'') (s # rest)"]) auto
  qed
qed simp

lemma link_target_fits:
  assumes "link_target_ok segs target"
  shows "link_fits (length segs - 1) target"
proof -
  obtain ups where u: "link_ups (split_on CHR ''/'' target) False 0 = Some ups" "ups \<le> length segs - 1" "\<not> absolute target"
    using assms by (auto simp: link_target_ok_def split: option.splits)
  obtain ns where "segments target = replicate ups dotdot @ ns" "dotdot \<notin> set ns"
    using link_ups_shape [OF u(1)] by (auto simp: segments_def)
  then show ?thesis using u(2,3) unfolding link_fits_def by blast
qed

subsection \<open>Members and whole archives\<close>

text \<open>What stands at the place of a tar member once it has been written.\<close>

definition member_at :: "filesystem \<Rightarrow> path \<Rightarrow> path \<Rightarrow> path \<Rightarrow> tar_header \<Rightarrow> body \<Rightarrow> bool" where
  "member_at fs root strip segs h body \<longleftrightarrow>
     (case th_Type h of
        TypeDir \<Rightarrow> fs (root @ segs) = Some EDir
      | TypeReg \<Rightarrow> fs (root @ segs) = Some (EFile (file_perm (ucast (th_Mode h))) (fst body))
      | TypeSymlink \<Rightarrow> fs (root @ segs) = Some (ELink (th_Linkname h))
      | TypeLink \<Rightarrow> (\<exists>tsegs e. relPath strip (th_Linkname h) = Inr (tsegs, False)
          \<and> fs (root @ tsegs) = Some e \<and> fs (root @ segs) = Some e)
      | _ \<Rightarrow> False)"

lemma member_at_keeps: "member_at fs root strip segs h body \<Longrightarrow> keeps fs fs' \<Longrightarrow> member_at fs' root strip segs h body"
  unfolding member_at_def by (cases "th_Type h") (auto dest: keeps_at)

text \<open>A member is done when it stands at its place; a global header has none.\<close>

definition member_done :: "filesystem \<Rightarrow> path \<Rightarrow> path \<Rightarrow> tar_header \<times> body \<Rightarrow> bool" where
  "member_done fs root strip m \<longleftrightarrow> th_Type (fst m) = TypeXGlobalHeader \<or>
     (\<exists>segs skip. relPath strip (th_Name (fst m)) = Inr (segs, skip) \<and> member_at fs root strip segs (fst m) (snd m))"

lemma member_done_keeps: "member_done fs root strip m \<Longrightarrow> keeps fs fs' \<Longrightarrow> member_done fs' root strip m"
  unfolding member_done_def using member_at_keeps by blast

lemma addTar_contained:
  assumes c: "contained fs0 (wr_root w) fs" "real_path fs (wr_root w)" and a: "addTar f w h body fs = (r, w', fs')"
  shows "contained fs0 (wr_root w) fs' \<and> keeps fs fs' \<and> wr_root w' = wr_root w \<and> wr_strip w' = wr_strip w \<and>
    (r = None \<longrightarrow> member_done fs' (wr_root w) (wr_strip w) (h, body))"
proof (cases "relPath (wr_strip w) (th_Name h)")
  case (Inl e)
  then show ?thesis using a c(1) by (auto simp: addTar_def member_done_def Let_def split: if_splits)
next
  case (Inr ss)
  obtain segs skip where ss: "ss = (segs, skip)" by fastforce
  have safe: "dotdot \<notin> set segs" "skip \<longleftrightarrow> segs = []" using relPath_safe Inr ss by auto
  show ?thesis
  proof (cases "skip \<or> th_Type h = TypeXGlobalHeader \<or> th_Type h = TypeOther")
    case True
    then show ?thesis using a c Inr ss safe
      by (cases "th_Type h") (auto simp: addTar_def Let_def member_done_def member_at_def real_path_def split: if_splits)
  next
    case False
    then have ne: "segs \<noteq> []" using safe by simp
    note w = mkdir_writes [OF c safe(1) ne] file_writes [OF c safe(1) ne]
      symlink_writes [OF c safe(1) ne link_target_fits] hardlink_writes [OF c safe(1) ne]
    show ?thesis
    proof (cases "th_Type h")
      case TypeLink
      then show ?thesis using a False Inr ss w(4) [of f "wr_strip w" "th_Linkname h"]
        by (auto simp: addTar_def Let_def member_done_def member_at_def writes_def split: prod.splits dest: keeps_at)
    qed (use a False Inr ss w(1) [of f] w(2) [of f "ucast (th_Mode h)" body] w(3) [of "th_Linkname h" f] in
      \<open>auto simp: addTar_def Let_def member_done_def member_at_def writes_def split: prod.splits\<close>)
  qed
qed

lemma addZip_contained:
  assumes c: "contained fs0 (wr_root w) fs" "real_path fs (wr_root w)" and a: "addZip f w z fs = (r, w', fs')"
  shows "contained fs0 (wr_root w) fs' \<and> keeps fs fs' \<and> wr_root w' = wr_root w"
proof (cases "relPath (wr_strip w) (ze_Name z)")
  case (Inl e)
  then show ?thesis using a c(1) by (auto simp: addZip_def Let_def)
next
  case (Inr ss)
  obtain segs skip where ss: "ss = (segs, skip)" by fastforce
  have safe: "dotdot \<notin> set segs" "skip \<longleftrightarrow> segs = []" using relPath_safe Inr ss by auto
  show ?thesis
  proof (cases skip)
    case True
    then show ?thesis using a c Inr ss by (auto simp: addZip_def Let_def split: if_splits)
  next
    case False
    then have ne: "segs \<noteq> []" using safe by simp
    note w = mkdir_writes [OF c safe(1) ne] file_writes [OF c safe(1) ne] symlink_writes [OF c safe(1) ne link_target_fits]
    let ?t = "case read_target (ze_body z) of Inr t \<Rightarrow> t | Inl _ \<Rightarrow> []"
    show ?thesis using a False Inr ss c(1) w(1) [of f] w(2) [of f "ze_Mode z" "ze_body z"] w(3) [of ?t f]
      by (auto simp: addZip_def Let_def writes_def split: prod.splits if_splits sum.splits)
  qed
qed

lemma tar_each_contained:
  assumes "contained fs0 (wr_root w) fs" "real_path fs (wr_root w)" "tar_each cancelled f n ms ending w fs = (r, w', fs')"
  shows "contained fs0 (wr_root w) fs' \<and> keeps fs fs' \<and>
    (r = None \<longrightarrow> (\<forall>m\<in>set ms. member_done fs' (wr_root w) (wr_strip w) m))"
  using assms
proof (induction ms arbitrary: n w fs)
  case Nil
  then show ?case by (auto split: if_splits tar_end.splits)
next
  case (Cons m ms)
  obtain h body where m: "m = (h, body)" by (cases m)
  show ?case
  proof (cases "cancelled n")
    case False
    obtain r1 w1 fs1 where a: "addTar (f n) w h body fs = (r1, w1, fs1)" by (metis prod_cases3)
    note c = addTar_contained [OF Cons.prems(1,2) a]
    show ?thesis
    proof (cases r1)
      case None
      then have "tar_each cancelled f (n + 1) ms ending w1 fs1 = (r, w', fs')"
        using Cons.prems(3) False a m by simp
      then have rest: "contained fs0 (wr_root w) fs' \<and> keeps fs1 fs' \<and>
          (r = None \<longrightarrow> (\<forall>m\<in>set ms. member_done fs' (wr_root w) (wr_strip w) m))"
        using Cons.IH [of w1 fs1 "n + 1"] c real_path_keeps [OF Cons.prems(2)] by auto
      moreover have "member_done fs' (wr_root w) (wr_strip w) m"
        using c None rest member_done_keeps m by blast
      ultimately show ?thesis using c keeps_trans [of fs fs1 fs'] by simp
    qed (use Cons.prems(3) False a m c in auto)
  qed (use Cons.prems m in auto)
qed

lemma zip_each_contained:
  assumes "contained fs0 (wr_root w) fs" "real_path fs (wr_root w)" "zip_each cancelled f n zs w fs = (r, w', fs')"
  shows "contained fs0 (wr_root w) fs'"
  using assms
proof (induction zs arbitrary: n w fs)
  case (Cons z zs)
  obtain r1 w1 fs1 where a: "addZip (f n) w z fs = (r1, w1, fs1)" by (metis prod_cases3)
  note c = addZip_contained [OF Cons.prems(1,2) a]
  have "contained fs0 (wr_root w) fs'" if "zip_each cancelled f (n + 1) zs w1 fs1 = (r, w', fs')"
    using Cons.IH [of w1 fs1 "n + 1"] that c real_path_keeps [OF Cons.prems(2)] by auto
  then show ?case using Cons.prems c a by (auto split: if_splits option.splits)
qed auto

text \<open>In a contained tree no path that does not climb by itself leads out, whatever links it meets.\<close>

lemma contained_walk:
  "contained fs0 root fs \<Longrightarrow> walk fs b cur names = Inr d \<Longrightarrow> cur = root @ q \<Longrightarrow> names = replicate k dotdot @ ns \<Longrightarrow> k \<le> length q \<Longrightarrow>
    dotdot \<notin> set ns \<Longrightarrow> prefix root d"
proof (induction fs b cur names arbitrary: q k ns rule: walk.induct)
  case (2 fs b cur s rest)
  show ?case
  proof (cases k)
    case (Suc k')
    then have s: "s = dotdot" "rest = replicate k' dotdot @ ns" using 2(7) by auto
    have "butlast cur = root @ butlast q" using 2(6,8) Suc by (auto simp: butlast_append)
    then show ?thesis using 2(1) [OF s(1) 2(4) _ _ s(2)] 2(5,8,9) Suc s(1) by simp
  next
    case 0
    then have ns: "ns = s # rest" "s \<noteq> dotdot" "dotdot \<notin> set rest" using 2(7,9) by auto
    show ?thesis
    proof (cases "fs (cur @ [s])")
      case (Some e)
      show ?thesis
      proof (cases e)
        case EDir
        have "cur @ [s] = root @ (q @ [s])" using 2(6) by simp
        then show ?thesis using 2(2) [OF ns(2) Some EDir 2(4), of "q @ [s]" 0 rest] 2(5) ns Some EDir by simp
      next
        case (EFile p c)
        then show ?thesis using 2(5,6) ns(2) Some by (auto split: if_splits)
      next
        case (ELink t)
        have "link_fits (length q) t"
          using 2(4) Some ELink 2(6) by (auto simp: contained_def)
        then obtain k' ns' where t: "\<not> absolute t" "segments t = replicate k' dotdot @ ns'" "k' \<le> length q" "dotdot \<notin> set ns'"
          by (auto simp: link_fits_def)
        have b: "b \<noteq> 0" using 2(5) ns(2) Some ELink by (auto split: if_splits)
        show ?thesis
          by (rule 2(3) [OF ns(2) Some ELink b 2(4), of q k' "ns' @ rest"]) (use 2(5,6) ns t b Some ELink in auto)
      qed
    qed (use 2(5) ns in auto)
  qed
qed auto

lemma staging_real: "staging fs root \<Longrightarrow> real_path fs root"
  by (simp add: staging_def real_path_def)

lemma unpack_contained:
  assumes "staging fs dest"
  shows "contained fs dest (snd (Unpack rd u bytes root dest fs))"
proof -
  let ?w = "\<lparr>wr_root = dest, wr_strip = segments root, wr_entries = 0\<rparr>"
  note s = contained_start [OF assms] staging_real [OF assms]
  have "contained fs dest fs'" if "tar_each c f 0 ms ending ?w fs = (r, w', fs')" for c f ms ending r w' fs'
    using tar_each_contained [of fs ?w fs] s that by simp
  moreover have "contained fs dest fs'" if "zip_each c f 0 zs ?w fs = (r, w', fs')" for c f zs r w' fs'
    using zip_each_contained [of fs ?w fs] s that by simp
  ultimately show ?thesis
    using s(1) by (auto simp: Unpack_def Let_def split: sum.split format.split prod.split)
qed

text \<open>
  (C2) Whatever the archive says, whatever calls fail, and however the unpacking ends: nothing outside the
  staging directory has changed, and no path from it that does not climb by itself leads out of it, through
  however many links it goes.
\<close>

theorem unpack_stays_inside:
  assumes "staging fs dest"
  shows "(\<forall>p. \<not> strict_prefix dest p \<longrightarrow> snd (Unpack rd u bytes root dest fs) p = fs p) \<and>
    (\<forall>b names d. dotdot \<notin> set names \<longrightarrow> walk (snd (Unpack rd u bytes root dest fs)) b dest names = Inr d \<longrightarrow> prefix dest d)"
proof -
  note c = unpack_contained [OF assms, of rd u bytes root]
  have "prefix dest d" if "dotdot \<notin> set names" "walk (snd (Unpack rd u bytes root dest fs)) b dest names = Inr d" for b names d
    using contained_walk [OF c that(2), of "[]" 0 names] that(1) by simp
  then show ?thesis using c by (simp add: contained_def)
qed

text \<open>
  (C22) An unpacking of a tar that succeeds has put every member where its name says below the stripped root:
  directories, files with their bytes and permissions, links with their text, and hard links on the file
  they name. No later member has replaced an earlier one.
\<close>

theorem unpack_places_members:
  assumes "staging fs dest" "newReader (uw_head_fails u) bytes = Inr (Tar gz)" "rd_tar rd gz bytes = Inr (ms, ending)"
    and "fst (Unpack rd u bytes root dest fs) = None"
  shows "list_all (member_done (snd (Unpack rd u bytes root dest fs)) dest (segments root)) ms"
proof -
  let ?w = "\<lparr>wr_root = dest, wr_strip = segments root, wr_entries = 0\<rparr>"
  obtain r w' fs' where t: "tar_each (uw_cancelled u) (uw_faults u) 0 ms ending ?w fs = (r, w', fs')"
    by (metis prod_cases3)
  then have "r = None" "snd (Unpack rd u bytes root dest fs) = fs'"
    using assms(2-4) by (auto simp: Unpack_def split: if_splits)
  then show ?thesis
    using tar_each_contained [OF _ _ t, of fs] contained_start staging_real assms(1) by (simp add: list_all_iff)
qed

text \<open>A package with a program, a link to it and a second name for it, below a directory that is stripped.\<close>

definition sample_world :: unpack_world where
  "sample_world = \<lparr>uw_started = True, uw_opens = True, uw_head_fails = False, uw_abs_fails = False,
     uw_cancelled = (\<lambda>_. False), uw_faults = (\<lambda>_ _ _. False)\<rparr>"

definition sample_members :: "(tar_header \<times> body) list" where
  "sample_members =
     (let m = (\<lambda>n t l b. (\<lparr>th_Name = n, th_Type = t, th_Mode = 0x1ED, th_Linkname = l\<rparr>, (b, CopyDone)))
      in [m ''pkg/'' TypeDir [] [], m ''pkg/bin/run'' TypeReg [] ''go'', m ''pkg/start'' TypeSymlink ''bin/run'' [],
        m ''pkg/lib/up'' TypeSymlink ''../bin'' [], m ''pkg/again'' TypeLink ''pkg/bin/run'' []])"

definition sample_readers :: readers where
  "sample_readers = \<lparr>rd_tar = (\<lambda>_ _. Inr (sample_members, TarEOF)), rd_zip = (\<lambda>_. Inr [])\<rparr>"

definition sample_disk :: filesystem where
  "sample_disk = (\<lambda>p. if p = [] \<or> p = [''tmp''] \<or> p = [''etc''] then Some EDir else None)"

lemma sample_staging: "staging sample_disk [''tmp'']"
  by (auto simp: staging_def sample_disk_def dotdot_def prefix_Cons strict_prefix_def)

lemma unpack_stays_inside_witness:
  "snd (Unpack sample_readers sample_world ''ustar'' ''pkg'' [''tmp''] sample_disk) [''etc''] = Some EDir \<and>
   walk (snd (Unpack sample_readers sample_world ''ustar'' ''pkg'' [''tmp''] sample_disk)) 40 [''tmp''] [''lib'', ''up'', ''run'']
     = Inr [''tmp'', ''bin'', ''run''] \<and> prefix [''tmp''] [''tmp'', ''bin'', ''run'']"
proof -
  note t = unpack_stays_inside [OF sample_staging, of sample_readers sample_world "''ustar''" "''pkg''"]
  have "\<not> strict_prefix [''tmp''] [''etc'']" by (simp add: strict_prefix_def)
  then have out: "snd (Unpack sample_readers sample_world ''ustar'' ''pkg'' [''tmp''] sample_disk) [''etc''] = Some EDir"
    using t by (simp add: sample_disk_def)
  have w: "walk (snd (Unpack sample_readers sample_world ''ustar'' ''pkg'' [''tmp''] sample_disk)) 40 [''tmp''] [''lib'', ''up'', ''run'']
      = Inr [''tmp'', ''bin'', ''run'']" by code_simp
  have "dotdot \<notin> set [''lib'', ''up'', ''run'']" by (simp add: dotdot_def)
  then have "prefix [''tmp''] [''tmp'', ''bin'', ''run'']" using t w by blast
  then show ?thesis using out w by blast
qed

lemma unpack_places_members_witness:
  "list_all (member_done (snd (Unpack sample_readers sample_world ''ustar'' ''pkg'' [''tmp''] sample_disk))
     [''tmp''] (segments ''pkg'')) sample_members"
proof (rule unpack_places_members [OF sample_staging])
  show "newReader (uw_head_fails sample_world) ''ustar'' = Inr (Tar False)" by code_simp
  show "rd_tar sample_readers False ''ustar'' = Inr (sample_members, TarEOF)" by (simp add: sample_readers_def)
  show "fst (Unpack sample_readers sample_world ''ustar'' ''pkg'' [''tmp''] sample_disk) = None" by code_simp
qed

end
