(* ===== verification/Manifest_Store.thy ===== *)
theory Manifest_Store
  imports Prelude
begin

text \<open>
  The manifest a Run leaves for the next one (\<open>internal/manifest\<close>): a document kept in memory, put to
  disk by one background writer that joins the records put since its last write, and waited for by
  \<open>Flush\<close>. Each critical section of the store's mutex is one step. \<open>encoding/json\<close> is a parameter, and
  so is the lock file of another process.
\<close>

subsection \<open>Records (manifest.go)\<close>

type_synonym gostring = "char list"

record basis_record =
  br_Kind :: gostring
  br_Key :: gostring
  br_Digest :: gostring

record output_record =
  or_Kind :: gostring
  or_Path :: gostring
  or_Digest :: gostring

record operation_record =
  op_Kind :: gostring
  op_DefinitionFingerprint :: gostring
  op_Basis :: "basis_record list"
  op_Outputs :: "output_record list"

record task_record =
  tr_Key :: gostring
  tr_Operations :: "operation_record list"
  tr_DefinitionFingerprint :: gostring

record application_record =
  ar_ID :: gostring
  ar_Fingerprint :: gostring

record document =
  doc_SchemaVersion :: int
  doc_Application :: application_record
  doc_Tasks :: "gostring \<Rightarrow> task_record option"

definition SchemaVersion :: int where "SchemaVersion = 1"

definition maxDocumentBytes :: nat where "maxDocumentBytes = 64 * 2 ^ 20"

definition newDocument :: "application_record \<Rightarrow> document" where
  "newDocument app = \<lparr>doc_SchemaVersion = SchemaVersion, doc_Application = app, doc_Tasks = Map.empty\<rparr>"

text \<open>\<open>decodeDocument\<close>; \<open>parse\<close> is \<open>json.Unmarshal\<close>. \<open>None\<close> is \<open>ErrCorrupt\<close>.\<close>

definition decodeDocument :: "(gostring \<Rightarrow> document option) \<Rightarrow> gostring \<Rightarrow> document option" where
  "decodeDocument parse raw =
     (if length raw > maxDocumentBytes then None
      else case parse raw of None \<Rightarrow> None
        | Some doc \<Rightarrow> if doc_SchemaVersion doc \<noteq> SchemaVersion then None else Some doc)"

subsection \<open>Writing the file (writeAtomic)\<close>

record disk =
  dk_manifest :: "gostring option"
  dk_temp :: "gostring option"

text \<open>Which call fails; a write that fails has put some of the bytes into the temporary file.\<close>

record write_faults =
  wf_create :: bool
  wf_write :: "nat option"
  wf_sync :: bool
  wf_close :: bool
  wf_chmod :: bool
  wf_rename :: bool
  wf_remove :: bool

definition remove_temp :: "write_faults \<Rightarrow> disk \<Rightarrow> disk" where
  "remove_temp f d = (if wf_remove f then d else d\<lparr>dk_temp := None\<rparr>)"

text \<open>Whether it succeeded, and every disk a crash could leave on the way, the final one last.\<close>

definition writeAtomic :: "write_faults \<Rightarrow> gostring \<Rightarrow> disk \<Rightarrow> bool \<times> disk list" where
  "writeAtomic f raw d =
     (if wf_create f then (False, [d])
      else let created = d\<lparr>dk_temp := Some []\<rparr>
        in case wf_write f of
            Some n \<Rightarrow> (let part = d\<lparr>dk_temp := Some (take n raw)\<rparr> in (False, [d, created, part, remove_temp f part]))
          | None \<Rightarrow>
              (let full = d\<lparr>dk_temp := Some raw\<rparr>
               in if wf_sync f \<or> wf_close f \<or> wf_chmod f \<or> wf_rename f
                  then (False, [d, created, full, remove_temp f full])
                  else (True, [d, created, full, \<lparr>dk_manifest = Some raw, dk_temp = None\<rparr>])))"

text \<open>A crash leaves the old manifest or the new one, whole; the result says which one is there at the end.\<close>

lemma write_is_atomic:
  "d' \<in> set (snd (writeAtomic f raw d)) \<Longrightarrow> dk_manifest d' = dk_manifest d \<or> dk_manifest d' = Some raw"
  "dk_manifest (last (snd (writeAtomic f raw d))) = (if fst (writeAtomic f raw d) then Some raw else dk_manifest d)"
  by (auto simp: writeAtomic_def remove_temp_def Let_def split: if_splits option.splits)

subsection \<open>The store (store.go)\<close>

datatype store_error = ErrEncode | ErrWrite

text \<open>
  The document, \<open>writerState\<close>, and the condition variable \<open>settled\<close>: who sleeps in its \<open>Wait\<close>. A sleeper
  does nothing until a \<open>Broadcast\<close>.
\<close>

record store =
  st_doc :: document
  st_version :: nat
  st_requested :: nat
  st_written :: nat
  st_attempted :: nat
  st_running :: bool
  st_failed :: "store_error option"
  st_settled :: "nat set"

definition newStore :: "document \<Rightarrow> store" where
  "newStore d = \<lparr>st_doc = d, st_version = 0, st_requested = 0, st_written = 0, st_attempted = 0,
     st_running = False, st_failed = None, st_settled = {}\<rparr>"

definition Wait :: "nat \<Rightarrow> store \<Rightarrow> store" where
  "Wait i s = s\<lparr>st_settled := insert i (st_settled s)\<rparr>"

definition Broadcast :: "store \<Rightarrow> store" where
  "Broadcast s = s\<lparr>st_settled := {}\<rparr>"

definition putLocked :: "application_record \<Rightarrow> task_record \<Rightarrow> store \<Rightarrow> store" where
  "putLocked app task s =
     s\<lparr>st_doc := (st_doc s)\<lparr>doc_Application := app, doc_Tasks := (doc_Tasks (st_doc s))(tr_Key task \<mapsto> task)\<rparr>,
       st_version := st_version s + 1\<rparr>"

text \<open>The second component says that the writer is started.\<close>

definition requestWriteLocked :: "store \<Rightarrow> store \<times> bool" where
  "requestWriteLocked s =
     (let s = s\<lparr>st_requested := st_version s\<rparr>
      in if st_running s then (s, False) else (s\<lparr>st_running := True\<rparr>, True))"

text \<open>
  The writer holds the mutex from the end of one write to the beginning of the next. It is unlocked only
  while it writes the bytes of a version, or before its first step.
\<close>

datatype writer_at = WriterIdle | WriterStarted | Writing nat gostring

text \<open>The loop of \<open>writeLoop\<close> up to the next write or its end; \<open>encode\<close> is \<open>json.Marshal\<close>.\<close>

partial_function (option) writer_loop ::
    "(document \<Rightarrow> gostring option) \<Rightarrow> store \<Rightarrow> (store \<times> writer_at) option" where
  "writer_loop encode s =
     (if st_written s < st_requested s \<and> st_attempted s < st_requested s then
        (case encode (st_doc s) of
           Some raw \<Rightarrow> Some (s, Writing (st_version s) raw)
         | None \<Rightarrow> writer_loop encode (Broadcast (s\<lparr>st_attempted := st_version s, st_failed := Some ErrEncode\<rparr>)))
      else Some (Broadcast (s\<lparr>st_running := False\<rparr>), WriterIdle))"

definition write_finished :: "nat \<Rightarrow> bool \<Rightarrow> store \<Rightarrow> store" where
  "write_finished version ok s =
     (let s = s\<lparr>st_attempted := version\<rparr>;
          s = (if ok then s\<lparr>st_written := version, st_failed := None\<rparr> else s\<lparr>st_failed := Some ErrWrite\<rparr>)
      in Broadcast s)"

text \<open>\<open>Flush\<close> up to its wait: an answer at once, or the version to wait for.\<close>

datatype flush = Flushed "store_error option" | FlushCancelled | FlushWaits nat

definition flush_begin :: "bool \<Rightarrow> store \<Rightarrow> flush \<times> store \<times> bool" where
  "flush_begin cancelled s =
     (let target = st_version s
      in if st_written s \<ge> target then (Flushed None, s, False)
         else if cancelled then (FlushCancelled, s, False)
         else let s = (if st_running s then s else s\<lparr>st_attempted := st_written s\<rparr>);
              (s, started) = requestWriteLocked s
           in (FlushWaits target, s, started))"

text \<open>The condition of the wait and what \<open>Flush\<close> returns when it is over; \<open>None\<close> waits (again).\<close>

definition flush_look :: "nat \<Rightarrow> store \<Rightarrow> flush option" where
  "flush_look target s =
     (if st_written s < target \<and> (st_running s \<or> st_attempted s < target) then None
      else if st_written s \<ge> target then Some (Flushed None)
      else Some (Flushed (st_failed s)))"

text \<open>\<open>Task\<close> and \<open>Operation\<close>.\<close>

definition store_Task :: "store \<Rightarrow> gostring \<Rightarrow> task_record option" where
  "store_Task s key = doc_Tasks (st_doc s) key"

definition store_Operation :: "store \<Rightarrow> gostring \<Rightarrow> int \<Rightarrow> operation_record option" where
  "store_Operation s key i =
     (case doc_Tasks (st_doc s) key of None \<Rightarrow> None
      | Some t \<Rightarrow> if i < 0 \<or> i \<ge> int (length (tr_Operations t)) then None else Some (tr_Operations t ! nat i))"

text \<open>
  \<open>Open\<close> under the lock: a missing file is an empty document, one that cannot be trusted is an empty
  document and a warning, one that cannot be read an error. \<open>None\<close> is that error.
\<close>

datatype read_file = FileMissing | FileUnreadable | FileBytes gostring

definition open_document ::
    "(gostring \<Rightarrow> document option) \<Rightarrow> read_file \<Rightarrow> (document \<times> bool) option" where
  "open_document parse r =
     (let fresh = newDocument \<lparr>ar_ID = [], ar_Fingerprint = []\<rparr>
      in case r of
          FileMissing \<Rightarrow> Some (fresh, False)
        | FileUnreadable \<Rightarrow> None
        | FileBytes raw \<Rightarrow> (case decodeDocument parse raw of None \<Rightarrow> Some (fresh, True) | Some d \<Rightarrow> Some (d, False)))"

subsection \<open>Interleavings\<close>

text \<open>
  A store in use: where its writer is, the disk, and what every \<open>Flush\<close> has come to. Ghosts remember the
  document of each version and the version each \<open>Flush\<close> found.
\<close>

record store_run =
  rn_store :: store
  rn_writer :: writer_at
  rn_disk :: disk
  rn_flushes :: "nat \<Rightarrow> flush option"
  rn_asked :: "nat \<Rightarrow> nat"
  rn_history :: "nat \<Rightarrow> document"

definition run_start :: "document \<Rightarrow> disk \<Rightarrow> store_run" where
  "run_start doc d = \<lparr>rn_store = newStore doc, rn_writer = WriterIdle, rn_disk = d, rn_flushes = Map.empty,
     rn_asked = (\<lambda>_. 0), rn_history = (\<lambda>_. doc)\<rparr>"

definition go_writer :: "bool \<Rightarrow> writer_at \<Rightarrow> writer_at" where
  "go_writer started w = (if started then WriterStarted else w)"

definition CommitTask :: "bool \<Rightarrow> application_record \<Rightarrow> task_record \<Rightarrow> store_run \<Rightarrow> store_run" where
  "CommitTask cancelled app task r =
     (if cancelled then r
      else let (s, started) = requestWriteLocked (putLocked app task (rn_store r))
        in r\<lparr>rn_store := s, rn_writer := go_writer started (rn_writer r),
             rn_history := (rn_history r)(st_version s := st_doc s)\<rparr>)"

definition StageTask :: "application_record \<Rightarrow> task_record \<Rightarrow> store_run \<Rightarrow> store_run" where
  "StageTask app task r =
     (let s = putLocked app task (rn_store r)
      in r\<lparr>rn_store := s, rn_history := (rn_history r)(st_version s := st_doc s)\<rparr>)"

text \<open>One turn of the loop in \<open>Flush\<close>, until it returns or sleeps.\<close>

definition flush_turn :: "nat \<Rightarrow> nat \<Rightarrow> store_run \<Rightarrow> store_run" where
  "flush_turn i t r =
     (case flush_look t (rn_store r) of
        None \<Rightarrow> r\<lparr>rn_store := Wait i (rn_store r), rn_flushes := (rn_flushes r)(i \<mapsto> FlushWaits t)\<rparr>
      | Some f \<Rightarrow> r\<lparr>rn_flushes := (rn_flushes r)(i \<mapsto> f)\<rparr>)"

definition Flush :: "nat \<Rightarrow> bool \<Rightarrow> store_run \<Rightarrow> store_run" where
  "Flush i cancelled r =
     (let (f, s, started) = flush_begin cancelled (rn_store r);
          r = r\<lparr>rn_store := s, rn_writer := go_writer started (rn_writer r),
                rn_asked := (rn_asked r)(i := st_version (rn_store r))\<rparr>
      in case f of
          FlushWaits t \<Rightarrow> flush_turn i t r
        | _ \<Rightarrow> r\<lparr>rn_flushes := (rn_flushes r)(i \<mapsto> f)\<rparr>)"

text \<open>The steps of the writer alone, and all steps.\<close>

inductive writer_step :: "(document \<Rightarrow> gostring option) \<Rightarrow> store_run \<Rightarrow> store_run \<Rightarrow> bool"
  for encode where
  began: "rn_writer r = WriterStarted \<Longrightarrow> writer_loop encode (rn_store r) = Some (s, w) \<Longrightarrow>
    writer_step encode r (r\<lparr>rn_store := s, rn_writer := w\<rparr>)"
| wrote: "rn_writer r = Writing v raw \<Longrightarrow> writeAtomic f raw (rn_disk r) = (ok, ds) \<Longrightarrow>
    writer_loop encode (write_finished v ok (rn_store r)) = Some (s, w) \<Longrightarrow>
    writer_step encode r (r\<lparr>rn_store := s, rn_writer := w, rn_disk := last ds\<rparr>)"

inductive store_step :: "(document \<Rightarrow> gostring option) \<Rightarrow> store_run \<Rightarrow> store_run \<Rightarrow> bool"
  for encode where
  commit: "store_step encode r (CommitTask cancelled app task r)"
| stage: "store_step encode r (StageTask app task r)"
| flush: "rn_flushes r i = None \<Longrightarrow> store_step encode r (Flush i cancelled r)"
| woken: "rn_flushes r i = Some (FlushWaits t) \<Longrightarrow> i \<notin> st_settled (rn_store r) \<Longrightarrow>
    store_step encode r (flush_turn i t r)"
| writer: "writer_step encode r r' \<Longrightarrow> store_step encode r r'"

inductive reachable_run :: "(document \<Rightarrow> gostring option) \<Rightarrow> document \<Rightarrow> disk \<Rightarrow> store_run \<Rightarrow> bool"
  for encode doc d where
  init: "reachable_run encode doc d (run_start doc d)"
| step: "reachable_run encode doc d r \<Longrightarrow> store_step encode r r' \<Longrightarrow> reachable_run encode doc d r'"

subsection \<open>What holds at every state\<close>

definition store_ok :: "store \<Rightarrow> bool" where
  "store_ok s \<longleftrightarrow> st_requested s \<le> st_version s \<and> st_written s \<le> st_attempted s \<and> st_attempted s \<le> st_version s \<and>
     (st_written s < st_attempted s \<longrightarrow> st_failed s \<noteq> None)"

definition writer_ok :: "(document \<Rightarrow> gostring option) \<Rightarrow> store_run \<Rightarrow> bool" where
  "writer_ok encode r \<longleftrightarrow>
     (st_running (rn_store r) \<longleftrightarrow> rn_writer r \<noteq> WriterIdle) \<and>
     (\<forall>v raw. rn_writer r = Writing v raw \<longrightarrow>
        st_attempted (rn_store r) < v \<and> v \<le> st_version (rn_store r) \<and> encode (rn_history r v) = Some raw)"

definition disk_ok :: "(document \<Rightarrow> gostring option) \<Rightarrow> store_run \<Rightarrow> bool" where
  "disk_ok encode r \<longleftrightarrow>
     rn_history r (st_version (rn_store r)) = st_doc (rn_store r) \<and>
     (0 < st_written (rn_store r) \<longrightarrow>
        dk_manifest (rn_disk r) \<noteq> None \<and> encode (rn_history r (st_written (rn_store r))) = dk_manifest (rn_disk r))"

definition flushes_ok :: "store_run \<Rightarrow> bool" where
  "flushes_ok r \<longleftrightarrow>
     (\<forall>i. rn_flushes r i = Some (Flushed None) \<longrightarrow> rn_asked r i \<le> st_written (rn_store r)) \<and>
     (\<forall>i t. rn_flushes r i = Some (FlushWaits t) \<longrightarrow> rn_asked r i = t \<and> t \<le> st_requested (rn_store r) \<and>
        (st_running (rn_store r) \<or> t \<le> st_attempted (rn_store r)))"

text \<open>No wakeup is lost: whoever sleeps still has to wait.\<close>

definition sleepers_ok :: "(nat \<Rightarrow> flush option) \<Rightarrow> store \<Rightarrow> bool" where
  "sleepers_ok flushes s \<longleftrightarrow> (\<forall>i\<in>st_settled s. \<exists>t. flushes i = Some (FlushWaits t) \<and> flush_look t s = None)"

definition run_ok :: "(document \<Rightarrow> gostring option) \<Rightarrow> store_run \<Rightarrow> bool" where
  "run_ok encode r \<longleftrightarrow> store_ok (rn_store r) \<and> writer_ok encode r \<and> disk_ok encode r \<and> flushes_ok r \<and>
     sleepers_ok (rn_flushes r) (rn_store r)"

lemmas run_ok_defs = run_ok_def store_ok_def writer_ok_def disk_ok_def flushes_ok_def

text \<open>The loop returns: a document that cannot be encoded counts as one failed try.\<close>

lemma writer_loop_returns:
  assumes "st_requested s \<le> st_version s"
  shows "writer_loop encode s =
    (if st_written s < st_requested s \<and> st_attempted s < st_requested s then
       (case encode (st_doc s) of
          Some raw \<Rightarrow> Some (s, Writing (st_version s) raw)
        | None \<Rightarrow> Some (s\<lparr>st_attempted := st_version s, st_failed := Some ErrEncode, st_running := False, st_settled := {}\<rparr>, WriterIdle))
     else Some (s\<lparr>st_running := False, st_settled := {}\<rparr>, WriterIdle))"
  using assms
  by (subst writer_loop.simps)
    (auto simp: writer_loop.simps [of encode "s\<lparr>st_attempted := _, st_failed := _, st_settled := {}\<rparr>"] Broadcast_def split: option.split)

lemma loop_keeps:
  assumes "writer_loop encode s = Some (s', w)" "store_ok s" "encode (st_doc s) = encode (rn_history r (st_version s))"
    and "st_running s"
  shows "store_ok s' \<and> st_version s' = st_version s \<and> st_doc s' = st_doc s \<and> st_written s' = st_written s \<and>
    st_requested s' = st_requested s \<and> st_attempted s \<le> st_attempted s' \<and> (st_running s' \<longleftrightarrow> w \<noteq> WriterIdle) \<and>
    (w = WriterIdle \<longrightarrow> st_requested s \<le> st_attempted s') \<and> w \<noteq> WriterStarted \<and> (s' = s \<or> st_settled s' = {}) \<and>
    (\<forall>v raw. w = Writing v raw \<longrightarrow> st_attempted s' < v \<and> v = st_version s \<and> encode (rn_history r v) = Some raw)"
  using assms
  by (auto simp: writer_loop_returns store_ok_def split: if_splits option.splits)

lemma run_start_ok: "run_ok encode (run_start doc d)"
  by (simp add: run_ok_defs sleepers_ok_def run_start_def newStore_def)

text \<open>A put or a request ends nobody's wait, and a Flush that sleeps has to.\<close>

lemma sleepers_kept:
  assumes "sleepers_ok fl s" "store_ok s" "st_written s' = st_written s" "st_settled s' = st_settled s"
    "st_running s \<longrightarrow> st_running s'" "st_attempted s' = st_attempted s \<or> st_attempted s' = st_written s"
    "\<forall>i\<in>st_settled s. fl' i = fl i"
  shows "sleepers_ok fl' s'"
  using assms by (fastforce simp: sleepers_ok_def flush_look_def store_ok_def split: if_splits)

lemma turn_sleepers:
  assumes "sleepers_ok (rn_flushes r) (rn_store r)" "i \<notin> st_settled (rn_store r)"
  shows "sleepers_ok (rn_flushes (flush_turn i t r)) (rn_store (flush_turn i t r))"
  using assms by (auto simp: sleepers_ok_def flush_turn_def Wait_def flush_look_def split: option.split if_splits)

lemma commit_run_ok:
  assumes "run_ok encode r"
  shows "run_ok encode (CommitTask cancelled app task r)"
proof -
  let ?r = "CommitTask cancelled app task r"
  have "sleepers_ok (rn_flushes ?r) (rn_store ?r)"
    using assms sleepers_kept [of "rn_flushes r" "rn_store r" "rn_store ?r" "rn_flushes ?r"]
    by (auto simp: run_ok_def CommitTask_def requestWriteLocked_def putLocked_def Let_def)
  moreover have "store_ok (rn_store ?r) \<and> writer_ok encode ?r \<and> disk_ok encode ?r \<and> flushes_ok ?r"
    using assms
    by (auto simp: run_ok_defs CommitTask_def requestWriteLocked_def putLocked_def go_writer_def Let_def less_Suc_eq_le
        split: if_splits intro: le_SucI order.trans [of _ "st_requested (rn_store r)"])
  ultimately show ?thesis by (simp add: run_ok_def)
qed

lemma stage_run_ok:
  assumes "run_ok encode r"
  shows "run_ok encode (StageTask app task r)"
proof -
  let ?r = "StageTask app task r"
  have "sleepers_ok (rn_flushes ?r) (rn_store ?r)"
    using assms sleepers_kept [of "rn_flushes r" "rn_store r" "rn_store ?r" "rn_flushes ?r"]
    by (auto simp: run_ok_def StageTask_def putLocked_def Let_def)
  moreover have "store_ok (rn_store ?r) \<and> writer_ok encode ?r \<and> disk_ok encode ?r \<and> flushes_ok ?r"
    using assms by (auto simp: run_ok_defs StageTask_def putLocked_def Let_def intro: le_SucI)
  ultimately show ?thesis by (simp add: run_ok_def)
qed

text \<open>A turn keeps everything but whether it goes on waiting.\<close>

lemma turn_run_ok:
  assumes "store_ok (rn_store r)" "writer_ok encode r" "disk_ok encode r" "flushes_ok (r\<lparr>rn_flushes := (rn_flushes r)(i \<mapsto> FlushWaits t)\<rparr>)"
    "sleepers_ok (rn_flushes r) (rn_store r)" "i \<notin> st_settled (rn_store r)"
  shows "run_ok encode (flush_turn i t r)"
proof -
  have "store_ok (rn_store (flush_turn i t r)) \<and> writer_ok encode (flush_turn i t r) \<and> disk_ok encode (flush_turn i t r)"
    using assms(1-3) by (simp add: store_ok_def writer_ok_def disk_ok_def flush_turn_def Wait_def split: option.split)
  moreover have "flushes_ok (flush_turn i t r)"
    using assms(1,4) by (auto simp: store_ok_def flushes_ok_def flush_turn_def Wait_def flush_look_def split: option.split if_splits)
  ultimately show ?thesis using turn_sleepers [OF assms(5,6)] by (simp add: run_ok_def)
qed

lemma flush_run_ok:
  assumes "run_ok encode r" "rn_flushes r i = None"
  shows "run_ok encode (Flush i cancelled r)"
proof -
  obtain f s started where b: "flush_begin cancelled (rn_store r) = (f, s, started)" by (metis prod_cases3)
  define r1 where "r1 = r\<lparr>rn_store := s, rn_writer := go_writer started (rn_writer r),
    rn_asked := (rn_asked r)(i := st_version (rn_store r))\<rparr>"
  have asleep: "i \<notin> st_settled (rn_store r)" using assms by (auto simp: run_ok_def sleepers_ok_def)
  have parts: "store_ok s" "writer_ok encode r1" "disk_ok encode r1" "st_settled s = st_settled (rn_store r)"
    using assms b by (auto simp: run_ok_defs flush_begin_def requestWriteLocked_def go_writer_def Let_def r1_def split: if_splits)
  have sleepers: "sleepers_ok (rn_flushes r) s"
    using assms b sleepers_kept [of "rn_flushes r" "rn_store r" s "rn_flushes r"]
    by (auto simp: run_ok_def flush_begin_def requestWriteLocked_def Let_def split: if_splits)
  have flushes: "flushes_ok (r1\<lparr>rn_flushes := (rn_flushes r)(i \<mapsto> f)\<rparr>)"
    using assms b by (auto simp: run_ok_defs flush_begin_def requestWriteLocked_def Let_def r1_def
        split: if_splits intro: order.trans [of _ "st_requested (rn_store r)"])
  have answered: "run_ok encode (r1\<lparr>rn_flushes := (rn_flushes r)(i \<mapsto> f)\<rparr>)"
    using parts flushes sleepers asleep
    by (auto simp: run_ok_def writer_ok_def disk_ok_def sleepers_ok_def r1_def)
  have F: "Flush i cancelled r = (case f of FlushWaits t \<Rightarrow> flush_turn i t r1 | _ \<Rightarrow> r1\<lparr>rn_flushes := (rn_flushes r)(i \<mapsto> f)\<rparr>)"
    by (simp add: Flush_def b r1_def split: flush.split)
  show ?thesis
  proof (cases f)
    case (FlushWaits t)
    have "run_ok encode (flush_turn i t r1)"
      using parts flushes sleepers asleep FlushWaits by (intro turn_run_ok) (simp_all add: r1_def)
    then show ?thesis by (simp add: F FlushWaits)
  qed (use F answered in simp_all)
qed

lemma woken_run_ok:
  assumes "run_ok encode r" "rn_flushes r i = Some (FlushWaits t)" "i \<notin> st_settled (rn_store r)"
  shows "run_ok encode (flush_turn i t r)"
proof -
  have "r\<lparr>rn_flushes := (rn_flushes r)(i \<mapsto> FlushWaits t)\<rparr> = r" using assms(2) by (simp add: fun_upd_idem)
  then show ?thesis using assms by (intro turn_run_ok) (simp_all add: run_ok_def)
qed

text \<open>Every end of the loop keeps what waits for it.\<close>

lemma loop_ok:
  assumes "writer_loop encode s = Some (s', w)" "store_ok s" "st_running s"
    and "rn_history r (st_version s) = st_doc s"
    and "0 < st_written s \<longrightarrow> dk_manifest d \<noteq> None \<and> encode (rn_history r (st_written s)) = dk_manifest d"
    and "\<forall>i. rn_flushes r i = Some (Flushed None) \<longrightarrow> rn_asked r i \<le> st_written s"
    and "\<forall>i t. rn_flushes r i = Some (FlushWaits t) \<longrightarrow> rn_asked r i = t \<and> t \<le> st_requested s"
    and "sleepers_ok (rn_flushes r) s"
  shows "run_ok encode (r\<lparr>rn_store := s', rn_writer := w, rn_disk := d\<rparr>)"
proof -
  note l = loop_keeps [OF assms(1,2) _ assms(3), of r]
  have "encode (st_doc s) = encode (rn_history r (st_version s))" using assms(4) by simp
  note l = l [OF this]
  have "st_running s' \<or> t \<le> st_attempted s'" if "rn_flushes r i = Some (FlushWaits t)" for i t
    using l assms(7) that by (auto intro: order.trans [of _ "st_requested s"])
  moreover have "sleepers_ok (rn_flushes r) s'" using l assms(8) by (auto simp: sleepers_ok_def)
  ultimately show ?thesis using l assms(4-7) by (auto simp: run_ok_def writer_ok_def disk_ok_def flushes_ok_def store_ok_def)
qed

lemma writer_step_ok: "writer_step encode r r' \<Longrightarrow> run_ok encode r \<Longrightarrow> run_ok encode r'"
proof (induction rule: writer_step.induct)
  case (began r s w)
  have "run_ok encode (r\<lparr>rn_store := s, rn_writer := w, rn_disk := rn_disk r\<rparr>)"
    by (rule loop_ok [OF began(2)]) (use began(1,3) in \<open>auto simp: run_ok_defs\<close>)
  then show ?case by simp
next
  case (wrote r v raw f ok ds s w)
  let ?s = "write_finished v ok (rn_store r)"
  have m: "dk_manifest (last ds) = (if ok then Some raw else dk_manifest (rn_disk r))"
    using write_is_atomic(2) [of f raw "rn_disk r"] wrote(2) by simp
  have v: "st_attempted (rn_store r) < v" "v \<le> st_version (rn_store r)" "encode (rn_history r v) = Some raw"
    and o: "run_ok encode r"
    using wrote(1,4) by (auto simp: run_ok_def writer_ok_def)
  have f: "st_version ?s = st_version (rn_store r)" "st_doc ?s = st_doc (rn_store r)" "st_running ?s = st_running (rn_store r)"
    "st_requested ?s = st_requested (rn_store r)" "st_attempted ?s = v"
    "st_written ?s = (if ok then v else st_written (rn_store r))" "st_failed ?s = (if ok then None else Some ErrWrite)"
    "st_settled ?s = {}"
    by (auto simp: write_finished_def Broadcast_def Let_def)
  have "st_written (rn_store r) < v" using v(1) o by (auto simp: run_ok_def store_ok_def)
  then show ?case
    by (intro loop_ok [OF wrote(3)]) (use v o wrote(1) in \<open>auto simp: run_ok_defs sleepers_ok_def f m\<close>)
qed

lemma reachable_run_ok: "reachable_run encode doc d r \<Longrightarrow> run_ok encode r"
proof (induction rule: reachable_run.induct)
  case (step r r')
  from step(2,3) show ?case
    by (cases rule: store_step.cases) (auto intro: commit_run_ok stage_run_ok flush_run_ok woken_run_ok writer_step_ok)
qed (rule run_start_ok)

text \<open>The schema never changes, and no record once put is missing from a later version.\<close>

definition history_ok :: "document \<Rightarrow> store_run \<Rightarrow> bool" where
  "history_ok doc r \<longleftrightarrow>
     (\<forall>v. doc_SchemaVersion (rn_history r v) = doc_SchemaVersion doc) \<and>
     doc_SchemaVersion (st_doc (rn_store r)) = doc_SchemaVersion doc \<and>
     (\<forall>u v. u \<le> v \<longrightarrow> v \<le> st_version (rn_store r) \<longrightarrow> dom (doc_Tasks (rn_history r u)) \<subseteq> dom (doc_Tasks (rn_history r v)))"

lemma put_history_ok:
  assumes h: "history_ok doc r" and o: "run_ok encode r"
    and s: "st_version s = Suc (st_version (rn_store r))"
      "st_doc s = (st_doc (rn_store r))\<lparr>doc_Application := app, doc_Tasks := (doc_Tasks (st_doc (rn_store r)))(k \<mapsto> t)\<rparr>"
  shows "history_ok doc (r\<lparr>rn_store := s, rn_writer := w, rn_history := (rn_history r)(st_version s := st_doc s)\<rparr>)"
proof -
  let ?n = "Suc (st_version (rn_store r))"
  have top: "rn_history r (st_version (rn_store r)) = st_doc (rn_store r)" using o by (simp add: run_ok_def disk_ok_def)
  have grows: "dom (doc_Tasks (rn_history r u)) \<subseteq> dom (doc_Tasks (rn_history r v))" if "u \<le> v" "v < ?n" for u v
    using h that by (simp add: history_ok_def)
  have "dom (doc_Tasks (rn_history r u)) \<subseteq> dom (doc_Tasks (st_doc s))" if "u < ?n" for u
    using grows [of u "st_version (rn_store r)"] that by (auto simp: top s(2))
  then show ?thesis using h grows by (auto simp: history_ok_def s le_Suc_eq)
qed

lemma writer_loop_doc: "writer_loop encode s = Some (s', w) \<Longrightarrow> store_ok s \<Longrightarrow> st_doc s' = st_doc s \<and> st_version s' = st_version s"
  by (auto simp: writer_loop_returns store_ok_def split: if_splits option.splits)

lemma writer_step_frame:
  assumes "writer_step encode r r'" "run_ok encode r"
  shows "rn_history r' = rn_history r \<and> rn_flushes r' = rn_flushes r \<and> rn_asked r' = rn_asked r \<and>
    st_doc (rn_store r') = st_doc (rn_store r) \<and> st_version (rn_store r') = st_version (rn_store r)"
  using assms(1)
proof cases
  case (began s w)
  then show ?thesis using writer_loop_doc assms(2) by (auto simp: run_ok_def)
next
  case (wrote v raw f ok ds s w)
  have "st_requested (rn_store r) \<le> st_version (rn_store r)" using assms(2) by (simp add: run_ok_def store_ok_def)
  then show ?thesis using wrote
    by (auto simp: writer_loop_returns write_finished_def Broadcast_def Let_def split: if_splits option.splits)
qed

lemma reachable_history: "reachable_run encode doc d r \<Longrightarrow> history_ok doc r"
proof (induction rule: reachable_run.induct)
  case init
  then show ?case by (simp add: history_ok_def run_start_def newStore_def)
next
  case (step r r')
  note o = reachable_run_ok [OF step(1)]
  note put = put_history_ok [OF step(3) o]
  from step(2) show ?case
  proof cases
    case (commit cancelled app task)
    show ?thesis
    proof (cases cancelled)
      case False
      obtain s b where s: "requestWriteLocked (putLocked app task (rn_store r)) = (s, b)" by fastforce
      then have f: "st_version s = Suc (st_version (rn_store r))"
        "st_doc s = (st_doc (rn_store r))\<lparr>doc_Application := app, doc_Tasks := (doc_Tasks (st_doc (rn_store r)))(tr_Key task \<mapsto> task)\<rparr>"
        by (auto simp: requestWriteLocked_def putLocked_def Let_def split: if_splits)
      show ?thesis using put [OF f, of "go_writer b (rn_writer r)"] False by (simp add: commit CommitTask_def s)
    qed (use commit step(3) in \<open>simp add: CommitTask_def\<close>)
  next
    case (stage app task)
    then show ?thesis using put [where s = "putLocked app task (rn_store r)" and app = app and k = "tr_Key task" and t = task and w = "rn_writer r"]
      by (simp add: StageTask_def Let_def putLocked_def)
  next
    case (flush i cancelled)
    then show ?thesis using step(3)
      by (auto simp: history_ok_def Flush_def flush_begin_def requestWriteLocked_def flush_turn_def Wait_def Let_def
          split: if_splits option.split)
  next
    case (woken i t)
    then show ?thesis using step(3) by (simp add: history_ok_def flush_turn_def Wait_def split: option.split)
  next
    case writer
    then show ?thesis using writer_step_frame [OF writer o] step(3) by (simp add: history_ok_def)
  qed
qed

text \<open>
  (C23) What a \<open>Flush\<close> has answered for survives: once a \<open>Flush\<close> that found something put returned without an
  error, under any interleaving and any failures since, the file on disk is the whole encoding of one
  version of the document, no older than the one the \<open>Flush\<close> found, with a record for every key put by
  then. The next \<open>Open\<close> reads that version without a warning when its encoding is within the size limit
  and \<open>json.Unmarshal\<close> gives it back (strings that are valid UTF-8); over the limit, which no write
  checks, \<open>Open\<close> starts from an empty document with a warning.
\<close>

theorem flushed_records_survive:
  assumes "open_document parse file = Some (doc, warned)" "reachable_run encode doc d r"
    "rn_flushes r i = Some (Flushed None)" "0 < rn_asked r i"
  shows "\<exists>v raw. rn_asked r i \<le> v \<and> v \<le> st_version (rn_store r) \<and>
    dk_manifest (rn_disk r) = Some raw \<and> encode (rn_history r v) = Some raw \<and>
    dom (doc_Tasks (rn_history r (rn_asked r i))) \<subseteq> dom (doc_Tasks (rn_history r v)) \<and>
    (length raw \<le> maxDocumentBytes \<and> parse raw = Some (rn_history r v) \<longrightarrow>
       open_document parse (FileBytes raw) = Some (rn_history r v, False)) \<and>
    (length raw > maxDocumentBytes \<longrightarrow>
       open_document parse (FileBytes raw) = Some (newDocument \<lparr>ar_ID = [], ar_Fingerprint = []\<rparr>, True))"
proof -
  note o = reachable_run_ok [OF assms(2)] and h = reachable_history [OF assms(2)]
  let ?v = "st_written (rn_store r)"
  have schema: "doc_SchemaVersion doc = SchemaVersion"
    using assms(1) by (auto simp: open_document_def decodeDocument_def newDocument_def Let_def
        split: read_file.splits option.splits if_splits)
  have v: "rn_asked r i \<le> ?v" using o assms(3) by (auto simp: run_ok_def flushes_ok_def)
  have le: "?v \<le> st_version (rn_store r)" using o by (auto simp: run_ok_def store_ok_def)
  obtain raw where raw: "dk_manifest (rn_disk r) = Some raw" "encode (rn_history r ?v) = Some raw"
    using o v assms(4) by (auto simp: run_ok_def disk_ok_def)
  have "doc_SchemaVersion (rn_history r ?v) = SchemaVersion" using h schema by (simp add: history_ok_def)
  then have "parse raw = Some (rn_history r ?v) \<Longrightarrow> length raw \<le> maxDocumentBytes \<Longrightarrow>
      open_document parse (FileBytes raw) = Some (rn_history r ?v, False)"
    by (simp add: open_document_def decodeDocument_def)
  moreover have "length raw > maxDocumentBytes \<Longrightarrow>
      open_document parse (FileBytes raw) = Some (newDocument \<lparr>ar_ID = [], ar_Fingerprint = []\<rparr>, True)"
    by (simp add: open_document_def decodeDocument_def)
  moreover have "dom (doc_Tasks (rn_history r (rn_asked r i))) \<subseteq> dom (doc_Tasks (rn_history r ?v))"
    using h v le by (simp add: history_ok_def)
  ultimately show ?thesis using v le raw by blast
qed

subsection \<open>A flush is answered\<close>

text \<open>At most how many steps the writer takes if nothing more is put.\<close>

definition writer_rank :: "store_run \<Rightarrow> nat" where
  "writer_rank r = (case rn_writer r of WriterIdle \<Rightarrow> 0
     | Writing v _ \<Rightarrow> if v < st_version (rn_store r) then 2 else 1 | WriterStarted \<Rightarrow> 3)"

lemma writer_can_step:
  assumes "run_ok encode r" "rn_writer r \<noteq> WriterIdle"
  shows "\<exists>r'. writer_step encode r r'"
proof (cases "rn_writer r")
  case WriterStarted
  have "writer_loop encode (rn_store r) \<noteq> None"
    using assms(1) by (simp add: writer_loop_returns run_ok_def store_ok_def split: option.split)
  then show ?thesis using writer_step.began [OF WriterStarted] by fastforce
next
  case (Writing v raw)
  define f where "f = \<lparr>wf_create = True, wf_write = None, wf_sync = False, wf_close = False, wf_chmod = False,
    wf_rename = False, wf_remove = False\<rparr>"
  have "writeAtomic f raw (rn_disk r) = (False, [rn_disk r])" by (simp add: writeAtomic_def f_def)
  moreover have "writer_loop encode (write_finished v False (rn_store r)) \<noteq> None"
    using assms(1) by (simp add: writer_loop_returns run_ok_def store_ok_def write_finished_def Broadcast_def Let_def
        split: option.split)
  ultimately show ?thesis using writer_step.wrote [OF Writing] by fastforce
qed (use assms(2) in simp)

lemma writer_rank_decreases:
  assumes "writer_step encode r r'" "run_ok encode r"
  shows "writer_rank r' < writer_rank r"
  using assms(1)
proof cases
  case (began s w)
  then show ?thesis
    using assms(2) by (auto simp: writer_rank_def writer_loop_returns run_ok_def store_ok_def split: if_splits option.splits)
next
  case (wrote v raw f ok ds s w)
  then show ?thesis
    using assms(2) by (auto simp: writer_rank_def writer_loop_returns run_ok_def store_ok_def writer_ok_def write_finished_def Broadcast_def
        Let_def split: if_splits option.splits)
qed

lemma writer_rank_same:
  assumes "rn_writer r' = rn_writer r" "st_version (rn_store r') = st_version (rn_store r)"
  shows "writer_rank r' \<le> writer_rank r"
  unfolding writer_rank_def assms by (rule order.refl)

text \<open>A step that puts nothing leaves a running writer no more to do.\<close>

lemma writer_rank_kept:
  assumes "store_step encode r r'" "run_ok encode r" "rn_writer r \<noteq> WriterIdle"
    "st_version (rn_store r') = st_version (rn_store r)"
  shows "writer_rank r' \<le> writer_rank r"
  using assms(1)
proof cases
  case (commit cancelled app task)
  then show ?thesis using assms(4) by (auto simp: CommitTask_def requestWriteLocked_def putLocked_def Let_def split: if_splits)
next
  case (stage app task)
  then show ?thesis using assms(4) by (simp add: StageTask_def putLocked_def Let_def)
next
  case (flush i cancelled)
  have "st_running (rn_store r)" using assms(2,3) by (simp add: run_ok_def writer_ok_def)
  then have "rn_writer r' = rn_writer r"
    by (auto simp: flush Flush_def flush_begin_def requestWriteLocked_def go_writer_def flush_turn_def Let_def split: option.split)
  then show ?thesis using writer_rank_same assms(4) by blast
next
  case (woken i t)
  then have "rn_writer r' = rn_writer r" by (simp add: flush_turn_def split: option.split)
  then show ?thesis using writer_rank_same assms(4) by blast
next
  case writer
  then show ?thesis using writer_rank_decreases [OF writer assms(2)] by simp
qed

text \<open>Whoever waits is awake after every write, for the writer broadcasts.\<close>

lemma write_wakes:
  assumes "writer_step encode r r'" "run_ok encode r" "rn_writer r = Writing v raw"
  shows "st_settled (rn_store r') = {}"
  using assms(1)
proof cases
  case (wrote v' raw' f ok ds s w)
  have "st_requested (write_finished v' ok (rn_store r)) \<le> st_version (write_finished v' ok (rn_store r))"
    "st_settled (write_finished v' ok (rn_store r)) = {}"
    using assms(2) by (auto simp: run_ok_def store_ok_def write_finished_def Broadcast_def Let_def)
  then show ?thesis
    using wrote(4) by (auto simp: wrote(1) writer_loop_returns split: if_splits option.splits)
qed (use assms(3) in simp)

text \<open>
  (C24) No \<open>Flush\<close> is lost. While one waits for a version: if it sleeps in \<open>settled.Wait()\<close>, its wait is not
  over and the writer is at work, which broadcasts after every write. The writer can go on, and ends within
  three of its steps unless more is put: each brings its end nearer, and no other step that puts nothing
  sets it back. Once the writer is idle, the \<open>Flush\<close> is awake, its wait is over, and it returns nil exactly
  when the version it waited for is on disk, and the last error otherwise.
\<close>

theorem waiting_flush_is_answered:
  assumes "reachable_run encode doc d r" "rn_flushes r i = Some (FlushWaits t)"
  shows "if rn_writer r = WriterIdle
    then i \<notin> st_settled (rn_store r) \<and>
      (\<exists>e. flush_look t (rn_store r) = Some (Flushed e) \<and> (e = None \<longleftrightarrow> t \<le> st_written (rn_store r)))
    else (i \<in> st_settled (rn_store r) \<longrightarrow> flush_look t (rn_store r) = None) \<and>
      (\<exists>r'. writer_step encode r r') \<and> writer_rank r \<le> 3 \<and>
      (\<forall>r'. writer_step encode r r' \<longrightarrow> writer_rank r' < writer_rank r \<and> rn_flushes r' i = Some (FlushWaits t) \<and>
         (rn_writer r \<noteq> WriterStarted \<longrightarrow> i \<notin> st_settled (rn_store r'))) \<and>
      (\<forall>r'. store_step encode r r' \<and> st_version (rn_store r') = st_version (rn_store r) \<longrightarrow> writer_rank r' \<le> writer_rank r)"
proof (cases "rn_writer r = WriterIdle")
  case True
  note o = reachable_run_ok [OF assms(1)]
  have idle: "\<not> st_running (rn_store r)" using o True by (simp add: run_ok_def writer_ok_def)
  then have le: "t \<le> st_attempted (rn_store r)" using o assms(2) by (auto simp: run_ok_def flushes_ok_def)
  have "st_failed (rn_store r) \<noteq> None" if "st_written (rn_store r) < t"
    using o le that by (auto simp: run_ok_def store_ok_def)
  then have "\<exists>e. flush_look t (rn_store r) = Some (Flushed e) \<and> (e = None \<longleftrightarrow> t \<le> st_written (rn_store r))"
    using idle le by (auto simp: flush_look_def not_less)
  moreover have "i \<notin> st_settled (rn_store r)" using o assms(2) calculation by (auto simp: run_ok_def sleepers_ok_def)
  ultimately show ?thesis using True by simp
next
  case False
  note o = reachable_run_ok [OF assms(1)]
  have "flush_look t (rn_store r) = None" if "i \<in> st_settled (rn_store r)"
    using that o assms(2) by (auto simp: run_ok_def sleepers_ok_def)
  moreover have "writer_rank r \<le> 3" by (simp add: writer_rank_def split: writer_at.split)
  moreover have "i \<notin> st_settled (rn_store r')" if "writer_step encode r r'" "rn_writer r \<noteq> WriterStarted" for r'
    using write_wakes [OF that(1) o] that(2) False by (cases "rn_writer r") auto
  ultimately show ?thesis
    using False writer_can_step [OF o] writer_rank_decreases [OF _ o] writer_step_frame [OF _ o] writer_rank_kept [OF _ o]
      assms(2) by auto
qed

subsection \<open>A run\<close>

text \<open>One record is committed, flushed, written and waited for.\<close>

definition sample_task :: task_record where
  "sample_task = \<lparr>tr_Key = ''build'', tr_Operations = [], tr_DefinitionFingerprint = ''f''\<rparr>"

definition sample_app :: application_record where
  "sample_app = \<lparr>ar_ID = ''app'', ar_Fingerprint = ''f''\<rparr>"

definition sample_manifest :: document where
  "sample_manifest = st_doc (putLocked sample_app sample_task (newStore (newDocument \<lparr>ar_ID = [], ar_Fingerprint = []\<rparr>)))"

definition sample_encode :: "document \<Rightarrow> gostring option" where
  "sample_encode x = (if x = sample_manifest then Some ''{}'' else None)"

definition sample_parse :: "gostring \<Rightarrow> document option" where
  "sample_parse raw = (if raw = ''{}'' then Some sample_manifest else None)"

definition sample_waiting :: store_run where
  "sample_waiting =
     (let r = Flush 0 False (CommitTask False sample_app sample_task
         (run_start (newDocument \<lparr>ar_ID = [], ar_Fingerprint = []\<rparr>) \<lparr>dk_manifest = None, dk_temp = None\<rparr>))
      in r\<lparr>rn_writer := Writing 1 ''{}''\<rparr>)"

definition sample_flushed :: store_run where
  "sample_flushed = sample_waiting
     \<lparr>rn_store := (write_finished 1 True (rn_store sample_waiting))\<lparr>st_running := False\<rparr>, rn_writer := WriterIdle,
      rn_disk := \<lparr>dk_manifest = Some ''{}'', dk_temp = None\<rparr>, rn_flushes := (rn_flushes sample_waiting)(0 \<mapsto> Flushed None)\<rparr>"

lemmas sample_defs = sample_waiting_def sample_flushed_def Flush_def flush_begin_def CommitTask_def
  requestWriteLocked_def run_start_def newStore_def go_writer_def putLocked_def flush_turn_def flush_look_def
  Wait_def Let_def

lemma sample_waiting_reachable:
  "reachable_run sample_encode (newDocument \<lparr>ar_ID = [], ar_Fingerprint = []\<rparr>) \<lparr>dk_manifest = None, dk_temp = None\<rparr> sample_waiting"
proof -
  let ?s0 = "run_start (newDocument \<lparr>ar_ID = [], ar_Fingerprint = []\<rparr>) \<lparr>dk_manifest = None, dk_temp = None\<rparr>"
  let ?s2 = "Flush 0 False (CommitTask False sample_app sample_task ?s0)"
  have "reachable_run sample_encode (newDocument \<lparr>ar_ID = [], ar_Fingerprint = []\<rparr>) \<lparr>dk_manifest = None, dk_temp = None\<rparr> ?s2"
    by (rule reachable_run.step [OF reachable_run.step [OF reachable_run.init store_step.commit] store_step.flush])
      (simp add: sample_defs)
  moreover have "writer_step sample_encode ?s2 (?s2\<lparr>rn_store := rn_store ?s2, rn_writer := Writing 1 ''{}''\<rparr>)"
    by (rule writer_step.began) (simp_all add: sample_defs writer_loop_returns sample_encode_def sample_manifest_def)
  ultimately show ?thesis
    using reachable_run.step [OF _ store_step.writer] by (fastforce simp: sample_waiting_def Let_def)
qed

lemma sample_flushed_reachable:
  "reachable_run sample_encode (newDocument \<lparr>ar_ID = [], ar_Fingerprint = []\<rparr>) \<lparr>dk_manifest = None, dk_temp = None\<rparr> sample_flushed"
proof -
  let ?f = "\<lparr>wf_create = False, wf_write = None, wf_sync = False, wf_close = False, wf_chmod = False,
    wf_rename = False, wf_remove = False\<rparr>"
  let ?s = "sample_flushed\<lparr>rn_flushes := rn_flushes sample_waiting\<rparr>"
  have "writer_step sample_encode sample_waiting (sample_waiting\<lparr>rn_store := rn_store ?s, rn_writer := WriterIdle,
      rn_disk := last (snd (writeAtomic ?f ''{}'' (rn_disk sample_waiting)))\<rparr>)"
    by (rule writer_step.wrote [where v = 1 and raw = "''{}''" and f = ?f and ok = True])
      (simp_all add: sample_defs writer_loop_returns write_finished_def Broadcast_def writeAtomic_def)
  then have "reachable_run sample_encode (newDocument \<lparr>ar_ID = [], ar_Fingerprint = []\<rparr>) \<lparr>dk_manifest = None, dk_temp = None\<rparr> ?s"
    using reachable_run.step [OF sample_waiting_reachable store_step.writer]
    by (simp add: sample_flushed_def writeAtomic_def Let_def)
  then have "reachable_run sample_encode (newDocument \<lparr>ar_ID = [], ar_Fingerprint = []\<rparr>) \<lparr>dk_manifest = None, dk_temp = None\<rparr>
      (?s\<lparr>rn_flushes := (rn_flushes ?s)(0 \<mapsto> Flushed None)\<rparr>)"
    using reachable_run.step [OF _ store_step.woken [of ?s 0 1]]
    by (simp add: sample_defs write_finished_def Broadcast_def)
  then show ?thesis by (simp add: sample_flushed_def)
qed

lemma flushed_records_survive_witness:
  "dk_manifest (rn_disk sample_flushed) = Some ''{}'' \<and>
    open_document sample_parse (FileBytes ''{}'') = Some (rn_history sample_flushed 1, False) \<and>
    ''build'' \<in> dom (doc_Tasks (rn_history sample_flushed 1))"
proof -
  have opened: "open_document sample_parse FileMissing = Some (newDocument \<lparr>ar_ID = [], ar_Fingerprint = []\<rparr>, False)"
    by (simp add: open_document_def)
  have asked: "rn_flushes sample_flushed 0 = Some (Flushed None)" "0 < rn_asked sample_flushed 0"
    "st_version (rn_store sample_flushed) = 1" "rn_asked sample_flushed 0 = 1" "dk_manifest (rn_disk sample_flushed) = Some ''{}''"
    "rn_history sample_flushed 1 = sample_manifest"
    by (simp_all add: sample_defs write_finished_def Broadcast_def sample_manifest_def)
  have "length ''{}'' \<le> maxDocumentBytes" by (simp add: maxDocumentBytes_def)
  moreover have "sample_parse ''{}'' = Some sample_manifest" by (simp add: sample_parse_def)
  moreover have "''build'' \<in> dom (doc_Tasks sample_manifest)"
    by (simp add: sample_manifest_def putLocked_def sample_task_def)
  ultimately show ?thesis
    using flushed_records_survive [OF opened sample_flushed_reachable asked(1,2)] asked(3-6) by (auto simp: le_antisym)
qed

lemma waiting_flush_is_answered_witness:
  "0 \<in> st_settled (rn_store sample_waiting) \<and> flush_look 1 (rn_store sample_waiting) = None \<and>
    (\<exists>r'. writer_step sample_encode sample_waiting r' \<and> writer_rank r' < writer_rank sample_waiting \<and>
      rn_flushes r' 0 = Some (FlushWaits 1) \<and> 0 \<notin> st_settled (rn_store r'))"
proof -
  have w: "rn_flushes sample_waiting 0 = Some (FlushWaits 1)" "rn_writer sample_waiting \<noteq> WriterIdle"
    "rn_writer sample_waiting \<noteq> WriterStarted" "0 \<in> st_settled (rn_store sample_waiting)"
    by (simp_all add: sample_defs)
  note t = waiting_flush_is_answered [OF sample_waiting_reachable w(1), unfolded if_not_P [OF w(2)]]
  then show ?thesis using w(3,4) by blast
qed

end
