(* ===== verification/Spec2Isabelle.thy ===== *)
theory Spec2Isabelle
  imports Core_Conclusion Core_Tally Text_Words Patch_Apply Resource_Registry Publish_Recover Publish_Lock Engine_Eligibility Engine_Position_Set Engine_Cycle Engine_Finish Find_Walk Find_Coalesce Render_Effects Fingerprint_Value Extract Manifest_Store
begin

text \<open>
  Evident Output is a Go library that runs the steps of a command-line program as Tasks, shows them in
  a terminal, and ends with one conclusion and exit code. This development models its own core logic:
  the conclusion algebra, the scheduler, the verdicts of containers, the exclusion of Tasks that share
  resources, the crash-safe publication of staged content, patches, the search for files, and the text
  every row prints.

  \<^bold>\<open>Parts and how they interact.\<close> A caller declares Tasks and containers (Groups and Sequences), wires
  them with \<open>After\<close>, and submits work. \<open>internal/engine\<close> decides when each Task starts, settles it,
  tells its collections and the Tasks parked on it, and finally sweeps what was left unresolved; the
  snapshot it takes is what \<open>internal/core\<close> concludes from. Callbacks that share state take claims from
  \<open>internal/resource\<close>; those that replace files or trees go through \<open>internal/publish\<close>; those that edit
  files by diff through \<open>internal/patch\<close>. Everything printed passes \<open>internal/text\<close>.

  \<^bold>\<open>Theories and the code they model\<close> (paths under \<open>src/\<close>).

  \<^item> \<open>Prelude\<close>, \<open>Go_Std\<close>, \<open>Utf8\<close>: Go strings as byte lists; the parts of \<open>strings\<close>, \<open>path\<close>,
    \<open>strconv\<close> and \<open>unicode/utf8\<close> the sources call; shared list lemmas.
  \<^item> \<open>Core_Model\<close>, \<open>Core_Conclusion\<close>, \<open>Core_Tally\<close>: the value types of \<open>internal/core\<close>,
    \<open>InferConclusion\<close> and its modifiers (\<open>conclusion.go\<close>), tallies (\<open>tally.go\<close>, \<open>child_tally.go\<close>). The
    exit code and headline are those of the worst root verdict; warnings count at any depth; the child
    counts form a mergeable summary (a locale, interpreted on \<open>Merge\<close>).
  \<^item> \<open>Text_Sanitize\<close>, \<open>Text_Width\<close>, \<open>Text_Words\<close>: \<open>internal/text\<close>. Sanitized text is valid UTF-8 without
    controls (TAB apart, and LF in a block) or bidi embeddings, overrides and isolates; other runes pass; truncation fits its limit in bytes or cells, styled or not. The Unicode range
    tables of the width functions, which Go's \<open>unicode\<close> holds, are a parameter.
  \<^item> \<open>Patch_Parse\<close>, \<open>Patch_Safe\<close>, \<open>Patch_Apply\<close>: \<open>internal/patch\<close>. Parsed hunks hold the lines they count,
    parsed paths stay inside the root, errors are the documented ones, applying is exact and reversible.
  \<^item> \<open>Exclusion\<close>: the interface of the two coordinators, a symmetric conflict relation; interpreted in
    \<open>Resource\<close> (key overlap), \<open>Resource_Registry\<close> (holds) and \<open>Publish_Lock\<close> (destinations).
  \<^item> \<open>Resource\<close>, \<open>Resource_Registry\<close>: \<open>internal/resource\<close>. Conflicting claims never hold together, the
    pruned rescan of the queue on a release grants what a full one would, and every waiter progresses.
    \<open>filepath.EvalSymlinks\<close> is a parameter.
  \<^item> \<open>Publish_Commit\<close>, \<open>Publish_Recover\<close>, \<open>Publish_Lock\<close>: \<open>internal/publish\<close>. A file system is a map from
    paths to nodes, every system call a step that may fail or crash the process; the record of all file
    systems passed through is what a crash may leave. Commit is all or nothing and crash safe; Recover
    decides from digests and removes only what the interrupted commit planned. Digests, staging names
    and faults are parameters.
  \<^item> \<open>Engine_Order\<close>, \<open>Engine_Tally\<close>: ordered insertion and the collection tally
    (\<open>ledger_order.go\<close>, \<open>collection_tally.go\<close>); a tally's cached reads equal a fold over its members (locale
    \<open>edge_reader\<close>), and a settle wakes exactly the Tasks whose read changed.
  \<^item> \<open>Engine_Eligibility\<close>: outcomes of predecessors (\<open>eligibility.go\<close>). Collections answer for their entry
    while empty, so the reads recurse; they are partial functions, and they return when entries are
    acyclic (\<open>entries_ranked\<close>).
  \<^item> \<open>Engine_Queue\<close>: the start queue (\<open>sched_queue.go\<close>) with \<open>container/heap\<close> written out.
  \<^item> \<open>Engine_Schedule\<close>, \<open>Engine_Schedule_Inv\<close>, \<open>Engine_Run\<close>, \<open>Engine_Steps\<close>: the scheduler
    (\<open>scheduler_state.go\<close>, \<open>settle.go\<close>, \<open>eligibility.go\<close>, \<open>execution.go\<close>, \<open>wait.go\<close>, \<open>stall.go\<close>). The
    operations thread one state, a read that never returns is \<open>None\<close>; \<open>run_step\<close> has one rule per
    operation under the mutex, and remembers the claims being executed, so that each gives back the slot it
    took. From a topology declared before the first step, with acyclic entries and no builders
    (\<open>fresh_run\<close>), in every state reached: no parked Task is eligible, a start pass is work conserving and starts in declaration order, the counters are
    exact, every operation returns, a settle is contained, stranded work is released.
  \<^item> \<open>Engine_Stop\<close>: the later steps of a failed Sequence step and what an interrupt leaves
    (\<open>execution.go\<close>, \<open>interrupt.go\<close>), over the container tree. A failure changes no row but its later steps
    and what the cascade dooms, Tasks a predecessor of which failed (\<open>failed_pred\<close>). The walk up that ends at a Sequence stopped
    earlier misses nobody, a step declared later is stopped too, and after an interrupt nothing starts.
  \<^item> \<open>Engine_Walk\<close>, \<open>Engine_Cycle\<close>: the search for After cycles in a stalled run (\<open>cycle.go\<close>), a
    depth-first walk over any graph and the waits-for edges it reads. It is exact for those edges, and
    blocking what it found keeps the run well formed; the edges themselves can name a cycle that is none.
  \<^item> \<open>Engine_Position_Set\<close>, \<open>Engine_Counts\<close>, \<open>Engine_Verdict\<close>: \<open>position_set.go\<close> as a set,
    \<open>child_counts.go\<close> as a recount (locale \<open>counted_bag\<close>, interpreted on both counters), and the verdict of
    a container (\<open>snapshot.go\<close>).
  \<^item> \<open>Engine_Finish\<close>: the end of a run (\<open>finish.go\<close>, \<open>task_commit.go\<close>, \<open>misuse.go\<close>,
    \<open>output_lifecycle.go\<close>): the sweep is honest, and a run exits 0 exactly when nothing went wrong.
  \<^item> \<open>Find_Walk\<close>, \<open>Find_Coalesce\<close>: \<open>internal/find\<close>. The workers of a parallel search as a step relation:
    any interleaving finds what one worker would, none hangs or goes on forever. Sharing a search among
    identical ones: one live search per key, cancelled exactly when nobody waits. Directory listings are a
    parameter.
  \<^item> \<open>Render_Fold\<close>, \<open>Render_Effects\<close>: the written ledger (\<open>render/ledger_fold.go\<close>, \<open>effects.go\<close>). The fold
    lays out what its rule says, loses no counted item and never folds one section alone; a section is
    at most seven lines; quantities read back; the line about what was already mutated counts everything.
  \<^item> \<open>Checksum_Tree\<close>: file and tree digests (\<open>internal/checksum\<close>) with SHA-256 as a parameter: two trees with
    one digest have the same content, or two texts that were hashed collide. \<open>Stage_Name\<close>, the names of
    staging entries (\<open>publish/stagename\<close>), is shared with recovery.
  \<^item> \<open>Fingerprint_Path\<close>, \<open>Fingerprint_Value\<close>: \<open>internal/fingerprint\<close>. The same for the paths a Task's
    basis observes; the typed encoding of values is read back, and widening a float is exact.
    \<open>Digest_Frames\<close> holds the locale \<open>frames\<close> both digests of directories interpret.
  \<^item> \<open>Extract\<close>: unpacking archives (\<open>internal/extract\<close>) into a file system with links. No archive writes
    outside the staging directory or leaves a link that leads out; what unpacks is in its place.
  \<^item> \<open>Manifest_Store\<close>: the records one Run leaves for the next (\<open>internal/manifest\<close>) and their background
    writer, as interleaved critical sections, with the condition variable a \<open>Flush\<close> sleeps on: what it answered
    for is on disk, and no sleeper is left behind. \<open>encoding/json\<close> is a parameter no law is assumed of; what the
    next \<open>Open\<close> reads back is stated for encodings it gives back.

  \<^bold>\<open>Conventions.\<close> Errors are values of a sum or an option; error texts are dropped and error classes
  kept. A Go \<open>int\<close> is an integer: the counters concerned count declarations, Tasks and lines, which stay
  far from 64 bits (\<open>membersThrough\<close> adds one to a cursor without wrapping); where the width matters (word trees, the spinner's clock) it is written out.
  Loops whose end is not structural are \<open>function\<close>s with a measure. \<open>partial_function (option)\<close> stands for
  loops the code does not bound by itself (outcome reads, the chain of parents, the wake worklist, the start scan, the
  removal of trees); a theorem says when each returns. No fuel is used.
  Two definitions give a value where the source has none: \<open>park_on\<close> without a blocker, which no caller passes,
  leaves the state as it is, and a progress of the empty kind, which no constructor makes, reads Indeterminate.

  \<^bold>\<open>Not modelled.\<close> Container builders' gates (\<open>builder.go\<close>) are outside the scheduler's runs: a reachable
  state has no open hold and no failed builder, and Tasks, edges and membership are fixed while it runs. What is
  known to go wrong there (a wakeup lost on a sealed container that is given a builder, reads that do not
  return on cyclic entries) is recorded as findings. Parked waits
  (\<open>wait.go\<close> tickets, goroutine stacks) and what a stall seals for them (\<open>wait_inputs.go\<close>) are not part
  of the step relation. Painting, journaling, capture of child processes, JSON and terminal output are I/O around
  the modelled state. \<open>internal/agent\<close> and \<open>tools\<close> work on the Go type checker's output, \<open>eval\<close> and \<open>cmd\<close> on
  networks and standard streams; \<open>download\<close> on network requests.
\<close>

end
